(* ===== verification/Prelude.thy ===== *)
theory Prelude
  imports Main "HOL-Library.Word"
begin

text \<open>
  What the component theories share: the C integer types as machine words, the outcome of
  C code that may hit an \<open>ASSERT\<close> or touch memory out of bounds, block reads and
  writes of a byte buffer (\<open>memcpy\<close>), and the algebra of circular buffers.
\<close>

section \<open>C types\<close>

type_synonym u8 = "8 word"
type_synonym u16 = "16 word"
type_synonym u32 = "32 word"

named_theorems step_simps \<open>equations that unfold one operation of a component\<close>
named_theorems inv_intros \<open>preservation of a component's invariant by one operation\<close>

section \<open>Outcomes of C code\<close>

text \<open>
  \<open>ASSERT\<close> stops the firmware; an access outside the object it points into is
  undefined; a loop may not end; a division by zero traps. All are explicit outcomes, so that a theorem that an
  operation returns \<open>Inr\<close> includes its memory safety and its termination.
\<close>

datatype c_error = Assert_Fail | Mem_Fault | No_Return | Div_Zero

type_synonym 'a res = "c_error + 'a"

fun bindE :: "'a res \<Rightarrow> ('a \<Rightarrow> 'b res) \<Rightarrow> 'b res" where
  "bindE (Inl e) f = Inl e"
| "bindE (Inr x) f = f x"

definition c_assert :: "bool \<Rightarrow> 'a res \<Rightarrow> 'a res" where
  "c_assert b k = (if b then k else Inl Assert_Fail)"

lemma c_assert_simps [simp]:
  "c_assert True k = k" "c_assert False k = Inl Assert_Fail"
  by (simp_all add: c_assert_def)

lemma bindE_Inr_iff [simp]: "bindE m f = Inr y \<longleftrightarrow> (\<exists>x. m = Inr x \<and> f x = Inr y)"
  by (cases m) auto

lemma c_assert_Inr_iff [simp]: "c_assert b k = Inr y \<longleftrightarrow> b \<and> k = Inr y"
  by (simp add: c_assert_def)

section \<open>Buffers\<close>

text \<open>\<open>memcpy\<close> from and to a buffer: a block read and a block write, a fault out of range.\<close>

definition rd :: "'a list \<Rightarrow> nat \<Rightarrow> nat \<Rightarrow> 'a list res" where
  "rd b off n = (if off + n \<le> length b then Inr (take n (drop off b)) else Inl Mem_Fault)"

definition wr :: "'a list \<Rightarrow> nat \<Rightarrow> 'a list \<Rightarrow> 'a list res" where
  "wr b off ys =
     (if off + length ys \<le> length b
      then Inr (take off b @ ys @ drop (off + length ys) b) else Inl Mem_Fault)"

lemma rd_ok: "off + n \<le> length b \<Longrightarrow> rd b off n = Inr (take n (drop off b))"
  by (simp add: rd_def)

lemma wr_ok:
  "off + length ys \<le> length b \<Longrightarrow> wr b off ys = Inr (take off b @ ys @ drop (off + length ys) b)"
  by (simp add: wr_def)

lemma nth_wr:
  assumes "wr b off ys = Inr b'" and "j < length b"
  shows "b' ! j = (if off \<le> j \<and> j < off + length ys then ys ! (j - off) else b ! j)"
proof -
  from assms(1) have le: "off + length ys \<le> length b"
    and b': "b' = take off b @ ys @ drop (off + length ys) b"
    by (auto simp: wr_def split: if_splits)
  consider "j < off" | "off \<le> j" "j < off + length ys" | "off + length ys \<le> j" by linarith
  then show ?thesis
  proof cases
    case 1
    with le b' show ?thesis by (simp add: nth_append)
  next
    case 2
    then have "j - off < length ys" by linarith
    with 2 le b' show ?thesis by (simp add: nth_append)
  next
    case 3
    with le have "\<not> j < off" "\<not> j - off < length ys" by linarith+
    with 3 le b' assms(2) show ?thesis by (simp add: nth_append)
  qed
qed

lemma length_wr: "wr b off ys = Inr b' \<Longrightarrow> length b' = length b"
  by (auto simp: wr_def split: if_splits)

section \<open>Circular buffers\<close>

text \<open>The \<open>n\<close> elements from index \<open>r\<close> on, wrapping at the end of the buffer.\<close>

definition ring :: "'a list \<Rightarrow> nat \<Rightarrow> nat \<Rightarrow> 'a list" where
  "ring b r n = map (\<lambda>i. b ! ((r + i) mod length b)) [0..<n]"

text \<open>
  The two-part copies that \<open>cqueue.c\<close> and \<open>kfifo.c\<close> make: up to the end of
  the buffer, then from its start.
\<close>

definition get2 :: "'a list \<Rightarrow> nat \<Rightarrow> nat \<Rightarrow> 'a list res" where
  "get2 b r n = bindE (rd b r (min n (length b - r)))
     (\<lambda>x. bindE (rd b 0 (n - min n (length b - r))) (\<lambda>y. Inr (x @ y)))"

definition put2 :: "'a list \<Rightarrow> nat \<Rightarrow> 'a list \<Rightarrow> 'a list res" where
  "put2 b w ys = bindE (wr b w (take (length b - w) ys)) (\<lambda>b1. wr b1 0 (drop (length b - w) ys))"

lemma length_ring [simp]: "length (ring b r n) = n"
  by (simp add: ring_def)

lemma nth_ring [simp]: "i < n \<Longrightarrow> ring b r n ! i = b ! ((r + i) mod length b)"
  by (simp add: ring_def)

lemma ring_0 [simp]: "ring b r 0 = []"
  by (simp add: ring_def)

lemma take_ring: "take k (ring b r n) = ring b r (min k n)"
  by (rule nth_equalityI) auto

lemma drop_ring: "drop k (ring b r n) = ring b (r + k) (n - k)"
  by (rule nth_equalityI) (auto simp: add.assoc)

lemma ring_mod [simp]: "ring b (r mod length b) n = ring b r n"
  by (rule nth_equalityI) (auto simp: mod_add_left_eq)

lemma ring_append: "ring b r (m + n) = ring b r m @ ring b (r + m) n"
  by (rule nth_equalityI) (auto simp: nth_append add.assoc)

lemma ring_cong:
  "length b' = length b \<Longrightarrow>
   (\<And>i. i < n \<Longrightarrow> b' ! ((r + i) mod length b) = b ! ((r + i) mod length b)) \<Longrightarrow>
   ring b' r n = ring b r n"
  by (rule nth_equalityI) auto

lemma ring_flat:
  assumes "r + n \<le> length b"
  shows "ring b r n = take n (drop r b)"
  using assms by (intro nth_equalityI) auto

lemma ring_wrap:
  assumes "r < length b" and "n \<le> length b" and "length b \<le> r + n"
  shows "ring b r n = drop r b @ take (n - (length b - r)) b"
proof -
  have n: "length b - r + (n - (length b - r)) = n" and r: "r + (length b - r) = length b"
    using assms by simp_all
  have "ring b r n = ring b r (length b - r) @ ring b (length b) (n - (length b - r))"
    using ring_append [of b r "length b - r" "n - (length b - r)"] unfolding n r .
  moreover have "ring b (length b) (n - (length b - r)) = ring b 0 (n - (length b - r))"
    by (rule nth_equalityI) auto
  ultimately show ?thesis
    using assms by (simp add: ring_flat)
qed

lemma get2_ring:
  assumes "r < length b" and "n \<le> length b"
  shows "get2 b r n = Inr (ring b r n)"
proof (cases "r + n \<le> length b")
  case True
  then have "min n (length b - r) = n" by simp
  with True assms show ?thesis
    by (simp add: get2_def rd_ok ring_flat)
next
  case False
  then have "min n (length b - r) = length b - r" by simp
  with False assms show ?thesis
    by (simp add: get2_def rd_ok ring_wrap)
qed

text \<open>Where position \<open>j\<close> lies after the write index \<open>w\<close>, going round.\<close>

definition ring_dist :: "nat \<Rightarrow> nat \<Rightarrow> nat \<Rightarrow> nat" where
  "ring_dist l w j = (if w \<le> j then j - w else j + l - w)"

lemma ring_dist_add:
  assumes "w < l" and "i < l"
  shows "ring_dist l w ((w + i) mod l) = i"
proof (cases "w + i < l")
  case True
  then show ?thesis by (simp add: ring_dist_def)
next
  case False
  then have "(w + i) mod l = w + i - l"
    using assms by (simp add: mod_if)
  with False assms show ?thesis by (simp add: ring_dist_def)
qed

lemma put2_spec:
  assumes "w < length b" and "length ys \<le> length b"
  obtains b' where "put2 b w ys = Inr b'" and "length b' = length b"
    and "\<And>j. j < length b \<Longrightarrow> b' ! j =
           (if ring_dist (length b) w j < length ys then ys ! ring_dist (length b) w j else b ! j)"
proof -
  let ?k = "length b - w"
  have fits: "w + length (take ?k ys) \<le> length b" using assms by simp
  obtain b1 where b1: "wr b w (take ?k ys) = Inr b1"
    using wr_ok [OF fits] by blast
  then have l1: "length b1 = length b" by (rule length_wr)
  have fits': "0 + length (drop ?k ys) \<le> length b1" using assms l1 by simp
  obtain b' where b': "wr b1 0 (drop ?k ys) = Inr b'"
    using wr_ok [OF fits'] by blast
  then have l': "length b' = length b" using l1 by (simp add: length_wr)
  have "b' ! j = (if ring_dist (length b) w j < length ys then ys ! ring_dist (length b) w j else b ! j)"
    if j: "j < length b" for j
    using nth_wr [OF b'] nth_wr [OF b1 j] j l1 assms by (auto simp: ring_dist_def min_def add.commute)
  with b1 b' l' that show ?thesis by (simp add: put2_def)
qed

text \<open>Writing behind the live region appends to it.\<close>

lemma put2_ring:
  assumes "0 < length b" and "n + length ys \<le> length b" and "w = (r + n) mod length b"
  obtains b' where "put2 b w ys = Inr b'" and "length b' = length b"
    and "ring b' r (n + length ys) = ring b r n @ ys"
proof -
  let ?l = "length b"
  have w: "w < ?l" using assms by simp
  have len: "length ys \<le> ?l" using assms by simp
  obtain b' where b': "put2 b w ys = Inr b'" "length b' = ?l"
    and nth: "\<And>j. j < ?l \<Longrightarrow> b' ! j =
           (if ring_dist ?l w j < length ys then ys ! ring_dist ?l w j else b ! j)"
    using put2_spec [OF w len] by blast
  have old: "ring_dist ?l w ((r + i) mod ?l) \<ge> length ys" if i: "i < n" for i
  proof -
    let ?d = "?l - n + i"
    have "(w + ?d) mod ?l = (r + n + ?d) mod ?l"
      using assms(3) by (simp add: mod_add_left_eq)
    also have "r + n + ?d = r + i + ?l"
      using assms(2) i by simp
    finally have "(w + ?d) mod ?l = (r + i) mod ?l" by simp
    moreover have "ring_dist ?l w ((w + ?d) mod ?l) = ?d"
      using w i assms(2) by (intro ring_dist_add) auto
    ultimately show ?thesis using assms(2) i by simp
  qed
  have new: "ring_dist ?l w ((r + n + i) mod ?l) = i" if i: "i < length ys" for i
  proof -
    have "(w + i) mod ?l = (r + n + i) mod ?l"
      using assms(3) by (simp add: mod_add_left_eq)
    moreover have "ring_dist ?l w ((w + i) mod ?l) = i"
      using w i assms(2) by (intro ring_dist_add) auto
    ultimately show ?thesis by simp
  qed
  have "ring b' r (n + length ys) = ring b r n @ ys"
  proof (rule nth_equalityI)
    fix i assume "i < length (ring b' r (n + length ys))"
    then have i: "i < n + length ys" by simp
    show "ring b' r (n + length ys) ! i = (ring b r n @ ys) ! i"
    proof (cases "i < n")
      case True
      with old [OF True] nth b'(2) assms(1) i show ?thesis by (simp add: nth_append)
    next
      case False
      with i have "i - n < length ys" by simp
      with False i new [of "i - n"] nth b'(2) assms(1) show ?thesis
        by (simp add: nth_append add.assoc)
    qed
  qed simp
  with b' that show ?thesis by blast
qed

section \<open>Two-part copies\<close>

text \<open>\<open>memcpy(dst + d, src + s, n)\<close> between two distinct buffers.\<close>

definition cpy :: "'a list \<Rightarrow> nat \<Rightarrow> 'a list \<Rightarrow> nat \<Rightarrow> nat \<Rightarrow> 'a list res" where
  "cpy dst d src s n = bindE (rd src s n) (wr dst d)"

lemma wr_nil [simp]: "off \<le> length b \<Longrightarrow> wr b off [] = Inr b"
  by (simp add: wr_def)

lemma wr_append:
  assumes "wr b off xs = Inr b1"
  shows "wr b1 (off + length xs) ys = wr b off (xs @ ys)"
  using assms by (auto simp: wr_def ac_simps split: if_splits)

lemma cpy_put1:
  assumes "w < length b" and "n < length b - w" and "n \<le> length e"
  shows "cpy b w e 0 n = put2 b w (take n e)"
  using assms by (simp add: cpy_def put2_def rd_ok wr_ok)

lemma cpy_put2:
  assumes "w < length b" and "length b - w \<le> n" and "n \<le> length e"
  shows "bindE (cpy b w e 0 (length b - w)) (\<lambda>b1. cpy b1 0 e (length b - w) (n - (length b - w))) =
         put2 b w (take n e)"
  using assms by (simp add: cpy_def put2_def rd_ok wr_ok min_def drop_take)

lemma cpy_get1:
  assumes "r < length b" and "n < length b - r"
  shows "cpy e off b r n = wr e off (ring b r n)"
  using assms by (simp add: cpy_def rd_ok ring_flat)

lemma cpy_get2:
  assumes "r < length b" and "length b - r \<le> n" and "n \<le> length b" and "n \<le> length e"
  shows "bindE (cpy e 0 b r (length b - r)) (\<lambda>e1. cpy e1 (length b - r) b 0 (n - (length b - r))) =
         wr e 0 (ring b r n)"
proof -
  have fits: "0 + length (drop r b) \<le> length e" using assms by simp
  obtain e1 where e1: "wr e 0 (drop r b) = Inr e1" using wr_ok [OF fits] by blast
  have "wr e1 (length b - r) (take (n - (length b - r)) b) = wr e 0 (ring b r n)"
    using wr_append [OF e1] assms by (simp add: ring_wrap)
  with e1 assms show ?thesis by (simp add: cpy_def rd_ok)
qed

section \<open>Signed comparison of small words\<close>

lemma sint_small:
  fixes x :: u32
  assumes "unat x < 2 ^ 31"
  shows "sint x = int (unat x)"
proof -
  have x: "uint x = int (unat x)" by simp
  have up: "int k < 2 ^ 31" if "k < 2 ^ 31" for k :: nat using that by simp
  have low: "- (2 ^ 31) \<le> int k" for k :: nat by simp
  have "sint x = signed_take_bit 31 (uint x)"
    by (rule trans [OF sint_uint]) simp
  also have "\<dots> = int (unat x)"
    unfolding x by (rule signed_take_bit_int_eq_self [OF low up [OF assms]])
  finally show ?thesis .
qed

lemma unat_dec: "0 < unat x \<Longrightarrow> unat (x - 1) = unat x - 1"
  by (intro unat_minus_one) auto

lemma sless_small:
  fixes x y :: u32
  assumes "unat x < 2 ^ 31" and "unat y < 2 ^ 31"
  shows "x <s y \<longleftrightarrow> unat x < unat y"
  unfolding word_sless_alt sint_small [OF assms(1)] sint_small [OF assms(2)] by (rule of_nat_less_iff)

lemma pred_neg:
  fixes x :: u32
  assumes "unat x < 2 ^ 31"
  shows "x - 1 <s 0 \<longleftrightarrow> x = 0"
proof (cases "x = 0")
  case False
  then have "unat (x - 1) = unat x - 1"
    by (rule unat_minus_one)
  with assms False show ?thesis by (simp add: sless_small)
qed simp

section \<open>Filling a circular buffer backwards\<close>

lemma ring_Suc_front:
  assumes "i < length b" and "Suc m \<le> length b"
  shows "ring (b[i := x]) i (Suc m) = x # ring b (Suc i) m"
proof (rule nth_equalityI)
  fix j assume "j < length (ring (b[i := x]) i (Suc m))"
  then have j: "j < Suc m" by simp
  show "ring (b[i := x]) i (Suc m) ! j = (x # ring b (Suc i) m) ! j"
  proof (cases j)
    case 0
    with assms show ?thesis by simp
  next
    case (Suc d)
    have "(i + j) mod length b \<noteq> i"
      using Suc j assms by (auto simp: mod_if)
    with Suc j assms show ?thesis by (simp add: nth_list_update)
  qed
qed simp

lemma unat_of_nat32: "n < 2 ^ 31 \<Longrightarrow> unat (of_nat n :: u32) = n"
  by (simp add: unat_of_nat take_bit_nat_eq_self)

lemma unat_ucast16 [simp]: "unat (ucast (x :: u16) :: u32) = unat x"
proof -
  have "unat x < 2 ^ 32" by (rule less_trans [OF unsigned_less]) simp
  then show ?thesis by (simp add: unsigned_ucast_eq take_bit_nat_eq_self)
qed

text \<open>A span of a buffer handed out as a pointer and a length; a copy of no bytes from \<open>NULL\<close>
  does nothing.\<close>

definition cpy_span :: "u8 list \<Rightarrow> nat \<Rightarrow> u8 list \<Rightarrow> u32 option \<Rightarrow> u32 \<Rightarrow> u8 list res" where
  "cpy_span e d b p n = (case p of
       None \<Rightarrow> if n = 0 then Inr e else Inl Mem_Fault
     | Some off \<Rightarrow> cpy e d b (unat off) (unat n))"

definition span_bytes :: "u8 list \<Rightarrow> u32 option \<Rightarrow> u32 \<Rightarrow> u8 list" where
  "span_bytes b p n = (case p of None \<Rightarrow> [] | Some off \<Rightarrow> take (unat n) (drop (unat off) b))"

definition span_ok :: "u8 list \<Rightarrow> u32 option \<Rightarrow> u32 \<Rightarrow> bool" where
  "span_ok b p n \<longleftrightarrow> (case p of None \<Rightarrow> n = 0 | Some off \<Rightarrow> unat off + unat n \<le> length b)"

lemma cpy_span_wr:
  "span_ok b p n \<Longrightarrow> d \<le> length e \<Longrightarrow> cpy_span e d b p n = wr e d (span_bytes b p n)"
  by (auto simp: cpy_span_def span_ok_def span_bytes_def cpy_def rd_ok split: option.splits)

lemma cpy_spans:
  assumes "span_ok b p1 n1" and "span_ok b p2 n2" and "length (span_bytes b p1 n1) = unat n1"
    and "length (span_bytes b p1 n1 @ span_bytes b p2 n2) \<le> length e"
  shows "bindE (cpy_span e 0 b p1 n1) (\<lambda>d. cpy_span d (unat n1) b p2 n2) =
         wr e 0 (span_bytes b p1 n1 @ span_bytes b p2 n2)"
proof -
  have fits: "0 + length (span_bytes b p1 n1) \<le> length e" using assms(4) by simp
  obtain e1 where e1: "wr e 0 (span_bytes b p1 n1) = Inr e1" using wr_ok [OF fits] by blast
  then have "length e1 = length e" by (rule length_wr)
  with assms fits have "cpy_span e1 (unat n1) b p2 n2 = wr e1 (unat n1) (span_bytes b p2 n2)"
    by (intro cpy_span_wr) simp_all
  with wr_append [OF e1, of "span_bytes b p2 n2"] assms(1,3) e1 show ?thesis
    by (simp add: cpy_span_wr)
qed

lemma bindE_assoc: "bindE (bindE m f) g = bindE m (\<lambda>x. bindE (f x) g)"
  by (cases m) simp_all

section \<open>Copies split at the end of the buffer\<close>

lemma cpy_put:
  assumes "w < length b" and "n \<le> length e" and "n \<le> length b" and "k = min n (length b - w)"
  shows "bindE (cpy b w e 0 k) (\<lambda>b1. cpy b1 0 e k (n - k)) = put2 b w (take n e)"
proof (cases "n < length b - w")
  case True
  with assms(4) have k: "k = n" by simp
  obtain b1 where b1: "wr b w (take n e) = Inr b1"
    using wr_ok [of w "take n e" b] True assms(2) by auto
  with True k assms(1,2) show ?thesis
    by (simp add: cpy_def rd_ok put2_def)
next
  case False
  with assms(4) have k: "k = length b - w" by simp
  from False assms(1,2) show ?thesis unfolding k by (intro cpy_put2) simp_all
qed

lemma cpy_get:
  assumes "r < length b" and "n \<le> length e" and "n \<le> length b" and "k = min n (length b - r)"
  shows "bindE (cpy e 0 b r k) (\<lambda>e1. cpy e1 k b 0 (n - k)) = wr e 0 (ring b r n)"
proof (cases "n < length b - r")
  case True
  with assms(4) have k: "k = n" by simp
  obtain e1 where e1: "wr e 0 (ring b r n) = Inr e1"
    using wr_ok [of 0 "ring b r n" e] assms(2) by auto
  moreover from this have "length e1 = length e" by (rule length_wr)
  ultimately show ?thesis
    using True k assms(1,2) by (simp add: cpy_get1) (simp add: cpy_def rd_ok)
next
  case False
  with assms(4) have k: "k = length b - r" by simp
  from False assms(1-3) show ?thesis unfolding k by (intro cpy_get2) simp_all
qed

lemma unat_min: "unat (min a b) = min (unat a) (unat b)"
  by (simp add: min_def word_le_nat_alt)

section \<open>Loops over a list\<close>

fun foldM :: "('a \<Rightarrow> 's \<Rightarrow> 's res) \<Rightarrow> 'a list \<Rightarrow> 's \<Rightarrow> 's res" where
  "foldM f [] s = Inr s"
| "foldM f (x # xs) s = bindE (f x s) (foldM f xs)"

text \<open>An invariant of the body carries over to the walk.\<close>

lemma foldM_inv:
  assumes "\<And>x s. x \<in> set xs \<Longrightarrow> P s \<Longrightarrow> \<exists>s'. f x s = Inr s' \<and> P s'" and "P s"
  shows "\<exists>s'. foldM f xs s = Inr s' \<and> P s'"
  using assms
proof (induction xs arbitrary: s)
  case (Cons x xs)
  from Cons.prems(1) [of x s] Cons.prems(2) obtain t where "f x s = Inr t" "P t" by auto
  with Cons.IH [of t] Cons.prems(1) show ?case by auto
qed simp

text \<open>The same with the set of the elements visited.\<close>

lemma foldM_visited:
  assumes "distinct xs" and "P {} s"
    and "\<And>x D s. x \<in> set xs \<Longrightarrow> x \<notin> D \<Longrightarrow> D \<subseteq> set xs \<Longrightarrow> P D s \<Longrightarrow> \<exists>s'. f x s = Inr s' \<and> P (insert x D) s'"
  shows "\<exists>s'. foldM f xs s = Inr s' \<and> P (set xs) s'"
proof -
  have "\<exists>s'. foldM f ys s = Inr s' \<and> P (D \<union> set ys) s'"
    if "distinct ys" "set ys \<inter> D = {}" "D \<union> set ys \<subseteq> set xs" "P D s" for ys D s
    using that
  proof (induction ys arbitrary: D s)
    case (Cons y ys)
    obtain s1 where 1: "f y s = Inr s1" "P (insert y D) s1"
      using assms(3) [of y D s] Cons.prems by auto
    have "\<exists>s'. foldM f ys s1 = Inr s' \<and> P (insert y D \<union> set ys) s'"
      by (rule Cons.IH) (use Cons.prems 1(2) in auto)
    with 1(1) show ?case by simp
  qed simp
  from this [of xs "{}" s] assms(1,2) show ?thesis by simp
qed

end
