(* ===== verification/Fifo.thy ===== *)
theory Fifo
  imports Prelude
begin

text \<open>
  The interface of a bounded byte queue, as the two circular buffers of the firmware
  (\<open>utils/cqueue\<close> and \<open>utils/kfifo\<close>) provide it. The two differ in what they do with a
  request that does not fit: a policy says how many bytes of a request are moved. Every
  operation returns: the laws exclude faults. The clients use the refinement theorem at
  the end: a session with the buffer is a session with a list.
\<close>

section \<open>Policies\<close>

text \<open>How many of \<open>n\<close> bytes are moved when \<open>room\<close> are possible.\<close>

definition all_or_nothing :: "nat \<Rightarrow> nat \<Rightarrow> nat" where
  "all_or_nothing room n = (if n \<le> room then n else 0)"

definition as_much_as_fits :: "nat \<Rightarrow> nat \<Rightarrow> nat" where
  "as_much_as_fits room n = min n room"

section \<open>Sessions\<close>

text \<open>A client's session, and what it saw: the bytes accepted and the bytes delivered.\<close>

datatype queue_op = Put "u8 list" | Get nat

fun run_queue ::
  "(u8 list \<Rightarrow> 'q \<Rightarrow> (nat \<times> 'q) res) \<Rightarrow> (nat \<Rightarrow> 'q \<Rightarrow> (u8 list \<times> 'q) res) \<Rightarrow>
   queue_op list \<Rightarrow> 'q \<Rightarrow> (u8 list \<times> u8 list \<times> 'q) res" where
  "run_queue put get [] q = Inr ([], [], q)"
| "run_queue put get (Put xs # ops) q =
     bindE (put xs q) (\<lambda>(n, q1).
     bindE (run_queue put get ops q1) (\<lambda>(ins, outs, q2). Inr (take n xs @ ins, outs, q2)))"
| "run_queue put get (Get n # ops) q =
     bindE (get n q) (\<lambda>(ys, q1).
     bindE (run_queue put get ops q1) (\<lambda>(ins, outs, q2). Inr (ins, ys @ outs, q2)))"

text \<open>The same session with a list of at most \<open>c\<close> bytes.\<close>

fun run_list ::
  "(nat \<Rightarrow> nat \<Rightarrow> nat) \<Rightarrow> nat \<Rightarrow> queue_op list \<Rightarrow> u8 list \<Rightarrow> u8 list \<times> u8 list \<times> u8 list" where
  "run_list pol c [] l = ([], [], l)"
| "run_list pol c (Put xs # ops) l =
     (let acc = take (pol (c - length l) (length xs)) xs;
          (ins, outs, l') = run_list pol c ops (l @ acc)
      in (acc @ ins, outs, l'))"
| "run_list pol c (Get n # ops) l =
     (let k = pol (length l) n;
          (ins, outs, l') = run_list pol c ops (drop k l)
      in (ins, take k l @ outs, l'))"

text \<open>The list session is first in, first out: what went in is what came out and what is left.\<close>

lemma run_list_fifo: "run_list pol c ops l = (ins, outs, l') \<Longrightarrow> l @ ins = outs @ l'"
proof (induction ops arbitrary: l ins outs l')
  case (Cons op ops)
  show ?case
  proof (cases op)
    case (Put xs)
    with Cons.prems Cons.IH show ?thesis by (force simp: Let_def split: prod.splits)
  next
    case (Get n)
    let ?k = "pol (length l) n"
    from Get Cons.prems obtain outs' where "run_list pol c ops (drop ?k l) = (ins, outs', l')"
      "outs = take ?k l @ outs'" by (auto simp: Let_def split: prod.splits)
    with Cons.IH have "drop ?k l @ ins = outs' @ l'" "outs = take ?k l @ outs'" by blast+
    then show ?thesis by (metis append.assoc append_take_drop_id)
  qed
qed simp

text \<open>The requests a 32-bit length argument can express.\<close>

fun op_fits :: "queue_op \<Rightarrow> bool" where
  "op_fits (Put xs) \<longleftrightarrow> length xs < 2 ^ 31"
| "op_fits (Get n) \<longleftrightarrow> n < 2 ^ 31"

section \<open>The interface\<close>

locale byte_queue =
  fixes inv :: "'q \<Rightarrow> bool"
    and contents :: "'q \<Rightarrow> u8 list"
    and cap :: "'q \<Rightarrow> nat"
    and put :: "u8 list \<Rightarrow> 'q \<Rightarrow> (nat \<times> 'q) res"
    and get :: "nat \<Rightarrow> 'q \<Rightarrow> (u8 list \<times> 'q) res"
    and pol :: "nat \<Rightarrow> nat \<Rightarrow> nat"
  assumes bounded: "inv q \<Longrightarrow> length (contents q) \<le> cap q"
    and put_law: "inv q \<Longrightarrow> length xs < 2 ^ 31 \<Longrightarrow> n = pol (cap q - length (contents q)) (length xs) \<Longrightarrow>
      \<exists>q'. put xs q = Inr (n, q') \<and> inv q' \<and> cap q' = cap q \<and>
           contents q' = contents q @ take n xs"
    and get_law: "inv q \<Longrightarrow> n < 2 ^ 31 \<Longrightarrow> k = pol (length (contents q)) n \<Longrightarrow>
      \<exists>q'. get n q = Inr (take k (contents q), q') \<and> inv q' \<and> cap q' = cap q \<and>
           contents q' = drop k (contents q)"
begin

text \<open>A session with the buffer is the session with the list it stands for.\<close>

lemma refines_list:
  assumes "inv q" and "\<forall>op \<in> set ops. op_fits op"
    and "run_list pol (cap q) ops (contents q) = (ins, outs, l)"
  shows "\<exists>q'. run_queue put get ops q = Inr (ins, outs, q') \<and> inv q' \<and> cap q' = cap q \<and>
           contents q' = l"
  using assms
proof (induction ops arbitrary: q ins outs l)
  case (Cons op ops)
  show ?case
  proof (cases op)
    case (Put xs)
    let ?n = "pol (cap q - length (contents q)) (length xs)"
    from Put Cons.prems put_law [of q xs ?n] obtain q1 where
      1: "put xs q = Inr (?n, q1)" "inv q1" "cap q1 = cap q" "contents q1 = contents q @ take ?n xs"
      by auto
    from Put Cons.prems(3) 1(3,4) obtain ins' where
      "run_list pol (cap q1) ops (contents q1) = (ins', outs, l)" "ins = take ?n xs @ ins'"
      by (auto simp: Let_def split: prod.splits)
    with Cons.IH [OF 1(2)] Cons.prems(2) 1 Put show ?thesis by force
  next
    case (Get n)
    let ?k = "pol (length (contents q)) n"
    from Get Cons.prems get_law [of q n ?k] obtain q1 where
      1: "get n q = Inr (take ?k (contents q), q1)" "inv q1" "cap q1 = cap q"
        "contents q1 = drop ?k (contents q)" by auto
    from Get Cons.prems(3) 1(3,4) obtain outs' where
      "run_list pol (cap q1) ops (contents q1) = (ins, outs', l)"
      "outs = take ?k (contents q) @ outs'"
      by (auto simp: Let_def split: prod.splits)
    with Cons.IH [OF 1(2)] Cons.prems(2) 1 Get show ?thesis by force
  qed
qed simp

lemma fifo:
  assumes "inv q" and "\<forall>op \<in> set ops. op_fits op"
  shows "\<exists>ins outs q'. run_queue put get ops q = Inr (ins, outs, q') \<and>
           run_list pol (cap q) ops (contents q) = (ins, outs, contents q') \<and>
           inv q' \<and> contents q @ ins = outs @ contents q'"
proof -
  obtain ins outs l where l: "run_list pol (cap q) ops (contents q) = (ins, outs, l)"
    by (cases "run_list pol (cap q) ops (contents q)")
  with refines_list [OF assms l] run_list_fifo [OF l] show ?thesis by auto
qed

end

end
