(* ===== verification/CQueue.thy ===== *)
theory CQueue
  imports Fifo
begin

text \<open>
  The circular byte queue of \<open>utils/cqueue/cqueue.c\<close>, which carries every audio and RPC
  stream of the firmware. The four \<open>int\<close> fields and the \<open>unsigned int\<close> arguments are
  32-bit words: the code mixes the two types and C's conversions keep the bits. Buffers
  are byte lists, a pointer into \<open>base\<close> is its offset, \<open>NULL\<close> is \<open>None\<close>.
  The abstraction \<open>cq_contents\<close> reads the queued bytes in order.
\<close>

section \<open>The queue\<close>

datatype cq_status = CQ_OK | CQ_ERR

record cqueue =
  cq_read :: u32
  cq_write :: u32
  cq_size :: u32
  cq_len :: u32
  cq_base :: "u8 list option"

text \<open>Dereferencing \<open>base\<close>.\<close>

definition cq_buf :: "cqueue \<Rightarrow> u8 list res" where
  "cq_buf q = (case cq_base q of None \<Rightarrow> Inl Mem_Fault | Some b \<Rightarrow> Inr b)"

definition InitCQueue :: "cqueue \<Rightarrow> u32 \<Rightarrow> u8 list option \<Rightarrow> cq_status \<times> cqueue" where
  "InitCQueue q sz buf =
     (let q1 = q\<lparr>cq_size := sz, cq_base := buf, cq_len := 0\<rparr> in
      if buf = None then (CQ_ERR, q1) else (CQ_OK, q1\<lparr>cq_read := 0, cq_write := 0\<rparr>))"

definition IsEmptyCQueue :: "cqueue \<Rightarrow> cq_status" where
  "IsEmptyCQueue q = (if cq_len q = 0 then CQ_OK else CQ_ERR)"

definition LengthOfCQueue :: "cqueue \<Rightarrow> u32" where
  "LengthOfCQueue q = cq_len q"

definition AvailableOfCQueue :: "cqueue \<Rightarrow> u32" where
  "AvailableOfCQueue q = cq_size q - cq_len q"

text \<open>\<open>EnCQueue\<close>: with \<open>e = NULL\<close> the bytes already in place are taken as written.\<close>

definition EnCQueue :: "cqueue \<Rightarrow> u8 list option \<Rightarrow> u32 \<Rightarrow> (cq_status \<times> cqueue) res" where
  "EnCQueue q e len =
     (if AvailableOfCQueue q < len then Inr (CQ_ERR, q)
      else
        let q1 = q\<lparr>cq_len := cq_len q + len\<rparr>;
            bytesToTheEnd = cq_size q - cq_write q in
        if bytesToTheEnd > len then
          (case e of
             None \<Rightarrow> Inr (CQ_OK, q1\<lparr>cq_write := cq_write q + len\<rparr>)
           | Some src \<Rightarrow>
               bindE (cq_buf q) (\<lambda>b.
               bindE (cpy b (unat (cq_write q)) src 0 (unat len)) (\<lambda>b1.
               Inr (CQ_OK, q1\<lparr>cq_base := Some b1, cq_write := cq_write q + len\<rparr>))))
        else
          (case e of
             None \<Rightarrow> Inr (CQ_OK, q1\<lparr>cq_write := len - bytesToTheEnd\<rparr>)
           | Some src \<Rightarrow>
               bindE (cq_buf q) (\<lambda>b.
               bindE (bindE (cpy b (unat (cq_write q)) src 0 (unat bytesToTheEnd)) (\<lambda>b1.
                      cpy b1 0 src (unat bytesToTheEnd) (unat (len - bytesToTheEnd)))) (\<lambda>b2.
               Inr (CQ_OK, q1\<lparr>cq_base := Some b2, cq_write := len - bytesToTheEnd\<rparr>)))))"

text \<open>
  \<open>EnCQueueFront\<close> walks the source backwards and the buffer with it. \<open>read\<close> is a signed
  \<open>int\<close> there: the test \<open>Q->read < 0\<close> is what wraps it. The counter is \<open>len\<close>, and
  \<open>e\<close> points to the element before it.
\<close>

fun front_loop :: "u8 list \<Rightarrow> nat \<Rightarrow> u32 \<Rightarrow> u8 list \<Rightarrow> u32 \<Rightarrow> (u8 list \<times> u32) res" where
  "front_loop e 0 sz b r = Inr (b, r)"
| "front_loop e (Suc k) sz b r =
     (if unat r < length b \<and> k < length e
      then front_loop e k sz (b[unat r := e ! k]) (if r - 1 <s 0 then sz - 1 else r - 1)
      else Inl Mem_Fault)"

definition EnCQueueFront :: "cqueue \<Rightarrow> u8 list \<Rightarrow> u32 \<Rightarrow> (cq_status \<times> cqueue) res" where
  "EnCQueueFront q e len =
     (if AvailableOfCQueue q < len then Inr (CQ_ERR, q)
      else
        let r0 = (if cq_read q = 0 then cq_size q - 1 else cq_read q - 1) in
        bindE (cq_buf q) (\<lambda>b.
        bindE (front_loop e (unat len) (cq_size q) b r0) (\<lambda>(b1, r1).
        Inr (CQ_OK, q\<lparr>cq_len := cq_len q + len, cq_base := Some b1,
                      cq_read := (if r1 = cq_size q - 1 then 0 else r1 + 1)\<rparr>))))"

text \<open>\<open>DeCQueue\<close>: \<open>e\<close> is the destination, returned as written; \<open>NULL\<close> drops the bytes.\<close>

definition DeCQueue ::
  "cqueue \<Rightarrow> u8 list option \<Rightarrow> u32 \<Rightarrow> (cq_status \<times> u8 list option \<times> cqueue) res" where
  "DeCQueue q e len =
     (if LengthOfCQueue q < len then Inr (CQ_ERR, e, q)
      else
        let q1 = q\<lparr>cq_len := cq_len q - len\<rparr> in
        case e of
          Some dst \<Rightarrow>
            bindE (cq_buf q) (\<lambda>b.
            let bytesToTheEnd = cq_size q - cq_read q in
            if bytesToTheEnd > len then
              bindE (cpy dst 0 b (unat (cq_read q)) (unat len)) (\<lambda>d.
              Inr (CQ_OK, Some d, q1\<lparr>cq_read := cq_read q + len\<rparr>))
            else
              bindE (bindE (cpy dst 0 b (unat (cq_read q)) (unat bytesToTheEnd)) (\<lambda>d.
                     cpy d (unat bytesToTheEnd) b 0 (unat (len - bytesToTheEnd)))) (\<lambda>d.
              Inr (CQ_OK, Some d, q1\<lparr>cq_read := len - bytesToTheEnd\<rparr>)))
        | None \<Rightarrow>
            Inr (CQ_OK, None,
                 q1\<lparr>cq_read := (if 0 <s cq_size q then (cq_read q + len) mod cq_size q else 0)\<rparr>))"

text \<open>
  \<open>EnCQueue_AI\<close> makes room for the new bytes. With a frame length getter it discards
  frame by frame until there is room, in a loop that need not end; without one it discards
  \<open>len\<close> bytes. The getter is the caller's function: a parameter.
\<close>

partial_function (option) ai_discard ::
  "(cqueue \<Rightarrow> u16) \<Rightarrow> u32 \<Rightarrow> cqueue \<Rightarrow> cqueue res option" where
  "ai_discard getter len q =
     (case DeCQueue q None (ucast (getter q)) of
        Inl err \<Rightarrow> Some (Inl err)
      | Inr (st, e, q1) \<Rightarrow>
          if AvailableOfCQueue q1 < len then ai_discard getter len q1 else Some (Inr q1))"

definition EnCQueue_AI ::
  "cqueue \<Rightarrow> u8 list option \<Rightarrow> u32 \<Rightarrow> (cqueue \<Rightarrow> u16) option \<Rightarrow> (cq_status \<times> cqueue) res option" where
  "EnCQueue_AI q e len getter =
     (if AvailableOfCQueue q < len then
        (case (case getter of
                 Some g \<Rightarrow> ai_discard g len q
               | None \<Rightarrow> Some (bindE (DeCQueue q None len) (\<lambda>(st, e', q1). Inr q1))) of
           None \<Rightarrow> None
         | Some m \<Rightarrow> Some (bindE m (\<lambda>q1. bindE (EnCQueue q1 e len) (\<lambda>(st, q2). Inr (CQ_ERR, q2)))))
      else Some (bindE (EnCQueue q e len) (\<lambda>(st, q2). Inr (CQ_OK, q2))))"

definition GetCQueueReadOffset :: "cqueue option \<Rightarrow> u32 res" where
  "GetCQueueReadOffset Q = (case Q of None \<Rightarrow> Inl Assert_Fail | Some q \<Rightarrow> Inr (cq_read q))"

definition GetCQueueWriteOffset :: "cqueue option \<Rightarrow> u32 res" where
  "GetCQueueWriteOffset Q = (case Q of None \<Rightarrow> Inl Assert_Fail | Some q \<Rightarrow> Inr (cq_write q))"

definition GetCQueueReadPointer :: "cqueue \<Rightarrow> u32" where
  "GetCQueueReadPointer q = cq_read q"

text \<open>
  \<open>PeekCQueue\<close> hands out at most two spans of the buffer through its pointer arguments,
  which it leaves alone when it fails.
\<close>

type_synonym spans = "u32 option \<times> u32 \<times> u32 option \<times> u32"

definition PeekCQueue :: "cqueue \<Rightarrow> u32 \<Rightarrow> spans \<Rightarrow> cq_status \<times> spans" where
  "PeekCQueue q len_want out =
     (if LengthOfCQueue q < len_want then (CQ_ERR, out)
      else if cq_read q <s cq_write q \<or> cq_size q - cq_read q \<ge> len_want
      then (CQ_OK, Some (cq_read q), len_want, None, 0)
      else (let len1 = cq_size q - cq_read q in
            (CQ_OK, Some (cq_read q), len1, Some 0, len_want - len1)))"

definition PeekCQueueToBuf :: "cqueue \<Rightarrow> u8 list \<Rightarrow> u32 \<Rightarrow> (cq_status \<times> u8 list) res" where
  "PeekCQueueToBuf q e len =
     (case PeekCQueue q len (None, 0, None, 0) of
        (CQ_OK, e1, len1, e2, len2) \<Rightarrow>
          if len = len1 + len2 then
            bindE (cq_buf q) (\<lambda>b.
            bindE (cpy_span e 0 b e1 len1) (\<lambda>d.
            bindE (cpy_span d (unat len1) b e2 len2) (\<lambda>d.
            Inr (CQ_OK, d))))
          else Inr (CQ_ERR, e)
      | (CQ_ERR, _) \<Rightarrow> Inr (CQ_ERR, e))"

definition PeekCQueueToBufWithOffset ::
  "cqueue option \<Rightarrow> u8 list option \<Rightarrow> u32 \<Rightarrow> u32 \<Rightarrow> (cq_status \<times> u8 list) res" where
  "PeekCQueueToBufWithOffset Q E len_want offset =
     (case (Q, E) of
        (Some q, Some e) \<Rightarrow>
          c_assert (\<not> (offset < cq_write q \<and> offset + len_want > cq_write q))
          (c_assert (\<not> (offset > cq_write q \<and> offset + len_want > cq_size q \<and>
                        offset + len_want - cq_size q > cq_write q))
          (let (e1, len1, e2, len2) =
             (if cq_write q > offset \<or> cq_size q - offset \<ge> len_want
              then (Some offset, len_want, None, 0)
              else (Some offset, cq_size q - offset, Some 0, len_want - (cq_size q - offset))) in
           if len_want = len1 + len2 then
             bindE (cq_buf q) (\<lambda>b.
             bindE (cpy_span e 0 b e1 len1) (\<lambda>d.
             bindE (cpy_span d (unat len1) b e2 len2) (\<lambda>d.
             Inr (CQ_OK, d))))
           else Inr (CQ_ERR, e)))
      | _ \<Rightarrow> Inl Assert_Fail)"

definition PullCQueue :: "cqueue \<Rightarrow> u8 list \<Rightarrow> u32 \<Rightarrow> (cq_status \<times> u8 list \<times> cqueue) res" where
  "PullCQueue q e len =
     (case PeekCQueue q len (None, 0, None, 0) of
        (CQ_OK, e1, len1, e2, len2) \<Rightarrow>
          if len = len1 + len2 then
            bindE (cq_buf q) (\<lambda>b.
            bindE (cpy_span e 0 b e1 len1) (\<lambda>d.
            bindE (cpy_span d (unat len1) b e2 len2) (\<lambda>d.
            bindE (DeCQueue q None len) (\<lambda>(st, e', q1).
            Inr (CQ_OK, d, q1)))))
          else Inr (CQ_ERR, e, q)
      | (CQ_ERR, _) \<Rightarrow> Inr (CQ_ERR, e, q))"

definition ResetCQueue :: "cqueue \<Rightarrow> cqueue" where
  "ResetCQueue q = q\<lparr>cq_len := 0, cq_read := 0, cq_write := 0\<rparr>"

section \<open>Invariant and abstraction\<close>

definition cq_ok :: "cqueue \<Rightarrow> bool" where
  "cq_ok q \<longleftrightarrow>
     (case cq_base q of None \<Rightarrow> False | Some b \<Rightarrow> length b = unat (cq_size q)) \<and>
     unat (cq_size q) < 2 ^ 31 \<and>
     unat (cq_read q) < unat (cq_size q) \<and> unat (cq_len q) \<le> unat (cq_size q) \<and>
     unat (cq_write q) = (unat (cq_read q) + unat (cq_len q)) mod unat (cq_size q)"

definition cq_contents :: "cqueue \<Rightarrow> u8 list" where
  "cq_contents q = (case cq_base q of None \<Rightarrow> [] | Some b \<Rightarrow> ring b (unat (cq_read q)) (unat (cq_len q)))"

definition cq_cap :: "cqueue \<Rightarrow> nat" where
  "cq_cap q = unat (cq_size q)"

lemma cq_okE:
  assumes "cq_ok q"
  obtains b where "cq_base q = Some b" and "cq_buf q = Inr b" and "length b = unat (cq_size q)"
    and "unat (cq_size q) < 2 ^ 31" and "unat (cq_read q) < length b"
    and "unat (cq_write q) < length b" and "unat (cq_len q) \<le> length b"
    and "unat (cq_write q) = (unat (cq_read q) + unat (cq_len q)) mod length b"
    and "cq_contents q = ring b (unat (cq_read q)) (unat (cq_len q))"
    and "unat (cq_size q - cq_len q) = length b - unat (cq_len q)"
    and "unat (cq_size q - cq_read q) = length b - unat (cq_read q)"
    and "unat (cq_size q - cq_write q) = length b - unat (cq_write q)"
proof -
  from assms obtain b where b: "cq_base q = Some b" "length b = unat (cq_size q)"
    by (auto simp: cq_ok_def split: option.splits)
  from assms have w: "unat (cq_write q) < unat (cq_size q)" by (auto simp: cq_ok_def)
  with assms b that [of b] show ?thesis
    by (simp add: cq_ok_def cq_buf_def cq_contents_def unat_sub word_le_nat_alt)
qed

lemma length_cq_contents: "cq_ok q \<Longrightarrow> length (cq_contents q) = unat (cq_len q)"
  by (erule cq_okE) simp

lemma cq_bounded: "cq_ok q \<Longrightarrow> length (cq_contents q) \<le> cq_cap q"
  by (erule cq_okE) (simp add: cq_cap_def)

lemma cq_okI:
  assumes "cq_base q = Some b" and "length b = unat (cq_size q)" and "unat (cq_size q) < 2 ^ 31"
    and "unat (cq_read q) < unat (cq_size q)" and "unat (cq_len q) \<le> unat (cq_size q)"
    and "unat (cq_write q) = (unat (cq_read q) + unat (cq_len q)) mod unat (cq_size q)"
  shows "cq_ok q"
  using assms by (simp add: cq_ok_def)

section \<open>Writing at the tail\<close>

lemma EnCQueue_full:
  "cq_cap q - unat (cq_len q) < unat len \<Longrightarrow> cq_ok q \<Longrightarrow> EnCQueue q e len = Inr (CQ_ERR, q)"
  by (erule cq_okE)
    (simp add: EnCQueue_def AvailableOfCQueue_def word_less_nat_alt cq_cap_def)

text \<open>The write index after \<open>n\<close> bytes, on both branches.\<close>

lemma wrap_index:
  assumes "w < l" and "n \<le> (l::nat)"
  shows "(w + n) mod l = (if n < l - w then w + n else n - (l - w))"
  using assms by (auto simp: mod_if)

lemma EnCQueue_room:
  assumes "cq_ok q" and "unat len \<le> length e" and "unat len \<le> cq_cap q - unat (cq_len q)"
  obtains q' where "EnCQueue q (Some e) len = Inr (CQ_OK, q')" and "cq_ok q'"
    and "cq_size q' = cq_size q" and "cq_contents q' = cq_contents q @ take (unat len) e"
proof -
  let ?n = "unat len" and ?r = "unat (cq_read q)" and ?m = "unat (cq_len q)"
  let ?w = "unat (cq_write q)"
  from assms(1) obtain b where b: "cq_base q = Some b" "cq_buf q = Inr b"
    and l: "length b = unat (cq_size q)" and sz: "unat (cq_size q) < 2 ^ 31" and r: "?r < length b"
    and w: "?w < length b" and m: "?m \<le> length b" and wm: "?w = (?r + ?m) mod length b"
    and c: "cq_contents q = ring b ?r ?m" and av: "unat (cq_size q - cq_len q) = length b - ?m"
    and tw: "unat (cq_size q - cq_write q) = length b - ?w"
    by (rule cq_okE)
  have n: "?m + ?n \<le> length b" "?n \<le> length b" using assms(3) m l by (simp_all add: cq_cap_def)
  have len: "length (take ?n e) = ?n" using assms(2) by simp
  obtain b' where b': "put2 b ?w (take ?n e) = Inr b'" "length b' = length b"
    "ring b' ?r (?m + ?n) = ring b ?r ?m @ take ?n e"
    using put2_ring [of b ?m "take ?n e" ?w ?r] r n wm len by (metis gr_implies_not0 neq0_conv)
  define w' where "w' = (if len < cq_size q - cq_write q then cq_write q + len
                         else len - (cq_size q - cq_write q))"
  have w': "unat w' = (?w + ?n) mod length b"
    using w n sz l tw by (simp add: w'_def wrap_index word_less_nat_alt unat_sub
        word_le_nat_alt not_less iffD1 [OF unat_add_lem])
  also have "\<dots> = (?r + (?m + ?n)) mod length b"
    using wm by (simp add: mod_add_left_eq add.assoc)
  finally have wmod: "unat w' = (?r + (?m + ?n)) mod length b" .
  have m': "unat (cq_len q + len) = ?m + ?n"
    using n sz l by (intro iffD1 [OF unat_add_lem]) simp
  let ?q = "q\<lparr>cq_len := cq_len q + len, cq_base := Some b', cq_write := w'\<rparr>"
  have "EnCQueue q (Some e) len = Inr (CQ_OK, ?q)"
  proof (cases "?n < length b - ?w")
    case True
    then show ?thesis
      using b b' w n assms(2) av tw
      by (simp add: EnCQueue_def AvailableOfCQueue_def word_less_nat_alt w'_def cpy_put1)
  next
    case False
    then have "unat (len - (cq_size q - cq_write q)) = ?n - (length b - ?w)"
      using tw by (simp add: unat_sub word_le_nat_alt)
    with False show ?thesis
      using b b' w n assms(2) av tw cpy_put2 [of ?w b ?n e]
      by (simp add: EnCQueue_def AvailableOfCQueue_def word_less_nat_alt w'_def
          del: bindE_Inr_iff)
  qed
  moreover have "cq_ok ?q"
    using b' l sz r n m' wmod by (intro cq_okI) simp_all
  moreover have "cq_contents ?q = cq_contents q @ take ?n e"
    using b' c m' by (simp add: cq_contents_def)
  ultimately show ?thesis using that by simp
qed

section \<open>Writing at the head\<close>

lemma front_loop_spec:
  assumes "unat i < length b" and "length b = unat sz" and "unat sz < 2 ^ 31"
    and "k + m \<le> length b" and "k \<le> length e"
  shows "\<exists>b' i'. front_loop e k sz b i = Inr (b', i') \<and> length b' = length b \<and>
           unat i' < length b \<and> (unat i' + 1 + k) mod length b = (unat i + 1) mod length b \<and>
           ring b' (unat i' + 1) (k + m) = take k e @ ring b (unat i + 1) m"
  using assms
proof (induction k arbitrary: b i m)
  case 0
  then show ?case by simp
next
  case (Suc k)
  let ?b = "b[unat i := e ! k]"
  let ?i = "if i - 1 <s 0 then sz - 1 else i - 1"
  have i1: "unat ?i = (if i = 0 then length b - 1 else unat i - 1)"
    using Suc.prems(1-3) pred_neg [of i]
    by (cases "i = 0") (auto simp: unat_minus_one unat_dec)
  then have next_: "unat ?i < length b" "(unat ?i + 1) mod length b = unat i"
    using Suc.prems(1) by (auto simp: unat_gt_0)
  obtain b' i' where IH: "front_loop e k sz ?b ?i = Inr (b', i')" "length b' = length b"
    "unat i' < length b" "(unat i' + 1 + k) mod length b = unat i"
    "ring b' (unat i' + 1) (k + Suc m) = take k e @ ring ?b (unat ?i + 1) (Suc m)"
    using Suc.IH [of ?i ?b "Suc m"] Suc.prems next_ by auto
  have "ring ?b (unat ?i + 1) (Suc m) = ring ?b (unat i) (Suc m)"
    using next_(2) ring_mod [of ?b "unat ?i + 1" "Suc m"] by simp
  also have "\<dots> = e ! k # ring b (unat i + 1) m"
    using Suc.prems by (simp add: ring_Suc_front)
  finally have "ring b' (unat i' + 1) (Suc k + m) = take (Suc k) e @ ring b (unat i + 1) m"
    using IH(5) Suc.prems(5) by (simp add: take_Suc_conv_app_nth)
  moreover have "(unat i' + 1 + Suc k) mod length b = (unat i + 1) mod length b"
    using IH(4) mod_Suc_eq [of "unat i' + 1 + k" "length b"] by simp
  moreover have "front_loop e (Suc k) sz b i = Inr (b', i')"
    using IH(1) Suc.prems(1,5) by simp
  ultimately show ?case using IH(2,3) by blast
qed

lemma EnCQueueFront_room:
  assumes "cq_ok q" and "unat len \<le> length e" and "unat len \<le> cq_cap q - unat (cq_len q)"
  obtains q' where "EnCQueueFront q e len = Inr (CQ_OK, q')" and "cq_ok q'"
    and "cq_size q' = cq_size q" and "cq_contents q' = take (unat len) e @ cq_contents q"
proof -
  let ?n = "unat len" and ?r = "unat (cq_read q)" and ?m = "unat (cq_len q)"
  from assms(1) obtain b where b: "cq_base q = Some b" "cq_buf q = Inr b"
    and l: "length b = unat (cq_size q)" and sz: "unat (cq_size q) < 2 ^ 31" and r: "?r < length b"
    and m: "?m \<le> length b" and wm: "unat (cq_write q) = (?r + ?m) mod length b"
    and c: "cq_contents q = ring b ?r ?m" and av: "unat (cq_size q - cq_len q) = length b - ?m"
    by (rule cq_okE)
  have n: "?n + ?m \<le> length b" "\<not> length b - ?m < ?n"
    using assms(3) m l by (simp_all add: cq_cap_def)
  define r0 where "r0 = (if cq_read q = 0 then cq_size q - 1 else cq_read q - 1)"
  have r0: "unat r0 < length b" "(unat r0 + 1) mod length b = ?r"
    using r l by (auto simp: r0_def unat_minus_one unat_dec unat_gt_0)
  obtain b' i where fl: "front_loop e ?n (cq_size q) b r0 = Inr (b', i)" "length b' = length b"
    "unat i < length b" "(unat i + 1 + ?n) mod length b = ?r"
    "ring b' (unat i + 1) (?n + ?m) = take ?n e @ ring b ?r ?m"
    using front_loop_spec [OF r0(1) l sz n(1) assms(2)] r0(2) ring_mod [of b "unat r0 + 1" ?m] by auto
  define r' where "r' = (if i = cq_size q - 1 then 0 else i + 1)"
  have r': "unat r' = (unat i + 1) mod length b"
  proof (cases "i = cq_size q - 1")
    case True
    with l r show ?thesis by (auto simp: r'_def unat_dec)
  next
    case False
    then have "unat i \<noteq> length b - 1"
      using l r unat_dec [of "cq_size q"] by (auto simp: word_unat_eq_iff)
    with fl(3) have "unat i + 1 < length b" by simp
    moreover from this l sz have "unat (i + 1) = unat i + 1"
      by (intro trans [OF iffD1 [OF unat_add_lem]]) simp_all
    ultimately show ?thesis using False by (simp add: r'_def)
  qed
  have m': "unat (cq_len q + len) = ?n + ?m"
    using n sz l by (subst iffD1 [OF unat_add_lem]) simp_all
  let ?q = "q\<lparr>cq_len := cq_len q + len, cq_base := Some b', cq_read := r'\<rparr>"
  have "EnCQueueFront q e len = Inr (CQ_OK, ?q)"
    using b fl(1) av n(2)
    by (simp add: EnCQueueFront_def AvailableOfCQueue_def word_less_nat_alt r0_def [symmetric] r'_def)
  moreover have "cq_ok ?q"
  proof (rule cq_okI)
    have "(unat r' + (?n + ?m)) mod length b = ((unat i + 1 + ?n) mod length b + ?m) mod length b"
      by (simp add: r' mod_add_left_eq add.assoc)
    with wm fl(4) l
    show "unat (cq_write ?q) = (unat (cq_read ?q) + unat (cq_len ?q)) mod unat (cq_size ?q)"
      by (simp add: m')
  qed (use fl(2) l sz n m' r' r in simp_all)
  moreover have "cq_contents ?q = take ?n e @ cq_contents q"
    using fl(2,5) c m' r' ring_mod [of b' "unat i + 1" "?n + ?m"] by (simp add: cq_contents_def)
  ultimately show ?thesis using that by simp
qed

section \<open>Reading\<close>

lemma DeCQueue_short:
  "unat (cq_len q) < unat len \<Longrightarrow> DeCQueue q e len = Inr (CQ_ERR, e, q)"
  by (simp add: DeCQueue_def LengthOfCQueue_def word_less_nat_alt)

text \<open>Both ways to advance the read index drop the same bytes.\<close>

lemma cq_drop:
  assumes "cq_ok q" and "unat len \<le> unat (cq_len q)"
    and "unat r' = (unat (cq_read q) + unat len) mod unat (cq_size q)"
  shows "cq_ok (q\<lparr>cq_len := cq_len q - len, cq_read := r'\<rparr>)"
    and "cq_contents (q\<lparr>cq_len := cq_len q - len, cq_read := r'\<rparr>) = drop (unat len) (cq_contents q)"
proof -
  let ?q = "q\<lparr>cq_len := cq_len q - len, cq_read := r'\<rparr>"
  from assms(1) obtain b where b: "cq_base q = Some b" and l: "length b = unat (cq_size q)"
    and sz: "unat (cq_size q) < 2 ^ 31" and r: "unat (cq_read q) < length b"
    and m: "unat (cq_len q) \<le> length b"
    and wm: "unat (cq_write q) = (unat (cq_read q) + unat (cq_len q)) mod length b"
    and c: "cq_contents q = ring b (unat (cq_read q)) (unat (cq_len q))"
    by (rule cq_okE)
  have m': "unat (cq_len q - len) = unat (cq_len q) - unat len"
    using assms(2) by (simp add: unat_sub word_le_nat_alt)
  show "cq_ok ?q"
  proof (rule cq_okI)
    have "(unat r' + (unat (cq_len q) - unat len)) mod unat (cq_size q) =
          (unat (cq_read q) + unat len + (unat (cq_len q) - unat len)) mod unat (cq_size q)"
      using assms(3) by (simp add: mod_add_left_eq)
    then show "unat (cq_write ?q) = (unat (cq_read ?q) + unat (cq_len ?q)) mod unat (cq_size ?q)"
      using assms(2) wm l m' by simp
  qed (use b l sz r m m' assms(3) in \<open>simp_all add: mod_less_divisor\<close>)
  show "cq_contents ?q = drop (unat len) (cq_contents q)"
    using b c m' assms(3) ring_mod [of b "unat (cq_read q) + unat len"] l
    by (simp add: cq_contents_def drop_ring)
qed

lemma DeCQueue_null:
  assumes "cq_ok q" and "unat len \<le> unat (cq_len q)"
  obtains q' where "DeCQueue q None len = Inr (CQ_OK, None, q')" and "cq_ok q'"
    and "cq_size q' = cq_size q" and "cq_contents q' = drop (unat len) (cq_contents q)"
proof -
  have "unat (cq_size q) < 2 ^ 31" "0 < unat (cq_size q)" "unat (cq_read q) < unat (cq_size q)"
    "unat (cq_len q) \<le> unat (cq_size q)"
    using assms(1) by (auto simp: cq_ok_def)
  moreover from this assms(2) have "unat (cq_read q + len) = unat (cq_read q) + unat len"
    by (intro iffD1 [OF unat_add_lem]) simp
  ultimately have r: "unat ((cq_read q + len) mod cq_size q) =
      (unat (cq_read q) + unat len) mod unat (cq_size q)" and s: "0 <s cq_size q"
    by (simp_all add: unat_mod sless_small)
  show ?thesis
    using that [OF _ cq_drop(1) [OF assms r] _ cq_drop(2) [OF assms r]] s assms(2)
    by (simp add: DeCQueue_def LengthOfCQueue_def word_less_nat_alt)
qed

lemma DeCQueue_buf:
  assumes "cq_ok q" and "unat len \<le> unat (cq_len q)" and "unat len \<le> length dst"
  obtains q' where
    "DeCQueue q (Some dst) len =
       Inr (CQ_OK, Some (take (unat len) (cq_contents q) @ drop (unat len) dst), q')"
    and "cq_ok q'" and "cq_size q' = cq_size q"
    and "cq_contents q' = drop (unat len) (cq_contents q)"
proof -
  let ?n = "unat len" and ?r = "unat (cq_read q)" and ?m = "unat (cq_len q)"
  from assms(1) obtain b where b: "cq_base q = Some b" "cq_buf q = Inr b"
    and l: "length b = unat (cq_size q)" and sz: "unat (cq_size q) < 2 ^ 31" and r: "?r < length b"
    and m: "?m \<le> length b" and c: "cq_contents q = ring b ?r ?m"
    and tr: "unat (cq_size q - cq_read q) = length b - ?r"
    by (rule cq_okE)
  have out: "wr dst 0 (ring b ?r ?n) = Inr (take ?n (cq_contents q) @ drop ?n dst)"
    using assms(2,3) by (simp add: wr_ok c take_ring min_def)
  define r' where "r' = (if len < cq_size q - cq_read q then cq_read q + len
                         else len - (cq_size q - cq_read q))"
  have r': "unat r' = (?r + ?n) mod unat (cq_size q)"
    using r assms(2) m sz l tr by (simp add: r'_def wrap_index word_less_nat_alt unat_sub
        word_le_nat_alt not_less iffD1 [OF unat_add_lem])
  have "DeCQueue q (Some dst) len = Inr (CQ_OK, Some (take ?n (cq_contents q) @ drop ?n dst),
      q\<lparr>cq_len := cq_len q - len, cq_read := r'\<rparr>)"
  proof (cases "?n < length b - ?r")
    case True
    then show ?thesis
      using b r assms(2) tr out
      by (simp add: DeCQueue_def LengthOfCQueue_def word_less_nat_alt r'_def cpy_get1)
  next
    case False
    then have "unat (len - (cq_size q - cq_read q)) = ?n - (length b - ?r)"
      using tr by (simp add: unat_sub word_le_nat_alt)
    with False show ?thesis
      using b r m assms(2,3) tr out cpy_get2 [of ?r b ?n dst]
      by (simp add: DeCQueue_def LengthOfCQueue_def word_less_nat_alt r'_def del: bindE_Inr_iff)
  qed
  then show ?thesis
    using that [OF _ cq_drop(1) [OF assms(1,2) r'] _ cq_drop(2) [OF assms(1,2) r']] by simp
qed

section \<open>Peeking\<close>

text \<open>The spans handed out cover the first \<open>len_want\<close> bytes, in order and inside the buffer.\<close>

lemma PeekCQueue_spans:
  assumes "cq_ok q" and "unat len \<le> unat (cq_len q)" and "cq_base q = Some b"
  obtains e1 len1 e2 len2 where "PeekCQueue q len out = (CQ_OK, e1, len1, e2, len2)"
    and "span_ok b e1 len1" and "span_ok b e2 len2" and "len = len1 + len2"
    and "length (span_bytes b e1 len1) = unat len1"
    and "span_bytes b e1 len1 @ span_bytes b e2 len2 = take (unat len) (cq_contents q)"
proof -
  let ?n = "unat len" and ?r = "unat (cq_read q)" and ?m = "unat (cq_len q)"
  from assms(1,3) have l: "length b = unat (cq_size q)" and sz: "unat (cq_size q) < 2 ^ 31"
    and r: "?r < length b" and m: "?m \<le> length b" and w: "unat (cq_write q) < length b"
    and wm: "unat (cq_write q) = (?r + ?m) mod length b"
    and c: "cq_contents q = ring b ?r ?m"
    and tr: "unat (cq_size q - cq_read q) = length b - ?r"
    by (auto elim: cq_okE)
  have n: "\<not> cq_len q < len" using assms(2) by (simp add: word_less_nat_alt)
  have sl: "cq_read q <s cq_write q \<longleftrightarrow> ?r < unat (cq_write q)"
    using r w l sz by (intro sless_small) simp_all
  have con: "take ?n (cq_contents q) = ring b ?r ?n" using assms(2) by (simp add: c take_ring min_def)
  show ?thesis
  proof (cases "?n \<le> length b - ?r")
    case True
    then have "?r + ?n \<le> length b" using r by simp
    with True n that [of "Some (cq_read q)" len None 0] con tr show ?thesis
      by (simp add: PeekCQueue_def LengthOfCQueue_def word_le_nat_alt span_ok_def span_bytes_def ring_flat)
  next
    case False
    with assms(2) r have "\<not> ?r < unat (cq_write q)"
      using wm wrap_index [OF r m] m by (simp split: if_splits)
    moreover have "unat (len - (cq_size q - cq_read q)) = ?n - (length b - ?r)"
      using False tr by (simp add: unat_sub word_le_nat_alt)
    moreover have "ring b ?r ?n = drop ?r b @ take (?n - (length b - ?r)) b"
      using False assms(2) r m by (intro ring_wrap) simp_all
    ultimately show ?thesis
      using False n con tr sl r assms(2) m
        that [of "Some (cq_read q)" "cq_size q - cq_read q" "Some 0" "len - (cq_size q - cq_read q)"]
      by (simp add: PeekCQueue_def LengthOfCQueue_def word_le_nat_alt span_ok_def span_bytes_def Let_def)
  qed
qed

lemma EnCQueue_whole:
  assumes "cq_ok q" and "unat len = length e" and "unat len \<le> cq_cap q - unat (cq_len q)"
  obtains q' where "EnCQueue q (Some e) len = Inr (CQ_OK, q')" and "cq_ok q'"
    and "cq_contents q' = cq_contents q @ e"
  using EnCQueue_room [OF assms(1) eq_imp_le [OF assms(2)] assms(3)] assms(2)
  by (metis order_refl take_all)

lemma PeekCQueueToBuf_ok:
  assumes "cq_ok q" and "unat len \<le> unat (cq_len q)" and "unat len \<le> length e"
  shows "PeekCQueueToBuf q e len =
         Inr (CQ_OK, take (unat len) (cq_contents q) @ drop (unat len) e)"
proof -
  from assms(1) obtain b where b: "cq_base q = Some b" "cq_buf q = Inr b" by (rule cq_okE)
  let ?xs = "take (unat len) (cq_contents q)"
  have xs: "length ?xs = unat len" using assms(1,2) by (simp add: length_cq_contents)
  obtain e1 len1 e2 len2 where p: "PeekCQueue q len (None, 0, None, 0) = (CQ_OK, e1, len1, e2, len2)"
    and s: "span_ok b e1 len1" "span_ok b e2 len2" "len = len1 + len2"
      "length (span_bytes b e1 len1) = unat len1"
      "span_bytes b e1 len1 @ span_bytes b e2 len2 = ?xs"
    by (rule PeekCQueue_spans [OF assms(1,2) b(1)])
  have "bindE (cpy_span e 0 b e1 len1) (\<lambda>d. cpy_span d (unat len1) b e2 len2) = wr e 0 ?xs"
    using cpy_spans [OF s(1,2,4)] s(5) xs assms(3) by simp
  then show ?thesis
    using p b s(3) xs assms(3)
    by (simp add: PeekCQueueToBuf_def bindE_assoc [symmetric] wr_ok del: bindE_Inr_iff)
qed

lemma PullCQueue_peek:
  assumes "cq_ok q" and "unat len \<le> unat (cq_len q)"
  shows "PullCQueue q e len =
    bindE (PeekCQueueToBuf q e len) (\<lambda>(st, d). bindE (DeCQueue q None len) (\<lambda>(st', e', q1). Inr (CQ_OK, d, q1)))"
proof -
  from assms(1) obtain b where b: "cq_base q = Some b" by (rule cq_okE)
  show ?thesis
    by (rule PeekCQueue_spans [OF assms b, of "(None, 0, None, 0)"])
      (simp add: PullCQueue_def PeekCQueueToBuf_def bindE_assoc split_def)
qed

text \<open>Peeking at an offset is peeking after dropping what lies before it.\<close>

lemma PeekCQueueToBufWithOffset_ok:
  fixes k :: u32
  assumes "cq_ok q" and "unat k + unat len \<le> unat (cq_len q)" and "unat len \<le> length e"
    and off: "unat off = (unat (cq_read q) + unat k) mod unat (cq_size q)"
  shows "PeekCQueueToBufWithOffset (Some q) (Some e) len off =
         Inr (CQ_OK, take (unat len) (drop (unat k) (cq_contents q)) @ drop (unat len) e)"
proof -
  let ?q = "q\<lparr>cq_len := cq_len q - k, cq_read := off\<rparr>"
  have k: "unat k \<le> unat (cq_len q)" using assms(2) by simp
  note q = cq_drop [OF assms(1) k off]
  have m: "unat (cq_len q - k) = unat (cq_len q) - unat k"
    using k by (simp add: unat_sub word_le_nat_alt)
  obtain l where sz: "unat (cq_size q) < 2 ^ 31" and l: "l = unat (cq_size q)"
    and o: "unat off < l" and w: "unat (cq_write q) < l" and ml: "unat (cq_len q) - unat k \<le> l"
    and wm: "unat (cq_write q) = (unat off + (unat (cq_len q) - unat k)) mod l"
    using q(1) m by (auto elim: cq_okE)
  have sl: "off <s cq_write q \<longleftrightarrow> off < cq_write q"
    using o w l sz by (simp add: sless_small word_less_nat_alt)
  have ol: "unat (off + len) = unat off + unat len"
    using o l sz assms(2) ml by (intro iffD1 [OF unat_add_lem]) simp
  have a1: "\<not> (off < cq_write q \<and> off + len > cq_write q)"
    using wm wrap_index [OF o ml] ml assms(2) by (auto simp: word_less_nat_alt ol split: if_splits)
  have a2: "\<not> (off > cq_write q \<and> off + len > cq_size q \<and> off + len - cq_size q > cq_write q)"
  proof
    assume a: "off > cq_write q \<and> off + len > cq_size q \<and> off + len - cq_size q > cq_write q"
    then have "unat (off + len - cq_size q) = unat off + unat len - l"
      using ol l by (simp add: unat_sub word_le_nat_alt word_less_nat_alt)
    with a have "unat (cq_write q) < unat off + unat len - l" "unat (cq_write q) < unat off"
      by (simp_all add: word_less_nat_alt)
    with wm wrap_index [OF o ml] ml o assms(2) show False by (simp split: if_splits)
  qed
  have n: "\<not> cq_len q - k < len" using m assms(2) by (simp add: word_less_nat_alt)
  have buf: "cq_buf ?q = cq_buf q" by (simp add: cq_buf_def)
  have "PeekCQueueToBufWithOffset (Some q) (Some e) len off = PeekCQueueToBuf ?q e len"
    using a1 a2 sl n buf
    by (auto simp: PeekCQueueToBufWithOffset_def PeekCQueueToBuf_def PeekCQueue_def LengthOfCQueue_def
        Let_def simp del: bindE_Inr_iff)
  also have "\<dots> = Inr (CQ_OK, take (unat len) (cq_contents ?q) @ drop (unat len) e)"
    using q(1) m assms(2,3) by (intro PeekCQueueToBuf_ok) simp_all
  finally show ?thesis by (simp only: q(2))
qed

section \<open>Setting up\<close>

lemma InitCQueue_ok:
  assumes "0 < length b" and "length b < 2 ^ 31" and "InitCQueue q (of_nat (length b)) (Some b) = (st, q')"
  shows "st = CQ_OK \<and> cq_ok q' \<and> cq_contents q' = [] \<and> cq_cap q' = length b"
proof -
  have u: "unat (of_nat (length b) :: u32) = length b"
    using assms(2) by (simp add: unat_of_nat take_bit_nat_eq_self)
  then show ?thesis
    using assms by (auto simp: InitCQueue_def Let_def cq_ok_def cq_contents_def cq_cap_def)
qed

lemma ResetCQueue_ok:
  "cq_ok q \<Longrightarrow> cq_ok (ResetCQueue q) \<and> cq_contents (ResetCQueue q) = [] \<and> cq_cap (ResetCQueue q) = cq_cap q"
  by (erule cq_okE) (simp add: cq_ok_def ResetCQueue_def cq_contents_def cq_cap_def)

section \<open>A byte queue\<close>

text \<open>The client's view: put a message, pull at most \<open>n\<close> bytes.\<close>

definition cq_put :: "u8 list \<Rightarrow> cqueue \<Rightarrow> (nat \<times> cqueue) res" where
  "cq_put xs q = bindE (EnCQueue q (Some xs) (of_nat (length xs)))
     (\<lambda>(st, q1). Inr (if st = CQ_OK then length xs else 0, q1))"

definition cq_get :: "nat \<Rightarrow> cqueue \<Rightarrow> (u8 list \<times> cqueue) res" where
  "cq_get n q = bindE (PullCQueue q (replicate n 0) (of_nat n))
     (\<lambda>(st, d, q1). Inr (if st = CQ_OK then d else [], q1))"

lemma cq_put_law:
  assumes "cq_ok q" and "length xs < 2 ^ 31"
    and "n = all_or_nothing (cq_cap q - length (cq_contents q)) (length xs)"
  shows "\<exists>q'. cq_put xs q = Inr (n, q') \<and> cq_ok q' \<and> cq_cap q' = cq_cap q \<and>
           cq_contents q' = cq_contents q @ take n xs"
proof (cases "length xs \<le> cq_cap q - unat (cq_len q)")
  case True
  then have room: "unat (of_nat (length xs) :: u32) \<le> cq_cap q - unat (cq_len q)"
    and fit: "unat (of_nat (length xs) :: u32) \<le> length xs"
    using assms(2) by (simp_all add: unat_of_nat32)
  show ?thesis
    by (rule EnCQueue_room [OF assms(1) fit room])
      (use assms True in \<open>simp add: cq_put_def cq_cap_def unat_of_nat32 all_or_nothing_def
         length_cq_contents\<close>)
next
  case False
  then have "EnCQueue q (Some xs) (of_nat (length xs)) = Inr (CQ_ERR, q)"
    using assms by (intro EnCQueue_full) (simp_all add: unat_of_nat32)
  with False assms show ?thesis by (simp add: cq_put_def length_cq_contents all_or_nothing_def)
qed

lemma cq_get_law:
  assumes "cq_ok q" and "n < 2 ^ 31" and "k = all_or_nothing (length (cq_contents q)) n"
  shows "\<exists>q'. cq_get n q = Inr (take k (cq_contents q), q') \<and> cq_ok q' \<and> cq_cap q' = cq_cap q \<and>
           cq_contents q' = drop k (cq_contents q)"
proof (cases "n \<le> unat (cq_len q)")
  case True
  let ?n = "of_nat n :: u32"
  have u: "unat ?n = n" using assms(2) by (rule unat_of_nat32)
  with True have n: "unat ?n \<le> unat (cq_len q)" by simp
  obtain q' where d: "DeCQueue q None ?n = Inr (CQ_OK, None, q')" "cq_ok q'"
    "cq_size q' = cq_size q" "cq_contents q' = drop (unat ?n) (cq_contents q)"
    by (rule DeCQueue_null [OF assms(1) n])
  have "PullCQueue q (replicate n 0) ?n = Inr (CQ_OK, take n (cq_contents q), q')"
    using PullCQueue_peek [OF assms(1) n] PeekCQueueToBuf_ok [OF assms(1) n] d(1) u by simp
  with d u True assms(1,3) show ?thesis
    by (simp add: cq_get_def cq_cap_def length_cq_contents all_or_nothing_def)
next
  case False
  with assms(2) have "PullCQueue q (replicate n 0) (of_nat n) = Inr (CQ_ERR, replicate n 0, q)"
    by (simp add: PullCQueue_def PeekCQueue_def LengthOfCQueue_def word_less_nat_alt unat_of_nat32)
  with False assms(1,3) show ?thesis
    by (simp add: cq_get_def length_cq_contents all_or_nothing_def)
qed

interpretation cq: byte_queue cq_ok cq_contents cq_cap cq_put cq_get all_or_nothing
  by unfold_locales (fact cq_bounded cq_put_law cq_get_law)+

section \<open>Making room\<close>

text \<open>What the discarding loop relies on: a frame length that fits what is queued.\<close>

definition frames_ok :: "(cqueue \<Rightarrow> u16) \<Rightarrow> bool" where
  "frames_ok g \<longleftrightarrow> (\<forall>q. cq_ok q \<longrightarrow> 0 < cq_len q \<longrightarrow> 0 < g q \<and> unat (g q) \<le> unat (cq_len q))"

lemma available_less:
  "cq_ok q \<Longrightarrow> AvailableOfCQueue q < len \<longleftrightarrow> cq_cap q - unat (cq_len q) < unat len"
  by (erule cq_okE) (simp add: AvailableOfCQueue_def cq_cap_def word_less_nat_alt)

lemma ai_discard_ends:
  assumes "frames_ok g" and "cq_ok q" and "unat len \<le> cq_cap q" and "0 < cq_len q"
  shows "\<exists>k q'. ai_discard g len q = Some (Inr q') \<and> cq_ok q' \<and> cq_size q' = cq_size q \<and>
           cq_contents q' = drop k (cq_contents q) \<and> unat len \<le> cq_cap q' - unat (cq_len q')"
  using assms(2-4)
proof (induction "unat (cq_len q)" arbitrary: q rule: less_induct)
  case less
  let ?n = "unat (g q)"
  from less.prems assms(1) have g: "0 < g q" "?n \<le> unat (cq_len q)" by (simp_all add: frames_ok_def)
  then have n: "unat (ucast (g q) :: u32) \<le> unat (cq_len q)" by simp
  obtain q1 where q1: "DeCQueue q None (ucast (g q)) = Inr (CQ_OK, None, q1)" "cq_ok q1"
    "cq_size q1 = cq_size q" "cq_contents q1 = drop ?n (cq_contents q)"
    using DeCQueue_null [OF less.prems(1) n] by (metis unat_ucast16)
  have l1: "unat (cq_len q1) = unat (cq_len q) - ?n"
    using length_cq_contents [OF q1(2)] length_cq_contents [OF less.prems(1)] q1(4) by simp
  show ?case
  proof (cases "AvailableOfCQueue q1 < len")
    case False
    with q1 show ?thesis
      by (subst ai_discard.simps) (auto simp: available_less)
  next
    case True
    with q1 less.prems(2) have "0 < unat (cq_len q1)"
      by (simp add: available_less cq_cap_def)
    moreover from g have "0 < ?n" by (simp add: unat_gt_0 word_less_nat_alt)
    ultimately have "unat (cq_len q1) < unat (cq_len q)" "0 < cq_len q1"
      using l1 by (simp_all add: word_less_nat_alt)
    with less.hyps [of q1] q1 less.prems(2) obtain k q' where
      "ai_discard g len q1 = Some (Inr q')" "cq_ok q'" "cq_size q' = cq_size q1"
      "cq_contents q' = drop k (cq_contents q1)" "unat len \<le> cq_cap q' - unat (cq_len q')"
      by (auto simp: cq_cap_def)
    with q1 True show ?thesis
      by (subst ai_discard.simps) (auto intro: exI [of _ "k + ?n"])
  qed
qed

lemma DeCQueue_keeps:
  assumes "cq_ok q"
  obtains st q' where "DeCQueue q None n = Inr (st, None, q')" and "cq_ok q'"
    and "cq_size q' = cq_size q"
proof (cases "unat n \<le> unat (cq_len q)")
  case True
  then show ?thesis using DeCQueue_null [OF assms(1) True] that by auto
next
  case False
  then show ?thesis using DeCQueue_short [of q n None] assms that by simp
qed

text \<open>No discarding makes room for more than the buffer holds.\<close>

lemma ai_discard_stuck:
  assumes "ai_discard g len q = Some m"
  shows "cq_ok q \<longrightarrow> unat len \<le> cq_cap q"
proof (rule ai_discard.raw_induct [OF _ assms], goal_cases)
  case (1 rec g len q m)
  show ?case
  proof
    assume "cq_ok q"
    then obtain st q1 where d: "DeCQueue q None (ucast (g q)) = Inr (st, None, q1)"
      and q1: "cq_ok q1" "cq_size q1 = cq_size q" by (rule DeCQueue_keeps)
    show "unat len \<le> cq_cap q"
    proof (cases "AvailableOfCQueue q1 < len")
      case True
      with 1(2) d have "rec g len q1 = Some m" by simp
      from 1(1) [OF this] q1 show ?thesis by (simp add: cq_cap_def)
    next
      case False
      with q1 show ?thesis by (simp add: available_less cq_cap_def)
    qed
  qed
qed

section \<open>Properties\<close>

text \<open>A concrete queue of four bytes, two of them queued across the end of the buffer.\<close>

definition cq_example :: cqueue where
  "cq_example = \<lparr>cq_read = 3, cq_write = 1, cq_size = 4, cq_len = 2, cq_base = Some [2, 0, 0, 1]\<rparr>"

lemma cq_example_ok:
  "cq_ok cq_example" "cq_contents cq_example = [1, 2]" "cq_cap cq_example = 4"
  by (simp_all add: cq_example_def cq_ok_def cq_contents_def cq_cap_def ring_def upt_rec)

text \<open>C1: a session of \<open>EnCQueue\<close> and \<open>PullCQueue\<close> calls returns, accepts and delivers what
  the same session with a bounded list does, and so delivers the bytes in the order they
  were accepted.\<close>

theorem cqueue_refines_fifo:
  assumes "cq_ok q" and "\<forall>op \<in> set ops. op_fits op"
  shows "\<exists>ins outs q'. run_queue cq_put cq_get ops q = Inr (ins, outs, q') \<and> cq_ok q' \<and>
           run_list all_or_nothing (cq_cap q) ops (cq_contents q) = (ins, outs, cq_contents q') \<and>
           cq_contents q @ ins = outs @ cq_contents q'"
  using cq.fifo [OF assms] by blast

theorem cqueue_refines_fifo_witness:
  "\<exists>q'. run_queue cq_put cq_get [Put [7, 8], Get 3, Put [9, 9], Get 2] cq_example =
     Inr ([7, 8, 9, 9], [1, 2, 7, 8, 9], q') \<and> cq_contents q' = [9]"
proof -
  let ?ops = "[Put [7, 8], Get 3, Put [9, 9], Get 2]"
  have l: "run_list all_or_nothing 4 ?ops [1, 2] = ([7, 8, 9, 9], [1, 2, 7, 8, 9], [9])"
    by (simp add: all_or_nothing_def)
  have "\<forall>op \<in> set ?ops. op_fits op" by simp
  from cqueue_refines_fifo [OF cq_example_ok(1) this] obtain ins outs q'
    where r: "run_queue cq_put cq_get ?ops cq_example = Inr (ins, outs, q')"
      and e: "run_list all_or_nothing 4 ?ops [1, 2] = (ins, outs, cq_contents q')"
    unfolding cq_example_ok(2,3) by blast
  from e r show ?thesis unfolding l by auto
qed

text \<open>\<open>EnCQueueFront\<close> puts its bytes before the queued ones, in their order, when there
  is room, and otherwise leaves the queue as it is; it never writes outside the buffer.\<close>

theorem EnCQueueFront_prepends:
  assumes "cq_ok q" and "unat len \<le> length e"
  shows "\<exists>st q'. EnCQueueFront q e len = Inr (st, q') \<and> cq_ok q' \<and> cq_cap q' = cq_cap q \<and>
           (if unat len \<le> cq_cap q - length (cq_contents q)
            then st = CQ_OK \<and> cq_contents q' = take (unat len) e @ cq_contents q
            else st = CQ_ERR \<and> q' = q)"
proof (cases "unat len \<le> cq_cap q - unat (cq_len q)")
  case True
  then show ?thesis
    by (rule EnCQueueFront_room [OF assms])
      (use True assms(1) in \<open>auto simp: length_cq_contents cq_cap_def\<close>)
next
  case False
  with assms(1) have "EnCQueueFront q e len = Inr (CQ_ERR, q)"
    by (simp add: EnCQueueFront_def available_less)
  with False assms(1) show ?thesis by (simp add: length_cq_contents)
qed

theorem EnCQueueFront_prepends_witness:
  "\<exists>q'. EnCQueueFront cq_example [5, 6] 2 = Inr (CQ_OK, q') \<and> cq_contents q' = [5, 6, 1, 2]"
  using EnCQueueFront_prepends [OF cq_example_ok(1), of 2 "[5, 6]"]
  by (auto simp: cq_example_ok)

text \<open>\<open>PeekCQueueToBufWithOffset\<close> at the offset of the \<open>k\<close>-th queued byte passes its
  assertions and copies the \<open>len\<close> bytes from there, when that many are queued.\<close>

theorem PeekCQueueToBufWithOffset_reads:
  fixes k :: u32
  assumes "cq_ok q" and "unat k + unat len \<le> length (cq_contents q)" and "unat len \<le> length e"
    and "off = (cq_read q + k) mod cq_size q"
  shows "PeekCQueueToBufWithOffset (Some q) (Some e) len off =
         Inr (CQ_OK, take (unat len) (drop (unat k) (cq_contents q)) @ drop (unat len) e)"
proof -
  have m: "unat k + unat len \<le> unat (cq_len q)" using assms(1,2) by (simp add: length_cq_contents)
  have "unat (cq_size q) < 2 ^ 31" "unat (cq_read q) < unat (cq_size q)"
    "unat (cq_len q) \<le> unat (cq_size q)"
    using assms(1) by (auto simp: cq_ok_def)
  with m have "unat (cq_read q + k) = unat (cq_read q) + unat k"
    by (intro iffD1 [OF unat_add_lem]) simp
  then have "unat off = (unat (cq_read q) + unat k) mod unat (cq_size q)"
    by (simp add: assms(4) unat_mod)
  from assms(1) m assms(3) this show ?thesis by (rule PeekCQueueToBufWithOffset_ok)
qed

theorem PeekCQueueToBufWithOffset_reads_witness:
  "PeekCQueueToBufWithOffset (Some cq_example) (Some [0, 0]) 1 0 = Inr (CQ_OK, [2, 0])"
  using PeekCQueueToBufWithOffset_reads [OF cq_example_ok(1), of 1 1 "[0, 0]" 0]
  by (simp add: cq_example_ok) (simp add: cq_example_def)

text \<open>C2: with a getter whose frame lengths fit what is queued, \<open>EnCQueue_AI\<close> always returns:
  it drops bytes from the head until the new ones fit and appends them all.\<close>

theorem EnCQueue_AI_returns:
  assumes "cq_ok q" and "frames_ok g" and "unat len = length e" and "unat len \<le> cq_cap q"
  shows "\<exists>st k q'. EnCQueue_AI q (Some e) len (Some g) = Some (Inr (st, q')) \<and> cq_ok q' \<and>
           cq_contents q' = drop k (cq_contents q) @ e \<and>
           (st = CQ_OK \<longleftrightarrow> unat len \<le> cq_cap q - length (cq_contents q)) \<and> (st = CQ_OK \<longrightarrow> k = 0)"
proof (cases "AvailableOfCQueue q < len")
  case False
  then have "unat len \<le> cq_cap q - unat (cq_len q)" using assms(1) by (simp add: available_less)
  from assms(1,3) this obtain q' where "EnCQueue q (Some e) len = Inr (CQ_OK, q')" "cq_ok q'"
    "cq_contents q' = cq_contents q @ e" by (rule EnCQueue_whole)
  with False assms(1) show ?thesis
    by (intro exI [of _ CQ_OK] exI [of _ 0]) (simp add: EnCQueue_AI_def available_less length_cq_contents)
next
  case True
  with assms(1,4) have "0 < unat (cq_len q)" by (simp add: available_less)
  then have "0 < cq_len q" by (simp add: word_less_nat_alt)
  with ai_discard_ends [OF assms(2,1,4)] obtain k q1 where
    k: "ai_discard g len q = Some (Inr q1)" "cq_ok q1" "cq_contents q1 = drop k (cq_contents q)"
    "unat len \<le> cq_cap q1 - unat (cq_len q1)" by auto
  from k(2) assms(3) k(4) obtain q' where "EnCQueue q1 (Some e) len = Inr (CQ_OK, q')" "cq_ok q'"
    "cq_contents q' = cq_contents q1 @ e" by (rule EnCQueue_whole)
  with True k assms(1) show ?thesis
    by (intro exI [of _ CQ_ERR] exI [of _ k])
      (simp add: EnCQueue_AI_def available_less length_cq_contents)
qed

theorem EnCQueue_AI_returns_witness:
  "\<exists>st k q'. EnCQueue_AI cq_example (Some [7, 8, 9]) 3 (Some (\<lambda>q. 1)) = Some (Inr (st, q')) \<and>
     cq_contents q' = drop k [1, 2] @ [7, 8, 9]"
proof -
  have "frames_ok (\<lambda>q. 1)" by (auto simp: frames_ok_def word_less_nat_alt)
  from EnCQueue_AI_returns [OF cq_example_ok(1) this, of 3 "[7, 8, 9]"] show ?thesis
    by (auto simp: cq_example_ok)
qed

text \<open>with a getter, \<open>EnCQueue_AI\<close> never returns for more bytes than the buffer holds,
  whatever the getter answers: the discarding loop has no other exit.\<close>

theorem EnCQueue_AI_hangs:
  assumes "cq_ok q" and "cq_cap q < unat len"
  shows "EnCQueue_AI q e len (Some g) = None"
proof -
  have "ai_discard g len q = None"
    using ai_discard_stuck [of g len q] assms by (cases "ai_discard g len q") auto
  with assms show ?thesis by (simp add: EnCQueue_AI_def available_less)
qed

theorem EnCQueue_AI_hangs_witness: "EnCQueue_AI cq_example None 5 (Some (\<lambda>q. 2)) = None"
  by (rule EnCQueue_AI_hangs) (use cq_example_ok(1) in \<open>simp_all add: cq_cap_def cq_example_def\<close>)

text \<open>without a getter, \<open>EnCQueue_AI\<close> makes room by dropping \<open>len\<close> queued bytes; when
  fewer are queued it drops nothing and the new bytes are lost, under the same status.\<close>

theorem EnCQueue_AI_plain:
  assumes "cq_ok q" and "unat len = length e" and "cq_cap q - length (cq_contents q) < unat len"
  shows "\<exists>q'. EnCQueue_AI q (Some e) len None = Some (Inr (CQ_ERR, q')) \<and> cq_ok q' \<and>
           (if length e \<le> length (cq_contents q)
            then cq_contents q' = drop (length e) (cq_contents q) @ e
            else q' = q)"
proof (cases "unat len \<le> unat (cq_len q)")
  case True
  obtain q1 where q1: "DeCQueue q None len = Inr (CQ_OK, None, q1)" "cq_ok q1"
    "cq_size q1 = cq_size q" "cq_contents q1 = drop (unat len) (cq_contents q)"
    by (rule DeCQueue_null [OF assms(1) True])
  have "unat (cq_len q1) = unat (cq_len q) - unat len"
    using length_cq_contents [OF q1(2)] length_cq_contents [OF assms(1)] q1(4) by simp
  with True cq_bounded [OF assms(1)] q1(3) have "unat len \<le> cq_cap q1 - unat (cq_len q1)"
    by (simp add: cq_cap_def length_cq_contents [OF assms(1)])
  from q1(2) assms(2) this obtain q' where "EnCQueue q1 (Some e) len = Inr (CQ_OK, q')" "cq_ok q'"
    "cq_contents q' = cq_contents q1 @ e" by (rule EnCQueue_whole)
  with q1 True assms show ?thesis
    by (simp add: EnCQueue_AI_def available_less length_cq_contents)
next
  case False
  then have "DeCQueue q None len = Inr (CQ_ERR, None, q)" by (intro DeCQueue_short) simp
  moreover have "EnCQueue q (Some e) len = Inr (CQ_ERR, q)"
    using assms by (intro EnCQueue_full) (simp_all add: length_cq_contents)
  ultimately show ?thesis
    using False assms by (simp add: EnCQueue_AI_def available_less length_cq_contents)
qed

theorem EnCQueue_AI_plain_witness:
  "EnCQueue_AI cq_example (Some [7, 8, 9]) 3 None = Some (Inr (CQ_ERR, cq_example))"
  using EnCQueue_AI_plain [OF cq_example_ok(1), of 3 "[7, 8, 9]"]
  by (auto simp: cq_example_ok)

end
