(* ===== verification/KFifo.thy ===== *)
theory KFifo
  imports Fifo
begin

text \<open>
  The byte fifo of \<open>utils/kfifo/kfifo.c\<close>: a buffer whose size is a power of two and two
  free running counters, \<open>in\<close> and \<open>out\<close>, that wrap at \<open>2 ^ 32\<close>; the position of a counter
  in the buffer is its low bits. The memory barriers have no counterpart here: the model
  is sequential.
\<close>

section \<open>The fifo\<close>

record kfifo =
  kf_buffer :: "u8 list"
  kf_size :: u32
  kf_in :: u32
  kf_out :: u32

definition is_power_of_2 :: "u32 \<Rightarrow> bool" where
  "is_power_of_2 n \<longleftrightarrow> n \<noteq> 0 \<and> and n (n - 1) = 0"

definition kfifo_init :: "kfifo \<Rightarrow> u8 list \<Rightarrow> u32 \<Rightarrow> kfifo res" where
  "kfifo_init f buf len = c_assert (is_power_of_2 len)
     (Inr (f\<lparr>kf_size := len, kf_buffer := buf, kf_in := 0, kf_out := 0\<rparr>))"

definition kfifo_put :: "kfifo \<Rightarrow> u8 list \<Rightarrow> u32 \<Rightarrow> (u32 \<times> kfifo) res" where
  "kfifo_put f src len0 =
     (let len = min len0 (kf_size f - kf_in f + kf_out f);
          i = and (kf_in f) (kf_size f - 1);
          l = min len (kf_size f - i) in
      bindE (bindE (cpy (kf_buffer f) (unat i) src 0 (unat l)) (\<lambda>b.
             cpy b 0 src (unat l) (unat (len - l)))) (\<lambda>b.
      Inr (len, f\<lparr>kf_buffer := b, kf_in := kf_in f + len\<rparr>)))"

definition kfifo_get :: "kfifo \<Rightarrow> u8 list \<Rightarrow> u32 \<Rightarrow> (u32 \<times> u8 list \<times> kfifo) res" where
  "kfifo_get f dst len0 =
     (let len = min len0 (kf_in f - kf_out f);
          o' = and (kf_out f) (kf_size f - 1);
          l = min len (kf_size f - o') in
      bindE (bindE (cpy dst 0 (kf_buffer f) (unat o') (unat l)) (\<lambda>d.
             cpy d (unat l) (kf_buffer f) 0 (unat (len - l)))) (\<lambda>d.
      Inr (len, d, f\<lparr>kf_out := kf_out f + len\<rparr>)))"

text \<open>\<open>kfifo_peek\<close> returns its status and what it stores through its four pointers: the two
  spans (offset, or \<open>None\<close> for \<open>NULL\<close>) and their lengths.\<close>

definition kfifo_peek :: "kfifo \<Rightarrow> u32 \<Rightarrow> u32 \<times> u32 option \<times> u32 option \<times> u32 \<times> u32" where
  "kfifo_peek f len_want =
     (let len = min len_want (kf_in f - kf_out f) in
      if len < len_want then (0, None, None, 0, 0)
      else
        let o' = and (kf_out f) (kf_size f - 1);
            l = min len (kf_size f - o') in
        if l < len then (len_want, Some o', Some 0, l, len - l)
        else (len_want, Some o', None, l, 0))"

definition kfifo_peek_to_buf :: "kfifo \<Rightarrow> u8 list \<Rightarrow> u32 \<Rightarrow> (u32 \<times> u8 list) res" where
  "kfifo_peek_to_buf f buff len =
     (let (st, buf1, buf2, len1, len2) = kfifo_peek f len in
      if len = len1 + len2 then
        bindE (cpy_span buff 0 (kf_buffer f) buf1 len1) (\<lambda>d.
        bindE (cpy_span d (unat len1) (kf_buffer f) buf2 len2) (\<lambda>d.
        Inr (len, d)))
      else Inr (0, buff))"

definition kfifo_len :: "kfifo \<Rightarrow> u32" where
  "kfifo_len f = kf_in f - kf_out f"

definition kfifo_get_free_space :: "kfifo \<Rightarrow> u32" where
  "kfifo_get_free_space f = kf_size f - kf_in f + kf_out f"

section \<open>Invariant and abstraction\<close>

definition kf_ok :: "kfifo \<Rightarrow> bool" where
  "kf_ok f \<longleftrightarrow> is_power_of_2 (kf_size f) \<and> length (kf_buffer f) = unat (kf_size f) \<and>
     kf_in f - kf_out f \<le> kf_size f"

definition kf_contents :: "kfifo \<Rightarrow> u8 list" where
  "kf_contents f = ring (kf_buffer f) (unat (kf_out f)) (unat (kf_in f - kf_out f))"

definition kf_cap :: "kfifo \<Rightarrow> nat" where
  "kf_cap f = unat (kf_size f)"

text \<open>A word with one bit set is a power of two: the test clears its lowest bit.\<close>

lemma power_of_2_nat: "n \<noteq> 0 \<Longrightarrow> and n (n - 1) = (0::nat) \<Longrightarrow> \<exists>k. n = 2 ^ k"
proof (induction n rule: less_induct)
  case (less n)
  show ?case
  proof (cases "even n")
    case True
    then obtain m where m: "n = 2 * m" by blast
    with less.prems(1) have m0: "m \<noteq> 0" by simp
    then have "n - 1 = 2 * (m - 1) + 1" using m by simp
    then have "and n (n - 1) = 2 * and m (m - 1)"
      unfolding m by (simp add: and_rec [of "2 * m"] mod_2_eq_odd)
    with less m m0 obtain k where "m = 2 ^ k" by (metis less_imp_le_nat mult_eq_0_iff n_less_m_mult_n
          One_nat_def less_2_cases_iff lessI mult.commute neq0_conv zero_neq_numeral)
    with m show ?thesis by (metis power_Suc)
  next
    case False
    then obtain m where m: "n = 2 * m + 1" by (metis oddE)
    then have "and n (n - 1) = 2 * m"
      by (simp add: and_rec [of "Suc (2 * m)"])
    with less.prems m have "n = 2 ^ 0" by simp
    then show ?thesis by blast
  qed
qed

lemma power_of_2_word:
  assumes "is_power_of_2 n"
  obtains k where "unat n = 2 ^ k" and "k < 32"
proof -
  have "unat n \<noteq> 0" using assms by (auto simp: is_power_of_2_def unat_eq_0)
  moreover have "and (unat n) (unat n - 1) = 0"
    using assms unsigned_and_eq [of n "n - 1", where 'a = nat] unat_dec [of n] \<open>unat n \<noteq> 0\<close>
    by (simp add: is_power_of_2_def)
  ultimately obtain k where k: "unat n = 2 ^ k" using power_of_2_nat by blast
  have "unat n < 2 ^ 32" by (rule less_le_trans [OF unsigned_less]) simp
  with k have "(2::nat) ^ k < 2 ^ 32" by simp
  then have "k < 32" by (simp only: power_strict_increasing_iff)
  with k that show ?thesis by blast
qed

lemma low_bits:
  fixes x n :: u32
  assumes "is_power_of_2 n"
  shows "unat (and x (n - 1)) = unat x mod unat n"
proof -
  obtain k where k: "unat n = 2 ^ k" using assms by (rule power_of_2_word)
  then have "unat (n - 1) = mask k" by (simp add: unat_dec mask_eq_exp_minus_1)
  then show ?thesis by (simp add: unsigned_and_eq k take_bit_eq_mask [symmetric] take_bit_eq_mod)
qed

text \<open>The counters wrap at a multiple of the size, so positions survive the wrap.\<close>

lemma counter_mod:
  fixes x d n :: u32
  assumes "is_power_of_2 n"
  shows "unat (x + d) mod unat n = (unat x + unat d) mod unat n"
proof -
  obtain k where k: "unat n = 2 ^ k" "k < 32" using assms by (rule power_of_2_word)
  have "unat (x + d) = (unat x + unat d) mod 2 ^ 32" by (simp add: unat_word_ariths(1))
  moreover have "unat n dvd 2 ^ 32" using k by (simp only: le_imp_power_dvd less_imp_le_nat)
  ultimately show ?thesis by (simp only: mod_mod_cancel)
qed

lemma kf_okE:
  assumes "kf_ok f"
  obtains l r m where "length (kf_buffer f) = l" and "unat (kf_size f) = l"
    and "unat (and (kf_out f) (kf_size f - 1)) = r" and "r < l" and "r = unat (kf_out f) mod l"
    and "unat (and (kf_in f) (kf_size f - 1)) = (r + m) mod l"
    and "unat (kf_in f - kf_out f) = m" and "m \<le> l" and "l \<le> 2 ^ 31"
    and "kf_contents f = ring (kf_buffer f) r m"
    and "unat (kf_size f - kf_in f + kf_out f) = l - m"
proof -
  let ?l = "unat (kf_size f)" and ?m = "unat (kf_in f - kf_out f)"
  let ?r = "unat (kf_out f) mod ?l"
  have p: "is_power_of_2 (kf_size f)" and lb: "length (kf_buffer f) = ?l"
    and le: "kf_in f - kf_out f \<le> kf_size f" using assms by (simp_all add: kf_ok_def)
  obtain k where k: "?l = 2 ^ k" "k < 32" using p by (rule power_of_2_word)
  have "(2::nat) ^ k \<le> 2 ^ 31" using k(2) by (intro power_increasing) simp_all
  moreover have "0 < ?l" using k by simp
  moreover have "unat (kf_in f) mod ?l = (?r + ?m) mod ?l"
    using counter_mod [OF p, of "kf_out f" "kf_in f - kf_out f"] by (simp add: mod_add_left_eq)
  moreover have "kf_size f - kf_in f + kf_out f = kf_size f - (kf_in f - kf_out f)" by simp
  then have "unat (kf_size f - kf_in f + kf_out f) = ?l - ?m"
    using le by (simp only: unat_sub)
  moreover have "?m \<le> ?l" using le by (simp add: word_le_nat_alt)
  ultimately show ?thesis
    using that [of ?l ?r ?m] k lb p ring_mod [of "kf_buffer f" "unat (kf_out f)" ?m]
    by (simp add: low_bits kf_contents_def)
qed

section \<open>Writing and reading\<close>

lemma kfifo_put_spec:
  assumes "kf_ok f" and "unat len \<le> length e"
    and n: "n = min (unat len) (kf_cap f - length (kf_contents f))"
  shows "\<exists>c f'. kfifo_put f e len = Inr (c, f') \<and> unat c = n \<and> kf_ok f' \<and> kf_size f' = kf_size f \<and>
           kf_contents f' = kf_contents f @ take n e"
proof -
  from assms(1) obtain l r m where lb: "length (kf_buffer f) = l" and l: "unat (kf_size f) = l"
    and r: "unat (and (kf_out f) (kf_size f - 1)) = r" "r < l" "r = unat (kf_out f) mod l"
    and w: "unat (and (kf_in f) (kf_size f - 1)) = (r + m) mod l"
    and m: "unat (kf_in f - kf_out f) = m" "m \<le> l" and l31: "l \<le> 2 ^ 31"
    and con: "kf_contents f = ring (kf_buffer f) r m"
    and free: "unat (kf_size f - kf_in f + kf_out f) = l - m"
    by (rule kf_okE)
  define c where "c = min len (kf_size f - kf_in f + kf_out f)"
  have c: "unat c = n" by (simp add: c_def unat_min free n kf_cap_def l con)
  have n': "m + n \<le> l" "n \<le> l" "n \<le> length e" using n m(2) assms(2) by (simp_all add: kf_cap_def l con)
  let ?i = "and (kf_in f) (kf_size f - 1)"
  let ?k = "min c (kf_size f - ?i)"
  have i: "unat ?i < l" using w r(2) by simp
  have k: "unat ?k = min n (l - unat ?i)"
    using i by (simp add: unat_min c unat_sub word_le_nat_alt l)
  then have ck: "unat (c - ?k) = n - unat ?k"
    by (simp add: unat_sub word_le_nat_alt c unat_min)
  obtain b' where b': "put2 (kf_buffer f) (unat ?i) (take n e) = Inr b'" "length b' = l"
    "ring b' r (m + n) = ring (kf_buffer f) r m @ take n e"
    using put2_ring [of "kf_buffer f" m "take n e" "unat ?i" r] n' r(2) w lb
    by (metis gr_zeroI length_take min.absorb2 not_less0)
  have copy: "bindE (cpy (kf_buffer f) (unat ?i) e 0 (unat ?k))
                (\<lambda>b. cpy b 0 e (unat ?k) (n - unat ?k)) = Inr b'"
    using cpy_put [of "unat ?i" "kf_buffer f" n e "unat ?k"] i n' k lb b'(1) by simp
  let ?f = "f\<lparr>kf_buffer := b', kf_in := kf_in f + c\<rparr>"
  have put: "kfifo_put f e len = Inr (c, ?f)"
    using copy by (simp add: kfifo_put_def Let_def c_def [symmetric] ck del: bindE_Inr_iff)
  have d: "unat (kf_in f + c - kf_out f) = m + n"
  proof -
    have "unat (kf_in f - kf_out f) + unat c < 2 ^ LENGTH(32)" using m c n'(1) l31 by simp
    from iffD1 [OF unat_add_lem this] have "unat ((kf_in f - kf_out f) + c) = m + n"
      using m c by (simp only:)
    then show ?thesis by (simp add: algebra_simps)
  qed
  have "kf_ok ?f" using assms(1) d n'(1) b'(2) l by (simp add: kf_ok_def word_le_nat_alt)
  moreover have "kf_contents ?f = kf_contents f @ take n e"
    using b'(2,3) d con r(3) ring_mod [of b' "unat (kf_out f)" "m + n"] by (simp add: kf_contents_def)
  ultimately show ?thesis using put c by auto
qed

lemma kfifo_get_spec:
  assumes "kf_ok f" and "unat len \<le> length e"
    and n: "n = min (unat len) (length (kf_contents f))"
  shows "\<exists>c f'. kfifo_get f e len = Inr (c, take n (kf_contents f) @ drop n e, f') \<and> unat c = n \<and>
           kf_ok f' \<and> kf_size f' = kf_size f \<and> kf_contents f' = drop n (kf_contents f)"
proof -
  from assms(1) obtain l r m where lb: "length (kf_buffer f) = l" and l: "unat (kf_size f) = l"
    and r: "unat (and (kf_out f) (kf_size f - 1)) = r" "r < l" "r = unat (kf_out f) mod l"
    and m: "unat (kf_in f - kf_out f) = m" "m \<le> l"
    and con: "kf_contents f = ring (kf_buffer f) r m"
    by (rule kf_okE)
  define c where "c = min len (kf_in f - kf_out f)"
  have c: "unat c = n" by (simp add: c_def unat_min m n con)
  have n': "n \<le> m" "n \<le> length e" "n \<le> l" using n assms(2) m(2) by (simp_all add: con)
  let ?o = "and (kf_out f) (kf_size f - 1)"
  let ?k = "min c (kf_size f - ?o)"
  have k: "unat ?k = min n (l - unat ?o)"
    using r by (simp add: unat_min c unat_sub word_le_nat_alt l)
  then have ck: "unat (c - ?k) = n - unat ?k"
    by (simp add: unat_sub word_le_nat_alt c unat_min)
  have "wr e 0 (ring (kf_buffer f) r n) = Inr (take n (kf_contents f) @ drop n e)"
    using n' by (simp add: wr_ok con take_ring min_def)
  then have copy: "bindE (cpy e 0 (kf_buffer f) (unat ?o) (unat ?k))
                (\<lambda>d. cpy d (unat ?k) (kf_buffer f) 0 (n - unat ?k)) =
              Inr (take n (kf_contents f) @ drop n e)"
    using cpy_get [of "unat ?o" "kf_buffer f" n e "unat ?k"] r n' k lb by simp
  let ?f = "f\<lparr>kf_out := kf_out f + c\<rparr>"
  have get: "kfifo_get f e len = Inr (c, take n (kf_contents f) @ drop n e, ?f)"
    using copy by (simp add: kfifo_get_def Let_def c_def [symmetric] ck del: bindE_Inr_iff)
  have d: "unat (kf_in f - (kf_out f + c)) = m - n"
  proof -
    have "kf_in f - (kf_out f + c) = (kf_in f - kf_out f) - c" by simp
    moreover have "c \<le> kf_in f - kf_out f" by (simp add: c_def)
    ultimately show ?thesis using m c by (simp only: unat_sub)
  qed
  have p: "is_power_of_2 (kf_size f)" using assms(1) by (simp add: kf_ok_def)
  have "kf_ok ?f" using assms(1) d m(2) l by (simp add: kf_ok_def word_le_nat_alt)
  moreover have "kf_contents ?f = drop n (kf_contents f)"
  proof -
    have "unat (kf_out f + c) mod l = (r + n) mod l"
      using counter_mod [OF p, of "kf_out f" c] c l r(3) by (simp add: mod_add_left_eq)
    then have "ring (kf_buffer f) (unat (kf_out f + c)) (m - n) = ring (kf_buffer f) (r + n) (m - n)"
      using lb ring_mod [of "kf_buffer f" "unat (kf_out f + c)" "m - n"]
        ring_mod [of "kf_buffer f" "r + n" "m - n"] by simp
    with d con show ?thesis by (simp add: kf_contents_def drop_ring)
  qed
  ultimately show ?thesis using get c by auto
qed

section \<open>A byte queue\<close>

definition kf_put :: "u8 list \<Rightarrow> kfifo \<Rightarrow> (nat \<times> kfifo) res" where
  "kf_put xs f = bindE (kfifo_put f xs (of_nat (length xs))) (\<lambda>(c, f1). Inr (unat c, f1))"

definition kf_get :: "nat \<Rightarrow> kfifo \<Rightarrow> (u8 list \<times> kfifo) res" where
  "kf_get n f = bindE (kfifo_get f (replicate n 0) (of_nat n)) (\<lambda>(c, d, f1). Inr (take (unat c) d, f1))"

lemma kf_bounded: "kf_ok f \<Longrightarrow> length (kf_contents f) \<le> kf_cap f"
  by (erule kf_okE) (simp add: kf_cap_def)

lemma kf_put_law:
  assumes "kf_ok f" and "length xs < 2 ^ 31"
    and "n = as_much_as_fits (kf_cap f - length (kf_contents f)) (length xs)"
  shows "\<exists>f'. kf_put xs f = Inr (n, f') \<and> kf_ok f' \<and> kf_cap f' = kf_cap f \<and>
           kf_contents f' = kf_contents f @ take n xs"
  using kfifo_put_spec [OF assms(1), of "of_nat (length xs)" xs n] assms(2,3)
  by (auto simp: unat_of_nat32 as_much_as_fits_def kf_put_def kf_cap_def)

lemma kf_get_law:
  assumes "kf_ok f" and "n < 2 ^ 31" and "k = as_much_as_fits (length (kf_contents f)) n"
  shows "\<exists>f'. kf_get n f = Inr (take k (kf_contents f), f') \<and> kf_ok f' \<and> kf_cap f' = kf_cap f \<and>
           kf_contents f' = drop k (kf_contents f)"
  using kfifo_get_spec [OF assms(1), of "of_nat n" "replicate n 0" k] assms(2,3)
  by (auto simp: unat_of_nat32 as_much_as_fits_def kf_get_def kf_cap_def)

interpretation kf: byte_queue kf_ok kf_contents kf_cap kf_put kf_get as_much_as_fits
  by unfold_locales (fact kf_bounded kf_put_law kf_get_law)+

section \<open>Properties\<close>

text \<open>Eight bytes, the counters about to wrap, three bytes queued.\<close>

definition kf_example :: kfifo where
  "kf_example = \<lparr>kf_buffer = [2, 3, 0, 0, 0, 0, 0, 1], kf_size = 8, kf_in = 2, kf_out = 4294967295\<rparr>"

lemma kf_example_ok:
  "kf_ok kf_example" "kf_contents kf_example = [1, 2, 3]" "kf_cap kf_example = 8"
  by (simp_all add: kf_example_def kf_ok_def kf_contents_def kf_cap_def is_power_of_2_def ring_def
      upt_rec)

text \<open>C3: a session of \<open>kfifo_put\<close> and \<open>kfifo_get\<close> calls returns and does what the same
  session with a bounded list does, each call moving as many bytes as possible, and this
  across the wrap of the 32-bit counters.\<close>

theorem kfifo_refines_fifo:
  assumes "kf_ok f" and "\<forall>op \<in> set ops. op_fits op"
  shows "\<exists>ins outs f'. run_queue kf_put kf_get ops f = Inr (ins, outs, f') \<and> kf_ok f' \<and>
           run_list as_much_as_fits (kf_cap f) ops (kf_contents f) = (ins, outs, kf_contents f') \<and>
           kf_contents f @ ins = outs @ kf_contents f'"
  using kf.fifo [OF assms] by blast

theorem kfifo_refines_fifo_witness:
  "\<exists>f'. run_queue kf_put kf_get [Put [4, 5, 6, 7, 8, 9], Get 4, Get 9] kf_example =
     Inr ([4, 5, 6, 7, 8], [1, 2, 3, 4, 5, 6, 7, 8], f') \<and> kf_contents f' = []"
proof -
  let ?ops = "[Put [4, 5, 6, 7, 8, 9], Get 4, Get 9]"
  have l: "run_list as_much_as_fits 8 ?ops [1, 2, 3] = ([4, 5, 6, 7, 8], [1, 2, 3, 4, 5, 6, 7, 8], [])"
    by (simp add: as_much_as_fits_def Let_def)
  have "\<forall>op \<in> set ?ops. op_fits op" by simp
  from kfifo_refines_fifo [OF kf_example_ok(1) this] obtain ins outs f'
    where r: "run_queue kf_put kf_get ?ops kf_example = Inr (ins, outs, f')"
      and e: "run_list as_much_as_fits 8 ?ops [1, 2, 3] = (ins, outs, kf_contents f')"
    unfolding kf_example_ok(2,3) by blast
  from e r show ?thesis unfolding l by auto
qed

text \<open>\<open>kfifo_peek_to_buf\<close> copies the first \<open>len\<close> queued bytes and leaves the fifo alone;
  when fewer are queued it answers 0 and copies nothing.\<close>

theorem kfifo_peek_to_buf_reads:
  assumes "kf_ok f" and "unat len \<le> length e"
  shows "kfifo_peek_to_buf f e len =
    (if unat len \<le> length (kf_contents f)
     then Inr (len, take (unat len) (kf_contents f) @ drop (unat len) e) else Inr (0, e))"
proof -
  from assms(1) obtain l r m where lb: "length (kf_buffer f) = l" and l: "unat (kf_size f) = l"
    and r: "unat (and (kf_out f) (kf_size f - 1)) = r" "r < l"
    and m: "unat (kf_in f - kf_out f) = m" "m \<le> l"
    and con: "kf_contents f = ring (kf_buffer f) r m"
    by (rule kf_okE)
  let ?o = "and (kf_out f) (kf_size f - 1)" and ?n = "unat len"
  let ?k = "min len (kf_size f - ?o)"
  have k: "unat ?k = min ?n (l - r)"
    using r by (simp add: unat_min unat_sub word_le_nat_alt l)
  have nm: "min len (kf_in f - kf_out f) < len \<longleftrightarrow> m < ?n"
    by (simp add: word_less_nat_alt unat_min m(1)) linarith
  show ?thesis
  proof (cases "?n \<le> m")
    case False
    then have "len \<noteq> 0" by auto
    with False nm show ?thesis
      by (simp add: kfifo_peek_to_buf_def kfifo_peek_def Let_def con)
  next
    case True
    then have mn: "min len (kf_in f - kf_out f) = len"
      by (simp add: min_def word_le_nat_alt m(1))
    have kl: "?k < len \<longleftrightarrow> l - r < ?n" using k by (simp add: word_less_nat_alt) linarith
    have wr0: "wr e 0 (ring (kf_buffer f) r ?n) = Inr (take ?n (kf_contents f) @ drop ?n e)"
      using True assms(2) by (simp add: wr_ok con take_ring min_def)
    have "unat (len - ?k) = ?n - unat ?k"
      by (simp add: unat_sub word_le_nat_alt unat_min)
    moreover have "?n \<le> l" using True m(2) by simp
    ultimately have copy: "bindE (cpy e 0 (kf_buffer f) r (unat ?k))
        (\<lambda>d. cpy d (unat ?k) (kf_buffer f) 0 (unat (len - ?k))) =
        Inr (take ?n (kf_contents f) @ drop ?n e)"
      using cpy_get [of r "kf_buffer f" ?n e "unat ?k"] k r(2) lb assms(2) wr0 by simp
    show ?thesis
    proof (cases "?k < len")
      case True
      with \<open>?n \<le> m\<close> mn copy r(1) con show ?thesis
        by (simp add: kfifo_peek_to_buf_def kfifo_peek_def Let_def cpy_span_def
            bindE_assoc [symmetric] del: bindE_Inr_iff)
    next
      case False
      moreover have "?k \<le> len" by (rule min.cobounded1)
      ultimately have kl: "?k = len" by (metis le_imp_less_or_eq)
      with k r(2) lb have "r + ?n \<le> length (kf_buffer f)" by simp
      with wr0 have "cpy e 0 (kf_buffer f) r ?n = Inr (take ?n (kf_contents f) @ drop ?n e)"
        by (simp add: cpy_def rd_ok ring_flat)
      with \<open>?n \<le> m\<close> mn kl r(1) con show ?thesis
        by (simp add: kfifo_peek_to_buf_def kfifo_peek_def Let_def cpy_span_def)
    qed
  qed
qed

theorem kfifo_peek_to_buf_reads_witness:
  "kfifo_peek_to_buf kf_example [0, 0, 0] 2 = Inr (2, [1, 2, 0])"
  using kfifo_peek_to_buf_reads [OF kf_example_ok(1), of 2 "[0, 0, 0]"]
  by (simp add: kf_example_ok(2))

text \<open>\<open>kfifo_init\<close> asserts a power of two and then sets up an empty fifo; \<open>kfifo_len\<close> and
  \<open>kfifo_get_free_space\<close> are the number of queued bytes and the room left.\<close>

lemma kfifo_init_len_free:
  assumes "length b = unat len"
  shows "(\<not> is_power_of_2 len \<longrightarrow> kfifo_init f b len = Inl Assert_Fail) \<and>
         (is_power_of_2 len \<longrightarrow>
            (\<exists>f'. kfifo_init f b len = Inr f' \<and> kf_ok f' \<and> kf_contents f' = [] \<and> kf_cap f' = unat len)) \<and>
         (kf_ok f \<longrightarrow> unat (kfifo_len f) = length (kf_contents f) \<and>
            unat (kfifo_get_free_space f) = kf_cap f - length (kf_contents f))"
proof (intro conjI impI)
  assume "\<not> is_power_of_2 len"
  then show "kfifo_init f b len = Inl Assert_Fail" by (simp add: kfifo_init_def)
next
  assume "is_power_of_2 len"
  with assms show "\<exists>f'. kfifo_init f b len = Inr f' \<and> kf_ok f' \<and> kf_contents f' = [] \<and>
      kf_cap f' = unat len"
    by (simp add: kfifo_init_def kf_ok_def kf_contents_def kf_cap_def)
next
  assume "kf_ok f"
  then show "unat (kfifo_len f) = length (kf_contents f)"
    by (simp add: kfifo_len_def kf_contents_def)
next
  assume "kf_ok f"
  then show "unat (kfifo_get_free_space f) = kf_cap f - length (kf_contents f)"
    by (rule kf_okE) (simp add: kfifo_get_free_space_def kf_cap_def)
qed

end
