(* ===== verification/SysFreq.thy ===== *)
theory SysFreq
  imports Prelude
begin

text \<open>
  The system frequency arbiter of \<open>platform/hal/hal_sysfreq.c\<close>, in the build with
  \<open>PMU_CTRL_ENABLE\<close>, \<open>ULTRA_LOW_POWER\<close> and \<open>SYSFREQ_STATS\<close>. Every user votes for a
  frequency and the system runs at the highest vote, revised by a floor. The clock, PLL
  and power drivers are called, not modelled: the calls are recorded in order, and the
  frequency last set is what \<open>hal_cmu_sys_get_freq\<close> reads back. The system timer is an
  argument. \<open>int_lock\<close> makes each operation one step.
\<close>

section \<open>Frequencies\<close>

datatype cmu_freq =
    HAL_CMU_FREQ_32K | HAL_CMU_FREQ_6P5M | HAL_CMU_FREQ_13M | HAL_CMU_FREQ_26M
  | HAL_CMU_FREQ_52M | HAL_CMU_FREQ_78M | HAL_CMU_FREQ_104M | HAL_CMU_FREQ_208M

text \<open>The number of an enumeration constant, by which the code compares and indexes.\<close>

primrec freq_index :: "cmu_freq \<Rightarrow> nat" where
  "freq_index HAL_CMU_FREQ_32K = 0"
| "freq_index HAL_CMU_FREQ_6P5M = 1"
| "freq_index HAL_CMU_FREQ_13M = 2"
| "freq_index HAL_CMU_FREQ_26M = 3"
| "freq_index HAL_CMU_FREQ_52M = 4"
| "freq_index HAL_CMU_FREQ_78M = 5"
| "freq_index HAL_CMU_FREQ_104M = 6"
| "freq_index HAL_CMU_FREQ_208M = 7"

lemma freq_index_inj: "freq_index a = freq_index b \<longleftrightarrow> a = b"
  by (cases a; cases b) simp_all

instantiation cmu_freq :: linorder
begin

definition less_eq_cmu_freq :: "cmu_freq \<Rightarrow> cmu_freq \<Rightarrow> bool" where
  "a \<le> b \<longleftrightarrow> freq_index a \<le> freq_index b"

definition less_cmu_freq :: "cmu_freq \<Rightarrow> cmu_freq \<Rightarrow> bool" where
  "a < b \<longleftrightarrow> freq_index a < freq_index b"

instance
  by standard (auto simp: less_eq_cmu_freq_def less_cmu_freq_def freq_index_inj)

end

lemma freq_32K_le [simp]: "HAL_CMU_FREQ_32K \<le> f"
  by (simp add: less_eq_cmu_freq_def)

lemma freq_index_less [simp]: "freq_index f < 8"
  by (cases f) simp_all

text \<open>A frequency argument as it arrives, and the constants it can name.\<close>

definition all_freqs :: "cmu_freq list" where
  "all_freqs = [HAL_CMU_FREQ_32K, HAL_CMU_FREQ_6P5M, HAL_CMU_FREQ_13M, HAL_CMU_FREQ_26M,
     HAL_CMU_FREQ_52M, HAL_CMU_FREQ_78M, HAL_CMU_FREQ_104M, HAL_CMU_FREQ_208M]"

section \<open>The arbiter\<close>

definition SYSFREQ_USER_QTY :: nat where
  "SYSFREQ_USER_QTY = 37"

text \<open>Calls into the clock and power drivers.\<close>

datatype driver_call =
    Cmu_Set_Freq cmu_freq
  | Low_Freq_Mode_Disable cmu_freq cmu_freq
  | Low_Freq_Mode_Enable cmu_freq cmu_freq
  | Pmu_Freq_Config cmu_freq

record sysfreq =
  sf_votes :: "cmu_freq list"
  sf_top :: nat
  sf_min :: cmu_freq
  sf_hw :: cmu_freq
  sf_calls :: "driver_call list"
  sf_last :: u32
  sf_intvl :: "u32 list"
  sf_info_total :: u32
  sf_info_intvl :: "u32 list"

definition cmu_set_freq :: "cmu_freq \<Rightarrow> sysfreq \<Rightarrow> sysfreq" where
  "cmu_set_freq f s = s\<lparr>sf_hw := f, sf_calls := sf_calls s @ [Cmu_Set_Freq f]\<rparr>"

definition call :: "driver_call \<Rightarrow> sysfreq \<Rightarrow> sysfreq" where
  "call c s = s\<lparr>sf_calls := sf_calls s @ [c]\<rparr>"

definition hal_sysfreq_revise_freq :: "cmu_freq \<Rightarrow> cmu_freq \<Rightarrow> cmu_freq" where
  "hal_sysfreq_revise_freq mn freq =
     (let f = if freq = HAL_CMU_FREQ_32K then HAL_CMU_FREQ_26M else freq in
      if f > mn then f else mn)"

definition hal_sysfreq_get :: "sysfreq \<Rightarrow> cmu_freq" where
  "hal_sysfreq_get s = (if sf_top s < SYSFREQ_USER_QTY then sf_votes s ! sf_top s else sf_hw s)"

definition hal_sysfreq_get_hw_freq :: "sysfreq \<Rightarrow> cmu_freq" where
  "hal_sysfreq_get_hw_freq s =
     (if sf_top s < SYSFREQ_USER_QTY then hal_sysfreq_revise_freq (sf_min s) (sf_votes s ! sf_top s)
      else sf_hw s)"

definition hal_sysfreq_set_min_freq :: "cmu_freq \<Rightarrow> sysfreq \<Rightarrow> sysfreq" where
  "hal_sysfreq_set_min_freq freq s =
     (if sf_min s \<noteq> freq then
        let cur = hal_sysfreq_get s;
            old = hal_sysfreq_revise_freq (sf_min s) cur;
            s1 = s\<lparr>sf_min := freq\<rparr>;
            new = hal_sysfreq_revise_freq freq cur in
        if old \<noteq> new then cmu_set_freq new s1 else s1
      else s)"

definition hal_sysfreq_inc_min_freq :: "cmu_freq \<Rightarrow> sysfreq \<Rightarrow> cmu_freq \<times> sysfreq" where
  "hal_sysfreq_inc_min_freq freq s =
     (sf_min s, if freq > sf_min s then hal_sysfreq_set_min_freq freq s else s)"

text \<open>Time since the last check, booked under a row of the statistics (busy 0, idle 1).\<close>

definition book :: "nat \<Rightarrow> nat \<Rightarrow> u32 \<Rightarrow> sysfreq \<Rightarrow> sysfreq" where
  "book idx j now s =
     s\<lparr>sf_intvl := (sf_intvl s)[2 * idx + j := sf_intvl s ! (2 * idx + j) + (now - sf_last s)],
       sf_last := now\<rparr>"

text \<open>The three branches of \<open>hal_sysfreq_req\<close>: the scan for the highest vote, a vote
  above the current frequency, and a vote below it.\<close>

fun top_scan :: "cmu_freq list \<Rightarrow> nat \<Rightarrow> cmu_freq \<Rightarrow> nat \<Rightarrow> cmu_freq \<times> nat" where
  "top_scan [] i freq user = (freq, user)"
| "top_scan (v # vs) i freq user =
     (if freq < v then top_scan vs (Suc i) v i else top_scan vs (Suc i) freq user)"

definition req_raise :: "nat \<Rightarrow> cmu_freq \<Rightarrow> cmu_freq \<Rightarrow> u32 \<Rightarrow> sysfreq \<Rightarrow> sysfreq" where
  "req_raise user freq cur now s0 =
     (let s = s0\<lparr>sf_top := user\<rparr>;
          real = hal_sysfreq_revise_freq (sf_min s) freq;
          real_cur = hal_sysfreq_revise_freq (sf_min s) cur;
          s1 = (if real \<noteq> real_cur
                then cmu_set_freq real (call (Low_Freq_Mode_Disable real_cur real)
                       (call (Pmu_Freq_Config real) s))
                else s) in
      if real \<noteq> real_cur \<or> cur = HAL_CMU_FREQ_32K
      then book (if cur = HAL_CMU_FREQ_32K then freq_index cur else freq_index real_cur) 0 now s1
      else s1)"

definition req_lower :: "nat \<Rightarrow> cmu_freq \<Rightarrow> cmu_freq \<Rightarrow> u32 \<Rightarrow> sysfreq \<Rightarrow> sysfreq" where
  "req_lower user0 freq0 cur now s0 =
     (if sf_top s0 = user0 \<or> sf_top s0 = SYSFREQ_USER_QTY then
        let (freq, user) =
              (if sf_top s0 = user0 then top_scan (tl (sf_votes s0)) 1 (hd (sf_votes s0)) 0
               else (freq0, user0));
            s = s0\<lparr>sf_top := user\<rparr> in
        if freq \<noteq> cur then
          let real = hal_sysfreq_revise_freq (sf_min s) freq;
              real_cur = hal_sysfreq_revise_freq (sf_min s) cur;
              s1 = (if real \<noteq> real_cur
                    then call (Pmu_Freq_Config real)
                          (call (Low_Freq_Mode_Enable real_cur real) (cmu_set_freq real s))
                    else s) in
          if real \<noteq> real_cur \<or> freq = HAL_CMU_FREQ_32K then book (freq_index real_cur) 0 now s1
          else s1
        else s
      else s0)"

definition hal_sysfreq_req :: "nat \<Rightarrow> nat \<Rightarrow> u32 \<Rightarrow> sysfreq \<Rightarrow> nat \<times> sysfreq" where
  "hal_sysfreq_req user freq_arg now s =
     (if user \<ge> SYSFREQ_USER_QTY then (1, s)
      else if freq_arg \<ge> length all_freqs then (2, s)
      else
        let freq = all_freqs ! freq_arg;
            cur = hal_sysfreq_get s;
            s1 = s\<lparr>sf_votes := (sf_votes s)[user := freq]\<rparr> in
        if freq = cur then (0, s1\<lparr>sf_top := user\<rparr>)
        else if freq > cur then (0, req_raise user freq cur now s1)
        else (0, req_lower user freq cur now s1))"

text \<open>\<open>hal_sysfreq_busy\<close> looks at the votes four at a time, as the words they are packed in.\<close>

definition hal_sysfreq_busy :: "sysfreq \<Rightarrow> bool" where
  "hal_sysfreq_busy s \<longleftrightarrow>
     list_ex (\<lambda>i. list_ex (\<lambda>j. j < SYSFREQ_USER_QTY \<and> sf_votes s ! j \<noteq> HAL_CMU_FREQ_32K)
                    [4 * i..<4 * i + 4])
       [0..<(SYSFREQ_USER_QTY + 3) div 4]"

section \<open>Statistics\<close>

definition hal_sysfreq_get_freq_stats_index :: "sysfreq \<Rightarrow> nat" where
  "hal_sysfreq_get_freq_stats_index s =
     (if sf_top s \<ge> SYSFREQ_USER_QTY then freq_index HAL_CMU_FREQ_26M
      else
        let cur = sf_votes s ! sf_top s in
        if cur = HAL_CMU_FREQ_32K then freq_index cur
        else freq_index (hal_sysfreq_revise_freq (sf_min s) cur))"

definition hal_sysfreq_add_freq_time :: "bool \<Rightarrow> u32 \<Rightarrow> sysfreq \<Rightarrow> sysfreq" where
  "hal_sysfreq_add_freq_time idle now s =
     book (hal_sysfreq_get_freq_stats_index s) (if idle then 1 else 0) now s"

text \<open>The copy of the published statistics: \<open>size\<close> is a \<open>uint8_t\<close> count of bytes, here of
  whole 32-bit words.\<close>

definition system_sysfreq_stat_update :: "u32 \<Rightarrow> u32 list \<Rightarrow> u8 \<Rightarrow> sysfreq \<Rightarrow> sysfreq" where
  "system_sysfreq_stat_update tot arr n s =
     s\<lparr>sf_info_total := tot,
       sf_info_intvl := take (unat n div 4) arr @ drop (unat n div 4) (sf_info_intvl s)\<rparr>"

definition hal_sysfreq_print_freq_stats :: "u32 \<Rightarrow> sysfreq \<Rightarrow> sysfreq" where
  "hal_sysfreq_print_freq_stats now s =
     (let s1 = (book (hal_sysfreq_get_freq_stats_index s) 0 now s)\<lparr>sf_last := sf_last s\<rparr>;
          total = sum_list (sf_intvl s1);
          s2 = (if total \<noteq> 0
                then system_sysfreq_stat_update total (sf_intvl s1)
                       (word_of_nat (4 * (2 * SYSFREQ_USER_QTY))) s1
                else s1) in
      s2\<lparr>sf_intvl := replicate (2 * SYSFREQ_USER_QTY) 0, sf_last := now\<rparr>)"

section \<open>Invariant\<close>

text \<open>
  With a top user, its vote is the highest and the clock runs at it, revised; before the
  first request no vote is cast and the clock runs at what the boot code left, which is
  a running frequency not below the floor.
\<close>

definition sf_ok :: "sysfreq \<Rightarrow> bool" where
  "sf_ok s \<longleftrightarrow>
     length (sf_votes s) = SYSFREQ_USER_QTY \<and> length (sf_intvl s) = 2 * SYSFREQ_USER_QTY \<and>
     length (sf_info_intvl s) = 2 * SYSFREQ_USER_QTY \<and>
     (if sf_top s < SYSFREQ_USER_QTY
      then sf_votes s ! sf_top s = Max (set (sf_votes s)) \<and>
           sf_hw s = hal_sysfreq_revise_freq (sf_min s) (sf_votes s ! sf_top s)
      else sf_top s = SYSFREQ_USER_QTY \<and> set (sf_votes s) \<subseteq> {HAL_CMU_FREQ_32K} \<and>
           sf_hw s \<noteq> HAL_CMU_FREQ_32K \<and> sf_min s \<le> sf_hw s)"

definition sf_boot :: "cmu_freq \<Rightarrow> u32 \<Rightarrow> sysfreq" where
  "sf_boot hw now =
     \<lparr>sf_votes = replicate SYSFREQ_USER_QTY HAL_CMU_FREQ_32K, sf_top = SYSFREQ_USER_QTY,
      sf_min = HAL_CMU_FREQ_32K, sf_hw = hw, sf_calls = [], sf_last = now,
      sf_intvl = replicate (2 * SYSFREQ_USER_QTY) 0, sf_info_total = 0,
      sf_info_intvl = replicate (2 * SYSFREQ_USER_QTY) 0\<rparr>"

lemma sf_boot_ok: "hw \<noteq> HAL_CMU_FREQ_32K \<Longrightarrow> sf_ok (sf_boot hw now)"
  by (auto simp: sf_ok_def sf_boot_def SYSFREQ_USER_QTY_def)

lemma revise_self: "m \<le> f \<Longrightarrow> f \<noteq> HAL_CMU_FREQ_32K \<Longrightarrow> hal_sysfreq_revise_freq m f = f"
  by (auto simp: hal_sysfreq_revise_freq_def)

lemma sf_hw_revised:
  "sf_ok s \<Longrightarrow> sf_hw s = hal_sysfreq_revise_freq (sf_min s) (hal_sysfreq_get s)"
  by (auto simp: sf_ok_def hal_sysfreq_get_def revise_self split: if_splits)

lemma sf_get_max:
  assumes "sf_ok s"
  shows "\<forall>v \<in> set (sf_votes s). v \<le> hal_sysfreq_get s"
  using assms by (auto simp: sf_ok_def hal_sysfreq_get_def split: if_splits)

lemma book_simps [simp]:
  "sf_votes (book i j t s) = sf_votes s" "sf_top (book i j t s) = sf_top s"
  "sf_min (book i j t s) = sf_min s" "sf_hw (book i j t s) = sf_hw s"
  "sf_calls (book i j t s) = sf_calls s" "length (sf_intvl (book i j t s)) = length (sf_intvl s)"
  "sf_info_intvl (book i j t s) = sf_info_intvl s" "sf_info_total (book i j t s) = sf_info_total s"
  "sf_last (book i j t s) = t"
  by (simp_all add: book_def)

text \<open>The scan ends at a user who casts the highest vote.\<close>

lemma top_scan_spec:
  assumes "top_scan vs i f u = (f', u')"
  shows "f' = Max (insert f (set vs)) \<and>
         (f' = f \<and> u' = u \<or> i \<le> u' \<and> u' < i + length vs \<and> vs ! (u' - i) = f')"
  using assms
proof (induction vs arbitrary: i f u)
  case (Cons v vs)
  let ?f = "if f < v then v else f"
  have m: "Max (insert f (set (v # vs))) = Max (insert ?f (set vs))"
  proof -
    have "?f = max f v" by (auto simp: max_def)
    then show ?thesis by (cases "vs = []") (simp_all add: max.assoc)
  qed
  from Cons.prems have "top_scan vs (Suc i) ?f (if f < v then i else u) = (f', u')"
    by (simp split: if_splits)
  from Cons.IH [OF this] show ?case
    unfolding m by (auto simp: nth_Cons' Suc_diff_le split: if_splits)
qed simp

lemma top_scan_votes:
  assumes "length vs = SYSFREQ_USER_QTY" and "top_scan (tl vs) 1 (hd vs) 0 = (f, u)"
  shows "u < SYSFREQ_USER_QTY \<and> vs ! u = f \<and> f = Max (set vs)"
proof -
  obtain v ws where vs: "vs = v # ws" using assms(1) by (cases vs) (auto simp: SYSFREQ_USER_QTY_def)
  with assms top_scan_spec [of ws 1 v 0 f u] show ?thesis by (auto simp: nth_Cons')
qed

section \<open>Requests\<close>

text \<open>What a request leaves: the vote cast, the clock and the top user in step with the votes.\<close>

definition settled :: "cmu_freq list \<Rightarrow> sysfreq \<Rightarrow> sysfreq \<Rightarrow> bool" where
  "settled vs s s' \<longleftrightarrow> sf_votes s' = vs \<and> sf_min s' = sf_min s \<and> sf_top s' < SYSFREQ_USER_QTY \<and>
     vs ! sf_top s' = Max (set vs) \<and> sf_hw s' = hal_sysfreq_revise_freq (sf_min s) (Max (set vs)) \<and>
     length (sf_intvl s') = length (sf_intvl s) \<and> length (sf_info_intvl s') = length (sf_info_intvl s)"

lemma settled_ok: "sf_ok s \<Longrightarrow> settled vs s s' \<Longrightarrow> length vs = SYSFREQ_USER_QTY \<Longrightarrow> sf_ok s'"
  by (simp add: sf_ok_def settled_def)

lemma Max_update:
  assumes "u < length vs" and "\<forall>v \<in> set vs. v \<le> f"
  shows "Max (set (vs[u := f])) = (f :: 'a::linorder)"
proof (rule Max_eqI)
  show "f \<in> set (vs[u := f])" using assms(1) by (rule set_update_memI)
  show "v \<le> f" if "v \<in> set (vs[u := f])" for v
    using set_update_subset_insert [of vs u f] that assms(2) by auto
qed simp

lemma req_raise_settled:
  assumes "sf_ok s" and "u < SYSFREQ_USER_QTY" and "freq > hal_sysfreq_get s"
  shows "settled ((sf_votes s)[u := freq]) s
           (req_raise u freq (hal_sysfreq_get s) now (s\<lparr>sf_votes := (sf_votes s)[u := freq]\<rparr>))"
proof -
  let ?vs = "(sf_votes s)[u := freq]"
  have u: "u < length (sf_votes s)" using assms(1,2) by (simp add: sf_ok_def)
  have "\<forall>v \<in> set (sf_votes s). v \<le> freq"
    using sf_get_max [OF assms(1)] assms(3) by (meson less_imp_le order_trans)
  then have "Max (set ?vs) = freq" using u by (intro Max_update)
  with u assms(2) sf_hw_revised [OF assms(1)] show ?thesis
    by (simp add: settled_def req_raise_def Let_def cmu_set_freq_def call_def)
qed

lemma req_lower_settled:
  assumes "sf_ok s" and "u < SYSFREQ_USER_QTY" and "freq < hal_sysfreq_get s"
  shows "settled ((sf_votes s)[u := freq]) s
           (req_lower u freq (hal_sysfreq_get s) now (s\<lparr>sf_votes := (sf_votes s)[u := freq]\<rparr>))"
proof -
  let ?vs = "(sf_votes s)[u := freq]"
  have l: "length ?vs = SYSFREQ_USER_QTY" using assms(1) by (simp add: sf_ok_def)
  note hw = sf_hw_revised [OF assms(1)]
  consider "sf_top s = u" | "sf_top s = SYSFREQ_USER_QTY" "sf_top s \<noteq> u"
    | "sf_top s < SYSFREQ_USER_QTY" "sf_top s \<noteq> u"
    using assms(1) by (auto simp: sf_ok_def split: if_splits)
  then show ?thesis
  proof cases
    case 1
    obtain f' u' where sc: "top_scan (tl ?vs) 1 (hd ?vs) 0 = (f', u')" by fastforce
    with top_scan_votes [OF l sc] 1 hw show ?thesis
      by (auto simp: settled_def req_lower_def Let_def cmu_set_freq_def call_def)
  next
    case 2
    then have "\<forall>v \<in> set (sf_votes s). v \<le> freq" using assms(1) by (auto simp: sf_ok_def)
    then have "Max (set ?vs) = freq" using assms(2) l by (intro Max_update) simp_all
    with 2 assms(2) l hw show ?thesis
      by (auto simp: settled_def req_lower_def Let_def cmu_set_freq_def call_def)
  next
    case 3
    then have top: "hal_sysfreq_get s = sf_votes s ! sf_top s" by (simp add: hal_sysfreq_get_def)
    have "Max (set ?vs) = hal_sysfreq_get s"
    proof (rule Max_eqI)
      show "v \<le> hal_sysfreq_get s" if "v \<in> set ?vs" for v
        using set_update_subset_insert [of "sf_votes s" u freq] that sf_get_max [OF assms(1)] assms(3)
        by (auto intro: less_imp_le)
      show "hal_sysfreq_get s \<in> set ?vs"
        using 3 l top by (metis nth_list_update_neq nth_mem)
    qed simp
    with 3 hw top show ?thesis by (simp add: settled_def req_lower_def)
  qed
qed

lemma hal_sysfreq_req_settled:
  assumes "sf_ok s" and "u < SYSFREQ_USER_QTY" and "n < length all_freqs"
  shows "\<exists>s'. hal_sysfreq_req u n now s = (0, s') \<and>
           settled ((sf_votes s)[u := all_freqs ! n]) s s'"
proof -
  let ?f = "all_freqs ! n"
  consider "?f = hal_sysfreq_get s" | "?f > hal_sysfreq_get s" | "?f < hal_sysfreq_get s" by fastforce
  then show ?thesis
  proof cases
    case 1
    have u: "u < length (sf_votes s)" using assms(1,2) by (simp add: sf_ok_def)
    then have "Max (set ((sf_votes s)[u := ?f])) = ?f"
      using sf_get_max [OF assms(1)] 1 by (intro Max_update) simp_all
    with 1 u assms(2,3) sf_hw_revised [OF assms(1)] show ?thesis
      by (simp add: hal_sysfreq_req_def settled_def)
  next
    case 2
    with req_raise_settled [OF assms(1,2) 2, of now] less_imp_neq [OF 2] assms(2,3) show ?thesis
      by (simp add: hal_sysfreq_req_def Let_def)
  next
    case 3
    with req_lower_settled [OF assms(1,2) 3, of now] less_imp_neq [OF 3] less_not_sym [OF 3] assms(2,3) show ?thesis
      by (simp add: hal_sysfreq_req_def Let_def)
  qed
qed

section \<open>The floor\<close>

lemma revise_floor: "m \<le> hal_sysfreq_revise_freq m f"
  by (auto simp: hal_sysfreq_revise_freq_def Let_def)

lemma revise_running: "hal_sysfreq_revise_freq m f \<noteq> HAL_CMU_FREQ_32K"
proof (cases "m = HAL_CMU_FREQ_32K")
  case True
  then show ?thesis by (cases f) (simp_all add: hal_sysfreq_revise_freq_def less_cmu_freq_def)
next
  case False
  then show ?thesis using revise_floor [of m f] by (metis antisym freq_32K_le)
qed

lemma set_min_fields:
  "sf_min (hal_sysfreq_set_min_freq f s) = f"
  "sf_votes (hal_sysfreq_set_min_freq f s) = sf_votes s"
  "sf_top (hal_sysfreq_set_min_freq f s) = sf_top s"
  "sf_intvl (hal_sysfreq_set_min_freq f s) = sf_intvl s"
  "sf_last (hal_sysfreq_set_min_freq f s) = sf_last s"
  "sf_info_intvl (hal_sysfreq_set_min_freq f s) = sf_info_intvl s"
  by (auto simp: hal_sysfreq_set_min_freq_def Let_def cmu_set_freq_def)

lemma set_min_hw:
  "sf_ok s \<Longrightarrow> sf_hw (hal_sysfreq_set_min_freq f s) = hal_sysfreq_revise_freq f (hal_sysfreq_get s)"
  using sf_hw_revised [of s] by (auto simp: hal_sysfreq_set_min_freq_def Let_def cmu_set_freq_def)

lemma set_min_ok:
  assumes "sf_ok s"
  shows "sf_ok (hal_sysfreq_set_min_freq f s)"
proof (cases "sf_top s < SYSFREQ_USER_QTY")
  case True
  with assms show ?thesis
    by (simp add: sf_ok_def set_min_fields set_min_hw [OF assms] hal_sysfreq_get_def)
next
  case False
  with assms show ?thesis
    by (simp add: sf_ok_def set_min_fields set_min_hw [OF assms] revise_running revise_floor)
qed

section \<open>Driver calls\<close>

text \<open>
  The supply must be configured for a frequency before the clock runs at it: with the
  supply configured for \<open>p\<close> and the clock at \<open>h\<close>, it is sufficient all along the calls.
\<close>

fun powered :: "cmu_freq \<Rightarrow> cmu_freq \<Rightarrow> driver_call list \<Rightarrow> bool" where
  "powered p h [] \<longleftrightarrow> h \<le> p"
| "powered p h (Pmu_Freq_Config f # cs) \<longleftrightarrow> h \<le> p \<and> powered f h cs"
| "powered p h (Cmu_Set_Freq f # cs) \<longleftrightarrow> h \<le> p \<and> powered p f cs"
| "powered p h (Low_Freq_Mode_Disable a b # cs) \<longleftrightarrow> h \<le> p \<and> powered p h cs"
| "powered p h (Low_Freq_Mode_Enable a b # cs) \<longleftrightarrow> h \<le> p \<and> powered p h cs"


lemma revise_max:
  "hal_sysfreq_revise_freq m f = max m (if f = HAL_CMU_FREQ_32K then HAL_CMU_FREQ_26M else f)"
  by (auto simp: hal_sysfreq_revise_freq_def Let_def max_def)





section \<open>Statistics\<close>

lemma sum_list_update_word:
  "k < length xs \<Longrightarrow> sum_list (xs[k := x]) = sum_list xs - xs ! k + (x :: u32)"
  by (induction xs arbitrary: k) (auto simp: nth_Cons' algebra_simps split: nat.split)

lemma book_sum:
  assumes "2 * i + j < length (sf_intvl s)"
  shows "sum_list (sf_intvl (book i j now s)) - sf_last (book i j now s) = sum_list (sf_intvl s) - sf_last s"
  using assms by (simp add: book_def sum_list_update_word algebra_simps)

lemma stats_row: "hal_sysfreq_get_freq_stats_index s < 8"
  by (simp add: hal_sysfreq_get_freq_stats_index_def Let_def)

lemma book_sum_row:
  assumes "length (sf_intvl s) = 2 * SYSFREQ_USER_QTY" and "i < 8" and "j < 2"
  shows "sum_list (sf_intvl (book i j now s)) - now = sum_list (sf_intvl s) - sf_last s"
  using book_sum [of i j s now] assms by (simp add: SYSFREQ_USER_QTY_def)

lemma driver_intvl [simp]:
  "sf_intvl (cmu_set_freq f s) = sf_intvl s" "sf_last (cmu_set_freq f s) = sf_last s"
  "sf_intvl (call c s) = sf_intvl s" "sf_last (call c s) = sf_last s"
  by (simp_all add: cmu_set_freq_def call_def)

lemma req_intvl_sum:
  assumes "length (sf_intvl s) = 2 * SYSFREQ_USER_QTY"
  shows "sum_list (sf_intvl (snd (hal_sysfreq_req u n now s))) - sf_last (snd (hal_sysfreq_req u n now s)) =
         sum_list (sf_intvl s) - sf_last s"
proof -
  have b: "sum_list (sf_intvl (book i 0 now t)) - now = sum_list (sf_intvl s) - sf_last s"
    if "sf_intvl t = sf_intvl s" "sf_last t = sf_last s" "i < 8" for i t
    using book_sum_row [of t i 0 now] that assms by simp
  have r: "sum_list (sf_intvl (req_raise u f c now t)) - sf_last (req_raise u f c now t) =
           sum_list (sf_intvl s) - sf_last s"
    if "sf_intvl t = sf_intvl s" "sf_last t = sf_last s" for f c t
    using that b by (simp add: req_raise_def Let_def)
  have l: "sum_list (sf_intvl (req_lower u f c now t)) - sf_last (req_lower u f c now t) =
           sum_list (sf_intvl s) - sf_last s"
    if "sf_intvl t = sf_intvl s" "sf_last t = sf_last s" for f c t
    using that b by (simp add: req_lower_def Let_def split_def)
  show ?thesis using r l by (simp add: hal_sysfreq_req_def Let_def)
qed

lemma sizeof_intvl: "unat (word_of_nat (4 * (2 * SYSFREQ_USER_QTY)) :: u8) = 40"
  by (simp add: SYSFREQ_USER_QTY_def)

lemma stats_fields:
  "sf_votes (hal_sysfreq_print_freq_stats t s) = sf_votes s"
  "sf_top (hal_sysfreq_print_freq_stats t s) = sf_top s"
  "sf_min (hal_sysfreq_print_freq_stats t s) = sf_min s"
  "sf_hw (hal_sysfreq_print_freq_stats t s) = sf_hw s"
  "length (sf_intvl (hal_sysfreq_print_freq_stats t s)) = 2 * SYSFREQ_USER_QTY"
  by (auto simp: hal_sysfreq_print_freq_stats_def system_sysfreq_stat_update_def Let_def)

lemma stats_info_length:
  "sf_ok s \<Longrightarrow> length (sf_info_intvl (hal_sysfreq_print_freq_stats t s)) = 2 * SYSFREQ_USER_QTY"
  unfolding hal_sysfreq_print_freq_stats_def system_sysfreq_stat_update_def Let_def
  by (simp add: sizeof_intvl sf_ok_def) (simp add: SYSFREQ_USER_QTY_def)

section \<open>Reachable states\<close>

inductive sf_reach :: "sysfreq \<Rightarrow> bool" where
  boot: "hw \<noteq> HAL_CMU_FREQ_32K \<Longrightarrow> sf_reach (sf_boot hw now)"
| req: "sf_reach s \<Longrightarrow> hal_sysfreq_req u n now s = (r, s') \<Longrightarrow> sf_reach s'"
| set_min: "sf_reach s \<Longrightarrow> sf_reach (hal_sysfreq_set_min_freq f s)"
| inc_min: "sf_reach s \<Longrightarrow> hal_sysfreq_inc_min_freq f s = (old, s') \<Longrightarrow> sf_reach s'"
| add_time: "sf_reach s \<Longrightarrow> sf_reach (hal_sysfreq_add_freq_time idle now s)"
| stats: "sf_reach s \<Longrightarrow> sf_reach (hal_sysfreq_print_freq_stats now s)"

lemma req_ok:
  assumes "sf_ok s" and "hal_sysfreq_req u n now s = (r, s')"
  shows "sf_ok s'"
proof (cases "u < SYSFREQ_USER_QTY \<and> n < length all_freqs")
  case True
  with hal_sysfreq_req_settled [OF assms(1), of u n now] assms(2)
  have "settled ((sf_votes s)[u := all_freqs ! n]) s s'" by auto
  moreover have "length ((sf_votes s)[u := all_freqs ! n]) = SYSFREQ_USER_QTY"
    using assms(1) by (simp add: sf_ok_def)
  ultimately show ?thesis by (rule settled_ok [OF assms(1)])
next
  case False
  with assms(2) have "s' = s"
    by (cases "SYSFREQ_USER_QTY \<le> u") (auto simp: hal_sysfreq_req_def)
  with assms(1) show ?thesis by simp
qed

lemma sf_reach_ok: "sf_reach s \<Longrightarrow> sf_ok s"
proof (induction rule: sf_reach.induct)
  case (add_time s idle now)
  then show ?case by (simp add: hal_sysfreq_add_freq_time_def sf_ok_def)
next
  case (stats s now)
  then show ?case
    using stats_info_length [of s now] by (simp add: sf_ok_def stats_fields)
qed (auto simp: sf_boot_ok req_ok set_min_ok hal_sysfreq_inc_min_freq_def)

section \<open>Properties\<close>

text \<open>C4: in every state reachable from boot, the clock driver was last set to what
  \<open>hal_sysfreq_get_hw_freq\<close> answers, and once a user has asked for a frequency this is
  the highest vote, revised by the floor.\<close>

theorem sysfreq_invariant:
  assumes "sf_reach s"
  shows "sf_hw s = hal_sysfreq_get_hw_freq s \<and>
         (sf_top s < SYSFREQ_USER_QTY \<longrightarrow>
            hal_sysfreq_get s = Max (set (sf_votes s)) \<and>
            sf_hw s = hal_sysfreq_revise_freq (sf_min s) (Max (set (sf_votes s))))"
  using sf_reach_ok [OF assms]
  by (auto simp: sf_ok_def hal_sysfreq_get_hw_freq_def hal_sysfreq_get_def split: if_splits)

definition sf_busy_example :: sysfreq where
  "sf_busy_example = snd (hal_sysfreq_req 4 5 200 (snd (hal_sysfreq_req 3 6 100
     (sf_boot HAL_CMU_FREQ_26M 0))))"

lemma sf_reach_req: "sf_reach s \<Longrightarrow> sf_reach (snd (hal_sysfreq_req u n now s))"
  by (rule sf_reach.req [OF _ prod.collapse [symmetric]])

lemma sf_example_reach: "sf_reach sf_busy_example"
  unfolding sf_busy_example_def by (intro sf_reach_req sf_reach.boot) simp

lemma sf_example_top: "sf_top sf_busy_example = 3 \<and> hal_sysfreq_get sf_busy_example = HAL_CMU_FREQ_104M"
  by code_simp

theorem sysfreq_invariant_witness:
  "sf_hw sf_busy_example = hal_sysfreq_get_hw_freq sf_busy_example \<and>
   HAL_CMU_FREQ_104M = Max (set (sf_votes sf_busy_example))"
  using sysfreq_invariant [OF sf_example_reach] sf_example_top by (simp add: SYSFREQ_USER_QTY_def)

text \<open>C5: a request with a user and a frequency in range is granted: it changes this user's
  vote only, and the clock follows the highest vote; any other request is refused with its
  error code and changes nothing.\<close>

theorem hal_sysfreq_req_arbitrates:
  assumes "sf_ok s" and "hal_sysfreq_req u n now s = (r, s')"
  shows "if u < SYSFREQ_USER_QTY \<and> n < length all_freqs
         then r = 0 \<and> sf_ok s' \<and> sf_votes s' = (sf_votes s)[u := all_freqs ! n] \<and>
              sf_min s' = sf_min s \<and> hal_sysfreq_get s' = Max (set (sf_votes s')) \<and>
              sf_hw s' = hal_sysfreq_revise_freq (sf_min s) (Max (set (sf_votes s')))
         else r = (if u < SYSFREQ_USER_QTY then 2 else 1) \<and> s' = s"
proof (cases "u < SYSFREQ_USER_QTY \<and> n < length all_freqs")
  case True
  with hal_sysfreq_req_settled [OF assms(1), of u n now] req_ok [OF assms] assms(2) show ?thesis
    by (auto simp: settled_def hal_sysfreq_get_def)
next
  case False
  with assms(2) show ?thesis by (auto simp: hal_sysfreq_req_def)
qed

theorem hal_sysfreq_req_arbitrates_witness:
  "sf_hw (snd (hal_sysfreq_req 3 0 300 sf_busy_example)) =
     hal_sysfreq_revise_freq HAL_CMU_FREQ_32K
       (Max (set (sf_votes (snd (hal_sysfreq_req 3 0 300 sf_busy_example)))))"
proof -
  have "sf_min sf_busy_example = HAL_CMU_FREQ_32K" by code_simp
  with hal_sysfreq_req_arbitrates [OF sf_reach_ok [OF sf_example_reach] prod.collapse [symmetric],
      of 3 0 300]
  show ?thesis by (simp add: SYSFREQ_USER_QTY_def all_freqs_def)
qed



text \<open>a vote for 6.5 or 13 MHz when all vote 32K is a raise to the arbiter but lowers the
  clock from its revised 26 MHz, and the supply is lowered before the clock is.\<close>

theorem hal_sysfreq_req_slow_raise:
  assumes "sf_ok s" and "u < SYSFREQ_USER_QTY" and "hal_sysfreq_get s = HAL_CMU_FREQ_32K"
    and "n \<in> {1, 2}" and "sf_min s \<le> all_freqs ! n"
  shows "sf_hw s = HAL_CMU_FREQ_26M \<and>
         (\<exists>cs. sf_calls (snd (hal_sysfreq_req u n now s)) = sf_calls s @ cs \<and>
               \<not> powered HAL_CMU_FREQ_26M (sf_hw s) cs)"
proof -
  let ?f = "all_freqs ! n"
  have f: "?f > HAL_CMU_FREQ_32K" "?f < HAL_CMU_FREQ_26M" "n < length all_freqs"
    using assms(4) by (auto simp: all_freqs_def less_cmu_freq_def)
  have m: "hal_sysfreq_revise_freq (sf_min s) HAL_CMU_FREQ_32K = HAL_CMU_FREQ_26M"
    "hal_sysfreq_revise_freq (sf_min s) ?f = ?f"
    using f assms(5) by (auto simp: revise_max max_def)
  have "sf_hw s = HAL_CMU_FREQ_26M" using sf_hw_revised [OF assms(1)] m(1) assms(3) by simp
  moreover have "sf_calls (snd (hal_sysfreq_req u n now s)) = sf_calls s @
      [Pmu_Freq_Config ?f, Low_Freq_Mode_Disable HAL_CMU_FREQ_26M ?f, Cmu_Set_Freq ?f]"
    using assms(2,3) f m less_imp_neq [OF f(1)] less_imp_neq [OF f(2)]
    by (simp add: hal_sysfreq_req_def req_raise_def Let_def cmu_set_freq_def call_def)
  ultimately show ?thesis using f(2) by (auto simp: not_le)
qed

theorem hal_sysfreq_req_slow_raise_witness:
  "\<exists>cs. sf_calls (snd (hal_sysfreq_req 0 1 9 (snd (hal_sysfreq_req 0 0 5 (sf_boot HAL_CMU_FREQ_26M 0))))) =
     sf_calls (snd (hal_sysfreq_req 0 0 5 (sf_boot HAL_CMU_FREQ_26M 0))) @ cs \<and>
     \<not> powered HAL_CMU_FREQ_26M HAL_CMU_FREQ_26M cs"
proof -
  let ?s = "snd (hal_sysfreq_req 0 0 5 (sf_boot HAL_CMU_FREQ_26M 0))"
  have "sf_ok ?s" by (rule req_ok [OF sf_boot_ok prod.collapse [symmetric]]) simp
  moreover have "hal_sysfreq_get ?s = HAL_CMU_FREQ_32K" "sf_min ?s = HAL_CMU_FREQ_32K" by code_simp+
  ultimately show ?thesis
    using hal_sysfreq_req_slow_raise [of ?s 0 1 9] by (auto simp: SYSFREQ_USER_QTY_def)
qed

text \<open>no time is lost in the statistics: between two prints, the intervals add up to the
  time of the last check less the time of the last print, modulo \<open>2 ^ 32\<close>.\<close>

theorem sysfreq_stats_conserved:
  assumes "length (sf_intvl s) = 2 * SYSFREQ_USER_QTY"
  shows "sum_list (sf_intvl (snd (hal_sysfreq_req u n now s))) - sf_last (snd (hal_sysfreq_req u n now s)) =
           sum_list (sf_intvl s) - sf_last s \<and>
         sum_list (sf_intvl (hal_sysfreq_add_freq_time idle now s)) - sf_last (hal_sysfreq_add_freq_time idle now s) =
           sum_list (sf_intvl s) - sf_last s \<and>
         sum_list (sf_intvl (hal_sysfreq_print_freq_stats now s)) - sf_last (hal_sysfreq_print_freq_stats now s) =
           - now \<and>
         (sum_list (sf_intvl s) + (now - sf_last s) \<noteq> 0 \<longrightarrow>
            sf_info_total (hal_sysfreq_print_freq_stats now s) = sum_list (sf_intvl s) + (now - sf_last s))"
proof (intro conjI impI)
  show "sum_list (sf_intvl (hal_sysfreq_add_freq_time idle now s)) -
      sf_last (hal_sysfreq_add_freq_time idle now s) = sum_list (sf_intvl s) - sf_last s"
    using book_sum_row [OF assms stats_row [of s], where j = "if idle then 1 else 0" and now = now]
    by (simp add: hal_sysfreq_add_freq_time_def)
  show "sum_list (sf_intvl (hal_sysfreq_print_freq_stats now s)) -
      sf_last (hal_sysfreq_print_freq_stats now s) = - now"
    by (simp add: hal_sysfreq_print_freq_stats_def Let_def sum_list_replicate)
  have "sum_list (sf_intvl (book (hal_sysfreq_get_freq_stats_index s) 0 now s)) =
      sum_list (sf_intvl s) + (now - sf_last s)"
    using book_sum_row [OF assms stats_row [of s], where j = 0 and now = now] by (simp add: algebra_simps)
  moreover assume "sum_list (sf_intvl s) + (now - sf_last s) \<noteq> 0"
  ultimately show "sf_info_total (hal_sysfreq_print_freq_stats now s) = sum_list (sf_intvl s) + (now - sf_last s)"
    by (simp add: hal_sysfreq_print_freq_stats_def system_sysfreq_stat_update_def Let_def)
qed (rule req_intvl_sum [OF assms])

theorem sysfreq_stats_conserved_witness:
  "sf_info_total (hal_sysfreq_print_freq_stats 900 sf_busy_example) = 900"
proof -
  have "sum_list (sf_intvl sf_busy_example) = 100" "sf_last sf_busy_example = 100"
    "length (sf_intvl sf_busy_example) = 2 * SYSFREQ_USER_QTY" by code_simp+
  with sysfreq_stats_conserved [of sf_busy_example 0 0 900 False] show ?thesis by simp
qed

text \<open>printing publishes the intervals of the first five frequencies only: the size of
  the table, 296 bytes, reaches the copy as a \<open>uint8_t\<close>, 40 bytes. What was published for
  the frequencies from 78 MHz on stays as it was.\<close>

theorem sysfreq_stats_truncated:
  assumes "sf_ok s" and "i < 2 * SYSFREQ_USER_QTY"
    and "sum_list (sf_intvl s) + (now - sf_last s) \<noteq> 0"
  shows "sf_info_intvl (hal_sysfreq_print_freq_stats now s) ! i =
         (if i < 2 * freq_index HAL_CMU_FREQ_78M
          then sf_intvl (book (hal_sysfreq_get_freq_stats_index s) 0 now s) ! i
          else sf_info_intvl s ! i)"
proof -
  have l: "length (sf_intvl s) = 2 * SYSFREQ_USER_QTY" "length (sf_info_intvl s) = 2 * SYSFREQ_USER_QTY"
    using assms(1) by (simp_all add: sf_ok_def)
  have "sum_list (sf_intvl (book (hal_sysfreq_get_freq_stats_index s) 0 now s)) =
      sum_list (sf_intvl s) + (now - sf_last s)"
    using book_sum_row [OF l(1) stats_row [of s], where j = 0 and now = now] by (simp add: algebra_simps)
  with assms(2,3) l show ?thesis
    unfolding hal_sysfreq_print_freq_stats_def system_sysfreq_stat_update_def Let_def
    by (simp add: sizeof_intvl nth_append SYSFREQ_USER_QTY_def)
qed

theorem sysfreq_stats_truncated_witness:
  "sf_info_intvl (hal_sysfreq_print_freq_stats 900 sf_busy_example) ! 12 = 0 \<and>
   sf_intvl (book (hal_sysfreq_get_freq_stats_index sf_busy_example) 0 900 sf_busy_example) ! 12 = 800"
proof -
  have "sf_intvl (book (hal_sysfreq_get_freq_stats_index sf_busy_example) 0 900 sf_busy_example) ! 12 = 800"
    "sf_info_intvl sf_busy_example ! 12 = 0" "sum_list (sf_intvl sf_busy_example) = 100"
    "sf_last sf_busy_example = 100" by code_simp+
  with sysfreq_stats_truncated [OF sf_reach_ok [OF sf_example_reach], of 12 900] show ?thesis
    by (simp add: SYSFREQ_USER_QTY_def)
qed

end
