(* ===== verification/SysPool.thy ===== *)
theory SysPool
  imports Prelude
begin

text \<open>
  The memory pools of \<open>utils/heap/pool_api.c\<close>: the system pool, the pool of the second
  core and the pool shared by the users of the DSP. All three are bump allocators over a
  region that the linker script lays out: a list of bytes here, its length what the linker
  symbols delimit. A pointer into a pool is its offset in the region. The locale states
  what an allocator client relies on; it is interpreted for each pool.
\<close>

unbundle bit_operations_syntax

section \<open>Interface\<close>

text \<open>A client's allocations in order: the blocks it was granted, as offset and length.\<close>

fun run_alloc ::
  "(u32 \<Rightarrow> 'p \<Rightarrow> (u32 option \<times> 'p) res) \<Rightarrow> u32 list \<Rightarrow> 'p \<Rightarrow> ((nat \<times> nat) list \<times> 'p) res" where
  "run_alloc alloc [] p = Inr ([], p)"
| "run_alloc alloc (n # ns) p =
     bindE (alloc n p) (\<lambda>(r, p1).
     bindE (run_alloc alloc ns p1) (\<lambda>(bs, p2).
     Inr ((case r of None \<Rightarrow> bs | Some off \<Rightarrow> (unat off, unat n) # bs), p2)))"

text \<open>Blocks that follow each other from \<open>lo\<close> to \<open>hi\<close> without overlap, each on a word boundary
  unless it is empty.\<close>

fun laid_out :: "nat \<Rightarrow> (nat \<times> nat) list \<Rightarrow> nat \<Rightarrow> bool" where
  "laid_out lo [] hi \<longleftrightarrow> lo \<le> hi"
| "laid_out lo ((off, n) # bs) hi \<longleftrightarrow> lo \<le> off \<and> (n = 0 \<or> 4 dvd off) \<and> laid_out (off + n) bs hi"

lemma laid_out_mono: "laid_out lo bs hi \<Longrightarrow> lo' \<le> lo \<Longrightarrow> laid_out lo' bs hi"
  by (cases bs) auto

lemma laid_out_le: "laid_out lo bs hi \<Longrightarrow> lo \<le> hi"
  by (induction lo bs hi rule: laid_out.induct) auto

text \<open>No two of the blocks overlap, and all lie inside.\<close>

lemma laid_out_disjoint:
  "laid_out lo bs hi \<Longrightarrow> i < j \<Longrightarrow> j < length bs \<Longrightarrow>
   fst (bs ! i) + snd (bs ! i) \<le> fst (bs ! j) \<and> fst (bs ! j) + snd (bs ! j) \<le> hi"
proof (induction lo bs hi arbitrary: i j rule: laid_out.induct)
  case (2 lo off n bs hi)
  have inside: "lo' \<le> fst (cs ! k) \<and> fst (cs ! k) + snd (cs ! k) \<le> hi"
    if "laid_out lo' cs hi" "k < length cs" for lo' cs k
    using that
  proof (induction lo' cs hi arbitrary: k rule: laid_out.induct)
    case (2 lo off n bs hi)
    then show ?case by (cases k) (force dest: laid_out_le)+
  qed simp
  show ?case
  proof (cases i)
    case 0
    with 2 inside [of "off + n" bs "j - 1"] show ?thesis by (cases j) auto
  next
    case (Suc i')
    with 2 show ?thesis by (cases j) auto
  qed
qed simp

text \<open>The bytes a request takes: rounded up to a whole number of words.\<close>

definition words_for :: "nat \<Rightarrow> nat" where
  "words_for n = (n + 3) div 4 * 4"

lemma words_for_ge: "n \<le> words_for n"
  unfolding words_for_def by presburger

lemma words_for_dvd [simp]: "4 dvd words_for n"
  by (simp add: words_for_def)

locale bump_pool =
  fixes inv :: "'p \<Rightarrow> bool"
    and total :: "'p \<Rightarrow> nat"
    and used :: "'p \<Rightarrow> nat"
    and alloc :: "u32 \<Rightarrow> 'p \<Rightarrow> (u32 option \<times> 'p) res"
  assumes used_le: "inv p \<Longrightarrow> used p \<le> total p"
    and used_aligned: "inv p \<Longrightarrow> 4 dvd used p \<or> used p = total p"
    and granted: "inv p \<Longrightarrow> unat n < 2 ^ 32 - 3 \<Longrightarrow> words_for (unat n) \<le> total p - used p \<Longrightarrow>
      \<exists>off p'. alloc n p = Inr (Some off, p') \<and> inv p' \<and> unat off = used p \<and>
        used p' = used p + words_for (unat n) \<and> total p' = total p"
    and refused: "inv p \<Longrightarrow> unat n < 2 ^ 32 - 3 \<Longrightarrow> \<not> words_for (unat n) \<le> total p - used p \<Longrightarrow>
      alloc n p = Inl Assert_Fail \<or> alloc n p = Inr (None, p)"
begin

lemma block_aligned:
  assumes "inv p" and "words_for (unat (n :: u32)) \<le> total p - used p"
  shows "unat n = 0 \<or> 4 dvd used p"
  using used_aligned [OF assms(1)] assms(2) words_for_ge [of "unat n"] by auto

text \<open>Whatever is asked for, the blocks granted are disjoint, aligned and inside the pool.\<close>

lemma session_safe:
  assumes "inv p" and "\<forall>n \<in> set ns. unat n < 2 ^ 32 - 3" and "run_alloc alloc ns p = Inr (bs, p')"
  shows "inv p' \<and> total p' = total p \<and> laid_out (used p) bs (total p)"
  using assms
proof (induction ns arbitrary: p bs)
  case Nil
  then show ?case by (simp add: used_le)
next
  case (Cons n ns)
  show ?case
  proof (cases "words_for (unat n) \<le> total p - used p")
    case True
    with granted [OF Cons.prems(1), of n] Cons.prems(2) obtain off p1 where
      1: "alloc n p = Inr (Some off, p1)" "inv p1" "unat off = used p"
        "used p1 = used p + words_for (unat n)" "total p1 = total p" by auto
    with Cons.prems(3) obtain bs' where
      "run_alloc alloc ns p1 = Inr (bs', p')" "bs = (used p, unat n) # bs'" by auto
    with Cons.IH [OF 1(2), of bs'] Cons.prems(2) 1 block_aligned [OF Cons.prems(1) True]
      words_for_ge [of "unat n"]
    show ?thesis by (auto intro: laid_out_mono)
  next
    case False
    with refused [OF Cons.prems(1), of n] Cons.prems(2,3) have "run_alloc alloc ns p = Inr (bs, p')" by auto
    with Cons.IH [OF Cons.prems(1)] Cons.prems(2) show ?thesis by simp
  qed
qed

text \<open>A session whose requests fit together is granted whole.\<close>

lemma session_granted:
  assumes "inv p" and "\<forall>n \<in> set ns. unat n < 2 ^ 32 - 3"
    and "(\<Sum>n\<leftarrow>ns. words_for (unat n)) \<le> total p - used p"
  shows "\<exists>bs p'. run_alloc alloc ns p = Inr (bs, p') \<and> map snd bs = map unat ns \<and>
           used p' = used p + (\<Sum>n\<leftarrow>ns. words_for (unat n))"
  using assms
proof (induction ns arbitrary: p)
  case (Cons n ns)
  with granted [OF Cons.prems(1), of n] obtain off p1 where
    1: "alloc n p = Inr (Some off, p1)" "inv p1" "used p1 = used p + words_for (unat n)"
      "total p1 = total p" by auto
  have "(\<Sum>n\<leftarrow>ns. words_for (unat n)) \<le> total p1 - used p1"
    using Cons.prems(3) 1(3,4) by simp
  with Cons.IH [OF 1(2)] Cons.prems(2) obtain bs p' where "run_alloc alloc ns p1 = Inr (bs, p')"
    "map snd bs = map unat ns" "used p' = used p1 + (\<Sum>n\<leftarrow>ns. words_for (unat n))" by auto
  with 1 show ?case by simp
qed simp

end

section \<open>The system pool\<close>

definition SYS_MEM_POOL_RESERVED_SIZE :: nat where
  "SYS_MEM_POOL_RESERVED_SIZE = 512"

record syspool =
  sp_region :: "u8 list"
  sp_size :: u32
  sp_used :: u32

definition syspool_original_size :: "syspool \<Rightarrow> u32 res" where
  "syspool_original_size p =
     c_assert (SYS_MEM_POOL_RESERVED_SIZE < length (sp_region p))
       (Inr (of_nat (length (sp_region p) - SYS_MEM_POOL_RESERVED_SIZE)))"

definition syspool_init_specific_size :: "u32 \<Rightarrow> syspool \<Rightarrow> syspool res" where
  "syspool_init_specific_size sz p =
     bindE (syspool_original_size p) (\<lambda>orig.
     let sz1 = (if sz < orig then sz else orig) in
     bindE (wr (sp_region p) 0 (replicate (unat sz1) 0)) (\<lambda>m.
     Inr (p\<lparr>sp_size := sz1, sp_used := 0, sp_region := m\<rparr>)))"

definition syspool_init :: "syspool \<Rightarrow> syspool res" where
  "syspool_init p = bindE (syspool_original_size p) (\<lambda>sz. syspool_init_specific_size sz p)"

definition syspool_free_size :: "syspool \<Rightarrow> u32" where
  "syspool_free_size p = sp_size p - sp_used p"

text \<open>\<open>if (size % 4) size = size + (4 - size % 4)\<close>\<close>

definition round_up4 :: "u32 \<Rightarrow> u32" where
  "round_up4 n = (if n mod 4 \<noteq> 0 then n + (4 - n mod 4) else n)"

text \<open>Returns the free size before the allocation and stores the pointer in \<open>*buff\<close>.\<close>

definition syspool_get_buff :: "u32 \<Rightarrow> syspool \<Rightarrow> (u32 \<times> u32 \<times> syspool) res" where
  "syspool_get_buff n p =
     (let free = syspool_free_size p; sz = round_up4 n in
      c_assert (sz \<le> free)
        (Inr (sp_used p, free, p\<lparr>sp_used := sp_used p + sz\<rparr>)))"

definition syspool_get_available :: "bool \<Rightarrow> syspool \<Rightarrow> u32 \<times> u32 option \<times> syspool" where
  "syspool_get_available want p =
     (let free = syspool_free_size p in
      if free < 8 then (-1, None, p)
      else if want then (free, Some (sp_used p), p\<lparr>sp_used := sp_used p + free\<rparr>)
      else (free, None, p))"

definition syspool_malloc :: "u32 \<Rightarrow> syspool \<Rightarrow> (u32 option \<times> syspool) res" where
  "syspool_malloc n p = bindE (syspool_get_buff n p) (\<lambda>(off, free, p1). Inr (Some off, p1))"

definition syspool_calloc :: "u32 \<Rightarrow> u32 \<Rightarrow> syspool \<Rightarrow> (u32 option \<times> syspool) res" where
  "syspool_calloc num sz p =
     bindE (syspool_get_buff (num * sz) p) (\<lambda>(off, free, p1).
     bindE (wr (sp_region p1) (unat off) (replicate (unat (num * sz)) 0)) (\<lambda>m.
     Inr (Some off, p1\<lparr>sp_region := m\<rparr>)))"

text \<open>The allocator object handed to other libraries. Its pointer test cannot fail: the
  region does not start at address 0.\<close>

definition pool_malloc :: "u32 \<Rightarrow> syspool \<Rightarrow> (u32 option \<times> syspool) res" where
  "pool_malloc n p = bindE (syspool_get_buff n p) (\<lambda>(off, free, p1). Inr (Some off, p1))"

definition pool_calloc :: "u32 \<Rightarrow> u32 \<Rightarrow> syspool \<Rightarrow> (u32 option \<times> syspool) res" where
  "pool_calloc nmemb sz p =
     (if sz = 0 then Inr (None, p)
      else bindE (pool_malloc (nmemb * sz) p) (\<lambda>(ptr, p1).
        case ptr of None \<Rightarrow> Inr (None, p1)
        | Some off \<Rightarrow>
            bindE (wr (sp_region p1) (unat off) (replicate (unat (nmemb * sz)) 0)) (\<lambda>m.
            Inr (Some off, p1\<lparr>sp_region := m\<rparr>))))"

section \<open>The pool of the second core\<close>

record cp_pool =
  cp_region :: "u8 list"
  cp_size :: u32
  cp_used :: u32

definition cp_pool_init :: "cp_pool \<Rightarrow> cp_pool" where
  "cp_pool_init p = p\<lparr>cp_size := of_nat (length (cp_region p)), cp_used := 0,
                      cp_region := replicate (length (cp_region p)) 0\<rparr>"

definition cp_pool_free_size :: "cp_pool \<Rightarrow> u32" where
  "cp_pool_free_size p = cp_size p - cp_used p"

definition cp_pool_get_buff :: "u32 \<Rightarrow> cp_pool \<Rightarrow> u32 option \<times> u32 \<times> cp_pool" where
  "cp_pool_get_buff n p =
     (let sz = (n + 3) AND NOT 3; free = cp_pool_free_size p in
      if sz \<le> free then (Some (cp_used p), free, p\<lparr>cp_used := cp_used p + sz\<rparr>)
      else (None, free, p))"

section \<open>The pool shared by the users of the DSP\<close>

text \<open>The users in turn; their callbacks are the clients' functions, named here.\<close>

definition SYSPOOL_USER_MAX :: nat where
  "SYSPOOL_USER_MAX = 4"

definition OFF_BTH_SYS_MEM_POOL_RESERVED_SIZE :: nat where
  "OFF_BTH_SYS_MEM_POOL_RESERVED_SIZE = 512"

record off_bth =
  ob_region :: "u8 list"
  ob_size :: u32
  ob_used :: u32
  ob_bitmap :: u8
  ob_cb :: "nat option list"

definition off_bth_syspool_original_size :: "off_bth \<Rightarrow> u32 res" where
  "off_bth_syspool_original_size p =
     c_assert (OFF_BTH_SYS_MEM_POOL_RESERVED_SIZE < length (ob_region p))
       (Inr (of_nat (length (ob_region p) - OFF_BTH_SYS_MEM_POOL_RESERVED_SIZE)))"

definition off_bth_syspool_init :: "nat \<Rightarrow> nat option \<Rightarrow> off_bth \<Rightarrow> off_bth res" where
  "off_bth_syspool_init user cb p =
     c_assert (user < SYSPOOL_USER_MAX)
       (bindE (if ob_bitmap p = 0
               then bindE (off_bth_syspool_original_size p) (\<lambda>sz. Inr (p\<lparr>ob_size := sz, ob_used := 0\<rparr>))
               else Inr p) (\<lambda>p1.
        Inr (p1\<lparr>ob_bitmap := ob_bitmap p1 OR push_bit user 1, ob_cb := (ob_cb p1)[user := cb]\<rparr>)))"

text \<open>The callbacks run when the last user leaves are returned in the order of their calls.\<close>

definition off_bth_syspool_deinit :: "nat \<Rightarrow> off_bth \<Rightarrow> nat list \<times> off_bth" where
  "off_bth_syspool_deinit user p =
     (let bm = ob_bitmap p AND NOT (push_bit user 1) in
      ((if bm = 0 then List.map_filter id (take SYSPOOL_USER_MAX (ob_cb p)) else []), p\<lparr>ob_bitmap := bm\<rparr>))"

definition off_bth_syspool_init_specific_size :: "u32 \<Rightarrow> off_bth \<Rightarrow> off_bth res" where
  "off_bth_syspool_init_specific_size sz p =
     bindE (off_bth_syspool_original_size p) (\<lambda>orig.
     let sz1 = (if sz < orig then sz else orig) in
     bindE (wr (ob_region p) 0 (replicate (unat sz1) 0)) (\<lambda>m.
     Inr (p\<lparr>ob_size := sz1, ob_used := 0, ob_region := m\<rparr>)))"

definition off_bth_syspool_free_size :: "off_bth \<Rightarrow> u32" where
  "off_bth_syspool_free_size p = ob_size p - ob_used p"

definition off_bth_syspool_get_buff :: "u32 \<Rightarrow> off_bth \<Rightarrow> (u32 \<times> u32 \<times> off_bth) res" where
  "off_bth_syspool_get_buff n p =
     (let free = off_bth_syspool_free_size p; sz = round_up4 n in
      c_assert (sz \<le> free)
        (Inr (ob_used p, free, p\<lparr>ob_used := ob_used p + sz\<rparr>)))"

definition off_bth_syspool_malloc :: "u32 \<Rightarrow> off_bth \<Rightarrow> (u32 option \<times> off_bth) res" where
  "off_bth_syspool_malloc n p =
     bindE (off_bth_syspool_get_buff n p) (\<lambda>(off, free, p1). Inr (Some off, p1))"

definition off_bth_syspool_calloc :: "u32 \<Rightarrow> u32 \<Rightarrow> off_bth \<Rightarrow> (u32 option \<times> off_bth) res" where
  "off_bth_syspool_calloc num sz p =
     bindE (off_bth_syspool_get_buff (num * sz) p) (\<lambda>(off, free, p1).
     bindE (wr (ob_region p1) (unat off) (replicate (unat (num * sz)) 0)) (\<lambda>m.
     Inr (Some off, p1\<lparr>ob_region := m\<rparr>)))"

section \<open>Rounding\<close>

lemma round_up4_words:
  assumes "unat n < 2 ^ 32 - 3"
  shows "unat (round_up4 n) = words_for (unat n)"
proof (cases "unat n mod 4 = 0")
  case True
  then have "n mod 4 = 0" by (simp add: word_unat_eq_iff unat_mod)
  with True show ?thesis by (auto simp: round_up4_def words_for_def)
next
  case False
  let ?r = "n mod 4"
  have r: "unat ?r = unat n mod 4" by (simp add: unat_mod)
  then have lt: "unat ?r < 4" by simp
  then have d: "unat (4 - ?r) = 4 - unat n mod 4" by (simp add: unat_sub word_le_nat_alt r)
  have "unat n + unat (4 - ?r) < 2 ^ LENGTH(32)" using assms False d by simp
  from iffD1 [OF unat_add_lem this] have "unat (n + (4 - ?r)) = unat n + (4 - unat n mod 4)"
    using d by simp
  moreover have "n mod 4 \<noteq> 0" using False r by (metis unat_0)
  moreover have "unat n + (4 - unat n mod 4) = words_for (unat n)"
    using False unfolding words_for_def by presburger
  ultimately show ?thesis by (simp add: round_up4_def)
qed

lemma mask_round:
  fixes n :: u32
  assumes "unat n < 2 ^ 32 - 3"
  shows "unat ((n + 3) AND NOT 3) = words_for (unat n)"
proof -
  have "unat n + unat (3 :: u32) < 2 ^ LENGTH(32)" using assms by simp
  from iffD1 [OF unat_add_lem this] have s: "unat (n + 3) = unat n + 3" by simp
  have "(n + 3) AND NOT 3 = push_bit 2 (drop_bit 2 (n + 3))"
  proof (rule bit_word_eqI)
    fix k assume k: "k < LENGTH(32)"
    have three: "(3 :: u32) = mask 2" by (simp add: mask_eq_exp_minus_1)
    show "bit ((n + 3) AND NOT 3) k \<longleftrightarrow> bit (push_bit 2 (drop_bit 2 (n + 3))) k"
    proof (cases "k < 2")
      case True
      then show ?thesis unfolding three by (simp add: bit_simps)
    next
      case False
      then obtain j where "k = j + 2" by (metis add.commute le_Suc_ex not_less)
      with k show ?thesis unfolding three by (simp add: bit_simps)
    qed
  qed
  moreover have "unat (push_bit 2 y) = take_bit 32 (unat y * 4)" for y :: u32
    by (simp only: unsigned_push_bit_eq) (simp add: push_bit_eq_mult)
  ultimately have "unat ((n + 3) AND NOT 3) = take_bit 32 (unat (drop_bit 2 (n + 3)) * 4)"
    by (simp only:)
  also have "unat (drop_bit 2 (n + 3)) = (unat n + 3) div 4"
    by (simp add: drop_bit_eq_div unat_div s)
  also have "take_bit 32 ((unat n + 3) div 4 * 4) = words_for (unat n)"
    using assms by (simp add: words_for_def take_bit_nat_eq_self)
  finally show ?thesis .
qed

text \<open>Beyond that the rounding wraps to nothing.\<close>

lemma round_up4_wraps: "unat n \<ge> 2 ^ 32 - 3 \<Longrightarrow> round_up4 n = 0"
proof -
  assume a: "unat n \<ge> 2 ^ 32 - 3"
  have "unat n < 2 ^ 32" by (rule less_le_trans [OF unsigned_less]) simp
  with a have "unat n = 4294967293 \<or> unat n = 4294967294 \<or> unat n = 4294967295" by simp linarith
  then have "n = 4294967293 \<or> n = 4294967294 \<or> n = 4294967295"
    by (simp add: word_unat_eq_iff)
  moreover have "round_up4 4294967293 = 0" "round_up4 4294967294 = 0" "round_up4 4294967295 = 0"
    by code_simp+
  ultimately show ?thesis by metis
qed

section \<open>The pools as bump allocators\<close>

definition sp_ok :: "syspool \<Rightarrow> bool" where
  "sp_ok p \<longleftrightarrow> sp_used p \<le> sp_size p \<and> unat (sp_size p) \<le> length (sp_region p) \<and>
     (4 dvd unat (sp_used p) \<or> sp_used p = sp_size p)"

definition cp_ok :: "cp_pool \<Rightarrow> bool" where
  "cp_ok p \<longleftrightarrow> cp_used p \<le> cp_size p \<and> unat (cp_size p) \<le> length (cp_region p) \<and>
     (4 dvd unat (cp_used p) \<or> cp_used p = cp_size p)"

definition ob_ok :: "off_bth \<Rightarrow> bool" where
  "ob_ok p \<longleftrightarrow> ob_used p \<le> ob_size p \<and> unat (ob_size p) \<le> length (ob_region p) \<and>
     (4 dvd unat (ob_used p) \<or> ob_used p = ob_size p)"

text \<open>The step all three share: the rounded request is added when it fits.\<close>

lemma bump_step:
  fixes used size s :: u32
  assumes "used \<le> size" and "4 dvd unat used \<or> used = size" and "unat s = words_for n"
  shows "s \<le> size - used \<longleftrightarrow> words_for n \<le> unat size - unat used"
    and "words_for n \<le> unat size - unat used \<Longrightarrow>
         unat (used + s) = unat used + words_for n \<and> used + s \<le> size \<and>
         (4 dvd unat used + words_for n \<or> used + s = size)"
proof -
  have d: "unat (size - used) = unat size - unat used" using assms(1) by (simp add: unat_sub)
  then show "s \<le> size - used \<longleftrightarrow> words_for n \<le> unat size - unat used"
    using assms(3) by (simp add: word_le_nat_alt)
  assume fit: "words_for n \<le> unat size - unat used"
  have le: "unat used \<le> unat size" using assms(1) by (simp add: word_le_nat_alt)
  have "unat size < 2 ^ 32" by (rule less_le_trans [OF unsigned_less]) simp
  with fit le assms(3) have "unat used + unat s < 2 ^ LENGTH(32)" by simp
  from iffD1 [OF unat_add_lem this] assms(3) have u: "unat (used + s) = unat used + words_for n" by simp
  moreover from u fit le have "used + s \<le> size" by (simp add: word_le_nat_alt)
  moreover have "4 dvd unat used + words_for n \<or> used + s = size"
  proof (cases "4 dvd unat used")
    case True
    then show ?thesis by simp
  next
    case False
    with assms(2) fit assms(3) have "unat s = 0" "used = size" by auto
    then show ?thesis by (simp add: unat_eq_0)
  qed
  ultimately show "unat (used + s) = unat used + words_for n \<and> used + s \<le> size \<and>
      (4 dvd unat used + words_for n \<or> used + s = size)" by simp
qed

definition cp_alloc :: "u32 \<Rightarrow> cp_pool \<Rightarrow> (u32 option \<times> cp_pool) res" where
  "cp_alloc n p = (case cp_pool_get_buff n p of (r, free, p1) \<Rightarrow> Inr (r, p1))"

interpretation sp: bump_pool sp_ok "\<lambda>p. unat (sp_size p)" "\<lambda>p. unat (sp_used p)" syspool_malloc
proof
  fix p n assume p: "sp_ok p" and n: "unat (n :: u32) < 2 ^ 32 - 3"
  note b = bump_step [of "sp_used p" "sp_size p" "round_up4 n" "unat n"]
  from p n have u: "sp_used p \<le> sp_size p" "4 dvd unat (sp_used p) \<or> sp_used p = sp_size p"
    "unat (round_up4 n) = words_for (unat n)" by (simp_all add: sp_ok_def round_up4_words)
  { assume f: "words_for (unat n) \<le> unat (sp_size p) - unat (sp_used p)"
    with b [OF u] p show "\<exists>off p'. syspool_malloc n p = Inr (Some off, p') \<and> sp_ok p' \<and>
        unat off = unat (sp_used p) \<and> unat (sp_used p') = unat (sp_used p) + words_for (unat n) \<and>
        unat (sp_size p') = unat (sp_size p)"
      by (simp add: syspool_malloc_def syspool_get_buff_def syspool_free_size_def Let_def sp_ok_def) }
  { assume "\<not> words_for (unat n) \<le> unat (sp_size p) - unat (sp_used p)"
    with b(1) [OF u] show "syspool_malloc n p = Inl Assert_Fail \<or> syspool_malloc n p = Inr (None, p)"
      by (simp add: syspool_malloc_def syspool_get_buff_def syspool_free_size_def Let_def) }
qed (auto simp: sp_ok_def word_le_nat_alt)

interpretation cp: bump_pool cp_ok "\<lambda>p. unat (cp_size p)" "\<lambda>p. unat (cp_used p)" cp_alloc
proof
  fix p n assume p: "cp_ok p" and n: "unat (n :: u32) < 2 ^ 32 - 3"
  note b = bump_step [of "cp_used p" "cp_size p" "(n + 3) AND NOT 3" "unat n"]
  note b = b [OF _ _ mask_round [OF n]]
  from p have u: "cp_used p \<le> cp_size p" "4 dvd unat (cp_used p) \<or> cp_used p = cp_size p"
    by (simp_all add: cp_ok_def)
  { assume f: "words_for (unat n) \<le> unat (cp_size p) - unat (cp_used p)"
    with b [OF u] p show "\<exists>off p'. cp_alloc n p = Inr (Some off, p') \<and> cp_ok p' \<and>
        unat off = unat (cp_used p) \<and> unat (cp_used p') = unat (cp_used p) + words_for (unat n) \<and>
        unat (cp_size p') = unat (cp_size p)"
      by (simp add: cp_alloc_def cp_pool_get_buff_def cp_pool_free_size_def Let_def cp_ok_def) }
  { assume "\<not> words_for (unat n) \<le> unat (cp_size p) - unat (cp_used p)"
    with b(1) [OF u] show "cp_alloc n p = Inl Assert_Fail \<or> cp_alloc n p = Inr (None, p)"
      by (simp add: cp_alloc_def cp_pool_get_buff_def cp_pool_free_size_def Let_def) }
qed (auto simp: cp_ok_def word_le_nat_alt)

interpretation ob: bump_pool ob_ok "\<lambda>p. unat (ob_size p)" "\<lambda>p. unat (ob_used p)" off_bth_syspool_malloc
proof
  fix p n assume p: "ob_ok p" and n: "unat (n :: u32) < 2 ^ 32 - 3"
  note b = bump_step [of "ob_used p" "ob_size p" "round_up4 n" "unat n"]
  from p n have u: "ob_used p \<le> ob_size p" "4 dvd unat (ob_used p) \<or> ob_used p = ob_size p"
    "unat (round_up4 n) = words_for (unat n)" by (simp_all add: ob_ok_def round_up4_words)
  { assume f: "words_for (unat n) \<le> unat (ob_size p) - unat (ob_used p)"
    with b [OF u] p show "\<exists>off p'. off_bth_syspool_malloc n p = Inr (Some off, p') \<and> ob_ok p' \<and>
        unat off = unat (ob_used p) \<and> unat (ob_used p') = unat (ob_used p) + words_for (unat n) \<and>
        unat (ob_size p') = unat (ob_size p)"
      by (simp add: off_bth_syspool_malloc_def off_bth_syspool_get_buff_def
          off_bth_syspool_free_size_def Let_def ob_ok_def) }
  { assume "\<not> words_for (unat n) \<le> unat (ob_size p) - unat (ob_used p)"
    with b(1) [OF u] show "off_bth_syspool_malloc n p = Inl Assert_Fail \<or>
        off_bth_syspool_malloc n p = Inr (None, p)"
      by (simp add: off_bth_syspool_malloc_def off_bth_syspool_get_buff_def
          off_bth_syspool_free_size_def Let_def) }
qed (auto simp: ob_ok_def word_le_nat_alt)

section \<open>Setting up and clearing\<close>

lemma syspool_init_ok:
  assumes "SYS_MEM_POOL_RESERVED_SIZE < length (sp_region p)" and "length (sp_region p) < 2 ^ 31"
  shows "\<exists>p'. syspool_init_specific_size sz p = Inr p' \<and> sp_ok p' \<and> sp_used p' = 0 \<and>
           unat (sp_size p') = min (unat sz) (length (sp_region p) - SYS_MEM_POOL_RESERVED_SIZE)"
proof -
  define orig where "orig = (of_nat (length (sp_region p) - SYS_MEM_POOL_RESERVED_SIZE) :: u32)"
  have o: "unat orig = length (sp_region p) - SYS_MEM_POOL_RESERVED_SIZE"
    unfolding orig_def using assms(2) by (intro unat_of_nat32) simp
  let ?s = "if sz < orig then sz else orig"
  have s: "unat ?s = min (unat sz) (length (sp_region p) - SYS_MEM_POOL_RESERVED_SIZE)"
    using o by (simp add: word_less_nat_alt min_def)
  have "wr (sp_region p) 0 (replicate (unat ?s) 0) =
      Inr (replicate (unat ?s) 0 @ drop (unat ?s) (sp_region p))"
    using s by (simp add: wr_ok)
  with assms(1) s show ?thesis
    unfolding syspool_init_specific_size_def syspool_original_size_def orig_def [symmetric]
    by (simp add: Let_def sp_ok_def)
qed

lemma sp_reset_ok: "sp_ok p \<Longrightarrow> length m = length (sp_region p) \<Longrightarrow> sp_ok (p\<lparr>sp_region := m\<rparr>)"
  by (simp add: sp_ok_def)

section \<open>The users of the shared pool\<close>

definition ob_users :: "off_bth \<Rightarrow> nat set" where
  "ob_users p = {u. bit (ob_bitmap p) u}"

lemma bitmap_zero: "ob_bitmap p = 0 \<longleftrightarrow> ob_users p = {}"
proof
  assume "ob_users p = {}"
  then show "ob_bitmap p = 0" by (intro bit_word_eqI) (auto simp: ob_users_def)
qed (simp add: ob_users_def)

lemma off_bth_users:
  assumes "u < SYSPOOL_USER_MAX"
  shows "off_bth_syspool_init u cb p = Inr p' \<Longrightarrow> ob_users p' = insert u (ob_users p)"
    and "ob_users (snd (off_bth_syspool_deinit u p)) = ob_users p - {u}"
proof -
  have u: "u < LENGTH(8)" using assms by (simp add: SYSPOOL_USER_MAX_def)
  show "ob_users (snd (off_bth_syspool_deinit u p)) = ob_users p - {u}"
    using u by (auto simp: ob_users_def off_bth_syspool_deinit_def Let_def bit_simps
        dest: bit_imp_le_length)
  assume "off_bth_syspool_init u cb p = Inr p'"
  then have "ob_bitmap p' = ob_bitmap p OR push_bit u 1"
    by (auto simp: off_bth_syspool_init_def split: if_splits)
  then show "ob_users p' = insert u (ob_users p)"
    using u by (auto simp: ob_users_def bit_simps)
qed

section \<open>Properties\<close>

text \<open>A region of 528 bytes, of which 16 are to be had.\<close>

definition sp_example :: syspool where
  "sp_example = \<lparr>sp_region = replicate 528 7, sp_size = 16, sp_used = 4\<rparr>"

lemma sp_example_ok: "sp_ok sp_example"
  by (simp add: sp_ok_def sp_example_def)



text \<open>\<open>syspool_calloc\<close> clears the block it grants and no other byte of the region.\<close>

theorem syspool_calloc_clears:
  assumes "sp_ok p" and "n = unat (num * sz)" and "n < 2 ^ 32 - 3"
    and "words_for n \<le> unat (sp_size p) - unat (sp_used p)"
  shows "\<exists>p'. syspool_calloc num sz p = Inr (Some (sp_used p), p') \<and> sp_ok p' \<and>
           unat (sp_used p') = unat (sp_used p) + words_for n \<and>
           sp_region p' = take (unat (sp_used p)) (sp_region p) @ replicate n 0 @
                          drop (unat (sp_used p) + n) (sp_region p)"
proof -
  let ?n = "num * sz"
  from sp.granted [OF assms(1), of ?n] assms(2-4) obtain off p1 where
    m: "syspool_malloc ?n p = Inr (Some off, p1)" and p1: "sp_ok p1" "unat off = unat (sp_used p)"
      "unat (sp_used p1) = unat (sp_used p) + words_for n" by auto
  from m have g: "syspool_get_buff ?n p = Inr (sp_used p, syspool_free_size p, p1)" "off = sp_used p"
    and r: "sp_region p1 = sp_region p"
    by (auto simp: syspool_malloc_def syspool_get_buff_def Let_def)
  have le: "unat (sp_used p) \<le> unat (sp_size p)" "unat (sp_size p) \<le> length (sp_region p)"
    using assms(1) by (simp_all add: sp_ok_def word_le_nat_alt)
  have "unat (sp_used p) + n \<le> length (sp_region p)"
    using assms(4) words_for_ge [of n] le by simp
  then have w: "wr (sp_region p) (unat (sp_used p)) (replicate n 0) =
      Inr (take (unat (sp_used p)) (sp_region p) @ replicate n 0 @ drop (unat (sp_used p) + n) (sp_region p))"
    by (simp add: wr_ok)
  then have "length (take (unat (sp_used p)) (sp_region p) @ replicate n 0 @
      drop (unat (sp_used p) + n) (sp_region p)) = length (sp_region p1)"
    unfolding r by (rule length_wr)
  with sp_reset_ok [OF p1(1)] g w p1(3) show ?thesis
    by (simp add: syspool_calloc_def r assms(2) [symmetric])
qed

theorem syspool_calloc_clears_witness:
  "\<exists>p'. syspool_calloc 2 3 sp_example = Inr (Some 4, p') \<and>
     take 12 (sp_region p') = [7, 7, 7, 7, 0, 0, 0, 0, 0, 0, 7, 7]"
proof -
  have e: "take 12 (take 4 (replicate 528 (7 :: u8)) @ replicate 6 0 @ drop (4 + 6) (replicate 528 7)) =
      [7, 7, 7, 7, 0, 0, 0, 0, 0, 0, 7, 7]" by code_simp
  have "unat ((2 :: u32) * 3) = 6" "unat (4 :: u32) = 4" "unat (16 :: u32) = 16" by simp_all
  with syspool_calloc_clears [OF sp_example_ok, of 6 2 3] e show ?thesis
    by (auto simp: words_for_def sp_example_def)
qed

text \<open>a request within three bytes of \<open>2 ^ 32\<close> is rounded up to zero and passes the
  check: \<open>syspool_malloc\<close> grants it without taking anything, so the next caller gets the
  same block, and \<open>syspool_calloc\<close> clears memory beyond the region.\<close>

theorem syspool_huge_request:
  assumes "sp_ok p" and "unat n \<ge> 2 ^ 32 - 3" and "length (sp_region p) < 2 ^ 31"
  shows "syspool_malloc n p = Inr (Some (sp_used p), p) \<and> syspool_calloc n 1 p = Inl Mem_Fault"
proof
  have g: "syspool_get_buff n p = Inr (sp_used p, syspool_free_size p, p)"
    using round_up4_wraps [OF assms(2)] by (simp add: syspool_get_buff_def Let_def)
  then show "syspool_malloc n p = Inr (Some (sp_used p), p)" by (simp add: syspool_malloc_def)
  have "wr (sp_region p) (unat (sp_used p)) (replicate (unat n) 0) = Inl Mem_Fault"
    using assms(2,3) by (simp add: wr_def)
  with g show "syspool_calloc n 1 p = Inl Mem_Fault" by (simp add: syspool_calloc_def)
qed

theorem syspool_huge_request_witness:
  "syspool_malloc 4294967295 sp_example = Inr (Some 4, sp_example)"
proof -
  have "length (sp_region sp_example) < 2 ^ 31" by (simp add: sp_example_def)
  from syspool_huge_request [OF sp_example_ok _ this, of 4294967295] show ?thesis
    by (simp add: sp_example_def)
qed

end
