(* ===== verification/KeyPins.thy ===== *)
theory KeyPins
  imports Prelude
begin

text \<open>
  The pin maps of \<open>platform/hal/hal_key.c\<close>: sets of GPIO pins as bits of an array of
  words. Each operation of the code is the set operation it stands for, which the locale
  \<open>pin_set\<close> states; the loops that walk a map bit by bit visit its pins in increasing order.
\<close>

unbundle bit_operations_syntax

section \<open>Pin maps\<close>

type_synonym gpio_map = "u32 list"

definition HAL_GPIO_PIN_NUM :: nat where
  "HAL_GPIO_PIN_NUM = 80"

definition GPIO_MAP_WORD_CNT :: nat where
  "GPIO_MAP_WORD_CNT = (HAL_GPIO_PIN_NUM + 31) div 32"

definition gpio_map_set_pin :: "gpio_map \<Rightarrow> nat \<Rightarrow> gpio_map" where
  "gpio_map_set_pin m pin = m[pin div 32 := m ! (pin div 32) OR push_bit (pin mod 32) 1]"

definition gpio_map_clear_pin :: "gpio_map \<Rightarrow> nat \<Rightarrow> gpio_map" where
  "gpio_map_clear_pin m pin = m[pin div 32 := m ! (pin div 32) AND NOT (push_bit (pin mod 32) 1)]"

definition gpio_map_test_set_pin :: "gpio_map \<Rightarrow> nat \<Rightarrow> bool" where
  "gpio_map_test_set_pin m pin \<longleftrightarrow> m ! (pin div 32) AND push_bit (pin mod 32) 1 \<noteq> 0"

fun gpio_map_set_map :: "gpio_map \<Rightarrow> gpio_map \<Rightarrow> gpio_map" where
  "gpio_map_set_map (a # as) (b # bs) = (a OR b) # gpio_map_set_map as bs"
| "gpio_map_set_map as bs = as"

fun gpio_map_clear_map :: "gpio_map \<Rightarrow> gpio_map \<Rightarrow> gpio_map" where
  "gpio_map_clear_map (a # as) (b # bs) = (a AND NOT b) # gpio_map_clear_map as bs"
| "gpio_map_clear_map as bs = as"

definition gpio_map_clear :: "gpio_map \<Rightarrow> gpio_map" where
  "gpio_map_clear m = map (\<lambda>w. 0) m"

fun gpio_map_test_set_map :: "gpio_map \<Rightarrow> gpio_map \<Rightarrow> bool" where
  "gpio_map_test_set_map (a # as) (b # bs) \<longleftrightarrow> a AND b \<noteq> 0 \<or> gpio_map_test_set_map as bs"
| "gpio_map_test_set_map as bs \<longleftrightarrow> False"

fun gpio_map_test_set :: "gpio_map \<Rightarrow> bool" where
  "gpio_map_test_set (a # as) \<longleftrightarrow> a \<noteq> 0 \<or> gpio_map_test_set as"
| "gpio_map_test_set [] \<longleftrightarrow> False"

text \<open>\<open>while (gpio_map_test_set(map)) { if (gpio_map_test_set_pin(map, gpio)) { clear it; body } gpio++; }\<close>,
  a fault if the walk left the map.\<close>

function scan_pins :: "(nat \<Rightarrow> 's \<Rightarrow> 's res) \<Rightarrow> gpio_map \<Rightarrow> nat \<Rightarrow> 's \<Rightarrow> 's res" where
  "scan_pins body m gpio s =
     (if \<not> gpio_map_test_set m then Inr s
      else if 32 * length m \<le> gpio then Inl Mem_Fault
      else if gpio_map_test_set_pin m gpio
      then bindE (body gpio s) (scan_pins body (gpio_map_clear_pin m gpio) (Suc gpio))
      else scan_pins body m (Suc gpio) s)"
  by pat_completeness auto
termination
  by (relation "measure (\<lambda>(body, m, gpio, s). 32 * length m - gpio)")
    (auto simp: gpio_map_clear_pin_def)

declare scan_pins.simps [simp del]

section \<open>Pin sets\<close>

definition pins :: "gpio_map \<Rightarrow> nat set" where
  "pins m = {p. p < 32 * length m \<and> bit (m ! (p div 32)) (p mod 32)}"

lemma finite_pins [simp]: "finite (pins m)"
  by (rule finite_subset [of _ "{..<32 * length m}"]) (auto simp: pins_def)

lemma pins_less: "p \<in> pins m \<Longrightarrow> p < 32 * length m"
  by (simp add: pins_def)

lemma word_index: "p < 32 * length m \<Longrightarrow> p div 32 < length (m :: gpio_map)"
  by (simp add: less_mult_imp_div_less mult.commute)

lemma length_gpio_map [simp]:
  "length (gpio_map_set_pin m p) = length m" "length (gpio_map_clear_pin m p) = length m"
  "length (gpio_map_clear m) = length m"
  by (simp_all add: gpio_map_set_pin_def gpio_map_clear_pin_def gpio_map_clear_def)

lemma length_gpio_map2 [simp]:
  "length (gpio_map_set_map a b) = length a" "length (gpio_map_clear_map a b) = length a"
  by (induction a b rule: gpio_map_set_map.induct; simp)
    (induction a b rule: gpio_map_clear_map.induct; simp)

lemma pin_eq: "p div 32 = q div 32 \<Longrightarrow> p mod 32 = q mod 32 \<Longrightarrow> p = (q :: nat)"
  by (metis div_mult_mod_eq)

lemma pins_set_pin: "p < 32 * length m \<Longrightarrow> pins (gpio_map_set_pin m p) = insert p (pins m)"
  using word_index [of p m]
  by (auto simp: pins_def gpio_map_set_pin_def nth_list_update bit_simps dest: pin_eq split: if_splits)

lemma pins_clear_pin: "p < 32 * length m \<Longrightarrow> pins (gpio_map_clear_pin m p) = pins m - {p}"
  using word_index [of p m]
  by (auto simp: pins_def gpio_map_clear_pin_def nth_list_update bit_simps dest: pin_eq split: if_splits)

lemma test_set_pin: "p < 32 * length m \<Longrightarrow> gpio_map_test_set_pin m p \<longleftrightarrow> p \<in> pins m"
  by (simp add: pins_def gpio_map_test_set_pin_def and_exp_eq_0_iff_not_bit)

lemma pins_clear: "pins (gpio_map_clear m) = {}"
  by (auto simp: pins_def gpio_map_clear_def word_index)

lemma nth_map2:
  "length b = length a \<Longrightarrow> i < length a \<Longrightarrow> gpio_map_set_map a b ! i = a ! i OR b ! i"
  "length b = length a \<Longrightarrow> i < length a \<Longrightarrow> gpio_map_clear_map a b ! i = a ! i AND NOT (b ! i)"
  by (induction a b arbitrary: i rule: gpio_map_set_map.induct; auto simp: nth_Cons')
    (induction a b arbitrary: i rule: gpio_map_clear_map.induct; auto simp: nth_Cons')

lemma pins_set_map: "length b = length a \<Longrightarrow> pins (gpio_map_set_map a b) = pins a \<union> pins b"
  by (auto simp: pins_def nth_map2 word_index bit_simps)

lemma pins_clear_map: "length b = length a \<Longrightarrow> pins (gpio_map_clear_map a b) = pins a - pins b"
  by (auto simp: pins_def nth_map2 word_index bit_simps)

lemma test_set_map_nth:
  "length b = length a \<Longrightarrow> gpio_map_test_set_map a b \<longleftrightarrow> (\<exists>i < length a. a ! i AND b ! i \<noteq> 0)"
  by (induction a b rule: gpio_map_test_set_map.induct) (auto simp: All_less_Suc2 Ex_less_Suc2)

lemma test_set_nth: "gpio_map_test_set a \<longleftrightarrow> (\<exists>i < length a. a ! i \<noteq> 0)"
  by (induction a rule: gpio_map_test_set.induct) (auto simp: Ex_less_Suc2)

lemma some_pin:
  assumes "i < length m" and "bit (m ! i) k"
  shows "32 * i + k \<in> pins (m :: gpio_map)"
proof -
  from assms(2) have "k < 32" by (auto dest: bit_imp_le_length)
  with assms show ?thesis by (simp add: pins_def)
qed

lemma test_set: "gpio_map_test_set m \<longleftrightarrow> pins m \<noteq> {}"
proof
  assume "gpio_map_test_set m"
  then obtain i where i: "i < length m" "m ! i \<noteq> 0" by (auto simp: test_set_nth)
  then obtain k where "bit (m ! i) k" by (auto simp: bit_eq_iff)
  with i(1) show "pins m \<noteq> {}" by (auto dest: some_pin)
next
  assume "pins m \<noteq> {}"
  then obtain p where p: "p < 32 * length m" "bit (m ! (p div 32)) (p mod 32)" by (auto simp: pins_def)
  then have "m ! (p div 32) \<noteq> 0" by auto
  with word_index [OF p(1)] show "gpio_map_test_set m" by (auto simp: test_set_nth)
qed

lemma test_set_map: "length b = length a \<Longrightarrow> gpio_map_test_set_map a b \<longleftrightarrow> pins a \<inter> pins b \<noteq> {}"
proof
  assume l: "length b = length a" and "gpio_map_test_set_map a b"
  then obtain i where i: "i < length a" "a ! i AND b ! i \<noteq> 0" by (auto simp: test_set_map_nth)
  then obtain k where "bit (a ! i) k" "bit (b ! i) k" by (auto simp: bit_eq_iff bit_simps)
  with i(1) l some_pin [of i a k] some_pin [of i b k] show "pins a \<inter> pins b \<noteq> {}" by auto
next
  assume l: "length b = length a" and "pins a \<inter> pins b \<noteq> {}"
  then obtain p where p: "p < 32 * length a" "bit (a ! (p div 32)) (p mod 32)"
    "bit (b ! (p div 32)) (p mod 32)" by (auto simp: pins_def)
  then have "bit (a ! (p div 32) AND b ! (p div 32)) (p mod 32)" by (simp add: bit_simps)
  then have "a ! (p div 32) AND b ! (p div 32) \<noteq> 0" by auto
  with word_index [OF p(1)] l show "gpio_map_test_set_map a b" by (auto simp: test_set_map_nth)
qed

section \<open>Interface\<close>

text \<open>What the key driver relies on: a representation of pin sets.\<close>

locale pin_set =
  fixes members :: "'m \<Rightarrow> nat set"
    and fits :: "'m \<Rightarrow> bool"
    and in_range :: "nat \<Rightarrow> bool"
    and set_pin :: "'m \<Rightarrow> nat \<Rightarrow> 'm"
    and set_map :: "'m \<Rightarrow> 'm \<Rightarrow> 'm"
    and clear_map :: "'m \<Rightarrow> 'm \<Rightarrow> 'm"
    and test_map :: "'m \<Rightarrow> 'm \<Rightarrow> bool"
  assumes members_range: "fits m \<Longrightarrow> p \<in> members m \<Longrightarrow> in_range p"
    and set_pin_law: "fits m \<Longrightarrow> in_range p \<Longrightarrow> fits (set_pin m p) \<and> members (set_pin m p) = insert p (members m)"
    and set_map_law: "fits a \<Longrightarrow> fits b \<Longrightarrow> fits (set_map a b) \<and> members (set_map a b) = members a \<union> members b"
    and clear_map_law: "fits a \<Longrightarrow> fits b \<Longrightarrow> fits (clear_map a b) \<and> members (clear_map a b) = members a - members b"
    and test_map_law: "fits a \<Longrightarrow> fits b \<Longrightarrow> test_map a b \<longleftrightarrow> members a \<inter> members b \<noteq> {}"
begin

text \<open>Three pairwise disjoint maps: no pin is in two phases at once.\<close>

definition disjoint3 :: "'m \<Rightarrow> 'm \<Rightarrow> 'm \<Rightarrow> bool" where
  "disjoint3 a b c \<longleftrightarrow> fits a \<and> fits b \<and> fits c \<and>
     members a \<inter> members b = {} \<and> members a \<inter> members c = {} \<and> members b \<inter> members c = {}"

lemma disjoint3_tests:
  "disjoint3 a b c \<Longrightarrow> \<not> test_map a b \<and> \<not> test_map a c \<and> \<not> test_map c b"
  by (auto simp: disjoint3_def test_map_law)

lemma disjoint3_set_a:
  "disjoint3 a b c \<Longrightarrow> in_range p \<Longrightarrow> p \<notin> members b \<Longrightarrow> p \<notin> members c \<Longrightarrow> disjoint3 (set_pin a p) b c"
  by (auto simp: disjoint3_def set_pin_law)

lemma disjoint3_set_b:
  "disjoint3 a b c \<Longrightarrow> in_range p \<Longrightarrow> p \<notin> members a \<Longrightarrow> p \<notin> members c \<Longrightarrow> disjoint3 a (set_pin b p) c"
  by (auto simp: disjoint3_def set_pin_law)

text \<open>Moving disjoint sets of pins from the first map to the second.\<close>

lemma disjoint3_move:
  assumes "fits a" and "fits b" and "fits c" and "fits d" and "fits e"
    and "members b \<inter> (members a \<union> members c) = {}" and "members e \<subseteq> members a"
    and "members e \<inter> members c = {}" and "members a \<inter> members c \<subseteq> members d"
  shows "disjoint3 (clear_map (clear_map a d) e) (set_map b e) c"
  using assms by (auto simp: disjoint3_def clear_map_law set_map_law)

end

definition gpio_map_fits :: "gpio_map \<Rightarrow> bool" where
  "gpio_map_fits m \<longleftrightarrow> length m = GPIO_MAP_WORD_CNT"

definition gpio_in_map :: "nat \<Rightarrow> bool" where
  "gpio_in_map p \<longleftrightarrow> p < 32 * GPIO_MAP_WORD_CNT"

interpretation gpio: pin_set pins gpio_map_fits gpio_in_map gpio_map_set_pin gpio_map_set_map
  gpio_map_clear_map gpio_map_test_set_map
  by unfold_locales
    (auto simp: gpio_map_fits_def gpio_in_map_def pins_set_pin pins_set_map pins_clear_map test_set_map
      dest: pins_less)

section \<open>Walking a map\<close>

text \<open>The walk visits the pins from \<open>gpio\<close> on, in increasing order, and stays in the map.\<close>

lemma scan_pins_fold:
  assumes "pins m \<subseteq> {gpio..}"
  shows "scan_pins body m gpio s = foldM body (sorted_list_of_set (pins m)) s"
  using assms
proof (induction body m gpio s rule: scan_pins.induct)
  case (1 body m gpio s)
  show ?case
  proof (cases "pins m = {}")
    case True
    then show ?thesis by (simp add: scan_pins.simps test_set)
  next
    case False
    then obtain q where "q \<in> pins m" by blast
    with 1(3) pins_less [of q m] have lt: "gpio < 32 * length m" by auto
    note ts = test_set_pin [OF lt]
    show ?thesis
    proof (cases "gpio \<in> pins m")
      case True
      have eq: "sorted_list_of_set (pins m) = gpio # sorted_list_of_set (pins m - {gpio})"
      proof -
        have Min: "Min (pins m) = gpio" using True 1(3) by (intro Min_eqI) auto
        have ne: "pins m \<noteq> {}" using True by blast
        show ?thesis using sorted_list_of_set_nonempty [OF finite_pins ne] unfolding Min .
      qed
      have sub: "pins (gpio_map_clear_pin m gpio) \<subseteq> {Suc gpio..}"
      proof
        fix x assume "x \<in> pins (gpio_map_clear_pin m gpio)"
        then have x: "x \<in> pins m" "x \<noteq> gpio" by (simp_all add: pins_clear_pin lt)
        with 1(3) have "gpio \<le> x" by blast
        with x show "x \<in> {Suc gpio..}" by simp
      qed
      have g: "\<not> \<not> gpio_map_test_set m" "\<not> 32 * length m \<le> gpio" "gpio_map_test_set_pin m gpio"
        using False True lt ts by (simp_all add: test_set)
      have IH: "scan_pins body (gpio_map_clear_pin m gpio) (Suc gpio) t =
          foldM body (sorted_list_of_set (pins m - {gpio})) t" for t
        using 1(1) [OF g sub] unfolding pins_clear_pin [OF lt] .
      from g show ?thesis
        by (subst scan_pins.simps) (cases "body gpio s"; simp add: eq IH)
    next
      case notin: False
      have "pins m \<subseteq> {Suc gpio..}"
      proof
        fix x assume x: "x \<in> pins m"
        with notin have "x \<noteq> gpio" by blast
        moreover from x 1(3) have "gpio \<le> x" by blast
        ultimately show "x \<in> {Suc gpio..}" by simp
      qed
      with 1(2) False notin lt ts show ?thesis
        by (subst scan_pins.simps) (simp add: test_set)
    qed
  qed
qed

lemma scan_pins_0: "scan_pins body m 0 s = foldM body (sorted_list_of_set (pins m)) s"
  by (rule scan_pins_fold) simp

end
