(* ===== verification/Key.thy ===== *)
theory Key
  imports KeyPins
begin

text \<open>
  The key driver of \<open>platform/hal/hal_key.c\<close>, in the build with a power key and GPIO keys
  and without ADC keys: debouncing, and the recognition of clicks and long presses from the
  set of keys that are down. What the hardware answers (the power key, the pin levels, the
  time) is an argument of the handlers; the interrupt enables are part of the state, and
  the events handed to the callback are recorded in order. The conversion of milliseconds
  to ticks is calibrated at run time and is a parameter, with the table of GPIO keys.
\<close>

section \<open>State\<close>

datatype key_event =
    HAL_KEY_EVENT_NONE | HAL_KEY_EVENT_DOWN | HAL_KEY_EVENT_FIRST_DOWN | HAL_KEY_EVENT_CONTINUED_DOWN
  | HAL_KEY_EVENT_UP | HAL_KEY_EVENT_UP_AFTER_LONGPRESS | HAL_KEY_EVENT_LONGPRESS
  | HAL_KEY_EVENT_LONGLONGPRESS | HAL_KEY_EVENT_CLICK | HAL_KEY_EVENT_DOUBLECLICK
  | HAL_KEY_EVENT_TRIPLECLICK | HAL_KEY_EVENT_ULTRACLICK | HAL_KEY_EVENT_RAMPAGECLICK
  | HAL_KEY_EVENT_REPEAT | HAL_KEY_EVENT_GROUPKEY_DOWN | HAL_KEY_EVENT_GROUPKEY_REPEAT
  | HAL_KEY_EVENT_INITDOWN | HAL_KEY_EVENT_INITUP | HAL_KEY_EVENT_INITLONGPRESS
  | HAL_KEY_EVENT_INITLONGLONGPRESS | HAL_KEY_EVENT_INITFINISHED | HAL_KEY_EVENT_FORWARD
  | HAL_KEY_EVENT_BACKWARD

text \<open>\<open>HAL_KEY_EVENT_CLICK + cnt\<close>: the constants from \<open>CLICK\<close> on, in the order of the enumeration.\<close>

definition click_event :: "u8 \<Rightarrow> key_event" where
  "click_event cnt =
     [HAL_KEY_EVENT_CLICK, HAL_KEY_EVENT_DOUBLECLICK, HAL_KEY_EVENT_TRIPLECLICK,
      HAL_KEY_EVENT_ULTRACLICK, HAL_KEY_EVENT_RAMPAGECLICK, HAL_KEY_EVENT_REPEAT,
      HAL_KEY_EVENT_GROUPKEY_DOWN, HAL_KEY_EVENT_GROUPKEY_REPEAT, HAL_KEY_EVENT_INITDOWN,
      HAL_KEY_EVENT_INITUP, HAL_KEY_EVENT_INITLONGPRESS, HAL_KEY_EVENT_INITLONGLONGPRESS,
      HAL_KEY_EVENT_INITFINISHED, HAL_KEY_EVENT_FORWARD, HAL_KEY_EVENT_BACKWARD] ! unat cnt"

definition MAX_KEY_CLICK_COUNT :: u8 where
  "MAX_KEY_CLICK_COUNT = 4"

definition HAL_KEY_CODE_PWR :: u32 where
  "HAL_KEY_CODE_PWR = 1"

record gpio_cfg =
  gc_code :: u32
  gc_pin :: nat
  gc_down :: bool

record key_cfg =
  kc_ticks :: "u32 \<Rightarrow> u32"
  kc_gpio :: "gpio_cfg list"

definition KEY_CHECKER_INTERVAL :: "key_cfg \<Rightarrow> u32" where
  "KEY_CHECKER_INTERVAL c = kc_ticks c 40"

definition KEY_DEBOUNCE_INTERVAL :: "key_cfg \<Rightarrow> u32" where
  "KEY_DEBOUNCE_INTERVAL c = KEY_CHECKER_INTERVAL c * 2"

definition KEY_DITHER_INTERVAL :: "key_cfg \<Rightarrow> u32" where
  "KEY_DITHER_INTERVAL c = KEY_CHECKER_INTERVAL c * 1"

record pwrkey =
  pk_debounce :: bool
  pk_dither :: bool
  pk_pressed :: bool
  pk_time :: u32

record gpiokey =
  gk_debounce :: gpio_map
  gk_dither :: gpio_map
  gk_down :: gpio_map
  gk_time_debounce :: u32
  gk_time_dither :: u32

record key_status =
  ks_down :: u32
  ks_ready :: u32
  ks_click :: u32
  ks_event :: key_event
  ks_time_updown :: u32
  ks_time_click :: u32
  ks_repeat :: u8
  ks_cnt :: u8

datatype key_handler = Debounce_Handler | Boot_Handler

record key =
  k_callback :: bool
  k_timer :: "key_handler option"
  k_timer_active :: bool
  k_status :: key_status
  k_started :: bool
  k_first :: u32
  k_pwr :: pwrkey
  k_gpio :: gpiokey
  k_pwr_irq :: bool
  k_gpio_irq :: "nat \<Rightarrow> bool option"
  k_sent :: "(u32 \<times> key_event) list"

definition key_status_reset :: key_status where
  "key_status_reset =
     \<lparr>ks_down = 0, ks_ready = 0, ks_click = 0, ks_event = HAL_KEY_EVENT_NONE, ks_time_updown = 0,
      ks_time_click = 0, ks_repeat = 0, ks_cnt = 0\<rparr>"

definition send_key_event :: "u32 \<Rightarrow> key_event \<Rightarrow> key \<Rightarrow> key" where
  "send_key_event code ev k = (if k_callback k then k\<lparr>k_sent := k_sent k @ [(code, ev)]\<rparr> else k)"

definition hal_key_debounce_timer_restart :: "key \<Rightarrow> key" where
  "hal_key_debounce_timer_restart k = (if \<not> k_timer_active k then k\<lparr>k_timer_active := True\<rparr> else k)"

section \<open>The power key\<close>

definition hal_pwrkey_reset :: "key \<Rightarrow> key" where
  "hal_pwrkey_reset k =
     k\<lparr>k_pwr := \<lparr>pk_debounce = False, pk_dither = False, pk_pressed = False, pk_time = 0\<rparr>\<rparr>"

definition hal_pwrkey_enable_int :: "key \<Rightarrow> key" where
  "hal_pwrkey_enable_int k = k\<lparr>k_pwr_irq := True\<rparr>"

definition hal_pwrkey_disable_int :: "key \<Rightarrow> key" where
  "hal_pwrkey_disable_int k = k\<lparr>k_pwr_irq := False\<rparr>"

definition hal_pwrkey_handle_irq_state :: "bool \<Rightarrow> u32 \<Rightarrow> bool \<Rightarrow> key \<Rightarrow> key" where
  "hal_pwrkey_handle_irq_state falling now pressed k =
     (let k1 = hal_pwrkey_disable_int k; p = k_pwr k1;
          p1 = (if falling then
                  (if pressed then p\<lparr>pk_pressed := True, pk_debounce := True, pk_time := now\<rparr>
                   else p\<lparr>pk_pressed := False, pk_dither := True, pk_time := now\<rparr>)
                else p) in
      hal_key_debounce_timer_restart (k1\<lparr>k_pwr := p1\<rparr>))"

text \<open>The power key's part of the debounce handler: the codes it adds to \<open>code_down\<close>.\<close>

definition debounce_pwrkey :: "key_cfg \<Rightarrow> u32 \<Rightarrow> bool \<Rightarrow> key \<Rightarrow> u32 \<times> key" where
  "debounce_pwrkey c now pressed k =
     (let p = k_pwr k in
      if pk_debounce p then
        if pressed then
          if now - pk_time p \<ge> KEY_DEBOUNCE_INTERVAL c
          then (HAL_KEY_CODE_PWR, k\<lparr>k_pwr := p\<lparr>pk_pressed := True, pk_dither := False, pk_debounce := False\<rparr>\<rparr>)
          else (0, k\<lparr>k_pwr := p\<lparr>pk_pressed := True, pk_dither := False\<rparr>\<rparr>)
        else (0, k\<lparr>k_pwr := p\<lparr>pk_pressed := False, pk_debounce := False, pk_dither := True, pk_time := now\<rparr>\<rparr>)
      else if pk_dither p then
        if now - pk_time p \<ge> KEY_DITHER_INTERVAL c
        then (0, hal_pwrkey_enable_int (k\<lparr>k_pwr := p\<lparr>pk_dither := False, pk_pressed := False\<rparr>\<rparr>))
        else (0, k)
      else if pk_pressed p then
        if pressed then (HAL_KEY_CODE_PWR, k)
        else (0, hal_pwrkey_enable_int (k\<lparr>k_pwr := p\<lparr>pk_pressed := False\<rparr>\<rparr>))
      else (0, k))"

definition pwr_busy :: "key \<Rightarrow> bool" where
  "pwr_busy k \<longleftrightarrow> pk_debounce (k_pwr k) \<or> pk_dither (k_pwr k) \<or> pk_pressed (k_pwr k)"

section \<open>GPIO keys\<close>

definition hal_gpiokey_reset :: "key \<Rightarrow> key" where
  "hal_gpiokey_reset k =
     k\<lparr>k_gpio := \<lparr>gk_debounce = replicate GPIO_MAP_WORD_CNT 0, gk_dither = replicate GPIO_MAP_WORD_CNT 0,
                  gk_down = replicate GPIO_MAP_WORD_CNT 0, gk_time_debounce = 0, gk_time_dither = 0\<rparr>\<rparr>"

fun find_index_from :: "gpio_cfg list \<Rightarrow> nat \<Rightarrow> nat \<Rightarrow> nat res" where
  "find_index_from [] pin i = Inl Assert_Fail"
| "find_index_from (g # gs) pin i = (if gc_pin g = pin then Inr i else find_index_from gs pin (Suc i))"

definition hal_gpiokey_find_index :: "key_cfg \<Rightarrow> nat \<Rightarrow> nat res" where
  "hal_gpiokey_find_index c pin = find_index_from (kc_gpio c) pin 0"

definition hal_gpiokey_pressed :: "key_cfg \<Rightarrow> (nat \<Rightarrow> bool) \<Rightarrow> nat \<Rightarrow> bool res" where
  "hal_gpiokey_pressed c lvl pin =
     bindE (hal_gpiokey_find_index c pin) (\<lambda>i. Inr (lvl pin = gc_down (kc_gpio c ! i)))"

text \<open>An interrupt is set up with its polarity: rising for a key that is down at a high level.\<close>

definition hal_gpiokey_enable_irq :: "nat \<Rightarrow> bool \<Rightarrow> key \<Rightarrow> key" where
  "hal_gpiokey_enable_irq pin pol k = k\<lparr>k_gpio_irq := (k_gpio_irq k)(pin := Some pol)\<rparr>"

definition hal_gpiokey_disable_irq :: "nat \<Rightarrow> key \<Rightarrow> key" where
  "hal_gpiokey_disable_irq pin k = k\<lparr>k_gpio_irq := (k_gpio_irq k)(pin := None)\<rparr>"

definition hal_gpiokey_irqhandler :: "key_cfg \<Rightarrow> (nat \<Rightarrow> bool) \<Rightarrow> u32 \<Rightarrow> nat \<Rightarrow> key \<Rightarrow> key res" where
  "hal_gpiokey_irqhandler c lvl now pin k =
     (let k1 = hal_gpiokey_disable_irq pin k; g = k_gpio k1 in
      bindE (hal_gpiokey_pressed c lvl pin) (\<lambda>pressed.
      let g1 = (if pressed
                then g\<lparr>gk_debounce := gpio_map_set_pin (gk_debounce g) pin, gk_time_debounce := now\<rparr>
                else g\<lparr>gk_dither := gpio_map_set_pin (gk_dither g) pin, gk_time_dither := now\<rparr>) in
      Inr (hal_key_debounce_timer_restart (k1\<lparr>k_gpio := g1\<rparr>))))"

fun hal_gpiokey_enable_allint :: "gpio_cfg list \<Rightarrow> key \<Rightarrow> key" where
  "hal_gpiokey_enable_allint [] k = k"
| "hal_gpiokey_enable_allint (g # gs) k =
     hal_gpiokey_enable_allint gs
       (if gc_code g = 0 then k else hal_gpiokey_enable_irq (gc_pin g) (gc_down g) k)"

fun hal_gpiokey_disable_allint :: "gpio_cfg list \<Rightarrow> key \<Rightarrow> key" where
  "hal_gpiokey_disable_allint [] k = k"
| "hal_gpiokey_disable_allint (g # gs) k =
     hal_gpiokey_disable_allint gs (if gc_code g = 0 then k else hal_gpiokey_disable_irq (gc_pin g) k)"

text \<open>The GPIO part of the debounce handler: its assertion, then the pins that dither, that
  are down and that are debounced, each walked in turn.\<close>

definition gpio_dither_pin :: "key_cfg \<Rightarrow> nat \<Rightarrow> key \<Rightarrow> key res" where
  "gpio_dither_pin c pin k =
     bindE (hal_gpiokey_find_index c pin) (\<lambda>i.
     Inr (hal_gpiokey_enable_irq pin (gc_down (kc_gpio c ! i)) k))"

definition gpio_dither_phase :: "key_cfg \<Rightarrow> u32 \<Rightarrow> key \<Rightarrow> key res" where
  "gpio_dither_phase c now k =
     (let g = k_gpio k in
      if gpio_map_test_set (gk_dither g) \<and> now - gk_time_dither g \<ge> KEY_DITHER_INTERVAL c then
        let pin_map = gk_dither g in
        scan_pins (gpio_dither_pin c) pin_map 0
          (k\<lparr>k_gpio := g\<lparr>gk_dither := gpio_map_clear_map (gk_dither g) pin_map\<rparr>\<rparr>)
      else Inr k)"

definition gpio_down_pin :: "key_cfg \<Rightarrow> (nat \<Rightarrow> bool) \<Rightarrow> nat \<Rightarrow> u32 \<times> key \<Rightarrow> (u32 \<times> key) res" where
  "gpio_down_pin c lvl pin ck =
     (case ck of (code, k) \<Rightarrow>
        bindE (hal_gpiokey_find_index c pin) (\<lambda>i.
        let cfg = kc_gpio c ! i; g = k_gpio k in
        if lvl pin = gc_down cfg then Inr (code OR gc_code cfg, k)
        else Inr (code, hal_gpiokey_enable_irq pin (gc_down cfg)
                          (k\<lparr>k_gpio := g\<lparr>gk_down := gpio_map_clear_pin (gk_down g) pin\<rparr>\<rparr>))))"

definition gpio_down_phase :: "key_cfg \<Rightarrow> (nat \<Rightarrow> bool) \<Rightarrow> u32 \<times> key \<Rightarrow> (u32 \<times> key) res" where
  "gpio_down_phase c lvl ck =
     (let m = gk_down (k_gpio (snd ck)) in
      if gpio_map_test_set m then scan_pins (gpio_down_pin c lvl) m 0 ck else Inr ck)"

text \<open>The debounced pins: the walk collects those that went down and those that dither.\<close>

definition gpio_debounce_pin ::
  "key_cfg \<Rightarrow> (nat \<Rightarrow> bool) \<Rightarrow> u32 \<Rightarrow> nat \<Rightarrow> u32 \<times> gpio_map \<times> gpio_map \<times> key \<Rightarrow>
   (u32 \<times> gpio_map \<times> gpio_map \<times> key) res" where
  "gpio_debounce_pin c lvl now pin st =
     (case st of (code, down_added, dither_added, k) \<Rightarrow>
        bindE (hal_gpiokey_find_index c pin) (\<lambda>i.
        let cfg = kc_gpio c ! i; g = k_gpio k in
        if lvl pin = gc_down cfg then
          if now - gk_time_debounce g \<ge> KEY_DEBOUNCE_INTERVAL c
          then Inr (code OR gc_code cfg, gpio_map_set_pin down_added pin, dither_added,
                    k\<lparr>k_gpio := g\<lparr>gk_down := gpio_map_set_pin (gk_down g) pin\<rparr>\<rparr>)
          else Inr (code, down_added, dither_added, k)
        else Inr (code, down_added, gpio_map_set_pin dither_added pin, k)))"

definition gpio_debounce_phase ::
  "key_cfg \<Rightarrow> (nat \<Rightarrow> bool) \<Rightarrow> u32 \<Rightarrow> u32 \<times> key \<Rightarrow> (u32 \<times> key) res" where
  "gpio_debounce_phase c lvl now ck =
     (case ck of (code, k) \<Rightarrow>
        let m = gk_debounce (k_gpio k) in
        if gpio_map_test_set m then
          bindE (scan_pins (gpio_debounce_pin c lvl now) m 0 (code, gpio_map_clear m, gpio_map_clear m, k))
            (\<lambda>(code1, down_added, dither_added, k1).
          let g = k_gpio k1 in
          Inr (code1, k1\<lparr>k_gpio := g\<lparr>
            gk_debounce := gpio_map_clear_map (gpio_map_clear_map (gk_debounce g) down_added) dither_added,
            gk_dither := gpio_map_set_map (gk_dither g) dither_added\<rparr>\<rparr>))
        else Inr ck)"

definition debounce_gpiokey :: "key_cfg \<Rightarrow> (nat \<Rightarrow> bool) \<Rightarrow> u32 \<Rightarrow> u32 \<times> key \<Rightarrow> (u32 \<times> key) res" where
  "debounce_gpiokey c lvl now ck =
     (case ck of (code, k) \<Rightarrow>
        let g = k_gpio k in
        c_assert (\<not> (gpio_map_test_set_map (gk_debounce g) (gk_dither g) \<or>
                     gpio_map_test_set_map (gk_debounce g) (gk_down g) \<or>
                     gpio_map_test_set_map (gk_down g) (gk_dither g)))
          (bindE (gpio_dither_phase c now k) (\<lambda>k1.
           bindE (gpio_down_phase c lvl (code, k1)) (gpio_debounce_phase c lvl now))))"

definition gpio_busy :: "key \<Rightarrow> bool" where
  "gpio_busy k \<longleftrightarrow> gpio_map_test_set (gk_dither (k_gpio k)) \<or> gpio_map_test_set (gk_down (k_gpio k)) \<or>
     gpio_map_test_set (gk_debounce (k_gpio k))"

section \<open>Recognising events\<close>

definition long_pressed :: "key_event \<Rightarrow> bool" where
  "long_pressed e \<longleftrightarrow> e = HAL_KEY_EVENT_LONGPRESS \<or> e = HAL_KEY_EVENT_LONGLONGPRESS"

text \<open>\<open>while (map) { if (map & (1 << index)) { map &= ~(1 << index); body } index++; }\<close>\<close>

definition scan_keys :: "(nat \<Rightarrow> key \<Rightarrow> key res) \<Rightarrow> u32 \<Rightarrow> key \<Rightarrow> key res" where
  "scan_keys body m k = scan_pins body [m] 0 k"

definition key_bit :: "nat \<Rightarrow> u32" where
  "key_bit index = push_bit index 1"

text \<open>Keys newly up.\<close>

definition key_up :: "u32 \<Rightarrow> nat \<Rightarrow> key \<Rightarrow> key res" where
  "key_up now index k =
     (let k1 = send_key_event (key_bit index) HAL_KEY_EVENT_UP k;
          k2 = (if long_pressed (ks_event (k_status k1))
                then send_key_event (key_bit index) HAL_KEY_EVENT_UP_AFTER_LONGPRESS k1 else k1) in
      Inr (k2\<lparr>k_status := (k_status k2)\<lparr>ks_time_updown := now\<rparr>\<rparr>))"

definition keys_up :: "u32 \<Rightarrow> u32 \<Rightarrow> key \<Rightarrow> key res" where
  "keys_up now code_down k =
     (let up_new = NOT code_down AND ks_down (k_status k) in
      bindE (scan_keys (key_up now) up_new k) (\<lambda>k1.
      let s = k_status k1 in
      Inr (if up_new \<noteq> 0 then
             if long_pressed (ks_event s) then
               if code_down AND ks_ready s = 0
               then k1\<lparr>k_status := s\<lparr>ks_event := HAL_KEY_EVENT_NONE\<rparr>\<rparr> else k1
             else if ks_event s = HAL_KEY_EVENT_DOWN
             then k1\<lparr>k_status := s\<lparr>ks_event := HAL_KEY_EVENT_UP\<rparr>\<rparr> else k1
           else k1)))"

text \<open>Clicks: a click is reported when the next one is late, of other keys, or one too many.\<close>

definition key_click_count :: "u32 \<Rightarrow> u32 \<Rightarrow> key \<Rightarrow> key" where
  "key_click_count now up_new k =
     (let s = k_status k in
      if ks_click s = 0 \<or> ks_click s \<noteq> ks_ready s then
        let k1 = (if ks_click s \<noteq> 0 then send_key_event (ks_click s) (click_event (ks_cnt s)) k else k) in
        k1\<lparr>k_status := (k_status k1)\<lparr>ks_click := ks_ready s, ks_cnt := 0, ks_time_click := now\<rparr>\<rparr>
      else if up_new \<noteq> 0 \<and> up_new OR ks_down s = ks_click s
      then k\<lparr>k_status := s\<lparr>ks_cnt := ks_cnt s + 1, ks_time_click := now\<rparr>\<rparr>
      else k)"

definition keys_click :: "key_cfg \<Rightarrow> u32 \<Rightarrow> u32 \<Rightarrow> key \<Rightarrow> key" where
  "keys_click c now up_new k =
     (if ks_event (k_status k) = HAL_KEY_EVENT_UP then
        let k1 = key_click_count now up_new k; s = k_status k1 in
        if now - ks_time_click s \<ge> kc_ticks c 400 \<or> ks_cnt s \<ge> MAX_KEY_CLICK_COUNT then
          let k2 = send_key_event (ks_click s) (click_event (ks_cnt s)) k1 in
          k2\<lparr>k_status := (k_status k2)\<lparr>ks_click := 0, ks_cnt := 0, ks_event := HAL_KEY_EVENT_NONE\<rparr>\<rparr>
        else k1
      else k)"

text \<open>Keys newly down.\<close>

definition key_down :: "u32 \<Rightarrow> u32 \<Rightarrow> nat \<Rightarrow> key \<Rightarrow> key res" where
  "key_down now code_down index k =
     (let k1 = send_key_event (key_bit index) HAL_KEY_EVENT_DOWN k;
          e = ks_event (k_status k1);
          k2 = send_key_event (key_bit index)
                 (if e = HAL_KEY_EVENT_NONE then HAL_KEY_EVENT_FIRST_DOWN else HAL_KEY_EVENT_CONTINUED_DOWN) k1;
          s = k_status k2;
          s1 = (if e = HAL_KEY_EVENT_NONE \<or> e = HAL_KEY_EVENT_DOWN \<or> e = HAL_KEY_EVENT_UP
                then s\<lparr>ks_ready := code_down\<rparr> else s) in
      Inr (k2\<lparr>k_status := s1\<lparr>ks_time_updown := now\<rparr>\<rparr>))"

definition keys_down :: "u32 \<Rightarrow> u32 \<Rightarrow> u32 \<Rightarrow> key \<Rightarrow> key res" where
  "keys_down now code_down down_new k =
     bindE (scan_keys (key_down now code_down) down_new
              (k\<lparr>k_status := (k_status k)\<lparr>ks_down := code_down\<rparr>\<rparr>)) (\<lambda>k1.
     let s = k_status k1 in
     Inr (if down_new \<noteq> 0 \<and> (ks_event s = HAL_KEY_EVENT_NONE \<or> ks_event s = HAL_KEY_EVENT_UP)
          then k1\<lparr>k_status := s\<lparr>ks_event := HAL_KEY_EVENT_DOWN\<rparr>\<rparr> else k1))"

text \<open>Long presses and their repetition, while all the keys pressed together stay down.\<close>

definition keys_long :: "key_cfg \<Rightarrow> u32 \<Rightarrow> u32 \<Rightarrow> key \<Rightarrow> key" where
  "keys_long c now code_down k =
     (let s = k_status k in
      if code_down AND ks_ready s = ks_ready s then
        if ks_event s = HAL_KEY_EVENT_DOWN then
          if now - ks_time_updown s \<ge> kc_ticks c 1500
          then send_key_event (ks_ready s) HAL_KEY_EVENT_LONGPRESS
                 (k\<lparr>k_status := s\<lparr>ks_repeat := 0, ks_event := HAL_KEY_EVENT_LONGPRESS\<rparr>\<rparr>)
          else k
        else if long_pressed (ks_event s) then
          let s1 = s\<lparr>ks_repeat := ks_repeat s + 1\<rparr>;
              k1 = k\<lparr>k_status := s1\<rparr>;
              k2 = (if unat (ks_repeat s1) = unat (kc_ticks c 500 div KEY_CHECKER_INTERVAL c)
                    then send_key_event (ks_ready s) HAL_KEY_EVENT_REPEAT
                           (k1\<lparr>k_status := s1\<lparr>ks_repeat := 0\<rparr>\<rparr>)
                    else k1) in
          if ks_event s = HAL_KEY_EVENT_LONGPRESS \<and> now - ks_time_updown s \<ge> kc_ticks c 2000
          then send_key_event (ks_ready s) HAL_KEY_EVENT_LONGLONGPRESS
                 (k2\<lparr>k_status := (k_status k2)\<lparr>ks_event := HAL_KEY_EVENT_LONGLONGPRESS\<rparr>\<rparr>)
          else k2
        else k
      else k)"

definition key_events :: "key_cfg \<Rightarrow> u32 \<Rightarrow> u32 \<Rightarrow> key \<Rightarrow> key res" where
  "key_events c now code_down k =
     (let down_new = code_down AND NOT (ks_down (k_status k));
          up_new = NOT code_down AND ks_down (k_status k) in
      bindE (keys_up now code_down k) (\<lambda>k1.
      bindE (keys_down now code_down down_new (keys_click c now up_new k1)) (\<lambda>k2.
      Inr (keys_long c now code_down k2))))"

text \<open>The end of the handler: the warning about a key that seems stuck, and the next check.\<close>

definition key_rearm :: "key_cfg \<Rightarrow> u32 \<Rightarrow> bool \<Rightarrow> key \<Rightarrow> key" where
  "key_rearm c now need k =
     (let k1 = (if ks_event (k_status k) \<noteq> HAL_KEY_EVENT_NONE then
                  if k_started k then
                    if now - k_first k \<ge> kc_ticks c 30000 then k\<lparr>k_first := now\<rparr> else k
                  else k\<lparr>k_started := True, k_first := now\<rparr>
                else k) in
      if need \<or> ks_event (k_status k) \<noteq> HAL_KEY_EVENT_NONE then hal_key_debounce_timer_restart k1
      else k1\<lparr>k_started := False\<rparr>)"

definition hal_key_debounce_handler :: "key_cfg \<Rightarrow> u32 \<Rightarrow> bool \<Rightarrow> (nat \<Rightarrow> bool) \<Rightarrow> key \<Rightarrow> key res" where
  "hal_key_debounce_handler c now pressed lvl k =
     (let (code, k1) = debounce_pwrkey c now pressed (k\<lparr>k_timer_active := False\<rparr>) in
      bindE (debounce_gpiokey c lvl now (code, k1)) (\<lambda>(code_down, k2).
      let need = pwr_busy k1 \<or> gpio_busy k2 in
      bindE (key_events c now code_down k2) (\<lambda>k3.
      Inr (key_rearm c now need k3))))"

section \<open>Boot, opening and closing\<close>

definition hal_key_enable_allint :: "key_cfg \<Rightarrow> key \<Rightarrow> key" where
  "hal_key_enable_allint c k = hal_gpiokey_enable_allint (kc_gpio c) (hal_pwrkey_enable_int k)"

definition hal_key_disable_allint :: "key_cfg \<Rightarrow> key \<Rightarrow> key" where
  "hal_key_disable_allint c k = hal_gpiokey_disable_allint (kc_gpio c) (hal_pwrkey_disable_int k)"

text \<open>While the power key of the power-on is held, its own handler runs.\<close>

definition boot_debounce :: "key_cfg \<Rightarrow> u32 \<Rightarrow> bool \<Rightarrow> key \<Rightarrow> key" where
  "boot_debounce c now pressed k =
     (let p = k_pwr k in
      if pk_debounce p then
        if pressed then
          if now - pk_time p \<ge> KEY_DEBOUNCE_INTERVAL c
          then k\<lparr>k_pwr := p\<lparr>pk_pressed := True, pk_dither := False, pk_debounce := False\<rparr>,
                 k_status := (k_status k)\<lparr>ks_time_updown := now\<rparr>\<rparr>
          else k\<lparr>k_pwr := p\<lparr>pk_pressed := True, pk_dither := False\<rparr>\<rparr>
        else k\<lparr>k_pwr := p\<lparr>pk_pressed := False, pk_debounce := False, pk_dither := True, pk_time := now\<rparr>\<rparr>
      else if pk_dither p then
        if now - pk_time p \<ge> KEY_DITHER_INTERVAL c
        then k\<lparr>k_pwr := p\<lparr>pk_dither := False, pk_pressed := False\<rparr>\<rparr> else k
      else if pk_pressed p \<and> \<not> pressed then k\<lparr>k_pwr := p\<lparr>pk_pressed := False\<rparr>\<rparr>
      else k)"

definition boot_event :: "key_event \<Rightarrow> key \<Rightarrow> key" where
  "boot_event e k = send_key_event HAL_KEY_CODE_PWR e (k\<lparr>k_status := (k_status k)\<lparr>ks_event := e\<rparr>\<rparr>)"

definition boot_press :: "key_cfg \<Rightarrow> u32 \<Rightarrow> key \<Rightarrow> key" where
  "boot_press c now k =
     (let s = k_status k; held = now - ks_time_updown s in
      if ks_event s = HAL_KEY_EVENT_NONE then
        if held \<ge> kc_ticks c 200 then boot_event HAL_KEY_EVENT_INITDOWN k else k
      else if ks_event s = HAL_KEY_EVENT_INITDOWN then
        if held \<ge> kc_ticks c 4000
        then boot_event HAL_KEY_EVENT_INITLONGPRESS (k\<lparr>k_status := s\<lparr>ks_repeat := 0\<rparr>\<rparr>) else k
      else if ks_event s = HAL_KEY_EVENT_INITLONGPRESS then
        if held \<ge> kc_ticks c 10000 then boot_event HAL_KEY_EVENT_INITLONGLONGPRESS k else k
      else k)"

definition hal_key_boot_handler :: "key_cfg \<Rightarrow> u32 \<Rightarrow> bool \<Rightarrow> key \<Rightarrow> key" where
  "hal_key_boot_handler c now pressed k0 =
     (let k = boot_debounce c now pressed (k0\<lparr>k_timer_active := False\<rparr>) in
      if pwr_busy k then
        hal_key_debounce_timer_restart (if pk_pressed (k_pwr k) then boot_press c now k else k)
      else
        let e = ks_event (k_status k);
            k1 = (if e = HAL_KEY_EVENT_NONE \<or> e = HAL_KEY_EVENT_INITDOWN
                  then send_key_event HAL_KEY_CODE_PWR HAL_KEY_EVENT_INITUP k else k);
            k2 = send_key_event HAL_KEY_CODE_PWR HAL_KEY_EVENT_INITFINISHED k1 in
        hal_key_enable_allint c
          (hal_pwrkey_reset (k2\<lparr>k_timer := Some Debounce_Handler, k_status := key_status_reset\<rparr>)))"

text \<open>\<open>hal_key_open\<close>: ten looks at the power key when it powered the device on, then the key
  hardware. Whether a timer could be allocated is an argument.\<close>

definition hal_key_open ::
  "key_cfg \<Rightarrow> bool \<Rightarrow> (nat \<Rightarrow> bool) \<Rightarrow> u32 \<Rightarrow> bool \<Rightarrow> bool \<Rightarrow> bool \<Rightarrow> key \<Rightarrow> (int \<times> key) res" where
  "hal_key_open c checkPwrKey startup now pressed timer_free cb k =
     (let k1 = k\<lparr>k_callback := cb, k_status := key_status_reset\<rparr> in
      if checkPwrKey \<and> \<not> list_all startup [0..<10] then Inr (-1, k1)
      else
        let k2 = hal_gpiokey_reset (hal_pwrkey_reset k1) in
        if checkPwrKey then
          c_assert timer_free
            (Inr (0, hal_pwrkey_handle_irq_state True now pressed (k2\<lparr>k_timer := Some Boot_Handler\<rparr>)))
        else
          c_assert timer_free
            (Inr (0, hal_key_enable_allint c (k2\<lparr>k_timer := Some Debounce_Handler\<rparr>))))"

definition hal_key_close :: "key_cfg \<Rightarrow> key \<Rightarrow> int \<times> key" where
  "hal_key_close c k =
     (let k1 = hal_pwrkey_disable_int (hal_pwrkey_reset (hal_key_disable_allint c k));
          k2 = hal_gpiokey_disable_allint (kc_gpio c) (hal_gpiokey_reset k1) in
      (0, k2\<lparr>k_timer := None, k_timer_active := False, k_callback := False\<rparr>))"

definition hal_key_read_status :: "key_cfg \<Rightarrow> bool \<Rightarrow> (nat \<Rightarrow> bool) \<Rightarrow> u32 \<Rightarrow> key_event" where
  "hal_key_read_status c pressed lvl code =
     (if code = HAL_KEY_CODE_PWR then (if pressed then HAL_KEY_EVENT_DOWN else HAL_KEY_EVENT_UP)
      else case List.find (\<lambda>g. gc_code g = code) (kc_gpio c) of
        None \<Rightarrow> HAL_KEY_EVENT_NONE
      | Some g \<Rightarrow> if lvl (gc_pin g) = gc_down g then HAL_KEY_EVENT_DOWN else HAL_KEY_EVENT_UP)"

end
