(* ===== verification/KeyInv.thy ===== *)
theory KeyInv
  imports Key
begin

text \<open>
  What the key driver guarantees: no key is lost between its interrupt and the debounce
  timer, the assertion on the pin maps cannot fail, every key is reported down and up in
  turn, click counts stay in the enumeration, and what a press and a hold are reported as.
\<close>

unbundle bit_operations_syntax

section \<open>Walking the keys of a code\<close>

definition keys_of :: "u32 \<Rightarrow> nat list" where
  "keys_of m = sorted_list_of_set {p. bit m p}"

lemma finite_bits [simp]: "finite {p. bit (m :: u32) p}"
  by (rule finite_subset [of _ "{..<32}"]) (auto dest: bit_imp_le_length)

lemma set_keys_of [simp]: "set (keys_of m) = {p. bit m p}"
  by (simp add: keys_of_def)

lemma distinct_keys_of [simp]: "distinct (keys_of m)"
  by (simp add: keys_of_def)

lemma keys_of_0 [simp]: "keys_of 0 = []"
  by (simp add: keys_of_def)

lemma scan_keys_fold: "scan_keys body m k = foldM body (keys_of m) k"
proof -
  have "pins [m] = {p. bit m p}"
  proof -
    have "p < 32" if "bit m p" for p using that by (auto dest: bit_imp_le_length)
    then show ?thesis by (auto simp: pins_def)
  qed
  then show ?thesis by (simp add: scan_keys_def scan_pins_0 keys_of_def)
qed

lemma one_key_inj: "i < 32 \<Longrightarrow> j < 32 \<Longrightarrow> key_bit i = key_bit j \<longleftrightarrow> i = j"
  by (auto simp: key_bit_def bit_eq_iff bit_simps)

lemma keys_of_one: "i < 32 \<Longrightarrow> keys_of (key_bit i) = [i]"
proof -
  assume "i < 32"
  then have "{p. bit (key_bit i) p} = {i}" by (auto simp: key_bit_def bit_simps)
  then show ?thesis by (simp add: keys_of_def)
qed

section \<open>The recognition of events touches the status and the log only\<close>

definition same_hw :: "key \<Rightarrow> key \<Rightarrow> bool" where
  "same_hw k k' \<longleftrightarrow> k' = k\<lparr>k_status := k_status k', k_sent := k_sent k'\<rparr>"

lemma same_hw_refl [simp]: "same_hw k k"
  by (simp add: same_hw_def)

lemma same_hw_trans: "same_hw a b \<Longrightarrow> same_hw b c \<Longrightarrow> same_hw a c"
  by (cases a; cases b; cases c) (simp add: same_hw_def)

lemma same_hw_fields:
  "same_hw k k' \<Longrightarrow> k_callback k' = k_callback k \<and> k_timer k' = k_timer k \<and>
     k_timer_active k' = k_timer_active k \<and> k_started k' = k_started k \<and> k_first k' = k_first k \<and>
     k_pwr k' = k_pwr k \<and> k_gpio k' = k_gpio k \<and> k_pwr_irq k' = k_pwr_irq k \<and> k_gpio_irq k' = k_gpio_irq k"
  by (cases k; cases k') (simp add: same_hw_def)

lemma same_hw_send [simp]: "same_hw k (send_key_event code e k)"
  by (cases k) (simp add: same_hw_def send_key_event_def)

lemma same_hw_status [simp]: "same_hw k (k\<lparr>k_status := s\<rparr>)"
  by (cases k) (simp add: same_hw_def)

lemma send_status [simp]:
  "k_status (send_key_event code e k) = k_status k" "k_callback (send_key_event code e k) = k_callback k"
  by (simp_all add: send_key_event_def)

definition log :: "key \<Rightarrow> (u32 \<times> key_event) list \<Rightarrow> (u32 \<times> key_event) list" where
  "log k es = (if k_callback k then k_sent k @ es else k_sent k)"

lemma send_log: "k_sent (send_key_event code e k) = log k [(code, e)]"
  by (simp add: send_key_event_def log_def)

text \<open>The walk over the keys newly up, and over those newly down.\<close>

definition up_events :: "key_event \<Rightarrow> nat \<Rightarrow> (u32 \<times> key_event) list" where
  "up_events e i = (key_bit i, HAL_KEY_EVENT_UP) #
     (if long_pressed e then [(key_bit i, HAL_KEY_EVENT_UP_AFTER_LONGPRESS)] else [])"

lemma key_up_eq:
  "key_up now i k = Inr (k\<lparr>k_sent := log k (up_events (ks_event (k_status k)) i),
                           k_status := (k_status k)\<lparr>ks_time_updown := now\<rparr>\<rparr>)"
  by (cases k) (simp add: key_up_def Let_def up_events_def send_key_event_def log_def)

lemma fold_key_up:
  "foldM (key_up now) xs k =
     Inr (k\<lparr>k_sent := log k (concat (map (up_events (ks_event (k_status k))) xs)),
            k_status := (if xs = [] then k_status k else (k_status k)\<lparr>ks_time_updown := now\<rparr>)\<rparr>)"
  by (induction xs arbitrary: k) (simp_all add: key_up_eq log_def)

definition down_events :: "key_event \<Rightarrow> nat \<Rightarrow> (u32 \<times> key_event) list" where
  "down_events e i = [(key_bit i, HAL_KEY_EVENT_DOWN),
     (key_bit i, if e = HAL_KEY_EVENT_NONE then HAL_KEY_EVENT_FIRST_DOWN else HAL_KEY_EVENT_CONTINUED_DOWN)]"

definition extendable :: "key_event \<Rightarrow> bool" where
  "extendable e \<longleftrightarrow> e = HAL_KEY_EVENT_NONE \<or> e = HAL_KEY_EVENT_DOWN \<or> e = HAL_KEY_EVENT_UP"

lemma key_down_eq:
  "key_down now code i k = Inr (k\<lparr>k_sent := log k (down_events (ks_event (k_status k)) i),
     k_status := (k_status k)\<lparr>ks_time_updown := now,
       ks_ready := (if extendable (ks_event (k_status k)) then code else ks_ready (k_status k))\<rparr>\<rparr>)"
  by (cases k) (simp add: key_down_def Let_def down_events_def send_key_event_def log_def extendable_def)

lemma fold_key_down:
  "foldM (key_down now code) xs k =
     Inr (k\<lparr>k_sent := log k (concat (map (down_events (ks_event (k_status k))) xs)),
            k_status := (if xs = [] then k_status k
              else (k_status k)\<lparr>ks_time_updown := now,
                ks_ready := (if extendable (ks_event (k_status k)) then code else ks_ready (k_status k))\<rparr>)\<rparr>)"
  by (induction xs arbitrary: k) (simp_all add: key_down_eq log_def)

section \<open>Down and up in turn\<close>

text \<open>The events that report key \<open>i\<close> down or up, and what they say of it from \<open>False\<close>, up.\<close>

definition reports :: "nat \<Rightarrow> (u32 \<times> key_event) list \<Rightarrow> key_event list" where
  "reports i es = map snd (filter (\<lambda>(c, e). c = key_bit i \<and> (e = HAL_KEY_EVENT_DOWN \<or> e = HAL_KEY_EVENT_UP)) es)"

fun track :: "bool \<Rightarrow> key_event list \<Rightarrow> bool option" where
  "track d [] = Some d"
| "track False (HAL_KEY_EVENT_DOWN # es) = track True es"
| "track True (HAL_KEY_EVENT_UP # es) = track False es"
| "track d (e # es) = None"

lemma track_append: "track d xs = Some b \<Longrightarrow> track d (xs @ ys) = track b ys"
  by (induction d xs rule: track.induct) auto

lemma reports_append [simp]: "reports i (a @ b) = reports i a @ reports i b"
  by (simp add: reports_def)

lemma reports_Nil [simp]: "reports i [] = []"
  by (simp add: reports_def)

lemma reports_up:
  assumes "i < 32" and "distinct xs" and "set xs \<subseteq> {..<32}"
  shows "reports i (concat (map (up_events e) xs)) = (if i \<in> set xs then [HAL_KEY_EVENT_UP] else [])"
  using assms(2,3) by (induction xs) (auto simp: up_events_def reports_def one_key_inj assms(1))

lemma reports_down:
  assumes "i < 32" and "distinct xs" and "set xs \<subseteq> {..<32}"
  shows "reports i (concat (map (down_events e) xs)) = (if i \<in> set xs then [HAL_KEY_EVENT_DOWN] else [])"
  using assms(2,3) by (induction xs) (auto simp: down_events_def reports_def one_key_inj assms(1))

lemma keys_of_less: "set (keys_of m) \<subseteq> {..<32}"
  by (auto dest: bit_imp_le_length)

lemma keys_of_Nil: "keys_of m = [] \<longleftrightarrow> m = 0"
proof
  assume "keys_of m = []"
  then have "\<not> bit m p" for p using set_keys_of [of m] by auto
  then show "m = 0" by (auto simp: bit_eq_iff)
qed simp

section \<open>The status\<close>

definition st_ok :: "key_status \<Rightarrow> bool" where
  "st_ok s \<longleftrightarrow> ks_cnt s < MAX_KEY_CLICK_COUNT \<and>
     (ks_event s = HAL_KEY_EVENT_NONE \<or> ks_event s = HAL_KEY_EVENT_UP \<or>
      ks_event s = HAL_KEY_EVENT_DOWN \<and> ks_ready s \<noteq> 0 \<or>
      long_pressed (ks_event s) \<and> ks_down s AND ks_ready s \<noteq> 0)"

lemma st_ok_reset: "st_ok key_status_reset"
  by (simp add: st_ok_def key_status_reset_def MAX_KEY_CLICK_COUNT_def)

lemma long_pressed_simps [simp]:
  "long_pressed HAL_KEY_EVENT_LONGPRESS" "long_pressed HAL_KEY_EVENT_LONGLONGPRESS"
  "\<not> long_pressed HAL_KEY_EVENT_NONE" "\<not> long_pressed HAL_KEY_EVENT_DOWN" "\<not> long_pressed HAL_KEY_EVENT_UP"
  by (simp_all add: long_pressed_def)

lemma click_event_range:
  assumes "cnt \<le> MAX_KEY_CLICK_COUNT"
  shows "click_event cnt \<in> {HAL_KEY_EVENT_CLICK, HAL_KEY_EVENT_DOUBLECLICK, HAL_KEY_EVENT_TRIPLECLICK,
           HAL_KEY_EVENT_ULTRACLICK, HAL_KEY_EVENT_RAMPAGECLICK}"
proof -
  have "unat cnt \<le> 4" using assms by (simp add: MAX_KEY_CLICK_COUNT_def word_le_nat_alt)
  then consider "unat cnt = 0" | "unat cnt = 1" | "unat cnt = 2" | "unat cnt = 3" | "unat cnt = 4" by linarith
  then show ?thesis by cases (simp_all add: click_event_def)
qed

text \<open>After the keys newly up.\<close>

definition up_status :: "u32 \<Rightarrow> u32 \<Rightarrow> key_status \<Rightarrow> key_status" where
  "up_status now code s =
     (let up = NOT code AND ks_down s in
      if up = 0 then s
      else s\<lparr>ks_time_updown := now,
             ks_event := (if long_pressed (ks_event s)
                          then if code AND ks_ready s = 0 then HAL_KEY_EVENT_NONE else ks_event s
                          else if ks_event s = HAL_KEY_EVENT_DOWN then HAL_KEY_EVENT_UP
                          else ks_event s)\<rparr>)"

lemma keys_up_eq:
  "keys_up now code k =
     Inr (k\<lparr>k_sent := log k (concat (map (up_events (ks_event (k_status k)))
                                     (keys_of (NOT code AND ks_down (k_status k))))),
            k_status := up_status now code (k_status k)\<rparr>)"
  by (cases k; cases "k_status k")
    (simp add: keys_up_def scan_keys_fold fold_key_up up_status_def Let_def keys_of_Nil)

text \<open>After the clicks: the events reported are clicks, so they report no key down or up.\<close>

definition click_code :: "key_event \<Rightarrow> bool" where
  "click_code e \<longleftrightarrow> e \<in> {HAL_KEY_EVENT_CLICK, HAL_KEY_EVENT_DOUBLECLICK, HAL_KEY_EVENT_TRIPLECLICK,
     HAL_KEY_EVENT_ULTRACLICK, HAL_KEY_EVENT_RAMPAGECLICK}"

lemma click_code_bound: "cnt \<le> MAX_KEY_CLICK_COUNT \<Longrightarrow> click_code (click_event cnt)"
  using click_event_range by (simp add: click_code_def)

lemma cnt_step: "(n :: u8) < MAX_KEY_CLICK_COUNT \<Longrightarrow> n + 1 \<le> MAX_KEY_CLICK_COUNT"
  by (rule inc_le)

definition click_reported :: "key_status \<Rightarrow> (u32 \<times> key_event) list" where
  "click_reported s = (if ks_click s \<noteq> 0 \<and> ks_click s \<noteq> ks_ready s
     then [(ks_click s, click_event (ks_cnt s))] else [])"

definition click_status :: "u32 \<Rightarrow> u32 \<Rightarrow> key_status \<Rightarrow> key_status" where
  "click_status now up s =
     (if ks_click s = 0 \<or> ks_click s \<noteq> ks_ready s
      then s\<lparr>ks_click := ks_ready s, ks_cnt := 0, ks_time_click := now\<rparr>
      else if up \<noteq> 0 \<and> up OR ks_down s = ks_click s
      then s\<lparr>ks_cnt := ks_cnt s + 1, ks_time_click := now\<rparr>
      else s)"

lemma key_click_count_eq:
  "key_click_count now up k =
     k\<lparr>k_sent := log k (click_reported (k_status k)), k_status := click_status now up (k_status k)\<rparr>"
  by (cases k; cases "k_status k")
    (simp add: key_click_count_def Let_def click_reported_def click_status_def log_def send_key_event_def)

lemma click_status_fields [simp]:
  "ks_down (click_status now up s) = ks_down s" "ks_ready (click_status now up s) = ks_ready s"
  "ks_event (click_status now up s) = ks_event s"
  by (simp_all add: click_status_def)

lemma click_status_cnt:
  "ks_cnt s < MAX_KEY_CLICK_COUNT \<Longrightarrow> ks_cnt (click_status now up s) \<le> MAX_KEY_CLICK_COUNT"
  using cnt_step [of "ks_cnt s"] less_imp_le [of "ks_cnt s" MAX_KEY_CLICK_COUNT]
  by (simp add: click_status_def MAX_KEY_CLICK_COUNT_def)

definition click_done :: "key_status \<Rightarrow> key_status" where
  "click_done s = s\<lparr>ks_click := 0, ks_cnt := 0, ks_event := HAL_KEY_EVENT_NONE\<rparr>"

definition click_over :: "key_cfg \<Rightarrow> u32 \<Rightarrow> key_status \<Rightarrow> bool" where
  "click_over c now s \<longleftrightarrow> now - ks_time_click s \<ge> kc_ticks c 400 \<or> ks_cnt s \<ge> MAX_KEY_CLICK_COUNT"

lemma keys_click_eq:
  "keys_click c now up k =
     (let s = k_status k; s1 = click_status now up s in
      if ks_event s = HAL_KEY_EVENT_UP then
        if click_over c now s1
        then k\<lparr>k_sent := log k (click_reported s @ [(ks_click s1, click_event (ks_cnt s1))]),
               k_status := click_done s1\<rparr>
        else k\<lparr>k_sent := log k (click_reported s), k_status := s1\<rparr>
      else k)"
  by (cases k) (simp add: keys_click_def key_click_count_eq Let_def click_over_def click_done_def
      log_def send_key_event_def)

lemma click_reported_codes:
  "ks_cnt s < MAX_KEY_CLICK_COUNT \<Longrightarrow> \<forall>(code, e) \<in> set (click_reported s). click_code e"
  by (simp add: click_reported_def click_code_bound less_imp_le)

lemma keys_click_spec:
  assumes "ks_cnt (k_status k) < MAX_KEY_CLICK_COUNT"
  shows "\<exists>s' es. keys_click c now up k = k\<lparr>k_sent := log k es, k_status := s'\<rparr> \<and>
           (\<forall>(code, e) \<in> set es. click_code e) \<and> ks_cnt s' < MAX_KEY_CLICK_COUNT \<and>
           ks_down s' = ks_down (k_status k) \<and> ks_ready s' = ks_ready (k_status k) \<and>
           (ks_event s' = ks_event (k_status k) \<or>
            ks_event (k_status k) = HAL_KEY_EVENT_UP \<and> ks_event s' = HAL_KEY_EVENT_NONE)"
proof -
  let ?s = "k_status k"
  let ?s1 = "click_status now up ?s"
  note codes = click_reported_codes [OF assms]
  consider "ks_event ?s \<noteq> HAL_KEY_EVENT_UP" | "ks_event ?s = HAL_KEY_EVENT_UP" "click_over c now ?s1"
    | "ks_event ?s = HAL_KEY_EVENT_UP" "\<not> click_over c now ?s1" by blast
  then show ?thesis
  proof cases
    case 1
    then show ?thesis
      by (intro exI [of _ ?s] exI [of _ "[]"]) (simp add: keys_click_eq assms log_def Let_def)
  next
    case 2
    have "click_code (click_event (ks_cnt ?s1))"
      by (rule click_code_bound [OF click_status_cnt [OF assms]])
    with 2 codes show ?thesis
      by (intro exI [of _ "click_done ?s1"]
          exI [of _ "click_reported ?s @ [(ks_click ?s1, click_event (ks_cnt ?s1))]"])
        (auto simp: keys_click_eq click_done_def MAX_KEY_CLICK_COUNT_def Let_def)
  next
    case 3
    then have "ks_cnt ?s1 < MAX_KEY_CLICK_COUNT" by (simp add: click_over_def not_le)
    with 3 codes show ?thesis
      by (intro exI [of _ ?s1] exI [of _ "click_reported ?s"]) (simp add: keys_click_eq Let_def)
  qed
qed

text \<open>After the keys newly down.\<close>

definition down_status :: "u32 \<Rightarrow> u32 \<Rightarrow> u32 \<Rightarrow> key_status \<Rightarrow> key_status" where
  "down_status now code down s =
     (let s1 = s\<lparr>ks_down := code\<rparr> in
      if down = 0 then s1
      else s1\<lparr>ks_time_updown := now,
             ks_ready := (if extendable (ks_event s) then code else ks_ready s),
             ks_event := (if ks_event s = HAL_KEY_EVENT_NONE \<or> ks_event s = HAL_KEY_EVENT_UP
                          then HAL_KEY_EVENT_DOWN else ks_event s)\<rparr>)"

lemma keys_down_eq:
  "keys_down now code down k =
     Inr (k\<lparr>k_sent := log k (concat (map (down_events (ks_event (k_status k))) (keys_of down))),
            k_status := down_status now code down (k_status k)\<rparr>)"
  by (cases k; cases "k_status k")
    (simp add: keys_down_def scan_keys_fold fold_key_down down_status_def Let_def keys_of_Nil log_def)

text \<open>After the long presses.\<close>

definition long_code :: "key_event \<Rightarrow> bool" where
  "long_code e \<longleftrightarrow> e \<in> {HAL_KEY_EVENT_LONGPRESS, HAL_KEY_EVENT_LONGLONGPRESS, HAL_KEY_EVENT_REPEAT}"

lemma keys_long_spec:
  "\<exists>s' es. keys_long c now code k = k\<lparr>k_sent := log k es, k_status := s'\<rparr> \<and>
     (\<forall>(cd, e) \<in> set es. long_code e) \<and> ks_cnt s' = ks_cnt (k_status k) \<and>
     ks_down s' = ks_down (k_status k) \<and> ks_ready s' = ks_ready (k_status k) \<and>
     ks_click s' = ks_click (k_status k) \<and>
     (ks_event s' = ks_event (k_status k) \<or>
      code AND ks_ready (k_status k) = ks_ready (k_status k) \<and>
      (ks_event (k_status k) = HAL_KEY_EVENT_DOWN \<or> long_pressed (ks_event (k_status k))) \<and>
      long_pressed (ks_event s'))"
  (is "\<exists>s' es. ?P s' es")
proof -
  have "?P (k_status (keys_long c now code k))
    (if k_callback k then drop (length (k_sent k)) (k_sent (keys_long c now code k)) else [])"
    by (cases k; cases "k_status k")
      (auto simp: keys_long_def Let_def log_def send_key_event_def long_code_def)
  then show ?thesis by blast
qed

section \<open>One run of the recogniser\<close>

lemma reports_clicks: "\<forall>(code, e) \<in> set es. click_code e \<Longrightarrow> reports i es = []"
  by (induction es) (auto simp: reports_def click_code_def)

lemma reports_longs: "\<forall>(code, e) \<in> set es. long_code e \<Longrightarrow> reports i es = []"
  by (induction es) (auto simp: reports_def long_code_def)

lemma log_sent_update [simp]: "log (k\<lparr>k_sent := x, k_status := s\<rparr>) es = (if k_callback k then x @ es else x)"
  by (simp add: log_def)

lemma not_released:
  fixes code ready down :: u32
  assumes "NOT code AND down = 0"
  shows "down AND ready \<noteq> 0 \<Longrightarrow> code AND ready \<noteq> 0"
proof
  assume a: "down AND ready \<noteq> 0" "code AND ready = 0"
  have "bit code n" if "bit down n" for n
  proof (rule ccontr)
    assume "\<not> bit code n"
    with that have "bit (NOT code AND down) n" by (auto simp: bit_simps dest: bit_imp_le_length)
    with assms show False by simp
  qed
  moreover have "\<not> (bit code n \<and> bit ready n)" for n
    using a(2) by (metis bit_and_iff bit_0_eq bot_apply bot_bool_def)
  ultimately have "down AND ready = 0" by (auto simp: bit_eq_iff bit_simps)
  with a(1) show False by simp
qed

lemma key_events_spec:
  assumes "st_ok (k_status k)"
  shows "\<exists>s' es. key_events c now code k = Inr (k\<lparr>k_sent := log k es, k_status := s'\<rparr>) \<and> st_ok s' \<and>
           ks_down s' = code \<and>
           (\<forall>i < 32. reports i es =
              (if bit (ks_down (k_status k)) i \<and> \<not> bit code i then [HAL_KEY_EVENT_UP] else []) @
              (if bit code i \<and> \<not> bit (ks_down (k_status k)) i then [HAL_KEY_EVENT_DOWN] else []))"
proof -
  let ?s = "k_status k"
  let ?up = "NOT code AND ks_down ?s" and ?down = "code AND NOT (ks_down ?s)"
  let ?e1 = "concat (map (up_events (ks_event ?s)) (keys_of ?up))"
  let ?s1 = "up_status now code ?s"
  let ?k1 = "k\<lparr>k_sent := log k ?e1, k_status := ?s1\<rparr>"
  have c1: "ks_cnt ?s1 < MAX_KEY_CLICK_COUNT" "ks_down ?s1 = ks_down ?s" "ks_ready ?s1 = ks_ready ?s"
    using assms by (simp_all add: up_status_def Let_def st_ok_def)
  obtain s2 e2 where k2: "keys_click c now ?up ?k1 = ?k1\<lparr>k_sent := log ?k1 e2, k_status := s2\<rparr>"
    and c2: "\<forall>(code, e) \<in> set e2. click_code e" "ks_cnt s2 < MAX_KEY_CLICK_COUNT"
      "ks_ready s2 = ks_ready ?s"
    and ev2: "ks_event s2 = ks_event ?s1 \<or> ks_event ?s1 = HAL_KEY_EVENT_UP \<and> ks_event s2 = HAL_KEY_EVENT_NONE"
    using keys_click_spec [of ?k1 c now ?up] c1 by auto
  let ?k2 = "k\<lparr>k_sent := log k (?e1 @ e2), k_status := s2\<rparr>"
  let ?e3 = "concat (map (down_events (ks_event s2)) (keys_of ?down))"
  let ?s3 = "down_status now code ?down s2"
  let ?k3 = "k\<lparr>k_sent := log k (?e1 @ e2 @ ?e3), k_status := ?s3\<rparr>"
  have c3: "ks_cnt ?s3 < MAX_KEY_CLICK_COUNT" "ks_down ?s3 = code"
    using c2(2) by (simp_all add: down_status_def Let_def)
  obtain s4 e4 where k4: "keys_long c now code ?k3 = ?k3\<lparr>k_sent := log ?k3 e4, k_status := s4\<rparr>"
    and c4: "\<forall>(cd, e) \<in> set e4. long_code e" "ks_cnt s4 = ks_cnt ?s3" "ks_down s4 = code"
      "ks_ready s4 = ks_ready ?s3"
    and ev4: "ks_event s4 = ks_event ?s3 \<or> code AND ks_ready ?s3 = ks_ready ?s3 \<and>
      (ks_event ?s3 = HAL_KEY_EVENT_DOWN \<or> long_pressed (ks_event ?s3)) \<and> long_pressed (ks_event s4)"
    using keys_long_spec [of c now code ?k3] c3(2) by auto
  let ?es = "?e1 @ e2 @ ?e3 @ e4"
  have "key_events c now code k = Inr (k\<lparr>k_sent := log k ?es, k_status := s4\<rparr>)"
  proof -
    have 1: "keys_up now code k = Inr ?k1" by (rule keys_up_eq)
    have 2: "keys_click c now ?up ?k1 = ?k2" unfolding k2 by (simp add: log_def)
    have 3: "keys_down now code ?down ?k2 = Inr ?k3" by (simp add: keys_down_eq log_def)
    have 4: "keys_long c now code ?k3 = k\<lparr>k_sent := log k ?es, k_status := s4\<rparr>"
      unfolding k4 by (simp add: log_def)
    show ?thesis by (simp only: key_events_def Let_def 1 2 3 4 bindE.simps)
  qed
  moreover have "reports i ?es =
      (if bit (ks_down ?s) i \<and> \<not> bit code i then [HAL_KEY_EVENT_UP] else []) @
      (if bit code i \<and> \<not> bit (ks_down ?s) i then [HAL_KEY_EVENT_DOWN] else [])" if "i < 32" for i
    using reports_up [OF that, of "keys_of ?up" "ks_event ?s"] keys_of_less [of ?up]
      reports_down [OF that, of "keys_of ?down" "ks_event s2"] keys_of_less [of ?down]
      reports_clicks [OF c2(1), of i] reports_longs [OF c4(1), of i] that
    by (simp add: bit_simps)
  moreover have "st_ok s4"
  proof -
    have s1: "ks_event ?s1 = HAL_KEY_EVENT_NONE \<or> ks_event ?s1 = HAL_KEY_EVENT_UP \<or>
        ks_event ?s1 = HAL_KEY_EVENT_DOWN \<and> ks_ready ?s \<noteq> 0 \<or>
        long_pressed (ks_event ?s1) \<and> code AND ks_ready ?s \<noteq> 0"
      using assms not_released [of code "ks_down ?s" "ks_ready ?s"]
      by (auto simp: st_ok_def up_status_def Let_def)
    then have s2: "ks_event s2 = HAL_KEY_EVENT_NONE \<or> ks_event s2 = HAL_KEY_EVENT_UP \<or>
        ks_event s2 = HAL_KEY_EVENT_DOWN \<and> ks_ready s2 \<noteq> 0 \<or>
        long_pressed (ks_event s2) \<and> code AND ks_ready s2 \<noteq> 0"
      using ev2 c2(3) by auto
    have "code \<noteq> 0" if "?down \<noteq> 0" using that by auto
    with s2 have s3: "ks_event ?s3 = HAL_KEY_EVENT_NONE \<or> ks_event ?s3 = HAL_KEY_EVENT_UP \<or>
        ks_event ?s3 = HAL_KEY_EVENT_DOWN \<and> ks_ready ?s3 \<noteq> 0 \<or>
        long_pressed (ks_event ?s3) \<and> code AND ks_ready ?s3 \<noteq> 0"
      by (auto simp: down_status_def Let_def extendable_def)
    with ev4 c4 c3(1) show ?thesis unfolding st_ok_def by auto
  qed
  ultimately show ?thesis using c4(3) by blast
qed

section \<open>Debouncing\<close>

definition gpio_cfg_ok :: "key_cfg \<Rightarrow> bool" where
  "gpio_cfg_ok c \<longleftrightarrow> (\<forall>g \<in> set (kc_gpio c). gpio_in_map (gc_pin g))"

text \<open>The pins that are keys, and the pins in some phase of debouncing.\<close>

definition key_pins :: "key_cfg \<Rightarrow> nat set" where
  "key_pins c = gc_pin ` {g \<in> set (kc_gpio c). gc_code g \<noteq> 0}"

definition active_pins :: "gpiokey \<Rightarrow> nat set" where
  "active_pins g = pins (gk_debounce g) \<union> pins (gk_dither g) \<union> pins (gk_down g)"

text \<open>No pin is in two phases, and the interrupt of a key is enabled unless its pin is in one.\<close>

definition gpio_inv :: "key_cfg \<Rightarrow> key \<Rightarrow> bool" where
  "gpio_inv c k \<longleftrightarrow>
     gpio.disjoint3 (gk_debounce (k_gpio k)) (gk_dither (k_gpio k)) (gk_down (k_gpio k)) \<and>
     active_pins (k_gpio k) \<subseteq> key_pins c \<and>
     dom (k_gpio_irq k) = key_pins c - active_pins (k_gpio k)"

lemma find_index_from_ok:
  "p \<in> gc_pin ` set gs \<Longrightarrow> \<exists>j. find_index_from gs p i = Inr (i + j) \<and> j < length gs \<and> gc_pin (gs ! j) = p"
proof (induction gs arbitrary: i)
  case (Cons g gs)
  show ?case
  proof (cases "gc_pin g = p")
    case True
    then show ?thesis by (intro exI [of _ 0]) simp
  next
    case False
    with Cons.prems have "p \<in> gc_pin ` set gs" by auto
    with Cons.IH [of "Suc i"] obtain j where
      "find_index_from gs p (Suc i) = Inr (Suc i + j)" "j < length gs" "gc_pin (gs ! j) = p" by blast
    with False show ?thesis by (intro exI [of _ "Suc j"]) simp
  qed
qed simp

lemma find_index_ok:
  assumes "p \<in> key_pins c"
  obtains i where "hal_gpiokey_find_index c p = Inr i" and "i < length (kc_gpio c)"
    and "gc_pin (kc_gpio c ! i) = p"
proof -
  from assms have "p \<in> gc_pin ` set (kc_gpio c)" by (auto simp: key_pins_def)
  from find_index_from_ok [OF this, of 0] that show ?thesis by (auto simp: hal_gpiokey_find_index_def)
qed

text \<open>What debouncing the GPIO keys leaves alone.\<close>

definition same_but_gpio :: "key \<Rightarrow> key \<Rightarrow> bool" where
  "same_but_gpio k k' \<longleftrightarrow> k' = k\<lparr>k_gpio := k_gpio k', k_gpio_irq := k_gpio_irq k'\<rparr>"

lemma same_but_gpio_refl [simp]: "same_but_gpio k k"
  by (simp add: same_but_gpio_def)

lemma same_but_gpio_trans: "same_but_gpio a b \<Longrightarrow> same_but_gpio b c \<Longrightarrow> same_but_gpio a c"
  by (cases a; cases b; cases c) (simp add: same_but_gpio_def)

lemma same_but_gpio_update [simp]:
  "same_but_gpio a b \<Longrightarrow> same_but_gpio a (b\<lparr>k_gpio := g\<rparr>)"
  "same_but_gpio a b \<Longrightarrow> same_but_gpio a (hal_gpiokey_enable_irq p pol b)"
  by (cases a; cases b; simp add: same_but_gpio_def hal_gpiokey_enable_irq_def)+

lemma same_but_gpio_fields:
  "same_but_gpio k k' \<Longrightarrow> k_callback k' = k_callback k \<and> k_timer k' = k_timer k \<and>
     k_timer_active k' = k_timer_active k \<and> k_started k' = k_started k \<and> k_first k' = k_first k \<and>
     k_pwr k' = k_pwr k \<and> k_status k' = k_status k \<and> k_pwr_irq k' = k_pwr_irq k \<and> k_sent k' = k_sent k"
  by (cases k; cases k') (simp add: same_but_gpio_def)

lemma enable_irq_simps [simp]:
  "k_gpio (hal_gpiokey_enable_irq p pol k) = k_gpio k"
  "dom (k_gpio_irq (hal_gpiokey_enable_irq p pol k)) = insert p (dom (k_gpio_irq k))"
  by (simp_all add: hal_gpiokey_enable_irq_def)

lemma gpio_inv_range: "gpio_inv c k \<Longrightarrow> p \<in> active_pins (k_gpio k) \<Longrightarrow> gpio_in_map p \<and> p \<in> key_pins c"
  unfolding gpio_inv_def gpio.disjoint3_def active_pins_def by (auto dest: gpio.members_range)

lemma dither_phase_inv:
  assumes "gpio_inv c k"
  shows "\<exists>k'. gpio_dither_phase c now k = Inr k' \<and> same_but_gpio k k' \<and> gpio_inv c k'"
proof (cases "gpio_map_test_set (gk_dither (k_gpio k)) \<and>
              now - gk_time_dither (k_gpio k) \<ge> KEY_DITHER_INTERVAL c")
  case False
  then show ?thesis using assms by (auto simp: gpio_dither_phase_def)
next
  case True
  let ?g = "k_gpio k"
  let ?T = "pins (gk_dither ?g)"
  let ?g' = "?g\<lparr>gk_dither := gpio_map_clear_map (gk_dither ?g) (gk_dither ?g)\<rparr>"
  let ?k = "k\<lparr>k_gpio := ?g'\<rparr>"
  have "\<exists>k'. foldM (gpio_dither_pin c) (sorted_list_of_set ?T) ?k = Inr k' \<and>
      (same_but_gpio k k' \<and> k_gpio k' = ?g' \<and>
       dom (k_gpio_irq k') = dom (k_gpio_irq k) \<union> set (sorted_list_of_set ?T))"
  proof (rule foldM_visited [where P = "\<lambda>D k'. same_but_gpio k k' \<and> k_gpio k' = ?g' \<and>
        dom (k_gpio_irq k') = dom (k_gpio_irq k) \<union> D"])
    fix p D k1
    assume p: "p \<in> set (sorted_list_of_set ?T)"
      and k1: "same_but_gpio k k1 \<and> k_gpio k1 = ?g' \<and> dom (k_gpio_irq k1) = dom (k_gpio_irq k) \<union> D"
    from p assms have "p \<in> key_pins c" by (auto simp: gpio_inv_def active_pins_def)
    then obtain i where i: "hal_gpiokey_find_index c p = Inr i" by (rule find_index_ok)
    with k1 show "\<exists>k2. gpio_dither_pin c p k1 = Inr k2 \<and> (same_but_gpio k k2 \<and> k_gpio k2 = ?g' \<and>
        dom (k_gpio_irq k2) = dom (k_gpio_irq k) \<union> insert p D)"
      by (simp add: gpio_dither_pin_def)
  qed simp_all
  then obtain k' where k': "foldM (gpio_dither_pin c) (sorted_list_of_set ?T) ?k = Inr k'"
    "same_but_gpio k k'" "k_gpio k' = ?g'" "dom (k_gpio_irq k') = dom (k_gpio_irq k) \<union> ?T" by auto
  have fits: "gpio_map_fits (gk_dither ?g)" using assms by (simp add: gpio_inv_def gpio.disjoint3_def)
  have e: "gpio_map_fits (gk_dither ?g')" "pins (gk_dither ?g') = {}"
    using gpio.clear_map_law [OF fits fits] by simp_all
  have "gpio_inv c k'"
    using assms e k'(4) unfolding gpio_inv_def gpio.disjoint3_def active_pins_def k'(3) by auto
  with True k' show ?thesis by (simp add: gpio_dither_phase_def Let_def scan_pins_0)
qed

lemma down_phase_inv:
  assumes "gpio_inv c k"
  shows "\<exists>code' k'. gpio_down_phase c lvl (code, k) = Inr (code', k') \<and> same_but_gpio k k' \<and> gpio_inv c k'"
proof (cases "gpio_map_test_set (gk_down (k_gpio k))")
  case False
  then show ?thesis using assms by (simp add: gpio_down_phase_def)
next
  case True
  let ?W = "pins (gk_down (k_gpio k))"
  have "\<exists>r. foldM (gpio_down_pin c lvl) (sorted_list_of_set ?W) (code, k) = Inr r \<and>
      (same_but_gpio k (snd r) \<and> gpio_inv c (snd r) \<and>
       gk_debounce (k_gpio (snd r)) = gk_debounce (k_gpio k) \<and> gk_dither (k_gpio (snd r)) = gk_dither (k_gpio k))"
  proof (rule foldM_inv [where P = "\<lambda>r. same_but_gpio k (snd r) \<and> gpio_inv c (snd r) \<and>
       gk_debounce (k_gpio (snd r)) = gk_debounce (k_gpio k) \<and> gk_dither (k_gpio (snd r)) = gk_dither (k_gpio k)"])
    fix p and r :: "u32 \<times> key"
    assume "p \<in> set (sorted_list_of_set ?W)" and "same_but_gpio k (snd r) \<and> gpio_inv c (snd r) \<and>
       gk_debounce (k_gpio (snd r)) = gk_debounce (k_gpio k) \<and> gk_dither (k_gpio (snd r)) = gk_dither (k_gpio k)"
    then have p: "p \<in> ?W" and r: "same_but_gpio k (snd r)" "gpio_inv c (snd r)"
      "gk_debounce (k_gpio (snd r)) = gk_debounce (k_gpio k)" "gk_dither (k_gpio (snd r)) = gk_dither (k_gpio k)"
      by auto
    obtain cd k1 where k1: "r = (cd, k1)" by (cases r)
    from p gpio_inv_range [OF assms, of p] have pk: "p \<in> key_pins c" "gpio_in_map p"
      by (auto simp: active_pins_def)
    then obtain i where i: "hal_gpiokey_find_index c p = Inr i" by (auto elim: find_index_ok)
    let ?m = "gk_down (k_gpio k1)"
    let ?k2 = "hal_gpiokey_enable_irq p (gc_down (kc_gpio c ! i))
                 (k1\<lparr>k_gpio := (k_gpio k1)\<lparr>gk_down := gpio_map_clear_pin ?m p\<rparr>\<rparr>)"
    have fits: "gpio_map_fits ?m" using r(2) k1 by (simp add: gpio_inv_def gpio.disjoint3_def)
    have clr: "gpio_map_fits (gpio_map_clear_pin ?m p)" "pins (gpio_map_clear_pin ?m p) = pins ?m - {p}"
      using pk(2) fits by (simp_all add: gpio_map_fits_def gpio_in_map_def pins_clear_pin)
    have out: "p \<notin> pins (gk_debounce (k_gpio k1))" "p \<notin> pins (gk_dither (k_gpio k1))"
      using p assms r(3,4) k1 by (auto simp: gpio_inv_def gpio.disjoint3_def)
    have "gpio_inv c ?k2"
      using r(2) clr out pk(1) unfolding gpio_inv_def gpio.disjoint3_def active_pins_def k1
      by (auto simp: hal_gpiokey_enable_irq_def)
    with i r k1 show "\<exists>r'. gpio_down_pin c lvl p r = Inr r' \<and> (same_but_gpio k (snd r') \<and> gpio_inv c (snd r') \<and>
       gk_debounce (k_gpio (snd r')) = gk_debounce (k_gpio k) \<and> gk_dither (k_gpio (snd r')) = gk_dither (k_gpio k))"
      by (simp add: gpio_down_pin_def Let_def)
  qed (use assms in simp)
  with True show ?thesis by (auto simp: gpio_down_phase_def scan_pins_0)
qed

text \<open>The walk over the debounced pins only collects: the maps of the key change after it.\<close>

definition debounce_walk :: "key \<Rightarrow> nat set \<Rightarrow> u32 \<times> gpio_map \<times> gpio_map \<times> key \<Rightarrow> bool" where
  "debounce_walk k D r \<longleftrightarrow> (case r of (cd, da, ta, k1) \<Rightarrow>
     same_but_gpio k k1 \<and> k_gpio_irq k1 = k_gpio_irq k \<and>
     gk_debounce (k_gpio k1) = gk_debounce (k_gpio k) \<and> gk_dither (k_gpio k1) = gk_dither (k_gpio k) \<and>
     gpio_map_fits (gk_down (k_gpio k1)) \<and> gpio_map_fits da \<and> gpio_map_fits ta \<and>
     pins da \<inter> pins ta = {} \<and> pins da \<union> pins ta \<subseteq> D \<and>
     pins (gk_down (k_gpio k1)) = pins (gk_down (k_gpio k)) \<union> pins da)"

lemma debounce_walk_step:
  assumes "debounce_walk k D r" and "p \<notin> D" and "gpio_in_map p" and "p \<in> key_pins c"
  shows "\<exists>r'. gpio_debounce_pin c lvl now p r = Inr r' \<and> debounce_walk k (insert p D) r'"
proof -
  obtain cd da ta k1 where r: "r = (cd, da, ta, k1)" by (cases r)
  obtain i where i: "hal_gpiokey_find_index c p = Inr i" using assms(4) by (rule find_index_ok)
  have f: "gpio_map_fits (gk_down (k_gpio k1))" "gpio_map_fits da" "gpio_map_fits ta"
    using assms(1) by (simp_all add: debounce_walk_def r)
  note sp = gpio.set_pin_law [OF f(1) assms(3)] gpio.set_pin_law [OF f(2) assms(3)]
    gpio.set_pin_law [OF f(3) assms(3)]
  have w: "pins da \<inter> pins ta = {}" "pins da \<union> pins ta \<subseteq> D"
    using assms(1) by (simp_all add: debounce_walk_def r)
  show ?thesis
  proof (cases "lvl p = gc_down (kc_gpio c ! i)")
    case False
    let ?r = "(cd, da, gpio_map_set_pin ta p, k1)"
    have "debounce_walk k (insert p D) ?r"
      using assms(1,2) sp w unfolding debounce_walk_def r by auto
    with False i show ?thesis by (simp add: r gpio_debounce_pin_def Let_def)
  next
    case True
    let ?k1 = "k1\<lparr>k_gpio := (k_gpio k1)\<lparr>gk_down := gpio_map_set_pin (gk_down (k_gpio k1)) p\<rparr>\<rparr>"
    let ?r = "(cd OR gc_code (kc_gpio c ! i), gpio_map_set_pin da p, ta, ?k1)"
    have "debounce_walk k (insert p D) ?r"
      using assms(1,2) sp w unfolding debounce_walk_def r by auto
    moreover have "debounce_walk k (insert p D) r"
      using assms(1) unfolding debounce_walk_def r by auto
    ultimately show ?thesis using True i by (auto simp: r gpio_debounce_pin_def Let_def)
  qed
qed

lemma pins_clear_word: "gpio_map_fits m \<Longrightarrow> gpio_map_fits (gpio_map_clear m)"
  by (simp add: gpio_map_fits_def)

lemma debounce_phase_inv:
  assumes "gpio_inv c k"
  shows "\<exists>code' k'. gpio_debounce_phase c lvl now (code, k) = Inr (code', k') \<and> same_but_gpio k k' \<and>
           gpio_inv c k'"
proof (cases "gpio_map_test_set (gk_debounce (k_gpio k))")
  case False
  then show ?thesis using assms by (simp add: gpio_debounce_phase_def)
next
  case True
  let ?g = "k_gpio k"
  let ?m = "gk_debounce ?g"
  let ?xs = "sorted_list_of_set (pins ?m)"
  have fits: "gpio_map_fits ?m" "gpio_map_fits (gk_dither ?g)" "gpio_map_fits (gk_down ?g)"
    and disj: "pins ?m \<inter> pins (gk_dither ?g) = {}" "pins ?m \<inter> pins (gk_down ?g) = {}"
      "pins (gk_dither ?g) \<inter> pins (gk_down ?g) = {}"
    using assms by (simp_all add: gpio_inv_def gpio.disjoint3_def)
  have "\<exists>r. foldM (gpio_debounce_pin c lvl now) ?xs (code, gpio_map_clear ?m, gpio_map_clear ?m, k) = Inr r \<and>
      debounce_walk k (set ?xs) r"
  proof (rule foldM_visited)
    show "debounce_walk k {} (code, gpio_map_clear ?m, gpio_map_clear ?m, k)"
      using fits by (simp add: debounce_walk_def pins_clear_word pins_clear)
    fix p D r assume p: "p \<in> set ?xs" "p \<notin> D" and r: "debounce_walk k D r"
    from p(1) have "p \<in> active_pins ?g" by (simp add: active_pins_def)
    with gpio_inv_range [OF assms] have "gpio_in_map p" "p \<in> key_pins c" by auto
    with r p(2) show "\<exists>r'. gpio_debounce_pin c lvl now p r = Inr r' \<and> debounce_walk k (insert p D) r'"
      by (intro debounce_walk_step)
  qed simp
  then obtain cd da ta k1 where
    fold: "foldM (gpio_debounce_pin c lvl now) ?xs (code, gpio_map_clear ?m, gpio_map_clear ?m, k) =
      Inr (cd, da, ta, k1)" and w: "debounce_walk k (pins ?m) (cd, da, ta, k1)"
    by (force simp: debounce_walk_def)
  let ?g1 = "k_gpio k1"
  let ?g' = "?g1\<lparr>gk_debounce := gpio_map_clear_map (gpio_map_clear_map (gk_debounce ?g1) da) ta,
                 gk_dither := gpio_map_set_map (gk_dither ?g1) ta\<rparr>"
  have same: "same_but_gpio k k1" "k_gpio_irq k1 = k_gpio_irq k" "gk_debounce ?g1 = ?m"
    "gk_dither ?g1 = gk_dither ?g"
    and f1: "gpio_map_fits (gk_down ?g1)" "gpio_map_fits da" "gpio_map_fits ta"
    and sets: "pins da \<inter> pins ta = {}" "pins da \<union> pins ta \<subseteq> pins ?m"
      "pins (gk_down ?g1) = pins (gk_down ?g) \<union> pins da"
    using w by (simp_all add: debounce_walk_def)
  have f2: "gpio_map_fits (gpio_map_clear_map ?m da)" using gpio.clear_map_law [OF fits(1) f1(2)] by simp
  have p': "pins (gk_debounce ?g') = pins ?m - pins da - pins ta"
    "pins (gk_dither ?g') = pins (gk_dither ?g) \<union> pins ta"
    using gpio.clear_map_law [OF fits(1) f1(2)] gpio.clear_map_law [OF f2 f1(3)]
      gpio.set_map_law [OF fits(2) f1(3)] by (simp_all add: same)
  have "gpio.disjoint3 (gk_debounce ?g') (gk_dither ?g') (gk_down ?g')"
  proof -
    have s1: "pins (gk_dither ?g) \<inter> (pins ?m \<union> pins (gk_down ?g1)) = {}" using disj sets by blast
    have s2: "pins ta \<subseteq> pins ?m" "pins ta \<inter> pins (gk_down ?g1) = {}"
      "pins ?m \<inter> pins (gk_down ?g1) \<subseteq> pins da" using disj sets by blast+
    show ?thesis
      using gpio.disjoint3_move [OF fits(1,2) f1(1,2,3) s1 s2] by (simp add: same)
  qed
  moreover have "active_pins ?g' = active_pins ?g"
    using p' sets by (auto simp: active_pins_def)
  ultimately have "gpio_inv c (k1\<lparr>k_gpio := ?g'\<rparr>)"
    using assms by (simp add: gpio_inv_def same)
  with True fold same(1) show ?thesis
    by (simp add: gpio_debounce_phase_def Let_def scan_pins_0)
qed

lemma debounce_gpiokey_inv:
  assumes "gpio_inv c k"
  shows "\<exists>code' k'. debounce_gpiokey c lvl now (code, k) = Inr (code', k') \<and> same_but_gpio k k' \<and> gpio_inv c k'"
proof -
  have t: "\<not> (gpio_map_test_set_map (gk_debounce (k_gpio k)) (gk_dither (k_gpio k)) \<or>
      gpio_map_test_set_map (gk_debounce (k_gpio k)) (gk_down (k_gpio k)) \<or>
      gpio_map_test_set_map (gk_down (k_gpio k)) (gk_dither (k_gpio k)))"
    using assms gpio.disjoint3_tests unfolding gpio_inv_def by blast
  obtain k1 where 1: "gpio_dither_phase c now k = Inr k1" "same_but_gpio k k1" "gpio_inv c k1"
    using dither_phase_inv [OF assms] by blast
  obtain cd2 k2 where 2: "gpio_down_phase c lvl (code, k1) = Inr (cd2, k2)" "same_but_gpio k1 k2" "gpio_inv c k2"
    using down_phase_inv [OF 1(3)] by blast
  obtain cd3 k3 where 3: "gpio_debounce_phase c lvl now (cd2, k2) = Inr (cd3, k3)" "same_but_gpio k2 k3"
    "gpio_inv c k3" using debounce_phase_inv [OF 2(3)] by blast
  have "debounce_gpiokey c lvl now (code, k) = Inr (cd3, k3)"
    using t 1(1) 2(1) 3(1) by (simp add: debounce_gpiokey_def Let_def)
  with 3 same_but_gpio_trans [OF 1(2) same_but_gpio_trans [OF 2(2) 3(2)]] show ?thesis by blast
qed

section \<open>The driver as a transition system\<close>

definition key_inv :: "key_cfg \<Rightarrow> key \<Rightarrow> bool" where
  "key_inv c k \<longleftrightarrow> k_callback k \<and>
     (\<forall>i < 32. track False (reports i (k_sent k)) = Some (bit (ks_down (k_status k)) i)) \<and>
     (case k_timer k of
        None \<Rightarrow> False
      | Some Debounce_Handler \<Rightarrow>
          st_ok (k_status k) \<and> gpio_inv c k \<and> (k_pwr_irq k \<longleftrightarrow> \<not> pwr_busy k) \<and>
          (pwr_busy k \<or> gpio_busy k \<or> ks_event (k_status k) \<noteq> HAL_KEY_EVENT_NONE \<longrightarrow> k_timer_active k)
      | Some Boot_Handler \<Rightarrow>
          gpio_inv \<lparr>kc_ticks = kc_ticks c, kc_gpio = []\<rparr> k \<and> \<not> k_pwr_irq k \<and> pwr_busy k \<and>
          k_timer_active k \<and> ks_down (k_status k) = 0)"

text \<open>What can happen: an enabled interrupt, or the expiry of the running timer.\<close>

inductive key_step :: "key_cfg \<Rightarrow> key \<Rightarrow> key res \<Rightarrow> bool" for c where
  pwr_irq: "k_pwr_irq k \<Longrightarrow> key_step c k (Inr (hal_pwrkey_handle_irq_state True now pressed k))"
| gpio_irq: "k_gpio_irq k p \<noteq> None \<Longrightarrow> key_step c k (hal_gpiokey_irqhandler c lvl now p k)"
| timer: "k_timer_active k \<Longrightarrow> k_timer k = Some Debounce_Handler \<Longrightarrow>
    key_step c k (hal_key_debounce_handler c now pressed lvl k)"
| boot: "k_timer_active k \<Longrightarrow> k_timer k = Some Boot_Handler \<Longrightarrow>
    key_step c k (Inr (hal_key_boot_handler c now pressed k))"

definition key_closed :: "key \<Rightarrow> bool" where
  "key_closed k \<longleftrightarrow> \<not> k_timer_active k \<and> k_gpio_irq k = Map.empty \<and> k_sent k = []"

inductive key_reach :: "key_cfg \<Rightarrow> key \<Rightarrow> bool" for c where
  opened: "key_closed k0 \<Longrightarrow> hal_key_open c check startup now pressed timer_free True k0 = Inr (0, k) \<Longrightarrow>
    key_reach c k"
| step: "key_reach c k \<Longrightarrow> key_step c k (Inr k') \<Longrightarrow> key_reach c k'"

lemma gpio_busy_active: "gpio_busy k \<longleftrightarrow> active_pins (k_gpio k) \<noteq> {}"
  by (auto simp: gpio_busy_def active_pins_def test_set)

lemma enable_allint_gpio:
  "\<exists>q. hal_gpiokey_enable_allint gs k = k\<lparr>k_gpio_irq := q\<rparr> \<and>
     dom q = dom (k_gpio_irq k) \<union> gc_pin ` {g \<in> set gs. gc_code g \<noteq> 0}"
proof (induction gs arbitrary: k)
  case Nil
  show ?case by (intro exI [of _ "k_gpio_irq k"]) simp
next
  case (Cons g gs)
  let ?k = "if gc_code g = 0 then k else hal_gpiokey_enable_irq (gc_pin g) (gc_down g) k"
  obtain q where q: "hal_gpiokey_enable_allint gs ?k = ?k\<lparr>k_gpio_irq := q\<rparr>"
    "dom q = dom (k_gpio_irq ?k) \<union> gc_pin ` {g \<in> set gs. gc_code g \<noteq> 0}" using Cons.IH by blast
  have "?k\<lparr>k_gpio_irq := q\<rparr> = k\<lparr>k_gpio_irq := q\<rparr>" by (simp add: hal_gpiokey_enable_irq_def)
  moreover have "dom q = dom (k_gpio_irq k) \<union> gc_pin ` {g' \<in> set (g # gs). gc_code g' \<noteq> 0}"
    unfolding q(2) by auto
  ultimately show ?case using q(1) by auto
qed

lemma gpio_reset_inv:
  assumes "dom (k_gpio_irq k) = key_pins c"
    and "k_gpio k = k_gpio (hal_gpiokey_reset k0)"
  shows "gpio_inv c k" and "active_pins (k_gpio k) = {}"
proof -
  have z: "pins (replicate GPIO_MAP_WORD_CNT 0) = {}"
    by (auto simp: pins_def word_index)
  then show a: "active_pins (k_gpio k) = {}"
    by (simp add: assms(2) active_pins_def hal_gpiokey_reset_def)
  then show "gpio_inv c k"
    using assms z by (auto simp: gpio_inv_def gpio.disjoint3_def gpio_map_fits_def hal_gpiokey_reset_def)
qed

lemma key_open_inv:
  assumes "key_closed k0" and "hal_key_open c check startup now pressed timer_free True k0 = Inr (0, k)"
  shows "key_inv c k"
proof -
  let ?k2 = "hal_gpiokey_reset (hal_pwrkey_reset (k0\<lparr>k_callback := True, k_status := key_status_reset\<rparr>))"
  have r0: "reports i [] = []" "ks_down key_status_reset = 0" for i
    by (simp_all add: key_status_reset_def)
  show ?thesis
  proof (cases check)
    case True
    with assms(2) have k: "k = hal_pwrkey_handle_irq_state True now pressed (?k2\<lparr>k_timer := Some Boot_Handler\<rparr>)"
      by (auto simp: hal_key_open_def Let_def split: if_splits)
    let ?c = "\<lparr>kc_ticks = kc_ticks c, kc_gpio = []\<rparr>"
    have "gpio_inv ?c k"
      by (rule gpio_reset_inv(1))
        (use assms(1) in \<open>simp_all add: k key_closed_def key_pins_def hal_pwrkey_handle_irq_state_def Let_def
          hal_pwrkey_disable_int_def hal_key_debounce_timer_restart_def hal_gpiokey_reset_def hal_pwrkey_reset_def\<close>)
    then show ?thesis
      using assms(1) r0 by (simp add: key_inv_def k key_closed_def hal_pwrkey_handle_irq_state_def Let_def
          hal_pwrkey_disable_int_def hal_key_debounce_timer_restart_def hal_gpiokey_reset_def
          hal_pwrkey_reset_def pwr_busy_def)
  next
    case False
    let ?k3 = "hal_pwrkey_enable_int (?k2\<lparr>k_timer := Some Debounce_Handler\<rparr>)"
    from False assms(2) have k: "k = hal_gpiokey_enable_allint (kc_gpio c) ?k3"
      by (auto simp: hal_key_open_def hal_key_enable_allint_def Let_def)
    obtain q where q: "k = ?k3\<lparr>k_gpio_irq := q\<rparr>" "dom q = dom (k_gpio_irq ?k3) \<union> key_pins c"
      using enable_allint_gpio [of "kc_gpio c" ?k3] unfolding k key_pins_def by blast
    have d: "dom (k_gpio_irq k) = key_pins c"
      using q assms(1) by (simp add: key_closed_def hal_pwrkey_enable_int_def hal_gpiokey_reset_def hal_pwrkey_reset_def)
    have g: "k_gpio k = k_gpio (hal_gpiokey_reset ?k2)"
      by (simp add: q hal_pwrkey_enable_int_def hal_gpiokey_reset_def)
    have f: "k_status k = key_status_reset" "k_sent k = []" "k_callback k"
      "k_timer k = Some Debounce_Handler" "k_pwr_irq k" "\<not> pwr_busy k"
      using assms(1) by (simp_all add: q hal_pwrkey_enable_int_def hal_gpiokey_reset_def
          hal_pwrkey_reset_def pwr_busy_def key_closed_def)
    have "ks_event key_status_reset = HAL_KEY_EVENT_NONE" by (simp add: key_status_reset_def)
    with gpio_reset_inv [OF d g] show ?thesis
      using r0 by (simp add: key_inv_def gpio_busy_active st_ok_reset f)
  qed
qed

lemma irq_restart_simps [simp]:
  "k_status (hal_key_debounce_timer_restart k) = k_status k" "k_sent (hal_key_debounce_timer_restart k) = k_sent k"
  "k_callback (hal_key_debounce_timer_restart k) = k_callback k" "k_timer (hal_key_debounce_timer_restart k) = k_timer k"
  "k_pwr (hal_key_debounce_timer_restart k) = k_pwr k" "k_gpio (hal_key_debounce_timer_restart k) = k_gpio k"
  "k_pwr_irq (hal_key_debounce_timer_restart k) = k_pwr_irq k"
  "k_gpio_irq (hal_key_debounce_timer_restart k) = k_gpio_irq k"
  "k_timer_active (hal_key_debounce_timer_restart k)"
  by (simp_all add: hal_key_debounce_timer_restart_def)

lemma key_inv_cases:
  assumes "key_inv c k"
  obtains "k_timer k = Some Debounce_Handler" | "k_timer k = Some Boot_Handler"
proof (cases "k_timer k")
  case (Some h)
  with that show ?thesis by (cases h) auto
qed (use assms in \<open>simp add: key_inv_def\<close>)

lemma pwr_irq_inv:
  assumes "key_inv c k" and "k_pwr_irq k"
  shows "key_inv c (hal_pwrkey_handle_irq_state True now pressed k)"
proof -
  from assms have t: "k_timer k = Some Debounce_Handler"
    by (auto intro: key_inv_cases [OF assms(1)] simp: key_inv_def)
  let ?k = "hal_pwrkey_handle_irq_state True now pressed k"
  have f: "k_timer ?k = k_timer k" "k_status ?k = k_status k" "k_sent ?k = k_sent k" "k_gpio ?k = k_gpio k"
    "k_gpio_irq ?k = k_gpio_irq k" "k_callback ?k = k_callback k" "\<not> k_pwr_irq ?k" "k_timer_active ?k" "pwr_busy ?k"
    by (simp_all add: hal_pwrkey_handle_irq_state_def Let_def hal_pwrkey_disable_int_def pwr_busy_def)
  show ?thesis using assms(1) t by (simp add: key_inv_def gpio_inv_def f)
qed

lemma gpio_irq_inv:
  assumes "key_inv c k" and "k_gpio_irq k p \<noteq> None" and "gpio_cfg_ok c"
  shows "\<exists>k'. hal_gpiokey_irqhandler c lvl now p k = Inr k' \<and> key_inv c k'"
proof -
  have t: "k_timer k = Some Debounce_Handler"
  proof (rule key_inv_cases [OF assms(1)])
    assume "k_timer k = Some Boot_Handler"
    with assms(1) have "dom (k_gpio_irq k) = {}" by (simp add: key_inv_def gpio_inv_def key_pins_def)
    with assms(2) show ?thesis by auto
  qed
  with assms(1) have inv: "gpio_inv c k" by (simp add: key_inv_def)
  with assms(2) have p: "p \<in> key_pins c" "p \<notin> active_pins (k_gpio k)" by (auto simp: gpio_inv_def)
  then obtain i where i: "hal_gpiokey_find_index c p = Inr i" by (auto elim: find_index_ok)
  let ?g = "k_gpio k" and ?pressed = "lvl p = gc_down (kc_gpio c ! i)"
  let ?g1 = "if ?pressed then ?g\<lparr>gk_debounce := gpio_map_set_pin (gk_debounce ?g) p, gk_time_debounce := now\<rparr>
             else ?g\<lparr>gk_dither := gpio_map_set_pin (gk_dither ?g) p, gk_time_dither := now\<rparr>"
  let ?k = "hal_key_debounce_timer_restart ((hal_gpiokey_disable_irq p k)\<lparr>k_gpio := ?g1\<rparr>)"
  have r: "hal_gpiokey_irqhandler c lvl now p k = Inr ?k"
    by (simp add: hal_gpiokey_irqhandler_def Let_def hal_gpiokey_pressed_def i hal_gpiokey_disable_irq_def)
  have d: "gpio.disjoint3 (gk_debounce ?g) (gk_dither ?g) (gk_down ?g)" using inv by (simp add: gpio_inv_def)
  have out: "p \<notin> pins (gk_debounce ?g)" "p \<notin> pins (gk_dither ?g)" "p \<notin> pins (gk_down ?g)"
    using p(2) by (simp_all add: active_pins_def)
  have rng: "gpio_in_map p" using p(1) assms(3) by (auto simp: key_pins_def gpio_cfg_ok_def)
  have fits: "gpio_map_fits (gk_debounce ?g)" "gpio_map_fits (gk_dither ?g)"
    using d by (simp_all add: gpio.disjoint3_def)
  note sp = gpio.set_pin_law [OF fits(1) rng] gpio.set_pin_law [OF fits(2) rng]
  have "gpio.disjoint3 (gk_debounce ?g1) (gk_dither ?g1) (gk_down ?g1)"
    using gpio.disjoint3_set_a [OF d rng out(2,3)] gpio.disjoint3_set_b [OF d rng out(1,3)] by simp
  moreover have "active_pins ?g1 = insert p (active_pins ?g)" using sp by (auto simp: active_pins_def)
  ultimately have "gpio_inv c ?k"
    using inv p(1) unfolding gpio_inv_def by (auto simp: hal_gpiokey_disable_irq_def)
  then have "key_inv c ?k"
    using assms(1) t by (simp add: key_inv_def hal_gpiokey_disable_irq_def pwr_busy_def)
  with r show ?thesis by blast
qed

lemma debounce_pwrkey_inv:
  assumes "k_pwr_irq k \<longleftrightarrow> \<not> pwr_busy k" and "debounce_pwrkey c now pressed k = (code, k')"
  shows "(k_pwr_irq k' \<longleftrightarrow> \<not> pwr_busy k') \<and> k' = k\<lparr>k_pwr := k_pwr k', k_pwr_irq := k_pwr_irq k'\<rparr>"
  using assms
  by (cases k; cases "k_pwr k")
    (auto simp: debounce_pwrkey_def Let_def pwr_busy_def hal_pwrkey_enable_int_def split: if_splits)

lemma key_rearm_fields:
  "k_status (key_rearm c now need k) = k_status k" "k_sent (key_rearm c now need k) = k_sent k"
  "k_callback (key_rearm c now need k) = k_callback k" "k_timer (key_rearm c now need k) = k_timer k"
  "k_pwr (key_rearm c now need k) = k_pwr k" "k_gpio (key_rearm c now need k) = k_gpio k"
  "k_pwr_irq (key_rearm c now need k) = k_pwr_irq k" "k_gpio_irq (key_rearm c now need k) = k_gpio_irq k"
  "need \<or> ks_event (k_status k) \<noteq> HAL_KEY_EVENT_NONE \<Longrightarrow> k_timer_active (key_rearm c now need k)"
  by (auto simp: key_rearm_def Let_def)

lemma track_reports:
  assumes "track False old = Some b"
  shows "track False (old @ (if b \<and> \<not> b' then [HAL_KEY_EVENT_UP] else []) @
                            (if b' \<and> \<not> b then [HAL_KEY_EVENT_DOWN] else [])) = Some b'"
  by (simp add: track_append [OF assms]) (cases b; cases b'; simp)

lemma debounce_handler_inv:
  assumes "key_inv c k" and "k_timer k = Some Debounce_Handler"
  shows "\<exists>k'. hal_key_debounce_handler c now pressed lvl k = Inr k' \<and> key_inv c k'"
proof -
  let ?k0 = "k\<lparr>k_timer_active := False\<rparr>"
  have inv: "st_ok (k_status k)" "gpio_inv c ?k0" "k_pwr_irq ?k0 \<longleftrightarrow> \<not> pwr_busy ?k0" "k_callback k"
    and tr: "\<forall>i < 32. track False (reports i (k_sent k)) = Some (bit (ks_down (k_status k)) i)"
    using assms by (simp_all add: key_inv_def gpio_inv_def pwr_busy_def)
  obtain code k1 where 1: "debounce_pwrkey c now pressed ?k0 = (code, k1)" by fastforce
  from debounce_pwrkey_inv [OF inv(3) 1] have p1: "k_pwr_irq k1 \<longleftrightarrow> \<not> pwr_busy k1"
    and e1: "k1 = ?k0\<lparr>k_pwr := k_pwr k1, k_pwr_irq := k_pwr_irq k1\<rparr>" by auto
  have f1: "k_status k1 = k_status k" "k_sent k1 = k_sent k" "k_callback k1 = k_callback k"
    "k_timer k1 = k_timer k" "gpio_inv c k1"
    using inv(2) by (subst e1; simp add: gpio_inv_def)+
  obtain cd k2 where 2: "debounce_gpiokey c lvl now (code, k1) = Inr (cd, k2)" "same_but_gpio k1 k2" "gpio_inv c k2"
    using debounce_gpiokey_inv [OF f1(5)] by blast
  note f2 = same_but_gpio_fields [OF 2(2)]
  obtain s' es where 3: "key_events c now cd k2 = Inr (k2\<lparr>k_sent := log k2 es, k_status := s'\<rparr>)"
    "st_ok s'" "ks_down s' = cd"
    "\<forall>i < 32. reports i es =
       (if bit (ks_down (k_status k2)) i \<and> \<not> bit cd i then [HAL_KEY_EVENT_UP] else []) @
       (if bit cd i \<and> \<not> bit (ks_down (k_status k2)) i then [HAL_KEY_EVENT_DOWN] else [])"
    using key_events_spec [of k2 c now cd] f1 f2 inv(1) by auto
  let ?k3 = "k2\<lparr>k_sent := log k2 es, k_status := s'\<rparr>"
  let ?k4 = "key_rearm c now (pwr_busy k1 \<or> gpio_busy k2) ?k3"
  have r: "hal_key_debounce_handler c now pressed lvl k = Inr ?k4"
    using 1 2(1) 3(1) by (simp add: hal_key_debounce_handler_def)
  have t: "track False (reports i (k_sent ?k4)) = Some (bit (ks_down (k_status ?k4)) i)" if "i < 32" for i
    using tr 3(3,4) that track_reports f1 f2 inv(4) by (simp add: key_rearm_fields log_def)
  have b: "pwr_busy ?k4 = pwr_busy k1" "gpio_busy ?k4 = gpio_busy k2"
    using f2 by (simp_all add: pwr_busy_def gpio_busy_def key_rearm_fields)
  have "key_inv c ?k4"
    unfolding key_inv_def b using t f1 f2 inv(4) assms(2) p1 2(3) 3(2)
    by (auto simp: key_rearm_fields gpio_inv_def)
  with r show ?thesis by blast
qed

lemma boot_debounce_frame:
  "\<exists>s. boot_debounce c now pressed k = k\<lparr>k_pwr := k_pwr (boot_debounce c now pressed k), k_status := s\<rparr> \<and>
       ks_down s = ks_down (k_status k) \<and> ks_event s = ks_event (k_status k)"
  by (cases k; cases "k_pwr k"; cases "k_status k") (auto simp: boot_debounce_def Let_def)

text \<open>A press during boot is reported by at most one event, which is not a \<open>DOWN\<close> or \<open>UP\<close>.\<close>

definition init_code :: "key_event \<Rightarrow> bool" where
  "init_code e \<longleftrightarrow> e \<in> {HAL_KEY_EVENT_INITDOWN, HAL_KEY_EVENT_INITUP, HAL_KEY_EVENT_INITLONGPRESS,
     HAL_KEY_EVENT_INITLONGLONGPRESS, HAL_KEY_EVENT_INITFINISHED}"

lemma reports_inits: "\<forall>(code, e) \<in> set es. init_code e \<Longrightarrow> reports i es = []"
  by (induction es) (auto simp: reports_def init_code_def)

lemma boot_press_frame:
  "\<exists>s es. boot_press c now k = k\<lparr>k_status := s, k_sent := log k es\<rparr> \<and> ks_down s = ks_down (k_status k) \<and>
       (\<forall>(code, e) \<in> set es. init_code e)"
  (is "\<exists>s es. ?P s es")
proof -
  let ?k = "boot_press c now k"
  have "?P (k_status ?k) (if k_callback k then drop (length (k_sent k)) (k_sent ?k) else [])"
    by (cases k; cases "k_status k")
      (auto simp: boot_press_def boot_event_def Let_def log_def send_key_event_def init_code_def)
  then show ?thesis by blast
qed

lemma boot_handler_inv:
  assumes "key_inv c k" and "k_timer k = Some Boot_Handler"
  shows "key_inv c (hal_key_boot_handler c now pressed k)"
proof -
  let ?c = "\<lparr>kc_ticks = kc_ticks c, kc_gpio = []\<rparr>"
  let ?b = "boot_debounce c now pressed (k\<lparr>k_timer_active := False\<rparr>)"
  from assms have inv: "gpio_inv ?c k" "\<not> k_pwr_irq k" "ks_down (k_status k) = 0" "k_callback k"
    and tr: "\<forall>i < 32. track False (reports i (k_sent k)) = Some False"
    by (simp_all add: key_inv_def)
  obtain s where b: "?b = k\<lparr>k_timer_active := False, k_pwr := k_pwr ?b, k_status := s\<rparr>"
    "ks_down s = 0" using boot_debounce_frame [of c now pressed "k\<lparr>k_timer_active := False\<rparr>"] inv(3) by auto
  have bf: "k_sent ?b = k_sent k" "k_gpio ?b = k_gpio k" "k_gpio_irq ?b = k_gpio_irq k" "k_pwr_irq ?b = k_pwr_irq k"
    "k_callback ?b = k_callback k" "k_timer ?b = k_timer k" "k_status ?b = s"
    by (subst b(1), simp)+
  show ?thesis
  proof (cases "pwr_busy ?b")
    case True
    let ?k' = "hal_key_debounce_timer_restart (if pk_pressed (k_pwr ?b) then boot_press c now ?b else ?b)"
    obtain s' es where p: "boot_press c now ?b = ?b\<lparr>k_status := s', k_sent := log ?b es\<rparr>" "ks_down s' = 0"
      "\<forall>(code, e) \<in> set es. init_code e" using boot_press_frame [of c now ?b] bf b(2) by auto
    have r: "hal_key_boot_handler c now pressed k = ?k'"
      using True by (simp add: hal_key_boot_handler_def Let_def)
    have "k_gpio ?k' = k_gpio k" "k_gpio_irq ?k' = k_gpio_irq k" "\<not> k_pwr_irq ?k'" "k_callback ?k'"
      "k_timer ?k' = Some Boot_Handler" "pwr_busy ?k'" "k_timer_active ?k'" "ks_down (k_status ?k') = 0"
      "\<forall>i < 32. track False (reports i (k_sent ?k')) = Some False"
      using True p bf inv tr b(2) assms(2) reports_inits [OF p(3)] by (auto simp: pwr_busy_def log_def)
    then show ?thesis
      unfolding r using inv(1) by (simp add: key_inv_def gpio_inv_def)
  next
    case False
    let ?e = "ks_event (k_status ?b)"
    let ?es = "(if ?e = HAL_KEY_EVENT_NONE \<or> ?e = HAL_KEY_EVENT_INITDOWN
                then [(HAL_KEY_CODE_PWR, HAL_KEY_EVENT_INITUP)] else []) @
               [(HAL_KEY_CODE_PWR, HAL_KEY_EVENT_INITFINISHED)]"
    let ?k2 = "hal_pwrkey_enable_int (hal_pwrkey_reset
      (?b\<lparr>k_sent := log ?b ?es, k_timer := Some Debounce_Handler, k_status := key_status_reset\<rparr>))"
    have r: "hal_key_boot_handler c now pressed k = hal_gpiokey_enable_allint (kc_gpio c) ?k2"
      using False by (simp add: hal_key_boot_handler_def Let_def hal_key_enable_allint_def send_key_event_def
          log_def hal_pwrkey_reset_def hal_pwrkey_enable_int_def)
    obtain q where q: "hal_gpiokey_enable_allint (kc_gpio c) ?k2 = ?k2\<lparr>k_gpio_irq := q\<rparr>"
      "dom q = dom (k_gpio_irq ?k2) \<union> key_pins c"
      using enable_allint_gpio [of "kc_gpio c" ?k2] unfolding key_pins_def by blast
    have g: "k_gpio ?k2 = k_gpio k" "k_gpio_irq ?k2 = k_gpio_irq k"
      by (simp_all add: hal_pwrkey_enable_int_def hal_pwrkey_reset_def bf)
    from inv(1) have e: "active_pins (k_gpio k) = {}" "dom (k_gpio_irq k) = {}"
      "gpio.disjoint3 (gk_debounce (k_gpio k)) (gk_dither (k_gpio k)) (gk_down (k_gpio k))"
      by (auto simp: gpio_inv_def key_pins_def)
    have gi: "gpio_inv c (?k2\<lparr>k_gpio_irq := q\<rparr>)"
      using e q(2) unfolding gpio_inv_def by (simp add: g)
    have "\<forall>(code, ev) \<in> set ?es. init_code ev" by (simp add: init_code_def)
    then have rep: "reports i ?es = []" for i by (rule reports_inits)
    have "reports i (k_sent ?k2) = reports i (k_sent k)" for i
    proof -
      have "k_sent ?k2 = k_sent k @ ?es"
        using inv(4) by (simp add: hal_pwrkey_enable_int_def hal_pwrkey_reset_def log_def bf)
      with rep [of i] show ?thesis by (simp only: reports_append append_Nil2)
    qed
    with tr have t: "\<forall>i < 32. track False (reports i (k_sent ?k2)) = Some False" by simp
    have f: "k_callback ?k2" "k_timer ?k2 = Some Debounce_Handler" "k_status ?k2 = key_status_reset"
      "k_pwr_irq ?k2" "\<not> pwr_busy ?k2" "\<not> gpio_busy ?k2"
      using inv(4) e(1) g(1) by (simp_all add: hal_pwrkey_enable_int_def hal_pwrkey_reset_def bf pwr_busy_def
          gpio_busy_active)
    have n: "\<not> pwr_busy (?k2\<lparr>k_gpio_irq := q\<rparr>)" "\<not> gpio_busy (?k2\<lparr>k_gpio_irq := q\<rparr>)"
      using f(5,6) by (simp_all add: pwr_busy_def gpio_busy_def)
    have "ks_event key_status_reset = HAL_KEY_EVENT_NONE" "ks_down key_status_reset = 0"
      by (simp_all add: key_status_reset_def)
    with f(1-4) n gi t show ?thesis
      unfolding r q(1) key_inv_def by (simp add: st_ok_reset)
  qed
qed

lemma key_step_inv:
  assumes "gpio_cfg_ok c" and "key_inv c k" and "key_step c k r"
  shows "\<exists>k'. r = Inr k' \<and> key_inv c k'"
  using assms(3)
proof cases
  case (pwr_irq now pressed)
  with pwr_irq_inv [OF assms(2)] show ?thesis by blast
next
  case (gpio_irq p lvl now)
  with gpio_irq_inv [OF assms(2) _ assms(1)] show ?thesis by blast
next
  case (timer now pressed lvl)
  with debounce_handler_inv [OF assms(2)] show ?thesis by blast
next
  case (boot now pressed)
  with boot_handler_inv [OF assms(2)] show ?thesis by blast
qed

lemma key_reach_inv:
  assumes "gpio_cfg_ok c" and "key_reach c k"
  shows "key_inv c k"
  using assms(2)
proof induction
  case (opened k0 check startup now pressed timer_free k)
  then show ?case by (rule key_open_inv)
next
  case (step k k')
  with key_step_inv [OF assms(1) step.IH] show ?case by auto
qed

section \<open>Properties\<close>

text \<open>One GPIO key on pin 5, down at a low level; 16 ticks to the millisecond.\<close>

definition key_cfg_example :: key_cfg where
  "key_cfg_example = \<lparr>kc_ticks = (\<lambda>ms. 16 * ms), kc_gpio = [\<lparr>gc_code = 2, gc_pin = 5, gc_down = False\<rparr>]\<rparr>"

definition key_closed_example :: key where
  "key_closed_example =
     \<lparr>k_callback = False, k_timer = None, k_timer_active = False, k_status = key_status_reset,
      k_started = False, k_first = 0,
      k_pwr = \<lparr>pk_debounce = False, pk_dither = False, pk_pressed = False, pk_time = 0\<rparr>,
      k_gpio = \<lparr>gk_debounce = [0, 0, 0], gk_dither = [0, 0, 0], gk_down = [0, 0, 0],
                gk_time_debounce = 0, gk_time_dither = 0\<rparr>,
      k_pwr_irq = False, k_gpio_irq = Map.empty, k_sent = []\<rparr>"

definition key_opened_example :: key where
  "key_opened_example =
     (case hal_key_open key_cfg_example False (\<lambda>i. False) 0 False True True key_closed_example of
        Inr (r, k) \<Rightarrow> k | Inl e \<Rightarrow> key_closed_example)"

lemma key_example_cfg: "gpio_cfg_ok key_cfg_example"
  by (simp add: gpio_cfg_ok_def key_cfg_example_def gpio_in_map_def GPIO_MAP_WORD_CNT_def HAL_GPIO_PIN_NUM_def)

lemma key_example_reach: "key_reach key_cfg_example key_opened_example"
proof (rule key_reach.opened)
  show "key_closed key_closed_example" by (simp add: key_closed_def key_closed_example_def)
  show "hal_key_open key_cfg_example False (\<lambda>i. False) 0 False True True key_closed_example =
      Inr (0, key_opened_example)"
    by (simp add: hal_key_open_def key_opened_example_def Let_def)
qed




text \<open>C15: no step from a reachable state fails: the assertion on the pin maps and the one on
  the pin of an interrupt hold, and the walks over pin maps end inside them.\<close>

theorem key_step_total:
  assumes "gpio_cfg_ok c" and "key_reach c k" and "key_step c k r"
  shows "\<exists>k'. r = Inr k' \<and> key_reach c k'"
proof -
  from key_step_inv [OF assms(1) key_reach_inv [OF assms(1,2)] assms(3)] obtain k' where "r = Inr k'" by blast
  with assms(2,3) key_reach.step [of c k k'] show ?thesis by blast
qed

theorem key_step_total_witness:
  "\<exists>k'. hal_gpiokey_irqhandler key_cfg_example (\<lambda>p. False) 100 5 key_opened_example = Inr k' \<and>
     key_reach key_cfg_example k'"
proof (rule key_step_total [OF key_example_cfg key_example_reach key_step.gpio_irq])
  show "k_gpio_irq key_opened_example 5 \<noteq> None"
    by (simp add: key_opened_example_def hal_key_open_def Let_def hal_key_enable_allint_def
        key_cfg_example_def hal_gpiokey_enable_irq_def)
qed

text \<open>the client is told of each key's way down and up in turn, starting with down, and what it
  was told last is whether the key counts as down now.\<close>

theorem key_reports_alternate:
  assumes "gpio_cfg_ok c" and "key_reach c k" and "i < 32"
  shows "track False (reports i (k_sent k)) = Some (bit (ks_down (k_status k)) i)"
  using key_reach_inv [OF assms(1,2)] assms(3) by (simp add: key_inv_def)

theorem key_reports_alternate_witness:
  "track False (reports 1 (k_sent key_opened_example)) = Some (bit (ks_down (k_status key_opened_example)) 1)"
  by (rule key_reports_alternate [OF key_example_cfg key_example_reach]) simp

end
