(* ===== verification/KeyHold.thy ===== *)
theory KeyHold
  imports KeyInv
begin

text \<open>
  What the recogniser of \<open>platform/hal/hal_key.c\<close> reports for a whole press: the steps of
  one check put together, for a key that is pressed, held and released.
\<close>

section \<open>Presses and holds\<close>

text \<open>The recogniser fed with the key codes that are down at successive checks.\<close>

fun run_keys :: "key_cfg \<Rightarrow> (u32 \<times> u32) list \<Rightarrow> key \<Rightarrow> key res" where
  "run_keys c [] k = Inr k"
| "run_keys c ((now, code) # xs) k = bindE (key_events c now code k) (run_keys c xs)"

lemma run_keys_append: "run_keys c (xs @ ys) k = bindE (run_keys c xs k) (run_keys c ys)"
proof (induction xs arbitrary: k)
  case (Cons x xs)
  then show ?case by (cases x; cases "key_events c (fst x) (snd x) k") simp_all
qed simp

definition idle :: "key_status \<Rightarrow> bool" where
  "idle s \<longleftrightarrow> ks_event s = HAL_KEY_EVENT_NONE \<and> ks_down s = 0 \<and> ks_click s = 0 \<and> ks_cnt s = 0"

definition holding :: "u32 \<Rightarrow> u32 \<Rightarrow> key_status \<Rightarrow> bool" where
  "holding b t0 s \<longleftrightarrow> ks_event s = HAL_KEY_EVENT_DOWN \<and> ks_down s = b \<and> ks_ready s = b \<and>
     ks_click s = 0 \<and> ks_cnt s = 0 \<and> ks_time_updown s = t0"

definition clicked :: "u32 \<Rightarrow> u32 \<Rightarrow> key_status \<Rightarrow> bool" where
  "clicked b t1 s \<longleftrightarrow> ks_event s = HAL_KEY_EVENT_UP \<and> ks_down s = 0 \<and> ks_ready s = b \<and>
     ks_click s = b \<and> ks_cnt s = 0 \<and> ks_time_click s = t1"

lemma key_bit_nonzero [simp]: "i < 32 \<Longrightarrow> key_bit i \<noteq> 0"
  using keys_of_one [of i] by (metis keys_of_0 list.simps(3))

text \<open>One check: the stages of \<open>key_events\<close> put together.\<close>

lemma key_events_eq:
  "key_events c now code k =
     (let up = NOT code AND ks_down (k_status k); down = code AND NOT (ks_down (k_status k));
          k1 = k\<lparr>k_sent := log k (concat (map (up_events (ks_event (k_status k))) (keys_of up))),
                 k_status := up_status now code (k_status k)\<rparr>;
          k2 = keys_click c now up k1;
          k3 = k2\<lparr>k_sent := log k2 (concat (map (down_events (ks_event (k_status k2))) (keys_of down))),
                  k_status := down_status now code down (k_status k2)\<rparr> in
      Inr (keys_long c now code k3))"
  by (simp add: key_events_def Let_def keys_up_eq keys_down_eq)

lemma press_step:
  assumes "idle (k_status k)" and "k_callback k" and "i < 32" and "0 < kc_ticks c 1500"
  shows "\<exists>k'. key_events c t0 (key_bit i) k = Inr k' \<and> holding (key_bit i) t0 (k_status k') \<and> k_callback k' \<and>
           k_sent k' = k_sent k @ [(key_bit i, HAL_KEY_EVENT_DOWN), (key_bit i, HAL_KEY_EVENT_FIRST_DOWN)]"
  using assms
  by (simp add: key_events_eq Let_def idle_def holding_def up_status_def keys_click_eq down_status_def
      keys_of_one down_events_def keys_long_def extendable_def log_def)

lemma hold_step:
  assumes "holding b t0 (k_status k)" and "now - t0 < kc_ticks c 1500"
  shows "\<exists>k'. key_events c now b k = Inr k' \<and> holding b t0 (k_status k') \<and>
           k_callback k' = k_callback k \<and> k_sent k' = k_sent k"
  using assms
  by (simp add: key_events_eq Let_def holding_def up_status_def keys_click_eq down_status_def
      keys_long_def log_def)

text \<open>A check that finds no key down; the clicks are looked at with the keys just released.\<close>

lemma key_events_0:
  "key_events c now 0 k =
     (let d = ks_down (k_status k);
          k1 = k\<lparr>k_sent := log k (concat (map (up_events (ks_event (k_status k))) (keys_of d))),
                 k_status := up_status now 0 (k_status k)\<rparr>;
          k2 = keys_click c now d k1 in
      Inr (keys_long c now 0 (k2\<lparr>k_status := (k_status k2)\<lparr>ks_down := 0\<rparr>\<rparr>)))"
  by (simp add: key_events_eq Let_def down_status_def log_def)

lemma keys_long_0: "ks_ready (k_status k) \<noteq> 0 \<Longrightarrow> keys_long c now 0 k = k"
  by (simp add: keys_long_def Let_def)

lemma release_step:
  assumes "holding (key_bit i) t0 (k_status k)" and "k_callback k" and "i < 32" and "0 < kc_ticks c 400"
  shows "\<exists>k'. key_events c t1 0 k = Inr k' \<and> clicked (key_bit i) t1 (k_status k') \<and> k_callback k' \<and>
           k_sent k' = k_sent k @ [(key_bit i, HAL_KEY_EVENT_UP)]"
proof -
  let ?b = "key_bit i"
  have b: "?b \<noteq> 0" using assms(3) by (rule key_bit_nonzero)
  let ?s1 = "(k_status k)\<lparr>ks_event := HAL_KEY_EVENT_UP, ks_time_updown := t1\<rparr>"
  let ?k1 = "k\<lparr>k_sent := k_sent k @ [(?b, HAL_KEY_EVENT_UP)], k_status := ?s1\<rparr>"
  let ?s2 = "?s1\<lparr>ks_click := ?b, ks_cnt := 0, ks_time_click := t1\<rparr>"
  have up: "up_status t1 0 (k_status k) = ?s1"
    using assms(1) b by (simp add: up_status_def holding_def Let_def long_pressed_def)
  have "click_status t1 ?b ?s1 = ?s2" and "click_reported ?s1 = []" and "\<not> click_over c t1 ?s2"
    using assms(1,4) by (simp_all add: click_status_def holding_def click_reported_def click_over_def
        MAX_KEY_CLICK_COUNT_def not_le)
  then have 2: "keys_click c t1 ?b ?k1 = ?k1\<lparr>k_status := ?s2\<rparr>"
    using assms(2) by (simp add: keys_click_eq Let_def log_def)
  have d: "ks_down (k_status k) = ?b" and r: "ks_ready (k_status k) = ?b"
    and e: "ks_event (k_status k) = HAL_KEY_EVENT_DOWN" using assms(1) by (simp_all add: holding_def)
  have 1: "log k (concat (map (up_events (ks_event (k_status k))) (keys_of ?b))) =
      k_sent k @ [(?b, HAL_KEY_EVENT_UP)]"
    using assms(2,3) by (simp add: keys_of_one up_events_def e log_def long_pressed_def)
  have "key_events c t1 0 k = Inr (keys_long c t1 0 (?k1\<lparr>k_status := ?s2\<lparr>ks_down := 0\<rparr>\<rparr>))"
    by (simp only: key_events_0 Let_def d 1 up 2) simp
  also have "\<dots> = Inr (?k1\<lparr>k_status := ?s2\<lparr>ks_down := 0\<rparr>\<rparr>)"
    using keys_long_0 [of "?k1\<lparr>k_status := ?s2\<lparr>ks_down := 0\<rparr>\<rparr>" c t1] r b by simp
  finally show ?thesis using assms(2) r by (simp add: clicked_def)
qed

lemma clicked_look:
  assumes "clicked b t1 (k_status k)" and "b \<noteq> 0"
  shows "key_events c now 0 k =
    Inr (keys_long c now 0 (let k2 = keys_click c now 0 k in k2\<lparr>k_status := (k_status k2)\<lparr>ks_down := 0\<rparr>\<rparr>))"
    and "click_status now 0 (k_status k) = k_status k" and "click_reported (k_status k) = []"
proof -
  have d: "ks_down (k_status k) = 0" using assms(1) by (simp add: clicked_def)
  have "up_status now 0 (k_status k) = k_status k" by (simp add: up_status_def d)
  then show "key_events c now 0 k =
    Inr (keys_long c now 0 (let k2 = keys_click c now 0 k in k2\<lparr>k_status := (k_status k2)\<lparr>ks_down := 0\<rparr>\<rparr>))"
    by (simp add: key_events_0 Let_def d log_def)
  show "click_status now 0 (k_status k) = k_status k" "click_reported (k_status k) = []"
    using assms by (auto simp: click_status_def click_reported_def clicked_def)
qed

lemma wait_step:
  assumes "clicked b t1 (k_status k)" and "b \<noteq> 0" and "now - t1 < kc_ticks c 400"
  shows "\<exists>k'. key_events c now 0 k = Inr k' \<and> clicked b t1 (k_status k') \<and>
           k_callback k' = k_callback k \<and> k_sent k' = k_sent k"
proof -
  have "\<not> click_over c now (k_status k)"
    using assms(1,3) by (simp add: click_over_def clicked_def MAX_KEY_CLICK_COUNT_def not_le)
  then have 2: "keys_click c now 0 k = k"
    by (simp add: keys_click_eq Let_def clicked_look [OF assms(1,2)] log_def)
  have r: "ks_ready (k_status k) \<noteq> 0" and d: "ks_down (k_status k) = 0"
    using assms(1,2) by (simp_all add: clicked_def)
  have "(k_status k)\<lparr>ks_down := 0\<rparr> = k_status k" using d by (cases "k_status k") simp
  then have "key_events c now 0 k = Inr k"
    by (simp add: clicked_look(1) [OF assms(1,2)] 2 keys_long_0 [OF r])
  with assms(1) show ?thesis by simp
qed

lemma click_step:
  assumes "clicked b t1 (k_status k)" and "b \<noteq> 0" and "k_callback k" and "kc_ticks c 400 \<le> t2 - t1"
  shows "\<exists>k'. key_events c t2 0 k = Inr k' \<and> idle (k_status k') \<and> k_callback k' \<and>
           k_sent k' = k_sent k @ [(b, HAL_KEY_EVENT_CLICK)]"
proof -
  have over: "click_over c t2 (k_status k)" and e: "ks_event (k_status k) = HAL_KEY_EVENT_UP"
    and r: "ks_ready (k_status k) \<noteq> 0" and n: "ks_click (k_status k) = b" "ks_cnt (k_status k) = 0"
    using assms(1,2,4) by (simp_all add: click_over_def clicked_def)
  let ?k2 = "k\<lparr>k_sent := k_sent k @ [(b, HAL_KEY_EVENT_CLICK)], k_status := click_done (k_status k)\<rparr>"
  have 2: "keys_click c t2 0 k = ?k2"
    using over e assms(3)
    by (simp add: keys_click_eq Let_def clicked_look [OF assms(1,2)] log_def n click_event_def)
  let ?k3 = "?k2\<lparr>k_status := (click_done (k_status k))\<lparr>ks_down := 0\<rparr>\<rparr>"
  have "key_events c t2 0 k = Inr (keys_long c t2 0 ?k3)"
    by (simp add: clicked_look(1) [OF assms(1,2)] 2 Let_def)
  also have "\<dots> = Inr ?k3" using r keys_long_0 [of ?k3 c t2] by (simp add: click_done_def)
  finally show ?thesis using assms(3) by (simp add: idle_def click_done_def)
qed

lemma long_step:
  assumes "holding b t0 (k_status k)" and "k_callback k" and "kc_ticks c 1500 \<le> t1 - t0"
  shows "\<exists>k'. key_events c t1 b k = Inr k' \<and> k_callback k' \<and>
           ks_event (k_status k') = HAL_KEY_EVENT_LONGPRESS \<and> ks_down (k_status k') = b \<and>
           ks_ready (k_status k') = b \<and> ks_click (k_status k') = 0 \<and> ks_cnt (k_status k') = 0 \<and>
           k_sent k' = k_sent k @ [(b, HAL_KEY_EVENT_LONGPRESS)]"
  using assms
  by (simp add: key_events_eq Let_def holding_def up_status_def keys_click_eq down_status_def
      keys_long_def log_def send_key_event_def)

lemma long_release_step:
  assumes "ks_event (k_status k) = HAL_KEY_EVENT_LONGPRESS" and "ks_down (k_status k) = key_bit i"
    and "ks_click (k_status k) = 0" and "ks_cnt (k_status k) = 0" and "k_callback k" and "i < 32"
  shows "\<exists>k'. key_events c t2 0 k = Inr k' \<and> idle (k_status k') \<and> k_callback k' \<and>
           k_sent k' = k_sent k @ [(key_bit i, HAL_KEY_EVENT_UP), (key_bit i, HAL_KEY_EVENT_UP_AFTER_LONGPRESS)]"
  using assms
  by (simp add: key_events_eq Let_def idle_def up_status_def keys_click_eq down_status_def
      keys_of_one up_events_def keys_long_def log_def)

lemma hold_steps:
  assumes "holding b t0 (k_status k)" and "\<forall>t \<in> set ts. t - t0 < kc_ticks c 1500"
  shows "\<exists>k'. run_keys c (map (\<lambda>t. (t, b)) ts) k = Inr k' \<and> holding b t0 (k_status k') \<and>
           k_callback k' = k_callback k \<and> k_sent k' = k_sent k"
  using assms
proof (induction ts arbitrary: k)
  case (Cons t ts)
  from hold_step [of b t0 k t c] Cons.prems obtain k1 where "key_events c t b k = Inr k1"
    "holding b t0 (k_status k1)" "k_callback k1 = k_callback k" "k_sent k1 = k_sent k" by auto
  with Cons.IH [of k1] Cons.prems(2) show ?case by auto
qed simp

lemma wait_steps:
  assumes "clicked b t1 (k_status k)" and "b \<noteq> 0" and "\<forall>t \<in> set ts. t - t1 < kc_ticks c 400"
  shows "\<exists>k'. run_keys c (map (\<lambda>t. (t, 0)) ts) k = Inr k' \<and> clicked b t1 (k_status k') \<and>
           k_callback k' = k_callback k \<and> k_sent k' = k_sent k"
  using assms
proof (induction ts arbitrary: k)
  case (Cons t ts)
  from wait_step [of b t1 k t c] Cons.prems obtain k1 where "key_events c t 0 k = Inr k1"
    "clicked b t1 (k_status k1)" "k_callback k1 = k_callback k" "k_sent k1 = k_sent k" by auto
  with Cons.IH [of k1] Cons.prems(2,3) show ?case by auto
qed simp

text \<open>a key pressed, however often it is looked at within the long press threshold, and then
  released is reported as down, up and, once the double click threshold has passed, as one
  click; the recogniser is idle again.\<close>

theorem short_press_is_click:
  assumes "idle (k_status k)" and "k_callback k" and "i < 32"
    and "0 < kc_ticks c 1500" and "0 < kc_ticks c 400"
    and "\<forall>t \<in> set hs. t - t0 < kc_ticks c 1500" and "\<forall>t \<in> set us. t - t1 < kc_ticks c 400"
    and "kc_ticks c 400 \<le> t2 - t1"
  shows "\<exists>k'. run_keys c ((t0, key_bit i) # map (\<lambda>t. (t, key_bit i)) hs @ (t1, 0) #
                            map (\<lambda>t. (t, 0)) us @ [(t2, 0)]) k = Inr k' \<and> idle (k_status k') \<and>
           k_sent k' = k_sent k @
             [(key_bit i, HAL_KEY_EVENT_DOWN), (key_bit i, HAL_KEY_EVENT_FIRST_DOWN),
              (key_bit i, HAL_KEY_EVENT_UP), (key_bit i, HAL_KEY_EVENT_CLICK)]"
proof -
  let ?b = "key_bit i"
  obtain k1 where 1: "key_events c t0 ?b k = Inr k1" "holding ?b t0 (k_status k1)" "k_callback k1"
    "k_sent k1 = k_sent k @ [(?b, HAL_KEY_EVENT_DOWN), (?b, HAL_KEY_EVENT_FIRST_DOWN)]"
    using press_step [OF assms(1-4)] by blast
  obtain k2 where 2: "run_keys c (map (\<lambda>t. (t, ?b)) hs) k1 = Inr k2" "holding ?b t0 (k_status k2)"
    "k_callback k2 = k_callback k1" "k_sent k2 = k_sent k1" using hold_steps [OF 1(2) assms(6)] by blast
  have cb: "k_callback k2" using 1(3) 2(3) by simp
  obtain k3 where 3: "key_events c t1 0 k2 = Inr k3" "clicked ?b t1 (k_status k3)" "k_callback k3"
    "k_sent k3 = k_sent k2 @ [(?b, HAL_KEY_EVENT_UP)]" using release_step [OF 2(2) cb assms(3,5)] by blast
  obtain k4 where 4: "run_keys c (map (\<lambda>t. (t, 0)) us) k3 = Inr k4" "clicked ?b t1 (k_status k4)"
    "k_callback k4 = k_callback k3" "k_sent k4 = k_sent k3"
    using wait_steps [OF 3(2) key_bit_nonzero [OF assms(3)] assms(7)] by blast
  have cb4: "k_callback k4" using 3(3) 4(3) by simp
  obtain k5 where 5: "key_events c t2 0 k4 = Inr k5" "idle (k_status k5)"
    "k_sent k5 = k_sent k4 @ [(?b, HAL_KEY_EVENT_CLICK)]"
    using click_step [OF 4(2) key_bit_nonzero [OF assms(3)] cb4 assms(8)] by blast
  show ?thesis using 1 2 3 4 5 by (simp add: run_keys_append)
qed

theorem short_press_is_click_witness:
  "\<exists>k'. run_keys key_cfg_example [(100, key_bit 1), (740, key_bit 1), (1380, 0), (2020, 0), (8000, 0)]
       key_opened_example = Inr k' \<and>
     k_sent k' = [(key_bit 1, HAL_KEY_EVENT_DOWN), (key_bit 1, HAL_KEY_EVENT_FIRST_DOWN),
                  (key_bit 1, HAL_KEY_EVENT_UP), (key_bit 1, HAL_KEY_EVENT_CLICK)]"
proof -
  have "idle (k_status key_opened_example)" "k_callback key_opened_example" "k_sent key_opened_example = []"
    by code_simp+
  note o = this
  have "\<exists>k'. run_keys key_cfg_example ((100, key_bit 1) # map (\<lambda>t. (t, key_bit 1)) [740] @ (1380, 0) #
            map (\<lambda>t. (t, 0)) [2020] @ [(8000, 0)]) key_opened_example = Inr k' \<and> idle (k_status k') \<and>
        k_sent k' = k_sent key_opened_example @
             [(key_bit 1, HAL_KEY_EVENT_DOWN), (key_bit 1, HAL_KEY_EVENT_FIRST_DOWN),
              (key_bit 1, HAL_KEY_EVENT_UP), (key_bit 1, HAL_KEY_EVENT_CLICK)]"
    by (rule short_press_is_click [OF o(1,2)]) (simp_all add: key_cfg_example_def)
  then show ?thesis by (simp only: list.map append_Nil append_Cons o(3)) blast
qed

text \<open>a key still down at the long press threshold is reported as a long press, and its release
  as the end of a long press and not as a click.\<close>

theorem hold_is_long_press:
  assumes "idle (k_status k)" and "k_callback k" and "i < 32" and "0 < kc_ticks c 1500"
    and "\<forall>t \<in> set hs. t - t0 < kc_ticks c 1500" and "kc_ticks c 1500 \<le> t1 - t0"
  shows "\<exists>k'. run_keys c ((t0, key_bit i) # map (\<lambda>t. (t, key_bit i)) hs @ [(t1, key_bit i), (t2, 0)]) k = Inr k' \<and>
           idle (k_status k') \<and>
           k_sent k' = k_sent k @
             [(key_bit i, HAL_KEY_EVENT_DOWN), (key_bit i, HAL_KEY_EVENT_FIRST_DOWN),
              (key_bit i, HAL_KEY_EVENT_LONGPRESS), (key_bit i, HAL_KEY_EVENT_UP),
              (key_bit i, HAL_KEY_EVENT_UP_AFTER_LONGPRESS)]"
proof -
  let ?b = "key_bit i"
  obtain k1 where 1: "key_events c t0 ?b k = Inr k1" "holding ?b t0 (k_status k1)" "k_callback k1"
    "k_sent k1 = k_sent k @ [(?b, HAL_KEY_EVENT_DOWN), (?b, HAL_KEY_EVENT_FIRST_DOWN)]"
    using press_step [OF assms(1-4)] by blast
  obtain k2 where 2: "run_keys c (map (\<lambda>t. (t, ?b)) hs) k1 = Inr k2" "holding ?b t0 (k_status k2)"
    "k_callback k2 = k_callback k1" "k_sent k2 = k_sent k1" using hold_steps [OF 1(2) assms(5)] by blast
  have cb: "k_callback k2" using 1(3) 2(3) by simp
  obtain k3 where 3: "key_events c t1 ?b k2 = Inr k3" "k_callback k3"
    "ks_event (k_status k3) = HAL_KEY_EVENT_LONGPRESS" "ks_down (k_status k3) = ?b"
    "ks_click (k_status k3) = 0" "ks_cnt (k_status k3) = 0"
    "k_sent k3 = k_sent k2 @ [(?b, HAL_KEY_EVENT_LONGPRESS)]"
    using long_step [OF 2(2) cb assms(6)] by blast
  obtain k4 where 4: "key_events c t2 0 k3 = Inr k4" "idle (k_status k4)"
    "k_sent k4 = k_sent k3 @ [(?b, HAL_KEY_EVENT_UP), (?b, HAL_KEY_EVENT_UP_AFTER_LONGPRESS)]"
    using long_release_step [OF 3(3-6,2) assms(3)] by blast
  show ?thesis using 1 2 3 4 by (simp add: run_keys_append)
qed

theorem hold_is_long_press_witness:
  "\<exists>k'. run_keys key_cfg_example [(100, key_bit 1), (740, key_bit 1), (24100, key_bit 1), (30000, 0)]
       key_opened_example = Inr k' \<and>
     k_sent k' = [(key_bit 1, HAL_KEY_EVENT_DOWN), (key_bit 1, HAL_KEY_EVENT_FIRST_DOWN),
                  (key_bit 1, HAL_KEY_EVENT_LONGPRESS), (key_bit 1, HAL_KEY_EVENT_UP),
                  (key_bit 1, HAL_KEY_EVENT_UP_AFTER_LONGPRESS)]"
proof -
  have "idle (k_status key_opened_example)" "k_callback key_opened_example" "k_sent key_opened_example = []"
    by code_simp+
  note o = this
  have "\<exists>k'. run_keys key_cfg_example ((100, key_bit 1) # map (\<lambda>t. (t, key_bit 1)) [740] @
            [(24100, key_bit 1), (30000, 0)]) key_opened_example = Inr k' \<and> idle (k_status k') \<and>
        k_sent k' = k_sent key_opened_example @
             [(key_bit 1, HAL_KEY_EVENT_DOWN), (key_bit 1, HAL_KEY_EVENT_FIRST_DOWN),
              (key_bit 1, HAL_KEY_EVENT_LONGPRESS), (key_bit 1, HAL_KEY_EVENT_UP),
              (key_bit 1, HAL_KEY_EVENT_UP_AFTER_LONGPRESS)]"
    by (rule hold_is_long_press [OF o(1,2)]) (simp_all add: key_cfg_example_def)
  then show ?thesis by (simp only: list.map append_Nil append_Cons o(3)) blast
qed

end
