(* ===== verification/Mru.thy ===== *)
theory Mru
  imports Prelude
begin

text \<open>
  Stores of records kept with the most recently used first: the array moves their code is
  made of, the abstract list operation, and the interface \<open>mru_store\<close> of a store that
  keeps such a list, with what its clients rely on proved once.
\<close>

section \<open>Moves in an array\<close>

text \<open>\<open>memcpy(&a[i], &a[j], sizeof(a[0]))\<close>.\<close>

definition mv :: "'a list \<Rightarrow> nat \<Rightarrow> nat \<Rightarrow> 'a list res" where
  "mv b i j = (if i < length b \<and> j < length b then Inr (b[i := b ! j]) else Inl Mem_Fault)"

definition set_at :: "'a list \<Rightarrow> nat \<Rightarrow> 'a \<Rightarrow> 'a list res" where
  "set_at b i x = (if i < length b then Inr (b[i := x]) else Inl Mem_Fault)"

definition get_at :: "'a list \<Rightarrow> nat \<Rightarrow> 'a res" where
  "get_at b i = (if i < length b then Inr (b ! i) else Inl Mem_Fault)"

lemma mv_ok [simp]: "i < length b \<Longrightarrow> j < length b \<Longrightarrow> mv b i j = Inr (b[i := b ! j])"
  by (simp add: mv_def)

lemma set_at_ok [simp]: "i < length b \<Longrightarrow> set_at b i x = Inr (b[i := x])"
  by (simp add: set_at_def)

lemma get_at_ok [simp]: "i < length b \<Longrightarrow> get_at b i = Inr (b ! i)"
  by (simp add: get_at_def)

text \<open>\<open>for (k = 0; k < n; k++) a[n - k] = a[n - 1 - k]\<close>\<close>

definition shift_up :: "nat \<Rightarrow> 'a list \<Rightarrow> 'a list res" where
  "shift_up n b = foldM (\<lambda>k b. mv b (n - k) (n - 1 - k)) [0..<n] b"

text \<open>\<open>for (k = 0; k < m; k++) a[i + k] = a[i + 1 + k]\<close>\<close>

definition shift_down :: "nat \<Rightarrow> nat \<Rightarrow> 'a list \<Rightarrow> 'a list res" where
  "shift_down i m b = foldM (\<lambda>k b. mv b (i + k) (i + 1 + k)) [0..<m] b"

lemma foldM_append: "foldM f (xs @ ys) s = bindE (foldM f xs s) (foldM f ys)"
proof (induction xs arbitrary: s)
  case (Cons x xs)
  then show ?case by (cases "f x s") simp_all
qed simp

lemma shift_up_upto:
  assumes "n < length b" and "m \<le> n"
  shows "\<exists>b'. foldM (\<lambda>k b. mv b (n - k) (n - 1 - k)) [0..<m] b = Inr b' \<and> length b' = length b \<and>
    (\<forall>j < length b. b' ! j = (if n - m < j \<and> j \<le> n then b ! (j - 1) else b ! j))"
  using assms(2)
proof (induction m)
  case (Suc m)
  then obtain b' where b': "foldM (\<lambda>k b. mv b (n - k) (n - 1 - k)) [0..<m] b = Inr b'" "length b' = length b"
    "\<forall>j < length b. b' ! j = (if n - m < j \<and> j \<le> n then b ! (j - 1) else b ! j)" by auto
  have "mv b' (n - m) (n - 1 - m) = Inr (b'[n - m := b' ! (n - 1 - m)])"
    using b'(2) assms(1) Suc.prems by simp
  moreover have "\<forall>j < length b. b'[n - m := b' ! (n - 1 - m)] ! j =
      (if n - Suc m < j \<and> j \<le> n then b ! (j - 1) else b ! j)"
    using b'(2,3) assms(1) Suc.prems by (auto simp: nth_list_update)
  ultimately show ?case using b'(1,2) by (simp add: foldM_append)
qed auto

lemma shift_up_eq:
  assumes "n < length b"
  shows "shift_up n b = Inr (take 1 b @ take n b @ drop (n + 1) b)"
proof -
  obtain b' where b': "shift_up n b = Inr b'" "length b' = length b"
    "\<And>j. j < length b \<Longrightarrow> b' ! j = (if 0 < j \<and> j \<le> n then b ! (j - 1) else b ! j)"
    using shift_up_upto [OF assms order.refl] by (auto simp: shift_up_def)
  have l: "length (take 1 b) = 1" "length (take n b) = n" using assms by auto
  have "b' = take 1 b @ take n b @ drop (n + 1) b"
    using assms b'(2,3) l by (intro nth_equalityI) (auto simp: nth_append)
  with b'(1) show ?thesis by simp
qed

lemma shift_down_upto:
  assumes "i + m < length b"
  shows "\<exists>b'. shift_down i m b = Inr b' \<and> length b' = length b \<and>
    (\<forall>j < length b. b' ! j = (if i \<le> j \<and> j < i + m then b ! (j + 1) else b ! j))"
  using assms unfolding shift_down_def
proof (induction m)
  case (Suc m)
  then obtain b' where b': "foldM (\<lambda>k b. mv b (i + k) (i + 1 + k)) [0..<m] b = Inr b'" "length b' = length b"
    "\<forall>j < length b. b' ! j = (if i \<le> j \<and> j < i + m then b ! (j + 1) else b ! j)" by auto
  have "mv b' (i + m) (i + 1 + m) = Inr (b'[i + m := b' ! (i + 1 + m)])"
    using b'(2) Suc.prems by simp
  moreover have "\<forall>j < length b. b'[i + m := b' ! (i + 1 + m)] ! j =
      (if i \<le> j \<and> j < i + Suc m then b ! (j + 1) else b ! j)"
    using b'(2,3) Suc.prems by (auto simp: nth_list_update)
  ultimately show ?case using b'(1,2) by (simp add: foldM_append)
qed auto

lemma shift_down_eq:
  assumes "i + m < length b"
  shows "shift_down i m b = Inr (take i b @ take m (drop (i + 1) b) @ drop (i + m) b)"
proof -
  obtain b' where b': "shift_down i m b = Inr b'" "length b' = length b"
    "\<And>j. j < length b \<Longrightarrow> b' ! j = (if i \<le> j \<and> j < i + m then b ! (j + 1) else b ! j)"
    using shift_down_upto [OF assms] by auto
  have l: "length (take i b) = i" "length (take m (drop (Suc i) b)) = m" using assms by auto
  have "b' = take i b @ take m (drop (i + 1) b) @ drop (i + m) b"
  proof (rule nth_equalityI)
    fix j assume "j < length b'"
    then show "b' ! j = (take i b @ take m (drop (i + 1) b) @ drop (i + m) b) ! j"
      using assms b'(2,3) by (auto simp: nth_append l simp del: length_take length_drop)
  qed (use assms b'(2) in auto)
  with b'(1) show ?thesis by simp
qed

section \<open>The list\<close>

text \<open>A record is merged with what is known, comes first, and the last one is given
  up when there are too many.\<close>

definition mru_add :: "('e \<Rightarrow> 'k) \<Rightarrow> ('r \<Rightarrow> 'e list \<Rightarrow> 'e) \<Rightarrow> nat \<Rightarrow> 'k \<Rightarrow> 'r \<Rightarrow> 'e list \<Rightarrow> 'e list" where
  "mru_add key merge cap k r es =
     take cap (merge r es # filter (\<lambda>e. key e \<noteq> k) es)"

definition mru_del :: "('e \<Rightarrow> 'k) \<Rightarrow> 'k \<Rightarrow> 'e list \<Rightarrow> 'e list" where
  "mru_del key k es = filter (\<lambda>e. key e \<noteq> k) es"

definition mru_ok :: "('e \<Rightarrow> 'k) \<Rightarrow> nat \<Rightarrow> 'e list \<Rightarrow> bool" where
  "mru_ok key cap es \<longleftrightarrow> distinct (map key es) \<and> length es \<le> cap"

lemma mru_ok_filter: "mru_ok key cap es \<Longrightarrow> mru_ok key cap (filter P es)"
  by (auto simp: mru_ok_def distinct_map_filter intro: le_trans [OF length_filter_le])

lemma mru_ok_add:
  assumes "mru_ok key cap es" and "\<And>x. key (merge r x) = k"
  shows "mru_ok key cap (mru_add key merge cap k r es)"
proof -
  have "distinct (map key (merge r es # filter (\<lambda>e. key e \<noteq> k) es))"
    using assms by (auto simp: mru_ok_def distinct_map_filter)
  then show ?thesis
    unfolding mru_ok_def mru_add_def take_map [symmetric] by (auto simp: distinct_take simp del: take_map)
qed

text \<open>What stands before a key, when no more than these keys were used since.\<close>

definition recent :: "('e \<Rightarrow> 'k) \<Rightarrow> 'k \<Rightarrow> 'k set \<Rightarrow> 'e list \<Rightarrow> bool" where
  "recent key k A es \<longleftrightarrow> (\<exists>xs e ys. es = xs @ e # ys \<and> key e = k \<and> key ` set xs \<subseteq> A)"

lemma recent_in: "recent key k A es \<Longrightarrow> k \<in> key ` set es"
  by (auto simp: recent_def)

lemma recent_head: "0 < cap \<Longrightarrow> (\<And>x. key (merge r x) = k) \<Longrightarrow> recent key k A (mru_add key merge cap k r es)"
  by (cases cap) (auto simp: recent_def mru_add_def intro!: exI [of _ "[]"])

lemma recent_add:
  assumes "recent key k A es" and "mru_ok key cap es" and "finite A" and "\<And>x. key (merge r x) = k1"
    and "k1 \<noteq> k" and "card (insert k1 A) < cap"
  shows "recent key k (insert k1 A) (mru_add key merge cap k1 r es)"
proof -
  from assms(1) obtain xs e ys where es: "es = xs @ e # ys" "key e = k" "key ` set xs \<subseteq> A"
    by (auto simp: recent_def)
  let ?m = "merge r es"
  let ?xs = "?m # filter (\<lambda>e. key e \<noteq> k1) xs"
  have add: "mru_add key merge cap k1 r es = take cap (?xs @ e # filter (\<lambda>e. key e \<noteq> k1) ys)"
    using es assms(5) by (simp add: mru_add_def)
  have "distinct (map key ?xs)"
    using assms(2,4) by (auto simp: es mru_ok_def distinct_map_filter)
  moreover have sub: "key ` set ?xs \<subseteq> insert k1 A" using es(3) assms(4) by auto
  ultimately have "length ?xs \<le> card (insert k1 A)"
    using card_mono [of "insert k1 A" "set (map key ?xs)"] assms(3) distinct_card [of "map key ?xs"] by simp
  with assms(6) have len: "length ?xs < cap" by simp
  then have "take cap (?xs @ e # filter (\<lambda>e. key e \<noteq> k1) ys) =
      ?xs @ e # take (cap - length ?xs - 1) (filter (\<lambda>e. key e \<noteq> k1) ys)"
    by (cases "cap - length ?xs") (simp_all add: take_Cons')
  with add es(2) sub show ?thesis unfolding recent_def by metis
qed

lemma filter_key_split:
  assumes "distinct (map key (xs @ e # ys))"
  shows "filter (\<lambda>x. key x \<noteq> key e) (xs @ e # ys) = xs @ ys"
proof -
  have "key x \<noteq> key e" if "x \<in> set xs" for x using assms imageI [OF that, of key] by auto
  moreover have "key x \<noteq> key e" if "x \<in> set ys" for x using assms imageI [OF that, of key] by auto
  ultimately show ?thesis by (simp add: filter_id_conv)
qed

lemma filter_key_remove:
  assumes "distinct (map key es)" and "i < length es" and "key (es ! i) = k"
  shows "filter (\<lambda>e. key e \<noteq> k) es = take i es @ drop (Suc i) es"
  using filter_key_split [of key "take i es" "es ! i" "drop (Suc i) es"] assms
  by (simp only: id_take_nth_drop [OF assms(2), symmetric])

lemma filter_key_absent: "k \<notin> key ` set es \<Longrightarrow> filter (\<lambda>e. key e \<noteq> k) es = es"
  by (auto simp: filter_id_conv)

section \<open>The interface\<close>

datatype ('r, 'k) mru_op = Add 'r | Del 'k

fun mru_spec :: "('e \<Rightarrow> 'k) \<Rightarrow> ('r \<Rightarrow> 'e list \<Rightarrow> 'e) \<Rightarrow> nat \<Rightarrow> ('r \<Rightarrow> 'k) \<Rightarrow> ('r, 'k) mru_op \<Rightarrow> 'e list \<Rightarrow> 'e list" where
  "mru_spec key merge cap rkey (Add r) es = mru_add key merge cap (rkey r) r es"
| "mru_spec key merge cap rkey (Del k) es = mru_del key k es"

fun mru_run :: "('r \<Rightarrow> 's \<Rightarrow> 's res) \<Rightarrow> ('k \<Rightarrow> 's \<Rightarrow> 's res) \<Rightarrow> ('r, 'k) mru_op \<Rightarrow> 's \<Rightarrow> 's res" where
  "mru_run add del (Add r) s = add r s"
| "mru_run add del (Del k) s = del k s"

locale mru_store =
  fixes inv :: "'s \<Rightarrow> bool" and entries :: "'s \<Rightarrow> 'e list" and key :: "'e \<Rightarrow> 'k"
    and rkey :: "'r \<Rightarrow> 'k" and good :: "'r \<Rightarrow> bool" and merge :: "'r \<Rightarrow> 'e list \<Rightarrow> 'e" and cap :: nat
    and add :: "'r \<Rightarrow> 's \<Rightarrow> 's res" and del :: "'k \<Rightarrow> 's \<Rightarrow> 's res"
  assumes inv_ok: "inv s \<Longrightarrow> mru_ok key cap (entries s)"
    and merge_key: "key (merge r x) = rkey r"
    and cap_pos: "0 < cap"
    and add_ok: "inv s \<Longrightarrow> good r \<Longrightarrow>
      \<exists>s'. add r s = Inr s' \<and> inv s' \<and> entries s' = mru_add key merge cap (rkey r) r (entries s)"
    and del_ok: "inv s \<Longrightarrow> \<exists>s'. del k s = Inr s' \<and> inv s' \<and> entries s' = mru_del key k (entries s)"
begin

fun good_op :: "('r, 'k) mru_op \<Rightarrow> bool" where
  "good_op (Add r) = good r"
| "good_op (Del k) = True"

lemma run_ok:
  assumes "inv s" and "good_op x"
  shows "\<exists>s'. mru_run add del x s = Inr s' \<and> inv s' \<and> entries s' = mru_spec key merge cap rkey x (entries s)"
  using add_ok [OF assms(1)] del_ok [OF assms(1)] assms(2) by (cases x) simp_all

lemma session:
  assumes "inv s" and "list_all good_op xs"
  shows "\<exists>s'. foldM (mru_run add del) xs s = Inr s' \<and> inv s' \<and> mru_ok key cap (entries s') \<and>
    entries s' = fold (mru_spec key merge cap rkey) xs (entries s)"
  using assms
proof (induction xs arbitrary: s)
  case (Cons x xs)
  from run_ok [of s x] Cons.prems obtain t where "mru_run add del x s = Inr t" "inv t"
    "entries t = mru_spec key merge cap rkey x (entries s)" by auto
  with Cons.IH [of t] Cons.prems(2) show ?case by auto
qed (auto intro: inv_ok)

lemma remembered_from:
  assumes "inv s" and "list_all good rs" and "recent key k A (entries s)" and "finite A"
    and "k \<notin> rkey ` set rs" and "card (A \<union> rkey ` set rs) < cap"
  shows "\<exists>s'. foldM add rs s = Inr s' \<and> inv s' \<and> k \<in> key ` set (entries s')"
  using assms
proof (induction rs arbitrary: s A)
  case Nil
  then show ?case using recent_in by fastforce
next
  case (Cons r rs)
  from add_ok [of s r] Cons.prems(1,2) obtain t where t: "add r s = Inr t" "inv t"
    "entries t = mru_add key merge cap (rkey r) r (entries s)" by auto
  have "card (insert (rkey r) A) \<le> card (A \<union> rkey ` set (r # rs))"
    using Cons.prems(4) by (intro card_mono) auto
  then have "recent key k (insert (rkey r) A) (entries t)"
    unfolding t(3) using Cons.prems merge_key inv_ok
    by (intro recent_add) auto
  with Cons.IH [of t "insert (rkey r) A"] t Cons.prems show ?case by auto
qed

text \<open>A key that was added is known until \<open>cap\<close> others were.\<close>

lemma remembered:
  assumes "inv s" and "good r" and "list_all good rs" and "rkey r \<notin> rkey ` set rs"
    and "card (rkey ` set rs) < cap"
  shows "\<exists>s'. foldM add (r # rs) s = Inr s' \<and> inv s' \<and> rkey r \<in> key ` set (entries s')"
proof -
  from add_ok [OF assms(1,2)] obtain t where t: "add r s = Inr t" "inv t"
    "entries t = mru_add key merge cap (rkey r) r (entries s)" by auto
  have "recent key (rkey r) {} (entries t)"
    unfolding t(3) using cap_pos merge_key by (rule recent_head)
  with remembered_from [OF t(2) assms(3) this] assms(4,5) t(1) show ?thesis by simp
qed

end

end
