(* ===== verification/BtRec.thy ===== *)
theory BtRec
  imports Mru
begin

text \<open>
  The store of paired phones of \<open>services/nv_section/userdata_section/nvrecord_bt.c\<close>:
  an array of eight records in the RAM image of the flash section, the most recently used
  first. What other parts provide is a field of \<open>bt_env\<close>: the default volumes and
  the test for the address of the other earbud. A pointer to a record is its index.
\<close>

section \<open>State\<close>

type_synonym bdaddr = "u8 list"

definition MAX_BT_PAIRED_DEVICE_COUNT :: nat where
  "MAX_BT_PAIRED_DEVICE_COUNT = 8"

record btif_device_record =
  dr_bdAddr :: bdaddr
  dr_trusted :: bool
  dr_for_bt_source :: bool
  dr_linkKey :: "u8 list"
  dr_keyType :: u8
  dr_pinLen :: u8
  dr_cod :: "u8 list"
  dr_name :: "u8 list"

record btdevice_volume =
  bv_a2dp_vol :: u8
  bv_hfp_vol :: u8

record btdevice_profile =
  bp_hfp_act :: bool
  bp_a2dp_abs_vol :: u8
  bp_a2dp_act :: bool
  bp_a2dp_codectype :: u8

record nvrec_btdevicerecord =
  nb_record :: btif_device_record
  nb_vol :: btdevice_volume
  nb_plf :: btdevice_profile

text \<open>All bytes zero.\<close>

definition zero_device :: nvrec_btdevicerecord where
  "zero_device =
     \<lparr>nb_record = \<lparr>dr_bdAddr = replicate 6 0, dr_trusted = False, dr_for_bt_source = False,
        dr_linkKey = replicate 16 0, dr_keyType = 0, dr_pinLen = 0, dr_cod = replicate 3 0,
        dr_name = replicate 32 0\<rparr>,
      nb_vol = \<lparr>bv_a2dp_vol = 0, bv_hfp_vol = 0\<rparr>,
      nb_plf = \<lparr>bp_hfp_act = False, bp_a2dp_abs_vol = 0, bp_a2dp_act = False, bp_a2dp_codectype = 0\<rparr>\<rparr>"

record bt_dev_info =
  pi_num :: u32
  pi_dev :: "nvrec_btdevicerecord list"

datatype paired_cb = Default_Callback | Client_Callback nat

text \<open>\<open>bn_info\<close> is \<open>None\<close> before the section is set up, \<open>bn_update\<close> the flag that asks for a
  flush, and \<open>bn_told\<close> what the clients' callbacks were called with, in order.\<close>

record bt_nv =
  bn_info :: "bt_dev_info option"
  bn_update :: bool
  bn_cb :: "paired_cb option list"
  bn_latest :: bdaddr
  bn_told :: "(nat \<times> bdaddr) list"

record bt_env =
  be_dac_volume :: u32
  be_bt_vol :: "u8 \<Rightarrow> u8"
  be_is_tws :: "bdaddr \<Rightarrow> bool"

datatype bt_status = BT_STS_SUCCESS | BT_STS_FAILED

datatype NEW_DEVICE_CB = NEW_DEVICE_CB_MOBILE | NEW_DEVICE_CB_TWS | NEW_DEVICE_CB_ANY_DEVICE | NEW_DEVICE_CB_USER1

fun cb_index :: "NEW_DEVICE_CB \<Rightarrow> nat" where
  "cb_index NEW_DEVICE_CB_MOBILE = 0"
| "cb_index NEW_DEVICE_CB_TWS = 1"
| "cb_index NEW_DEVICE_CB_ANY_DEVICE = 2"
| "cb_index NEW_DEVICE_CB_USER1 = 3"

section \<open>Looking\<close>

definition nvrecord_rebuild_paired_bt_dev_info :: "bt_dev_info \<Rightarrow> bt_dev_info" where
  "nvrecord_rebuild_paired_bt_dev_info info =
     info\<lparr>pi_dev := replicate (length (pi_dev info)) zero_device, pi_num := 0\<rparr>"

definition nv_record_get_paired_dev_count :: "bt_nv \<Rightarrow> u32" where
  "nv_record_get_paired_dev_count s = (case bn_info s of None \<Rightarrow> 0 | Some info \<Rightarrow> pi_num info)"

text \<open>The two records copied out; \<open>None\<close> where the caller's record is left as it is.\<close>

definition nv_record_enum_latest_two_paired_dev ::
  "bt_nv \<Rightarrow> (int \<times> btif_device_record option \<times> btif_device_record option) res" where
  "nv_record_enum_latest_two_paired_dev s =
     (case bn_info s of
        None \<Rightarrow> Inr (-1, None, None)
      | Some info \<Rightarrow>
          if pi_num info > 0 then
            bindE (get_at (pi_dev info) 0) (\<lambda>d0.
            if pi_num info = 1 then Inr (1, Some (nb_record d0), None)
            else bindE (get_at (pi_dev info) 1) (\<lambda>d1. Inr (2, Some (nb_record d0), Some (nb_record d1))))
          else Inr (0, None, None))"

text \<open>The records written from \<open>record\<close> on; the loop looks at the count after each record.\<close>

function sink_paired_from ::
  "nvrec_btdevicerecord list \<Rightarrow> nat \<Rightarrow> nat \<Rightarrow> nat \<Rightarrow> btif_device_record list \<Rightarrow> btif_device_record list res" where
  "sink_paired_from devs num max_num i out =
     (if i < num then
        if i < length devs then
          let d = nb_record (devs ! i); out1 = (if dr_for_bt_source d then out @ [d] else out) in
          if max_num \<le> length out1 then Inr out1 else sink_paired_from devs num max_num (i + 1) out1
        else Inl Mem_Fault
      else Inr out)"
  by pat_completeness auto

termination by (relation "measure (\<lambda>(devs, num, max_num, i, out). num - i)") auto

definition nv_record_get_sink_paired_dev :: "nat \<Rightarrow> bt_nv \<Rightarrow> (int \<times> btif_device_record list) res" where
  "nv_record_get_sink_paired_dev max_num s =
     (case bn_info s of
        None \<Rightarrow> Inr (-1, [])
      | Some info \<Rightarrow> bindE (sink_paired_from (pi_dev info) (unat (pi_num info)) max_num 0 [])
                      (\<lambda>out. Inr (int (length out), out)))"

definition nv_record_get_paired_dev_list :: "bt_nv \<Rightarrow> int \<times> nvrec_btdevicerecord list option" where
  "nv_record_get_paired_dev_list s =
     (case bn_info s of
        None \<Rightarrow> (-1, None)
      | Some info \<Rightarrow> if pi_num info > 0 then (uint (pi_num info), Some (pi_dev info)) else (0, None))"

text \<open>The count is read before the section is known to be there.\<close>

definition nv_record_enum_dev_records :: "u16 \<Rightarrow> bt_nv \<Rightarrow> (bt_status \<times> btif_device_record option) res" where
  "nv_record_enum_dev_records index s =
     (case bn_info s of
        None \<Rightarrow> Inl Mem_Fault
      | Some info \<Rightarrow>
          if ucast index \<ge> pi_num info then Inr (BT_STS_FAILED, None)
          else bindE (get_at (pi_dev info) (unat index)) (\<lambda>d. Inr (BT_STS_SUCCESS, Some (nb_record d))))"

text \<open>The index of the record of an address; \<open>None\<close> is \<open>-1\<close>.\<close>

function find_addr :: "nvrec_btdevicerecord list \<Rightarrow> nat \<Rightarrow> bdaddr \<Rightarrow> nat \<Rightarrow> nat option res" where
  "find_addr devs num addr i =
     (if i < num then
        if i < length devs then
          if dr_bdAddr (nb_record (devs ! i)) = addr then Inr (Some i) else find_addr devs num addr (i + 1)
        else Inl Mem_Fault
      else Inr None)"
  by pat_completeness auto

termination by (relation "measure (\<lambda>(devs, num, addr, i). num - i)") auto

definition nv_record_get_bt_pairing_info_index :: "bdaddr \<Rightarrow> bt_nv \<Rightarrow> nat option res" where
  "nv_record_get_bt_pairing_info_index addr s =
     (case bn_info s of
        None \<Rightarrow> Inl Mem_Fault
      | Some info \<Rightarrow> find_addr (pi_dev info) (unat (pi_num info)) addr 0)"

definition nv_record_ddbrec_find :: "bdaddr \<Rightarrow> bt_nv \<Rightarrow> (bt_status \<times> btif_device_record option) res" where
  "nv_record_ddbrec_find addr s =
     (case bn_info s of
        None \<Rightarrow> Inr (BT_STS_FAILED, None)
      | Some info \<Rightarrow>
          bindE (nv_record_get_bt_pairing_info_index addr s) (\<lambda>idx.
          case idx of None \<Rightarrow> Inr (BT_STS_FAILED, None)
          | Some i \<Rightarrow> bindE (get_at (pi_dev info) i) (\<lambda>d. Inr (BT_STS_SUCCESS, Some (nb_record d)))))"

definition nv_record_btdevicerecord_find :: "bdaddr \<Rightarrow> bt_nv \<Rightarrow> (int \<times> nat option) res" where
  "nv_record_btdevicerecord_find addr s =
     (case bn_info s of
        None \<Rightarrow> Inr (-1, None)
      | Some info \<Rightarrow>
          bindE (nv_record_get_bt_pairing_info_index addr s) (\<lambda>idx.
          case idx of None \<Rightarrow> Inr (-1, None) | Some i \<Rightarrow> Inr (0, Some i)))"

section \<open>Callbacks for newly paired devices\<close>

definition nvrecord_bt_init :: "bt_nv \<Rightarrow> bt_nv" where
  "nvrecord_bt_init s = s\<lparr>bn_cb := [None, None, Some Default_Callback, None]\<rparr>"

definition nv_record_bt_device_register_newly_paired_device_callback ::
  "NEW_DEVICE_CB \<Rightarrow> paired_cb option \<Rightarrow> bt_nv \<Rightarrow> bt_nv" where
  "nv_record_bt_device_register_newly_paired_device_callback index func s =
     s\<lparr>bn_cb := (bn_cb s)[cb_index index := func]\<rparr>"

fun call_paired_cb :: "paired_cb option \<Rightarrow> bdaddr \<Rightarrow> bt_nv \<Rightarrow> bt_nv" where
  "call_paired_cb None addr s = s"
| "call_paired_cb (Some Default_Callback) addr s = s\<lparr>bn_latest := addr\<rparr>"
| "call_paired_cb (Some (Client_Callback n)) addr s = s\<lparr>bn_told := bn_told s @ [(n, addr)]\<rparr>"

definition nv_record_bt_distribute_new_dev_paired_event :: "bt_env \<Rightarrow> bdaddr \<Rightarrow> bt_nv \<Rightarrow> bt_nv" where
  "nv_record_bt_distribute_new_dev_paired_event e addr s =
     (let call = (\<lambda>slot s. call_paired_cb (bn_cb s ! cb_index slot) addr s);
          s1 = call NEW_DEVICE_CB_USER1 (call NEW_DEVICE_CB_ANY_DEVICE s) in
      if be_is_tws e addr then call NEW_DEVICE_CB_TWS s1 else call NEW_DEVICE_CB_MOBILE s1)"

section \<open>Changing\<close>

definition nv_record_pairing_info_reset :: "bt_env \<Rightarrow> nvrec_btdevicerecord \<Rightarrow> nvrec_btdevicerecord" where
  "nv_record_pairing_info_reset e d =
     (let v = ucast (be_dac_volume e) in
      d\<lparr>nb_vol := (nb_vol d)\<lparr>bv_a2dp_vol := v, bv_hfp_vol := v\<rparr>,
        nb_plf := (nb_plf d)\<lparr>bp_hfp_act := False, bp_a2dp_abs_vol := be_bt_vol e v, bp_a2dp_act := False\<rparr>\<rparr>)"

text \<open>A device that is not in the list: the others move up, the last one drops out of a full list.\<close>

definition ddbrec_add_new :: "bt_env \<Rightarrow> btif_device_record \<Rightarrow> bt_dev_info \<Rightarrow> bt_nv \<Rightarrow> bt_nv res" where
  "ddbrec_add_new e r info s =
     bindE (if pi_num info = of_nat MAX_BT_PAIRED_DEVICE_COUNT
            then bindE (shift_up (MAX_BT_PAIRED_DEVICE_COUNT - 1) (pi_dev info)) (\<lambda>d. Inr (d, pi_num info - 1))
            else bindE (shift_up (unat (pi_num info)) (pi_dev info)) (\<lambda>d. Inr (d, pi_num info))) (\<lambda>(devs, num).
     bindE (get_at devs 0) (\<lambda>d0.
     bindE (set_at devs 0 (nv_record_pairing_info_reset e (d0\<lparr>nb_record := r\<rparr>))) (\<lambda>devs1.
     let s1 = s\<lparr>bn_info := Some \<lparr>pi_num = num + 1, pi_dev = devs1\<rparr>\<rparr>;
         s2 = (if dr_linkKey r \<noteq> replicate 16 0
               then nv_record_bt_distribute_new_dev_paired_event e (dr_bdAddr r) s1 else s1) in
     Inr (s2\<lparr>bn_update := True\<rparr>))))"

text \<open>A device that is in the list at index \<open>i\<close>: it moves to the head, with the new record.\<close>

definition ddbrec_to_head ::
  "btif_device_record \<Rightarrow> nat \<Rightarrow> nvrec_btdevicerecord \<Rightarrow> nvrec_btdevicerecord list \<Rightarrow> (nvrec_btdevicerecord list \<times> bool) res" where
  "ddbrec_to_head r i d devs =
     (if i > 0 then
        bindE (shift_up i devs) (\<lambda>devs1.
        bindE (set_at devs1 0 (d\<lparr>nb_record := r\<rparr>)) (\<lambda>devs2. Inr (devs2, True)))
      else
        bindE (get_at devs 0) (\<lambda>d0.
        if nb_record d0 \<noteq> r
        then bindE (set_at devs 0 (d0\<lparr>nb_record := r\<rparr>)) (\<lambda>devs1. Inr (devs1, True))
        else Inr (devs, False)))"

definition ddbrec_add_known :: "bt_env \<Rightarrow> btif_device_record \<Rightarrow> nat \<Rightarrow> bt_dev_info \<Rightarrow> bt_nv \<Rightarrow> bt_nv res" where
  "ddbrec_add_known e r i info s =
     bindE (get_at (pi_dev info) i) (\<lambda>d.
     let changed = (nb_record d \<noteq> r);
         s1 = (if changed then nv_record_bt_distribute_new_dev_paired_event e (dr_bdAddr (nb_record d)) s else s) in
     bindE (ddbrec_to_head r i d (pi_dev info)) (\<lambda>(devs, upd).
     bindE (if changed
            then bindE (get_at devs 0) (\<lambda>d0. set_at devs 0 (nv_record_pairing_info_reset e d0))
            else Inr devs) (\<lambda>devs1.
     let s2 = s1\<lparr>bn_info := Some (info\<lparr>pi_dev := devs1\<rparr>)\<rparr> in
     Inr (if upd then s2\<lparr>bn_update := True\<rparr> else s2))))"

definition nv_record_ddbrec_add :: "bt_env \<Rightarrow> btif_device_record option \<Rightarrow> bt_nv \<Rightarrow> (bt_status \<times> bt_nv) res" where
  "nv_record_ddbrec_add e param_rec s =
     (case param_rec of
        None \<Rightarrow> Inr (BT_STS_FAILED, s)
      | Some r \<Rightarrow>
          (case bn_info s of
             None \<Rightarrow> Inr (BT_STS_FAILED, s)
           | Some info \<Rightarrow>
               bindE (nv_record_get_bt_pairing_info_index (dr_bdAddr r) s) (\<lambda>idx.
               bindE (case idx of None \<Rightarrow> ddbrec_add_new e r info s
                      | Some i \<Rightarrow> ddbrec_add_known e r i info s) (\<lambda>s1.
               Inr (BT_STS_SUCCESS, s1)))))"

datatype SECTIONS_ADP = section_usrdata_ddbrecord | section_none

definition nv_record_add :: "bt_env \<Rightarrow> SECTIONS_ADP \<Rightarrow> btif_device_record option \<Rightarrow> bt_nv \<Rightarrow> (bt_status \<times> bt_nv) res" where
  "nv_record_add e type rec s =
     (if rec = None \<or> type = section_none then Inr (BT_STS_FAILED, s)
      else nv_record_ddbrec_add e rec s)"

definition nv_record_ddbrec_delete :: "bdaddr \<Rightarrow> bt_nv \<Rightarrow> (bt_status \<times> bt_nv) res" where
  "nv_record_ddbrec_delete addr s =
     (case bn_info s of
        None \<Rightarrow> Inr (BT_STS_FAILED, s)
      | Some info \<Rightarrow>
          bindE (nv_record_get_bt_pairing_info_index addr s) (\<lambda>idx.
          case idx of
            None \<Rightarrow> Inr (BT_STS_FAILED, s)
          | Some i \<Rightarrow>
              bindE (shift_down i (unat (pi_num info) - i - 1) (pi_dev info)) (\<lambda>devs.
              bindE (set_at devs (unat (pi_num info) - 1) zero_device) (\<lambda>devs1.
              Inr (BT_STS_SUCCESS,
                   s\<lparr>bn_info := Some \<lparr>pi_num = pi_num info - 1, pi_dev = devs1\<rparr>, bn_update := True\<rparr>)))))"

definition nv_record_ddbrec_clear_all_bt_paired_list :: "bt_nv \<Rightarrow> (bt_status \<times> bt_nv) res" where
  "nv_record_ddbrec_clear_all_bt_paired_list s =
     (case bn_info s of
        None \<Rightarrow> Inr (BT_STS_FAILED, s)
      | Some info \<Rightarrow>
          bindE (foldM (\<lambda>k devs. set_at devs k zero_device) [0..<unat (pi_num info)] (pi_dev info)) (\<lambda>devs.
          Inr (BT_STS_SUCCESS, s\<lparr>bn_info := Some \<lparr>pi_num = 0, pi_dev = devs\<rparr>, bn_update := True\<rparr>)))"

section \<open>Setters of one record\<close>

text \<open>A write through a pointer to the record at index \<open>i\<close>; the flag is set when the value differs.\<close>

definition write_device ::
  "nat \<Rightarrow> (nvrec_btdevicerecord \<Rightarrow> bool) \<Rightarrow> (nvrec_btdevicerecord \<Rightarrow> nvrec_btdevicerecord) \<Rightarrow> bt_nv \<Rightarrow> bt_nv res" where
  "write_device i differs f s =
     (case bn_info s of
        None \<Rightarrow> Inl Mem_Fault
      | Some info \<Rightarrow>
          bindE (get_at (pi_dev info) i) (\<lambda>d.
          if differs d
          then bindE (set_at (pi_dev info) i (f d)) (\<lambda>devs.
               Inr (s\<lparr>bn_info := Some (info\<lparr>pi_dev := devs\<rparr>), bn_update := True\<rparr>))
          else Inr s))"

text \<open>A volume is a signed byte compared with the unsigned byte that is stored.\<close>

definition nv_record_btdevicerecord_set_a2dp_vol :: "nat \<Rightarrow> u8 \<Rightarrow> bt_nv \<Rightarrow> bt_nv res" where
  "nv_record_btdevicerecord_set_a2dp_vol i vol =
     write_device i (\<lambda>d. sint vol \<noteq> uint (bv_a2dp_vol (nb_vol d)))
       (\<lambda>d. d\<lparr>nb_vol := (nb_vol d)\<lparr>bv_a2dp_vol := vol\<rparr>\<rparr>)"

definition nv_record_btdevicerecord_set_hfp_vol :: "nat \<Rightarrow> u8 \<Rightarrow> bt_nv \<Rightarrow> bt_nv res" where
  "nv_record_btdevicerecord_set_hfp_vol i vol =
     write_device i (\<lambda>d. sint vol \<noteq> uint (bv_hfp_vol (nb_vol d)))
       (\<lambda>d. d\<lparr>nb_vol := (nb_vol d)\<lparr>bv_hfp_vol := vol\<rparr>\<rparr>)"

definition nv_record_btdevicerecord_set_a2dp_abs_vol :: "nat \<Rightarrow> u8 \<Rightarrow> bt_nv \<Rightarrow> bt_nv res" where
  "nv_record_btdevicerecord_set_a2dp_abs_vol i vol =
     write_device i (\<lambda>d. sint vol \<noteq> uint (bp_a2dp_abs_vol (nb_plf d)))
       (\<lambda>d. d\<lparr>nb_plf := (nb_plf d)\<lparr>bp_a2dp_abs_vol := vol\<rparr>\<rparr>)"

text \<open>The setters of the profile write the value even when it is the one that is stored.\<close>

definition nv_record_btdevicerecord_set_a2dp_profile_active_state :: "nat \<Rightarrow> bool \<Rightarrow> bt_nv \<Rightarrow> bt_nv res" where
  "nv_record_btdevicerecord_set_a2dp_profile_active_state i act =
     write_device i (\<lambda>d. act \<noteq> bp_a2dp_act (nb_plf d)) (\<lambda>d. d\<lparr>nb_plf := (nb_plf d)\<lparr>bp_a2dp_act := act\<rparr>\<rparr>)"

definition nv_record_btdevicerecord_set_hfp_profile_active_state :: "nat \<Rightarrow> bool \<Rightarrow> bt_nv \<Rightarrow> bt_nv res" where
  "nv_record_btdevicerecord_set_hfp_profile_active_state i act =
     write_device i (\<lambda>d. act \<noteq> bp_hfp_act (nb_plf d)) (\<lambda>d. d\<lparr>nb_plf := (nb_plf d)\<lparr>bp_hfp_act := act\<rparr>\<rparr>)"

definition nv_record_btdevicerecord_set_a2dp_profile_codec :: "nat \<Rightarrow> u8 \<Rightarrow> bt_nv \<Rightarrow> bt_nv res" where
  "nv_record_btdevicerecord_set_a2dp_profile_codec i codec =
     write_device i (\<lambda>d. codec \<noteq> bp_a2dp_codectype (nb_plf d))
       (\<lambda>d. d\<lparr>nb_plf := (nb_plf d)\<lparr>bp_a2dp_codectype := codec\<rparr>\<rparr>)"

definition nv_record_btdevicevolume_set_a2dp_vol :: "nat \<Rightarrow> u8 \<Rightarrow> bt_nv \<Rightarrow> bt_nv res" where
  "nv_record_btdevicevolume_set_a2dp_vol i vol =
     write_device i (\<lambda>d. sint vol \<noteq> uint (bv_a2dp_vol (nb_vol d)))
       (\<lambda>d. d\<lparr>nb_vol := (nb_vol d)\<lparr>bv_a2dp_vol := vol\<rparr>\<rparr>)"

definition nv_record_btdevicevolume_set_hfp_vol :: "nat \<Rightarrow> u8 \<Rightarrow> bt_nv \<Rightarrow> bt_nv res" where
  "nv_record_btdevicevolume_set_hfp_vol i vol =
     write_device i (\<lambda>d. sint vol \<noteq> uint (bv_hfp_vol (nb_vol d)))
       (\<lambda>d. d\<lparr>nb_vol := (nb_vol d)\<lparr>bv_hfp_vol := vol\<rparr>\<rparr>)"

end
