(* ===== verification/BtRecInv.thy ===== *)
theory BtRecInv
  imports BtRec
begin

text \<open>
  The store of paired phones keeps a list with the most recently used first: the refinement
  of the array code to the list operation of \<open>Mru\<close>, the interpretation of its
  interface, and the properties that rest on it.
\<close>

section \<open>Searching\<close>

declare find_addr.simps [simp del] sink_paired_from.simps [simp del]

abbreviation dev_addr :: "nvrec_btdevicerecord \<Rightarrow> bdaddr" where
  "dev_addr d \<equiv> dr_bdAddr (nb_record d)"

text \<open>The index of an address in a list.\<close>

fun index_of :: "bdaddr \<Rightarrow> nvrec_btdevicerecord list \<Rightarrow> nat option" where
  "index_of a [] = None"
| "index_of a (d # ds) = (if dev_addr d = a then Some 0 else map_option Suc (index_of a ds))"

lemma index_of_None: "index_of a ds = None \<longleftrightarrow> a \<notin> dev_addr ` set ds"
  by (induction ds) auto

lemma index_of_Some:
  "index_of a ds = Some i \<Longrightarrow> i < length ds \<and> dev_addr (ds ! i) = a \<and> List.find (\<lambda>d. dev_addr d = a) ds = Some (ds ! i)"
  by (induction ds arbitrary: i) (auto split: if_splits)

lemma find_addr_index:
  assumes "num \<le> length devs" and "i \<le> num"
  shows "find_addr devs num a i = Inr (map_option (\<lambda>j. j + i) (index_of a (drop i (take num devs))))"
  using assms
proof (induction devs num a i rule: find_addr.induct)
  case (1 devs num a i)
  show ?case
  proof (cases "i < num")
    case False
    with 1(3) show ?thesis by (simp add: find_addr.simps)
  next
    case in_range: True
    with 1(2) have len: "i < length devs" by simp
    have cons: "drop i (take num devs) = devs ! i # drop (Suc i) (take num devs)"
      using in_range len by (simp add: Cons_nth_drop_Suc [symmetric])
    show ?thesis
    proof (cases "dev_addr (devs ! i) = a")
      case True
      with in_range len cons show ?thesis by (simp add: find_addr.simps)
    next
      case False
      have IH: "find_addr devs num a (i + 1) =
          Inr (map_option (\<lambda>j. j + (i + 1)) (index_of a (drop (i + 1) (take num devs))))"
        using 1(1) [OF in_range len False 1(2)] in_range by simp
      show ?thesis
        using in_range len False IH
        by (subst find_addr.simps) (simp add: cons option.map_comp comp_def)
    qed
  qed
qed

section \<open>The invariant\<close>

definition info_list :: "bt_dev_info \<Rightarrow> nvrec_btdevicerecord list" where
  "info_list info = take (unat (pi_num info)) (pi_dev info)"

text \<open>The used records have distinct addresses; the unused ones are zero.\<close>

definition info_ok :: "bt_dev_info \<Rightarrow> bool" where
  "info_ok info \<longleftrightarrow> length (pi_dev info) = MAX_BT_PAIRED_DEVICE_COUNT \<and>
     unat (pi_num info) \<le> MAX_BT_PAIRED_DEVICE_COUNT \<and>
     distinct (map dev_addr (info_list info)) \<and>
     (\<forall>d \<in> set (drop (unat (pi_num info)) (pi_dev info)). d = zero_device)"

definition bt_inv :: "bt_nv \<Rightarrow> bool" where
  "bt_inv s \<longleftrightarrow> length (bn_cb s) = 4 \<and> (case bn_info s of None \<Rightarrow> False | Some info \<Rightarrow> info_ok info)"

definition bt_entries :: "bt_nv \<Rightarrow> nvrec_btdevicerecord list" where
  "bt_entries s = (case bn_info s of None \<Rightarrow> [] | Some info \<Rightarrow> info_list info)"

lemma info_list_length: "info_ok info \<Longrightarrow> length (info_list info) = unat (pi_num info)"
  by (simp add: info_ok_def info_list_def)

lemma info_ok_split:
  assumes "info_ok info"
  shows "pi_dev info = info_list info @ replicate (MAX_BT_PAIRED_DEVICE_COUNT - unat (pi_num info)) zero_device"
proof -
  have "drop (unat (pi_num info)) (pi_dev info) =
      replicate (length (drop (unat (pi_num info)) (pi_dev info))) zero_device"
    using assms by (intro replicate_eqI) (auto simp: info_ok_def)
  with assms show ?thesis
    unfolding info_list_def by (metis append_take_drop_id info_ok_def length_drop)
qed

text \<open>An info is determined by its list; this is the info of a list.\<close>

definition info_of :: "nvrec_btdevicerecord list \<Rightarrow> bt_dev_info" where
  "info_of es = \<lparr>pi_num = of_nat (length es), pi_dev = es @ replicate (MAX_BT_PAIRED_DEVICE_COUNT - length es) zero_device\<rparr>"

lemma unat_small8: "n \<le> MAX_BT_PAIRED_DEVICE_COUNT \<Longrightarrow> unat (of_nat n :: u32) = n"
  by (rule unat_of_nat32) (simp add: MAX_BT_PAIRED_DEVICE_COUNT_def)

lemma info_of_list: "length es \<le> MAX_BT_PAIRED_DEVICE_COUNT \<Longrightarrow> info_list (info_of es) = es"
  by (simp add: info_list_def info_of_def unat_small8)

lemma info_of_ok:
  "mru_ok dev_addr MAX_BT_PAIRED_DEVICE_COUNT es \<Longrightarrow> info_ok (info_of es)"
  by (auto simp: info_ok_def mru_ok_def info_of_list) (simp_all add: info_of_def unat_small8)

lemma info_eq:
  fixes info :: bt_dev_info
  assumes "info_ok info"
  shows "info = info_of (info_list info)" and "mru_ok dev_addr MAX_BT_PAIRED_DEVICE_COUNT (info_list info)"
proof -
  show "info = info_of (info_list info)"
    using info_ok_split [OF assms] info_list_length [OF assms] by (cases info) (simp add: info_of_def)
  show "mru_ok dev_addr MAX_BT_PAIRED_DEVICE_COUNT (info_list info)"
    using assms info_list_length [OF assms] by (simp add: mru_ok_def info_ok_def)
qed

lemma bt_inv_iff:
  "bt_inv s \<longleftrightarrow> length (bn_cb s) = 4 \<and> bn_info s = Some (info_of (bt_entries s)) \<and>
     mru_ok dev_addr MAX_BT_PAIRED_DEVICE_COUNT (bt_entries s)"
proof
  assume "bt_inv s"
  then obtain info where "length (bn_cb s) = 4" "bn_info s = Some info" "info_ok info"
    by (auto simp: bt_inv_def split: option.splits)
  then show "length (bn_cb s) = 4 \<and> bn_info s = Some (info_of (bt_entries s)) \<and>
     mru_ok dev_addr MAX_BT_PAIRED_DEVICE_COUNT (bt_entries s)"
    using info_eq [of info] by (simp add: bt_entries_def)
qed (auto simp: bt_inv_def info_of_ok)

lemma index_info:
  assumes "length es \<le> MAX_BT_PAIRED_DEVICE_COUNT"
  shows "find_addr (pi_dev (info_of es)) (unat (pi_num (info_of es))) a 0 = Inr (index_of a es)"
  using find_addr_index [of "length es" "pi_dev (info_of es)" 0 a] assms
  by (simp add: info_of_def unat_small8 option.map_ident)

section \<open>Adding\<close>

lemma call_paired_cb_frame [simp]:
  "bn_info (call_paired_cb cb a s) = bn_info s" "bn_update (call_paired_cb cb a s) = bn_update s"
  "bn_cb (call_paired_cb cb a s) = bn_cb s"
  "call_paired_cb cb a (s\<lparr>bn_info := x\<rparr>) = (call_paired_cb cb a s)\<lparr>bn_info := x\<rparr>"
  by (cases "(cb, a, s)" rule: call_paired_cb.cases; simp)+

lemma distribute_frame [simp]:
  "bn_info (nv_record_bt_distribute_new_dev_paired_event e a s) = bn_info s"
  "bn_update (nv_record_bt_distribute_new_dev_paired_event e a s) = bn_update s"
  "bn_cb (nv_record_bt_distribute_new_dev_paired_event e a s) = bn_cb s"
  "nv_record_bt_distribute_new_dev_paired_event e a (s\<lparr>bn_info := x\<rparr>) =
     (nv_record_bt_distribute_new_dev_paired_event e a s)\<lparr>bn_info := x\<rparr>"
  by (simp_all add: nv_record_bt_distribute_new_dev_paired_event_def Let_def)

text \<open>What is kept for a record that is added: what is known of the device, unless the record
  changed; a new device takes the codec of the one at the head.\<close>

definition bt_merge :: "bt_env \<Rightarrow> btif_device_record \<Rightarrow> nvrec_btdevicerecord list \<Rightarrow> nvrec_btdevicerecord" where
  "bt_merge e r es =
     (case List.find (\<lambda>d. dev_addr d = dr_bdAddr r) es of
        None \<Rightarrow> nv_record_pairing_info_reset e ((hd (es @ [zero_device]))\<lparr>nb_record := r\<rparr>)
      | Some d \<Rightarrow> if nb_record d = r then d else nv_record_pairing_info_reset e (d\<lparr>nb_record := r\<rparr>))"

definition announces :: "btif_device_record \<Rightarrow> nvrec_btdevicerecord list \<Rightarrow> bool" where
  "announces r es \<longleftrightarrow>
     (case List.find (\<lambda>d. dev_addr d = dr_bdAddr r) es of
        None \<Rightarrow> dr_linkKey r \<noteq> replicate 16 0
      | Some d \<Rightarrow> nb_record d \<noteq> r)"

definition bt_announced :: "bt_env \<Rightarrow> btif_device_record \<Rightarrow> bt_nv \<Rightarrow> bt_nv" where
  "bt_announced e r s =
     (if announces r (bt_entries s) then nv_record_bt_distribute_new_dev_paired_event e (dr_bdAddr r) s else s)"

abbreviation bt_added :: "bt_env \<Rightarrow> btif_device_record \<Rightarrow> nvrec_btdevicerecord list \<Rightarrow> nvrec_btdevicerecord list" where
  "bt_added e r es \<equiv> mru_add dev_addr (bt_merge e) MAX_BT_PAIRED_DEVICE_COUNT (dr_bdAddr r) r es"

lemma reset_record [simp]: "nb_record (nv_record_pairing_info_reset e d) = nb_record d"
  by (simp add: nv_record_pairing_info_reset_def Let_def)

lemma find_Some_key: "List.find P xs = Some x \<Longrightarrow> P x"
  by (induction xs) (auto split: if_splits)

lemma bt_merge_addr: "dev_addr (bt_merge e r es) = dr_bdAddr r"
  by (auto simp: bt_merge_def dest: find_Some_key split: option.splits)

lemma find_None_index: "index_of a es = None \<Longrightarrow> List.find (\<lambda>d. dev_addr d = a) es = None"
  by (auto simp: index_of_None find_None_iff)

lemma pi_num_max:
  assumes "length es \<le> MAX_BT_PAIRED_DEVICE_COUNT"
  shows "pi_num (info_of es) = of_nat MAX_BT_PAIRED_DEVICE_COUNT \<longleftrightarrow> length es = MAX_BT_PAIRED_DEVICE_COUNT"
proof
  assume "pi_num (info_of es) = of_nat MAX_BT_PAIRED_DEVICE_COUNT"
  then have "unat (pi_num (info_of es)) = unat (of_nat MAX_BT_PAIRED_DEVICE_COUNT :: u32)" by simp
  with assms show "length es = MAX_BT_PAIRED_DEVICE_COUNT"
    by (simp only: info_of_def bt_dev_info.simps unat_small8 order.refl)
qed (simp add: info_of_def)

lemma shift_in:
  assumes "length es < MAX_BT_PAIRED_DEVICE_COUNT"
  shows "shift_up (length es) (pi_dev (info_of es)) =
    Inr (hd (es @ [zero_device]) # es @ replicate (MAX_BT_PAIRED_DEVICE_COUNT - Suc (length es)) zero_device)"
proof -
  have "MAX_BT_PAIRED_DEVICE_COUNT - length es = Suc (MAX_BT_PAIRED_DEVICE_COUNT - Suc (length es))"
    using assms by simp
  then have dev: "pi_dev (info_of es) = es @ zero_device # replicate (MAX_BT_PAIRED_DEVICE_COUNT - Suc (length es)) zero_device"
    by (simp add: info_of_def)
  show ?thesis unfolding dev by (subst shift_up_eq) (cases es; simp)+
qed

lemma shift_full:
  assumes "length es = MAX_BT_PAIRED_DEVICE_COUNT"
  shows "shift_up (MAX_BT_PAIRED_DEVICE_COUNT - 1) (pi_dev (info_of es)) =
    Inr (hd (es @ [zero_device]) # take (MAX_BT_PAIRED_DEVICE_COUNT - 1) es)"
  using assms by (subst shift_up_eq) (cases es; simp add: info_of_def MAX_BT_PAIRED_DEVICE_COUNT_def)+

lemma add_new:
  assumes "mru_ok dev_addr MAX_BT_PAIRED_DEVICE_COUNT (bt_entries s)" and "index_of (dr_bdAddr r) (bt_entries s) = None"
  shows "ddbrec_add_new e r (info_of (bt_entries s)) s =
    Inr ((bt_announced e r s)\<lparr>bn_info := Some (info_of (bt_added e r (bt_entries s))), bn_update := True\<rparr>)"
proof -
  let ?es = "bt_entries s" and ?max = MAX_BT_PAIRED_DEVICE_COUNT
  let ?d = "nv_record_pairing_info_reset e ((hd (?es @ [zero_device]))\<lparr>nb_record := r\<rparr>)"
  have len: "length ?es \<le> ?max" using assms(1) by (simp add: mru_ok_def)
  have none: "List.find (\<lambda>d. dev_addr d = dr_bdAddr r) ?es = None" using assms(2) by (rule find_None_index)
  have merge: "bt_merge e r ?es = ?d" by (simp add: bt_merge_def none)
  have ann: "announces r ?es \<longleftrightarrow> dr_linkKey r \<noteq> replicate 16 0" by (simp add: announces_def none)
  have added: "bt_added e r ?es = take ?max (?d # ?es)"
    using assms(2) by (simp add: mru_add_def merge filter_key_absent index_of_None)
  show ?thesis
  proof (cases "length ?es = ?max")
    case True
    have "info_of (bt_added e r ?es) = \<lparr>pi_num = pi_num (info_of ?es) - 1 + 1, pi_dev = ?d # take (?max - 1) ?es\<rparr>"
    proof -
      have "bt_added e r ?es = ?d # take (?max - 1) ?es"
        unfolding added by (simp add: MAX_BT_PAIRED_DEVICE_COUNT_def)
      moreover from True have "length (?d # take (?max - 1) ?es) = ?max"
        by (simp add: MAX_BT_PAIRED_DEVICE_COUNT_def)
      ultimately show ?thesis using True by (simp add: info_of_def)
    qed
    then show ?thesis
      using True shift_full [OF True]
      by (simp add: ddbrec_add_new_def pi_num_max bt_announced_def ann Let_def)
  next
    case False
    with len have lt: "length ?es < ?max" by simp
    have num: "unat (pi_num (info_of ?es)) = length ?es" using len by (simp add: info_of_def unat_small8)
    have "info_of (bt_added e r ?es) =
        \<lparr>pi_num = pi_num (info_of ?es) + 1, pi_dev = ?d # ?es @ replicate (?max - Suc (length ?es)) zero_device\<rparr>"
      using lt by (simp add: added info_of_def)
    then show ?thesis
      using False len by (simp add: ddbrec_add_new_def pi_num_max num shift_in [OF lt] bt_announced_def ann Let_def)
  qed
qed

lemma dev_cons:
  "es \<noteq> [] \<Longrightarrow> pi_dev (info_of es) =
     es ! 0 # tl es @ replicate (MAX_BT_PAIRED_DEVICE_COUNT - length es) zero_device"
  by (cases es) (simp_all add: info_of_def)

lemma shift_known:
  assumes "length es \<le> MAX_BT_PAIRED_DEVICE_COUNT" and "i < length es"
  shows "shift_up i (pi_dev (info_of es)) =
    Inr (hd es # take i es @ drop (i + 1) es @ replicate (MAX_BT_PAIRED_DEVICE_COUNT - length es) zero_device)"
proof -
  let ?z = "replicate (MAX_BT_PAIRED_DEVICE_COUNT - length es) zero_device"
  have "take 1 (es @ ?z) = [hd es]" using assms(2) by (cases es) simp_all
  moreover have "take i (es @ ?z) = take i es" "drop (i + 1) (es @ ?z) = drop (i + 1) es @ ?z"
    using assms(2) by simp_all
  moreover have "i < length (es @ ?z)" using assms(2) by simp
  ultimately show ?thesis using shift_up_eq [of i "es @ ?z"] by (simp only: info_of_def bt_dev_info.simps) simp
qed

lemma add_known:
  assumes "mru_ok dev_addr MAX_BT_PAIRED_DEVICE_COUNT (bt_entries s)" and "bn_info s = Some (info_of (bt_entries s))"
    and "index_of (dr_bdAddr r) (bt_entries s) = Some i"
  shows "\<exists>upd. ddbrec_add_known e r i (info_of (bt_entries s)) s =
    Inr ((bt_announced e r s)\<lparr>bn_info := Some (info_of (bt_added e r (bt_entries s))), bn_update := upd\<rparr>)"
proof -
  let ?es = "bt_entries s" and ?max = MAX_BT_PAIRED_DEVICE_COUNT
  let ?z = "replicate (?max - length ?es) zero_device"
  have len: "length ?es \<le> ?max" using assms(1) by (simp add: mru_ok_def)
  have i: "i < length ?es" "dev_addr (?es ! i) = dr_bdAddr r"
    and found: "List.find (\<lambda>d. dev_addr d = dr_bdAddr r) ?es = Some (?es ! i)"
    using index_of_Some [OF assms(3)] by simp_all
  let ?d = "?es ! i"
  have ann: "announces r ?es \<longleftrightarrow> nb_record ?d \<noteq> r" by (simp add: announces_def found)
  have merge: "bt_merge e r ?es = (if nb_record ?d = r then ?d else nv_record_pairing_info_reset e (?d\<lparr>nb_record := r\<rparr>))"
    by (simp add: bt_merge_def found)
  have "filter (\<lambda>d. dev_addr d \<noteq> dr_bdAddr r) ?es = take i ?es @ drop (i + 1) ?es"
    using filter_key_remove [of dev_addr ?es i] assms(1) i by (simp add: mru_ok_def)
  then have added: "bt_added e r ?es = bt_merge e r ?es # take i ?es @ drop (i + 1) ?es"
    using i(1) len by (simp add: mru_add_def)
  have info: "info_of (bt_added e r ?es) =
      (info_of ?es)\<lparr>pi_dev := bt_merge e r ?es # take i ?es @ drop (i + 1) ?es @ ?z\<rparr>"
    using i(1) by (simp add: added info_of_def)
  have get: "get_at (pi_dev (info_of ?es)) i = Inr ?d"
    using i(1) len by (simp add: info_of_def nth_append)
  show ?thesis
  proof (cases "i = 0")
    case False
    have unchanged: "?d\<lparr>nb_record := r\<rparr> = ?d" if "nb_record ?d = r" using that by (cases ?d) auto
    show ?thesis
      using False unfolding info
      by (intro exI [of _ True])
        (simp add: ddbrec_add_known_def ddbrec_to_head_def get shift_known [OF len i(1)] merge bt_announced_def ann Let_def i(2)
          unchanged)
  next
    case True
    then have ne: "?es \<noteq> []" using i(1) by auto
    have dev: "pi_dev (info_of ?es) = ?d # tl ?es @ ?z" using dev_cons [OF ne] True by simp
    have d1: "drop (i + 1) ?es = tl ?es" "take i ?es = []" by (simp_all add: True drop_Suc)
    note defs = ddbrec_add_known_def ddbrec_to_head_def merge bt_announced_def ann Let_def i(2) [unfolded True] dev
    show ?thesis
    proof (cases "nb_record ?d = r")
      case same: True
      have "s\<lparr>bn_info := x, bn_update := bn_update s\<rparr> = s\<lparr>bn_info := x\<rparr>" for x by (cases s) simp
      with True same show ?thesis
        unfolding info d1 by (intro exI [of _ "bn_update s"]) (simp add: defs del: bindE_Inr_iff)
    next
      case False
      with True show ?thesis
        unfolding info d1 by (intro exI [of _ True]) (simp add: defs del: bindE_Inr_iff)
    qed
  qed
qed

lemma bt_announced_frame [simp]:
  "bn_info (bt_announced e r s) = bn_info s" "bn_cb (bt_announced e r s) = bn_cb s"
  by (simp_all add: bt_announced_def)

lemma bt_added_ok:
  "mru_ok dev_addr MAX_BT_PAIRED_DEVICE_COUNT es \<Longrightarrow> mru_ok dev_addr MAX_BT_PAIRED_DEVICE_COUNT (bt_added e r es)"
  by (rule mru_ok_add) (simp_all add: bt_merge_addr)

lemma ddbrec_add_spec:
  assumes "bt_inv s"
  shows "\<exists>upd. nv_record_ddbrec_add e (Some r) s = Inr (BT_STS_SUCCESS,
    (bt_announced e r s)\<lparr>bn_info := Some (info_of (bt_added e r (bt_entries s))), bn_update := upd\<rparr>)"
proof -
  from assms have inv: "bn_info s = Some (info_of (bt_entries s))"
    "mru_ok dev_addr MAX_BT_PAIRED_DEVICE_COUNT (bt_entries s)" by (simp_all add: bt_inv_iff)
  then have "nv_record_get_bt_pairing_info_index (dr_bdAddr r) s = Inr (index_of (dr_bdAddr r) (bt_entries s))"
    by (simp add: nv_record_get_bt_pairing_info_index_def index_info mru_ok_def)
  with inv show ?thesis
    using add_new [OF inv(2), of r e] add_known [OF inv(2,1), of r _ e]
    by (cases "index_of (dr_bdAddr r) (bt_entries s)")
      (auto simp: nv_record_ddbrec_add_def simp del: bindE_Inr_iff)
qed

lemma bt_inv_set:
  assumes "length (bn_cb s) = 4" and "mru_ok dev_addr MAX_BT_PAIRED_DEVICE_COUNT es" and "bn_info s = Some (info_of es)"
  shows "bt_inv s" and "bt_entries s = es"
  using assms by (simp_all add: bt_inv_def info_of_ok bt_entries_def info_of_list mru_ok_def)

section \<open>Deleting\<close>

lemma set_at_append: "set_at (xs @ y # zs) (length xs) x = Inr (xs @ x # zs)"
  by (simp add: set_at_def)

lemma delete_shift:
  assumes "length es \<le> MAX_BT_PAIRED_DEVICE_COUNT" and "i < length es"
  shows "\<exists>devs. shift_down i (length es - i - 1) (pi_dev (info_of es)) = Inr devs \<and>
           set_at devs (length es - 1) zero_device = Inr (pi_dev (info_of (take i es @ drop (i + 1) es)))"
proof -
  let ?z = "replicate (MAX_BT_PAIRED_DEVICE_COUNT - length es) zero_device"
  let ?ds = "take i es @ drop (i + 1) es"
  have lds: "length ?ds = length es - 1" using assms(2) by simp
  have "drop (length es - 1) es = [last es]"
    using assms(2) by (metis append_butlast_last_id append_eq_conv_conj length_butlast list.size(3) not_less0)
  then have "shift_down i (length es - i - 1) (es @ ?z) = Inr (?ds @ last es # ?z)"
    using assms by (subst shift_down_eq) (simp_all add: take_append)
  moreover have "set_at (?ds @ last es # ?z) (length es - 1) zero_device = Inr (?ds @ zero_device # ?z)"
    unfolding lds [symmetric] by (rule set_at_append)
  moreover have "zero_device # ?z = replicate (MAX_BT_PAIRED_DEVICE_COUNT - length ?ds) zero_device"
    using assms unfolding lds by (simp add: replicate_Suc [symmetric] Suc_diff_le del: replicate_Suc)
  ultimately show ?thesis by (simp add: info_of_def)
qed

lemma ddbrec_delete_spec:
  assumes "bt_inv s"
  shows "\<exists>st s'. nv_record_ddbrec_delete a s = Inr (st, s') \<and> bt_inv s' \<and>
           bt_entries s' = mru_del dev_addr a (bt_entries s) \<and>
           (st = BT_STS_SUCCESS \<longleftrightarrow> a \<in> dev_addr ` set (bt_entries s))"
proof -
  let ?es = "bt_entries s"
  from assms have inv: "bn_info s = Some (info_of ?es)" "mru_ok dev_addr MAX_BT_PAIRED_DEVICE_COUNT ?es"
    "length (bn_cb s) = 4" by (simp_all add: bt_inv_iff)
  then have len: "length ?es \<le> MAX_BT_PAIRED_DEVICE_COUNT" by (simp add: mru_ok_def)
  then have idx: "nv_record_get_bt_pairing_info_index a s = Inr (index_of a ?es)"
    by (simp add: nv_record_get_bt_pairing_info_index_def inv(1) index_info)
  show ?thesis
  proof (cases "index_of a ?es")
    case None
    then have "a \<notin> dev_addr ` set ?es" by (simp add: index_of_None)
    with None idx inv assms show ?thesis
      by (simp add: nv_record_ddbrec_delete_def mru_del_def filter_key_absent)
  next
    case (Some i)
    then have i: "i < length ?es" "dev_addr (?es ! i) = a" using index_of_Some by simp_all
    let ?ds = "take i ?es @ drop (i + 1) ?es"
    have del: "mru_del dev_addr a ?es = ?ds"
      using filter_key_remove [of dev_addr ?es i a] inv(2) i by (simp add: mru_del_def mru_ok_def)
    have ok: "mru_ok dev_addr MAX_BT_PAIRED_DEVICE_COUNT ?ds"
      using mru_ok_filter [OF inv(2)] unfolding del [symmetric] mru_del_def .
    have num: "unat (pi_num (info_of ?es)) = length ?es" using len by (simp add: info_of_def unat_small8)
    have "pi_num (info_of ?es) - 1 = pi_num (info_of ?ds)" using i(1) by (simp add: info_of_def of_nat_diff)
    then have info: "\<lparr>pi_num = pi_num (info_of ?es) - 1, pi_dev = pi_dev (info_of ?ds)\<rparr> = info_of ?ds" by simp
    let ?s = "s\<lparr>bn_info := Some (info_of ?ds), bn_update := True\<rparr>"
    obtain devs where "shift_down i (length ?es - i - 1) (pi_dev (info_of ?es)) = Inr devs"
      "set_at devs (length ?es - 1) zero_device = Inr (pi_dev (info_of ?ds))"
      using delete_shift [OF len i(1)] by blast
    then have "nv_record_ddbrec_delete a s = Inr (BT_STS_SUCCESS, ?s)"
      by (simp only: nv_record_ddbrec_delete_def inv(1) idx Some num option.case bindE.simps info)
    moreover have "a \<in> dev_addr ` set ?es" using i by auto
    moreover have "bt_inv ?s" "bt_entries ?s = ?ds" using bt_inv_set [of ?s ?ds] ok inv(3) by simp_all
    ultimately show ?thesis unfolding del by blast
  qed
qed

lemma ddbrec_find_spec:
  assumes "bt_inv s"
  shows "nv_record_ddbrec_find a s = Inr (case List.find (\<lambda>d. dev_addr d = a) (bt_entries s) of
    None \<Rightarrow> (BT_STS_FAILED, None) | Some d \<Rightarrow> (BT_STS_SUCCESS, Some (nb_record d)))"
proof -
  let ?es = "bt_entries s"
  from assms have inv: "bn_info s = Some (info_of ?es)" and len: "length ?es \<le> MAX_BT_PAIRED_DEVICE_COUNT"
    by (simp_all add: bt_inv_iff mru_ok_def)
  then have idx: "nv_record_get_bt_pairing_info_index a s = Inr (index_of a ?es)"
    by (simp add: nv_record_get_bt_pairing_info_index_def index_info)
  show ?thesis
  proof (cases "index_of a ?es")
    case None
    then show ?thesis using find_None_index [OF None] by (simp add: nv_record_ddbrec_find_def inv idx)
  next
    case (Some i)
    then have i: "i < length ?es" "List.find (\<lambda>d. dev_addr d = a) ?es = Some (?es ! i)" using index_of_Some by simp_all
    then have "get_at (pi_dev (info_of ?es)) i = Inr (?es ! i)" using len by (simp add: info_of_def nth_append)
    then show ?thesis by (simp add: nv_record_ddbrec_find_def inv idx Some i(2))
  qed
qed

section \<open>The interface\<close>

definition bt_add :: "bt_env \<Rightarrow> btif_device_record \<Rightarrow> bt_nv \<Rightarrow> bt_nv res" where
  "bt_add e r s = bindE (nv_record_add e section_usrdata_ddbrecord (Some r) s) (\<lambda>(st, s1). Inr s1)"

definition bt_del :: "bdaddr \<Rightarrow> bt_nv \<Rightarrow> bt_nv res" where
  "bt_del a s = bindE (nv_record_ddbrec_delete a s) (\<lambda>(st, s1). Inr s1)"

lemma bt_add_spec:
  assumes "bt_inv s"
  shows "\<exists>s'. bt_add e r s = Inr s' \<and> bt_inv s' \<and> bt_entries s' = bt_added e r (bt_entries s) \<and>
    bn_told s' = bn_told (bt_announced e r s) \<and> bn_latest s' = bn_latest (bt_announced e r s)"
proof -
  obtain upd where add: "nv_record_ddbrec_add e (Some r) s = Inr (BT_STS_SUCCESS,
    (bt_announced e r s)\<lparr>bn_info := Some (info_of (bt_added e r (bt_entries s))), bn_update := upd\<rparr>)"
    using ddbrec_add_spec [OF assms] by blast
  let ?s = "(bt_announced e r s)\<lparr>bn_info := Some (info_of (bt_added e r (bt_entries s))), bn_update := upd\<rparr>"
  have "mru_ok dev_addr MAX_BT_PAIRED_DEVICE_COUNT (bt_added e r (bt_entries s))" "length (bn_cb s) = 4"
    using assms bt_added_ok by (simp_all add: bt_inv_iff)
  then have "bt_inv ?s" "bt_entries ?s = bt_added e r (bt_entries s)"
    using bt_inv_set [of ?s "bt_added e r (bt_entries s)"] by simp_all
  moreover have "bt_add e r s = Inr ?s" by (simp add: bt_add_def nv_record_add_def add del: bindE_Inr_iff)
  ultimately show ?thesis by simp
qed

interpretation bt: mru_store bt_inv bt_entries dev_addr dr_bdAddr "\<lambda>r. True" "bt_merge e"
  MAX_BT_PAIRED_DEVICE_COUNT "bt_add e" bt_del for e
proof
  fix s a assume "bt_inv s"
  from ddbrec_delete_spec [OF this, of a] show "\<exists>s'. bt_del a s = Inr s' \<and> bt_inv s' \<and> bt_entries s' = mru_del dev_addr a (bt_entries s)"
    by (auto simp: bt_del_def simp del: bindE_Inr_iff)
next
  fix s r assume "bt_inv s"
  from bt_add_spec [OF this, of e r] show "\<exists>s'. bt_add e r s = Inr s' \<and> bt_inv s' \<and> bt_entries s' = bt_added e r (bt_entries s)"
    by blast
qed (simp_all add: bt_inv_iff bt_merge_addr MAX_BT_PAIRED_DEVICE_COUNT_def)

section \<open>Properties\<close>

definition bt_env_example :: bt_env where
  "bt_env_example = \<lparr>be_dac_volume = 10, be_bt_vol = (\<lambda>v. v * 8), be_is_tws = (\<lambda>a. a = replicate 6 1)\<rparr>"

definition bt_record_example :: "u8 \<Rightarrow> btif_device_record" where
  "bt_record_example n =
     \<lparr>dr_bdAddr = replicate 6 n, dr_trusted = True, dr_for_bt_source = False, dr_linkKey = replicate 16 n,
      dr_keyType = 4, dr_pinLen = 0, dr_cod = replicate 3 0, dr_name = replicate 32 0\<rparr>"

definition bt_empty_example :: bt_nv where
  "bt_empty_example = nvrecord_bt_init
     \<lparr>bn_info = Some (info_of []), bn_update = False, bn_cb = replicate 4 None, bn_latest = [], bn_told = []\<rparr>"

lemma bt_empty_inv: "bt_inv bt_empty_example"
  by (simp add: bt_empty_example_def nvrecord_bt_init_def bt_inv_def info_of_ok mru_ok_def)

text \<open>C16: any sequence of additions and deletions runs without a fault, keeps the addresses distinct and
  at most eight, and leaves exactly the list that putting each added record at the head (with
  what is known of the device merged in, the ninth dropped) and removing each deleted address gives.\<close>

theorem bt_records_session:
  assumes "bt_inv s"
  shows "\<exists>s'. foldM (mru_run (bt_add e) bt_del) ops s = Inr s' \<and> bt_inv s' \<and>
    distinct (map dev_addr (bt_entries s')) \<and> length (bt_entries s') \<le> 8 \<and>
    bt_entries s' = fold (mru_spec dev_addr (bt_merge e) MAX_BT_PAIRED_DEVICE_COUNT dr_bdAddr) ops (bt_entries s)"
proof -
  have "list_all (bt.good_op :: (btif_device_record, bdaddr) mru_op \<Rightarrow> bool) ops"
    by (simp add: list_all_iff) (metis bt.good_op.simps mru_op.exhaust)
  from bt.session [OF assms this] show ?thesis
    by (auto simp: mru_ok_def MAX_BT_PAIRED_DEVICE_COUNT_def)
qed

theorem bt_records_session_witness:
  "\<exists>s'. foldM (mru_run (bt_add bt_env_example) bt_del)
          [Add (bt_record_example 1), Add (bt_record_example 2), Del (replicate 6 1)] bt_empty_example = Inr s' \<and>
     map dev_addr (bt_entries s') = [replicate 6 2]"
proof -
  have "map dev_addr (fold (mru_spec dev_addr (bt_merge bt_env_example) MAX_BT_PAIRED_DEVICE_COUNT dr_bdAddr)
    [Add (bt_record_example 1), Add (bt_record_example 2), Del (replicate 6 1)] (bt_entries bt_empty_example)) =
    [replicate 6 2]" by code_simp
  with bt_records_session [OF bt_empty_inv, of bt_env_example
    "[Add (bt_record_example 1), Add (bt_record_example 2), Del (replicate 6 1)]"] show ?thesis by fastforce
qed

text \<open>a phone that was paired is found until eight others were.\<close>

theorem bt_device_remembered:
  assumes "bt_inv s" and "dr_bdAddr r \<notin> dr_bdAddr ` set rs" and "card (dr_bdAddr ` set rs) < 8"
  shows "\<exists>s' d. foldM (bt_add e) (r # rs) s = Inr s' \<and>
    nv_record_ddbrec_find (dr_bdAddr r) s' = Inr (BT_STS_SUCCESS, Some d) \<and> dr_bdAddr d = dr_bdAddr r"
proof -
  from bt.remembered [OF assms(1) _ _ assms(2), of e] assms(3) obtain s' where
    s': "foldM (bt_add e) (r # rs) s = Inr s'" "dr_bdAddr r \<in> dev_addr ` set (bt_entries s')" and inv: "bt_inv s'"
    by (auto simp: MAX_BT_PAIRED_DEVICE_COUNT_def list_all_iff)
  from s'(2) obtain d where d: "List.find (\<lambda>d. dev_addr d = dr_bdAddr r) (bt_entries s') = Some d"
    by (cases "List.find (\<lambda>d. dev_addr d = dr_bdAddr r) (bt_entries s')") (auto simp: find_None_iff)
  then have "nv_record_ddbrec_find (dr_bdAddr r) s' = Inr (BT_STS_SUCCESS, Some (nb_record d))"
    using ddbrec_find_spec [OF inv, of "dr_bdAddr r"] by simp
  with find_Some_key [OF d] s'(1) show ?thesis by blast
qed

theorem bt_device_remembered_witness:
  "\<exists>s' d. foldM (bt_add bt_env_example) (map bt_record_example [1, 2, 3, 4, 5, 6, 7, 8]) bt_empty_example = Inr s' \<and>
     nv_record_ddbrec_find (replicate 6 1) s' = Inr (BT_STS_SUCCESS, Some d) \<and> dr_bdAddr d = replicate 6 1"
proof -
  have "dr_bdAddr (bt_record_example 1) \<notin> dr_bdAddr ` set (map bt_record_example [2, 3, 4, 5, 6, 7, 8])"
    by code_simp
  moreover have "card (dr_bdAddr ` set (map bt_record_example [2, 3, 4, 5, 6, 7, 8])) < 8"
    unfolding set_map [symmetric] by (rule le_less_trans [OF card_length]) simp
  ultimately show ?thesis
    using bt_device_remembered [OF bt_empty_inv, of "bt_record_example 1" "map bt_record_example [2, 3, 4, 5, 6, 7, 8]"
      bt_env_example] by (simp add: bt_record_example_def)
qed

text \<open>What a callback slot records.\<close>

definition heard :: "NEW_DEVICE_CB \<Rightarrow> bdaddr \<Rightarrow> bt_nv \<Rightarrow> (nat \<times> bdaddr) list" where
  "heard slot a s = (case bn_cb s ! cb_index slot of Some (Client_Callback n) \<Rightarrow> [(n, a)] | _ \<Rightarrow> [])"

lemma call_told: "bn_told (call_paired_cb cb a s) =
    bn_told s @ (case cb of Some (Client_Callback n) \<Rightarrow> [(n, a)] | _ \<Rightarrow> [])"
  by (cases "(cb, a, s)" rule: call_paired_cb.cases) simp_all

text \<open>the clients are told of a device when it is new and has a link key, or when its record
  changed, each registered one once, the client for the other earbud or the one for phones as the
  address says; otherwise no client is called.\<close>

theorem bt_paired_notifies:
  assumes "bt_inv s"
  shows "\<exists>s'. nv_record_add e section_usrdata_ddbrecord (Some r) s = Inr (BT_STS_SUCCESS, s') \<and>
    bn_told s' = bn_told s @
      (if (case List.find (\<lambda>d. dev_addr d = dr_bdAddr r) (bt_entries s) of
             None \<Rightarrow> dr_linkKey r \<noteq> replicate 16 0 | Some d \<Rightarrow> nb_record d \<noteq> r)
       then heard NEW_DEVICE_CB_ANY_DEVICE (dr_bdAddr r) s @ heard NEW_DEVICE_CB_USER1 (dr_bdAddr r) s @
         heard (if be_is_tws e (dr_bdAddr r) then NEW_DEVICE_CB_TWS else NEW_DEVICE_CB_MOBILE) (dr_bdAddr r) s
       else [])"
proof -
  obtain upd where add: "nv_record_ddbrec_add e (Some r) s = Inr (BT_STS_SUCCESS,
    (bt_announced e r s)\<lparr>bn_info := Some (info_of (bt_added e r (bt_entries s))), bn_update := upd\<rparr>)"
    using ddbrec_add_spec [OF assms] by blast
  show ?thesis unfolding announces_def [symmetric]
    by (simp add: nv_record_add_def add bt_announced_def nv_record_bt_distribute_new_dev_paired_event_def
        Let_def call_told heard_def del: cb_index.simps)
qed

theorem bt_paired_notifies_witness:
  "\<exists>s'. nv_record_add bt_env_example section_usrdata_ddbrecord (Some (bt_record_example 3))
      (nv_record_bt_device_register_newly_paired_device_callback NEW_DEVICE_CB_MOBILE (Some (Client_Callback 7))
         bt_empty_example) = Inr (BT_STS_SUCCESS, s') \<and> bn_told s' = [(7, replicate 6 3)]"
proof -
  let ?s = "nv_record_bt_device_register_newly_paired_device_callback NEW_DEVICE_CB_MOBILE (Some (Client_Callback 7))
         bt_empty_example"
  have "bt_inv ?s" using bt_empty_inv
    by (simp add: bt_inv_def nv_record_bt_device_register_newly_paired_device_callback_def split: option.splits)
  moreover have "bt_entries ?s = []" "bn_told ?s = []" by code_simp+
  moreover have "heard NEW_DEVICE_CB_ANY_DEVICE (replicate 6 3) ?s = []" "heard NEW_DEVICE_CB_USER1 (replicate 6 3) ?s = []"
    "heard NEW_DEVICE_CB_MOBILE (replicate 6 3) ?s = [(7, replicate 6 3)]"
    "\<not> be_is_tws bt_env_example (replicate 6 3)" "dr_linkKey (bt_record_example 3) \<noteq> replicate 16 0" by code_simp+
  ultimately show ?thesis
    using bt_paired_notifies [of ?s bt_env_example "bt_record_example 3"] by (simp add: bt_record_example_def)
qed

section \<open>Flushing\<close>

text \<open>Every operation that changes the store.\<close>

datatype bt_op =
    Bt_Add "btif_device_record option" | Bt_Delete bdaddr | Bt_Clear
  | Bt_A2dp_Vol nat u8 | Bt_Hfp_Vol nat u8 | Bt_Abs_Vol nat u8
  | Bt_A2dp_Act nat bool | Bt_Hfp_Act nat bool | Bt_Codec nat u8

fun bt_step :: "bt_env \<Rightarrow> bt_op \<Rightarrow> bt_nv \<Rightarrow> bt_nv res" where
  "bt_step e (Bt_Add r) s = bindE (nv_record_add e section_usrdata_ddbrecord r s) (\<lambda>(st, s1). Inr s1)"
| "bt_step e (Bt_Delete a) s = bindE (nv_record_ddbrec_delete a s) (\<lambda>(st, s1). Inr s1)"
| "bt_step e Bt_Clear s = bindE (nv_record_ddbrec_clear_all_bt_paired_list s) (\<lambda>(st, s1). Inr s1)"
| "bt_step e (Bt_A2dp_Vol i v) s = nv_record_btdevicerecord_set_a2dp_vol i v s"
| "bt_step e (Bt_Hfp_Vol i v) s = nv_record_btdevicerecord_set_hfp_vol i v s"
| "bt_step e (Bt_Abs_Vol i v) s = nv_record_btdevicerecord_set_a2dp_abs_vol i v s"
| "bt_step e (Bt_A2dp_Act i b) s = nv_record_btdevicerecord_set_a2dp_profile_active_state i b s"
| "bt_step e (Bt_Hfp_Act i b) s = nv_record_btdevicerecord_set_hfp_profile_active_state i b s"
| "bt_step e (Bt_Codec i c) s = nv_record_btdevicerecord_set_a2dp_profile_codec i c s"

definition flagged :: "bt_nv \<Rightarrow> bt_nv \<Rightarrow> bool" where
  "flagged s s' \<longleftrightarrow> bn_update s' \<or> bn_info s' = bn_info s \<and> bn_update s' = bn_update s"

lemma write_device_flagged: "write_device i differs f s = Inr s' \<Longrightarrow> flagged s s'"
  by (auto simp: write_device_def flagged_def split: option.splits if_splits)

lemma add_new_flagged: "ddbrec_add_new e r info s = Inr s' \<Longrightarrow> bn_update s'"
  by (auto simp: ddbrec_add_new_def Let_def)

lemma to_head_unflagged:
  "ddbrec_to_head r i d devs = Inr (devs', False) \<Longrightarrow>
   devs' = devs \<and> i = 0 \<and> (\<exists>d0. get_at devs 0 = Inr d0 \<and> nb_record d0 = r)"
  by (auto simp: ddbrec_to_head_def split: if_splits)

lemma add_known_flagged:
  assumes info: "bn_info s = Some info" and run: "ddbrec_add_known e r i info s = Inr s'"
  shows "flagged s s'"
proof -
  from run obtain d devs upd devs1 where get: "get_at (pi_dev info) i = Inr d"
    and head: "ddbrec_to_head r i d (pi_dev info) = Inr (devs, upd)"
    and rest: "(if nb_record d \<noteq> r then bindE (get_at devs 0) (\<lambda>d0. set_at devs 0 (nv_record_pairing_info_reset e d0))
      else Inr devs) = Inr devs1"
    and s': "s' = (let s1 = (if nb_record d \<noteq> r
        then nv_record_bt_distribute_new_dev_paired_event e (dr_bdAddr (nb_record d)) s else s);
        s2 = s1\<lparr>bn_info := Some (info\<lparr>pi_dev := devs1\<rparr>)\<rparr> in if upd then s2\<lparr>bn_update := True\<rparr> else s2)"
    by (auto simp: ddbrec_add_known_def Let_def)
  show ?thesis
  proof (cases upd)
    case True
    then show ?thesis by (simp add: s' Let_def flagged_def)
  next
    case False
    with to_head_unflagged [of r i d "pi_dev info" devs] head get
    have "devs = pi_dev info" "nb_record d = r" by auto
    with rest False info show ?thesis by (simp add: s' Let_def flagged_def)
  qed
qed

lemma add_flagged:
  assumes "nv_record_ddbrec_add e r s = Inr (st, s')"
  shows "flagged s s'"
proof (cases r)
  case None
  with assms show ?thesis by (simp add: nv_record_ddbrec_add_def flagged_def)
next
  case (Some r1)
  show ?thesis
  proof (cases "bn_info s")
    case None
    with Some assms show ?thesis by (simp add: nv_record_ddbrec_add_def flagged_def)
  next
    case info: (Some info)
    with Some assms obtain idx where "nv_record_get_bt_pairing_info_index (dr_bdAddr r1) s = Inr idx"
      "(case idx of None \<Rightarrow> ddbrec_add_new e r1 info s | Some i \<Rightarrow> ddbrec_add_known e r1 i info s) = Inr s'"
      by (auto simp: nv_record_ddbrec_add_def)
    then show ?thesis
      using add_new_flagged [of e r1 info s s'] add_known_flagged [OF info, of e r1 _ s']
      by (cases idx) (simp_all add: flagged_def)
  qed
qed

lemma delete_flagged:
  assumes "nv_record_ddbrec_delete a s = Inr (st, s')"
  shows "flagged s s'"
proof (cases "bn_info s")
  case None
  with assms show ?thesis by (simp add: nv_record_ddbrec_delete_def flagged_def)
next
  case (Some info)
  with assms obtain idx where "nv_record_get_bt_pairing_info_index a s = Inr idx"
    by (auto simp: nv_record_ddbrec_delete_def)
  with Some assms show ?thesis
    by (cases idx) (auto simp: nv_record_ddbrec_delete_def flagged_def)
qed

lemma clear_flagged: "nv_record_ddbrec_clear_all_bt_paired_list s = Inr (st, s') \<Longrightarrow> flagged s s'"
  by (cases "bn_info s") (auto simp: nv_record_ddbrec_clear_all_bt_paired_list_def flagged_def)

lemma bt_step_flagged:
  assumes "bt_step e x s = Inr s'"
  shows "flagged s s'"
proof -
  note setters = nv_record_btdevicerecord_set_a2dp_vol_def nv_record_btdevicerecord_set_hfp_vol_def
    nv_record_btdevicerecord_set_a2dp_abs_vol_def nv_record_btdevicerecord_set_a2dp_profile_active_state_def
    nv_record_btdevicerecord_set_hfp_profile_active_state_def nv_record_btdevicerecord_set_a2dp_profile_codec_def
  consider r where "x = Bt_Add r" | a where "x = Bt_Delete a" | "x = Bt_Clear"
    | i d f where "bt_step e x s = write_device i d f s"
    by (cases x) (auto simp: setters)
  then show ?thesis
  proof cases
    case (1 r)
    with assms show ?thesis
      by (cases r) (auto simp: nv_record_add_def flagged_def dest: add_flagged [unfolded flagged_def])
  next
    case 4
    with assms show ?thesis using write_device_flagged by metis
  qed (use assms delete_flagged clear_flagged in auto)
qed

text \<open>the flag that asks for a flush is set whenever the stored image differs from the one at
  the last flush, whatever operations ran since.\<close>

theorem bt_flush_requested:
  assumes "foldM (bt_step e) ops s = Inr s'" and "bn_info s' \<noteq> bn_info s"
  shows "bn_update s'"
proof -
  have "flagged s s'" using assms(1)
  proof (induction ops arbitrary: s)
    case (Cons x ops)
    then obtain t where "bt_step e x s = Inr t" "foldM (bt_step e) ops t = Inr s'" by auto
    with bt_step_flagged [of e x s t] Cons.IH [of t] show ?case by (auto simp: flagged_def)
  qed (simp add: flagged_def)
  with assms(2) show ?thesis by (simp add: flagged_def)
qed

theorem bt_flush_requested_witness:
  "\<exists>s'. foldM (bt_step bt_env_example) [Bt_Add (Some (bt_record_example 1))] bt_empty_example = Inr s' \<and> bn_update s'"
proof -
  obtain s' where s': "foldM (bt_step bt_env_example) [Bt_Add (Some (bt_record_example 1))] bt_empty_example = Inr s'"
    and inv: "bt_inv s'" and es: "bt_entries s' = bt_added bt_env_example (bt_record_example 1) []"
    using bt_add_spec [OF bt_empty_inv, of bt_env_example "bt_record_example 1"]
    by (auto simp: bt_add_def bt_empty_example_def nvrecord_bt_init_def bt_entries_def info_of_list)
  have "bt_entries s' \<noteq> bt_entries bt_empty_example"
    unfolding es by (simp add: bt_entries_def bt_empty_example_def nvrecord_bt_init_def info_of_list mru_add_def
        MAX_BT_PAIRED_DEVICE_COUNT_def)
  then have "bn_info s' \<noteq> bn_info bt_empty_example" by (auto simp: bt_entries_def)
  from bt_flush_requested [OF s' this] s' show ?thesis by blast
qed

text \<open>The default values of a new device leave out the codec: it is the one of the device last used.\<close>

lemma bt_new_device_inherits_codec:
  assumes "List.find (\<lambda>d. dev_addr d = dr_bdAddr r) (d # ds) = None"
  shows "bp_a2dp_codectype (nb_plf (bt_merge e r (d # ds))) = bp_a2dp_codectype (nb_plf d)"
  using assms by (simp add: bt_merge_def nv_record_pairing_info_reset_def Let_def)

end
