(* ===== verification/HwTimer.thy ===== *)
theory HwTimer
  imports Prelude "HOL-Library.Numeral_Type"
begin

text \<open>
  The software timers of \<open>utils/hwtimer_list/hwtimer_list.c\<close> over one hardware timer of
  \<open>platform/hal/hal_timer.c\<close>: fifteen timers linked through their \<open>next\<close> pointers
  into a free list, a list of fired timers and a list of active ones, each of which holds the
  time after the one before it. A pointer into the array is an index of type \<open>15\<close>; the
  client's handle is \<open>None\<close> when it points elsewhere. The counter register and the time since
  it was loaded are the hardware's: the first is a field that \<open>hal_timer_start\<close> loads and
  time counts down, the second an argument.
\<close>

type_synonym timer_id = 15

definition HWTIMER_NUM :: nat where
  "HWTIMER_NUM = 15"

definition HAL_TIMER_LOAD_DELTA :: u32 where
  "HAL_TIMER_LOAD_DELTA = 1"

datatype hwtimer_state =
    HWTIMER_STATE_FREE | HWTIMER_STATE_ALLOC | HWTIMER_STATE_ACTIVE | HWTIMER_STATE_FIRED
  | HWTIMER_STATE_CALLBACK

datatype hwtimer_ret =
    E_HWTIMER_OK | E_HWTIMER_FAILED | E_HWTIMER_INVAL_ID | E_HWTIMER_INVAL_ST
  | E_HWTIMER_IN_CALLBACK | E_HWTIMER_NOT_FOUND

text \<open>A callback is named by a number; \<open>None\<close> is the null pointer.\<close>

record hwtimer =
  ht_state :: hwtimer_state
  ht_next :: "timer_id option"
  ht_time :: u32
  ht_callback :: "nat option"
  ht_param :: u32

record hwtimers =
  hl_timer :: "timer_id \<Rightarrow> hwtimer"
  hl_free :: "timer_id option"
  hl_active :: "timer_id option"
  hl_fired :: "timer_id option"
  hl_inited :: bool
  hl_err_null :: u32
  hl_err_early :: u32
  hl_enabled :: bool
  hl_value :: u32
  hl_calls :: "(nat \<times> u32) list"

definition tset :: "timer_id \<Rightarrow> (hwtimer \<Rightarrow> hwtimer) \<Rightarrow> hwtimers \<Rightarrow> hwtimers" where
  "tset i f s = s\<lparr>hl_timer := (hl_timer s)(i := f (hl_timer s i))\<rparr>"

section \<open>The hardware timer\<close>

definition hal_timer_start :: "u32 \<Rightarrow> hwtimers \<Rightarrow> hwtimers" where
  "hal_timer_start load s =
     s\<lparr>hl_enabled := True,
       hl_value := (if load > HAL_TIMER_LOAD_DELTA then load - HAL_TIMER_LOAD_DELTA else HAL_TIMER_LOAD_DELTA)\<rparr>"

definition hal_timer_stop :: "hwtimers \<Rightarrow> hwtimers" where
  "hal_timer_stop s = s\<lparr>hl_enabled := False\<rparr>"

section \<open>Setting up, allocating and freeing\<close>

definition hwtimer_init :: "hwtimers \<Rightarrow> hwtimers" where
  "hwtimer_init s =
     (if hl_inited s then s
      else
        let s1 = fold (\<lambda>i. tset (of_nat i) (\<lambda>t. t\<lparr>ht_state := HWTIMER_STATE_FREE, ht_next := Some (of_nat (i + 1))\<rparr>))
                   [0..<HWTIMER_NUM - 1] (s\<lparr>hl_inited := True\<rparr>);
            s2 = tset (of_nat (HWTIMER_NUM - 1)) (\<lambda>t. t\<lparr>ht_next := None\<rparr>) s1 in
        s2\<lparr>hl_free := Some 0, hl_active := None, hl_fired := None, hl_enabled := False\<rparr>)"

definition hwtimer_alloc :: "nat option \<Rightarrow> u32 \<Rightarrow> hwtimers \<Rightarrow> (timer_id option \<times> hwtimers) res" where
  "hwtimer_alloc callback param s =
     (case hl_free s of
        None \<Rightarrow> Inr (None, s)
      | Some t \<Rightarrow>
          let s1 = s\<lparr>hl_free := ht_next (hl_timer s t)\<rparr> in
          c_assert (ht_state (hl_timer s1 t) = HWTIMER_STATE_FREE)
            (Inr (Some t, tset t (\<lambda>x. x\<lparr>ht_state := HWTIMER_STATE_ALLOC, ht_callback := callback,
                                       ht_param := param, ht_next := None\<rparr>) s1)))"

definition hwtimer_free :: "timer_id option \<Rightarrow> hwtimers \<Rightarrow> hwtimer_ret \<times> hwtimers" where
  "hwtimer_free h s =
     (case h of
        None \<Rightarrow> (E_HWTIMER_INVAL_ID, s)
      | Some t \<Rightarrow>
          if ht_state (hl_timer s t) \<noteq> HWTIMER_STATE_ALLOC then (E_HWTIMER_INVAL_ST, s)
          else (E_HWTIMER_OK,
                (tset t (\<lambda>x. x\<lparr>ht_state := HWTIMER_STATE_FREE, ht_next := hl_free s\<rparr>) s)\<lparr>hl_free := Some t\<rparr>))"

section \<open>Starting\<close>

text \<open>The walk to the place of a new timer; \<open>n\<close> bounds the length of the list.\<close>

fun start_walk ::
  "nat \<Rightarrow> hwtimers \<Rightarrow> timer_id \<Rightarrow> timer_id option \<Rightarrow> u32 \<Rightarrow> (timer_id \<times> timer_id option \<times> u32) res" where
  "start_walk 0 s pre nxt ticks = Inl No_Return"
| "start_walk (Suc n) s pre nxt ticks =
     (case nxt of
        None \<Rightarrow> Inr (pre, None, ticks)
      | Some x \<Rightarrow>
          if ht_time (hl_timer s x) < ticks
          then start_walk n s x (ht_next (hl_timer s x)) (ticks - ht_time (hl_timer s x))
          else Inr (pre, Some x, ticks))"

text \<open>The list with the timer put in its place, and the time it is given.\<close>

definition start_insert :: "timer_id \<Rightarrow> u32 \<Rightarrow> hwtimers \<Rightarrow> (u32 \<times> hwtimers) res" where
  "start_insert t ticks s =
     (case hl_active s of
        None \<Rightarrow>
          Inr (ticks, hal_timer_start ticks ((tset t (\<lambda>x. x\<lparr>ht_next := None\<rparr>) s)\<lparr>hl_active := Some t\<rparr>))
      | Some a \<Rightarrow>
          let cur_time = hl_value s in
          c_assert (cur_time \<le> ht_time (hl_timer s a) \<or> cur_time \<le> HAL_TIMER_LOAD_DELTA)
            (if cur_time > ticks then
               Inr (ticks, hal_timer_start ticks (hal_timer_stop
                 ((tset t (\<lambda>x. x\<lparr>ht_next := Some a\<rparr>)
                   (tset a (\<lambda>x. x\<lparr>ht_time := cur_time - ticks\<rparr>) s))\<lparr>hl_active := Some t\<rparr>)))
             else
               bindE (start_walk (HWTIMER_NUM + 1) s a (ht_next (hl_timer s a)) (ticks - cur_time))
                 (\<lambda>(pre, nxt, ticks1).
               let s1 = (case nxt of None \<Rightarrow> s | Some x \<Rightarrow> tset x (\<lambda>y. y\<lparr>ht_time := ht_time y - ticks1\<rparr>) s) in
               Inr (ticks1, tset t (\<lambda>x. x\<lparr>ht_next := nxt\<rparr>) (tset pre (\<lambda>x. x\<lparr>ht_next := Some t\<rparr>) s1)))))"

definition hwtimer_start_int ::
  "timer_id option \<Rightarrow> (nat option \<times> u32) option \<Rightarrow> u32 \<Rightarrow> hwtimers \<Rightarrow> (hwtimer_ret \<times> hwtimers) res" where
  "hwtimer_start_int h update ticks0 s =
     (case h of
        None \<Rightarrow> Inr (E_HWTIMER_INVAL_ID, s)
      | Some t \<Rightarrow>
          let ticks = (if ticks0 < HAL_TIMER_LOAD_DELTA then HAL_TIMER_LOAD_DELTA else ticks0) in
          if ht_state (hl_timer s t) \<noteq> HWTIMER_STATE_ALLOC \<and> ht_state (hl_timer s t) \<noteq> HWTIMER_STATE_CALLBACK
          then Inr (E_HWTIMER_INVAL_ST, s)
          else
            let s1 = tset t (\<lambda>x. x\<lparr>ht_state := HWTIMER_STATE_ACTIVE\<rparr>) s;
                s2 = (case update of None \<Rightarrow> s1
                      | Some (cb, p) \<Rightarrow> tset t (\<lambda>x. x\<lparr>ht_callback := cb, ht_param := p\<rparr>) s1) in
            bindE (start_insert t ticks s2) (\<lambda>(time, s3).
            Inr (E_HWTIMER_OK, tset t (\<lambda>x. x\<lparr>ht_time := time\<rparr>) s3)))"

definition hwtimer_start :: "timer_id option \<Rightarrow> u32 \<Rightarrow> hwtimers \<Rightarrow> (hwtimer_ret \<times> hwtimers) res" where
  "hwtimer_start h ticks s = hwtimer_start_int h None ticks s"

definition hwtimer_update_then_start ::
  "timer_id option \<Rightarrow> nat option \<Rightarrow> u32 \<Rightarrow> u32 \<Rightarrow> hwtimers \<Rightarrow> (hwtimer_ret \<times> hwtimers) res" where
  "hwtimer_update_then_start h cb param ticks s = hwtimer_start_int h (Some (cb, param)) ticks s"

definition hwtimer_update :: "timer_id option \<Rightarrow> nat option \<Rightarrow> u32 \<Rightarrow> hwtimers \<Rightarrow> hwtimer_ret \<times> hwtimers" where
  "hwtimer_update h cb param s =
     (case h of
        None \<Rightarrow> (E_HWTIMER_INVAL_ID, s)
      | Some t \<Rightarrow>
          if ht_state (hl_timer s t) = HWTIMER_STATE_ALLOC \<or> ht_state (hl_timer s t) = HWTIMER_STATE_CALLBACK
          then (E_HWTIMER_OK, tset t (\<lambda>x. x\<lparr>ht_callback := cb, ht_param := param\<rparr>) s)
          else (E_HWTIMER_INVAL_ST, s))"

section \<open>Stopping\<close>

text \<open>\<open>while (next && next != timer) { pre = next; next = next->next; }\<close>\<close>

fun find_walk :: "nat \<Rightarrow> hwtimers \<Rightarrow> timer_id \<Rightarrow> timer_id \<Rightarrow> timer_id option \<Rightarrow> (timer_id \<times> timer_id option) res" where
  "find_walk 0 s t pre nxt = Inl No_Return"
| "find_walk (Suc n) s t pre nxt =
     (case nxt of
        None \<Rightarrow> Inr (pre, None)
      | Some x \<Rightarrow> if x \<noteq> t then find_walk n s t x (ht_next (hl_timer s x)) else Inr (pre, Some x))"

text \<open>The timers that are overdue get the time 0, the next one what is left of its time.\<close>

fun late_walk :: "nat \<Rightarrow> u32 \<Rightarrow> timer_id option \<Rightarrow> hwtimers \<Rightarrow> hwtimers res" where
  "late_walk 0 elapsed pre s = Inl No_Return"
| "late_walk (Suc n) elapsed pre s =
     (case pre of
        None \<Rightarrow> Inr s
      | Some x \<Rightarrow>
          if ht_time (hl_timer s x) \<le> elapsed
          then late_walk n (elapsed - ht_time (hl_timer s x)) (ht_next (hl_timer s x))
                 (tset x (\<lambda>y. y\<lparr>ht_time := 0\<rparr>) s)
          else Inr (tset x (\<lambda>y. y\<lparr>ht_time := ht_time y - elapsed\<rparr>) s))"

text \<open>The timer at the head of the active list.\<close>

definition stop_head :: "u32 \<Rightarrow> timer_id \<Rightarrow> hwtimers \<Rightarrow> hwtimers res" where
  "stop_head elapsed a s =
     (let cur_time = hl_value s; time = ht_time (hl_timer s a) in
      c_assert (cur_time \<le> time \<or> cur_time \<le> HAL_TIMER_LOAD_DELTA)
        (let s1 = hal_timer_stop s in
         case ht_next (hl_timer s1 a) of
           None \<Rightarrow> Inr (s1\<lparr>hl_active := None\<rparr>)
         | Some x \<Rightarrow>
             bindE (if cur_time = 0 then
                      c_assert (elapsed + HAL_TIMER_LOAD_DELTA \<ge> time)
                        (late_walk (HWTIMER_NUM + 1) (if elapsed > time then elapsed - time else 0) (Some x) s1)
                    else Inr (tset x (\<lambda>y. y\<lparr>ht_time := ht_time y + cur_time\<rparr>) s1)) (\<lambda>s2.
             Inr ((hal_timer_start (ht_time (hl_timer s2 x)) s2)\<lparr>hl_active := Some x\<rparr>))))"

definition stop_active :: "u32 \<Rightarrow> timer_id \<Rightarrow> hwtimers \<Rightarrow> hwtimers res" where
  "stop_active elapsed t s =
     (if hl_active s = Some t then stop_head elapsed t s
      else case hl_active s of
        None \<Rightarrow> Inl Assert_Fail
      | Some a \<Rightarrow>
          bindE (find_walk (HWTIMER_NUM + 1) s t a (ht_next (hl_timer s a))) (\<lambda>(pre, nxt).
          c_assert (nxt = Some t)
            (let s1 = tset pre (\<lambda>x. x\<lparr>ht_next := ht_next (hl_timer s t)\<rparr>) s in
             case ht_next (hl_timer s1 t) of
               None \<Rightarrow> Inr s1
             | Some y \<Rightarrow> Inr (tset y (\<lambda>x. x\<lparr>ht_time := ht_time x + ht_time (hl_timer s1 t)\<rparr>) s1))))"

definition stop_fired :: "timer_id \<Rightarrow> hwtimers \<Rightarrow> hwtimers res" where
  "stop_fired t s =
     (if hl_fired s = Some t then Inr (s\<lparr>hl_fired := ht_next (hl_timer s t)\<rparr>)
      else case hl_fired s of
        None \<Rightarrow> Inl Assert_Fail
      | Some a \<Rightarrow>
          bindE (find_walk (HWTIMER_NUM + 1) s t a (ht_next (hl_timer s a))) (\<lambda>(pre, nxt).
          c_assert (nxt = Some t) (Inr (tset pre (\<lambda>x. x\<lparr>ht_next := ht_next (hl_timer s t)\<rparr>) s))))"

definition hwtimer_stop :: "u32 \<Rightarrow> timer_id option \<Rightarrow> hwtimers \<Rightarrow> (hwtimer_ret \<times> hwtimers) res" where
  "hwtimer_stop elapsed h s =
     (case h of
        None \<Rightarrow> Inr (E_HWTIMER_INVAL_ID, s)
      | Some t \<Rightarrow>
          let fin = (\<lambda>s1. Inr (E_HWTIMER_OK, tset t (\<lambda>x. x\<lparr>ht_state := HWTIMER_STATE_ALLOC, ht_next := None\<rparr>) s1)) in
          (case ht_state (hl_timer s t) of
             HWTIMER_STATE_ALLOC \<Rightarrow> Inr (E_HWTIMER_OK, s)
           | HWTIMER_STATE_ACTIVE \<Rightarrow> bindE (stop_active elapsed t s) fin
           | HWTIMER_STATE_FIRED \<Rightarrow> bindE (stop_fired t s) fin
           | HWTIMER_STATE_CALLBACK \<Rightarrow> Inr (E_HWTIMER_IN_CALLBACK, s)
           | HWTIMER_STATE_FREE \<Rightarrow> Inr (E_HWTIMER_INVAL_ST, s)))"

definition hwtimer_active :: "timer_id option \<Rightarrow> hwtimers \<Rightarrow> bool" where
  "hwtimer_active h s =
     (case h of
        None \<Rightarrow> False
      | Some t \<Rightarrow> ht_state (hl_timer s t) = HWTIMER_STATE_ACTIVE \<or> ht_state (hl_timer s t) = HWTIMER_STATE_FIRED)"

section \<open>The interrupt handler\<close>

fun fire_walk ::
  "nat \<Rightarrow> u32 \<Rightarrow> timer_id \<Rightarrow> timer_id option \<Rightarrow> hwtimers \<Rightarrow> (u32 \<times> timer_id \<times> timer_id option \<times> hwtimers) res" where
  "fire_walk 0 elapsed pre lst s = Inl No_Return"
| "fire_walk (Suc n) elapsed pre lst s =
     (case lst of
        None \<Rightarrow> Inr (elapsed, pre, None, s)
      | Some x \<Rightarrow>
          if ht_time (hl_timer s x) \<le> elapsed
          then fire_walk n (elapsed - ht_time (hl_timer s x)) x (ht_next (hl_timer s x))
                 (tset x (\<lambda>y. y\<lparr>ht_state := HWTIMER_STATE_FIRED\<rparr>) s)
          else Inr (elapsed, pre, Some x, s))"

text \<open>The first part of the handler: the timers that are due are moved to the fired list. The
  result tells whether the second part is reached.\<close>

definition hwtimer_irq :: "u32 \<Rightarrow> hwtimers \<Rightarrow> (bool \<times> hwtimers) res" where
  "hwtimer_irq elapsed s =
     (case hl_active s of
        None \<Rightarrow> c_assert (\<not> hl_enabled s) (Inr (False, s\<lparr>hl_err_null := hl_err_null s + 1\<rparr>))
      | Some a \<Rightarrow>
          let time = ht_time (hl_timer s a) in
          if time > elapsed + HAL_TIMER_LOAD_DELTA
          then c_assert (hl_enabled s) (Inr (False, s\<lparr>hl_err_early := hl_err_early s + 1\<rparr>))
          else
            bindE (fire_walk (HWTIMER_NUM + 1) (if elapsed > time then elapsed - time else 0) a
                     (ht_next (hl_timer s a)) (tset a (\<lambda>y. y\<lparr>ht_state := HWTIMER_STATE_FIRED\<rparr>) s))
              (\<lambda>(elapsed1, pre, lst, s1).
            let s2 = (tset pre (\<lambda>y. y\<lparr>ht_next := None\<rparr>) s1)\<lparr>hl_fired := hl_active s1, hl_active := lst\<rparr> in
            Inr (True, case lst of
                None \<Rightarrow> hal_timer_stop s2
              | Some x \<Rightarrow>
                  let s3 = tset x (\<lambda>y. y\<lparr>ht_time := ht_time y - elapsed1\<rparr>) s2 in
                  hal_timer_start (ht_time (hl_timer s3 x)) s3)))"

text \<open>One round of the second part: a timer is taken from the fired list and its callback called;
  after the callback it is no longer in use by the handler.\<close>

definition take_fired :: "timer_id \<Rightarrow> hwtimers \<Rightarrow> hwtimers" where
  "take_fired l s =
     (let s1 = tset l (\<lambda>y. y\<lparr>ht_state := HWTIMER_STATE_CALLBACK, ht_next := None\<rparr>)
                 (s\<lparr>hl_fired := ht_next (hl_timer s l)\<rparr>) in
      case ht_callback (hl_timer s1 l) of
        None \<Rightarrow> s1
      | Some cb \<Rightarrow> s1\<lparr>hl_calls := hl_calls s1 @ [(cb, ht_param (hl_timer s1 l))]\<rparr>)"

definition callback_done :: "timer_id \<Rightarrow> hwtimers \<Rightarrow> hwtimers" where
  "callback_done l s =
     (if ht_state (hl_timer s l) = HWTIMER_STATE_CALLBACK
      then tset l (\<lambda>y. y\<lparr>ht_state := HWTIMER_STATE_ALLOC\<rparr>) s else s)"

text \<open>What a callback does to the timers is given by \<open>body\<close>, for its number and parameter.\<close>

fun run_fired :: "nat \<Rightarrow> (nat \<Rightarrow> u32 \<Rightarrow> hwtimers \<Rightarrow> hwtimers res) \<Rightarrow> hwtimers \<Rightarrow> hwtimers res" where
  "run_fired 0 body s = Inl No_Return"
| "run_fired (Suc n) body s =
     (case hl_fired s of
        None \<Rightarrow> Inr s
      | Some l \<Rightarrow>
          let s1 = take_fired l s in
          bindE (case ht_callback (hl_timer s1 l) of
                   None \<Rightarrow> Inr s1
                 | Some cb \<Rightarrow> body cb (ht_param (hl_timer s1 l)) s1) (\<lambda>s2.
          run_fired n body (callback_done l s2)))"

definition hwtimer_handler :: "(nat \<Rightarrow> u32 \<Rightarrow> hwtimers \<Rightarrow> hwtimers res) \<Rightarrow> u32 \<Rightarrow> hwtimers \<Rightarrow> hwtimers res" where
  "hwtimer_handler body elapsed s =
     bindE (hwtimer_irq elapsed s) (\<lambda>(fired, s1).
     if fired then run_fired (HWTIMER_NUM + 1) body s1 else Inr s1)"

end
