(* ===== verification/HwTimerInv.thy ===== *)
theory HwTimerInv
  imports HwTimer
begin

text \<open>
  The linked lists of \<open>utils/hwtimer_list/hwtimer_list.c\<close> as HOL lists, what its
  walks compute on them, and the invariant of the module: three disjoint lists that hold
  exactly the free, active and fired timers, and a hardware timer that runs for the first
  active one.
\<close>

section \<open>Linked lists\<close>

text \<open>The timers from \<open>p\<close> on, up to the pointer \<open>q\<close>.\<close>

fun seg :: "(timer_id \<Rightarrow> hwtimer) \<Rightarrow> timer_id option \<Rightarrow> timer_id list \<Rightarrow> timer_id option \<Rightarrow> bool" where
  "seg m p [] q \<longleftrightarrow> p = q"
| "seg m p (x # xs) q \<longleftrightarrow> p = Some x \<and> seg m (ht_next (m x)) xs q"

fun ptr_to :: "timer_id list \<Rightarrow> timer_id option" where
  "ptr_to [] = None"
| "ptr_to (x # xs) = Some x"

lemma seg_append: "seg m p (xs @ ys) q \<longleftrightarrow> (\<exists>r. seg m p xs r \<and> seg m r ys q)"
  by (induction xs arbitrary: p) auto

lemma seg_ptr: "seg m p xs None \<Longrightarrow> p = ptr_to xs"
  by (cases xs) auto

lemma seg_cong:
  assumes "\<And>x. x \<in> set xs \<Longrightarrow> ht_next (m' x) = ht_next (m x)"
  shows "seg m' p xs q = seg m p xs q"
  using assms by (induction xs arbitrary: p) auto

lemma seg_upd: "x \<notin> set xs \<Longrightarrow> seg (m(x := v)) p xs q = seg m p xs q"
  by (rule seg_cong) auto

lemma seg_upd_same: "ht_next v = ht_next (m x) \<Longrightarrow> seg (m(x := v)) p xs q = seg m p xs q"
  by (rule seg_cong) auto

text \<open>The list in the heap, computed.\<close>

fun chain :: "nat \<Rightarrow> (timer_id \<Rightarrow> hwtimer) \<Rightarrow> timer_id option \<Rightarrow> timer_id list" where
  "chain 0 m p = []"
| "chain (Suc n) m p = (case p of None \<Rightarrow> [] | Some x \<Rightarrow> x # chain n m (ht_next (m x)))"

lemma chain_seg: "seg m p xs None \<Longrightarrow> length xs \<le> n \<Longrightarrow> chain n m p = xs"
proof (induction xs arbitrary: p n)
  case Nil
  then show ?case by (cases n) simp_all
next
  case (Cons x xs)
  then show ?case by (cases n) auto
qed

lemma distinct_length15: "distinct (xs :: timer_id list) \<Longrightarrow> length xs \<le> HWTIMER_NUM"
  using distinct_card [of xs] card_mono [of UNIV "set xs"] by (simp add: HWTIMER_NUM_def)

lemma tset_simps [simp]:
  "hl_timer (tset i f s) = (hl_timer s)(i := f (hl_timer s i))" "hl_free (tset i f s) = hl_free s"
  "hl_active (tset i f s) = hl_active s" "hl_fired (tset i f s) = hl_fired s"
  "hl_inited (tset i f s) = hl_inited s" "hl_enabled (tset i f s) = hl_enabled s"
  "hl_value (tset i f s) = hl_value s" "hl_calls (tset i f s) = hl_calls s"
  by (simp_all add: tset_def)

lemma hal_timer_simps [simp]:
  "hl_timer (hal_timer_start l s) = hl_timer s" "hl_free (hal_timer_start l s) = hl_free s"
  "hl_active (hal_timer_start l s) = hl_active s" "hl_fired (hal_timer_start l s) = hl_fired s"
  "hl_enabled (hal_timer_start l s)" "hl_calls (hal_timer_start l s) = hl_calls s"
  "hl_inited (hal_timer_start l s) = hl_inited s"
  "hl_timer (hal_timer_stop s) = hl_timer s" "hl_free (hal_timer_stop s) = hl_free s"
  "hl_active (hal_timer_stop s) = hl_active s" "hl_fired (hal_timer_stop s) = hl_fired s"
  "\<not> hl_enabled (hal_timer_stop s)" "hl_calls (hal_timer_stop s) = hl_calls s"
  "hl_value (hal_timer_stop s) = hl_value s" "hl_inited (hal_timer_stop s) = hl_inited s"
  by (simp_all add: hal_timer_start_def hal_timer_stop_def)

text \<open>What the counter reads after it was started for \<open>n\<close> ticks.\<close>

definition loaded :: "nat \<Rightarrow> nat" where
  "loaded n = (if 1 < n then n - 1 else 1)"

lemma hal_timer_start_value: "unat (hl_value (hal_timer_start l s)) = loaded (unat l)"
proof (cases "l > 1")
  case True
  then have "0 < unat l" "1 < unat l" by (simp_all add: word_less_nat_alt)
  with True show ?thesis by (simp add: hal_timer_start_def HAL_TIMER_LOAD_DELTA_def loaded_def unat_dec)
next
  case False
  then have "\<not> 1 < unat l" by (simp add: word_less_nat_alt)
  with False show ?thesis by (simp add: hal_timer_start_def HAL_TIMER_LOAD_DELTA_def loaded_def)
qed

section \<open>The walks\<close>

definition tm :: "hwtimers \<Rightarrow> timer_id \<Rightarrow> nat" where
  "tm s x = unat (ht_time (hl_timer s x))"

definition total :: "hwtimers \<Rightarrow> timer_id list \<Rightarrow> nat" where
  "total s xs = sum_list (map (tm s) xs)"

lemma total_simps [simp]: "total s [] = 0" "total s (x # xs) = tm s x + total s xs"
  "total s (xs @ ys) = total s xs + total s ys"
  by (simp_all add: total_def)

text \<open>The timers before which the times add up to less than \<open>t\<close>, and the others.\<close>

fun before :: "hwtimers \<Rightarrow> nat \<Rightarrow> timer_id list \<Rightarrow> timer_id list" where
  "before s t [] = []"
| "before s t (x # xs) = (if tm s x < t then x # before s (t - tm s x) xs else [])"

fun after :: "hwtimers \<Rightarrow> nat \<Rightarrow> timer_id list \<Rightarrow> timer_id list" where
  "after s t [] = []"
| "after s t (x # xs) = (if tm s x < t then after s (t - tm s x) xs else x # xs)"

lemma before_after: "before s t xs @ after s t xs = xs"
  by (induction xs arbitrary: t) auto

lemma total_before: "total s (before s t xs) \<le> t"
proof (induction xs arbitrary: t)
  case (Cons x xs)
  from Cons [of "t - tm s x"] show ?case by auto
qed simp

lemma after_hd: "after s t xs = y # ys \<Longrightarrow> t - total s (before s t xs) \<le> tm s y"
proof (induction xs arbitrary: t)
  case (Cons x xs)
  show ?case
  proof (cases "tm s x < t")
    case True
    with Cons.IH [of "t - tm s x"] Cons.prems show ?thesis by simp
  next
    case False
    with Cons.prems show ?thesis by simp
  qed
qed simp

lemma start_walk_eq:
  assumes "seg (hl_timer s) nxt xs None" and "length xs < n"
  shows "\<exists>r. start_walk n s pre nxt ticks = Inr (last (pre # before s (unat ticks) xs), ptr_to (after s (unat ticks) xs), r) \<and>
    unat r = unat ticks - total s (before s (unat ticks) xs)"
  using assms
proof (induction xs arbitrary: n nxt pre ticks)
  case Nil
  then show ?case by (cases n) auto
next
  case (Cons x xs)
  then obtain k where n: "n = Suc k" by (cases n) auto
  let ?d = "ht_time (hl_timer s x)"
  show ?case
  proof (cases "?d < ticks")
    case True
    then have lt: "tm s x < unat ticks" by (simp add: tm_def word_less_nat_alt)
    have sub: "unat (ticks - ?d) = unat ticks - tm s x"
      using True by (simp add: tm_def unat_sub less_imp_le)
    have seg: "seg (hl_timer s) (ht_next (hl_timer s x)) xs None" using Cons.prems(1) by simp
    from Cons.IH [OF seg, of k x "ticks - ?d"] Cons.prems n True lt sub show ?thesis by (auto simp: last_ConsR)
  next
    case False
    then have "\<not> tm s x < unat ticks" by (simp add: tm_def word_less_nat_alt)
    with False Cons.prems n show ?thesis by simp
  qed
qed

lemma find_walk_eq:
  assumes "seg (hl_timer s) nxt (us @ t # vs) None" and "length us + 1 < n" and "t \<notin> set us"
  shows "find_walk n s t pre nxt = Inr (last (pre # us), Some t)"
  using assms
proof (induction us arbitrary: n nxt pre)
  case Nil
  then obtain k where "n = Suc k" by (cases n) auto
  with Nil show ?case by simp
next
  case (Cons x us)
  then obtain k where n: "n = Suc k" by (cases n) auto
  have "seg (hl_timer s) (ht_next (hl_timer s x)) (us @ t # vs) None" using Cons.prems(1) by simp
  with Cons.IH [of _ k x] Cons.prems n show ?case by auto
qed

section \<open>The invariant\<close>

definition lists :: "hwtimers \<Rightarrow> timer_id list \<Rightarrow> timer_id list \<Rightarrow> timer_id list \<Rightarrow> bool" where
  "lists s fr ac fi \<longleftrightarrow> seg (hl_timer s) (hl_free s) fr None \<and> seg (hl_timer s) (hl_active s) ac None \<and>
     seg (hl_timer s) (hl_fired s) fi None \<and> distinct (fr @ ac @ fi)"

definition kinds :: "hwtimers \<Rightarrow> timer_id list \<Rightarrow> timer_id list \<Rightarrow> timer_id list \<Rightarrow> bool" where
  "kinds s fr ac fi \<longleftrightarrow> (\<forall>x. (ht_state (hl_timer s x) = HWTIMER_STATE_FREE \<longleftrightarrow> x \<in> set fr) \<and>
     (ht_state (hl_timer s x) = HWTIMER_STATE_ACTIVE \<longleftrightarrow> x \<in> set ac) \<and>
     (ht_state (hl_timer s x) = HWTIMER_STATE_FIRED \<longleftrightarrow> x \<in> set fi))"

text \<open>The hardware runs while a timer is active, from no more than that timer's time; the times
  add up to a word, with one tick to spare for a reload of a timer that is due.\<close>

definition MAX_TICKS :: nat where
  "MAX_TICKS = 2 ^ 32 - 2"

definition hw_ok :: "hwtimers \<Rightarrow> timer_id list \<Rightarrow> bool" where
  "hw_ok s ac \<longleftrightarrow> (hl_enabled s \<longleftrightarrow> ac \<noteq> []) \<and>
     (\<forall>a as. ac = a # as \<longrightarrow> unat (hl_value s) \<le> max 1 (tm s a) \<and> total s as \<le> MAX_TICKS \<and>
        (unat (hl_value s) \<le> 1 \<or> unat (hl_value s) + total s as \<le> MAX_TICKS))"

definition timers_inv :: "hwtimers \<Rightarrow> bool" where
  "timers_inv s \<longleftrightarrow> (\<exists>fr ac fi. lists s fr ac fi \<and> kinds s fr ac fi \<and> hw_ok s ac)"

section \<open>Deadlines\<close>

text \<open>The ticks to go of each active timer, in the order of the list.\<close>

fun dues :: "nat \<Rightarrow> hwtimers \<Rightarrow> timer_id list \<Rightarrow> (timer_id \<times> nat) list" where
  "dues n s [] = []"
| "dues n s (x # xs) = (x, n + tm s x) # dues (n + tm s x) s xs"

fun due_list :: "hwtimers \<Rightarrow> timer_id list \<Rightarrow> (timer_id \<times> nat) list" where
  "due_list s [] = []"
| "due_list s (a # as) = (a, unat (hl_value s)) # dues (unat (hl_value s)) s as"

definition deadlines :: "hwtimers \<Rightarrow> (timer_id \<times> nat) list" where
  "deadlines s = due_list s (chain HWTIMER_NUM (hl_timer s) (hl_active s))"

lemma dues_append: "dues n s (xs @ ys) = dues n s xs @ dues (n + total s xs) s ys"
  by (induction xs arbitrary: n) (simp_all add: add.assoc)

lemma dues_cong: "(\<And>x. x \<in> set xs \<Longrightarrow> tm s' x = tm s x) \<Longrightarrow> dues n s' xs = dues n s xs"
  by (induction xs arbitrary: n) auto

lemma total_cong: "(\<And>x. x \<in> set xs \<Longrightarrow> tm s' x = tm s x) \<Longrightarrow> total s' xs = total s xs"
  by (induction xs) auto

lemma dues_add: "dues (n + d) s xs = map (\<lambda>(x, k). (x, k + d)) (dues n s xs)"
proof (induction xs arbitrary: n)
  case (Cons x xs)
  from Cons [of "n + tm s x"] show ?case by (simp add: ac_simps)
qed simp

lemma dues_sub: "d \<le> n \<Longrightarrow> dues (n - d) s xs = map (\<lambda>(x, k). (x, k - d)) (dues n s xs)"
  using dues_add [of "n - d" d s xs] by (simp add: case_prod_unfold comp_def)

lemma dues_ge: "(x, k) \<in> set (dues n s xs) \<Longrightarrow> n \<le> k"
  by (induction xs arbitrary: n) fastforce+

lemma dues_sorted: "sorted (map snd (dues n s xs))"
  by (induction xs arbitrary: n) (auto dest: dues_ge)

lemma fst_dues [simp]: "map fst (dues n s xs) = xs"
  by (induction xs arbitrary: n) simp_all

lemma fst_due_list [simp]: "map fst (due_list s ac) = ac"
  by (cases ac) simp_all

lemma due_list_sorted: "sorted (map snd (due_list s ac))"
  by (cases ac) (auto simp: dues_sorted dest: dues_ge)

lemma lists_chain:
  assumes "lists s fr ac fi"
  shows "chain HWTIMER_NUM (hl_timer s) (hl_active s) = ac"
  using assms distinct_length15 [of ac] by (intro chain_seg) (auto simp: lists_def)

lemma deadlines_eq: "lists s fr ac fi \<Longrightarrow> deadlines s = due_list s ac"
  by (simp add: deadlines_def lists_chain)

section \<open>Starting a timer\<close>

text \<open>The new list and deadlines, when the hardware timer was loaded anew by \<open>d\<close> ticks less.\<close>

definition inserted :: "timer_id \<Rightarrow> nat \<Rightarrow> nat \<Rightarrow> hwtimers \<Rightarrow> timer_id list \<Rightarrow> hwtimers \<Rightarrow> timer_id list \<Rightarrow> bool" where
  "inserted t ticks d s ac s' ac' \<longleftrightarrow>
     d \<le> 1 \<and> d \<le> ticks \<and> set ac' = insert t (set ac) \<and>
     set (due_list s' ac') = insert (t, ticks - d) ((\<lambda>(x, n). (x, n - d)) ` set (due_list s ac))"

lemma loaded_bounds: "loaded n \<le> max 1 n" "0 < n \<Longrightarrow> loaded n \<le> n" "0 < n \<Longrightarrow> n - loaded n \<le> 1"
  by (simp_all add: loaded_def)

lemma unat32_lt: "unat (x :: u32) < 4294967296"
  by (rule order.strict_trans2 [OF unsigned_less]) simp

lemma insert_empty:
  assumes "lists s fr [] fi" and "t \<notin> set fr \<union> set fi" and "0 < unat ticks" and "unat ticks \<le> MAX_TICKS"
  shows "\<exists>s1. start_insert t ticks s = Inr (ticks, s1) \<and>
    (let s' = tset t (\<lambda>x. x\<lparr>ht_time := ticks\<rparr>) s1; d = unat ticks - loaded (unat ticks) in
     lists s' fr [t] fi \<and> hw_ok s' [t] \<and> inserted t (unat ticks) d s [] s' [t] \<and>
     (\<forall>x. ht_state (hl_timer s' x) = ht_state (hl_timer s x)))"
proof -
  have act: "hl_active s = None" using assms(1) by (simp add: lists_def)
  let ?s1 = "hal_timer_start ticks ((tset t (\<lambda>x. x\<lparr>ht_next := None\<rparr>) s)\<lparr>hl_active := Some t\<rparr>)"
  let ?s' = "tset t (\<lambda>x. x\<lparr>ht_time := ticks\<rparr>) ?s1"
  have run: "start_insert t ticks s = Inr (ticks, ?s1)" by (simp add: start_insert_def act)
  have "lists ?s' fr [t] fi" using assms(1,2) by (auto simp: lists_def seg_upd)
  moreover have "hw_ok ?s' [t]"
    using loaded_bounds(1,2) [of "unat ticks"] assms(3,4)
    by (simp add: hw_ok_def tm_def hal_timer_start_value)
  moreover have "inserted t (unat ticks) (unat ticks - loaded (unat ticks)) s [] ?s' [t]"
    using loaded_bounds(2,3) [OF assms(3)] by (simp add: inserted_def hal_timer_start_value)
  ultimately show ?thesis using run by (simp add: Let_def)
qed

lemma unat_value_sub: "ticks < v \<Longrightarrow> unat ((v :: u32) - ticks) = unat v - unat ticks"
  by (simp add: unat_sub less_imp_le)

lemma insert_first:
  assumes "lists s fr (a # as) fi" and "t \<notin> set fr \<union> set (a # as) \<union> set fi" and "hw_ok s (a # as)"
    and "0 < unat ticks" and "ticks < hl_value s"
  shows "\<exists>s1. start_insert t ticks s = Inr (ticks, s1) \<and>
    (let s' = tset t (\<lambda>x. x\<lparr>ht_time := ticks\<rparr>) s1; d = unat ticks - loaded (unat ticks) in
     lists s' fr (t # a # as) fi \<and> hw_ok s' (t # a # as) \<and> inserted t (unat ticks) d s (a # as) s' (t # a # as) \<and>
     (\<forall>x. ht_state (hl_timer s' x) = ht_state (hl_timer s x)))"
proof -
  have act: "hl_active s = Some a" using assms(1) by (simp add: lists_def)
  let ?v = "unat (hl_value s)"
  let ?s1 = "hal_timer_start ticks (hal_timer_stop
                 ((tset t (\<lambda>x. x\<lparr>ht_next := Some a\<rparr>)
                   (tset a (\<lambda>x. x\<lparr>ht_time := hl_value s - ticks\<rparr>) s))\<lparr>hl_active := Some t\<rparr>))"
  let ?s' = "tset t (\<lambda>x. x\<lparr>ht_time := ticks\<rparr>) ?s1" and ?d = "unat ticks - loaded (unat ticks)"
  have v: "?v \<le> max 1 (tm s a)" using assms(3) by (simp add: hw_ok_def)
  then have "hl_value s \<le> ht_time (hl_timer s a) \<or> hl_value s \<le> HAL_TIMER_LOAD_DELTA"
    by (auto simp: word_le_nat_alt tm_def HAL_TIMER_LOAD_DELTA_def max_def split: if_splits)
  then have run: "start_insert t ticks s = Inr (ticks, ?s1)"
    using assms(5) by (simp add: start_insert_def act Let_def)
  have ne: "a \<noteq> t" "a \<notin> set as" "t \<notin> set as" using assms(1,2) by (auto simp: lists_def)
  have tms: "tm ?s' t = unat ticks" "tm ?s' a = ?v - unat ticks" "\<And>x. x \<in> set as \<Longrightarrow> tm ?s' x = tm s x"
    using ne assms(5) by (auto simp: tm_def unat_value_sub)
  have lt: "unat ticks < ?v" using assms(5) by (simp add: word_less_nat_alt)
  have v2: "?v + total s as \<le> MAX_TICKS" using assms(3,4) lt by (auto simp: hw_ok_def)
  have val: "unat (hl_value ?s') = loaded (unat ticks)" by (simp add: hal_timer_start_value)
  have ld: "loaded (unat ticks) + (?v - unat ticks) = ?v - ?d" "?d \<le> ?v" "loaded (unat ticks) \<le> unat ticks"
    using lt loaded_bounds(2) [OF assms(4)] by simp_all
  have "lists ?s' fr (t # a # as) fi"
    using assms(1,2) by (auto simp: lists_def seg_upd seg_upd_same)
  moreover have "total ?s' as = total s as" by (rule total_cong) (rule tms(3))
  then have "hw_ok ?s' (t # a # as)"
    using v2 ld tms(1,2) loaded_bounds(1) [of "unat ticks"] unfolding hw_ok_def val by auto
  moreover have "dues (?v - ?d) ?s' as = map (\<lambda>(x, k). (x, k - ?d)) (dues ?v s as)"
    using dues_sub [OF ld(2), of s as] dues_cong [of as ?s' s] tms(3) by simp
  then have "inserted t (unat ticks) ?d s (a # as) ?s' (t # a # as)"
    using loaded_bounds(2,3) [OF assms(4)] tms(2) ld
    unfolding inserted_def due_list.simps dues.simps val by simp
  ultimately show ?thesis using run by (simp add: Let_def)
qed

lemma ptr_to_Some: "ptr_to xs = Some y \<longleftrightarrow> (\<exists>ys. xs = y # ys)"
  by (cases xs) auto

lemma distinct_insert_mid:
  "distinct (fr @ (ls @ p # vs) @ fi) \<Longrightarrow> t \<notin> set fr \<union> set (ls @ p # vs) \<union> set fi \<Longrightarrow>
   distinct (fr @ (ls @ p # t # vs) @ fi)"
  by auto

lemma insert_later:
  assumes "lists s fr (a # as) fi" and "t \<notin> set fr \<union> set (a # as) \<union> set fi" and "hw_ok s (a # as)"
    and "\<not> ticks < hl_value s" and "unat ticks \<le> MAX_TICKS"
  shows "\<exists>r s1 ac'. start_insert t ticks s = Inr (r, s1) \<and>
    (let s' = tset t (\<lambda>x. x\<lparr>ht_time := r\<rparr>) s1 in
     lists s' fr ac' fi \<and> hw_ok s' ac' \<and> inserted t (unat ticks) 0 s (a # as) s' ac' \<and>
     (\<forall>x. ht_state (hl_timer s' x) = ht_state (hl_timer s x)))"
proof -
  let ?v = "unat (hl_value s)"
  let ?n = "unat (ticks - hl_value s)"
  let ?us = "before s ?n as" and ?vs = "after s ?n as"
  define pre where "pre = last (a # ?us)"
  have act: "hl_active s = Some a" and seg: "seg (hl_timer s) (ht_next (hl_timer s a)) as None"
    using assms(1) by (simp_all add: lists_def)
  have as: "as = ?us @ ?vs" by (rule before_after [symmetric])
  have n: "?n = unat ticks - ?v" "?v \<le> unat ticks"
    using assms(4) by (simp_all add: unat_sub not_less word_le_nat_alt)
  have v: "?v \<le> max 1 (tm s a)" and v2: "total s as \<le> MAX_TICKS" "?v \<le> 1 \<or> ?v + total s as \<le> MAX_TICKS"
    using assms(3) by (simp_all add: hw_ok_def)
  from v have ok: "hl_value s \<le> ht_time (hl_timer s a) \<or> hl_value s \<le> HAL_TIMER_LOAD_DELTA"
    by (auto simp: word_le_nat_alt tm_def HAL_TIMER_LOAD_DELTA_def max_def split: if_splits)
  have dist: "distinct (a # ?us @ ?vs)" "t \<notin> set (a # ?us @ ?vs)"
    using assms(1,2) unfolding as [symmetric] by (auto simp: lists_def)
  have "length as < Suc HWTIMER_NUM"
    using distinct_length15 [of as] assms(1) by (simp add: lists_def)
  from start_walk_eq [OF seg this, of a "ticks - hl_value s"] obtain r where
    walk: "start_walk (Suc HWTIMER_NUM) s a (ht_next (hl_timer s a)) (ticks - hl_value s) = Inr (pre, ptr_to ?vs, r)"
    and r: "unat r = ?n - total s ?us" by (auto simp: pre_def)
  let ?s0 = "case ptr_to ?vs of None \<Rightarrow> s | Some x \<Rightarrow> tset x (\<lambda>y. y\<lparr>ht_time := ht_time y - r\<rparr>) s"
  let ?s1 = "tset t (\<lambda>x. x\<lparr>ht_next := ptr_to ?vs\<rparr>) (tset pre (\<lambda>x. x\<lparr>ht_next := Some t\<rparr>) ?s0)"
  let ?s' = "tset t (\<lambda>x. x\<lparr>ht_time := r\<rparr>) ?s1"
  have run: "start_insert t ticks s = Inr (r, ?s1)"
    using assms(4) ok by (simp add: start_insert_def act Let_def walk del: bindE_Inr_iff start_walk.simps)
  have tpre: "t \<noteq> pre" unfolding pre_def using dist(2) by (metis UnCI last_in_set list.distinct(1) set_append append_Cons)
  have frame0: "hl_free ?s0 = hl_free s" "hl_active ?s0 = hl_active s" "hl_fired ?s0 = hl_fired s"
    "hl_enabled ?s0 = hl_enabled s" "hl_value ?s0 = hl_value s"
    "ht_next (hl_timer ?s0 x) = ht_next (hl_timer s x)" "ht_state (hl_timer ?s0 x) = ht_state (hl_timer s x)" for x
    by (cases "ptr_to ?vs"; simp)+
  have tm0: "tm ?s0 x = tm s x" if "ptr_to ?vs \<noteq> Some x" for x
    using that by (cases "ptr_to ?vs") (auto simp: tm_def)
  define s' where "s' = ?s'"
  have tm': "tm s' t = unat r" "\<And>x. x \<noteq> t \<Longrightarrow> tm s' x = tm ?s0 x"
    by (auto simp: tm_def s'_def)
  have segs: "seg (hl_timer s') p xs q = seg (hl_timer s) p xs q" if "t \<notin> set xs" "pre \<notin> set xs" for p xs q
    using that frame0(6) unfolding s'_def by (intro seg_cong) auto
  obtain ls where ls: "a # ?us = ls @ [pre]" unfolding pre_def by (metis append_butlast_last_id list.distinct(1))
  let ?ac = "a # ?us @ t # ?vs"
  have ac: "?ac = ls @ pre # t # ?vs" using ls by simp
  have old: "a # as = ls @ pre # ?vs" using ls as by (metis append.assoc append_Cons append_Nil)
  have nin: "pre \<notin> set ls \<union> set ?vs" "t \<notin> set ls \<union> set ?vs" using dist unfolding as [symmetric] old by auto
  have "seg (hl_timer s) (Some a) (ls @ pre # ?vs) None" using assms(1) unfolding old [symmetric] lists_def by simp
  then have sp: "seg (hl_timer s) (Some a) ls (Some pre)" "seg (hl_timer s) (ht_next (hl_timer s pre)) ?vs None"
    unfolding seg_append by auto
  have "seg (hl_timer s) (ptr_to ?vs) ?vs None" using sp(2) seg_ptr [OF sp(2)] by simp
  then have sq: "seg (hl_timer s') (Some a) ls (Some pre)" "seg (hl_timer s') (ptr_to ?vs) ?vs None"
    using sp(1) segs [of ls] segs [of ?vs] nin by simp_all
  have sac: "seg (hl_timer s') (Some a) ?ac None" unfolding ac seg_append
    using sq tpre by (intro exI [of _ "Some pre"]) (simp add: s'_def)
  have preas: "pre \<in> set (a # as)" unfolding old by simp
  have L: "lists s' fr ?ac fi"
  proof -
    have "t \<notin> set fr" "t \<notin> set fi" "pre \<notin> set fr" "pre \<notin> set fi"
      using assms(1,2) preas by (auto simp: lists_def)
    moreover have "hl_active s' = Some a" "hl_free s' = hl_free s" "hl_fired s' = hl_fired s"
      unfolding s'_def using act frame0 by simp_all
    moreover have "distinct (fr @ (ls @ pre # ?vs) @ fi)"
      using assms(1) unfolding old [symmetric] by (simp add: lists_def)
    then have "distinct (fr @ ?ac @ fi)"
      unfolding ac by (rule distinct_insert_mid) (use assms(2) in \<open>unfold old [symmetric], simp\<close>)
    ultimately show ?thesis using assms(1) segs sac by (simp add: lists_def)
  qed
  have tot: "total s ?us \<le> ?n" by (rule total_before)
  have T: "?v + total s ?us + unat r = unat ticks" using n r tot by simp
  have in_vs: "x \<in> set ?vs" if "ptr_to ?vs = Some x" for x using that by (cases ?vs) simp_all
  have same: "tm s' x = tm s x" if "x \<noteq> t" "x \<notin> set ?vs" for x
    using that tm'(2) [of x] tm0 [of x] in_vs [of x] by metis
  have tus: "tm s' x = tm s x" if "x \<in> set ?us" for x
    by (rule same) (use dist that in auto)
  have vs: "total s' ?vs + unat r = total s ?vs \<and>
      dues (unat ticks) s' ?vs = dues (?v + total s ?us) s ?vs" if "?vs = y # ys" for y ys
  proof -
    have "unat r \<le> tm s y" using after_hd [OF that] r by simp
    then have ty: "tm s' y = tm s y - unat r" "unat r \<le> tm s y"
      using that dist by (auto simp: tm_def unat_sub word_le_nat_alt s'_def)
    have tys: "\<And>x. x \<in> set ys \<Longrightarrow> tm s' x = tm s x"
    proof -
      fix x assume x: "x \<in> set ys"
      then have "x \<noteq> t" "ptr_to ?vs \<noteq> Some x" using that dist by auto
      then show "tm s' x = tm s x" using tm'(2) [of x] tm0 [of x] by simp
    qed
    have "unat ticks + (tm s y - unat r) = ?v + total s ?us + tm s y" using T ty(2) by simp
    moreover have "total s' ys = total s ys" by (rule total_cong) (rule tys)
    moreover have "dues k s' ys = dues k s ys" for k by (rule dues_cong) (rule tys)
    ultimately show ?thesis unfolding that using ty by simp
  qed
  have val: "hl_value s' = hl_value s" "hl_enabled s' = hl_enabled s" unfolding s'_def using frame0 by simp_all
  have ta: "tm s' a = tm s a" by (rule same) (use dist in auto)
  have tus': "total s' ?us = total s ?us" "dues ?v s' ?us = dues ?v s ?us"
    by (rule total_cong, rule tus, assumption) (rule dues_cong, rule tus, assumption)
  have sum: "?v + total s' (?us @ t # ?vs) = (if ?vs = [] then unat ticks else ?v + total s as)"
  proof (cases ?vs)
    case Nil
    then show ?thesis using T tus' tm'(1) by simp
  next
    case (Cons y ys)
    have "total s as = total s ?us + total s ?vs" using as by (metis total_simps(3))
    with vs [OF Cons] T tus' tm'(1) Cons show ?thesis by simp
  qed
  have sums: "total s' (?us @ t # ?vs) \<le> MAX_TICKS" "?v \<le> 1 \<or> ?v + total s' (?us @ t # ?vs) \<le> MAX_TICKS"
    using sum v2 assms(5) by (simp_all split: if_splits)
  have H: "hw_ok s' ?ac" using sums v ta val assms(3) unfolding hw_ok_def by simp
  have D: "dues ?v s' (?us @ t # ?vs) = dues ?v s ?us @ (t, unat ticks) # dues (?v + total s ?us) s ?vs"
  proof -
    have "dues (unat ticks) s' ?vs = dues (?v + total s ?us) s ?vs"
      using vs by (cases ?vs) (simp, blast)
    with T show ?thesis by (simp add: dues_append tus' tm'(1))
  qed
  have "dues ?v s as = dues ?v s ?us @ dues (?v + total s ?us) s ?vs"
    using as by (metis dues_append)
  moreover have "set ?ac = insert t (set (a # as))" unfolding ac old by auto
  ultimately have I: "inserted t (unat ticks) 0 s (a # as) s' ?ac"
    using D val unfolding inserted_def due_list.simps by auto
  have "\<forall>x. ht_state (hl_timer s' x) = ht_state (hl_timer s x)" unfolding s'_def using frame0 by simp
  with run L H I show ?thesis unfolding Let_def s'_def by blast
qed

lemma lists_frame:
  assumes "lists s fr ac fi" and "hl_free s' = hl_free s" "hl_active s' = hl_active s" "hl_fired s' = hl_fired s"
    and "\<And>x. ht_next (hl_timer s' x) = ht_next (hl_timer s x)"
  shows "lists s' fr ac fi"
proof -
  have "seg (hl_timer s') p xs q = seg (hl_timer s) p xs q" for p xs q by (rule seg_cong) (rule assms)
  with assms(1-4) show ?thesis by (simp add: lists_def)
qed

lemma due_list_cong:
  assumes "hl_value s' = hl_value s" and "\<And>x. x \<in> set ac \<Longrightarrow> tm s' x = tm s x"
  shows "due_list s' ac = due_list s ac"
proof (cases ac)
  case (Cons a as)
  have "dues n s' as = dues n s as" for n by (rule dues_cong) (rule assms(2), simp add: Cons)
  with assms(1) Cons show ?thesis by simp
qed simp

lemma hw_ok_cong:
  assumes "hw_ok s ac" and "hl_value s' = hl_value s" and "hl_enabled s' = hl_enabled s"
    and "\<And>x. x \<in> set ac \<Longrightarrow> tm s' x = tm s x"
  shows "hw_ok s' ac"
proof (cases ac)
  case (Cons a as)
  have "total s' as = total s as" by (rule total_cong) (rule assms(4), simp add: Cons)
  moreover have "tm s' a = tm s a" by (rule assms(4)) (simp add: Cons)
  ultimately show ?thesis using assms(1-3) Cons by (simp add: hw_ok_def)
qed (use assms(1-3) in \<open>simp add: hw_ok_def\<close>)

lemma start_insert_ok:
  assumes "lists s fr ac fi" and "t \<notin> set fr \<union> set ac \<union> set fi" and "hw_ok s ac" and "0 < unat ticks" and "unat ticks \<le> MAX_TICKS"
  shows "\<exists>r s1 ac' d. start_insert t ticks s = Inr (r, s1) \<and>
    (let s' = tset t (\<lambda>x. x\<lparr>ht_time := r\<rparr>) s1 in
     lists s' fr ac' fi \<and> hw_ok s' ac' \<and> inserted t (unat ticks) d s ac s' ac' \<and>
     (\<forall>x. ht_state (hl_timer s' x) = ht_state (hl_timer s x)))"
proof (cases ac)
  case Nil
  from insert_empty [OF assms(1) [unfolded Nil] _ assms(4,5)] assms(2)
  show ?thesis unfolding Nil Let_def by fastforce
next
  case (Cons a as)
  show ?thesis
  proof (cases "ticks < hl_value s")
    case True
    from insert_first [OF assms(1) [unfolded Cons] assms(2) [unfolded Cons] assms(3) [unfolded Cons] assms(4) True]
    show ?thesis unfolding Cons Let_def by blast
  next
    case False
    from insert_later [OF assms(1) [unfolded Cons] assms(2) [unfolded Cons] assms(3) [unfolded Cons] False assms(5)]
    show ?thesis unfolding Cons Let_def by blast
  qed
qed

lemma start_ok:
  assumes l: "lists s fr ac fi" and k: "kinds s fr ac fi" and h: "hw_ok s ac"
    and st: "ht_state (hl_timer s t) = HWTIMER_STATE_ALLOC \<or> ht_state (hl_timer s t) = HWTIMER_STATE_CALLBACK"
    and mt: "unat ticks \<le> MAX_TICKS"
  shows "\<exists>s' ac' d. hwtimer_start_int (Some t) upd ticks s = Inr (E_HWTIMER_OK, s') \<and>
     lists s' fr ac' fi \<and> kinds s' fr ac' fi \<and> hw_ok s' ac' \<and>
     inserted t (max 1 (unat ticks)) d s ac s' ac' \<and> ht_state (hl_timer s' t) = HWTIMER_STATE_ACTIVE \<and>
     (\<forall>x. x \<noteq> t \<longrightarrow> ht_state (hl_timer s' x) = ht_state (hl_timer s x))"
proof -
  define n where "n = (if ticks < HAL_TIMER_LOAD_DELTA then HAL_TIMER_LOAD_DELTA else ticks)"
  define s1 where "s1 = tset t (\<lambda>x. x\<lparr>ht_state := HWTIMER_STATE_ACTIVE\<rparr>) s"
  define s2 where "s2 = (case upd of None \<Rightarrow> s1 | Some (cb, p) \<Rightarrow> tset t (\<lambda>x. x\<lparr>ht_callback := cb, ht_param := p\<rparr>) s1)"
  have un: "unat n = max 1 (unat ticks)" "0 < unat n" "unat n \<le> MAX_TICKS"
    using mt unfolding n_def by (auto simp: HAL_TIMER_LOAD_DELTA_def word_less_nat_alt MAX_TICKS_def)
  have tnin: "t \<notin> set fr \<union> set ac \<union> set fi" using k [unfolded kinds_def, rule_format, of t] st by auto
  have fr: "hl_free s2 = hl_free s" "hl_active s2 = hl_active s" "hl_fired s2 = hl_fired s"
    "hl_value s2 = hl_value s" "hl_enabled s2 = hl_enabled s"
    "\<And>x. ht_next (hl_timer s2 x) = ht_next (hl_timer s x)" "\<And>x. tm s2 x = tm s x"
    "ht_state (hl_timer s2 t) = HWTIMER_STATE_ACTIVE"
    "\<And>x. x \<noteq> t \<Longrightarrow> ht_state (hl_timer s2 x) = ht_state (hl_timer s x)"
    unfolding s2_def s1_def by (cases upd; auto simp: tm_def split: prod.splits)+
  have l2: "lists s2 fr ac fi" by (rule lists_frame [OF l]) (rule fr)+
  have h2: "hw_ok s2 ac" by (rule hw_ok_cong [OF h]) (rule fr)+
  have due: "due_list s2 ac = due_list s ac" by (rule due_list_cong) (rule fr)+
  from start_insert_ok [OF l2 tnin h2 un(2,3)] obtain r s3 ac' d where
    run: "start_insert t n s2 = Inr (r, s3)" and L: "lists (tset t (\<lambda>x. x\<lparr>ht_time := r\<rparr>) s3) fr ac' fi"
    and H: "hw_ok (tset t (\<lambda>x. x\<lparr>ht_time := r\<rparr>) s3) ac'"
    and I: "inserted t (unat n) d s2 ac (tset t (\<lambda>x. x\<lparr>ht_time := r\<rparr>) s3) ac'"
    and S: "\<forall>x. ht_state (hl_timer (tset t (\<lambda>x. x\<lparr>ht_time := r\<rparr>) s3) x) = ht_state (hl_timer s2 x)"
    unfolding Let_def by blast
  define s' where "s' = tset t (\<lambda>x. x\<lparr>ht_time := r\<rparr>) s3"
  have "hwtimer_start_int (Some t) upd ticks s = Inr (E_HWTIMER_OK, s')"
    using st by (auto simp: hwtimer_start_int_def Let_def n_def [symmetric] s1_def [symmetric] s2_def [symmetric]
        run s'_def simp del: bindE_Inr_iff)
  moreover have "inserted t (max 1 (unat ticks)) d s ac s' ac'"
    using I un(1) by (simp add: inserted_def due s'_def)
  moreover have st': "ht_state (hl_timer s' t) = HWTIMER_STATE_ACTIVE"
    "\<forall>x. x \<noteq> t \<longrightarrow> ht_state (hl_timer s' x) = ht_state (hl_timer s x)"
    using S [folded s'_def] fr(8,9) by simp_all
  moreover have "kinds s' fr ac' fi"
  proof -
    have "set ac' = insert t (set ac)" using I by (simp add: inserted_def)
    then have "(ht_state (hl_timer s' x) = HWTIMER_STATE_FREE \<longleftrightarrow> x \<in> set fr) \<and>
        (ht_state (hl_timer s' x) = HWTIMER_STATE_ACTIVE \<longleftrightarrow> x \<in> set ac') \<and>
        (ht_state (hl_timer s' x) = HWTIMER_STATE_FIRED \<longleftrightarrow> x \<in> set fi)" for x
      using k [unfolded kinds_def, rule_format, of x] st' tnin by (cases "x = t") simp_all
    then show ?thesis by (simp add: kinds_def)
  qed
  ultimately show ?thesis using L H unfolding s'_def [symmetric] by blast
qed

section \<open>Stopping a timer\<close>

text \<open>The deadlines of the others, \<open>late\<close> ticks after the hardware timer expired, when it was
  loaded anew by \<open>d\<close> ticks more.\<close>

definition int_dues :: "(timer_id \<times> nat) list \<Rightarrow> (timer_id \<times> int) list" where
  "int_dues = map (\<lambda>(x, k). (x, int k))"

definition shifted :: "nat \<Rightarrow> int \<Rightarrow> (timer_id \<times> nat) list \<Rightarrow> (timer_id \<times> int) list" where
  "shifted late d = map (\<lambda>(x, k). (x, int (k - late) + d))"

lemma shifted_0: "shifted 0 0 = int_dues"
  by (simp add: shifted_def int_dues_def)

definition late_by :: "nat \<Rightarrow> (timer_id \<times> nat) list \<Rightarrow> (timer_id \<times> nat) list" where
  "late_by e = map (\<lambda>(x, k). (x, k - e))"

lemma late_by_0 [simp]: "late_by 0 ds = ds"
  by (simp add: late_by_def)

lemma late_walk_eq:
  assumes "seg (hl_timer s) p xs None" and "distinct xs" and "length xs < n"
  shows "\<exists>s'. late_walk n e p s = Inr s' \<and> dues 0 s' xs = late_by (unat e) (dues 0 s xs) \<and>
    total s' xs \<le> total s xs \<and> (\<exists>m. s' = s\<lparr>hl_timer := m\<rparr>) \<and>
    (\<forall>x. ht_next (hl_timer s' x) = ht_next (hl_timer s x)) \<and>
    (\<forall>x. ht_state (hl_timer s' x) = ht_state (hl_timer s x)) \<and> (\<forall>x. x \<notin> set xs \<longrightarrow> tm s' x = tm s x)"
  using assms
proof (induction xs arbitrary: n p s e)
  case Nil
  then obtain k where "n = Suc k" by (cases n) auto
  with Nil show ?case by (auto simp: late_by_def intro: exI [of _ "hl_timer s"])
next
  case (Cons x xs)
  from Cons.prems(3) obtain k where n: "n = Suc k" by (cases n) auto
  from Cons.prems(1) have p: "p = Some x" and seg: "seg (hl_timer s) (ht_next (hl_timer s x)) xs None" by auto
  from Cons.prems(2) have nin: "x \<notin> set xs" and dist: "distinct xs" by auto
  let ?d = "ht_time (hl_timer s x)"
  show ?case
  proof (cases "?d \<le> e")
    case True
    define s1 where "s1 = tset x (\<lambda>y. y\<lparr>ht_time := 0\<rparr>) s"
    have nx: "ht_next (hl_timer s1 y) = ht_next (hl_timer s y)" "ht_state (hl_timer s1 y) = ht_state (hl_timer s y)" for y
      by (simp_all add: s1_def)
    have tms: "tm s1 x = 0" "y \<noteq> x \<Longrightarrow> tm s1 y = tm s y" for y by (simp_all add: s1_def tm_def)
    have "seg (hl_timer s1) (ht_next (hl_timer s x)) xs None = seg (hl_timer s) (ht_next (hl_timer s x)) xs None"
      by (rule seg_cong) (rule nx)
    with seg have seg1: "seg (hl_timer s1) (ht_next (hl_timer s x)) xs None" by simp
    have sub: "unat (e - ?d) = unat e - tm s x" using True by (simp add: tm_def unat_sub)
    from Cons.prems(3) n have "length xs < k" by simp
    from Cons.IH [OF seg1 dist this, of "e - ?d"] obtain s' where
      IH: "late_walk k (e - ?d) (ht_next (hl_timer s x)) s1 = Inr s'"
      "dues 0 s' xs = late_by (unat e - tm s x) (dues 0 s1 xs)" "total s' xs \<le> total s1 xs"
      "\<exists>m. s' = s1\<lparr>hl_timer := m\<rparr>" "\<forall>x. ht_next (hl_timer s' x) = ht_next (hl_timer s1 x)"
      "\<forall>x. ht_state (hl_timer s' x) = ht_state (hl_timer s1 x)" "\<forall>x. x \<notin> set xs \<longrightarrow> tm s' x = tm s1 x"
      unfolding sub by blast
    have xs1: "dues 0 s1 xs = dues 0 s xs" "total s1 xs = total s xs"
      by (rule dues_cong, rule tms, use nin in blast) (rule total_cong, rule tms, use nin in blast)
    have le: "tm s x \<le> unat e" using True by (simp add: tm_def word_le_nat_alt)
    have tx: "tm s' x = 0" using IH(7) nin tms(1) by simp
    have "dues (0 + tm s x) s xs = map (\<lambda>(y, j). (y, j + tm s x)) (dues 0 s xs)" by (rule dues_add)
    then have "dues 0 s' (x # xs) = late_by (unat e) (dues 0 s (x # xs))"
      using IH(2) xs1 le tx by (simp add: late_by_def case_prod_unfold comp_def)
    moreover have "late_walk n e p s = Inr s'" using IH(1) True by (simp add: n p s1_def)
    moreover have "\<exists>m. s' = s\<lparr>hl_timer := m\<rparr>" using IH(4) by (auto simp: s1_def tset_def)
    ultimately show ?thesis using IH(3,5-7) nx tms tx xs1 by auto
  next
    case False
    define s' where "s' = tset x (\<lambda>y. y\<lparr>ht_time := ht_time y - e\<rparr>) s"
    have le: "unat e \<le> tm s x" using False by (simp add: tm_def word_le_nat_alt)
    have tms: "tm s' x = tm s x - unat e" "y \<noteq> x \<Longrightarrow> tm s' y = tm s y" for y
      using False by (simp_all add: s'_def tm_def unat_sub not_le less_imp_le)
    have xs1: "dues k s' xs = dues k s xs" "total s' xs = total s xs" for k
      by (rule dues_cong, rule tms, use nin in blast) (rule total_cong, rule tms, use nin in blast)
    have "dues 0 s' (x # xs) = late_by (unat e) (dues 0 s (x # xs))"
      using tms(1) xs1 dues_sub [OF le, of s xs] by (simp add: late_by_def)
    moreover have "late_walk n e p s = Inr s'" using False by (simp add: n p s'_def)
    moreover have "\<exists>m. s' = s\<lparr>hl_timer := m\<rparr>" by (auto simp: s'_def tset_def)
    ultimately show ?thesis using tms xs1 by (auto simp: s'_def)
  qed
qed

text \<open>What a stop keeps: the links and states of the timers, and what is not in the active list.\<close>

definition same_links :: "hwtimers \<Rightarrow> hwtimers \<Rightarrow> bool" where
  "same_links s s' \<longleftrightarrow> hl_free s' = hl_free s \<and> hl_fired s' = hl_fired s \<and>
     (\<forall>x. ht_next (hl_timer s' x) = ht_next (hl_timer s x)) \<and>
     (\<forall>x. ht_state (hl_timer s' x) = ht_state (hl_timer s x))"

text \<open>The hardware timer is loaded with the time of the new head.\<close>

lemma reload_head:
  assumes "tm s x - 1 + total s ys \<le> MAX_TICKS" and "as = x # ys"
    and s': "s' = (hal_timer_start (ht_time (hl_timer s x)) s)\<lparr>hl_active := q\<rparr>"
  shows "hw_ok s' as \<and> (\<exists>d. -1 \<le> d \<and> d \<le> 1 \<and> int_dues (due_list s' as) = shifted 0 d (dues 0 s as))"
proof -
  let ?n = "tm s x"
  have val: "unat (hl_value s') = loaded ?n" "hl_enabled s'" by (simp_all add: s' hal_timer_start_value tm_def)
  have tms: "tm s' y = tm s y" for y by (simp add: s' tm_def)
  have tot: "total s' ys = total s ys" and dys: "dues k s' ys = dues k s ys" for k
    by (rule total_cong, rule tms) (rule dues_cong, rule tms)
  have "loaded ?n \<le> 1 \<or> loaded ?n + total s ys \<le> MAX_TICKS"
    using assms(1) by (cases ?n) (auto simp: loaded_def)
  then have "hw_ok s' as"
    using assms(1,2) loaded_bounds(1) [of ?n] by (simp add: hw_ok_def val tms tot)
  moreover have "int_dues (due_list s' as) = shifted 0 (int (loaded ?n) - int ?n) (dues 0 s as)"
  proof -
    have "dues (loaded ?n) s ys = map (\<lambda>(x, k). (x, k + loaded ?n)) (dues 0 s ys)"
      "dues ?n s ys = map (\<lambda>(x, k). (x, k + ?n)) (dues 0 s ys)"
      using dues_add [of 0 "loaded ?n" s ys] dues_add [of 0 ?n s ys] by simp_all
    then show ?thesis using val(1) assms(2)
      by (simp add: int_dues_def shifted_def dys case_prod_unfold comp_def)
  qed
  moreover have "-1 \<le> int (loaded ?n) - int ?n \<and> int (loaded ?n) - int ?n \<le> 1"
    by (simp add: loaded_def)
  ultimately show ?thesis by blast
qed

definition lateness :: "u32 \<Rightarrow> hwtimers \<Rightarrow> timer_id \<Rightarrow> nat" where
  "lateness elapsed s a = (if hl_value s = 0 then unat elapsed - tm s a else 0)"

text \<open>When the counter has run out, the time that has elapsed is known to be no less than the time
  that was loaded.\<close>

definition elapsed_ok :: "u32 \<Rightarrow> hwtimers \<Rightarrow> bool" where
  "elapsed_ok elapsed s \<longleftrightarrow> (hl_value s = 0 \<longrightarrow> (case hl_active s of None \<Rightarrow> True
     | Some a \<Rightarrow> tm s a \<le> unat elapsed + 1 \<and> unat elapsed < 2 ^ 32 - 1))"

lemma unat_plus1: "unat (x :: u32) < 2 ^ 32 - 1 \<Longrightarrow> unat (x + 1) = unat x + 1"
  by (simp add: unat_word_ariths)

lemma stop_head_ok:
  assumes "lists s fr (a # as) fi" and "hw_ok s (a # as)" and "elapsed_ok elapsed s"
  shows "\<exists>s' d. stop_head elapsed a s = Inr s' \<and> hl_active s' = ptr_to as \<and> same_links s s' \<and> hw_ok s' as \<and>
    -1 \<le> d \<and> d \<le> 1 \<and> int_dues (due_list s' as) = shifted (lateness elapsed s a) d (dues (unat (hl_value s)) s as)"
proof -
  have act: "hl_active s = Some a" and seg: "seg (hl_timer s) (ht_next (hl_timer s a)) as None"
    and dist: "distinct as" "a \<notin> set as" using assms(1) by (simp_all add: lists_def)
  have nxt: "ht_next (hl_timer s a) = ptr_to as" using seg by (rule seg_ptr)
  have v: "unat (hl_value s) \<le> max 1 (tm s a)" "total s as \<le> MAX_TICKS"
    "unat (hl_value s) \<le> 1 \<or> unat (hl_value s) + total s as \<le> MAX_TICKS"
    using assms(2) by (simp_all add: hw_ok_def)
  then have ok: "hl_value s \<le> ht_time (hl_timer s a) \<or> hl_value s \<le> HAL_TIMER_LOAD_DELTA"
    by (auto simp: word_le_nat_alt tm_def HAL_TIMER_LOAD_DELTA_def max_def split: if_splits)
  show ?thesis
  proof (cases as)
    case Nil
    have "stop_head elapsed a s = Inr ((hal_timer_stop s)\<lparr>hl_active := None\<rparr>)"
      using ok nxt Nil by (simp add: stop_head_def Let_def)
    then show ?thesis using Nil by (auto simp: same_links_def hw_ok_def int_dues_def shifted_def)
  next
    case (Cons x ys)
    let ?s1 = "hal_timer_stop s"
    define prep where "prep = (if hl_value s = 0 then
             c_assert (elapsed + HAL_TIMER_LOAD_DELTA \<ge> ht_time (hl_timer s a))
               (late_walk (HWTIMER_NUM + 1)
                  (if elapsed > ht_time (hl_timer s a) then elapsed - ht_time (hl_timer s a) else 0) (Some x) ?s1)
           else Inr (tset x (\<lambda>y. y\<lparr>ht_time := ht_time y + hl_value s\<rparr>) ?s1))"
    have tot: "total s as = tm s x + total s ys" using Cons by simp
    have "\<exists>s2. prep = Inr s2 \<and> same_links s s2 \<and> tm s2 x - 1 + total s2 ys \<le> MAX_TICKS \<and>
         dues 0 s2 as = late_by (lateness elapsed s a) (dues (unat (hl_value s)) s as)"
    proof (cases "hl_value s = 0")
      case True
      have e: "tm s a \<le> unat elapsed + 1" "unat elapsed < 2 ^ 32 - 1"
        using assms(3) True act by (simp_all add: elapsed_ok_def)
      have a1: "elapsed + HAL_TIMER_LOAD_DELTA \<ge> ht_time (hl_timer s a)"
        using e by (simp add: word_le_nat_alt HAL_TIMER_LOAD_DELTA_def unat_plus1 tm_def)
      define l where "l = (if elapsed > ht_time (hl_timer s a) then elapsed - ht_time (hl_timer s a) else 0)"
      have l: "unat l = lateness elapsed s a"
        using True by (simp add: l_def lateness_def tm_def unat_sub word_less_nat_alt word_le_nat_alt)
      have "seg (hl_timer ?s1) (Some x) as None" using seg nxt Cons by simp
      moreover have "length as < HWTIMER_NUM + 1" using distinct_length15 [OF dist(1)] by simp
      ultimately obtain s2 where s2: "late_walk (HWTIMER_NUM + 1) l (Some x) ?s1 = Inr s2"
        "dues 0 s2 as = late_by (unat l) (dues 0 ?s1 as)" "total s2 as \<le> total ?s1 as"
        "\<exists>m. s2 = ?s1\<lparr>hl_timer := m\<rparr>" "\<forall>x. ht_next (hl_timer s2 x) = ht_next (hl_timer ?s1 x)"
        "\<forall>x. ht_state (hl_timer s2 x) = ht_state (hl_timer ?s1 x)"
        using late_walk_eq [of ?s1 "Some x" as "HWTIMER_NUM + 1" l] dist(1) by blast
      have tms: "tm ?s1 y = tm s y" for y by (simp add: tm_def)
      have d1: "dues 0 ?s1 as = dues 0 s as" "total ?s1 as = total s as"
        by (rule dues_cong, rule tms) (rule total_cong, rule tms)
      have "prep = Inr s2" using True a1 s2(1) by (simp only: prep_def l_def if_True c_assert_simps simp_thms)
      moreover have "same_links s s2" using s2(4-6) by (auto simp: same_links_def)
      moreover have "tm s2 x - 1 + total s2 ys \<le> MAX_TICKS" using s2(3) d1(2) v(2) Cons by simp
      moreover have "dues 0 s2 as = late_by (lateness elapsed s a) (dues (unat (hl_value s)) s as)"
        using s2(2) d1(1) l True by simp
      ultimately show ?thesis by blast
    next
      case False
      define s2 where "s2 = tset x (\<lambda>y. y\<lparr>ht_time := ht_time y + hl_value s\<rparr>) ?s1"
      have "unat (hl_value s) + tm s x < 2 ^ 32" using v(2,3) tot by (auto simp: MAX_TICKS_def)
      then have tx: "tm s2 x = tm s x + unat (hl_value s)"
        by (simp add: s2_def tm_def unat_word_ariths)
      have "x \<notin> set ys" using dist Cons by simp
      then have ty: "tm s2 y = tm s y" if "y \<in> set ys" for y using that by (auto simp: s2_def tm_def)
      have ys: "total s2 ys = total s ys" "dues k s2 ys = dues k s ys" for k
        by (rule total_cong, rule ty, assumption) (rule dues_cong, rule ty)
      have "unat (hl_value s) \<noteq> 0" using False by (simp add: unat_eq_0)
      then have "tm s2 x - 1 + total s2 ys \<le> MAX_TICKS" using v(2,3) tot tx ys(1) by auto
      moreover have "prep = Inr s2" using False by (simp add: prep_def s2_def)
      moreover have "same_links s s2" by (simp add: same_links_def s2_def)
      moreover have "dues 0 s2 as = dues (unat (hl_value s)) s as"
        using Cons tx ys(2) by (simp add: add.commute)
      ultimately show ?thesis using False by (auto simp: lateness_def)
    qed
    then obtain s2 where s2: "prep = Inr s2" "same_links s s2" "tm s2 x - 1 + total s2 ys \<le> MAX_TICKS"
      "dues 0 s2 as = late_by (lateness elapsed s a) (dues (unat (hl_value s)) s as)" by blast
    define s' where "s' = (hal_timer_start (ht_time (hl_timer s2 x)) s2)\<lparr>hl_active := Some x\<rparr>"
    have "stop_head elapsed a s = Inr s'"
      using ok nxt Cons s2(1) [unfolded prep_def] by (simp add: stop_head_def Let_def s'_def del: late_walk.simps bindE_Inr_iff)
    moreover have "same_links s s'" using s2(2) by (simp add: same_links_def s'_def)
    moreover obtain d where "hw_ok s' as" "-1 \<le> d" "d \<le> 1" "int_dues (due_list s' as) = shifted 0 d (dues 0 s2 as)"
      using reload_head [OF s2(3) Cons s'_def] by blast
    moreover have "shifted 0 d (late_by (lateness elapsed s a) ds) = shifted (lateness elapsed s a) d ds" for ds
      by (simp add: shifted_def late_by_def case_prod_unfold comp_def)
    moreover have "hl_active s' = ptr_to as" by (simp add: s'_def Cons)
    ultimately show ?thesis using s2(4) by auto
  qed
qed

text \<open>Taking a timer out of a list.\<close>

lemma seg_remove:
  assumes "seg m (Some a) (a # us @ t # vs) None" and "distinct (a # us @ t # vs)"
    and "\<And>x. x \<noteq> last (a # us) \<Longrightarrow> ht_next (m' x) = ht_next (m x)"
    and "ht_next (m' (last (a # us))) = ht_next (m t)"
  shows "seg m' (Some a) (a # us @ vs) None"
proof -
  define pre where "pre = last (a # us)"
  obtain ls where ls: "a # us = ls @ [pre]" unfolding pre_def by (metis append_butlast_last_id list.distinct(1))
  then have old: "a # us @ t # vs = ls @ pre # t # vs" and new: "a # us @ vs = ls @ pre # vs" by simp_all
  from assms(1) have "seg m (Some a) ls (Some pre)" "seg m (ht_next (m t)) vs None"
    unfolding old seg_append by auto
  moreover have "pre \<notin> set ls" "pre \<notin> set vs" using assms(2) unfolding old by auto
  then have eq: "ht_next (m' x) = ht_next (m x)" if "x \<in> set ls \<union> set vs" for x
    using that assms(3) [of x] unfolding pre_def [symmetric] by blast
  have "seg m' p ls q = seg m p ls q" "seg m' p vs q = seg m p vs q" for p q
    by (rule seg_cong, rule eq, simp) (rule seg_cong, rule eq, simp)
  ultimately show ?thesis unfolding new seg_append
    using assms(4) unfolding pre_def [symmetric] by auto
qed

lemma stop_later_ok:
  assumes l: "lists s fr (a # us @ t # vs) fi" and h: "hw_ok s (a # us @ t # vs)"
  shows "\<exists>s'. stop_active elapsed t s = Inr s' \<and> lists s' fr (a # us @ vs) fi \<and> hw_ok s' (a # us @ vs) \<and>
    (\<forall>x. ht_state (hl_timer s' x) = ht_state (hl_timer s x)) \<and>
    set (due_list s' (a # us @ vs)) = {p \<in> set (due_list s (a # us @ t # vs)). fst p \<noteq> t}"
proof -
  have act: "hl_active s = Some a" and sega: "seg (hl_timer s) (Some a) (a # us @ t # vs) None"
    using l by (simp_all add: lists_def)
  have dist: "distinct (a # us @ t # vs)" using l by (auto simp: lists_def)
  have seg: "seg (hl_timer s) (ht_next (hl_timer s a)) (us @ t # vs) None" using sega by simp
  have ne: "t \<noteq> a" "t \<notin> set us" "t \<notin> set vs" "a \<notin> set vs" using dist by auto
  have len: "length us + 1 < HWTIMER_NUM + 1" using distinct_length15 [of "a # us @ t # vs"] dist by simp
  define pre where "pre = last (a # us)"
  from find_walk_eq [OF seg len ne(2), of a]
  have walk: "find_walk (Suc HWTIMER_NUM) s t a (ht_next (hl_timer s a)) = Inr (pre, Some t)"
    unfolding pre_def by simp
  have pre: "pre \<in> set (a # us)" unfolding pre_def by (rule last_in_set) simp
  have "seg (hl_timer s) (ht_next (hl_timer s t)) vs None" using seg by (auto simp: seg_append)
  then have nt: "ht_next (hl_timer s t) = ptr_to vs" by (rule seg_ptr)
  define s1 where "s1 = tset pre (\<lambda>x. x\<lparr>ht_next := ptr_to vs\<rparr>) s"
  define s' where "s' = (case ptr_to vs of None \<Rightarrow> s1
     | Some y \<Rightarrow> tset y (\<lambda>x. x\<lparr>ht_time := ht_time x + ht_time (hl_timer s t)\<rparr>) s1)"
  have tpre: "t \<noteq> pre" using pre ne by auto
  have s1t: "hl_timer s1 t = hl_timer s t" using tpre by (simp add: s1_def)
  have run: "stop_active elapsed t s = Inr s'"
    using ne(1) act tpre by (cases "ptr_to vs")
      (simp_all add: stop_active_def walk nt s1_def s'_def Let_def del: find_walk.simps bindE_Inr_iff)
  have frame: "hl_free s' = hl_free s" "hl_active s' = hl_active s" "hl_fired s' = hl_fired s"
    "hl_value s' = hl_value s" "hl_enabled s' = hl_enabled s"
    "ht_next (hl_timer s' x) = (if x = pre then ptr_to vs else ht_next (hl_timer s x))"
    "ht_state (hl_timer s' x) = ht_state (hl_timer s x)" for x
    unfolding s'_def s1_def by (cases "ptr_to vs"; simp)+
  have "seg (hl_timer s') (Some a) (a # us @ vs) None"
    by (rule seg_remove [OF sega dist, folded pre_def]) (simp_all add: frame(6) nt)
  moreover have "pre \<notin> set fr" "pre \<notin> set fi" using l pre by (auto simp: lists_def)
  then have eq: "ht_next (hl_timer s' x) = ht_next (hl_timer s x)" if "x \<in> set fr \<union> set fi" for x
    using that frame(6) [of x] by auto
  have "seg (hl_timer s') p fr q = seg (hl_timer s) p fr q" "seg (hl_timer s') p fi q = seg (hl_timer s) p fi q" for p q
    by (rule seg_cong, rule eq, simp) (rule seg_cong, rule eq, simp)
  moreover have "distinct (fr @ (a # us @ vs) @ fi)" using l by (auto simp: lists_def)
  ultimately have L: "lists s' fr (a # us @ vs) fi" using l frame act by (simp add: lists_def)
  have same: "tm s' x = tm s x" if "x \<notin> set vs" for x
  proof (cases vs)
    case Nil
    then show ?thesis by (simp add: s'_def s1_def tm_def)
  next
    case (Cons y ys)
    with that show ?thesis by (simp add: s'_def s1_def tm_def)
  qed
  have vss: "total s' vs \<le> tm s t + total s vs \<and> dues k s' vs = dues (k + tm s t) s vs" for k
  proof (cases vs)
    case (Cons y ys)
    have "tm s y + tm s t \<le> MAX_TICKS" using h Cons by (simp add: hw_ok_def)
    then have ty: "tm s' y = tm s y + tm s t"
      by (cases "y = pre") (simp_all add: s'_def s1_def Cons tm_def unat_word_ariths MAX_TICKS_def)
    have "y \<notin> set ys" using dist Cons by simp
    then have tys: "tm s' x = tm s x" if "x \<in> set ys" for x using that by (auto simp: s'_def s1_def Cons tm_def)
    have "total s' ys = total s ys" "dues k s' ys = dues k s ys" for k
      by (rule total_cong, rule tys, assumption) (rule dues_cong, rule tys)
    then show ?thesis using ty by (simp add: Cons ac_simps)
  qed simp
  have pus: "total s' us = total s us" "dues k s' us = dues k s us" "tm s' a = tm s a" for k
    by (rule total_cong, rule same, use dist in auto) (rule dues_cong, rule same, use dist in auto, rule same, use dist in auto)
  have "total s' (us @ vs) \<le> total s (us @ t # vs)" using vss [of 0] pus by simp
  then have "hw_ok s' (a # us @ vs)" using h frame pus unfolding hw_ok_def by auto
  moreover have "set (due_list s' (a # us @ vs)) = {p \<in> set (due_list s (a # us @ t # vs)). fst p \<noteq> t}"
  proof -
    let ?v = "unat (hl_value s)"
    have "due_list s' (a # us @ vs) = (a, ?v) # dues ?v s us @ dues (?v + total s us + tm s t) s vs"
      using frame vss pus by (simp add: dues_append)
    moreover have "due_list s (a # us @ t # vs) =
        (a, ?v) # dues ?v s us @ (t, ?v + total s us + tm s t) # dues (?v + total s us + tm s t) s vs"
      by (simp add: dues_append)
    moreover have "(t, b) \<notin> set (dues k s us)" "(t, b) \<notin> set (dues k s vs)" for b k
    proof -
      have "t \<notin> fst ` set (dues k s us)" "t \<notin> fst ` set (dues k s vs)"
        using ne by (simp_all flip: list.set_map)
      then show "(t, b) \<notin> set (dues k s us)" "(t, b) \<notin> set (dues k s vs)" by force+
    qed
    ultimately show ?thesis using ne(1) by fastforce
  qed
  ultimately show ?thesis using run L frame(7) by blast
qed

lemma stop_fired_ok:
  assumes l: "lists s fr ac fi" and t: "t \<in> set fi"
  shows "\<exists>s' fi'. stop_fired t s = Inr s' \<and> lists s' fr ac fi' \<and> set fi' = set fi - {t} \<and>
    hl_value s' = hl_value s \<and> hl_enabled s' = hl_enabled s \<and> (\<forall>x. tm s' x = tm s x) \<and>
    (\<forall>x. ht_state (hl_timer s' x) = ht_state (hl_timer s x))"
proof -
  from t obtain as bs where fi: "fi = as @ t # bs" by (meson split_list)
  show ?thesis
  proof (cases as)
    case Nil
    with fi l have "hl_fired s = Some t" "seg (hl_timer s) (ht_next (hl_timer s t)) bs None" "t \<notin> set bs"
      by (simp_all add: lists_def)
    with fi Nil l show ?thesis
      by (intro exI [of _ "s\<lparr>hl_fired := ht_next (hl_timer s t)\<rparr>"] exI [of _ bs])
        (auto simp: stop_fired_def lists_def tm_def)
  next
    case (Cons a us)
    have fi: "fi = a # us @ t # bs" using fi Cons by simp
    have act: "hl_fired s = Some a" and sega: "seg (hl_timer s) (Some a) (a # us @ t # bs) None"
      using l fi by (simp_all add: lists_def)
    have dist: "distinct (a # us @ t # bs)" using l fi by (auto simp: lists_def)
    have seg: "seg (hl_timer s) (ht_next (hl_timer s a)) (us @ t # bs) None" using sega by simp
    have ne: "t \<noteq> a" "t \<notin> set us" using dist by auto
    have len: "length us + 1 < HWTIMER_NUM + 1" using distinct_length15 [of "a # us @ t # bs"] dist by simp
      define pre where "pre = last (a # us)"
    from find_walk_eq [OF seg len ne(2), of a]
    have walk: "find_walk (Suc HWTIMER_NUM) s t a (ht_next (hl_timer s a)) = Inr (pre, Some t)"
      unfolding pre_def by simp
    have pre: "pre \<in> set (a # us)" unfolding pre_def by (rule last_in_set) simp
    define s' where "s' = tset pre (\<lambda>x. x\<lparr>ht_next := ht_next (hl_timer s t)\<rparr>) s"
    have run: "stop_fired t s = Inr s'"
      using ne(1) act by (simp add: stop_fired_def walk s'_def [symmetric]
          del: find_walk.simps bindE_Inr_iff)
    have "seg (hl_timer s') (Some a) (a # us @ bs) None"
      by (rule seg_remove [OF sega dist, folded pre_def]) (simp_all add: s'_def)
    moreover have "pre \<notin> set fr" "pre \<notin> set ac" using l pre fi by (auto simp: lists_def)
    then have "seg (hl_timer s') p fr q = seg (hl_timer s) p fr q" "seg (hl_timer s') p ac q = seg (hl_timer s) p ac q" for p q
      by (simp_all add: s'_def seg_upd)
    moreover have "distinct (fr @ ac @ (a # us @ bs))" using l fi by (auto simp: lists_def)
    ultimately have "lists s' fr ac (a # us @ bs)" using l act by (simp add: lists_def s'_def)
    moreover have "set (a # us @ bs) = set fi - {t}" using fi dist by auto
    ultimately show ?thesis using run by (intro exI [of _ s'] exI [of _ "a # us @ bs"]) (simp add: s'_def tm_def)
  qed
qed

text \<open>The end of a stop: the timer is allocated and not linked.\<close>

lemma stop_finish:
  assumes "lists s fr ac fi" and "hw_ok s ac" and "t \<notin> set fr \<union> set ac \<union> set fi"
    and "\<And>x. x \<noteq> t \<Longrightarrow> (ht_state (hl_timer s x) = HWTIMER_STATE_FREE \<longleftrightarrow> x \<in> set fr) \<and>
       (ht_state (hl_timer s x) = HWTIMER_STATE_ACTIVE \<longleftrightarrow> x \<in> set ac) \<and>
       (ht_state (hl_timer s x) = HWTIMER_STATE_FIRED \<longleftrightarrow> x \<in> set fi)"
  shows "let s' = tset t (\<lambda>x. x\<lparr>ht_state := HWTIMER_STATE_ALLOC, ht_next := None\<rparr>) s in
    lists s' fr ac fi \<and> kinds s' fr ac fi \<and> hw_ok s' ac \<and> due_list s' ac = due_list s ac"
proof -
  let ?s' = "tset t (\<lambda>x. x\<lparr>ht_state := HWTIMER_STATE_ALLOC, ht_next := None\<rparr>) s"
  have tms: "tm ?s' x = tm s x" for x by (simp add: tm_def)
  have "lists ?s' fr ac fi" using assms(1,3) by (simp add: lists_def seg_upd)
  moreover have "kinds ?s' fr ac fi" using assms(3,4) by (auto simp: kinds_def)
  moreover have "hw_ok ?s' ac" by (rule hw_ok_cong [OF assms(2)]) (simp_all add: tms)
  moreover have "due_list ?s' ac = due_list s ac" by (rule due_list_cong) (simp_all add: tms)
  ultimately show ?thesis by (simp add: Let_def)
qed

text \<open>What stopping an active timer does: the hardware timer is only loaded anew when the timer was the
  first one.\<close>

lemma stop_active_ok:
  assumes l: "lists s fr ac fi" and h: "hw_ok s ac" and e: "elapsed_ok elapsed s" and t: "t \<in> set ac"
  shows "\<exists>s' ac' d late. stop_active elapsed t s = Inr s' \<and> lists s' fr ac' fi \<and> hw_ok s' ac' \<and>
    set ac' = set ac - {t} \<and> (\<forall>x. ht_state (hl_timer s' x) = ht_state (hl_timer s x)) \<and>
    -1 \<le> d \<and> d \<le> 1 \<and> (hl_active s \<noteq> Some t \<longrightarrow> d = 0 \<and> late = 0) \<and>
    (hl_active s = Some t \<longrightarrow> late = lateness elapsed s t) \<and>
    set (int_dues (due_list s' ac')) = set (shifted late d (filter (\<lambda>p. fst p \<noteq> t) (due_list s ac)))"
proof -
  from t obtain as bs where ac: "ac = as @ t # bs" by (meson split_list)
  show ?thesis
  proof (cases as)
    case Nil
    with ac have ac: "ac = t # bs" by simp
    with l have act: "hl_active s = Some t" and dist: "t \<notin> set bs" by (simp_all add: lists_def)
    from stop_head_ok [OF l [unfolded ac] h [unfolded ac] e] obtain s' d where
      s': "stop_head elapsed t s = Inr s'" "hl_active s' = ptr_to bs" "same_links s s'" "hw_ok s' bs" "-1 \<le> d" "d \<le> 1"
      "int_dues (due_list s' bs) = shifted (lateness elapsed s t) d (dues (unat (hl_value s)) s bs)" by blast
    have nx: "seg (hl_timer s') p xs q = seg (hl_timer s) p xs q" for p xs q
      by (rule seg_cong) (use s'(3) in \<open>simp add: same_links_def\<close>)
    have "seg (hl_timer s) (ht_next (hl_timer s t)) bs None" using l ac by (simp add: lists_def)
    then have "seg (hl_timer s) (ptr_to bs) bs None" using seg_ptr by metis
    then have "lists s' fr bs fi" using l ac s'(2,3) nx by (auto simp: lists_def same_links_def)
    moreover have "fst p \<noteq> t" if "p \<in> set (dues k s bs)" for p k
      using that dist by (metis fst_dues image_eqI list.set_map)
    then have "filter (\<lambda>p. fst p \<noteq> t) (due_list s ac) = dues (unat (hl_value s)) s bs"
      unfolding ac by (simp add: filter_id_conv)
    moreover have "stop_active elapsed t s = Inr s'" using act s'(1) by (simp add: stop_active_def)
    ultimately show ?thesis using s' act ac dist
      by (intro exI [of _ s'] exI [of _ bs] exI [of _ d] exI [of _ "lateness elapsed s t"])
        (simp add: same_links_def)
  next
    case (Cons a us)
    with ac have ac: "ac = a # us @ t # bs" by simp
    with l have act: "hl_active s = Some a" and dist: "t \<noteq> a" "t \<notin> set us" "t \<notin> set bs" by (auto simp: lists_def)
    from stop_later_ok [OF l [unfolded ac] h [unfolded ac]] obtain s' where
      s': "stop_active elapsed t s = Inr s'" "lists s' fr (a # us @ bs) fi" "hw_ok s' (a # us @ bs)"
      "\<forall>x. ht_state (hl_timer s' x) = ht_state (hl_timer s x)"
      "set (due_list s' (a # us @ bs)) = {p \<in> set (due_list s (a # us @ t # bs)). fst p \<noteq> t}" by blast
    have "set (int_dues (due_list s' (a # us @ bs))) =
        set (shifted 0 0 (filter (\<lambda>p. fst p \<noteq> t) (due_list s ac)))"
      unfolding shifted_0 int_dues_def set_map s'(5) set_filter ac ..
    moreover have "set (a # us @ bs) = set ac - {t}" using ac dist by auto
    ultimately show ?thesis using s'(1-4) act dist(1)
      by (intro exI [of _ s'] exI [of _ "a # us @ bs"] exI [of _ 0] exI [of _ 0]) simp
  qed
qed

text \<open>\<open>hwtimer_stop\<close> on a timer of any state.\<close>

definition stop_shift :: "u32 \<Rightarrow> timer_id \<Rightarrow> hwtimers \<Rightarrow> nat" where
  "stop_shift elapsed t s = (if hl_active s = Some t then lateness elapsed s t else 0)"

lemma stop_ok:
  assumes l: "lists s fr ac fi" and k: "kinds s fr ac fi" and h: "hw_ok s ac" and e: "elapsed_ok elapsed s"
  shows "\<exists>r s' ac' fi' d. hwtimer_stop elapsed (Some t) s = Inr (r, s') \<and>
    lists s' fr ac' fi' \<and> kinds s' fr ac' fi' \<and> hw_ok s' ac' \<and>
    set ac' = set ac - {t} \<and> set fi' = set fi - {t} \<and>
    (\<forall>x. x \<noteq> t \<longrightarrow> ht_state (hl_timer s' x) = ht_state (hl_timer s x)) \<and>
    (ht_state (hl_timer s t) \<in> {HWTIMER_STATE_ALLOC, HWTIMER_STATE_ACTIVE, HWTIMER_STATE_FIRED} \<longrightarrow>
       r = E_HWTIMER_OK \<and> ht_state (hl_timer s' t) = HWTIMER_STATE_ALLOC) \<and>
    (ht_state (hl_timer s t) \<in> {HWTIMER_STATE_FREE, HWTIMER_STATE_CALLBACK} \<longrightarrow> r \<noteq> E_HWTIMER_OK \<and> s' = s) \<and>
    -1 \<le> d \<and> d \<le> 1 \<and> (hl_active s \<noteq> Some t \<longrightarrow> d = 0) \<and>
    set (int_dues (due_list s' ac')) = set (shifted (stop_shift elapsed t s) d (filter (\<lambda>p. fst p \<noteq> t) (due_list s ac)))"
proof -
  note kt = k [unfolded kinds_def, rule_format, of t]
  have dist: "set fr \<inter> set ac = {}" "set fr \<inter> set fi = {}" "set ac \<inter> set fi = {}"
    using l by (auto simp: lists_def)
  have same: ?thesis if r: "hwtimer_stop elapsed (Some t) s = Inr (r, s)"
    and st: "ht_state (hl_timer s t) = HWTIMER_STATE_ALLOC \<and> r = E_HWTIMER_OK \<or>
      ht_state (hl_timer s t) \<in> {HWTIMER_STATE_FREE, HWTIMER_STATE_CALLBACK} \<and> r \<noteq> E_HWTIMER_OK" for r
  proof -
    have nin: "t \<notin> set ac" "t \<notin> set fi" using kt st by auto
    have act: "hl_active s \<noteq> Some t" using l nin by (cases ac) (auto simp: lists_def)
    have "(t, b) \<notin> set (due_list s ac)" for b
    proof -
      have "t \<notin> fst ` set (due_list s ac)" using nin(1) by (simp flip: list.set_map)
      then show ?thesis by force
    qed
    then have "filter (\<lambda>p. fst p \<noteq> t) (due_list s ac) = due_list s ac" by (auto simp: filter_id_conv)
    with act have "shifted (stop_shift elapsed t s) 0 (filter (\<lambda>p. fst p \<noteq> t) (due_list s ac)) = int_dues (due_list s ac)"
      by (simp add: stop_shift_def shifted_0)
    with r st l k h nin show ?thesis
      by (intro exI [of _ r] exI [of _ s] exI [of _ ac] exI [of _ fi] exI [of _ 0]) auto
  qed
  show ?thesis
  proof (cases "ht_state (hl_timer s t)")
    case HWTIMER_STATE_ACTIVE
    with kt dist have t: "t \<in> set ac" "t \<notin> set fr" "t \<notin> set fi" by auto
    from stop_active_ok [OF l h e t(1)] obtain s1 ac' d late where
      s1: "stop_active elapsed t s = Inr s1" "lists s1 fr ac' fi" "hw_ok s1 ac'" "set ac' = set ac - {t}"
      "\<forall>x. ht_state (hl_timer s1 x) = ht_state (hl_timer s x)" "-1 \<le> d" "d \<le> 1"
      "hl_active s \<noteq> Some t \<longrightarrow> d = 0 \<and> late = 0" "hl_active s = Some t \<longrightarrow> late = lateness elapsed s t"
      "set (int_dues (due_list s1 ac')) = set (shifted late d (filter (\<lambda>p. fst p \<noteq> t) (due_list s ac)))" by blast
    have late: "late = stop_shift elapsed t s" using s1(8,9) by (auto simp: stop_shift_def)
    define s' where "s' = tset t (\<lambda>x. x\<lparr>ht_state := HWTIMER_STATE_ALLOC, ht_next := None\<rparr>) s1"
    have fin: "lists s' fr ac' fi \<and> kinds s' fr ac' fi \<and> hw_ok s' ac' \<and> due_list s' ac' = due_list s1 ac'"
      using stop_finish [OF s1(2,3), of t, unfolded Let_def, folded s'_def] s1(4,5) t k [unfolded kinds_def] by auto
    have "hwtimer_stop elapsed (Some t) s = Inr (E_HWTIMER_OK, s')"
      using HWTIMER_STATE_ACTIVE s1(1) by (simp add: hwtimer_stop_def s'_def)
    moreover have "ht_state (hl_timer s' t) = HWTIMER_STATE_ALLOC"
      "\<forall>x. x \<noteq> t \<longrightarrow> ht_state (hl_timer s' x) = ht_state (hl_timer s x)" using s1(5) by (simp_all add: s'_def)
    moreover have "set fi = set fi - {t}" using t(3) by simp
    ultimately show ?thesis using fin s1(4,6-8,10) HWTIMER_STATE_ACTIVE unfolding late
      by (intro exI [of _ E_HWTIMER_OK] exI [of _ s'] exI [of _ ac'] exI [of _ fi] exI [of _ d]) simp
  next
    case HWTIMER_STATE_FIRED
    with kt dist have t: "t \<in> set fi" "t \<notin> set fr" "t \<notin> set ac" by auto
    have act: "hl_active s \<noteq> Some t" using l t(3) by (cases ac) (auto simp: lists_def)
    from stop_fired_ok [OF l t(1)] obtain s1 fi' where
      s1: "stop_fired t s = Inr s1" "lists s1 fr ac fi'" "set fi' = set fi - {t}"
      "hl_value s1 = hl_value s" "hl_enabled s1 = hl_enabled s" "\<forall>x. tm s1 x = tm s x"
      "\<forall>x. ht_state (hl_timer s1 x) = ht_state (hl_timer s x)" by blast
    have h1: "hw_ok s1 ac" by (rule hw_ok_cong [OF h]) (use s1 in auto)
    have d1: "due_list s1 ac = due_list s ac" by (rule due_list_cong) (use s1 in auto)
    define s' where "s' = tset t (\<lambda>x. x\<lparr>ht_state := HWTIMER_STATE_ALLOC, ht_next := None\<rparr>) s1"
    have fin: "lists s' fr ac fi' \<and> kinds s' fr ac fi' \<and> hw_ok s' ac \<and> due_list s' ac = due_list s1 ac"
      using stop_finish [OF s1(2) h1, of t, unfolded Let_def, folded s'_def] s1(3,7) t k [unfolded kinds_def] by auto
    have "(t, b) \<notin> set (due_list s ac)" for b
    proof -
      have "t \<notin> fst ` set (due_list s ac)" using t(3) by (simp flip: list.set_map)
      then show ?thesis by force
    qed
    then have "filter (\<lambda>p. fst p \<noteq> t) (due_list s ac) = due_list s ac" by (auto simp: filter_id_conv)
    moreover have "hwtimer_stop elapsed (Some t) s = Inr (E_HWTIMER_OK, s')"
      using HWTIMER_STATE_FIRED s1(1) by (simp add: hwtimer_stop_def s'_def)
    moreover have "ht_state (hl_timer s' t) = HWTIMER_STATE_ALLOC"
      "\<forall>x. x \<noteq> t \<longrightarrow> ht_state (hl_timer s' x) = ht_state (hl_timer s x)" using s1(7) by (simp_all add: s'_def)
    moreover have "set ac = set ac - {t}" using t(3) by simp
    ultimately show ?thesis using fin s1(3) HWTIMER_STATE_FIRED act d1
      by (intro exI [of _ E_HWTIMER_OK] exI [of _ s'] exI [of _ ac] exI [of _ fi'] exI [of _ 0])
        (simp add: stop_shift_def shifted_0)
  qed (rule same, simp add: hwtimer_stop_def, simp)+
qed

end
