(* ===== verification/HwTimerRun.thy ===== *)
theory HwTimerRun
  imports HwTimerInv
begin

text \<open>
  The interrupt handler of \<open>utils/hwtimer_list/hwtimer_list.c\<close> and the module as a whole: its
  clients, the hardware and the handler take steps in any order, from the state after the
  reset. The properties of the module hold in every state that is reached in this way.
\<close>

section \<open>The interrupt handler\<close>

lemma total_before_less: "0 < n \<Longrightarrow> total s (before s n xs) < n"
proof (induction xs arbitrary: n)
  case (Cons x xs)
  from Cons.IH [of "n - tm s x"] Cons.prems show ?case by auto
qed simp

text \<open>The timers whose times add up to no more than the time that has elapsed are fired.\<close>

lemma fire_walk_eq:
  assumes "seg (hl_timer s) lst xs None" and "distinct xs" and "length xs < n"
  shows "\<exists>s' e'. fire_walk n e pre lst s =
      Inr (e', last (pre # before s (Suc (unat e)) xs), ptr_to (after s (Suc (unat e)) xs), s') \<and>
    unat e' = unat e - total s (before s (Suc (unat e)) xs) \<and> (\<exists>m. s' = s\<lparr>hl_timer := m\<rparr>) \<and>
    (\<forall>x. ht_next (hl_timer s' x) = ht_next (hl_timer s x) \<and> tm s' x = tm s x) \<and>
    (\<forall>x. ht_state (hl_timer s' x) =
       (if x \<in> set (before s (Suc (unat e)) xs) then HWTIMER_STATE_FIRED else ht_state (hl_timer s x)))"
  using assms
proof (induction xs arbitrary: n e lst pre s)
  case Nil
  then obtain k where "n = Suc k" by (cases n) auto
  with Nil show ?case by (auto intro: exI [of _ "hl_timer s"])
next
  case (Cons x xs)
  from Cons.prems(3) obtain k where n: "n = Suc k" by (cases n) auto
  from Cons.prems(1) have p: "lst = Some x" and seg: "seg (hl_timer s) (ht_next (hl_timer s x)) xs None" by auto
  from Cons.prems(2) have nin: "x \<notin> set xs" and dist: "distinct xs" by auto
  let ?d = "ht_time (hl_timer s x)"
  show ?case
  proof (cases "?d \<le> e")
    case True
    define s1 where "s1 = tset x (\<lambda>y. y\<lparr>ht_state := HWTIMER_STATE_FIRED\<rparr>) s"
    have nx: "ht_next (hl_timer s1 y) = ht_next (hl_timer s y)" "tm s1 y = tm s y" for y
      by (simp_all add: s1_def tm_def)
    have "seg (hl_timer s1) (ht_next (hl_timer s x)) xs None = seg (hl_timer s) (ht_next (hl_timer s x)) xs None"
      by (rule seg_cong) (rule nx)
    with seg have seg1: "seg (hl_timer s1) (ht_next (hl_timer s x)) xs None" by simp
    have le: "tm s x \<le> unat e" using True by (simp add: tm_def word_le_nat_alt)
    have sub: "Suc (unat (e - ?d)) = Suc (unat e) - tm s x" using True le by (simp add: tm_def unat_sub)
    have tms: "tm s1 = tm s" by (rule ext) (rule nx)
    have same: "before s1 m ys = before s m ys" "after s1 m ys = after s m ys" "total s1 ys = total s ys" for m ys
      by (induction ys arbitrary: m) (simp_all add: tms)
    from Cons.prems(3) n have "length xs < k" by simp
    note IH = Cons.IH [OF seg1 dist this, of "e - ?d" x, unfolded same sub]
    have len: "unat (e - ?d) = unat e - tm s x" using sub le by simp
    have st: "ht_state (hl_timer s1 y) = (if y = x then HWTIMER_STATE_FIRED else ht_state (hl_timer s y))" for y
      by (simp add: s1_def)
    have ex: "(\<exists>m. s' = s1\<lparr>hl_timer := m\<rparr>) \<longleftrightarrow> (\<exists>m. s' = s\<lparr>hl_timer := m\<rparr>)" for s'
      by (simp add: s1_def tset_def)
    define bs where "bs = before s (Suc (unat e) - tm s x) xs"
    from IH [unfolded len nx st ex, folded bs_def] obtain s' e' where
      W: "fire_walk k (e - ?d) x (ht_next (hl_timer s x)) s1 =
        Inr (e', last (x # bs), ptr_to (after s (Suc (unat e) - tm s x) xs), s')"
      "unat e' = unat e - tm s x - total s bs" "\<exists>m. s' = s\<lparr>hl_timer := m\<rparr>"
      "\<forall>x. ht_next (hl_timer s' x) = ht_next (hl_timer s x) \<and> tm s' x = tm s x"
      "\<forall>y. ht_state (hl_timer s' y) = (if y \<in> set bs then HWTIMER_STATE_FIRED
         else if y = x then HWTIMER_STATE_FIRED else ht_state (hl_timer s y))" by blast
    have B: "before s (Suc (unat e)) (x # xs) = x # bs"
      "after s (Suc (unat e)) (x # xs) = after s (Suc (unat e) - tm s x) xs"
      using le by (simp_all add: bs_def less_Suc_eq_le)
    have "fire_walk n e pre lst s =
        Inr (e', last (pre # x # bs), ptr_to (after s (Suc (unat e) - tm s x) xs), s')"
      using W(1) True by (simp add: n p s1_def [symmetric])
    moreover have "\<forall>y. ht_state (hl_timer s' y) =
        (if y \<in> set (x # bs) then HWTIMER_STATE_FIRED else ht_state (hl_timer s y))"
      using W(5) by simp
    moreover have "unat e' = unat e - total s (x # bs)" using W(2) by simp
    ultimately show ?thesis unfolding B using W(3,4) by blast
  next
    case False
    then have le: "\<not> tm s x < Suc (unat e)" by (simp add: tm_def word_le_nat_alt)
    with False show ?thesis by (auto simp: n p intro: exI [of _ "hl_timer s"])
  qed
qed

lemma dues_late:
  assumes "e \<le> n + tm s x" and "tm s' x = n + tm s x - e" and "\<And>y. y \<in> set ys \<Longrightarrow> tm s' y = tm s y"
  shows "dues 0 s' (x # ys) = late_by e (dues n s (x # ys))"
proof -
  have "dues k s' ys = dues k s ys" for k by (rule dues_cong) (rule assms(3))
  then show ?thesis using dues_sub [OF assms(1), of s ys] assms(2) by (simp add: late_by_def)
qed

lemma shifted_late: "shifted 0 d (late_by e ds) = shifted e d ds"
  by (simp add: shifted_def late_by_def case_prod_unfold comp_def)

text \<open>The handler splits the active list.\<close>

lemma irq_ok:
  assumes l: "lists s fr (a # as) []" and k: "kinds s fr (a # as) []" and h: "hw_ok s (a # as)"
    and due: "\<not> ht_time (hl_timer s a) > elapsed + HAL_TIMER_LOAD_DELTA"
    and e: "e = unat elapsed - tm s a" and bs: "bs = before s (Suc e) as" and vs: "vs = after s (Suc e) as"
  shows "\<exists>s' d. hwtimer_irq elapsed s = Inr (True, s') \<and> lists s' fr vs (a # bs) \<and> kinds s' fr vs (a # bs) \<and>
    hw_ok s' vs \<and> -1 \<le> d \<and> d \<le> 1 \<and> int_dues (due_list s' vs) = shifted e d (dues (total s bs) s vs) \<and>
    (\<forall>x. x \<notin> set (a # bs) \<longrightarrow> ht_state (hl_timer s' x) = ht_state (hl_timer s x))"
proof -
  define s0 where "s0 = tset a (\<lambda>y. y\<lparr>ht_state := HWTIMER_STATE_FIRED\<rparr>) s"
  define e0 where "e0 = (if elapsed > ht_time (hl_timer s a) then elapsed - ht_time (hl_timer s a) else 0)"
  have act: "hl_active s = Some a" and seg: "seg (hl_timer s) (ht_next (hl_timer s a)) as None"
    and dist: "distinct as" "a \<notin> set as" "set fr \<inter> set as = {}" "a \<notin> set fr" "distinct fr"
    using l by (auto simp: lists_def)
  have e0: "unat e0 = e" unfolding e0_def e tm_def
    by (auto simp: unat_value_sub not_less word_le_nat_alt)
  have ts0: "tm s0 x = tm s x" for x by (simp add: s0_def tm_def)
  then have "tm s0 = tm s" by (rule ext)
  then have same: "before s0 m ys = before s m ys" "after s0 m ys = after s m ys" "total s0 ys = total s ys" for m ys
    by (induction ys arbitrary: m) simp_all
  have "seg (hl_timer s0) (ht_next (hl_timer s a)) as None = seg (hl_timer s) (ht_next (hl_timer s a)) as None"
    by (rule seg_cong) (simp add: s0_def)
  with seg have seg0: "seg (hl_timer s0) (ht_next (hl_timer s a)) as None" by simp
  have "length as < Suc HWTIMER_NUM" using distinct_length15 [OF dist(1)] by simp
  from fire_walk_eq [OF seg0 dist(1) this, of e0 a, unfolded e0 same, folded bs vs] obtain s1 e1 where
    W: "fire_walk (Suc HWTIMER_NUM) e0 a (ht_next (hl_timer s a)) s0 = Inr (e1, last (a # bs), ptr_to vs, s1)"
    "unat e1 = e - total s bs" "\<exists>m. s1 = s0\<lparr>hl_timer := m\<rparr>"
    "\<forall>x. ht_next (hl_timer s1 x) = ht_next (hl_timer s0 x) \<and> tm s1 x = tm s0 x"
    "\<forall>x. ht_state (hl_timer s1 x) = (if x \<in> set bs then HWTIMER_STATE_FIRED else ht_state (hl_timer s0 x))" by blast
  define pre where "pre = last (a # bs)"
  define s2 where "s2 = (tset pre (\<lambda>y. y\<lparr>ht_next := None\<rparr>) s1)\<lparr>hl_fired := hl_active s1, hl_active := ptr_to vs\<rparr>"
  define s3 where "s3 = (case ptr_to vs of None \<Rightarrow> s2 | Some x \<Rightarrow> tset x (\<lambda>y. y\<lparr>ht_time := ht_time y - e1\<rparr>) s2)"
  define s' where "s' = (case ptr_to vs of None \<Rightarrow> hal_timer_stop s2
     | Some x \<Rightarrow> (hal_timer_start (ht_time (hl_timer s3 x)) s3)\<lparr>hl_active := Some x\<rparr>)"
  have run: "hwtimer_irq elapsed s = Inr (True, s')"
  proof (cases "ptr_to vs")
    case None
    then show ?thesis using due W(1) unfolding hwtimer_irq_def act
      by (simp add: Let_def s0_def [symmetric] e0_def [symmetric] s'_def s2_def pre_def del: fire_walk.simps bindE_Inr_iff)
  next
    case (Some x)
    have "hl_active s3 = Some x" unfolding s3_def s2_def Some by simp
    then have "hal_timer_start v s3 = (hal_timer_start v s3)\<lparr>hl_active := Some x\<rparr>" for v
      by (simp add: hal_timer_start_def)
    then show ?thesis using due W(1) Some unfolding hwtimer_irq_def act
      by (simp add: Let_def s0_def [symmetric] e0_def [symmetric] s'_def s3_def s2_def pre_def del: fire_walk.simps bindE_Inr_iff)
  qed
  have asb: "as = bs @ vs" unfolding bs vs by (rule before_after [symmetric])
  have frame1: "hl_free s1 = hl_free s" "hl_active s1 = Some a" "ht_next (hl_timer s1 x) = ht_next (hl_timer s x)"
    "tm s1 x = tm s x"
    "ht_state (hl_timer s1 x) = (if x \<in> set (a # bs) then HWTIMER_STATE_FIRED else ht_state (hl_timer s x))" for x
    using W(3,4,5) act ts0 by (auto simp: s0_def tset_def)
  have frame: "hl_free s' = hl_free s" "hl_active s' = ptr_to vs" "hl_fired s' = Some a"
    "ht_next (hl_timer s' x) = (if x = pre then None else ht_next (hl_timer s x))"
    "ht_state (hl_timer s' x) = (if x \<in> set (a # bs) then HWTIMER_STATE_FIRED else ht_state (hl_timer s x))" for x
    unfolding s'_def s3_def s2_def using frame1 by (cases "ptr_to vs"; simp)+
  have pre: "pre \<in> set (a # bs)" unfolding pre_def by (rule last_in_set) simp
  have prn: "pre \<notin> set fr" "pre \<notin> set vs" using pre dist unfolding asb by auto
  have segs: "seg (hl_timer s') p xs q = seg (hl_timer s) p xs q" if "pre \<notin> set xs" for p xs q
    by (rule seg_cong) (use that frame(4) in auto)
  have sega: "seg (hl_timer s) (Some a) (a # bs @ vs) None" using l asb by (simp add: lists_def)
  then obtain p where "seg (hl_timer s) (Some a) (a # bs) p" "seg (hl_timer s) p vs None"
    using seg_append [of "hl_timer s" "Some a" "a # bs" vs None] by auto
  moreover have "p = ptr_to vs" using calculation(2) by (rule seg_ptr)
  ultimately have segv: "seg (hl_timer s) (ptr_to vs) vs None" and segb: "seg (hl_timer s) (Some a) (a # bs) (ptr_to vs)" by auto
  obtain ls where ls: "a # bs = ls @ [pre]" unfolding pre_def by (metis append_butlast_last_id list.distinct(1))
  have "pre \<notin> set ls" using dist unfolding asb using ls by (metis distinct.simps(2) distinct_append not_distinct_conv_prefix set_append UnCI append_Nil2)
  then have "seg (hl_timer s') (Some a) (ls @ [pre]) None"
    using segb frame(4) segs unfolding ls seg_append by auto
  then have segf: "seg (hl_timer s') (Some a) (a # bs) None" using ls by simp
  have "seg (hl_timer s') (hl_free s) fr None" using l segs [OF prn(1)] by (simp add: lists_def)
  then have L: "lists s' fr vs (a # bs)"
    using segf segs [OF prn(2)] segv dist unfolding asb by (auto simp: lists_def frame)
  have K: "kinds s' fr vs (a # bs)"
    using k dist unfolding kinds_def asb frame(5) by auto
  have "hw_ok s' vs \<and> (\<exists>d. -1 \<le> d \<and> d \<le> 1 \<and> int_dues (due_list s' vs) = shifted e d (dues (total s bs) s vs))"
  proof (cases vs)
    case Nil
    then show ?thesis by (auto simp: s'_def hw_ok_def int_dues_def shifted_def intro: exI [of _ 0])
  next
    case (Cons x ys)
    have "Suc e - total s bs \<le> tm s x" using after_hd [of s "Suc e" as x ys] Cons unfolding bs vs by simp
    moreover have "total s bs < Suc e" unfolding bs by (rule total_before_less) simp
    ultimately have ge: "e < total s bs + tm s x" "total s bs \<le> e" by auto
    have t2: "tm s2 y = tm s y" for y unfolding s2_def using frame1(4) [unfolded tm_def] by (simp add: tm_def)
    have e1: "unat e1 \<le> tm s2 x" using W(2) ge t2 by simp
    have tx: "tm s3 x = total s bs + tm s x - e"
      using e1 W(2) ge t2 unfolding s3_def Cons by (simp add: tm_def unat_sub word_le_nat_alt)
    have "x \<notin> set ys" using dist(1) unfolding asb Cons by simp
    then have ty: "tm s3 y = tm s y" if "y \<in> set ys" for y
      using t2 that unfolding s3_def Cons by (auto simp: tm_def)
    have due: "dues 0 s3 vs = late_by e (dues (total s bs) s vs)"
      unfolding Cons by (rule dues_late [OF _ tx ty]) (use ge in simp_all)
    have "total s3 ys = total s ys" by (rule total_cong) (rule ty)
    moreover have "total s as \<le> MAX_TICKS" using h by (simp add: hw_ok_def)
    ultimately have "tm s3 x - 1 + total s3 ys \<le> MAX_TICKS" using tx ge unfolding asb Cons by simp
    from reload_head [OF this Cons, of s' "Some x"] show ?thesis
      unfolding due shifted_late by (simp add: s'_def Cons)
  qed
  with run L K frame(5) show ?thesis by auto
qed

section \<open>The calls of the clients\<close>

datatype client_call =
    Alloc "nat option" u32
  | Free "timer_id option"
  | Start "timer_id option" u32
  | Update_Then_Start "timer_id option" "nat option" u32 u32
  | Update "timer_id option" "nat option" u32
  | Stop u32 "timer_id option"

fun timer_call :: "client_call \<Rightarrow> hwtimers \<Rightarrow> hwtimers res" where
  "timer_call (Alloc cb p) s = bindE (hwtimer_alloc cb p s) (\<lambda>(h, s'). Inr s')"
| "timer_call (Free h) s = Inr (snd (hwtimer_free h s))"
| "timer_call (Start h ticks) s = bindE (hwtimer_start h ticks s) (\<lambda>(r, s'). Inr s')"
| "timer_call (Update_Then_Start h cb p ticks) s =
     bindE (hwtimer_update_then_start h cb p ticks s) (\<lambda>(r, s'). Inr s')"
| "timer_call (Update h cb p) s = Inr (snd (hwtimer_update h cb p s))"
| "timer_call (Stop elapsed h) s = bindE (hwtimer_stop elapsed h s) (\<lambda>(r, s'). Inr s')"

text \<open>The arguments the module is used with: a time that leaves a tick below the wrap-around, and an
  elapsed time that the hardware can report.\<close>

fun call_ok :: "client_call \<Rightarrow> hwtimers \<Rightarrow> bool" where
  "call_ok (Start h ticks) s \<longleftrightarrow> unat ticks \<le> MAX_TICKS"
| "call_ok (Update_Then_Start h cb p ticks) s \<longleftrightarrow> unat ticks \<le> MAX_TICKS"
| "call_ok (Stop elapsed h) s \<longleftrightarrow> elapsed_ok elapsed s"
| "call_ok _ s \<longleftrightarrow> True"

text \<open>The invariant, with the fired timers and the timer whose callback runs.\<close>

definition good :: "timer_id option \<Rightarrow> timer_id list \<Rightarrow> hwtimers \<Rightarrow> bool" where
  "good cur fi s \<longleftrightarrow> (\<exists>fr ac. lists s fr ac fi \<and> kinds s fr ac fi \<and> hw_ok s ac) \<and>
     (\<forall>x. ht_state (hl_timer s x) = HWTIMER_STATE_CALLBACK \<longrightarrow> cur = Some x)"

lemma goodI:
  assumes "lists s fr ac fi" "kinds s fr ac fi" "hw_ok s ac"
    and "\<And>x. ht_state (hl_timer s x) = HWTIMER_STATE_CALLBACK \<Longrightarrow> cur = Some x"
  shows "good cur fi s"
  using assms by (auto simp: good_def)

lemma alloc_ok:
  assumes "good cur fi s"
  shows "\<exists>h s'. hwtimer_alloc cb p s = Inr (h, s') \<and> good cur fi s'"
proof -
  from assms obtain fr ac where g: "lists s fr ac fi" "kinds s fr ac fi" "hw_ok s ac"
    "\<And>x. ht_state (hl_timer s x) = HWTIMER_STATE_CALLBACK \<Longrightarrow> cur = Some x" unfolding good_def by auto
  show ?thesis
  proof (cases fr)
    case Nil
    with g(1) have "hl_free s = None" by (simp add: lists_def)
    with assms show ?thesis by (simp add: hwtimer_alloc_def)
  next
    case (Cons t ts)
    then have free: "hl_free s = Some t" "ht_state (hl_timer s t) = HWTIMER_STATE_FREE"
      using g(1,2) by (auto simp: lists_def kinds_def)
    define s' where "s' = tset t (\<lambda>x. x\<lparr>ht_state := HWTIMER_STATE_ALLOC, ht_callback := cb, ht_param := p, ht_next := None\<rparr>)
      (s\<lparr>hl_free := ht_next (hl_timer s t)\<rparr>)"
    have run: "hwtimer_alloc cb p s = Inr (Some t, s')" using free by (simp add: hwtimer_alloc_def Let_def s'_def)
    have nin: "t \<notin> set ts" "t \<notin> set ac" "t \<notin> set fi" using g(1) Cons by (auto simp: lists_def)
    have tms: "tm s' x = tm s x" for x by (simp add: s'_def tm_def)
    have "lists s' ts ac fi" using g(1) Cons nin by (simp add: lists_def s'_def seg_upd)
    moreover have "kinds s' ts ac fi" using g(2) Cons nin by (auto simp: kinds_def s'_def)
    moreover have "hw_ok s' ac" by (rule hw_ok_cong [OF g(3)]) (simp_all add: s'_def tm_def)
    ultimately have "good cur fi s'" by (rule goodI) (use g(4) in \<open>auto simp: s'_def split: if_splits\<close>)
    with run show ?thesis by simp
  qed
qed

lemma free_ok:
  assumes "good cur fi s"
  shows "good cur fi (snd (hwtimer_free h s))"
proof (cases "\<exists>t. h = Some t \<and> ht_state (hl_timer s t) = HWTIMER_STATE_ALLOC")
  case True
  then obtain t where t: "h = Some t" "ht_state (hl_timer s t) = HWTIMER_STATE_ALLOC" by auto
  from assms obtain fr ac where g: "lists s fr ac fi" "kinds s fr ac fi" "hw_ok s ac"
    "\<And>x. ht_state (hl_timer s x) = HWTIMER_STATE_CALLBACK \<Longrightarrow> cur = Some x" unfolding good_def by auto
  define s' where "s' = (tset t (\<lambda>x. x\<lparr>ht_state := HWTIMER_STATE_FREE, ht_next := hl_free s\<rparr>) s)\<lparr>hl_free := Some t\<rparr>"
  have nin: "t \<notin> set fr" "t \<notin> set ac" "t \<notin> set fi" using g(2) [unfolded kinds_def, rule_format, of t] t by auto
  have "lists s' (t # fr) ac fi" using g(1) nin by (simp add: lists_def s'_def seg_upd)
  moreover have "kinds s' (t # fr) ac fi" using g(2) nin by (auto simp: kinds_def s'_def)
  moreover have "hw_ok s' ac" by (rule hw_ok_cong [OF g(3)]) (simp_all add: s'_def tm_def)
  ultimately have "good cur fi s'" by (rule goodI) (use g(4) in \<open>auto simp: s'_def split: if_splits\<close>)
  then show ?thesis using t by (simp add: hwtimer_free_def s'_def)
next
  case False
  with assms show ?thesis by (auto simp: hwtimer_free_def split: option.splits)
qed

lemma update_ok:
  assumes "good cur fi s"
  shows "good cur fi (snd (hwtimer_update h cb p s))"
proof -
  have "good cur fi (tset t (\<lambda>x. x\<lparr>ht_callback := cb, ht_param := p\<rparr>) s)" for t
  proof -
    let ?s' = "tset t (\<lambda>x. x\<lparr>ht_callback := cb, ht_param := p\<rparr>) s"
    from assms obtain fr ac where g: "lists s fr ac fi" "kinds s fr ac fi" "hw_ok s ac"
      "\<And>x. ht_state (hl_timer s x) = HWTIMER_STATE_CALLBACK \<Longrightarrow> cur = Some x" unfolding good_def by auto
    have st: "ht_state (hl_timer ?s' x) = ht_state (hl_timer s x)" for x by simp
    have "lists ?s' fr ac fi" by (rule lists_frame [OF g(1)]) simp_all
    moreover have "kinds ?s' fr ac fi" using g(2) unfolding kinds_def st .
    moreover have "hw_ok ?s' ac" by (rule hw_ok_cong [OF g(3)]) (simp_all add: tm_def)
    ultimately show ?thesis by (rule goodI) (rule g(4), unfold st)
  qed
  with assms show ?thesis by (auto simp: hwtimer_update_def split: option.splits)
qed

lemma start_int_good:
  assumes "good cur fi s" and "unat ticks \<le> MAX_TICKS"
  shows "\<exists>r s'. hwtimer_start_int h upd ticks s = Inr (r, s') \<and> good cur fi s'"
proof (cases "\<exists>t. h = Some t \<and> (ht_state (hl_timer s t) = HWTIMER_STATE_ALLOC \<or> ht_state (hl_timer s t) = HWTIMER_STATE_CALLBACK)")
  case True
  then obtain t where t: "h = Some t"
    "ht_state (hl_timer s t) = HWTIMER_STATE_ALLOC \<or> ht_state (hl_timer s t) = HWTIMER_STATE_CALLBACK" by auto
  from assms obtain fr ac where g: "lists s fr ac fi" "kinds s fr ac fi" "hw_ok s ac"
    "\<And>x. ht_state (hl_timer s x) = HWTIMER_STATE_CALLBACK \<Longrightarrow> cur = Some x" unfolding good_def by auto
  from start_ok [OF g(1-3) t(2) assms(2), of upd] obtain s' ac' where
    s': "hwtimer_start_int (Some t) upd ticks s = Inr (E_HWTIMER_OK, s')" "lists s' fr ac' fi" "kinds s' fr ac' fi"
    "hw_ok s' ac'" "ht_state (hl_timer s' t) = HWTIMER_STATE_ACTIVE"
    "\<forall>x. x \<noteq> t \<longrightarrow> ht_state (hl_timer s' x) = ht_state (hl_timer s x)" by blast
  have "good cur fi s'"
  proof (rule goodI [OF s'(2-4)])
    fix x assume "ht_state (hl_timer s' x) = HWTIMER_STATE_CALLBACK"
    with s'(5,6) g(4) [of x] show "cur = Some x" by (cases "x = t") simp_all
  qed
  with s'(1) t(1) show ?thesis by blast
next
  case False
  with assms show ?thesis by (auto simp: hwtimer_start_int_def Let_def split: option.splits)
qed

lemma stop_good:
  assumes "good cur fi s" and "elapsed_ok elapsed s"
  shows "\<exists>r s' fi'. hwtimer_stop elapsed h s = Inr (r, s') \<and> good cur fi' s' \<and> set fi' \<subseteq> set fi"
proof (cases h)
  case None
  with assms(1) show ?thesis by (auto simp: hwtimer_stop_def)
next
  case (Some t)
  from assms obtain fr ac where g: "lists s fr ac fi" "kinds s fr ac fi" "hw_ok s ac"
    "\<And>x. ht_state (hl_timer s x) = HWTIMER_STATE_CALLBACK \<Longrightarrow> cur = Some x" unfolding good_def by auto
  from stop_ok [OF g(1-3) assms(2), of t] obtain r s' ac' fi' where
    s': "hwtimer_stop elapsed (Some t) s = Inr (r, s')" "lists s' fr ac' fi'" "kinds s' fr ac' fi'" "hw_ok s' ac'"
    "set fi' = set fi - {t}" "\<forall>x. x \<noteq> t \<longrightarrow> ht_state (hl_timer s' x) = ht_state (hl_timer s x)"
    "ht_state (hl_timer s t) \<in> {HWTIMER_STATE_ALLOC, HWTIMER_STATE_ACTIVE, HWTIMER_STATE_FIRED} \<longrightarrow>
       ht_state (hl_timer s' t) = HWTIMER_STATE_ALLOC"
    "ht_state (hl_timer s t) \<in> {HWTIMER_STATE_FREE, HWTIMER_STATE_CALLBACK} \<longrightarrow> s' = s" by blast
  have "good cur fi' s'"
  proof (rule goodI [OF s'(2-4)])
    fix x assume x: "ht_state (hl_timer s' x) = HWTIMER_STATE_CALLBACK"
    then have "ht_state (hl_timer s x) = HWTIMER_STATE_CALLBACK"
      using s'(6-8) by (cases "x = t"; cases "ht_state (hl_timer s t)") auto
    then show "cur = Some x" by (rule g(4))
  qed
  with s'(1,5) Some show ?thesis by blast
qed

text \<open>No call of a client fails, and none adds to the fired timers.\<close>

lemma call_good:
  assumes "good cur fi s" and "call_ok c s"
  shows "\<exists>s' fi'. timer_call c s = Inr s' \<and> good cur fi' s' \<and> set fi' \<subseteq> set fi"
proof (cases c)
  case (Alloc cb p)
  with alloc_ok [OF assms(1), of cb p] show ?thesis by auto
next
  case (Start h ticks)
  with start_int_good [OF assms(1), of ticks h None] assms(2) show ?thesis by (auto simp: hwtimer_start_def)
next
  case (Update_Then_Start h cb p ticks)
  with start_int_good [OF assms(1), of ticks h "Some (cb, p)"] assms(2) show ?thesis
    by (auto simp: hwtimer_update_then_start_def)
next
  case (Stop elapsed h)
  with stop_good [OF assms(1), of elapsed h] assms(2) show ?thesis by auto
next
  case (Free h)
  with free_ok [OF assms(1), of h] show ?thesis by auto
next
  case (Update h cb p)
  with update_ok [OF assms(1), of h cb p] show ?thesis by auto
qed

section \<open>The steps of the handler and of the hardware\<close>

lemma irq_good:
  assumes "good None [] s"
  shows "\<exists>fired s' fi. hwtimer_irq elapsed s = Inr (fired, s') \<and> good None fi s' \<and> (\<not> fired \<longrightarrow> fi = [])"
proof -
  from assms obtain fr ac where g: "lists s fr ac []" "kinds s fr ac []" "hw_ok s ac"
    "\<And>x. ht_state (hl_timer s x) \<noteq> HWTIMER_STATE_CALLBACK" unfolding good_def by auto
  have same: "good None [] s'" if "hl_timer s' = hl_timer s" "hl_free s' = hl_free s" "hl_active s' = hl_active s"
    "hl_fired s' = hl_fired s" "hl_enabled s' = hl_enabled s" "hl_value s' = hl_value s" for s'
  proof (rule goodI)
    show "lists s' fr ac []" by (rule lists_frame [OF g(1)]) (simp_all add: that)
    show "kinds s' fr ac []" using g(2) by (simp add: kinds_def that)
    show "hw_ok s' ac" by (rule hw_ok_cong [OF g(3)]) (simp_all add: that tm_def)
  qed (use g(4) that in simp)
  show ?thesis
  proof (cases ac)
    case Nil
    with g have "hl_active s = None" "\<not> hl_enabled s" by (simp_all add: lists_def hw_ok_def)
    then have "hwtimer_irq elapsed s = Inr (False, s\<lparr>hl_err_null := hl_err_null s + 1\<rparr>)" by (simp add: hwtimer_irq_def)
    then show ?thesis using same [of "s\<lparr>hl_err_null := hl_err_null s + 1\<rparr>"] by auto
  next
    case (Cons a as)
    show ?thesis
    proof (cases "ht_time (hl_timer s a) > elapsed + HAL_TIMER_LOAD_DELTA")
      case True
      with Cons g have "hl_active s = Some a" "hl_enabled s" by (simp_all add: lists_def hw_ok_def)
      with True have "hwtimer_irq elapsed s = Inr (False, s\<lparr>hl_err_early := hl_err_early s + 1\<rparr>)" by (simp add: hwtimer_irq_def)
      then show ?thesis using same [of "s\<lparr>hl_err_early := hl_err_early s + 1\<rparr>"] by auto
    next
      case False
      let ?bs = "before s (Suc (unat elapsed - tm s a)) as"
      from irq_ok [OF g(1-3) [unfolded Cons] False refl refl refl] obtain s' vs where
        s': "hwtimer_irq elapsed s = Inr (True, s')" "lists s' fr vs (a # ?bs)" "kinds s' fr vs (a # ?bs)" "hw_ok s' vs"
        "\<forall>x. x \<notin> set (a # ?bs) \<longrightarrow> ht_state (hl_timer s' x) = ht_state (hl_timer s x)" by blast
      have "good None (a # ?bs) s'"
      proof (rule goodI [OF s'(2-4)])
        fix x assume x: "ht_state (hl_timer s' x) = HWTIMER_STATE_CALLBACK"
        have "ht_state (hl_timer s' x) = HWTIMER_STATE_FIRED \<longleftrightarrow> x \<in> set (a # ?bs)" using s'(3) by (auto simp: kinds_def)
        with x s'(5) g(4) [of x] show "None = Some x" by auto
      qed
      with s'(1) show ?thesis by blast
    qed
  qed
qed

lemma take_good:
  assumes "good None fi s" and "hl_fired s = Some l"
  shows "\<exists>fi'. fi = l # fi' \<and> good (Some l) fi' (take_fired l s)"
proof -
  from assms obtain fr ac where g: "lists s fr ac fi" "kinds s fr ac fi" "hw_ok s ac"
    "\<And>x. ht_state (hl_timer s x) \<noteq> HWTIMER_STATE_CALLBACK" unfolding good_def by auto
  from g(1) assms(2) obtain fi' where fi: "fi = l # fi'" by (cases fi) (auto simp: lists_def)
  define s' where "s' = take_fired l s"
  have frame: "hl_free s' = hl_free s" "hl_active s' = hl_active s" "hl_fired s' = ht_next (hl_timer s l)"
    "hl_value s' = hl_value s" "hl_enabled s' = hl_enabled s"
    "hl_timer s' = (hl_timer s)(l := (hl_timer s l)\<lparr>ht_state := HWTIMER_STATE_CALLBACK, ht_next := None\<rparr>)"
    by (simp_all add: s'_def take_fired_def Let_def split: option.split)
  have nin: "l \<notin> set fr" "l \<notin> set ac" "l \<notin> set fi'" using g(1) fi by (auto simp: lists_def)
  have "lists s' fr ac fi'" using g(1) fi nin by (simp add: lists_def frame seg_upd)
  moreover have "kinds s' fr ac fi'" using g(2) fi nin by (auto simp: kinds_def frame)
  moreover have "hw_ok s' ac" by (rule hw_ok_cong [OF g(3)]) (use nin in \<open>auto simp: frame tm_def\<close>)
  ultimately have "good (Some l) fi' s'" by (rule goodI) (use g(4) in \<open>auto simp: frame split: if_splits\<close>)
  with fi show ?thesis by (simp add: s'_def)
qed

lemma callback_done_good:
  assumes "good (Some l) fi s"
  shows "good None fi (callback_done l s)"
proof (cases "ht_state (hl_timer s l) = HWTIMER_STATE_CALLBACK")
  case True
  from assms obtain fr ac where g: "lists s fr ac fi" "kinds s fr ac fi" "hw_ok s ac"
    "\<And>x. ht_state (hl_timer s x) = HWTIMER_STATE_CALLBACK \<Longrightarrow> x = l" unfolding good_def by auto
  let ?s' = "tset l (\<lambda>y. y\<lparr>ht_state := HWTIMER_STATE_ALLOC\<rparr>) s"
  have nin: "l \<notin> set fr" "l \<notin> set ac" "l \<notin> set fi"
    using g(2) [unfolded kinds_def, rule_format, of l] True by auto
  have "lists ?s' fr ac fi" by (rule lists_frame [OF g(1)]) simp_all
  moreover have "kinds ?s' fr ac fi" using g(2) nin by (auto simp: kinds_def)
  moreover have "hw_ok ?s' ac" by (rule hw_ok_cong [OF g(3)]) (simp_all add: tm_def)
  ultimately have "good None fi ?s'" by (rule goodI) (use g(4) in \<open>auto split: if_splits\<close>)
  with True show ?thesis by (simp add: callback_done_def)
next
  case False
  from assms obtain fr ac where g: "lists s fr ac fi" "kinds s fr ac fi" "hw_ok s ac"
    "\<And>x. ht_state (hl_timer s x) = HWTIMER_STATE_CALLBACK \<Longrightarrow> x = l" unfolding good_def by auto
  have "good None fi s" by (rule goodI [OF g(1-3)]) (use g(4) False in blast)
  with False show ?thesis by (simp add: callback_done_def)
qed

text \<open>Time passes for the counter while it is enabled.\<close>

definition timer_tick :: "u32 \<Rightarrow> hwtimers \<Rightarrow> hwtimers" where
  "timer_tick n s = (if hl_enabled s then s\<lparr>hl_value := (if hl_value s \<le> n then 0 else hl_value s - n)\<rparr> else s)"

lemma tick_good:
  assumes "good cur fi s"
  shows "good cur fi (timer_tick n s)"
proof -
  from assms obtain fr ac where g: "lists s fr ac fi" "kinds s fr ac fi" "hw_ok s ac"
    "\<And>x. ht_state (hl_timer s x) = HWTIMER_STATE_CALLBACK \<Longrightarrow> cur = Some x" unfolding good_def by auto
  let ?s' = "timer_tick n s"
  have frame: "hl_timer ?s' = hl_timer s" "hl_free ?s' = hl_free s" "hl_active ?s' = hl_active s"
    "hl_fired ?s' = hl_fired s" "hl_enabled ?s' = hl_enabled s"
    by (simp_all add: timer_tick_def)
  have val: "unat (hl_value ?s') \<le> unat (hl_value s)"
    by (simp add: timer_tick_def unat_sub not_le less_imp_le)
  have tms: "tm ?s' x = tm s x" for x by (simp add: tm_def frame)
  have "lists ?s' fr ac fi" "kinds ?s' fr ac fi" using g(1,2) by (simp_all add: lists_def kinds_def frame)
  moreover have "hw_ok ?s' ac"
  proof (cases ac)
    case (Cons a as)
    have "total ?s' as = total s as" by (rule total_cong) (rule tms)
    with g(3) val Cons show ?thesis by (auto simp: hw_ok_def frame tms)
  qed (use g(3) in \<open>simp add: hw_ok_def frame\<close>)
  ultimately show ?thesis by (rule goodI) (use g(4) in \<open>simp add: frame\<close>)
qed

section \<open>All the steps\<close>

record timer_system =
  ts_timers :: hwtimers
  ts_handler :: bool
  ts_cur :: "timer_id option"

datatype timer_step = Call client_call | Tick u32 | Irq u32 | Take | Return | Leave

text \<open>The handler is not interrupted by itself; it runs one callback after the other.\<close>

fun allowed :: "timer_step \<Rightarrow> timer_system \<Rightarrow> bool" where
  "allowed (Call c) w \<longleftrightarrow> call_ok c (ts_timers w)"
| "allowed (Tick n) w \<longleftrightarrow> True"
| "allowed (Irq elapsed) w \<longleftrightarrow> \<not> ts_handler w"
| "allowed Take w \<longleftrightarrow> ts_handler w \<and> ts_cur w = None \<and> hl_fired (ts_timers w) \<noteq> None"
| "allowed Return w \<longleftrightarrow> ts_cur w \<noteq> None"
| "allowed Leave w \<longleftrightarrow> ts_handler w \<and> ts_cur w = None \<and> hl_fired (ts_timers w) = None"

fun exec_step :: "timer_step \<Rightarrow> timer_system \<Rightarrow> timer_system res" where
  "exec_step (Call c) w = bindE (timer_call c (ts_timers w)) (\<lambda>s. Inr (w\<lparr>ts_timers := s\<rparr>))"
| "exec_step (Tick n) w = Inr (w\<lparr>ts_timers := timer_tick n (ts_timers w)\<rparr>)"
| "exec_step (Irq elapsed) w =
     bindE (hwtimer_irq elapsed (ts_timers w)) (\<lambda>(fired, s). Inr (w\<lparr>ts_timers := s, ts_handler := fired\<rparr>))"
| "exec_step Take w =
     (case hl_fired (ts_timers w) of
        None \<Rightarrow> Inr w
      | Some l \<Rightarrow> Inr (w\<lparr>ts_timers := take_fired l (ts_timers w), ts_cur := Some l\<rparr>))"
| "exec_step Return w =
     (case ts_cur w of
        None \<Rightarrow> Inr w
      | Some l \<Rightarrow> Inr (w\<lparr>ts_timers := callback_done l (ts_timers w), ts_cur := None\<rparr>))"
| "exec_step Leave w = Inr (w\<lparr>ts_handler := False\<rparr>)"

text \<open>The memory of the module after the reset.\<close>

definition boot_timers :: hwtimers where
  "boot_timers = \<lparr>hl_timer = (\<lambda>_. \<lparr>ht_state = HWTIMER_STATE_FREE, ht_next = None, ht_time = 0, ht_callback = None,
       ht_param = 0\<rparr>),
     hl_free = None, hl_active = None, hl_fired = None, hl_inited = False, hl_err_null = 0, hl_err_early = 0,
     hl_enabled = False, hl_value = 0, hl_calls = []\<rparr>"

inductive timers_reach :: "timer_system \<Rightarrow> bool" where
  reach_init: "timers_reach \<lparr>ts_timers = hwtimer_init boot_timers, ts_handler = False, ts_cur = None\<rparr>"
| reach_step: "timers_reach w \<Longrightarrow> allowed p w \<Longrightarrow> exec_step p w = Inr w' \<Longrightarrow> timers_reach w'"

definition system_good :: "timer_system \<Rightarrow> bool" where
  "system_good w \<longleftrightarrow> (\<exists>fi. good (ts_cur w) fi (ts_timers w) \<and> (\<not> ts_handler w \<longrightarrow> fi = [] \<and> ts_cur w = None))"

lemma all_timers: "x \<in> set [0, 1, 2, 3, 4, 5, 6, 7, 8, 9, 10, 11, 12, 13, 14]" for x :: timer_id
proof -
  have "card (set [0, 1, 2, 3, 4, 5, 6, 7, 8, 9, 10, 11, 12, 13, 14 :: timer_id]) = CARD(timer_id)" by simp
  then have "set [0, 1, 2, 3, 4, 5, 6, 7, 8, 9, 10, 11, 12, 13, 14 :: timer_id] = UNIV"
    by (intro card_subset_eq) simp_all
  then show ?thesis by blast
qed

lemma init_state: "hwtimer_init boot_timers = \<lparr>hl_timer = (\<lambda>t. \<lparr>ht_state = HWTIMER_STATE_FREE,
       ht_next = (if t = 14 then None else Some (t + 1)), ht_time = 0, ht_callback = None, ht_param = 0\<rparr>),
     hl_free = Some 0, hl_active = None, hl_fired = None, hl_inited = True, hl_err_null = 0, hl_err_early = 0,
     hl_enabled = False, hl_value = 0, hl_calls = []\<rparr>"
proof -
  have up: "[0..<14] = [0, 1, 2, 3, 4, 5, 6, 7, 8, 9, 10, 11, 12, 13]" by (simp add: upt_rec)
  have "hl_timer (hwtimer_init boot_timers) x =
     \<lparr>ht_state = HWTIMER_STATE_FREE, ht_next = (if x = 14 then None else Some (x + 1)), ht_time = 0,
      ht_callback = None, ht_param = 0\<rparr>" for x
    using all_timers [of x] by (auto simp: hwtimer_init_def boot_timers_def Let_def HWTIMER_NUM_def up tset_def)
  then show ?thesis by (simp add: hwtimer_init_def boot_timers_def Let_def HWTIMER_NUM_def up tset_def fun_eq_iff)
qed

lemma init_good: "good None [] (hwtimer_init boot_timers)"
proof (rule goodI)
  let ?s = "hwtimer_init boot_timers" and ?all = "[0, 1, 2, 3, 4, 5, 6, 7, 8, 9, 10, 11, 12, 13, 14] :: timer_id list"
  show "lists ?s ?all [] []" by (simp add: init_state lists_def)
  show "kinds ?s ?all [] []" using all_timers by (simp add: init_state kinds_def del: set_simps list.set)
  show "hw_ok ?s []" by (simp add: init_state hw_ok_def)
qed (simp add: init_state)

lemma step_good:
  assumes "system_good w" and "allowed p w"
  shows "\<exists>w'. exec_step p w = Inr w' \<and> system_good w'"
proof -
  from assms(1) obtain fi where g: "good (ts_cur w) fi (ts_timers w)"
    "\<not> ts_handler w \<longrightarrow> fi = [] \<and> ts_cur w = None" unfolding system_good_def by auto
  show ?thesis
  proof (cases p)
    case (Call c)
    with assms(2) have "call_ok c (ts_timers w)" by simp
    from call_good [OF g(1) this] obtain s' fi' where
      "timer_call c (ts_timers w) = Inr s'" "good (ts_cur w) fi' s'" "set fi' \<subseteq> set fi" by blast
    with g(2) Call show ?thesis by (auto simp: system_good_def)
  next
    case (Tick n)
    with tick_good [OF g(1), of n] g(2) show ?thesis by (auto simp: system_good_def)
  next
    case (Irq e)
    with assms(2) g have n: "good None [] (ts_timers w)" "ts_cur w = None" by auto
    from irq_good [OF n(1), of e] obtain fired s' fi' where
      "hwtimer_irq e (ts_timers w) = Inr (fired, s')" "good None fi' s'" "\<not> fired \<longrightarrow> fi' = []" by blast
    with Irq n show ?thesis by (auto simp: system_good_def)
  next
    case Take
    with assms(2) g obtain l where l: "good None fi (ts_timers w)" "hl_fired (ts_timers w) = Some l" "ts_handler w" by auto
    from take_good [OF l(1,2)] Take l show ?thesis by (auto simp: system_good_def)
  next
    case Return
    with assms(2) obtain l where l: "ts_cur w = Some l" by auto
    with callback_done_good [of l fi "ts_timers w"] g Return show ?thesis by (auto simp: system_good_def)
  next
    case Leave
    from g(1) obtain fr ac where "lists (ts_timers w) fr ac fi" unfolding good_def by auto
    with Leave assms(2) have "fi = []" by (cases fi) (auto simp: lists_def)
    with Leave assms(2) g show ?thesis by (auto simp: system_good_def)
  qed
qed

lemma reach_good: "timers_reach w \<Longrightarrow> system_good w"
proof (induction rule: timers_reach.induct)
  case reach_init
  show ?case using init_good by (auto simp: system_good_def)
next
  case (reach_step w p w')
  with step_good [of w p] show ?case by auto
qed

section \<open>Callbacks\<close>

text \<open>A callback is well behaved when it returns and all it does to the timers are calls of the module.\<close>

inductive calls :: "hwtimers \<Rightarrow> hwtimers \<Rightarrow> bool" where
  calls_refl: "calls s s"
| calls_step: "calls s s' \<Longrightarrow> call_ok c s' \<Longrightarrow> timer_call c s' = Inr s'' \<Longrightarrow> calls s s''"

definition callbacks_ok :: "(nat \<Rightarrow> u32 \<Rightarrow> hwtimers \<Rightarrow> hwtimers res) \<Rightarrow> bool" where
  "callbacks_ok body \<longleftrightarrow> (\<forall>cb p s l fi. good (Some l) fi s \<longrightarrow> (\<exists>s'. body cb p s = Inr s' \<and> calls s s'))"

lemma calls_good: "calls s s' \<Longrightarrow> good cur fi s \<Longrightarrow> \<exists>fi'. good cur fi' s' \<and> set fi' \<subseteq> set fi"
proof (induction rule: calls.induct)
  case (calls_step s s' c s'')
  then obtain fi1 where "good cur fi1 s'" "set fi1 \<subseteq> set fi" by blast
  with call_good [of cur fi1 s' c] calls_step.hyps show ?case by fastforce
qed blast

lemma good_distinct: "good cur fi s \<Longrightarrow> distinct fi"
  by (auto simp: good_def lists_def)

lemma good_fired: "good cur fi s \<Longrightarrow> hl_fired s = ptr_to fi"
  unfolding good_def lists_def by (metis seg_ptr)

lemma run_fired_good:
  assumes "callbacks_ok body" and "good None fi s" and "length fi < n"
  shows "\<exists>s'. run_fired n body s = Inr s' \<and> good None [] s'"
  using assms(2,3)
proof (induction n arbitrary: fi s)
  case (Suc n)
  show ?case
  proof (cases "hl_fired s")
    case None
    with good_fired [OF Suc.prems(1)] have "fi = []" by (cases fi) simp_all
    with Suc.prems(1) None show ?thesis by simp
  next
    case (Some l)
    define s1 where "s1 = take_fired l s"
    from take_good [OF Suc.prems(1) Some] obtain fi1 where fi: "fi = l # fi1" and g1: "good (Some l) fi1 s1"
      by (auto simp: s1_def)
    have "\<exists>s2. (case ht_callback (hl_timer s1 l) of None \<Rightarrow> Inr s1
        | Some cb \<Rightarrow> body cb (ht_param (hl_timer s1 l)) s1) = Inr s2 \<and> calls s1 s2"
      using assms(1) [unfolded callbacks_ok_def, rule_format, OF g1] calls_refl [of s1]
      by (cases "ht_callback (hl_timer s1 l)") simp_all
    then obtain s2 where s2: "(case ht_callback (hl_timer s1 l) of None \<Rightarrow> Inr s1
        | Some cb \<Rightarrow> body cb (ht_param (hl_timer s1 l)) s1) = Inr s2" "calls s1 s2" by blast
    from calls_good [OF s2(2) g1] obtain fi2 where g2: "good (Some l) fi2 s2" "set fi2 \<subseteq> set fi1" by blast
    have "length fi2 \<le> length fi1"
      using distinct_card [OF good_distinct [OF g2(1)]] distinct_card [OF good_distinct [OF g1]] card_mono [OF _ g2(2)] by simp
    with Suc.prems(2) fi have "length fi2 < n" by simp
    from Suc.IH [OF callback_done_good [OF g2(1)] this] s2(1) Some show ?thesis
      by (simp add: Let_def s1_def [symmetric])
  qed
qed simp

section \<open>The module is safe\<close>

lemma reach_lists:
  assumes "timers_reach w"
  obtains fr ac fi where "lists (ts_timers w) fr ac fi" "kinds (ts_timers w) fr ac fi" "hw_ok (ts_timers w) ac"
    "\<not> ts_handler w \<Longrightarrow> fi = [] \<and> ts_cur w = None"
  using reach_good [OF assms] unfolding system_good_def good_def by blast

lemma lists_chains:
  assumes "lists s fr ac fi"
  shows "chain HWTIMER_NUM (hl_timer s) (hl_free s) = fr" "chain HWTIMER_NUM (hl_timer s) (hl_fired s) = fi"
  using assms distinct_length15 [of fr] distinct_length15 [of fi] by (auto simp: lists_def intro: chain_seg)

text \<open>C18: in every state that the clients, the hardware and the handler can reach together, the three
  linked lists are disjoint and hold exactly the timers that are marked free, active and fired, and the
  hardware timer runs exactly while a timer is active.\<close>

theorem hwtimer_lists_exact:
  assumes "timers_reach w"
  shows "let s = ts_timers w; list_of = chain HWTIMER_NUM (hl_timer s) in
    distinct (list_of (hl_free s) @ list_of (hl_active s) @ list_of (hl_fired s)) \<and>
    (\<forall>t. (ht_state (hl_timer s t) = HWTIMER_STATE_FREE \<longleftrightarrow> t \<in> set (list_of (hl_free s))) \<and>
         (ht_state (hl_timer s t) = HWTIMER_STATE_ACTIVE \<longleftrightarrow> t \<in> set (list_of (hl_active s))) \<and>
         (ht_state (hl_timer s t) = HWTIMER_STATE_FIRED \<longleftrightarrow> t \<in> set (list_of (hl_fired s)))) \<and>
    (hl_enabled s \<longleftrightarrow> hl_active s \<noteq> None)"
proof -
  from assms obtain fr ac fi where g: "lists (ts_timers w) fr ac fi" "kinds (ts_timers w) fr ac fi"
    "hw_ok (ts_timers w) ac" by (rule reach_lists)
  have "ac \<noteq> [] \<longleftrightarrow> hl_active (ts_timers w) \<noteq> None" using g(1) by (cases ac) (auto simp: lists_def)
  with g show ?thesis unfolding Let_def lists_chains [OF g(1)] lists_chain [OF g(1)]
    by (simp add: lists_def kinds_def hw_ok_def)
qed

text \<open>C17: no step collapses: whatever was done before, a call of a client, an interrupt or a step of the
  handler runs to its end with all its assertions true and all its list walks finished.\<close>

theorem hwtimer_never_collapses:
  assumes "timers_reach w" and "allowed p w"
  shows "\<exists>w'. exec_step p w = Inr w' \<and> timers_reach w'"
proof -
  from step_good [OF reach_good [OF assms(1)] assms(2)] obtain w' where "exec_step p w = Inr w'" by blast
  with assms show ?thesis by (blast intro: reach_step)
qed

text \<open>C19: starting an allocated timer succeeds and gives it its deadline: all the other timers keep theirs,
  and the list stays in the order of the deadlines. Loading the hardware for a new first timer makes all
  of them at most one tick early.\<close>

theorem hwtimer_start_deadlines:
  assumes "timers_reach w" and "s = ts_timers w"
    and "ht_state (hl_timer s t) = HWTIMER_STATE_ALLOC \<or> ht_state (hl_timer s t) = HWTIMER_STATE_CALLBACK"
    and "unat ticks \<le> MAX_TICKS"
  shows "\<exists>s' d. hwtimer_start (Some t) ticks s = Inr (E_HWTIMER_OK, s') \<and> d \<le> 1 \<and>
    set (deadlines s') = insert (t, max 1 (unat ticks) - d) ((\<lambda>(x, n). (x, n - d)) ` set (deadlines s)) \<and>
    sorted (map snd (deadlines s')) \<and> hl_enabled s'"
proof -
  from assms(1) obtain fr ac fi where g: "lists s fr ac fi" "kinds s fr ac fi" "hw_ok s ac"
    unfolding assms(2) by (rule reach_lists)
  from start_ok [OF g assms(3,4), of None] obtain s' ac' d where
    s': "hwtimer_start (Some t) ticks s = Inr (E_HWTIMER_OK, s')" "lists s' fr ac' fi" "hw_ok s' ac'"
    "inserted t (max 1 (unat ticks)) d s ac s' ac'" unfolding hwtimer_start_def by blast
  then have "ac' \<noteq> []" by (auto simp: inserted_def)
  with s'(3) have "hl_enabled s'" by (simp add: hw_ok_def)
  with s' due_list_sorted [of s' ac'] deadlines_eq [OF s'(2)] deadlines_eq [OF g(1)] show ?thesis
    by (intro exI [of _ s'] exI [of _ d]) (simp add: inserted_def)
qed

text \<open>C20: stopping a timer that is active or fired takes it off the lists and leaves the deadlines of the
  others: unless it was the first one they do not change at all, and when it was, the reload of the hardware
  moves them by a tick at most, after the time that has passed since the counter ran out is deducted.\<close>

theorem hwtimer_stop_deadlines:
  assumes "timers_reach w" and "s = ts_timers w"
    and "ht_state (hl_timer s t) = HWTIMER_STATE_ACTIVE \<or> ht_state (hl_timer s t) = HWTIMER_STATE_FIRED"
    and "elapsed_ok elapsed s"
  shows "\<exists>s' d. hwtimer_stop elapsed (Some t) s = Inr (E_HWTIMER_OK, s') \<and>
    ht_state (hl_timer s' t) = HWTIMER_STATE_ALLOC \<and> -1 \<le> d \<and> d \<le> 1 \<and> (d = 0 \<or> hl_active s = Some t) \<and>
    set (int_dues (deadlines s')) =
      set (shifted (stop_shift elapsed t s) d (filter (\<lambda>p. fst p \<noteq> t) (deadlines s)))"
proof -
  from assms(1) obtain fr ac fi where g: "lists s fr ac fi" "kinds s fr ac fi" "hw_ok s ac"
    unfolding assms(2) by (rule reach_lists)
  from stop_ok [OF g assms(4), of t] assms(3) obtain s' ac' fi' d where
    s': "hwtimer_stop elapsed (Some t) s = Inr (E_HWTIMER_OK, s')" "lists s' fr ac' fi'"
    "ht_state (hl_timer s' t) = HWTIMER_STATE_ALLOC" "-1 \<le> d" "d \<le> 1" "hl_active s \<noteq> Some t \<longrightarrow> d = 0"
    "set (int_dues (due_list s' ac')) = set (shifted (stop_shift elapsed t s) d (filter (\<lambda>p. fst p \<noteq> t) (due_list s ac)))"
    by auto
  then show ?thesis unfolding deadlines_eq [OF s'(2), symmetric] deadlines_eq [OF g(1), symmetric] by blast
qed

lemma dues_split:
  "n \<le> e \<Longrightarrow> takeWhile (\<lambda>p. snd p \<le> e) (dues n s xs) = dues n s (before s (Suc e - n) xs) \<and>
    dropWhile (\<lambda>p. snd p \<le> e) (dues n s xs) =
      dues (n + total s (before s (Suc e - n) xs)) s (after s (Suc e - n) xs)"
proof (induction xs arbitrary: n)
  case (Cons x xs)
  have eq: "tm s x < Suc e - n \<longleftrightarrow> n + tm s x \<le> e" using Cons.prems by auto
  show ?case
  proof (cases "n + tm s x \<le> e")
    case True
    have "Suc e - n - tm s x = Suc e - (n + tm s x)" by simp
    with Cons.IH [OF True] True eq show ?thesis by (simp add: add.assoc)
  next
    case False
    with eq show ?thesis by simp
  qed
qed simp

text \<open>C21: when the hardware timer has run out, the interrupt fires the timers whose deadlines have passed,
  in their order, and no others; the hardware is loaded for the first of the rest, which keep their
  deadlines up to one tick.\<close>

theorem hwtimer_irq_fires_due:
  assumes "timers_reach w" and "s = ts_timers w" and "\<not> ts_handler w" and "hl_value s = 0" and "hl_active s = Some a"
    and "elapsed_ok elapsed s" and "late = unat elapsed - unat (ht_time (hl_timer s a))"
  shows "\<exists>s' d. hwtimer_irq elapsed s = Inr (True, s') \<and>
    chain HWTIMER_NUM (hl_timer s') (hl_fired s') = map fst (takeWhile (\<lambda>p. snd p \<le> late) (deadlines s)) \<and>
    -1 \<le> d \<and> d \<le> 1 \<and> int_dues (deadlines s') = shifted late d (dropWhile (\<lambda>p. snd p \<le> late) (deadlines s))"
proof -
  from assms(1) obtain fr ac where g: "lists s fr ac []" "kinds s fr ac []" "hw_ok s ac"
    unfolding assms(2) using assms(3) by (metis reach_lists)
  from g(1) assms(5) obtain as where ac: "ac = a # as" by (cases ac) (auto simp: lists_def)
  have "unat (elapsed + 1) = unat elapsed + 1"
    by (rule unat_plus1) (use assms(4-6) in \<open>simp add: elapsed_ok_def\<close>)
  then have due: "\<not> ht_time (hl_timer s a) > elapsed + HAL_TIMER_LOAD_DELTA"
    using assms(4-6) by (simp add: elapsed_ok_def HAL_TIMER_LOAD_DELTA_def word_less_nat_alt tm_def)
  let ?bs = "before s (Suc late) as" and ?vs = "after s (Suc late) as"
  have late: "late = unat elapsed - tm s a" by (simp add: assms(7) tm_def)
  from irq_ok [OF g [unfolded ac] due late refl refl] obtain s' d where
    s': "hwtimer_irq elapsed s = Inr (True, s')" "lists s' fr ?vs (a # ?bs)" "-1 \<le> d" "d \<le> 1"
    "int_dues (due_list s' ?vs) = shifted late d (dues (total s ?bs) s ?vs)" by blast
  have D: "deadlines s = (a, 0) # dues 0 s as" using deadlines_eq [OF g(1)] assms(4) by (simp add: ac)
  from dues_split [of 0 late s as] have
    "map fst (takeWhile (\<lambda>p. snd p \<le> late) (deadlines s)) = a # ?bs"
    "dropWhile (\<lambda>p. snd p \<le> late) (deadlines s) = dues (total s ?bs) s ?vs" by (simp_all add: D)
  with s' deadlines_eq [OF s'(2)] lists_chains(2) [OF s'(2)] show ?thesis by auto
qed

text \<open>the interrupt handler returns: it runs the callbacks of the timers that are due, whatever calls
  of the module these make, and leaves no timer marked as fired or as being in its callback.\<close>

theorem hwtimer_handler_returns:
  assumes "timers_reach w" and "\<not> ts_handler w" and "callbacks_ok body"
  shows "\<exists>s'. hwtimer_handler body elapsed (ts_timers w) = Inr s' \<and> hl_fired s' = None \<and>
    (\<forall>t. ht_state (hl_timer s' t) \<noteq> HWTIMER_STATE_FIRED \<and> ht_state (hl_timer s' t) \<noteq> HWTIMER_STATE_CALLBACK)"
proof -
  from reach_good [OF assms(1)] assms(2) have "good None [] (ts_timers w)" by (auto simp: system_good_def)
  from irq_good [OF this, of elapsed] obtain fired s1 fi where
    irq: "hwtimer_irq elapsed (ts_timers w) = Inr (fired, s1)" "good None fi s1" "\<not> fired \<longrightarrow> fi = []" by blast
  have "length fi < HWTIMER_NUM + 1" using distinct_length15 [OF good_distinct [OF irq(2)]] by simp
  from run_fired_good [OF assms(3) irq(2) this] obtain s2 where
    "run_fired (HWTIMER_NUM + 1) body s1 = Inr s2" "good None [] s2" by blast
  with irq obtain s' where s': "hwtimer_handler body elapsed (ts_timers w) = Inr s'" "good None [] s'"
    by (cases fired) (auto simp: hwtimer_handler_def)
  have "hl_fired s' = None" using good_fired [OF s'(2)] by simp
  with s' show ?thesis by (auto simp: good_def kinds_def)
qed

section \<open>A run of the module\<close>

fun run_steps :: "timer_step list \<Rightarrow> timer_system \<Rightarrow> timer_system option" where
  "run_steps [] w = Some w"
| "run_steps (p # ps) w =
     (if allowed p w then (case exec_step p w of Inl e \<Rightarrow> None | Inr w' \<Rightarrow> run_steps ps w') else None)"

lemma run_reach: "timers_reach w \<Longrightarrow> run_steps ps w = Some w' \<Longrightarrow> timers_reach w'"
  by (induction ps arbitrary: w) (auto split: if_splits sum.splits intro: reach_step)

lemma walk_numeral:
  "start_walk (numeral k) s pre nxt ticks =
     (case nxt of
        None \<Rightarrow> Inr (pre, None, ticks)
      | Some x \<Rightarrow>
          if ht_time (hl_timer s x) < ticks
          then start_walk (pred_numeral k) s x (ht_next (hl_timer s x)) (ticks - ht_time (hl_timer s x))
          else Inr (pre, Some x, ticks))"
  "chain (numeral k) m p = (case p of None \<Rightarrow> [] | Some x \<Rightarrow> x # chain (pred_numeral k) m (ht_next (m x)))"
  by (simp_all add: numeral_eq_Suc)
lemmas timer_eval = init_state hwtimer_alloc_def hwtimer_start_def hwtimer_start_int_def start_insert_def
  HAL_TIMER_LOAD_DELTA_def tset_def hal_timer_start_def timer_tick_def Let_def HWTIMER_NUM_def walk_numeral

text \<open>Three timers allocated and two of them started for 10 and 25 ticks, when the counter has run out.\<close>

definition demo_timers :: hwtimers where
  "demo_timers = \<lparr>hl_timer =
     (\<lambda>t. \<lparr>ht_state = HWTIMER_STATE_FREE, ht_next = (if t = 14 then None else Some (t + 1)), ht_time = 0,
          ht_callback = None, ht_param = 0\<rparr>)
       (0 := \<lparr>ht_state = HWTIMER_STATE_ACTIVE, ht_next = Some 1, ht_time = 10, ht_callback = Some 1, ht_param = 7\<rparr>,
        1 := \<lparr>ht_state = HWTIMER_STATE_ACTIVE, ht_next = None, ht_time = 16, ht_callback = None, ht_param = 8\<rparr>,
        2 := \<lparr>ht_state = HWTIMER_STATE_ALLOC, ht_next = None, ht_time = 0, ht_callback = None, ht_param = 9\<rparr>),
     hl_free = Some 3, hl_active = Some 0, hl_fired = None, hl_inited = True, hl_err_null = 0, hl_err_early = 0,
     hl_enabled = True, hl_value = 0, hl_calls = []\<rparr>"

lemma demo_reach: "timers_reach \<lparr>ts_timers = demo_timers, ts_handler = False, ts_cur = None\<rparr>"
proof (rule run_reach [OF reach_init])
  show "run_steps [Call (Alloc (Some 1) 7), Call (Start (Some 0) 10), Call (Alloc None 8), Call (Start (Some 1) 25),
      Call (Alloc None 9), Tick 9] \<lparr>ts_timers = hwtimer_init boot_timers, ts_handler = False, ts_cur = None\<rparr> =
    Some \<lparr>ts_timers = demo_timers, ts_handler = False, ts_cur = None\<rparr>"
    by (simp add: timer_eval demo_timers_def fun_upd_twist MAX_TICKS_def)
qed

lemma demo_deadlines: "deadlines demo_timers = [(0, 0), (1, 16)]"
  by (simp add: deadlines_def timer_eval tm_def demo_timers_def)

lemma demo_simps: "hl_value demo_timers = 0" "hl_active demo_timers = Some 0" "hl_enabled demo_timers"
  "ht_time (hl_timer demo_timers 0) = 10" "ht_state (hl_timer demo_timers 0) = HWTIMER_STATE_ACTIVE"
  "ht_state (hl_timer demo_timers 2) = HWTIMER_STATE_ALLOC"
  by (simp_all add: demo_timers_def)

text \<open>A callback that starts the third timer.\<close>

definition demo_callback :: "nat \<Rightarrow> u32 \<Rightarrow> hwtimers \<Rightarrow> hwtimers res" where
  "demo_callback cb p s = timer_call (Start (Some 2) 5) s"

lemma demo_callback_ok: "callbacks_ok demo_callback"
proof (unfold callbacks_ok_def, intro allI impI)
  fix cb p s l fi
  assume g: "good (Some l) fi s"
  have ok: "call_ok (Start (Some 2) 5) s" by (simp add: MAX_TICKS_def)
  from call_good [OF g this] obtain s' where s': "timer_call (Start (Some 2) 5) s = Inr s'" by blast
  from calls_step [OF calls_refl ok this] s' show "\<exists>s'. demo_callback cb p s = Inr s' \<and> calls s s'"
    by (simp add: demo_callback_def del: timer_call.simps)
qed

theorem hwtimer_lists_exact_witness:
  "hl_enabled demo_timers \<and> distinct (chain HWTIMER_NUM (hl_timer demo_timers) (hl_active demo_timers))"
  using hwtimer_lists_exact [OF demo_reach] by (simp add: Let_def demo_simps)

theorem hwtimer_never_collapses_witness:
  "\<exists>w'. exec_step (Irq 30) \<lparr>ts_timers = demo_timers, ts_handler = False, ts_cur = None\<rparr> = Inr w' \<and> timers_reach w'"
  using hwtimer_never_collapses [OF demo_reach, of "Irq 30"] by (simp del: exec_step.simps)

theorem hwtimer_start_deadlines_witness:
  "\<exists>s' d. hwtimer_start (Some 2) 12 demo_timers = Inr (E_HWTIMER_OK, s') \<and> d \<le> 1 \<and>
    set (deadlines s') = {(2, 12 - d), (0, 0), (1, 16 - d)}"
  using hwtimer_start_deadlines [OF demo_reach refl, of 2 12] by (simp add: demo_simps demo_deadlines MAX_TICKS_def) blast

theorem hwtimer_stop_deadlines_witness:
  "\<exists>s' d. hwtimer_stop 9 (Some 0) demo_timers = Inr (E_HWTIMER_OK, s') \<and> -1 \<le> d \<and> d \<le> 1 \<and>
    set (int_dues (deadlines s')) = {(1, 16 + d)}"
  using hwtimer_stop_deadlines [OF demo_reach refl, of 0 9]
  by (simp add: demo_simps demo_deadlines elapsed_ok_def tm_def stop_shift_def lateness_def shifted_def) blast

theorem hwtimer_irq_fires_due_witness:
  "\<exists>s'. hwtimer_irq 20 demo_timers = Inr (True, s') \<and> chain HWTIMER_NUM (hl_timer s') (hl_fired s') = [0] \<and>
    map fst (deadlines s') = [1]"
proof -
  have "elapsed_ok 20 demo_timers" by (simp add: elapsed_ok_def demo_simps tm_def)
  moreover have "(10 :: nat) = unat (20 :: u32) - unat (ht_time (hl_timer demo_timers 0))" by (simp add: demo_simps)
  ultimately have "\<exists>s' d. hwtimer_irq 20 demo_timers = Inr (True, s') \<and>
    chain HWTIMER_NUM (hl_timer s') (hl_fired s') = map fst (takeWhile (\<lambda>p. snd p \<le> 10) [(0, 0 :: nat), (1, 16)]) \<and>
    -1 \<le> d \<and> d \<le> 1 \<and> int_dues (deadlines s') = shifted 10 d (dropWhile (\<lambda>p. snd p \<le> 10) [(0, 0), (1, 16)])"
    using demo_simps(1,2) unfolding demo_deadlines [symmetric]
    by (intro hwtimer_irq_fires_due [OF demo_reach]) simp_all
  then obtain s' d where s': "hwtimer_irq 20 demo_timers = Inr (True, s')"
    "chain HWTIMER_NUM (hl_timer s') (hl_fired s') = map fst (takeWhile (\<lambda>p. snd p \<le> 10) [(0, 0 :: nat), (1, 16)])"
    "int_dues (deadlines s') = shifted 10 d (dropWhile (\<lambda>p. snd p \<le> 10) [(0, 0 :: nat), (1, 16)])"
    by (elim exE conjE)
  have "map fst (int_dues (deadlines s')) = [1]" unfolding s'(3) by (simp add: shifted_def)
  then have "map fst (deadlines s') = [1]" by (simp add: int_dues_def case_prod_unfold comp_def)
  moreover have "chain HWTIMER_NUM (hl_timer s') (hl_fired s') = [0]" unfolding s'(2) by simp
  ultimately show ?thesis using s'(1) by (intro exI [of _ s'] conjI)
qed

theorem hwtimer_handler_returns_witness:
  "\<exists>s'. hwtimer_handler demo_callback 30 demo_timers = Inr s' \<and> hl_fired s' = None"
  using hwtimer_handler_returns [OF demo_reach _ demo_callback_ok, of 30] by auto

end
