(* ===== verification/Crc.thy ===== *)
theory Crc
  imports Prelude
begin

unbundle bit_operations_syntax

text \<open>
  The checksum of \<open>utils/crc32/crc32.c\<close>, which guards the records in the flash: the byte by byte
  loop over a table of 256 words, and the table that a build with \<open>MAKE_CRC32_TABLE\<close> computes.
  The loop is shown to divide bit by bit by the polynomial, and to tell apart any two messages
  that differ in one byte. A read behind the end of the buffer is a fault.
\<close>

definition crc_table :: "u32 list" where
  "crc_table =
    [0x00000000, 0x77073096, 0xEE0E612C, 0x990951BA, 0x076DC419, 0x706AF48F, 0xE963A535, 0x9E6495A3,
     0x0EDB8832, 0x79DCB8A4, 0xE0D5E91E, 0x97D2D988, 0x09B64C2B, 0x7EB17CBD, 0xE7B82D07, 0x90BF1D91,
     0x1DB71064, 0x6AB020F2, 0xF3B97148, 0x84BE41DE, 0x1ADAD47D, 0x6DDDE4EB, 0xF4D4B551, 0x83D385C7,
     0x136C9856, 0x646BA8C0, 0xFD62F97A, 0x8A65C9EC, 0x14015C4F, 0x63066CD9, 0xFA0F3D63, 0x8D080DF5,
     0x3B6E20C8, 0x4C69105E, 0xD56041E4, 0xA2677172, 0x3C03E4D1, 0x4B04D447, 0xD20D85FD, 0xA50AB56B,
     0x35B5A8FA, 0x42B2986C, 0xDBBBC9D6, 0xACBCF940, 0x32D86CE3, 0x45DF5C75, 0xDCD60DCF, 0xABD13D59,
     0x26D930AC, 0x51DE003A, 0xC8D75180, 0xBFD06116, 0x21B4F4B5, 0x56B3C423, 0xCFBA9599, 0xB8BDA50F,
     0x2802B89E, 0x5F058808, 0xC60CD9B2, 0xB10BE924, 0x2F6F7C87, 0x58684C11, 0xC1611DAB, 0xB6662D3D,
     0x76DC4190, 0x01DB7106, 0x98D220BC, 0xEFD5102A, 0x71B18589, 0x06B6B51F, 0x9FBFE4A5, 0xE8B8D433,
     0x7807C9A2, 0x0F00F934, 0x9609A88E, 0xE10E9818, 0x7F6A0DBB, 0x086D3D2D, 0x91646C97, 0xE6635C01,
     0x6B6B51F4, 0x1C6C6162, 0x856530D8, 0xF262004E, 0x6C0695ED, 0x1B01A57B, 0x8208F4C1, 0xF50FC457,
     0x65B0D9C6, 0x12B7E950, 0x8BBEB8EA, 0xFCB9887C, 0x62DD1DDF, 0x15DA2D49, 0x8CD37CF3, 0xFBD44C65,
     0x4DB26158, 0x3AB551CE, 0xA3BC0074, 0xD4BB30E2, 0x4ADFA541, 0x3DD895D7, 0xA4D1C46D, 0xD3D6F4FB,
     0x4369E96A, 0x346ED9FC, 0xAD678846, 0xDA60B8D0, 0x44042D73, 0x33031DE5, 0xAA0A4C5F, 0xDD0D7CC9,
     0x5005713C, 0x270241AA, 0xBE0B1010, 0xC90C2086, 0x5768B525, 0x206F85B3, 0xB966D409, 0xCE61E49F,
     0x5EDEF90E, 0x29D9C998, 0xB0D09822, 0xC7D7A8B4, 0x59B33D17, 0x2EB40D81, 0xB7BD5C3B, 0xC0BA6CAD,
     0xEDB88320, 0x9ABFB3B6, 0x03B6E20C, 0x74B1D29A, 0xEAD54739, 0x9DD277AF, 0x04DB2615, 0x73DC1683,
     0xE3630B12, 0x94643B84, 0x0D6D6A3E, 0x7A6A5AA8, 0xE40ECF0B, 0x9309FF9D, 0x0A00AE27, 0x7D079EB1,
     0xF00F9344, 0x8708A3D2, 0x1E01F268, 0x6906C2FE, 0xF762575D, 0x806567CB, 0x196C3671, 0x6E6B06E7,
     0xFED41B76, 0x89D32BE0, 0x10DA7A5A, 0x67DD4ACC, 0xF9B9DF6F, 0x8EBEEFF9, 0x17B7BE43, 0x60B08ED5,
     0xD6D6A3E8, 0xA1D1937E, 0x38D8C2C4, 0x4FDFF252, 0xD1BB67F1, 0xA6BC5767, 0x3FB506DD, 0x48B2364B,
     0xD80D2BDA, 0xAF0A1B4C, 0x36034AF6, 0x41047A60, 0xDF60EFC3, 0xA867DF55, 0x316E8EEF, 0x4669BE79,
     0xCB61B38C, 0xBC66831A, 0x256FD2A0, 0x5268E236, 0xCC0C7795, 0xBB0B4703, 0x220216B9, 0x5505262F,
     0xC5BA3BBE, 0xB2BD0B28, 0x2BB45A92, 0x5CB36A04, 0xC2D7FFA7, 0xB5D0CF31, 0x2CD99E8B, 0x5BDEAE1D,
     0x9B64C2B0, 0xEC63F226, 0x756AA39C, 0x026D930A, 0x9C0906A9, 0xEB0E363F, 0x72076785, 0x05005713,
     0x95BF4A82, 0xE2B87A14, 0x7BB12BAE, 0x0CB61B38, 0x92D28E9B, 0xE5D5BE0D, 0x7CDCEFB7, 0x0BDBDF21,
     0x86D3D2D4, 0xF1D4E242, 0x68DDB3F8, 0x1FDA836E, 0x81BE16CD, 0xF6B9265B, 0x6FB077E1, 0x18B74777,
     0x88085AE6, 0xFF0F6A70, 0x66063BCA, 0x11010B5C, 0x8F659EFF, 0xF862AE69, 0x616BFFD3, 0x166CCF45,
     0xA00AE278, 0xD70DD2EE, 0x4E048354, 0x3903B3C2, 0xA7672661, 0xD06016F7, 0x4969474D, 0x3E6E77DB,
     0xAED16A4A, 0xD9D65ADC, 0x40DF0B66, 0x37D83BF0, 0xA9BCAE53, 0xDEBB9EC5, 0x47B2CF7F, 0x30B5FFE9,
     0xBDBDF21C, 0xCABAC28A, 0x53B39330, 0x24B4A3A6, 0xBAD03605, 0xCDD70693, 0x54DE5729, 0x23D967BF,
     0xB3667A2E, 0xC4614AB8, 0x5D681B02, 0x2A6F2B94, 0xB40BBE37, 0xC30C8EA1, 0x5A05DF1B, 0x2D02EF8D]"

text \<open>The innermost loop of \<open>make_crc_table\<close>.\<close>

definition crc_bit :: "u32 \<Rightarrow> u32" where
  "crc_bit c = (if c AND 1 \<noteq> 0 then 0xedb88320 XOR drop_bit 1 c else drop_bit 1 c)"

definition make_crc_table :: "u32 list" where
  "make_crc_table = map (\<lambda>n. (crc_bit ^^ 8) (of_nat n)) [0..<256]"

text \<open>\<open>while (len) { c = crc_table[(c ^ (*buf++)) & 0xff] ^ (c >> 8); len--; }\<close>\<close>

definition crc_byte :: "u8 \<Rightarrow> u32 \<Rightarrow> u32" where
  "crc_byte b c = crc_table ! unat ((c XOR ucast b) AND 0xff) XOR drop_bit 8 c"

fun crc_loop :: "u32 \<Rightarrow> u8 list \<Rightarrow> nat \<Rightarrow> u32 res" where
  "crc_loop c buf 0 = Inr c"
| "crc_loop c [] (Suc len) = Inl Mem_Fault"
| "crc_loop c (b # buf) (Suc len) = crc_loop (crc_byte b c) buf len"

definition crc32_c :: "u32 \<Rightarrow> u8 list \<Rightarrow> u32 \<Rightarrow> u32 res" where
  "crc32_c crc buf len =
     bindE (crc_loop (crc XOR 0xffffffff) buf (unat len)) (\<lambda>c. Inr (c XOR 0xffffffff))"

section \<open>The table\<close>

text \<open>The table is computed with natural numbers, by halving.\<close>

definition nat_bit :: "nat \<Rightarrow> nat" where
  "nat_bit n = (if odd n then 0xedb88320 XOR (n div 2) else n div 2)"

lemma nat_bit_simps:
  "nat_bit 0 = 0" "nat_bit 1 = 0xedb88320" "nat_bit (Suc 0) = 0xedb88320"
  "nat_bit (numeral (Num.Bit0 k)) = numeral k" "nat_bit (numeral (Num.Bit1 k)) = 0xedb88320 XOR numeral k"
  by (simp_all add: nat_bit_def)

lemma eight: "f ^^ 8 = (\<lambda>x. f (f (f (f (f (f (f (f x))))))))"
  by (simp add: eval_nat_numeral fun_eq_iff)

lemma and_1_iff: "c AND 1 \<noteq> 0 \<longleftrightarrow> bit (c :: 'a::len word) 0"
  by (simp add: and_one_eq bit_0 odd_iff_mod_2_eq_one)

lemma unat_crc_bit: "unat (crc_bit c) = nat_bit (unat c)"
proof -
  have "odd (unat c) \<longleftrightarrow> bit c 0" using bit_unsigned_iff [of c 0, where ?'a = nat] by (simp add: bit_0)
  then show ?thesis
    by (simp add: crc_bit_def nat_bit_def and_1_iff unsigned_xor_eq drop_bit_eq_div unat_div)
qed

lemma crc_table_made: "crc_table = make_crc_table"
proof -
  have up: "[0..<256] =
    [0, 1, 2, 3, 4, 5, 6, 7, 8, 9, 10, 11, 12, 13, 14, 15, 16, 17, 18, 19, 20, 21, 22, 23,
     24, 25, 26, 27, 28, 29, 30, 31, 32, 33, 34, 35, 36, 37, 38, 39, 40, 41, 42, 43, 44, 45, 46, 47,
     48, 49, 50, 51, 52, 53, 54, 55, 56, 57, 58, 59, 60, 61, 62, 63, 64, 65, 66, 67, 68, 69, 70, 71,
     72, 73, 74, 75, 76, 77, 78, 79, 80, 81, 82, 83, 84, 85, 86, 87, 88, 89, 90, 91, 92, 93, 94, 95,
     96, 97, 98, 99, 100, 101, 102, 103, 104, 105, 106, 107, 108, 109, 110, 111, 112, 113, 114, 115, 116, 117, 118, 119,
     120, 121, 122, 123, 124, 125, 126, 127, 128, 129, 130, 131, 132, 133, 134, 135, 136, 137, 138, 139, 140, 141, 142, 143,
     144, 145, 146, 147, 148, 149, 150, 151, 152, 153, 154, 155, 156, 157, 158, 159, 160, 161, 162, 163, 164, 165, 166, 167,
     168, 169, 170, 171, 172, 173, 174, 175, 176, 177, 178, 179, 180, 181, 182, 183, 184, 185, 186, 187, 188, 189, 190, 191,
     192, 193, 194, 195, 196, 197, 198, 199, 200, 201, 202, 203, 204, 205, 206, 207, 208, 209, 210, 211, 212, 213, 214, 215,
     216, 217, 218, 219, 220, 221, 222, 223, 224, 225, 226, 227, 228, 229, 230, 231, 232, 233, 234, 235, 236, 237, 238, 239,
     240, 241, 242, 243, 244, 245, 246, 247, 248, 249, 250, 251, 252, 253, 254, 255]" by code_simp
  have "unat ((crc_bit ^^ k) c) = (nat_bit ^^ k) (unat c)" for c k
    by (induction k) (simp_all add: unat_crc_bit)
  then have step: "(crc_bit ^^ k) c = of_nat ((nat_bit ^^ k) (unat c))" for c k
    by (metis of_nat_unat ucast_id)
  have "make_crc_table = map of_nat (map (nat_bit ^^ 8) [0..<256])"
    by (simp add: make_crc_table_def step unat_of_nat)
  also have "\<dots> = crc_table"
    unfolding up by (simp add: eight nat_bit_simps crc_table_def)
  finally show ?thesis by simp
qed

section \<open>Bit by bit\<close>

lemma crc_bit_alt: "crc_bit c = (if bit c 0 then 0xedb88320 XOR drop_bit 1 c else drop_bit 1 c)"
  by (simp only: crc_bit_def and_1_iff)

lemma crc_bit_xor: "crc_bit (a XOR b) = crc_bit a XOR crc_bit b"
proof -
  have "drop_bit 1 (a XOR b) = drop_bit 1 a XOR drop_bit 1 b" by (simp add: drop_bit_xor)
  then show ?thesis
    by (cases "bit a 0"; cases "bit b 0") (simp_all add: crc_bit_alt bit_xor_iff ac_simps)
qed

lemma crc_bits_xor: "(crc_bit ^^ k) (a XOR b) = (crc_bit ^^ k) a XOR (crc_bit ^^ k) b"
  by (induction k) (simp_all add: crc_bit_xor)

lemma crc_bits_low: "\<forall>i < k. \<not> bit c i \<Longrightarrow> (crc_bit ^^ k) c = drop_bit k c"
proof (induction k)
  case (Suc k)
  then have "(crc_bit ^^ k) c = drop_bit k c" by simp
  moreover have "\<not> bit (drop_bit k c) 0" using Suc.prems by (simp add: bit_drop_bit_eq)
  ultimately show ?case by (simp add: crc_bit_alt [of "drop_bit k c"])
qed simp

lemma unat_and_ff: "unat (c AND 0xff :: u32) < 256"
proof -
  have "unat (c AND 0xff) = take_bit 8 (unat c)" by (simp add: unsigned_and_eq take_bit_eq_mask mask_eq_exp_minus_1)
  then show ?thesis using take_bit_nat_less_exp [of 8 "unat c"] by simp
qed

lemma length_crc_table [simp]: "length crc_table = 256"
  by (simp add: crc_table_made make_crc_table_def)

lemma nth_crc_table: "n < 256 \<Longrightarrow> crc_table ! n = (crc_bit ^^ 8) (of_nat n)"
  by (simp add: crc_table_made make_crc_table_def)

text \<open>One round of the loop is eight steps of the division.\<close>

lemma crc_byte_bits: "crc_byte b c = (crc_bit ^^ 8) (c XOR ucast b)"
proof -
  let ?x = "c XOR ucast b"
  have split: "?x = (?x AND 0xff) XOR (?x AND NOT 0xff)"
    by (rule bit_word_eqI) (auto simp: bit_simps)
  have ff: "bit (0xff :: u32) i \<longleftrightarrow> i < 8" for i
  proof -
    have "(0xff :: u32) = mask 8" by (simp add: mask_eq_exp_minus_1)
    then show ?thesis by (simp only: bit_mask_iff possible_bit_word) auto
  qed
  have "(crc_bit ^^ 8) (?x AND NOT 0xff) = drop_bit 8 (?x AND NOT 0xff)"
    by (rule crc_bits_low) (simp only: bit_and_iff bit_not_iff ff, simp)
  also have "\<dots> = drop_bit 8 c"
  proof (rule bit_word_eqI)
    fix n
    have "\<not> bit b (8 + n)" using bit_imp_le_length [of b "8 + n"] by auto
    moreover have "bit c (8 + n) \<Longrightarrow> 8 + n < 32" using bit_imp_le_length [of c "8 + n"] by simp
    ultimately show "bit (drop_bit 8 (?x AND NOT 0xff)) n = bit (drop_bit 8 c) n"
      by (simp only: bit_drop_bit_eq comp_def bit_and_iff bit_not_iff ff bit_xor_iff bit_unsigned_iff possible_bit_word) auto
  qed
  finally have "(crc_bit ^^ 8) ?x = (crc_bit ^^ 8) (?x AND 0xff) XOR drop_bit 8 c"
    by (subst split) (simp only: crc_bits_xor)
  moreover have "(crc_bit ^^ 8) (?x AND 0xff) = crc_table ! unat (?x AND 0xff)"
    using nth_crc_table [OF unat_and_ff] by simp
  ultimately show ?thesis by (simp add: crc_byte_def)
qed

text \<open>The reference: the message, byte by byte and bit by bit from the least significant bit, divided by the
  reflected polynomial.\<close>

definition crc_spec :: "u32 \<Rightarrow> u8 list \<Rightarrow> u32" where
  "crc_spec crc buf = fold (\<lambda>b c. (crc_bit ^^ 8) (c XOR ucast b)) buf (crc XOR 0xffffffff) XOR 0xffffffff"

lemma crc_loop_eq: "n \<le> length buf \<Longrightarrow> crc_loop c buf n = Inr (fold crc_byte (take n buf) c)"
proof (induction n arbitrary: c buf)
  case (Suc n)
  then obtain b bs where "buf = b # bs" by (cases buf) auto
  with Suc show ?case by simp
qed simp

lemma crc32_c_eq: "unat len \<le> length buf \<Longrightarrow> crc32_c crc buf len = Inr (crc_spec crc (take (unat len) buf))"
proof -
  assume "unat len \<le> length buf"
  moreover have "crc_byte = (\<lambda>b c. (crc_bit ^^ 8) (c XOR ucast b))" by (intro ext crc_byte_bits)
  ultimately show ?thesis by (simp add: crc32_c_def crc_spec_def crc_loop_eq)
qed

lemma crc32_c_fault: "length buf < unat len \<Longrightarrow> crc32_c crc buf len = Inl Mem_Fault"
proof -
  have "length bs < n \<Longrightarrow> crc_loop c bs n = Inl Mem_Fault" for c bs n
  proof (induction n arbitrary: c bs)
    case (Suc n)
    then show ?case by (cases bs) simp_all
  qed simp
  then show "length buf < unat len \<Longrightarrow> ?thesis" by (simp add: crc32_c_def)
qed

section \<open>What the checksum detects\<close>

lemma crc_bit_top: "bit (crc_bit c) 31 \<longleftrightarrow> bit c 0"
proof -
  have "\<not> bit c 32" using bit_imp_le_length [of c 32] by auto
  then have "\<not> bit (drop_bit 1 c) 31" by (simp add: bit_drop_bit_eq)
  moreover have "bit (0xedb88320 :: u32) 31" by simp
  ultimately show ?thesis by (simp only: crc_bit_alt) (simp add: bit_xor_iff)
qed

lemma crc_bit_inj: "inj crc_bit"
proof (rule injI)
  fix a b
  assume eq: "crc_bit a = crc_bit b"
  then have low: "bit a 0 \<longleftrightarrow> bit b 0" using crc_bit_top [of a] crc_bit_top [of b] by simp
  have "0xedb88320 XOR (0xedb88320 XOR drop_bit 1 c) = drop_bit 1 c" for c :: u32
    by (simp flip: xor.assoc)
  with eq low have "drop_bit 1 a = drop_bit 1 b" unfolding crc_bit_alt by (metis (full_types))
  then have "bit a (Suc n) = bit b (Suc n)" for n by (metis bit_drop_bit_eq comp_apply plus_1_eq_Suc)
  with low show "a = b" by (intro bit_word_eqI) (metis not0_implies_Suc)
qed

lemma crc_byte_inj: "crc_byte b c = crc_byte b' c' \<longleftrightarrow> c XOR ucast b = c' XOR ucast b'"
  unfolding crc_byte_bits by (rule inj_eq) (rule inj_fn [OF crc_bit_inj])

lemma xor_right_cancel: "a XOR k = b XOR k \<longleftrightarrow> a = (b :: 'a::len word)"
proof
  assume "a XOR k = b XOR k"
  then have "(a XOR k) XOR k = (b XOR k) XOR k" by simp
  then show "a = b" by (simp add: xor.assoc)
qed simp

lemma fold_crc_inj: "fold crc_byte ys c = fold crc_byte ys c' \<longleftrightarrow> c = c'"
proof (induction ys arbitrary: c c')
  case (Cons y ys)
  from Cons show ?case by (simp add: crc_byte_inj xor_right_cancel)
qed simp

lemma crc_spec_eq: "crc_spec crc buf = fold crc_byte buf (crc XOR 0xffffffff) XOR 0xffffffff"
proof -
  have "crc_byte = (\<lambda>b c. (crc_bit ^^ 8) (c XOR ucast b))" by (intro ext crc_byte_bits)
  then show ?thesis by (simp add: crc_spec_def)
qed

text \<open>C26: the table driven loop computes the remainder of the bitwise division by the CRC-32 polynomial
  over the first \<open>len\<close> bytes, and its table is the one that \<open>make_crc_table\<close> computes.\<close>

theorem crc32_c_is_division:
  assumes "unat len \<le> length buf"
  shows "crc_table = make_crc_table \<and>
    crc32_c crc buf len =
      Inr (fold (\<lambda>b c. (crc_bit ^^ 8) (c XOR ucast b)) (take (unat len) buf) (crc XOR 0xffffffff) XOR 0xffffffff)"
  using crc32_c_eq [OF assms, of crc] crc_table_made by (simp add: crc_spec_def)

theorem crc32_c_is_division_witness:
  "crc32_c 0 [0x31, 0x32, 0x33] 2 =
     Inr (fold (\<lambda>b c. (crc_bit ^^ 8) (c XOR ucast b)) [0x31 :: u8, 0x32] 0xffffffff XOR 0xffffffff)"
  using crc32_c_is_division [of 2 "[0x31, 0x32, 0x33]" 0] by (simp del: crc_loop.simps)

text \<open>a record in which one byte was changed, whatever the byte and its place, has another
  checksum.\<close>

theorem crc32_c_detects_byte:
  assumes "crc32_c crc buf len = Inr c" and "crc32_c crc (buf[i := b]) len = Inr c'"
    and "i < unat len" and "b \<noteq> buf ! i"
  shows "c \<noteq> c'"
proof -
  have len: "unat len \<le> length buf"
    using assms(1) crc32_c_fault [of buf len crc] by (cases "unat len \<le> length buf") simp_all
  let ?xs = "take (unat len) buf"
  define pre post where "pre = take i ?xs" and "post = drop (Suc i) ?xs"
  have i: "i < length ?xs" using assms(3) len by simp
  have old: "?xs = pre @ buf ! i # post" using id_take_nth_drop [OF i] assms(3) by (simp add: pre_def post_def)
  have new: "take (unat len) (buf[i := b]) = pre @ b # post"
    using upd_conv_take_nth_drop [OF i, of b] assms(3) by (simp add: take_update_swap pre_def post_def)
  let ?c = "fold crc_byte pre (crc XOR 0xffffffff)"
  have "c = fold crc_byte post (crc_byte (buf ! i) ?c) XOR 0xffffffff"
    "c' = fold crc_byte post (crc_byte b ?c) XOR 0xffffffff"
    using assms(1,2) crc32_c_eq [OF len, of crc] crc32_c_eq [of len "buf[i := b]" crc] len
    by (simp_all only: old new crc_spec_eq length_list_update) simp_all
  moreover have "unat (ucast x :: u32) = unat x" for x :: u8
  proof -
    have "unat x < 2 ^ 32" by (rule less_trans [OF unsigned_less]) simp
    then show ?thesis by (simp add: unsigned_ucast_eq take_bit_nat_eq_self)
  qed
  then have "ucast (buf ! i) \<noteq> (ucast b :: u32)" using assms(4) by (metis word_unat_eq_iff)
  then have "?c XOR ucast (buf ! i) \<noteq> ?c XOR ucast b" by (simp add: xor.commute [of ?c] xor_right_cancel)
  ultimately show ?thesis by (simp add: fold_crc_inj crc_byte_inj xor_right_cancel)
qed

theorem crc32_c_detects_byte_witness:
  "(case (crc32_c 0 [1, 2] 2, crc32_c 0 [1, 3] 2) of (Inr c, Inr c') \<Rightarrow> c \<noteq> c' | _ \<Rightarrow> False)"
  using crc32_c_detects_byte [OF crc32_c_eq crc32_c_eq, of 2 "[1, 2]" 1 3 0] crc32_c_eq [of 2 "[1, 2]" 0]
    crc32_c_eq [of 2 "[1, 3]" 0] by (simp del: crc_loop.simps)

end
