(* ===== verification/NvStore.thy ===== *)
theory NvStore
  imports Crc
begin

text \<open>
  The store of the user data in flash, \<open>services/nv_section/userdata_section/nvrecord_extension.c\<close>:
  a mirror of the record in RAM, a main and a backup sector, and the state machine that copies the
  mirror to the main sector and that to the backup one, step by step or at once.

  The flash driver \<open>services/norflash_api/norflash_api.cpp\<close> (C++) is represented by what its header
  promises to a client: requests are kept in a buffer of bounded size, each call of its flush routine
  carries out the oldest one, a read sees the buffered requests. For the moment at which the power
  fails it carries the number of requests until then and what is left of the sector that is torn.

  What the record consists of is not modelled here: its size, its first content and the defaults that
  the owners of its parts rebuild are the fields of a \<open>nv_build\<close>.
\<close>

section \<open>Records and sectors\<close>

definition NV_EXTENSION_MAJOR_VERSION :: u16 where
  "NV_EXTENSION_MAJOR_VERSION = 15"

definition NV_EXTENSION_MINOR_VERSION :: u16 where
  "NV_EXTENSION_MINOR_VERSION = 3"

definition NV_EXTENSION_SIZE :: u32 where
  "NV_EXTENSION_SIZE = 0x1000"

definition NV_EXTENSION_HEADER_SIZE :: u32 where
  "NV_EXTENSION_HEADER_SIZE = 16"

definition NV_EXTENSION_MAGIC_NUMBER :: u32 where
  "NV_EXTENSION_MAGIC_NUMBER = 0x4E455854"

record nv_header =
  nh_magic :: u32
  nh_major :: u16
  nh_minor :: u16
  nh_len :: u32
  nh_crc :: u32

text \<open>What a sector, the mirror or the buffer holds, seen as a record: the header and the bytes after it.\<close>

record nv_image =
  ni_header :: nv_header
  ni_body :: "u8 list"

definition BODY_SIZE :: nat where
  "BODY_SIZE = 4080"

record nv_build =
  nb_len :: u32
  nb_initial :: "u8 list"
  nb_default :: "u8 list"

section \<open>The flash driver\<close>

datatype nv_bank = Main | Bak

datatype flash_op = Erase nv_bank | Program nv_bank nv_image

datatype flash_power = Steady | Fails_After nat nv_image | Lost

datatype norflash_ret = NORFLASH_API_OK | NORFLASH_API_BUFFER_FULL | NORFLASH_API_ERR_UNINIT

record norflash =
  fl_sector :: "nv_bank \<Rightarrow> nv_image"
  fl_queue :: "flash_op list"
  fl_cap :: nat
  fl_power :: flash_power
  fl_registered :: bool

definition erased :: nv_image where
  "erased = \<lparr>ni_header = \<lparr>nh_magic = 0xffffffff, nh_major = 0xffff, nh_minor = 0xffff, nh_len = 0xffffffff,
       nh_crc = 0xffffffff\<rparr>, ni_body = replicate BODY_SIZE 0xff\<rparr>"

text \<open>Programming can only clear bits.\<close>

definition program :: "nv_image \<Rightarrow> nv_image \<Rightarrow> nv_image" where
  "program d sec =
     \<lparr>ni_header = \<lparr>nh_magic = nh_magic (ni_header sec) AND nh_magic (ni_header d),
         nh_major = nh_major (ni_header sec) AND nh_major (ni_header d),
         nh_minor = nh_minor (ni_header sec) AND nh_minor (ni_header d),
         nh_len = nh_len (ni_header sec) AND nh_len (ni_header d),
         nh_crc = nh_crc (ni_header sec) AND nh_crc (ni_header d)\<rparr>,
       ni_body = map2 (\<lambda>a b. a AND b) (ni_body sec) (ni_body d) @ drop (length (ni_body d)) (ni_body sec)\<rparr>"

fun op_bank :: "flash_op \<Rightarrow> nv_bank" where
  "op_bank (Erase b) = b"
| "op_bank (Program b d) = b"

fun op_apply :: "flash_op \<Rightarrow> nv_image \<Rightarrow> nv_image" where
  "op_apply (Erase b) sec = erased"
| "op_apply (Program b d) sec = program d sec"

definition do_op :: "flash_op \<Rightarrow> norflash \<Rightarrow> norflash" where
  "do_op p fl =
     (let b = op_bank p in
      case fl_power fl of
        Steady \<Rightarrow> fl\<lparr>fl_sector := (fl_sector fl)(b := op_apply p (fl_sector fl b))\<rparr>
      | Fails_After (Suc n) torn \<Rightarrow>
          fl\<lparr>fl_sector := (fl_sector fl)(b := op_apply p (fl_sector fl b)), fl_power := Fails_After n torn\<rparr>
      | Fails_After 0 torn \<Rightarrow> fl\<lparr>fl_sector := (fl_sector fl)(b := torn), fl_power := Lost\<rparr>
      | Lost \<Rightarrow> fl)"

definition norflash_api_flush :: "norflash \<Rightarrow> norflash" where
  "norflash_api_flush fl =
     (case fl_queue fl of [] \<Rightarrow> fl | p # ps \<Rightarrow> do_op p (fl\<lparr>fl_queue := ps\<rparr>))"

definition norflash_api_get_dev_id :: "norflash \<Rightarrow> norflash_ret" where
  "norflash_api_get_dev_id fl = (if fl_registered fl then NORFLASH_API_OK else NORFLASH_API_ERR_UNINIT)"

definition norflash_enqueue :: "flash_op \<Rightarrow> norflash \<Rightarrow> norflash_ret \<times> norflash" where
  "norflash_enqueue p fl =
     (if \<not> fl_registered fl then (NORFLASH_API_ERR_UNINIT, fl)
      else if length (fl_queue fl) < fl_cap fl then (NORFLASH_API_OK, fl\<lparr>fl_queue := fl_queue fl @ [p]\<rparr>)
      else (NORFLASH_API_BUFFER_FULL, fl))"

definition norflash_api_read :: "nv_bank \<Rightarrow> nat \<Rightarrow> norflash \<Rightarrow> nv_image" where
  "norflash_api_read b n fl =
     (let sec = fold op_apply (filter (\<lambda>p. op_bank p = b) (fl_queue fl)) (fl_sector fl b) in
      sec\<lparr>ni_body := take n (ni_body sec)\<rparr>)"

text \<open>An erase that is not buffered comes after all that is.\<close>

definition norflash_erase_now :: "nv_bank \<Rightarrow> norflash \<Rightarrow> norflash" where
  "norflash_erase_now b fl = do_op (Erase b) (fold do_op (fl_queue fl) (fl\<lparr>fl_queue := []\<rparr>))"

section \<open>The state of the store\<close>

datatype NV_STATE =
    NV_STATE_IDLE | NV_STATE_MAIN_ERASING | NV_STATE_MAIN_ERASED | NV_STATE_MAIN_WRITTING
  | NV_STATE_MAIN_WRITE_PENDING | NV_STATE_MAIN_WRITTEN | NV_STATE_MAIN_DONE | NV_STATE_BAK_ERASING
  | NV_STATE_BAK_ERASED | NV_STATE_BAK_WRITTING | NV_STATE_BAK_WRITE_PENDING | NV_STATE_BAK_WRITTEN
  | NV_STATE_BAK_DONE

record nv_store =
  nv_update :: bool
  nv_state :: NV_STATE
  nv_init :: bool
  nv_ptr :: bool
  nv_ram :: nv_image
  nv_burn :: nv_image
  nv_delay :: bool
  nv_checkpoint :: u32
  nv_flash :: norflash

abbreviation on_flash :: "(norflash \<Rightarrow> norflash) \<Rightarrow> nv_store \<Rightarrow> nv_store" where
  "on_flash f s \<equiv> s\<lparr>nv_flash := f (nv_flash s)\<rparr>"

definition initial_image :: "nv_build \<Rightarrow> nv_image" where
  "initial_image B =
     \<lparr>ni_header = \<lparr>nh_magic = NV_EXTENSION_MAGIC_NUMBER, nh_major = NV_EXTENSION_MAJOR_VERSION,
         nh_minor = NV_EXTENSION_MINOR_VERSION, nh_len = nb_len B, nh_crc = 0\<rparr>, ni_body = nb_initial B\<rparr>"

text \<open>The power comes back: the RAM has its first content, the sectors have theirs.\<close>

definition nv_reset :: "nv_build \<Rightarrow> flash_power \<Rightarrow> nv_store \<Rightarrow> nv_store" where
  "nv_reset B pw s =
     \<lparr>nv_update = False, nv_state = NV_STATE_IDLE, nv_init = False, nv_ptr = False, nv_ram = initial_image B,
      nv_burn = \<lparr>ni_header = \<lparr>nh_magic = 0, nh_major = 0, nh_minor = 0, nh_len = 0, nh_crc = 0\<rparr>,
        ni_body = replicate (unat (nb_len B)) 0\<rparr>,
      nv_delay = False, nv_checkpoint = 0,
      nv_flash = (nv_flash s)\<lparr>fl_queue := [], fl_power := pw, fl_registered := False\<rparr>\<rparr>"

section \<open>Checks and defaults\<close>

definition nv_record_data_is_valid :: "nv_build \<Rightarrow> nv_image \<Rightarrow> bool res" where
  "nv_record_data_is_valid B img =
     (let h = ni_header img in
      if NV_EXTENSION_MAJOR_VERSION = nh_major h \<and> NV_EXTENSION_MAGIC_NUMBER = nh_magic h then
        if nh_len h \<le> NV_EXTENSION_SIZE - NV_EXTENSION_HEADER_SIZE then
          bindE (crc32_c 0 (ni_body img) (nh_len h)) (\<lambda>crc.
          Inr (crc = nh_crc h \<and> \<not> nb_len B < nh_len h))
        else Inr False
      else Inr False)"

definition nv_record_items_is_valid :: "nv_image \<Rightarrow> bool" where
  "nv_record_items_is_valid img = True"

text \<open>\<open>header.crc32 = crc32_c(0, data, len)\<close>\<close>

definition seal :: "u32 \<Rightarrow> nv_image \<Rightarrow> nv_image res" where
  "seal len img =
     bindE (crc32_c 0 (ni_body img) len) (\<lambda>crc. Inr (img\<lparr>ni_header := (ni_header img)\<lparr>nh_crc := crc\<rparr>\<rparr>))"

text \<open>\<open>content\<close> is what the owners of the parts of the record leave in its bytes.\<close>

definition nv_record_reset_content :: "nv_build \<Rightarrow> u8 list \<Rightarrow> nv_image \<Rightarrow> nv_image res" where
  "nv_record_reset_content B content img =
     seal (nb_len B)
       \<lparr>ni_header = (ni_header img)\<lparr>nh_magic := NV_EXTENSION_MAGIC_NUMBER, nh_major := NV_EXTENSION_MAJOR_VERSION,
           nh_minor := NV_EXTENSION_MINOR_VERSION, nh_len := nb_len B\<rparr>,
        ni_body = content @ drop (length content) (ni_body img)\<rparr>"

definition nv_record_set_default :: "nv_build \<Rightarrow> nv_image \<Rightarrow> nv_image res" where
  "nv_record_set_default B img = nv_record_reset_content B (nb_default B) img"

definition nv_record_extension_update :: "nv_store \<Rightarrow> nv_store" where
  "nv_record_extension_update s = s\<lparr>nv_update := True\<rparr>"

text \<open>A module changes its part of the record and calls \<open>nv_record_update_runtime_userdata\<close>.\<close>

definition nv_client_write :: "u8 list \<Rightarrow> nv_store \<Rightarrow> nv_store" where
  "nv_client_write content s =
     nv_record_extension_update
       (s\<lparr>nv_ram := (nv_ram s)\<lparr>ni_body := content @ drop (length content) (ni_body (nv_ram s))\<rparr>\<rparr>)"

section \<open>The flush of the main sector\<close>

text \<open>The loops that wait for the driver; \<open>n\<close> bounds the number of rounds.\<close>

fun flush_until_room :: "nat \<Rightarrow> norflash \<Rightarrow> norflash res" where
  "flush_until_room 0 fl = Inl No_Return"
| "flush_until_room (Suc n) fl =
     (let fl' = norflash_api_flush fl in
      if fl_cap fl' - length (fl_queue fl') = 0 then flush_until_room n fl' else Inr fl')"

fun flush_until_empty :: "nat \<Rightarrow> norflash \<Rightarrow> norflash res" where
  "flush_until_empty 0 fl = Inl No_Return"
| "flush_until_empty (Suc n) fl =
     (let fl' = norflash_api_flush fl in
      if 0 < length (fl_queue fl') then flush_until_empty n fl' else Inr fl')"

text \<open>\<open>do { ret = norflash_api_erase(...); ... } while (ret == NORFLASH_API_BUFFER_FULL)\<close>, and the same for
  a write.\<close>

fun request_sync :: "nat \<Rightarrow> flash_op \<Rightarrow> norflash \<Rightarrow> norflash res" where
  "request_sync 0 p fl = Inl No_Return"
| "request_sync (Suc n) p fl =
     (case norflash_enqueue p fl of
        (NORFLASH_API_OK, fl') \<Rightarrow> Inr fl'
      | (NORFLASH_API_BUFFER_FULL, fl') \<Rightarrow> bindE (flush_until_room n fl') (request_sync n p)
      | (NORFLASH_API_ERR_UNINIT, fl') \<Rightarrow> Inl Assert_Fail)"

text \<open>One request of the asynchronous flush: the next state when it was buffered.\<close>

definition request_async :: "flash_op \<Rightarrow> NV_STATE \<Rightarrow> nv_store \<Rightarrow> (nat \<times> nv_store) res" where
  "request_async p st s =
     (case norflash_enqueue p (nv_flash s) of
        (NORFLASH_API_OK, fl) \<Rightarrow> Inr (0, s\<lparr>nv_flash := fl, nv_state := st\<rparr>)
      | (NORFLASH_API_BUFFER_FULL, fl) \<Rightarrow> Inr (1, s\<lparr>nv_flash := norflash_api_flush fl\<rparr>)
      | (NORFLASH_API_ERR_UNINIT, fl) \<Rightarrow> Inl Assert_Fail)"

text \<open>The mirror is sealed, checked and copied to the buffer that is written.\<close>

definition take_mirror :: "nv_build \<Rightarrow> nv_store \<Rightarrow> nv_store res" where
  "take_mirror B s =
     bindE (seal (nb_len B) (nv_ram s)) (\<lambda>ram.
     bindE (nv_record_data_is_valid B ram) (\<lambda>ok.
     c_assert (ok \<and> nv_record_items_is_valid ram)
       (Inr (s\<lparr>nv_ram := ram, nv_burn := ram\<lparr>ni_body := take (unat (nb_len B)) (ni_body ram)\<rparr>,
          nv_state := NV_STATE_MAIN_WRITE_PENDING, nv_update := False\<rparr>))))"

definition flush_main_async :: "nv_build \<Rightarrow> nv_store \<Rightarrow> (nat \<times> nv_store) res" where
  "flush_main_async B s =
     (if nv_state s = NV_STATE_IDLE \<or> nv_state s = NV_STATE_MAIN_ERASING then
        request_async (Erase Main) NV_STATE_MAIN_ERASED
          (if nv_state s = NV_STATE_IDLE then s\<lparr>nv_state := NV_STATE_MAIN_ERASING\<rparr> else s)
      else if nv_state s = NV_STATE_MAIN_ERASED then bindE (take_mirror B s) (\<lambda>s1. Inr (0, s1))
      else if nv_state s = NV_STATE_MAIN_WRITE_PENDING then
        request_async (Program Main (nv_burn s)) NV_STATE_MAIN_WRITTEN s
      else if nv_state s = NV_STATE_MAIN_WRITTEN then
        Inr (0, if length (fl_queue (nv_flash s)) = 0 then s\<lparr>nv_state := NV_STATE_MAIN_DONE\<rparr>
                else on_flash norflash_api_flush s)
      else Inl Assert_Fail)"

definition flush_main_sync :: "nv_build \<Rightarrow> nat \<Rightarrow> nv_store \<Rightarrow> (nat \<times> nv_store) res" where
  "flush_main_sync B n s =
     bindE (if nv_state s = NV_STATE_IDLE \<or> nv_state s = NV_STATE_MAIN_ERASING
            then bindE (request_sync n (Erase Main) (nv_flash s)) (\<lambda>fl.
                 Inr (s\<lparr>nv_flash := fl, nv_state := NV_STATE_MAIN_ERASED\<rparr>))
            else Inr s) (\<lambda>s1.
     bindE (if nv_state s1 = NV_STATE_MAIN_ERASED then take_mirror B s1 else Inr s1) (\<lambda>s2.
     bindE (if nv_state s2 = NV_STATE_MAIN_WRITE_PENDING
            then bindE (request_sync n (Program Main (nv_burn s2)) (nv_flash s2)) (\<lambda>fl.
                 Inr (s2\<lparr>nv_flash := fl, nv_state := NV_STATE_MAIN_WRITTEN\<rparr>))
            else Inr s2) (\<lambda>s3.
     bindE (flush_until_empty n (nv_flash s3)) (\<lambda>fl.
     Inr (0, s3\<lparr>nv_flash := fl, nv_state := NV_STATE_MAIN_DONE\<rparr>)))))"

definition nv_record_extension_flush_main :: "nv_build \<Rightarrow> nat \<Rightarrow> bool \<Rightarrow> nv_store \<Rightarrow> (nat \<times> nv_store) res" where
  "nv_record_extension_flush_main B n is_async s =
     (if norflash_api_get_dev_id (nv_flash s) \<noteq> NORFLASH_API_OK then Inr (1, s)
      else if \<not> nv_ptr s then Inr (0, s)
      else if is_async then flush_main_async B s else flush_main_sync B n s)"

section \<open>The flush of the backup sector\<close>

definition copy_main :: "nv_build \<Rightarrow> nv_store \<Rightarrow> nv_store" where
  "copy_main B s =
     s\<lparr>nv_burn := norflash_api_read Main (unat (nb_len B)) (nv_flash s), nv_state := NV_STATE_BAK_WRITE_PENDING\<rparr>"

definition flush_bak_async :: "nv_build \<Rightarrow> nv_store \<Rightarrow> (nat \<times> nv_store) res" where
  "flush_bak_async B s =
     (if nv_state s = NV_STATE_MAIN_DONE \<or> nv_state s = NV_STATE_BAK_ERASING then
        request_async (Erase Bak) NV_STATE_BAK_ERASED
          (if nv_state s = NV_STATE_MAIN_DONE then s\<lparr>nv_state := NV_STATE_BAK_ERASING\<rparr> else s)
      else if nv_state s = NV_STATE_BAK_ERASED \<or> nv_state s = NV_STATE_BAK_WRITTING then Inr (0, copy_main B s)
      else if nv_state s = NV_STATE_BAK_WRITE_PENDING then
        request_async (Program Bak (nv_burn s)) NV_STATE_BAK_WRITTEN s
      else if nv_state s = NV_STATE_BAK_WRITTEN then
        Inr (0, if length (fl_queue (nv_flash s)) = 0 then s\<lparr>nv_state := NV_STATE_BAK_DONE\<rparr>
                else on_flash norflash_api_flush s)
      else Inl Assert_Fail)"

definition flush_bak_sync :: "nv_build \<Rightarrow> nat \<Rightarrow> nv_store \<Rightarrow> (nat \<times> nv_store) res" where
  "flush_bak_sync B n s =
     bindE (if nv_state s = NV_STATE_MAIN_DONE \<or> nv_state s = NV_STATE_BAK_ERASING
            then bindE (request_sync n (Erase Bak) (nv_flash s)) (\<lambda>fl.
                 Inr (s\<lparr>nv_flash := fl, nv_state := NV_STATE_BAK_ERASED\<rparr>))
            else Inr s) (\<lambda>s1.
     let s2 = (if nv_state s1 = NV_STATE_BAK_ERASED \<or> nv_state s1 = NV_STATE_BAK_WRITTEN then copy_main B s1 else s1) in
     bindE (if nv_state s2 = NV_STATE_BAK_WRITE_PENDING
            then bindE (request_sync n (Program Bak (nv_burn s2)) (nv_flash s2)) (\<lambda>fl.
                 Inr (s2\<lparr>nv_flash := fl, nv_state := NV_STATE_BAK_WRITTEN\<rparr>))
            else Inr s2) (\<lambda>s3.
     bindE (flush_until_empty n (nv_flash s3)) (\<lambda>fl.
     Inr (0, s3\<lparr>nv_flash := fl, nv_state := NV_STATE_BAK_DONE\<rparr>))))"

definition nv_record_extension_flush_bak :: "nv_build \<Rightarrow> nat \<Rightarrow> bool \<Rightarrow> nv_store \<Rightarrow> (nat \<times> nv_store) res" where
  "nv_record_extension_flush_bak B n is_async s =
     (if norflash_api_get_dev_id (nv_flash s) \<noteq> NORFLASH_API_OK then Inr (1, s)
      else
        bindE (if is_async then flush_bak_async B s else flush_bak_sync B n s) (\<lambda>(ret, s1).
        Inr (ret, if nv_state s1 = NV_STATE_BAK_DONE then s1\<lparr>nv_state := NV_STATE_IDLE\<rparr> else s1)))"

section \<open>The flush\<close>

definition main_turn :: "nv_store \<Rightarrow> bool" where
  "main_turn s \<longleftrightarrow> (nv_state s = NV_STATE_IDLE \<and> nv_update s) \<or>
     nv_state s \<in> {NV_STATE_MAIN_ERASING, NV_STATE_MAIN_ERASED, NV_STATE_MAIN_WRITTING,
       NV_STATE_MAIN_WRITE_PENDING, NV_STATE_MAIN_WRITTEN}"

definition bak_turn :: "nv_store \<Rightarrow> bool" where
  "bak_turn s \<longleftrightarrow> nv_state s \<in> {NV_STATE_MAIN_DONE, NV_STATE_BAK_ERASING, NV_STATE_BAK_ERASED,
     NV_STATE_BAK_WRITTING, NV_STATE_BAK_WRITE_PENDING, NV_STATE_BAK_WRITTEN, NV_STATE_BAK_DONE}"

text \<open>One round of the loop; the flag tells that the loop is left.\<close>

definition flush_round :: "nv_build \<Rightarrow> nat \<Rightarrow> bool \<Rightarrow> nat \<times> nv_store \<Rightarrow> (bool \<times> nat \<times> nv_store) res" where
  "flush_round B n is_async = (\<lambda>(ret, s).
     if nv_state s = NV_STATE_IDLE \<and> \<not> nv_update s then Inr (True, ret, s)
     else
       bindE (if main_turn s then nv_record_extension_flush_main B n is_async s else Inr (ret, s)) (\<lambda>(ret1, s1).
       if main_turn s \<and> is_async then Inr (True, ret1, s1)
       else
         bindE (if bak_turn s1 then nv_record_extension_flush_bak B n is_async s1 else Inr (ret1, s1)) (\<lambda>(ret2, s2).
         Inr (is_async, ret2, s2))))"

fun flush_rounds :: "nat \<Rightarrow> nv_build \<Rightarrow> nat \<Rightarrow> bool \<Rightarrow> nat \<times> nv_store \<Rightarrow> (nat \<times> nv_store) res" where
  "flush_rounds 0 B n is_async rs = Inl No_Return"
| "flush_rounds (Suc k) B n is_async rs =
     bindE (flush_round B n is_async rs) (\<lambda>(fin, rs1).
     if fin then Inr rs1 else flush_rounds k B n is_async rs1)"

definition nv_record_extension_flush :: "nat \<Rightarrow> nv_build \<Rightarrow> bool \<Rightarrow> nv_store \<Rightarrow> (nat \<times> nv_store) res" where
  "nv_record_extension_flush n B is_async s = flush_rounds n B n is_async (0, s)"

section \<open>Starting up\<close>

definition load_header_ok :: "nv_image \<Rightarrow> bool" where
  "load_header_ok img \<longleftrightarrow> nh_magic (ni_header img) = NV_EXTENSION_MAGIC_NUMBER \<and>
     nh_major (ni_header img) = NV_EXTENSION_MAJOR_VERSION \<and> nh_minor (ni_header img) = NV_EXTENSION_MINOR_VERSION \<and>
     nh_len (ni_header img) < NV_EXTENSION_SIZE - NV_EXTENSION_HEADER_SIZE"

text \<open>\<open>memcpy\<close> of the record's bytes and the new checksum.\<close>

definition load_from :: "nv_build \<Rightarrow> nv_image \<Rightarrow> nv_image \<Rightarrow> nv_image res" where
  "load_from B sec ram =
     seal (nh_len (ni_header ram))
       (ram\<lparr>ni_body := take (unat (nb_len B)) (ni_body sec) @ drop (unat (nb_len B)) (ni_body ram)\<rparr>)"

text \<open>\<open>nv_record_extension_init\<close> up to the flush at its end.\<close>

definition nv_record_load :: "nv_build \<Rightarrow> nv_store \<Rightarrow> nv_store res" where
  "nv_record_load B s =
     (let s1 = s\<lparr>nv_flash := (nv_flash s)\<lparr>fl_registered := True\<rparr>, nv_update := False, nv_state := NV_STATE_IDLE,
          nv_ptr := True\<rparr>;
          main = fl_sector (nv_flash s1) Main; bak = fl_sector (nv_flash s1) Bak in
      c_assert (load_header_ok (nv_ram s1))
        (bindE (nv_record_data_is_valid B main) (\<lambda>main_ok.
         bindE (nv_record_data_is_valid B bak) (\<lambda>bak_ok.
         let main_is_valid = (main_ok \<and> nv_record_items_is_valid main);
             bak_is_valid = (bak_ok \<and> nv_record_items_is_valid bak);
             s2 = (if main_is_valid then
                     (if \<not> bak_is_valid then s1\<lparr>nv_update := True, nv_state := NV_STATE_MAIN_DONE\<rparr> else s1)
                   else if bak_is_valid then s1\<lparr>nv_update := True, nv_state := NV_STATE_IDLE\<rparr> else s1) in
         bindE (if main_is_valid \<or> bak_is_valid
                then bindE (load_from B (if main_is_valid then main else bak) (nv_ram s2)) (\<lambda>ram.
                     Inr (s2\<lparr>nv_ram := ram\<rparr>))
                else bindE (nv_record_set_default B (nv_ram s2)) (\<lambda>ram.
                     Inr (nv_record_extension_update (s2\<lparr>nv_ram := ram\<rparr>)))) (\<lambda>s3.
         Inr (s3\<lparr>nv_init := True\<rparr>))))))"

definition nv_record_extension_init :: "nat \<Rightarrow> nv_build \<Rightarrow> nv_store \<Rightarrow> nv_store res" where
  "nv_record_extension_init n B s =
     (if nv_init s then Inr s
      else
        bindE (nv_record_load B s) (\<lambda>s1.
        if nv_update s1 then bindE (nv_record_extension_flush n B False s1) (\<lambda>(ret, s2). Inr s2) else Inr s1))"

section \<open>When the record is flushed\<close>

definition nv_record_flash_flush :: "nat \<Rightarrow> nv_build \<Rightarrow> u32 \<Rightarrow> nv_store \<Rightarrow> nv_store res" where
  "nv_record_flash_flush n B now s =
     bindE (nv_record_extension_flush n B False s) (\<lambda>(ret, s1). Inr (s1\<lparr>nv_checkpoint := now\<rparr>))"

definition nv_record_execute_async_flush :: "nat \<Rightarrow> nv_build \<Rightarrow> u32 \<Rightarrow> nv_store \<Rightarrow> nv_store res" where
  "nv_record_execute_async_flush n B now s =
     bindE (nv_record_extension_flush n B True s) (\<lambda>(ret, s1).
     Inr (if ret = 0 then s1\<lparr>nv_checkpoint := now\<rparr> else s1))"

text \<open>The debouncing timer of the RTOS: whether it can be started, and whether it runs.\<close>

definition nv_norflash_async_flush_check :: "bool \<Rightarrow> bool \<Rightarrow> nv_store \<Rightarrow> bool \<times> nv_store" where
  "nv_norflash_async_flush_check start_ok running s =
     (if \<not> nv_delay s then (if start_ok then (False, s\<lparr>nv_delay := True\<rparr>) else (True, s))
      else if running then (if start_ok then (False, s) else (True, s\<lparr>nv_delay := False\<rparr>))
      else (True, s\<lparr>nv_delay := False\<rparr>))"

definition nv_record_is_timer_expired_to_check :: "bool \<Rightarrow> bool \<Rightarrow> nv_store \<Rightarrow> bool \<times> nv_store" where
  "nv_record_is_timer_expired_to_check start_ok running s = nv_norflash_async_flush_check start_ok running s"

definition nv_record_flash_flush_in_sleep ::
  "nat \<Rightarrow> nv_build \<Rightarrow> bool \<Rightarrow> bool \<Rightarrow> u32 \<Rightarrow> nv_store \<Rightarrow> (nat \<times> nv_store) res" where
  "nv_record_flash_flush_in_sleep n B start_ok running now s =
     (let (expired, s1) = (if nv_state s = NV_STATE_IDLE then nv_record_is_timer_expired_to_check start_ok running s
                           else (True, s)) in
      if \<not> expired then Inr (0, s1)
      else
        bindE (nv_record_execute_async_flush n B now s1) (\<lambda>s2.
        Inr (if nv_state s2 = NV_STATE_IDLE \<and> \<not> nv_update s2 then 0 else 1, s2)))"

definition nv_record_sector_clear :: "nv_store \<Rightarrow> nv_store res" where
  "nv_record_sector_clear s =
     c_assert (norflash_api_get_dev_id (nv_flash s) = NORFLASH_API_OK)
       (Inr (on_flash (\<lambda>fl. norflash_erase_now Bak (norflash_erase_now Main fl)) s))"

text \<open>\<open>content\<close> is what the rebuild leaves in the record.\<close>

definition nv_record_rebuild :: "nat \<Rightarrow> nv_build \<Rightarrow> u8 list \<Rightarrow> u32 \<Rightarrow> nv_store \<Rightarrow> nv_store res" where
  "nv_record_rebuild n B content now s =
     (if nv_ptr s then
        bindE (nv_record_reset_content B content (nv_ram s)) (\<lambda>ram.
        nv_record_flash_flush n B now (nv_record_extension_update (s\<lparr>nv_ram := ram\<rparr>)))
      else
        bindE (nv_record_sector_clear s) (\<lambda>s1.
        nv_record_extension_init n B (s1\<lparr>nv_init := False\<rparr>)))"

end
