(* ===== verification/NvStoreInv.thy ===== *)
theory NvStoreInv
  imports NvStore
begin

text \<open>
  The invariant of the store of \<open>services/nv_section/userdata_section/nvrecord_extension.c\<close>: what the
  two sectors, the buffer of the flash driver and the mirror hold in each state of the flush. A lemma
  for each operation shows that it returns and keeps the invariant, whenever the power fails.
\<close>

section \<open>Images\<close>

definition wf :: "nv_image \<Rightarrow> bool" where
  "wf img \<longleftrightarrow> length (ni_body img) = BODY_SIZE"

definition build_ok :: "nv_build \<Rightarrow> bool" where
  "build_ok B \<longleftrightarrow> nb_len B < NV_EXTENSION_SIZE - NV_EXTENSION_HEADER_SIZE \<and>
     length (nb_initial B) = BODY_SIZE \<and> length (nb_default B) = unat (nb_len B)"

definition payload :: "nv_build \<Rightarrow> nv_image \<Rightarrow> u8 list" where
  "payload B img = take (unat (nb_len B)) (ni_body img)"

definition valid :: "nv_build \<Rightarrow> nv_image \<Rightarrow> bool" where
  "valid B img \<longleftrightarrow> (let h = ni_header img in
     nh_major h = NV_EXTENSION_MAJOR_VERSION \<and> nh_magic h = NV_EXTENSION_MAGIC_NUMBER \<and> nh_len h \<le> nb_len B \<and>
     crc_spec 0 (take (unat (nh_len h)) (ni_body img)) = nh_crc h)"

lemma build_len: "build_ok B \<Longrightarrow> unat (nb_len B) < BODY_SIZE"
  by (simp add: build_ok_def BODY_SIZE_def NV_EXTENSION_SIZE_def NV_EXTENSION_HEADER_SIZE_def word_less_nat_alt)

lemma limit: "(NV_EXTENSION_SIZE - NV_EXTENSION_HEADER_SIZE) = 4080"
  by (simp add: NV_EXTENSION_SIZE_def NV_EXTENSION_HEADER_SIZE_def)

text \<open>The check reads inside the sector, whatever the sector holds.\<close>

lemma data_is_valid_total:
  assumes "wf img"
  shows "\<exists>ok. nv_record_data_is_valid B img = Inr ok"
proof -
  have "nh_len (ni_header img) \<le> 4080 \<Longrightarrow> unat (nh_len (ni_header img)) \<le> length (ni_body img)"
    using assms by (simp add: wf_def BODY_SIZE_def word_le_nat_alt)
  then show ?thesis by (auto simp: nv_record_data_is_valid_def Let_def limit crc32_c_eq)
qed

lemma data_is_valid_eq:
  assumes "wf img" and "build_ok B"
  shows "nv_record_data_is_valid B img = Inr (valid B img)"
proof -
  let ?n = "nh_len (ni_header img)"
  have small: "nb_len B < 4080" using assms(2) by (simp add: build_ok_def limit)
  have "?n \<le> 4080 \<Longrightarrow> unat ?n \<le> length (ni_body img)"
    using assms(1) by (simp add: wf_def BODY_SIZE_def word_le_nat_alt)
  moreover have "?n \<le> nb_len B \<Longrightarrow> ?n \<le> 4080" using small by simp
  ultimately show ?thesis
    by (auto simp: nv_record_data_is_valid_def valid_def Let_def limit crc32_c_eq not_less)
qed

lemma erased_wf [simp]: "wf erased"
  by (simp add: wf_def erased_def)

lemma erased_invalid [simp]: "\<not> valid B erased"
  by (simp add: valid_def erased_def NV_EXTENSION_MAGIC_NUMBER_def)

text \<open>A buffer written to an erased sector.\<close>

definition burned :: "nv_image \<Rightarrow> nv_image" where
  "burned d = program d erased"

lemma ones [simp]: "(0xffffffff :: u32) AND x = x" "(0xffff :: u16) AND y = y" "(0xff :: u8) AND z = z"
proof -
  have "(0xffffffff :: u32) = -1" "(0xffff :: u16) = -1" "(0xff :: u8) = -1" by simp_all
  then show "(0xffffffff :: u32) AND x = x" "(0xffff :: u16) AND y = y" "(0xff :: u8) AND z = z"
    by (simp_all only: and.left_neutral)
qed

lemma map2_ones: "map2 (\<lambda>a b. a AND b) (replicate k (0xff :: u8)) xs = take k xs"
proof (induction xs arbitrary: k)
  case (Cons x xs)
  then show ?case by (cases k) simp_all
qed simp

lemma burned_eq:
  assumes "length (ni_body d) \<le> BODY_SIZE"
  shows "burned d = \<lparr>ni_header = ni_header d, ni_body = ni_body d @ replicate (BODY_SIZE - length (ni_body d)) 0xff\<rparr>"
  using assms map2_ones [of BODY_SIZE "ni_body d"]
  by (simp add: burned_def program_def erased_def)

lemma map2_and_same: "map2 (\<lambda>a b :: u8. a AND b) xs xs = xs"
  by (induction xs) simp_all

lemma program_burned:
  assumes "length (ni_body d) \<le> BODY_SIZE"
  shows "program d (burned d) = burned d"
  unfolding burned_eq [OF assms] program_def by (simp add: map2_and_same zip_append1)

text \<open>The first bytes of an image, as they are copied to the other sector.\<close>

definition cut :: "nv_build \<Rightarrow> nv_image \<Rightarrow> nv_image" where
  "cut B img = img\<lparr>ni_body := payload B img\<rparr>"

lemma burned_cut:
  assumes "build_ok B" and "wf img"
  shows "wf (burned (cut B img))" "valid B (burned (cut B img)) = valid B img"
    "payload B (burned (cut B img)) = payload B img" "program (cut B img) (burned (cut B img)) = burned (cut B img)"
proof -
  have len: "length (payload B img) = unat (nb_len B)" using build_len [OF assms(1)] assms(2) by (simp add: payload_def wf_def)
  then have le: "length (ni_body (cut B img)) \<le> BODY_SIZE" using build_len [OF assms(1)] by (simp add: cut_def)
  note eq = burned_eq [OF le]
  show "wf (burned (cut B img))" using le by (simp add: wf_def eq)
  show "payload B (burned (cut B img)) = payload B img"
    unfolding eq using len by (simp add: payload_def cut_def)
  show "program (cut B img) (burned (cut B img)) = burned (cut B img)" by (rule program_burned [OF le])
  have "take (unat n) (payload B img @ replicate k 0xff) = take (unat n) (ni_body img)" if "n \<le> nb_len B" for n k
    using that len by (simp add: payload_def word_le_nat_alt min_def)
  then show "valid B (burned (cut B img)) = valid B img"
    unfolding valid_def eq by (auto simp: Let_def cut_def)
qed

section \<open>The invariant\<close>

text \<open>What may be in a sector: if it is valid, one of the contents in \<open>H\<close>.\<close>

definition okp :: "nv_build \<Rightarrow> u8 list set \<Rightarrow> nv_image \<Rightarrow> bool" where
  "okp B H img \<longleftrightarrow> wf img \<and> (valid B img \<longrightarrow> payload B img \<in> H)"

lemma okp_erased [simp]: "okp B H erased"
  by (simp add: okp_def)

text \<open>The buffer of the record that is written, and the requests for one sector: erased, or to be written as
  well, or written.\<close>

definition burn_ok :: "nv_build \<Rightarrow> nv_image \<Rightarrow> bool" where
  "burn_ok B d \<longleftrightarrow> (\<exists>img. wf img \<and> valid B img \<and> d = cut B img)"

definition to_erase :: "nv_bank \<Rightarrow> flash_op list \<Rightarrow> nv_image \<Rightarrow> bool" where
  "to_erase b q sec \<longleftrightarrow> q = [Erase b] \<or> q = [] \<and> sec = erased"

definition to_write :: "nv_bank \<Rightarrow> nv_image \<Rightarrow> flash_op list \<Rightarrow> nv_image \<Rightarrow> bool" where
  "to_write b d q sec \<longleftrightarrow>
     (\<exists>j. q = Erase b # replicate j (Program b d) \<or> q = replicate j (Program b d) \<and> (sec = erased \<or> sec = burned d))"

definition written :: "nv_bank \<Rightarrow> nv_image \<Rightarrow> flash_op list \<Rightarrow> nv_image \<Rightarrow> bool" where
  "written b d q sec \<longleftrightarrow> to_write b d q sec \<and> (Program b d \<in> set q \<or> q = [] \<and> sec = burned d)"

text \<open>A torn sector is not taken for a record: this is what the checksum is for.\<close>

fun torn_ok :: "nv_build \<Rightarrow> flash_power \<Rightarrow> bool" where
  "torn_ok B (Fails_After n torn) \<longleftrightarrow> wf torn \<and> \<not> valid B torn"
| "torn_ok B Steady \<longleftrightarrow> True"
| "torn_ok B Lost \<longleftrightarrow> True"

definition mirror_ok :: "nv_build \<Rightarrow> u8 list set \<Rightarrow> nv_image \<Rightarrow> bool" where
  "mirror_ok B H ram \<longleftrightarrow> wf ram \<and> payload B ram \<in> H \<and> nh_magic (ni_header ram) = NV_EXTENSION_MAGIC_NUMBER \<and>
     nh_major (ni_header ram) = NV_EXTENSION_MAJOR_VERSION \<and> nh_minor (ni_header ram) = NV_EXTENSION_MINOR_VERSION \<and>
     nh_len (ni_header ram) = nb_len B"

definition base :: "nv_build \<Rightarrow> u8 list set \<Rightarrow> nv_store \<Rightarrow> bool" where
  "base B H s \<longleftrightarrow> build_ok B \<and> nv_ptr s \<and> nv_init s \<and> mirror_ok B H (nv_ram s) \<and>
     (let fl = nv_flash s in fl_registered fl \<and> 0 < fl_cap fl \<and> length (fl_queue fl) \<le> fl_cap fl \<and>
        okp B H (fl_sector fl Main) \<and> okp B H (fl_sector fl Bak) \<and> torn_ok B (fl_power fl))"

text \<open>\<open>v\<close> tells that a record has been stored before, so that one of the sectors is valid.\<close>

definition phase :: "nv_build \<Rightarrow> bool \<Rightarrow> u8 list set \<Rightarrow> nv_store \<Rightarrow> bool" where
  "phase B v H s \<longleftrightarrow>
     (let q = fl_queue (nv_flash s); main = fl_sector (nv_flash s) Main; bak = fl_sector (nv_flash s) Bak;
          d = nv_burn s; keeps = (\<lambda>p. \<not> nv_update s \<longrightarrow> p = payload B (nv_ram s));
          stored = valid B main \<and> keeps (payload B main);
          fresh = burn_ok B d \<and> payload B (burned d) \<in> H \<and> keeps (payload B (burned d)) in
      case nv_state s of
        NV_STATE_IDLE \<Rightarrow> q = [] \<and> (v \<longrightarrow> valid B bak) \<and> (\<not> nv_update s \<longrightarrow> stored)
      | NV_STATE_MAIN_ERASING \<Rightarrow> q = [] \<and> (v \<longrightarrow> valid B bak) \<and> nv_update s
      | NV_STATE_MAIN_ERASED \<Rightarrow> to_erase Main q main \<and> (v \<longrightarrow> valid B bak) \<and> nv_update s
      | NV_STATE_MAIN_WRITE_PENDING \<Rightarrow> to_erase Main q main \<and> (v \<longrightarrow> valid B bak) \<and> fresh
      | NV_STATE_MAIN_WRITTEN \<Rightarrow> written Main d q main \<and> (v \<longrightarrow> valid B bak) \<and> fresh
      | NV_STATE_MAIN_DONE \<Rightarrow> q = [] \<and> stored
      | NV_STATE_BAK_ERASING \<Rightarrow> q = [] \<and> stored
      | NV_STATE_BAK_ERASED \<Rightarrow> to_erase Bak q bak \<and> stored
      | NV_STATE_BAK_WRITE_PENDING \<Rightarrow> (to_erase Bak q bak \<or> written Bak d q bak) \<and> stored \<and> d = cut B main
      | NV_STATE_BAK_WRITTEN \<Rightarrow> written Bak d q bak \<and> stored \<and> d = cut B main
      | _ \<Rightarrow> False)"

definition legit :: "NV_STATE \<Rightarrow> bool" where
  "legit st \<longleftrightarrow> st \<notin> {NV_STATE_MAIN_WRITTING, NV_STATE_BAK_WRITTING, NV_STATE_BAK_DONE}"

definition Inv :: "nv_build \<Rightarrow> bool \<Rightarrow> u8 list set \<Rightarrow> nv_store \<Rightarrow> bool" where
  "Inv B v H s \<longleftrightarrow> base B H s \<and> legit (nv_state s) \<and>
     (if fl_power (nv_flash s) = Lost
      then v \<longrightarrow> valid B (fl_sector (nv_flash s) Main) \<or> valid B (fl_sector (nv_flash s) Bak)
      else phase B v H s)"

section \<open>The driver\<close>

lemma do_op_simps [simp]:
  "fl_queue (do_op p fl) = fl_queue fl" "fl_cap (do_op p fl) = fl_cap fl" "fl_registered (do_op p fl) = fl_registered fl"
  by (simp_all add: do_op_def Let_def split: flash_power.splits nat.splits)

lemma norflash_api_flush_simps [simp]:
  "fl_queue (norflash_api_flush fl) = tl (fl_queue fl)" "fl_cap (norflash_api_flush fl) = fl_cap fl"
  "fl_registered (norflash_api_flush fl) = fl_registered fl"
  by (simp_all add: norflash_api_flush_def split: list.splits)

lemma written_burned:
  assumes "written b d q sec" and "burn_ok B d" and "build_ok B" and q: "q = p # ps"
  shows "written b d ps (op_apply p sec) \<and> op_bank p = b \<and> (op_apply p sec = erased \<or> op_apply p sec = burned d)"
proof -
  from assms(2,3) have idem: "program d (burned d) = burned d" by (auto simp: burn_ok_def burned_cut)
  from assms(1) obtain j where shape: "q = Erase b # replicate j (Program b d) \<or>
      q = replicate j (Program b d) \<and> (sec = erased \<or> sec = burned d)" and mem: "Program b d \<in> set q"
    using q by (auto simp: written_def to_write_def)
  from shape show ?thesis
  proof
    assume e: "q = Erase b # replicate j (Program b d)"
    with q have p: "p = Erase b" "ps = replicate j (Program b d)" by auto
    from e mem have "j \<noteq> 0" by (cases j) auto
    with p show ?thesis by (auto simp: written_def to_write_def intro: exI [of _ j])
  next
    assume "q = replicate j (Program b d) \<and> (sec = erased \<or> sec = burned d)"
    then have e: "q = replicate j (Program b d)" and sec: "sec = erased \<or> sec = burned d" by auto
    with q obtain i where i: "j = Suc i" "p = Program b d" "ps = replicate i (Program b d)" by (cases j) auto
    have "op_apply p sec = burned d" using sec idem i by (auto simp: burned_def)
    with i show ?thesis by (auto simp: written_def to_write_def intro: exI [of _ i])
  qed
qed

lemma to_erase_step: "to_erase b q sec \<Longrightarrow> q = p # ps \<Longrightarrow> to_erase b ps (op_apply p sec) \<and> op_bank p = b \<and> op_apply p sec = erased"
  by (auto simp: to_erase_def)

text \<open>The oldest request: it is for the sector that is not needed, and leaves the phase.\<close>

definition op_done :: "nv_store \<Rightarrow> flash_op \<Rightarrow> flash_op list \<Rightarrow> nv_store" where
  "op_done s p ps = s\<lparr>nv_flash := (nv_flash s)\<lparr>fl_queue := ps,
     fl_sector := (fl_sector (nv_flash s))(op_bank p := op_apply p (fl_sector (nv_flash s) (op_bank p)))\<rparr>\<rparr>"

lemma phase_power [simp]: "phase B v H (s\<lparr>nv_flash := (nv_flash s)\<lparr>fl_power := pw\<rparr>\<rparr>) = phase B v H s"
  by (cases "nv_state s") (simp_all add: phase_def Let_def)

lemma burn_okp: "burn_ok B d \<Longrightarrow> build_ok B \<Longrightarrow> payload B (burned d) \<in> H \<Longrightarrow> okp B H (burned d) \<and> valid B (burned d)"
  by (auto simp: burn_ok_def okp_def burned_cut)

lemma stored_burn_ok: "wf img \<Longrightarrow> valid B img \<Longrightarrow> burn_ok B (cut B img)"
  by (auto simp: burn_ok_def)

lemma phase_op:
  assumes b: "base B H s" and ph: "phase B v H s" and q: "fl_queue (nv_flash s) = p # ps"
  shows "phase B v H (op_done s p ps) \<and> okp B H (op_apply p (fl_sector (nv_flash s) (op_bank p))) \<and>
    (v \<longrightarrow> valid B (fl_sector (nv_flash s) (if op_bank p = Main then Bak else Main)))"
proof -
  from b have B: "build_ok B" and wfm: "wf (fl_sector (nv_flash s) Main)" and okm: "okp B H (fl_sector (nv_flash s) Main)"
    by (simp_all add: base_def Let_def okp_def)
  note ph' = ph [unfolded phase_def Let_def q]
  have pm: "payload B (burned (cut B (fl_sector (nv_flash s) Main))) \<in> H"
    if "valid B (fl_sector (nv_flash s) Main)"
    using that okm burned_cut(3) [OF B wfm] by (simp add: okp_def)
  show ?thesis
  proof (cases "nv_state s")
    case NV_STATE_MAIN_ERASED
    with ph' to_erase_step [of Main "p # ps" "fl_sector (nv_flash s) Main" p ps] show ?thesis
      by (auto simp: phase_def op_done_def)
  next
    case NV_STATE_MAIN_WRITE_PENDING
    with ph' to_erase_step [of Main "p # ps" "fl_sector (nv_flash s) Main" p ps] show ?thesis
      by (auto simp: phase_def op_done_def)
  next
    case NV_STATE_MAIN_WRITTEN
    with ph' written_burned [of Main "nv_burn s" "p # ps" "fl_sector (nv_flash s) Main" B p ps]
      burn_okp [of B "nv_burn s" H] B show ?thesis
      by (auto simp: phase_def op_done_def)
  next
    case NV_STATE_BAK_ERASED
    with ph' to_erase_step [of Bak "p # ps" "fl_sector (nv_flash s) Bak" p ps] show ?thesis
      by (auto simp: phase_def op_done_def)
  next
    case NV_STATE_BAK_WRITE_PENDING
    with ph' to_erase_step [of Bak "p # ps" "fl_sector (nv_flash s) Bak" p ps]
      written_burned [of Bak "nv_burn s" "p # ps" "fl_sector (nv_flash s) Bak" B p ps]
      stored_burn_ok [OF wfm, of B] burn_okp [of B "nv_burn s" H] B pm show ?thesis
      by (auto simp: phase_def op_done_def)
  next
    case NV_STATE_BAK_WRITTEN
    with ph' written_burned [of Bak "nv_burn s" "p # ps" "fl_sector (nv_flash s) Bak" B p ps]
      stored_burn_ok [OF wfm, of B] burn_okp [of B "nv_burn s" H] B pm show ?thesis
      by (auto simp: phase_def op_done_def)
  qed (use ph' in auto)
qed

lemma Inv_driver:
  assumes inv: "Inv B v H s"
  shows "Inv B v H (on_flash norflash_api_flush s)"
proof (cases "fl_queue (nv_flash s)")
  case Nil
  then show ?thesis using inv by (simp add: norflash_api_flush_def)
next
  case (Cons p ps)
  let ?fl = "nv_flash s"
  have b: "base B H s" and leg: "legit (nv_state s)" using inv by (auto simp: Inv_def)
  have bank: "(\<forall>x. P x) \<longleftrightarrow> P Main \<and> P Bak" for P :: "nv_bank \<Rightarrow> bool" by (metis nv_bank.exhaust)
  show ?thesis
  proof (cases "fl_power ?fl = Lost")
    case True
    then show ?thesis using inv Cons by (auto simp: Inv_def base_def Let_def norflash_api_flush_def do_op_def)
  next
    case False
    with inv have ph: "phase B v H s" by (simp add: Inv_def)
    note step = phase_op [OF b ph Cons]
    have ok: "okp B H (fl_sector ?fl Main)" "okp B H (fl_sector ?fl Bak)" using b by (simp_all add: base_def Let_def)
    have eff: "Inv B v H ((op_done s p ps)\<lparr>nv_flash := (nv_flash (op_done s p ps))\<lparr>fl_power := pw\<rparr>\<rparr>)"
      if pw: "pw \<noteq> Lost" "torn_ok B pw" for pw
    proof -
      have "base B H ((op_done s p ps)\<lparr>nv_flash := (nv_flash (op_done s p ps))\<lparr>fl_power := pw\<rparr>\<rparr>)"
        using step b Cons pw(2) ok by (cases "op_bank p") (simp_all add: base_def Let_def op_done_def)
      moreover have "legit (nv_state (op_done s p ps))" using leg by (simp add: op_done_def)
      ultimately show ?thesis using step pw(1) by (simp add: Inv_def)
    qed
    have "base B H (op_done s p ps)"
      using step b Cons ok by (cases "op_bank p") (simp_all add: base_def Let_def op_done_def)
    then have same: "Inv B v H (op_done s p ps)" using step leg False by (simp add: Inv_def op_done_def)
    show ?thesis
    proof (cases "fl_power ?fl")
      case Steady
      with same Cons show ?thesis by (simp add: norflash_api_flush_def do_op_def Let_def op_done_def)
    next
      case (Fails_After n torn)
      then have torn: "torn_ok B (Fails_After m torn)" for m using b by (simp add: base_def Let_def)
      show ?thesis
      proof (cases n)
        case 0
        with torn b leg Cons Fails_After ok step show ?thesis
          by (cases "op_bank p") (auto simp: norflash_api_flush_def do_op_def Let_def Inv_def base_def okp_def)
      next
        case (Suc m)
        with eff [of "Fails_After m torn"] torn Cons Fails_After show ?thesis
          by (simp add: norflash_api_flush_def do_op_def Let_def op_done_def)
      qed
    qed (use False in simp)
  qed
qed

text \<open>What a client of the driver relies on: while it waits, the driver keeps the invariant \<open>J\<close>, and its
  buffer has room for a request.\<close>

locale flash_client =
  fixes J :: "norflash \<Rightarrow> bool"
  assumes keep: "J fl \<Longrightarrow> J (norflash_api_flush fl)"
    and usable: "J fl \<Longrightarrow> fl_registered fl \<and> 0 < fl_cap fl \<and> length (fl_queue fl) \<le> fl_cap fl"
begin

lemma until_empty:
  assumes "J fl" and "length (fl_queue fl) < n"
  shows "\<exists>fl'. flush_until_empty n fl = Inr fl' \<and> J fl' \<and> fl_queue fl' = [] \<and> fl_cap fl' = fl_cap fl"
  using assms
proof (induction n arbitrary: fl)
  case (Suc n)
  have J: "J (norflash_api_flush fl)" by (rule keep) (rule Suc.prems)
  show ?case
  proof (cases "tl (fl_queue fl) = []")
    case False
    with Suc.prems(2) have "length (fl_queue (norflash_api_flush fl)) < n" by (cases "fl_queue fl") auto
    from Suc.IH [OF J this] False show ?thesis by (auto simp: Let_def)
  qed (use J in \<open>auto simp: Let_def\<close>)
qed simp

lemma until_room:
  assumes "J fl" and "0 < n"
  shows "\<exists>fl'. flush_until_room n fl = Inr fl' \<and> J fl' \<and> length (fl_queue fl') < fl_cap fl' \<and>
    length (fl_queue fl') \<le> length (fl_queue fl) \<and> fl_cap fl' = fl_cap fl"
proof -
  have "length (tl (fl_queue fl)) < fl_cap fl" using usable [OF assms(1)] by (cases "fl_queue fl") auto
  with assms keep [OF assms(1)] show ?thesis by (cases n) (auto simp: Let_def)
qed

lemma request:
  assumes "J fl" and "2 < n"
  shows "\<exists>fl'. request_sync n p fl = Inr (fl'\<lparr>fl_queue := fl_queue fl' @ [p]\<rparr>) \<and> J fl' \<and>
    length (fl_queue fl') < fl_cap fl' \<and> length (fl_queue fl') \<le> length (fl_queue fl) \<and> fl_cap fl' = fl_cap fl"
proof -
  from assms(2) obtain k where n: "n = Suc (Suc k)" "0 < k" by (metis Suc_lessE numeral_2_eq_2)
  show ?thesis
  proof (cases "length (fl_queue fl) < fl_cap fl")
    case True
    with usable [OF assms(1)] assms(1) n show ?thesis by (auto simp: norflash_enqueue_def intro: exI [of _ fl])
  next
    case False
    from until_room [OF assms(1), of "Suc k"] obtain fl1 where
      r: "flush_until_room (Suc k) fl = Inr fl1" "J fl1" "length (fl_queue fl1) < fl_cap fl1"
      "length (fl_queue fl1) \<le> length (fl_queue fl)" "fl_cap fl1 = fl_cap fl" by auto
    have "request_sync n p fl = request_sync (Suc k) p fl1"
      using False usable [OF assms(1)] r(1) n by (simp add: norflash_enqueue_def del: flush_until_room.simps bindE_Inr_iff)
    also have "\<dots> = Inr (fl1\<lparr>fl_queue := fl_queue fl1 @ [p]\<rparr>)"
      using usable [OF r(2)] r(3) by (simp add: norflash_enqueue_def)
    finally show ?thesis using r by auto
  qed
qed

end

lemma flush_steady: "fl_power fl = Steady \<Longrightarrow> fl_power (norflash_api_flush fl) = Steady"
  by (simp add: norflash_api_flush_def do_op_def Let_def split: list.split)

interpretation client: flash_client
  "\<lambda>fl. Inv B v H (s\<lparr>nv_flash := fl\<rparr>) \<and> (fl_power (nv_flash s) = Steady \<longrightarrow> fl_power fl = Steady)" for B v H s
proof
  fix fl
  assume inv: "Inv B v H (s\<lparr>nv_flash := fl\<rparr>) \<and> (fl_power (nv_flash s) = Steady \<longrightarrow> fl_power fl = Steady)"
  with Inv_driver [of B v H "s\<lparr>nv_flash := fl\<rparr>"] flush_steady [of fl]
  show "Inv B v H (s\<lparr>nv_flash := norflash_api_flush fl\<rparr>) \<and>
    (fl_power (nv_flash s) = Steady \<longrightarrow> fl_power (norflash_api_flush fl) = Steady)" by simp
  from inv show "fl_registered fl \<and> 0 < fl_cap fl \<and> length (fl_queue fl) \<le> fl_cap fl"
    by (simp add: Inv_def base_def Let_def)
qed

section \<open>The steps of the flush\<close>

definition enq :: "flash_op \<Rightarrow> nv_store \<Rightarrow> nv_store" where
  "enq p s = on_flash (\<lambda>fl. fl\<lparr>fl_queue := fl_queue fl @ [p]\<rparr>) s"

definition has_room :: "nv_store \<Rightarrow> bool" where
  "has_room s \<longleftrightarrow> length (fl_queue (nv_flash s)) < fl_cap (nv_flash s)"

abbreviation is_lost :: "nv_store \<Rightarrow> bool" where
  "is_lost s \<equiv> fl_power (nv_flash s) = Lost"

lemma start_main:
  assumes "Inv B v H s" and "nv_state s = NV_STATE_IDLE" and "nv_update s"
  shows "Inv B v H (s\<lparr>nv_state := NV_STATE_MAIN_ERASING\<rparr>)"
  using assms by (auto simp: Inv_def base_def Let_def legit_def phase_def)

lemma erase_main:
  assumes "Inv B v H s" and "nv_state s = NV_STATE_IDLE \<or> nv_state s = NV_STATE_MAIN_ERASING" and "nv_update s"
    and "has_room s"
  shows "Inv B v H ((enq (Erase Main) s)\<lparr>nv_state := NV_STATE_MAIN_ERASED\<rparr>)"
  using assms by (auto simp: Inv_def base_def Let_def legit_def phase_def enq_def has_room_def to_erase_def)

lemma seal_mirror:
  assumes "build_ok B" and "mirror_ok B H ram"
  shows "\<exists>ram'. seal (nb_len B) ram = Inr ram' \<and> mirror_ok B H ram' \<and> payload B ram' = payload B ram \<and>
    valid B ram' \<and> nv_record_data_is_valid B ram' = Inr True"
proof -
  have len: "unat (nb_len B) \<le> length (ni_body ram)"
    using build_len [OF assms(1)] assms(2) by (simp add: mirror_ok_def wf_def)
  let ?ram = "ram\<lparr>ni_header := (ni_header ram)\<lparr>nh_crc := crc_spec 0 (payload B ram)\<rparr>\<rparr>"
  have m: "mirror_ok B H ?ram" using assms(2) by (simp add: mirror_ok_def wf_def payload_def)
  moreover have "valid B ?ram" using assms(2) by (simp add: valid_def mirror_ok_def payload_def Let_def)
  ultimately show ?thesis
    using crc32_c_eq [OF len, of 0] data_is_valid_eq [OF _ assms(1), of ?ram]
    by (simp add: seal_def payload_def mirror_ok_def)
qed

lemma take_mirror_ok:
  assumes inv: "Inv B v H s" and st: "nv_state s = NV_STATE_MAIN_ERASED"
  shows "\<exists>s'. take_mirror B s = Inr s' \<and> Inv B v H s' \<and> nv_state s' = NV_STATE_MAIN_WRITE_PENDING \<and>
    \<not> nv_update s' \<and> payload B (nv_ram s') = payload B (nv_ram s) \<and> nv_flash s' = nv_flash s"
proof -
  have b: "base B H s" using inv by (simp add: Inv_def)
  then have B: "build_ok B" and m: "mirror_ok B H (nv_ram s)" by (simp_all add: base_def)
  from seal_mirror [OF B m] obtain ram where ram: "seal (nb_len B) (nv_ram s) = Inr ram" "mirror_ok B H ram"
    "payload B ram = payload B (nv_ram s)" "valid B ram" "nv_record_data_is_valid B ram = Inr True" by blast
  define s' where "s' = s\<lparr>nv_ram := ram, nv_burn := cut B ram, nv_state := NV_STATE_MAIN_WRITE_PENDING, nv_update := False\<rparr>"
  have run: "take_mirror B s = Inr s'"
    using ram by (simp add: take_mirror_def nv_record_items_is_valid_def s'_def cut_def payload_def)
  have wf: "wf ram" using ram(2) by (simp add: mirror_ok_def)
  have "burn_ok B (cut B ram)" "payload B (burned (cut B ram)) = payload B ram"
    using wf ram(4) burned_cut(3) [OF B wf] by (auto simp: burn_ok_def)
  moreover have "payload B ram \<in> H" using ram(2) by (simp add: mirror_ok_def)
  ultimately have "Inv B v H s'"
    using inv st ram(2) by (auto simp: Inv_def base_def Let_def legit_def phase_def s'_def)
  with run ram(3) show ?thesis by (simp add: s'_def)
qed

lemma write_main:
  assumes "Inv B v H s" and "nv_state s = NV_STATE_MAIN_WRITE_PENDING" and "has_room s"
  shows "Inv B v H ((enq (Program Main (nv_burn s)) s)\<lparr>nv_state := NV_STATE_MAIN_WRITTEN\<rparr>)"
proof -
  have "to_erase Main q sec \<Longrightarrow> written Main d (q @ [Program Main d]) sec" for q sec d
    by (auto simp: to_erase_def written_def to_write_def intro: exI [of _ 1])
  with assms show ?thesis
    by (auto simp: Inv_def base_def Let_def legit_def phase_def enq_def has_room_def)
qed

lemma main_done:
  assumes "Inv B v H s" and "nv_state s = NV_STATE_MAIN_WRITTEN" and "fl_queue (nv_flash s) = []"
  shows "Inv B v H (s\<lparr>nv_state := NV_STATE_MAIN_DONE\<rparr>)"
proof -
  have "build_ok B" using assms(1) by (simp add: Inv_def base_def)
  then have "burn_ok B d \<Longrightarrow> valid B (burned d)" for d using burn_okp [of B d UNIV] by simp
  with assms show ?thesis
    by (auto simp: Inv_def base_def Let_def legit_def phase_def written_def)
qed

lemma start_bak:
  assumes "Inv B v H s" and "nv_state s = NV_STATE_MAIN_DONE"
  shows "Inv B v H (s\<lparr>nv_state := NV_STATE_BAK_ERASING\<rparr>)"
  using assms by (auto simp: Inv_def base_def Let_def legit_def phase_def)

lemma erase_bak:
  assumes "Inv B v H s" and "nv_state s = NV_STATE_MAIN_DONE \<or> nv_state s = NV_STATE_BAK_ERASING" and "has_room s"
  shows "Inv B v H ((enq (Erase Bak) s)\<lparr>nv_state := NV_STATE_BAK_ERASED\<rparr>)"
  using assms by (auto simp: Inv_def base_def Let_def legit_def phase_def enq_def has_room_def to_erase_def)

text \<open>While the backup sector is written, a read of the main one sees what it holds.\<close>

lemma written_banks: "written b d q sec \<Longrightarrow> p \<in> set q \<Longrightarrow> op_bank p = b"
  by (auto simp: written_def to_write_def split: if_splits)

lemma copy_main_ok:
  assumes "Inv B v H s" and "nv_state s = NV_STATE_BAK_ERASED \<or> nv_state s = NV_STATE_BAK_WRITTEN"
  shows "Inv B v H (copy_main B s)"
proof -
  have "filter (\<lambda>p. op_bank p = Main) (fl_queue (nv_flash s)) = []" if "phase B v H s"
    using that assms(2) written_banks [of Bak]
    by (fastforce simp: phase_def Let_def to_erase_def filter_empty_conv)
  with assms show ?thesis
    by (auto simp: Inv_def base_def Let_def legit_def phase_def copy_main_def norflash_api_read_def cut_def payload_def)
qed

lemma write_bak:
  assumes "Inv B v H s" and "nv_state s = NV_STATE_BAK_WRITE_PENDING" and "has_room s"
  shows "Inv B v H ((enq (Program Bak (nv_burn s)) s)\<lparr>nv_state := NV_STATE_BAK_WRITTEN\<rparr>)"
proof -
  have "to_erase Bak q sec \<Longrightarrow> written Bak d (q @ [Program Bak d]) sec" for q sec d
    by (auto simp: to_erase_def written_def to_write_def intro: exI [of _ 1])
  moreover have "written Bak d (q @ [Program Bak d]) sec" if "written Bak d q sec" for q sec d
  proof -
    from that obtain j where "q = Erase Bak # replicate j (Program Bak d) \<or>
      q = replicate j (Program Bak d) \<and> (sec = erased \<or> sec = burned d)" by (auto simp: written_def to_write_def)
    then have "to_write Bak d (q @ [Program Bak d]) sec"
      by (auto simp: to_write_def replicate_append_same intro: exI [of _ "Suc j"])
    then show ?thesis by (simp add: written_def)
  qed
  ultimately show ?thesis using assms
    by (auto simp: Inv_def base_def Let_def legit_def phase_def enq_def has_room_def)
qed

definition mirrored :: "nv_build \<Rightarrow> nv_store \<Rightarrow> bool" where
  "mirrored B s \<longleftrightarrow> (let main = fl_sector (nv_flash s) Main; bak = fl_sector (nv_flash s) Bak in
     valid B main \<and> valid B bak \<and> payload B bak = payload B main)"

lemma bak_done:
  assumes "Inv B v H s" and "nv_state s = NV_STATE_BAK_WRITTEN" and "fl_queue (nv_flash s) = []"
  shows "Inv B v H (s\<lparr>nv_state := NV_STATE_IDLE\<rparr>) \<and> (\<not> is_lost s \<longrightarrow> Inv B True H (s\<lparr>nv_state := NV_STATE_IDLE\<rparr>) \<and> mirrored B s)"
proof -
  have B: "build_ok B" and wf: "wf (fl_sector (nv_flash s) Main)" using assms(1) by (simp_all add: Inv_def base_def Let_def okp_def)
  from assms burned_cut(2,3) [OF B wf] show ?thesis
    by (auto simp: Inv_def base_def Let_def legit_def phase_def written_def mirrored_def)
qed

section \<open>The synchronous flush\<close>

text \<open>What the flush leaves alone.\<close>

definition frame :: "nv_build \<Rightarrow> nv_store \<Rightarrow> nv_store \<Rightarrow> bool" where
  "frame B s s' \<longleftrightarrow> payload B (nv_ram s') = payload B (nv_ram s) \<and> fl_cap (nv_flash s') = fl_cap (nv_flash s) \<and>
     (nv_update s' \<longrightarrow> nv_update s) \<and> (fl_power (nv_flash s) = Steady \<longrightarrow> fl_power (nv_flash s') = Steady)"

lemma frame_refl [simp]: "frame B s s"
  by (simp add: frame_def)

lemma frame_trans: "frame B s s' \<Longrightarrow> frame B s' s'' \<Longrightarrow> frame B s s''"
  by (auto simp: frame_def)

lemma request_ok:
  assumes inv: "Inv B v H s" and n: "2 < n"
  shows "\<exists>s1. request_sync n p (nv_flash s) = Inr (nv_flash (enq p s1)) \<and> Inv B v H s1 \<and> has_room s1 \<and>
    s1 = s\<lparr>nv_flash := nv_flash s1\<rparr> \<and> frame B s s1"
proof -
  have i: "Inv B v H (s\<lparr>nv_flash := nv_flash s\<rparr>) \<and> (fl_power (nv_flash s) = Steady \<longrightarrow> fl_power (nv_flash s) = Steady)"
    using inv by simp
  from client.request [OF i n, of p] obtain fl' where
    "request_sync n p (nv_flash s) = Inr (fl'\<lparr>fl_queue := fl_queue fl' @ [p]\<rparr>)" "Inv B v H (s\<lparr>nv_flash := fl'\<rparr>)"
    "length (fl_queue fl') < fl_cap fl'" "fl_cap fl' = fl_cap (nv_flash s)"
    "fl_power (nv_flash s) = Steady \<longrightarrow> fl_power fl' = Steady" by blast
  then show ?thesis by (intro exI [of _ "s\<lparr>nv_flash := fl'\<rparr>"]) (simp add: enq_def has_room_def frame_def)
qed

lemma empty_ok:
  assumes inv: "Inv B v H s" and n: "fl_cap (nv_flash s) < n"
  shows "\<exists>s1. flush_until_empty n (nv_flash s) = Inr (nv_flash s1) \<and> Inv B v H s1 \<and> fl_queue (nv_flash s1) = [] \<and>
    s1 = s\<lparr>nv_flash := nv_flash s1\<rparr> \<and> frame B s s1"
proof -
  have i: "Inv B v H (s\<lparr>nv_flash := nv_flash s\<rparr>) \<and> (fl_power (nv_flash s) = Steady \<longrightarrow> fl_power (nv_flash s) = Steady)"
    using inv by simp
  have "length (fl_queue (nv_flash s)) < n" using inv n by (simp add: Inv_def base_def Let_def)
  from client.until_empty [OF i this] obtain fl' where "flush_until_empty n (nv_flash s) = Inr fl'"
    "Inv B v H (s\<lparr>nv_flash := fl'\<rparr>)" "fl_queue fl' = []" "fl_cap fl' = fl_cap (nv_flash s)"
    "fl_power (nv_flash s) = Steady \<longrightarrow> fl_power fl' = Steady" by blast
  then show ?thesis by (intro exI [of _ "s\<lparr>nv_flash := fl'\<rparr>"]) (simp add: frame_def)
qed

lemma state_upd_id: "s1 = s\<lparr>nv_flash := nv_flash s1\<rparr> \<Longrightarrow> nv_state s1 = nv_state s \<and> nv_update s1 = nv_update s \<and>
    nv_burn s1 = nv_burn s \<and> (s\<lparr>nv_flash := fl, nv_state := st\<rparr>) = s1\<lparr>nv_flash := fl, nv_state := st\<rparr>"
  by (cases s; cases s1) simp

lemma flush_main_sync_ok:
  assumes inv: "Inv B v H s" and turn: "main_turn s" and n: "fl_cap (nv_flash s) < n" "2 < n"
  shows "\<exists>s'. flush_main_sync B n s = Inr (0, s') \<and> Inv B v H s' \<and> nv_state s' = NV_STATE_MAIN_DONE \<and> frame B s s' \<and>
    (nv_state s \<in> {NV_STATE_IDLE, NV_STATE_MAIN_ERASING, NV_STATE_MAIN_ERASED} \<longrightarrow> \<not> nv_update s')"
proof -
  have leg: "legit (nv_state s)" using inv by (simp add: Inv_def)
  let ?A = "if nv_state s = NV_STATE_IDLE \<or> nv_state s = NV_STATE_MAIN_ERASING
            then bindE (request_sync n (Erase Main) (nv_flash s)) (\<lambda>fl.
                 Inr (s\<lparr>nv_flash := fl, nv_state := NV_STATE_MAIN_ERASED\<rparr>))
            else Inr s"
  have "\<exists>s1. ?A = Inr s1 \<and> Inv B v H s1 \<and> frame B s s1 \<and>
    nv_state s1 \<in> {NV_STATE_MAIN_ERASED, NV_STATE_MAIN_WRITE_PENDING, NV_STATE_MAIN_WRITTEN} \<and>
    (nv_state s \<in> {NV_STATE_IDLE, NV_STATE_MAIN_ERASING, NV_STATE_MAIN_ERASED} \<longrightarrow> nv_state s1 = NV_STATE_MAIN_ERASED)"
  proof (cases "nv_state s = NV_STATE_IDLE \<or> nv_state s = NV_STATE_MAIN_ERASING")
    case True
    have upd: "nv_update s \<or> is_lost s" using inv turn True by (auto simp: Inv_def phase_def Let_def main_turn_def)
    from request_ok [OF inv n(2), of "Erase Main"] obtain s1 where
      s1: "request_sync n (Erase Main) (nv_flash s) = Inr (nv_flash (enq (Erase Main) s1))" "Inv B v H s1" "has_room s1"
      "s1 = s\<lparr>nv_flash := nv_flash s1\<rparr>" "frame B s s1" by blast
    have e: "enq p s1 = s1\<lparr>nv_flash := nv_flash (enq p s1)\<rparr>" for p by (simp add: enq_def)
    define s2 where "s2 = (enq (Erase Main) s1)\<lparr>nv_state := NV_STATE_MAIN_ERASED\<rparr>"
    have "Inv B v H s2"
    proof (cases "is_lost s1")
      case True
      with s1(2,3) show ?thesis by (simp add: Inv_def base_def Let_def legit_def enq_def has_room_def s2_def)
    next
      case False
      have "nv_update s1"
        using s1(2) False turn True state_upd_id [OF s1(4)] by (auto simp: Inv_def phase_def Let_def main_turn_def)
      with erase_main [OF s1(2) _ _ s1(3)] True state_upd_id [OF s1(4)] show ?thesis by (simp add: s2_def)
    qed
    moreover have "?A = Inr s2" using True s1(1) state_upd_id [OF s1(4)] by (simp add: s2_def enq_def)
    moreover have "frame B s s2" using s1(5) by (simp add: frame_def s2_def enq_def)
    ultimately show ?thesis by (intro exI [of _ s2]) (simp add: s2_def)
  next
    case False
    with inv turn leg show ?thesis by (auto simp: main_turn_def legit_def)
  qed
  then obtain s1 where s1: "?A = Inr s1" "Inv B v H s1" "frame B s s1"
    "nv_state s1 \<in> {NV_STATE_MAIN_ERASED, NV_STATE_MAIN_WRITE_PENDING, NV_STATE_MAIN_WRITTEN}"
    "nv_state s \<in> {NV_STATE_IDLE, NV_STATE_MAIN_ERASING, NV_STATE_MAIN_ERASED} \<longrightarrow> nv_state s1 = NV_STATE_MAIN_ERASED"
    by blast
  let ?B = "if nv_state s1 = NV_STATE_MAIN_ERASED then take_mirror B s1 else Inr s1"
  have "\<exists>s2. ?B = Inr s2 \<and> Inv B v H s2 \<and> frame B s1 s2 \<and>
    nv_state s2 \<in> {NV_STATE_MAIN_WRITE_PENDING, NV_STATE_MAIN_WRITTEN} \<and>
    (nv_state s1 = NV_STATE_MAIN_ERASED \<longrightarrow> \<not> nv_update s2)"
  proof (cases "nv_state s1 = NV_STATE_MAIN_ERASED")
    case True
    with take_mirror_ok [OF s1(2)] show ?thesis by (auto simp: frame_def)
  qed (use s1 in auto)
  then obtain s2 where s2: "?B = Inr s2" "Inv B v H s2" "frame B s1 s2"
    "nv_state s2 \<in> {NV_STATE_MAIN_WRITE_PENDING, NV_STATE_MAIN_WRITTEN}"
    "nv_state s1 = NV_STATE_MAIN_ERASED \<longrightarrow> \<not> nv_update s2" by blast
  let ?C = "if nv_state s2 = NV_STATE_MAIN_WRITE_PENDING
            then bindE (request_sync n (Program Main (nv_burn s2)) (nv_flash s2)) (\<lambda>fl.
                 Inr (s2\<lparr>nv_flash := fl, nv_state := NV_STATE_MAIN_WRITTEN\<rparr>))
            else Inr s2"
  have "\<exists>s3. ?C = Inr s3 \<and> Inv B v H s3 \<and> frame B s2 s3 \<and> nv_state s3 = NV_STATE_MAIN_WRITTEN \<and>
    nv_update s3 = nv_update s2"
  proof (cases "nv_state s2 = NV_STATE_MAIN_WRITE_PENDING")
    case True
    from request_ok [OF s2(2) n(2), of "Program Main (nv_burn s2)"] obtain t where
      t: "request_sync n (Program Main (nv_burn s2)) (nv_flash s2) = Inr (nv_flash (enq (Program Main (nv_burn s2)) t))"
      "Inv B v H t" "has_room t" "t = s2\<lparr>nv_flash := nv_flash t\<rparr>" "frame B s2 t" by blast
    note id = state_upd_id [OF t(4)]
    define s3 where "s3 = (enq (Program Main (nv_burn t)) t)\<lparr>nv_state := NV_STATE_MAIN_WRITTEN\<rparr>"
    have "Inv B v H s3" using write_main [OF t(2) _ t(3)] id True by (simp add: s3_def)
    moreover have "?C = Inr s3" using True t(1) id by (simp add: s3_def enq_def)
    moreover have "frame B s2 s3" using t(5) by (simp add: frame_def s3_def enq_def)
    ultimately show ?thesis using id by (intro exI [of _ s3]) (simp add: s3_def enq_def)
  qed (use s2 in auto)
  then obtain s3 where s3: "?C = Inr s3" "Inv B v H s3" "frame B s2 s3" "nv_state s3 = NV_STATE_MAIN_WRITTEN"
    "nv_update s3 = nv_update s2" by blast
  have "fl_cap (nv_flash s3) < n" using s1(3) s2(3) s3(3) n(1) by (simp add: frame_def)
  from empty_ok [OF s3(2) this] obtain t where
    t: "flush_until_empty n (nv_flash s3) = Inr (nv_flash t)" "Inv B v H t" "fl_queue (nv_flash t) = []"
    "t = s3\<lparr>nv_flash := nv_flash t\<rparr>" "frame B s3 t" by blast
  note id = state_upd_id [OF t(4)]
  define s' where "s' = t\<lparr>nv_state := NV_STATE_MAIN_DONE\<rparr>"
  have "Inv B v H s'" using main_done [OF t(2) _ t(3)] id s3(4) by (simp add: s'_def)
  moreover have "flush_main_sync B n s = Inr (0, s')"
    unfolding flush_main_sync_def s1(1) using s2(1) s3(1) t(1) id by (simp add: s'_def del: bindE_Inr_iff)
  moreover have "frame B s s'" using s1(3) s2(3) s3(3) t(5) by (auto simp: frame_def s'_def)
  ultimately show ?thesis using id s1(5) s2(5) s3(5) by (intro exI [of _ s']) (auto simp: s'_def)
qed

lemma flush_bak_sync_ok:
  assumes inv: "Inv B v H s" and turn: "bak_turn s" and n: "fl_cap (nv_flash s) < n" "2 < n"
  shows "\<exists>s'. flush_bak_sync B n s = Inr (0, s') \<and> nv_state s' = NV_STATE_BAK_DONE \<and> frame B s s' \<and>
    nv_update s' = nv_update s \<and> Inv B v H (s'\<lparr>nv_state := NV_STATE_IDLE\<rparr>) \<and>
    (\<not> is_lost s' \<longrightarrow> Inv B True H (s'\<lparr>nv_state := NV_STATE_IDLE\<rparr>) \<and> mirrored B s')"
proof -
  have leg: "legit (nv_state s)" using inv by (simp add: Inv_def)
  let ?A = "if nv_state s = NV_STATE_MAIN_DONE \<or> nv_state s = NV_STATE_BAK_ERASING
            then bindE (request_sync n (Erase Bak) (nv_flash s)) (\<lambda>fl.
                 Inr (s\<lparr>nv_flash := fl, nv_state := NV_STATE_BAK_ERASED\<rparr>))
            else Inr s"
  have "\<exists>s1. ?A = Inr s1 \<and> Inv B v H s1 \<and> frame B s s1 \<and> nv_update s1 = nv_update s \<and>
    nv_state s1 \<in> {NV_STATE_BAK_ERASED, NV_STATE_BAK_WRITE_PENDING, NV_STATE_BAK_WRITTEN}"
  proof (cases "nv_state s = NV_STATE_MAIN_DONE \<or> nv_state s = NV_STATE_BAK_ERASING")
    case True
    from request_ok [OF inv n(2), of "Erase Bak"] obtain t where
      t: "request_sync n (Erase Bak) (nv_flash s) = Inr (nv_flash (enq (Erase Bak) t))" "Inv B v H t" "has_room t"
      "t = s\<lparr>nv_flash := nv_flash t\<rparr>" "frame B s t" by blast
    note id = state_upd_id [OF t(4)]
    define s1 where "s1 = (enq (Erase Bak) t)\<lparr>nv_state := NV_STATE_BAK_ERASED\<rparr>"
    have "Inv B v H s1" using erase_bak [OF t(2) _ t(3)] True id by (simp add: s1_def)
    moreover have "?A = Inr s1" using True t(1) id by (simp add: s1_def enq_def)
    moreover have "frame B s s1" using t(5) by (simp add: frame_def s1_def enq_def)
    ultimately show ?thesis using id by (intro exI [of _ s1]) (simp add: s1_def enq_def)
  next
    case False
    with inv turn leg show ?thesis by (auto simp: bak_turn_def legit_def)
  qed
  then obtain s1 where s1: "?A = Inr s1" "Inv B v H s1" "frame B s s1" "nv_update s1 = nv_update s"
    "nv_state s1 \<in> {NV_STATE_BAK_ERASED, NV_STATE_BAK_WRITE_PENDING, NV_STATE_BAK_WRITTEN}" by blast
  define s2 where "s2 = (if nv_state s1 = NV_STATE_BAK_ERASED \<or> nv_state s1 = NV_STATE_BAK_WRITTEN then copy_main B s1 else s1)"
  have s2: "Inv B v H s2" "nv_state s2 = NV_STATE_BAK_WRITE_PENDING" "frame B s1 s2" "nv_update s2 = nv_update s1"
    using s1(2,5) copy_main_ok [OF s1(2)] by (auto simp: s2_def copy_main_def frame_def)
  from request_ok [OF s2(1) n(2), of "Program Bak (nv_burn s2)"] obtain t where
    t: "request_sync n (Program Bak (nv_burn s2)) (nv_flash s2) = Inr (nv_flash (enq (Program Bak (nv_burn s2)) t))"
    "Inv B v H t" "has_room t" "t = s2\<lparr>nv_flash := nv_flash t\<rparr>" "frame B s2 t" by blast
  note id = state_upd_id [OF t(4)]
  define s3 where "s3 = (enq (Program Bak (nv_burn t)) t)\<lparr>nv_state := NV_STATE_BAK_WRITTEN\<rparr>"
  have s3: "Inv B v H s3" "frame B s2 s3" "nv_update s3 = nv_update s2" "nv_state s3 = NV_STATE_BAK_WRITTEN"
    using write_bak [OF t(2) _ t(3)] id s2(2) t(5) by (simp_all add: s3_def frame_def enq_def)
  have run3: "bindE (request_sync n (Program Bak (nv_burn s2)) (nv_flash s2)) (\<lambda>fl.
      Inr (s2\<lparr>nv_flash := fl, nv_state := NV_STATE_BAK_WRITTEN\<rparr>)) = Inr s3"
    using t(1) id by (simp add: s3_def enq_def)
  have "fl_cap (nv_flash s3) < n" using s1(3) s2(3) s3(2) n(1) by (simp add: frame_def)
  from empty_ok [OF s3(1) this] obtain u where
    u: "flush_until_empty n (nv_flash s3) = Inr (nv_flash u)" "Inv B v H u" "fl_queue (nv_flash u) = []"
    "u = s3\<lparr>nv_flash := nv_flash u\<rparr>" "frame B s3 u" by blast
  note idu = state_upd_id [OF u(4)]
  define s' where "s' = u\<lparr>nv_state := NV_STATE_BAK_DONE\<rparr>"
  have "flush_bak_sync B n s = Inr (0, s')"
    unfolding flush_bak_sync_def s1(1) using run3 u(1) idu s2(2)
    by (simp add: s'_def Let_def s2_def [symmetric] del: bindE_Inr_iff)
  moreover have "frame B s s'" using s1(3) s2(3) s3(2) u(5) by (auto simp: frame_def s'_def)
  moreover have "Inv B v H (s'\<lparr>nv_state := NV_STATE_IDLE\<rparr>) \<and>
      (\<not> is_lost s' \<longrightarrow> Inv B True H (s'\<lparr>nv_state := NV_STATE_IDLE\<rparr>) \<and> mirrored B s')"
    using bak_done [OF u(2) _ u(3)] idu s3(4) by (simp add: s'_def mirrored_def)
  ultimately show ?thesis using s1(4) s2(4) s3(3) idu by (intro exI [of _ s']) (simp add: s'_def)
qed

lemma Inv_dev: "Inv B v H s \<Longrightarrow> norflash_api_get_dev_id (nv_flash s) = NORFLASH_API_OK \<and> nv_ptr s"
  by (simp add: Inv_def base_def Let_def norflash_api_get_dev_id_def)

text \<open>One round writes both sectors; after it only a change that was made while it ran is left.\<close>

lemma flush_round_ok:
  assumes inv: "Inv B v H s" and go: "\<not> (nv_state s = NV_STATE_IDLE \<and> \<not> nv_update s)"
    and n: "fl_cap (nv_flash s) < n" "2 < n"
  shows "\<exists>s'. flush_round B n False (r, s) = Inr (False, 0, s') \<and> Inv B v H s' \<and> nv_state s' = NV_STATE_IDLE \<and>
    frame B s s' \<and> (\<not> is_lost s' \<longrightarrow> Inv B True H s' \<and> mirrored B s') \<and> (nv_state s = NV_STATE_IDLE \<longrightarrow> \<not> nv_update s')"
proof -
  have leg: "legit (nv_state s)" using inv by (simp add: Inv_def)
  have bak: "\<exists>s'. nv_record_extension_flush_bak B n False s1 = Inr (0, s') \<and> Inv B v H s' \<and>
      nv_state s' = NV_STATE_IDLE \<and> frame B s1 s' \<and>
      (\<not> is_lost s' \<longrightarrow> Inv B True H s' \<and> mirrored B s') \<and> nv_update s' = nv_update s1"
    if i: "Inv B v H s1" "bak_turn s1" "fl_cap (nv_flash s1) < n" for s1
  proof -
    from flush_bak_sync_ok [OF i n(2)] obtain s' where
      s': "flush_bak_sync B n s1 = Inr (0, s')" "nv_state s' = NV_STATE_BAK_DONE" "frame B s1 s'"
      "nv_update s' = nv_update s1" "Inv B v H (s'\<lparr>nv_state := NV_STATE_IDLE\<rparr>)"
      "\<not> is_lost s' \<longrightarrow> Inv B True H (s'\<lparr>nv_state := NV_STATE_IDLE\<rparr>) \<and> mirrored B s'" by blast
    with Inv_dev [OF i(1)] show ?thesis
      by (intro exI [of _ "s'\<lparr>nv_state := NV_STATE_IDLE\<rparr>"])
        (simp add: nv_record_extension_flush_bak_def frame_def mirrored_def)
  qed
  show ?thesis
  proof (cases "main_turn s")
    case True
    from flush_main_sync_ok [OF inv True n] obtain s1 where
      s1: "flush_main_sync B n s = Inr (0, s1)" "Inv B v H s1" "nv_state s1 = NV_STATE_MAIN_DONE" "frame B s s1"
      "nv_state s \<in> {NV_STATE_IDLE, NV_STATE_MAIN_ERASING, NV_STATE_MAIN_ERASED} \<longrightarrow> \<not> nv_update s1" by blast
    have "bak_turn s1" "fl_cap (nv_flash s1) < n" using s1(3,4) n(1) by (simp_all add: bak_turn_def frame_def)
    from bak [OF s1(2) this] obtain s' where
      s': "nv_record_extension_flush_bak B n False s1 = Inr (0, s')" "Inv B v H s'" "nv_state s' = NV_STATE_IDLE"
      "frame B s1 s'" "\<not> is_lost s' \<longrightarrow> Inv B True H s' \<and> mirrored B s'" "nv_update s' = nv_update s1" by blast
    have "flush_round B n False (r, s) = Inr (False, 0, s')"
      using go True s1(1) s'(1) \<open>bak_turn s1\<close> Inv_dev [OF inv]
      by (simp add: flush_round_def nv_record_extension_flush_main_def del: bindE_Inr_iff)
    with s' s1(4,5) frame_trans [OF s1(4) s'(4)] show ?thesis by auto
  next
    case False
    with go leg have turn: "bak_turn s" "nv_state s \<noteq> NV_STATE_IDLE"
      by (auto simp: main_turn_def bak_turn_def legit_def) (cases "nv_state s"; simp)+
    from bak [OF inv turn(1) n(1)] obtain s' where
      s': "nv_record_extension_flush_bak B n False s = Inr (0, s')" "Inv B v H s'" "nv_state s' = NV_STATE_IDLE"
      "frame B s s'" "\<not> is_lost s' \<longrightarrow> Inv B True H s' \<and> mirrored B s'" by blast
    have "flush_round B n False (r, s) = Inr (False, 0, s')"
      using go False turn s'(1) by (simp add: flush_round_def del: bindE_Inr_iff)
    with s' turn(2) show ?thesis by auto
  qed
qed

text \<open>The synchronous flush returns after three rounds at most.\<close>

lemma flush_sync_ok:
  assumes inv: "Inv B v H s" and n: "fl_cap (nv_flash s) + 3 < n"
  shows "\<exists>s'. nv_record_extension_flush n B False s = Inr (0, s') \<and> Inv B v H s' \<and> nv_state s' = NV_STATE_IDLE \<and>
    \<not> nv_update s' \<and> frame B s s' \<and>
    (\<not> (nv_state s = NV_STATE_IDLE \<and> \<not> nv_update s) \<and> \<not> is_lost s' \<longrightarrow> Inv B True H s' \<and> mirrored B s')"
proof -
  let ?idle = "\<lambda>s. nv_state s = NV_STATE_IDLE \<and> \<not> nv_update s"
  have n': "fl_cap (nv_flash s) < n" "2 < n" using n by simp_all
  have stop: "flush_rounds (Suc k) B n False (r, s) = Inr (r, s)" if "?idle s" for k r s
    using that by (simp add: flush_round_def)
  have k: "Suc (Suc (Suc (n - 3))) = n" using n by simp
  have step: "flush_rounds (Suc i) B n False (r, t) = flush_rounds i B n False (0, t')"
    if "flush_round B n False (r, t) = Inr (False, 0, t')" for i r t t'
    using that by simp
  show ?thesis
  proof (cases "?idle s")
    case True
    with stop [OF True, of "Suc (Suc (n - 3))" 0] inv show ?thesis
      unfolding k by (auto simp: nv_record_extension_flush_def)
  next
    case False
    from flush_round_ok [OF inv False n', of 0] obtain s1 where
      s1: "flush_round B n False (0, s) = Inr (False, 0, s1)" "Inv B v H s1" "nv_state s1 = NV_STATE_IDLE" "frame B s s1"
      "\<not> is_lost s1 \<longrightarrow> Inv B True H s1 \<and> mirrored B s1" by blast
    show ?thesis
    proof (cases "?idle s1")
      case True
      have "flush_rounds (Suc (Suc (Suc (n - 3)))) B n False (0, s) = Inr (0, s1)"
        unfolding step [OF s1(1)] by (rule stop [OF True])
      with s1 True show ?thesis unfolding k by (auto simp: nv_record_extension_flush_def)
    next
      case False
      have n1: "fl_cap (nv_flash s1) < n" using s1(4) n'(1) by (simp add: frame_def)
      from flush_round_ok [OF s1(2) False n1 n'(2), of 0] s1(3) obtain s2 where
        s2: "flush_round B n False (0, s1) = Inr (False, 0, s2)" "Inv B v H s2" "nv_state s2 = NV_STATE_IDLE" "frame B s1 s2"
        "\<not> nv_update s2" "\<not> is_lost s2 \<longrightarrow> Inv B True H s2 \<and> mirrored B s2" by blast
      have "flush_rounds (Suc (Suc (Suc (n - 3)))) B n False (0, s) = Inr (0, s2)"
        unfolding step [OF s1(1)] step [OF s2(1)] by (rule stop) (use s2 in simp)
      with s2 frame_trans [OF s1(4) s2(4)] show ?thesis unfolding k by (auto simp: nv_record_extension_flush_def)
    qed
  qed
qed

section \<open>The asynchronous flush\<close>

lemma request_async_ok:
  assumes inv: "Inv B v H s" and next_ok: "has_room s \<Longrightarrow> Inv B v H ((enq p s)\<lparr>nv_state := st\<rparr>)"
  shows "\<exists>r s'. request_async p st s = Inr (r, s') \<and> Inv B v H s' \<and> frame B s s' \<and>
    nv_state s' \<in> {st, nv_state s}"
proof (cases "has_room s")
  case True
  then have "request_async p st s = Inr (0, (enq p s)\<lparr>nv_state := st\<rparr>)"
    using inv by (simp add: request_async_def norflash_enqueue_def has_room_def enq_def Inv_def base_def Let_def)
  then show ?thesis using next_ok [OF True] by (simp add: frame_def enq_def)
next
  case False
  then have "request_async p st s = Inr (1, on_flash norflash_api_flush s)"
    using inv by (simp add: request_async_def norflash_enqueue_def has_room_def Inv_def base_def Let_def)
  then show ?thesis using Inv_driver [OF inv] flush_steady by (simp add: frame_def)
qed

lemma flush_main_async_ok:
  assumes inv: "Inv B v H s" and turn: "main_turn s"
  shows "\<exists>r s'. flush_main_async B s = Inr (r, s') \<and> Inv B v H s' \<and> frame B s s'"
proof -
  have leg: "legit (nv_state s)" using inv by (simp add: Inv_def)
  have er: ?thesis if i: "Inv B v H t" "nv_state t = NV_STATE_MAIN_ERASING" "nv_update t \<or> is_lost t" "frame B s t"
    and run: "flush_main_async B s = request_async (Erase Main) NV_STATE_MAIN_ERASED t" for t
  proof -
    have "Inv B v H ((enq (Erase Main) t)\<lparr>nv_state := NV_STATE_MAIN_ERASED\<rparr>)" if "has_room t"
    proof (cases "is_lost t")
      case True
      with i(1) that show ?thesis by (simp add: Inv_def base_def Let_def legit_def enq_def has_room_def)
    next
      case False
      with erase_main [OF i(1) _ _ that] i(2,3) show ?thesis by simp
    qed
    from request_async_ok [OF i(1) this] run i(4) frame_trans show ?thesis by metis
  qed
  consider "nv_state s = NV_STATE_IDLE" | "nv_state s = NV_STATE_MAIN_ERASING" | "nv_state s = NV_STATE_MAIN_ERASED"
    | "nv_state s = NV_STATE_MAIN_WRITE_PENDING" | "nv_state s = NV_STATE_MAIN_WRITTEN"
    using turn leg by (auto simp: main_turn_def legit_def)
  then show ?thesis
  proof cases
    case 1
    then have "nv_update s" using turn by (simp add: main_turn_def)
    with start_main [OF inv 1] 1 show ?thesis
      by (intro er [of "s\<lparr>nv_state := NV_STATE_MAIN_ERASING\<rparr>"]) (simp_all add: flush_main_async_def frame_def)
  next
    case 2
    have "nv_update s \<or> is_lost s" using inv 2 by (auto simp: Inv_def phase_def Let_def)
    with inv 2 show ?thesis by (intro er [of s]) (simp_all add: flush_main_async_def)
  next
    case 3
    with take_mirror_ok [OF inv 3] show ?thesis by (auto simp: flush_main_async_def frame_def)
  next
    case 4
    from request_async_ok [OF inv write_main [OF inv 4]] 4 show ?thesis by (auto simp: flush_main_async_def)
  next
    case 5
    with main_done [OF inv 5] Inv_driver [OF inv] flush_steady show ?thesis
      by (auto simp: flush_main_async_def frame_def)
  qed
qed

lemma flush_bak_async_ok:
  assumes inv: "Inv B v H s" and turn: "bak_turn s"
  shows "\<exists>r s'. nv_record_extension_flush_bak B n True s = Inr (r, s') \<and> Inv B v H s' \<and> frame B s s'"
proof -
  have leg: "legit (nv_state s)" using inv by (simp add: Inv_def)
  have fin: ?thesis if "flush_bak_async B s = Inr (r, s')" "Inv B v H s'" "frame B s s'" for r s'
  proof -
    have "nv_state s' \<noteq> NV_STATE_BAK_DONE" using that(2) by (auto simp: Inv_def legit_def)
    with that Inv_dev [OF inv] show ?thesis by (simp add: nv_record_extension_flush_bak_def)
  qed
  have er: ?thesis if i: "Inv B v H t" "nv_state t = NV_STATE_BAK_ERASING" "frame B s t"
    and run: "flush_bak_async B s = request_async (Erase Bak) NV_STATE_BAK_ERASED t" for t
  proof -
    have "has_room t \<Longrightarrow> Inv B v H ((enq (Erase Bak) t)\<lparr>nv_state := NV_STATE_BAK_ERASED\<rparr>)"
      using erase_bak [OF i(1)] i(2) by simp
    from request_async_ok [OF i(1) this] obtain r s' where
      "request_async (Erase Bak) NV_STATE_BAK_ERASED t = Inr (r, s')" "Inv B v H s'" "frame B t s'" by blast
    with fin [of r s'] run frame_trans [OF i(3)] show ?thesis by simp
  qed
  consider "nv_state s = NV_STATE_MAIN_DONE" | "nv_state s = NV_STATE_BAK_ERASING" | "nv_state s = NV_STATE_BAK_ERASED"
    | "nv_state s = NV_STATE_BAK_WRITE_PENDING" | "nv_state s = NV_STATE_BAK_WRITTEN"
    using turn leg by (auto simp: bak_turn_def legit_def)
  then show ?thesis
  proof cases
    case 1
    with start_bak [OF inv 1] show ?thesis
      by (intro er [of "s\<lparr>nv_state := NV_STATE_BAK_ERASING\<rparr>"]) (simp_all add: flush_bak_async_def frame_def)
  next
    case 2
    with inv show ?thesis by (intro er [of s]) (simp_all add: flush_bak_async_def)
  next
    case 3
    with fin [of 0 "copy_main B s"] copy_main_ok [OF inv] show ?thesis
      by (simp add: flush_bak_async_def copy_main_def frame_def)
  next
    case 4
    from request_async_ok [OF inv write_bak [OF inv 4]] 4 fin show ?thesis by (auto simp: flush_bak_async_def)
  next
    case 5
    show ?thesis
    proof (cases "fl_queue (nv_flash s) = []")
      case True
      with bak_done [OF inv 5] 5 Inv_dev [OF inv] show ?thesis
        by (simp add: nv_record_extension_flush_bak_def flush_bak_async_def frame_def)
    next
      case False
      with fin [of 0 "on_flash norflash_api_flush s"] Inv_driver [OF inv] flush_steady 5 show ?thesis
        by (simp add: flush_bak_async_def frame_def)
    qed
  qed
qed

lemma flush_async_ok:
  assumes inv: "Inv B v H s" and n: "0 < n"
  shows "\<exists>r s'. nv_record_extension_flush n B True s = Inr (r, s') \<and> Inv B v H s' \<and> frame B s s'"
proof -
  have leg: "legit (nv_state s)" using inv by (simp add: Inv_def)
  from n obtain k where k: "n = Suc k" by (cases n) auto
  have "\<exists>r s'. flush_round B n True (0, s) = Inr (True, r, s') \<and> Inv B v H s' \<and> frame B s s'"
  proof (cases "nv_state s = NV_STATE_IDLE \<and> \<not> nv_update s")
    case True
    with inv show ?thesis by (simp add: flush_round_def)
  next
    case False
    show ?thesis
    proof (cases "main_turn s")
      case True
      from flush_main_async_ok [OF inv True] obtain r s' where
        "flush_main_async B s = Inr (r, s')" "Inv B v H s'" "frame B s s'" by blast
      with True False Inv_dev [OF inv] show ?thesis
        by (auto simp: flush_round_def nv_record_extension_flush_main_def)
    next
      case main: False
      with False leg have "bak_turn s"
        by (auto simp: main_turn_def bak_turn_def legit_def) (cases "nv_state s"; simp)+
      from flush_bak_async_ok [OF inv this, of n] obtain r s' where
        "nv_record_extension_flush_bak B n True s = Inr (r, s')" "Inv B v H s'" "frame B s s'" by blast
      with main False \<open>bak_turn s\<close> show ?thesis by (auto simp: flush_round_def)
    qed
  qed
  then obtain r s' where "flush_round B n True (0, s) = Inr (True, r, s')" "Inv B v H s'" "frame B s s'" by blast
  then have "nv_record_extension_flush n B True s = Inr (r, s')"
    unfolding nv_record_extension_flush_def k by (simp del: bindE_Inr_iff)
  with \<open>Inv B v H s'\<close> \<open>frame B s s'\<close> show ?thesis by blast
qed

section \<open>Starting up\<close>

lemma erase_limit: "build_ok B \<Longrightarrow> load_header_ok (initial_image B)"
  by (simp add: load_header_ok_def initial_image_def build_ok_def)

lemma mirror_seal:
  assumes B: "build_ok B" and len: "length c = unat (nb_len B)" and c: "c \<in> H" and ram: "wf ram"
    and h: "nh_len (ni_header ram) = nb_len B" "nh_magic (ni_header ram) = NV_EXTENSION_MAGIC_NUMBER"
      "nh_major (ni_header ram) = NV_EXTENSION_MAJOR_VERSION" "nh_minor (ni_header ram) = NV_EXTENSION_MINOR_VERSION"
  shows "\<exists>ram'. seal (nb_len B) (ram\<lparr>ni_body := c @ drop (unat (nb_len B)) (ni_body ram)\<rparr>) = Inr ram' \<and>
    mirror_ok B H ram' \<and> payload B ram' = c"
proof -
  have "mirror_ok B H (ram\<lparr>ni_body := c @ drop (unat (nb_len B)) (ni_body ram)\<rparr>)"
    "payload B (ram\<lparr>ni_body := c @ drop (unat (nb_len B)) (ni_body ram)\<rparr>) = c"
    using ram len c h build_len [OF B] by (simp_all add: mirror_ok_def wf_def payload_def)
  with seal_mirror [OF B this(1)] show ?thesis by auto
qed

text \<open>What the sectors hold when the power comes back.\<close>

definition sectors_ok :: "nv_build \<Rightarrow> bool \<Rightarrow> u8 list set \<Rightarrow> norflash \<Rightarrow> bool" where
  "sectors_ok B v H fl \<longleftrightarrow> okp B H (fl_sector fl Main) \<and> okp B H (fl_sector fl Bak) \<and> 0 < fl_cap fl \<and>
     (v \<longrightarrow> valid B (fl_sector fl Main) \<or> valid B (fl_sector fl Bak)) \<and> (\<not> v \<longrightarrow> nb_default B \<in> H)"

lemma load_ok:
  assumes B: "build_ok B" and sec: "sectors_ok B v H (nv_flash s)" and pw: "pw \<noteq> Lost" "torn_ok B pw"
  shows "\<exists>s'. nv_record_load B (nv_reset B pw s) = Inr s' \<and> Inv B v H s' \<and>
    payload B (nv_ram s') =
      (if valid B (fl_sector (nv_flash s) Main) then payload B (fl_sector (nv_flash s) Main)
       else if valid B (fl_sector (nv_flash s) Bak) then payload B (fl_sector (nv_flash s) Bak) else nb_default B) \<and>
    nv_flash s' = (nv_flash s)\<lparr>fl_queue := [], fl_power := pw, fl_registered := True\<rparr> \<and>
    (valid B (fl_sector (nv_flash s) Main) \<and> valid B (fl_sector (nv_flash s) Bak) \<longrightarrow>
       nv_state s' = NV_STATE_IDLE \<and> \<not> nv_update s')"
proof -
  let ?m = "fl_sector (nv_flash s) Main" and ?b = "fl_sector (nv_flash s) Bak" and ?i = "initial_image B"
  have wf: "wf ?m" "wf ?b" using sec by (simp_all add: sectors_ok_def okp_def)
  have wfi: "wf ?i" using B by (simp add: wf_def initial_image_def build_ok_def)
  have hi: "nh_len (ni_header ?i) = nb_len B" "nh_magic (ni_header ?i) = NV_EXTENSION_MAGIC_NUMBER"
    "nh_major (ni_header ?i) = NV_EXTENSION_MAJOR_VERSION" "nh_minor (ni_header ?i) = NV_EXTENSION_MINOR_VERSION"
    by (simp_all add: initial_image_def)
  note chk = data_is_valid_eq [OF wf(1) B] data_is_valid_eq [OF wf(2) B]
  have from_sec: "\<exists>ram. load_from B x ?i = Inr ram \<and> mirror_ok B H ram \<and> payload B ram = payload B x"
    if "wf x" "payload B x \<in> H" for x
  proof -
    have "length (payload B x) = unat (nb_len B)" using that(1) build_len [OF B] by (simp add: payload_def wf_def)
    from mirror_seal [OF B this that(2) wfi hi] show ?thesis by (simp add: load_from_def hi payload_def)
  qed
  have default: "\<exists>ram. nv_record_set_default B ?i = Inr ram \<and> mirror_ok B H ram \<and> payload B ram = nb_default B"
    if "nb_default B \<in> H"
  proof -
    have len: "length (nb_default B) = unat (nb_len B)" using B by (simp add: build_ok_def)
    have "?i\<lparr>ni_body := nb_default B @ drop (unat (nb_len B)) (ni_body ?i)\<rparr> =
        \<lparr>ni_header = (ni_header ?i)\<lparr>nh_magic := NV_EXTENSION_MAGIC_NUMBER, nh_major := NV_EXTENSION_MAJOR_VERSION,
           nh_minor := NV_EXTENSION_MINOR_VERSION, nh_len := nb_len B\<rparr>,
         ni_body = nb_default B @ drop (length (nb_default B)) (ni_body ?i)\<rparr>"
      by (simp add: initial_image_def len)
    with mirror_seal [OF B len that wfi hi] show ?thesis
      by (simp add: nv_record_set_default_def nv_record_reset_content_def)
  qed
  let ?fl = "(nv_flash s)\<lparr>fl_queue := [], fl_power := pw, fl_registered := True\<rparr>"
  have load: "nv_record_load B (nv_reset B pw s) =
      (if valid B ?m then bindE (load_from B ?m ?i) (\<lambda>ram.
         Inr ((nv_reset B pw s)\<lparr>nv_flash := ?fl, nv_update := \<not> valid B ?b, nv_ptr := True, nv_ram := ram, nv_init := True,
           nv_state := if valid B ?b then NV_STATE_IDLE else NV_STATE_MAIN_DONE\<rparr>))
       else if valid B ?b then bindE (load_from B ?b ?i) (\<lambda>ram.
         Inr ((nv_reset B pw s)\<lparr>nv_flash := ?fl, nv_update := True, nv_ptr := True, nv_ram := ram, nv_init := True,
           nv_state := NV_STATE_IDLE\<rparr>))
       else bindE (nv_record_set_default B ?i) (\<lambda>ram.
         Inr ((nv_reset B pw s)\<lparr>nv_flash := ?fl, nv_update := True, nv_ptr := True, nv_ram := ram, nv_init := True,
           nv_state := NV_STATE_IDLE\<rparr>)))"
    using chk erase_limit [OF B]
    by (cases "valid B ?m"; cases "valid B ?b"; cases "load_from B ?m ?i"; cases "load_from B ?b ?i"; cases "nv_record_set_default B ?i")
      (simp_all add: nv_record_load_def nv_reset_def Let_def nv_record_items_is_valid_def nv_record_extension_update_def del: bindE_Inr_iff)
  show ?thesis
  proof (cases "valid B ?m")
    case True
    with sec have "payload B ?m \<in> H" by (simp add: sectors_ok_def okp_def)
    from from_sec [OF wf(1) this] obtain ram where
      ram: "load_from B ?m ?i = Inr ram" "mirror_ok B H ram" "payload B ram = payload B ?m" by blast
    with True load sec B pw show ?thesis
      by (cases "valid B ?b") (simp_all add: Inv_def base_def phase_def Let_def sectors_ok_def legit_def nv_reset_def)
  next
    case m: False
    show ?thesis
    proof (cases "valid B ?b")
      case True
      with sec have "payload B ?b \<in> H" by (simp add: sectors_ok_def okp_def)
      from from_sec [OF wf(2) this] obtain ram where
        ram: "load_from B ?b ?i = Inr ram" "mirror_ok B H ram" "payload B ram = payload B ?b" by blast
      with m True load sec B pw show ?thesis
        by (simp add: Inv_def base_def phase_def Let_def sectors_ok_def legit_def nv_reset_def)
    next
      case False
      with m sec have v: "\<not> v" "nb_default B \<in> H" by (auto simp: sectors_ok_def)
      from default [OF v(2)] obtain ram where
        ram: "nv_record_set_default B ?i = Inr ram" "mirror_ok B H ram" "payload B ram = nb_default B" by blast
      with m False load sec B pw v show ?thesis
        by (simp add: Inv_def base_def phase_def Let_def sectors_ok_def legit_def nv_reset_def)
    qed
  qed
qed

end
