(* ===== verification/NvStoreRun.thy ===== *)
theory NvStoreRun
  imports NvStoreInv
begin

text \<open>
  The store of \<open>services/nv_section/userdata_section/nvrecord_extension.c\<close> in use: modules change the
  record, tasks flush it step by step or at once, the driver works in the background and the power is
  switched off and on at any moment. The properties of the store hold for all such runs.
\<close>

section \<open>Runs\<close>

datatype nv_op =
    Write "u8 list"
  | Async_Flush u32
  | Sync_Flush u32
  | Sleep_Hook bool bool u32
  | Rebuild "u8 list" u32
  | Background
  | Power_Cycle flash_power

fun nv_exec :: "nat \<Rightarrow> nv_build \<Rightarrow> nv_op \<Rightarrow> nv_store \<Rightarrow> nv_store res" where
  "nv_exec n B (Write content) s = Inr (nv_client_write content s)"
| "nv_exec n B (Async_Flush now) s = nv_record_execute_async_flush n B now s"
| "nv_exec n B (Sync_Flush now) s = nv_record_flash_flush n B now s"
| "nv_exec n B (Sleep_Hook start_ok running now) s =
     bindE (nv_record_flash_flush_in_sleep n B start_ok running now s) (\<lambda>(busy, s'). Inr s')"
| "nv_exec n B (Rebuild content now) s = nv_record_rebuild n B content now s"
| "nv_exec n B Background s = Inr (on_flash norflash_api_flush s)"
| "nv_exec n B (Power_Cycle pw) s = nv_record_extension_init n B (nv_reset B pw s)"

fun nv_run :: "nat \<Rightarrow> nv_build \<Rightarrow> nv_op list \<Rightarrow> nv_store \<Rightarrow> nv_store res" where
  "nv_run n B [] s = Inr s"
| "nv_run n B (p # ps) s = bindE (nv_exec n B p s) (nv_run n B ps)"

text \<open>The power is on, or fails at the named request and leaves a sector that is not a record.\<close>

fun power_ok :: "nv_build \<Rightarrow> flash_power \<Rightarrow> bool" where
  "power_ok B Steady \<longleftrightarrow> True"
| "power_ok B (Fails_After k torn) \<longleftrightarrow>
     length (ni_body torn) = BODY_SIZE \<and> nv_record_data_is_valid B torn = Inr False"
| "power_ok B Lost \<longleftrightarrow> False"

fun nv_op_ok :: "nv_build \<Rightarrow> nv_op \<Rightarrow> bool" where
  "nv_op_ok B (Write content) \<longleftrightarrow> length content = unat (nb_len B)"
| "nv_op_ok B (Rebuild content now) \<longleftrightarrow> length content = unat (nb_len B)"
| "nv_op_ok B (Power_Cycle pw) \<longleftrightarrow> power_ok B pw"
| "nv_op_ok B _ \<longleftrightarrow> True"

fun contents :: "nv_op list \<Rightarrow> u8 list set" where
  "contents [] = {}"
| "contents (Write content # ps) = insert content (contents ps)"
| "contents (Rebuild content now # ps) = insert content (contents ps)"
| "contents (p # ps) = contents ps"

lemma contents_Cons: "contents (p # ps) = contents [p] \<union> contents ps"
  by (cases p) auto

lemma contents_append: "contents (ps @ qs) = contents ps \<union> contents qs"
proof (induction ps)
  case (Cons p ps)
  then show ?case using contents_Cons [of p "ps @ qs"] contents_Cons [of p ps] by auto
qed simp

lemma run_append: "nv_run n B (ps @ qs) s = bindE (nv_run n B ps s) (nv_run n B qs)"
proof (induction ps arbitrary: s)
  case (Cons p ps)
  then have "nv_run n B (ps @ qs) = (\<lambda>t. bindE (nv_run n B ps t) (nv_run n B qs))" by blast
  then show ?case by (simp add: bindE_assoc)
qed simp

section \<open>Each operation keeps the invariant\<close>

lemma okp_mono: "okp B H img \<Longrightarrow> H \<subseteq> H' \<Longrightarrow> okp B H' img"
  by (auto simp: okp_def)

lemma Inv_mono:
  assumes "Inv B v H s" and "H \<subseteq> H'"
  shows "Inv B v H' s"
proof -
  have "base B H' s" using assms by (auto simp: Inv_def base_def mirror_ok_def Let_def intro: okp_mono)
  moreover have "phase B v H s \<Longrightarrow> phase B v H' s"
    using assms(2) by (cases "nv_state s") (auto simp: phase_def Let_def)
  ultimately show ?thesis using assms(1) by (auto simp: Inv_def)
qed

lemma Inv_misc [simp]: "Inv B v H (s\<lparr>nv_delay := d\<rparr>) = Inv B v H s" "Inv B v H (s\<lparr>nv_checkpoint := c\<rparr>) = Inv B v H s"
proof -
  have "phase B v H (s\<lparr>nv_delay := d\<rparr>) = phase B v H s" "phase B v H (s\<lparr>nv_checkpoint := c\<rparr>) = phase B v H s"
    by (cases "nv_state s"; simp add: phase_def)+
  then show "Inv B v H (s\<lparr>nv_delay := d\<rparr>) = Inv B v H s" "Inv B v H (s\<lparr>nv_checkpoint := c\<rparr>) = Inv B v H s"
    by (simp_all add: Inv_def base_def)
qed

lemma Inv_new_mirror:
  assumes inv: "Inv B v H s" and ram: "mirror_ok B H ram"
  shows "Inv B v H (s\<lparr>nv_ram := ram, nv_update := True\<rparr>)"
proof -
  have "phase B v H s \<Longrightarrow> phase B v H (s\<lparr>nv_ram := ram, nv_update := True\<rparr>)"
    by (cases "nv_state s") (auto simp: phase_def Let_def)
  with inv ram show ?thesis by (auto simp: Inv_def base_def)
qed

lemma write_ok:
  assumes inv: "Inv B v H s" and len: "length c = unat (nb_len B)"
  shows "Inv B v (insert c H) (nv_client_write c s)"
proof -
  have i: "Inv B v (insert c H) s" by (rule Inv_mono [OF inv]) auto
  have B: "build_ok B" and m: "mirror_ok B H (nv_ram s)" using inv by (simp_all add: Inv_def base_def)
  have "mirror_ok B (insert c H) ((nv_ram s)\<lparr>ni_body := c @ drop (length c) (ni_body (nv_ram s))\<rparr>)"
    using m len build_len [OF B] by (simp add: mirror_ok_def wf_def payload_def)
  from Inv_new_mirror [OF i this] show ?thesis by (simp add: nv_client_write_def nv_record_extension_update_def)
qed

lemma init_ok:
  assumes B: "build_ok B" and sec: "sectors_ok B v H (nv_flash s)" and pw: "pw \<noteq> Lost" "torn_ok B pw"
    and n: "fl_cap (nv_flash s) + 3 < n"
  shows "\<exists>s'. nv_record_extension_init n B (nv_reset B pw s) = Inr s' \<and> Inv B v H s' \<and>
    fl_cap (nv_flash s') = fl_cap (nv_flash s) \<and> (pw = Steady \<longrightarrow> fl_power (nv_flash s') = Steady \<and> Inv B True H s' \<and>
      nv_state s' = NV_STATE_IDLE \<and> \<not> nv_update s') \<and>
    payload B (nv_ram s') =
      (if valid B (fl_sector (nv_flash s) Main) then payload B (fl_sector (nv_flash s) Main)
       else if valid B (fl_sector (nv_flash s) Bak) then payload B (fl_sector (nv_flash s) Bak) else nb_default B)"
proof -
  from load_ok [OF B sec pw] obtain s1 where
    s1: "nv_record_load B (nv_reset B pw s) = Inr s1" "Inv B v H s1"
    "nv_flash s1 = (nv_flash s)\<lparr>fl_queue := [], fl_power := pw, fl_registered := True\<rparr>"
    "payload B (nv_ram s1) =
      (if valid B (fl_sector (nv_flash s) Main) then payload B (fl_sector (nv_flash s) Main)
       else if valid B (fl_sector (nv_flash s) Bak) then payload B (fl_sector (nv_flash s) Bak) else nb_default B)"
    by blast
  have ni: "\<not> nv_init (nv_reset B pw s)" by (simp add: nv_reset_def)
  show ?thesis
  proof (cases "nv_update s1")
    case True
    have "fl_cap (nv_flash s1) + 3 < n" using n s1(3) by simp
    from flush_sync_ok [OF s1(2) this] obtain s2 where
      s2: "nv_record_extension_flush n B False s1 = Inr (0, s2)" "Inv B v H s2" "frame B s1 s2" "nv_state s2 = NV_STATE_IDLE"
      "\<not> nv_update s2"
      "\<not> (nv_state s1 = NV_STATE_IDLE \<and> \<not> nv_update s1) \<and> \<not> is_lost s2 \<longrightarrow> Inv B True H s2 \<and> mirrored B s2" by blast
    have "nv_record_extension_init n B (nv_reset B pw s) = Inr s2"
      using ni s1(1) True s2(1) by (simp add: nv_record_extension_init_def del: bindE_Inr_iff)
    with s2 s1(3,4) True show ?thesis by (auto simp: frame_def)
  next
    case False
    have run: "nv_record_extension_init n B (nv_reset B pw s) = Inr s1"
      using ni s1(1) False by (simp add: nv_record_extension_init_def del: bindE_Inr_iff)
    have "pw = Steady \<Longrightarrow> Inv B True H s1 \<and> nv_state s1 = NV_STATE_IDLE"
    proof -
      assume pws: "pw = Steady"
      have "valid B (fl_sector (nv_flash s) Main) \<and> valid B (fl_sector (nv_flash s) Bak)"
      proof (rule ccontr)
        assume "\<not> ?thesis"
        then show False using s1(1) False data_is_valid_eq [OF _ B] sec erase_limit [OF B]
          by (auto simp: nv_record_load_def nv_reset_def Let_def nv_record_items_is_valid_def
              nv_record_extension_update_def sectors_ok_def okp_def split: if_splits)
      qed
      with load_ok [OF B sec pw] s1(1) have "nv_state s1 = NV_STATE_IDLE" by auto
      moreover have "valid B (fl_sector (nv_flash s1) Bak)" using s1(3) \<open>_ \<and> _\<close> by simp
      ultimately show ?thesis using s1(2,3) pws by (auto simp: Inv_def phase_def Let_def)
    qed
    with run s1 False show ?thesis by auto
  qed
qed

lemma power_torn: "power_ok B pw \<Longrightarrow> build_ok B \<Longrightarrow> pw \<noteq> Lost \<and> torn_ok B pw"
proof (cases pw)
  case (Fails_After k torn)
  then show "power_ok B pw \<Longrightarrow> build_ok B \<Longrightarrow> ?thesis"
    using data_is_valid_eq [of torn B] by (simp add: wf_def)
qed simp_all

lemma Inv_sectors: "Inv B True H s \<Longrightarrow> sectors_ok B True H (nv_flash s)"
proof -
  assume inv: "Inv B True H s"
  have "valid B (fl_sector (nv_flash s) Main) \<or> valid B (fl_sector (nv_flash s) Bak)"
  proof (cases "is_lost s")
    case True
    with inv show ?thesis by (simp add: Inv_def)
  next
    case False
    with inv have "phase B True H s" by (simp add: Inv_def)
    then show ?thesis by (cases "nv_state s") (auto simp: phase_def Let_def)
  qed
  with inv show ?thesis by (simp add: sectors_ok_def Inv_def base_def Let_def)
qed

lemma sync_ok:
  assumes inv: "Inv B v H s" and n: "fl_cap (nv_flash s) + 3 < n"
  shows "\<exists>s'. nv_record_flash_flush n B now s = Inr s' \<and> Inv B v H s' \<and> frame B s s' \<and>
    nv_state s' = NV_STATE_IDLE \<and> \<not> nv_update s' \<and> (nv_update s \<and> \<not> is_lost s' \<longrightarrow> mirrored B s')"
proof -
  from flush_sync_ok [OF inv n] obtain s' where
    "nv_record_extension_flush n B False s = Inr (0, s')" "Inv B v H s'" "frame B s s'"
    "nv_state s' = NV_STATE_IDLE" "\<not> nv_update s'"
    "\<not> (nv_state s = NV_STATE_IDLE \<and> \<not> nv_update s) \<and> \<not> is_lost s' \<longrightarrow> Inv B True H s' \<and> mirrored B s'" by blast
  then show ?thesis by (simp add: nv_record_flash_flush_def frame_def mirrored_def)
qed

lemma async_ok:
  assumes inv: "Inv B v H s" and n: "0 < n"
  shows "\<exists>s'. nv_record_execute_async_flush n B now s = Inr s' \<and> Inv B v H s' \<and> frame B s s'"
proof -
  from flush_async_ok [OF inv n] obtain r s' where
    "nv_record_extension_flush n B True s = Inr (r, s')" "Inv B v H s'" "frame B s s'" by blast
  then show ?thesis by (simp add: nv_record_execute_async_flush_def frame_def)
qed

lemma sleep_ok:
  assumes inv: "Inv B v H s" and n: "0 < n"
  shows "\<exists>r s'. nv_record_flash_flush_in_sleep n B start_ok running now s = Inr (r, s') \<and> Inv B v H s' \<and> frame B s s'"
proof -
  obtain e s1 where e: "(if nv_state s = NV_STATE_IDLE then nv_record_is_timer_expired_to_check start_ok running s
      else (True, s)) = (e, s1)" by (metis surj_pair)
  then have s1: "Inv B v H s1" "frame B s s1"
    using inv by (auto simp: nv_record_is_timer_expired_to_check_def nv_norflash_async_flush_check_def frame_def split: if_splits)
  from async_ok [OF s1(1) n, of now] obtain s2 where
    "nv_record_execute_async_flush n B now s1 = Inr s2" "Inv B v H s2" "frame B s1 s2" by blast
  then have s2: "Inv B v H s2" "frame B s s2" "nv_record_execute_async_flush n B now s1 = Inr s2"
    using frame_trans [OF s1(2)] by auto
  show ?thesis
  proof (cases e)
    case True
    with s2 show ?thesis unfolding nv_record_flash_flush_in_sleep_def e
      by (simp only: Let_def case_prod_conv not_True_eq_False if_False bindE.simps) blast
  next
    case False
    with s1 show ?thesis unfolding nv_record_flash_flush_in_sleep_def e
      by (simp only: Let_def case_prod_conv not_False_eq_True if_True) blast
  qed
qed

lemma rebuild_ok:
  assumes inv: "Inv B v H s" and len: "length c = unat (nb_len B)" and n: "fl_cap (nv_flash s) + 3 < n"
  shows "\<exists>s'. nv_record_rebuild n B c now s = Inr s' \<and> Inv B v (insert c H) s' \<and>
    fl_cap (nv_flash s') = fl_cap (nv_flash s)"
proof -
  have i: "Inv B v (insert c H) s" by (rule Inv_mono [OF inv]) auto
  have B: "build_ok B" and m: "mirror_ok B H (nv_ram s)" and p: "nv_ptr s" using inv by (simp_all add: Inv_def base_def)
  from m have wf: "wf (nv_ram s)" "nh_len (ni_header (nv_ram s)) = nb_len B"
    "nh_magic (ni_header (nv_ram s)) = NV_EXTENSION_MAGIC_NUMBER" "nh_major (ni_header (nv_ram s)) = NV_EXTENSION_MAJOR_VERSION"
    "nh_minor (ni_header (nv_ram s)) = NV_EXTENSION_MINOR_VERSION" by (simp_all add: mirror_ok_def)
  have eq: "(nv_ram s)\<lparr>ni_body := c @ drop (unat (nb_len B)) (ni_body (nv_ram s))\<rparr> =
      \<lparr>ni_header = (ni_header (nv_ram s))\<lparr>nh_magic := NV_EXTENSION_MAGIC_NUMBER, nh_major := NV_EXTENSION_MAJOR_VERSION,
         nh_minor := NV_EXTENSION_MINOR_VERSION, nh_len := nb_len B\<rparr>,
       ni_body = c @ drop (length c) (ni_body (nv_ram s))\<rparr>"
    using wf len by (cases "nv_ram s"; cases "ni_header (nv_ram s)") simp
  from mirror_seal [OF B len _ wf, of "insert c H"] obtain ram where
    ram: "nv_record_reset_content B c (nv_ram s) = Inr ram" "mirror_ok B (insert c H) ram"
    unfolding nv_record_reset_content_def eq by blast
  define s1 where "s1 = nv_record_extension_update (s\<lparr>nv_ram := ram\<rparr>)"
  have "Inv B v (insert c H) s1"
    using Inv_new_mirror [OF i ram(2)] by (simp add: s1_def nv_record_extension_update_def)
  moreover have "fl_cap (nv_flash s1) + 3 < n" using n by (simp add: s1_def nv_record_extension_update_def)
  ultimately obtain s' where "nv_record_flash_flush n B now s1 = Inr s'" "Inv B v (insert c H) s'" "frame B s1 s'"
    using sync_ok by blast
  then show ?thesis using p ram(1)
    by (simp add: nv_record_rebuild_def s1_def frame_def nv_record_extension_update_def)
qed

lemma exec_ok:
  assumes inv: "Inv B True H s" and ok: "nv_op_ok B p" and n: "fl_cap (nv_flash s) + 3 < n"
  shows "\<exists>s'. nv_exec n B p s = Inr s' \<and> Inv B True (H \<union> contents [p]) s' \<and> fl_cap (nv_flash s') = fl_cap (nv_flash s)"
proof -
  have n0: "0 < n" and B: "build_ok B" using n inv by (simp_all add: Inv_def base_def)
  show ?thesis
  proof (cases p)
    case (Write c)
    with ok write_ok [OF inv, of c] show ?thesis
      by (simp add: nv_client_write_def nv_record_extension_update_def)
  next
    case (Async_Flush now)
    with async_ok [OF inv n0, of now] show ?thesis by (auto simp: frame_def)
  next
    case (Sync_Flush now)
    with sync_ok [OF inv n, of now] show ?thesis by (auto simp: frame_def)
  next
    case (Sleep_Hook a b now)
    with sleep_ok [OF inv n0, of a b now] show ?thesis by (auto simp: frame_def)
  next
    case (Rebuild c now)
    with ok rebuild_ok [OF inv _ n, of c now] show ?thesis by simp
  next
    case Background
    with Inv_driver [OF inv] show ?thesis by simp
  next
    case (Power_Cycle pw)
    with ok power_torn [OF _ B] have pw: "pw \<noteq> Lost" "torn_ok B pw" by simp_all
    from init_ok [OF B Inv_sectors [OF inv] pw n] Power_Cycle show ?thesis by auto
  qed
qed

lemma nv_run_ok:
  assumes "Inv B True H s" and "list_all (nv_op_ok B) ps" and "fl_cap (nv_flash s) + 3 < n"
  shows "\<exists>s'. nv_run n B ps s = Inr s' \<and> Inv B True (H \<union> contents ps) s' \<and> fl_cap (nv_flash s') = fl_cap (nv_flash s)"
  using assms
proof (induction ps arbitrary: s H)
  case (Cons p ps)
  from exec_ok [of B H s p n] Cons.prems obtain s1 where
    s1: "nv_exec n B p s = Inr s1" "Inv B True (H \<union> contents [p]) s1" "fl_cap (nv_flash s1) = fl_cap (nv_flash s)" by auto
  with Cons.IH [OF s1(2)] Cons.prems contents_Cons [of p ps] show ?case by (auto simp: Un_assoc)
qed simp

section \<open>From the first start on\<close>

text \<open>A chip as it is delivered: two sectors of any content, a driver whose buffer has room.\<close>

definition chip_ok :: "nat \<Rightarrow> nv_build \<Rightarrow> nv_store \<Rightarrow> bool" where
  "chip_ok n B s \<longleftrightarrow> build_ok B \<and> 0 < fl_cap (nv_flash s) \<and> fl_cap (nv_flash s) + 3 < n \<and>
     length (ni_body (fl_sector (nv_flash s) Main)) = BODY_SIZE \<and> length (ni_body (fl_sector (nv_flash s) Bak)) = BODY_SIZE"

text \<open>The records that its sectors hold.\<close>

definition delivered :: "nv_build \<Rightarrow> nv_store \<Rightarrow> u8 list set" where
  "delivered B s = {payload B (fl_sector (nv_flash s) b) | b. nv_record_data_is_valid B (fl_sector (nv_flash s) b) = Inr True}"

lemma first_start:
  assumes "chip_ok n B s0"
  shows "\<exists>s1. nv_record_extension_init n B (nv_reset B Steady s0) = Inr s1 \<and>
    Inv B True (insert (nb_default B) (delivered B s0)) s1 \<and> fl_cap (nv_flash s1) = fl_cap (nv_flash s0)"
proof -
  let ?m = "fl_sector (nv_flash s0) Main" and ?b = "fl_sector (nv_flash s0) Bak"
  have B: "build_ok B" and w: "wf ?m" "wf ?b" using assms by (simp_all add: chip_ok_def wf_def)
  have in_d: "valid B (fl_sector (nv_flash s0) b) \<Longrightarrow> payload B (fl_sector (nv_flash s0) b) \<in> delivered B s0" for b
    using w data_is_valid_eq [OF _ B] unfolding delivered_def by (cases b) auto
  have "sectors_ok B (valid B ?m \<or> valid B ?b) (insert (nb_default B) (delivered B s0)) (nv_flash s0)"
    using assms w in_d by (auto simp: sectors_ok_def okp_def chip_ok_def)
  moreover have "fl_cap (nv_flash s0) + 3 < n" using assms by (simp add: chip_ok_def)
  ultimately show ?thesis using init_ok [OF B, of _ _ s0 Steady n] by fastforce
qed

lemma run_good:
  assumes "chip_ok n B s0" and "nv_record_extension_init n B (nv_reset B Steady s0) = Inr s1"
    and "list_all (nv_op_ok B) ps"
  shows "\<exists>s. nv_run n B ps s1 = Inr s \<and> Inv B True (insert (nb_default B) (delivered B s0) \<union> contents ps) s \<and>
    fl_cap (nv_flash s) + 3 < n"
proof -
  from first_start [OF assms(1)] assms(2) have i: "Inv B True (insert (nb_default B) (delivered B s0)) s1"
    "fl_cap (nv_flash s1) = fl_cap (nv_flash s0)" by auto
  have "fl_cap (nv_flash s1) + 3 < n" using assms(1) i(2) by (simp add: chip_ok_def)
  from nv_run_ok [OF i(1) assms(3) this] this show ?thesis by auto
qed

text \<open>C22: whatever modules, tasks, the driver and the power switch do in which order, every operation returns,
  and at every moment one of the two sectors holds a valid record; what a valid sector holds, and what the
  mirror holds, is a content that the record once had, so that no interrupted erase or write can lose it.\<close>

theorem nv_crash_safe:
  assumes "chip_ok n B s0" and "nv_record_extension_init n B (nv_reset B Steady s0) = Inr s1"
    and "list_all (nv_op_ok B) ps"
  shows "\<exists>s. nv_run n B ps s1 = Inr s \<and>
    (\<exists>b. nv_record_data_is_valid B (fl_sector (nv_flash s) b) = Inr True) \<and>
    (\<forall>b. nv_record_data_is_valid B (fl_sector (nv_flash s) b) = Inr True \<longrightarrow>
       payload B (fl_sector (nv_flash s) b) \<in> insert (nb_default B) (delivered B s0) \<union> contents ps) \<and>
    payload B (nv_ram s) \<in> insert (nb_default B) (delivered B s0) \<union> contents ps"
proof -
  let ?H = "insert (nb_default B) (delivered B s0) \<union> contents ps"
  from run_good [OF assms] obtain s where s: "nv_run n B ps s1 = Inr s" "Inv B True ?H s" by blast
  have ok: "okp B ?H (fl_sector (nv_flash s) b)" for b
    using Inv_sectors [OF s(2)] by (cases b) (simp_all add: sectors_ok_def)
  have "build_ok B" using s(2) by (simp add: Inv_def base_def)
  then have v: "nv_record_data_is_valid B (fl_sector (nv_flash s) b) = Inr (valid B (fl_sector (nv_flash s) b))" for b
    using data_is_valid_eq ok by (simp add: okp_def)
  have "payload B (nv_ram s) \<in> ?H" using s(2) by (simp add: Inv_def base_def mirror_ok_def)
  moreover have "\<exists>b. valid B (fl_sector (nv_flash s) b)" using Inv_sectors [OF s(2)] by (auto simp: sectors_ok_def)
  ultimately show ?thesis using s(1) ok v by (intro exI [of _ s]) (simp add: okp_def)
qed

text \<open>After a start without a power failure a flush stores the mirror in both sectors.\<close>

lemma sync_stores:
  assumes "Inv B v H s" and "fl_power (nv_flash s) = Steady" and "fl_cap (nv_flash s) + 3 < n" and "nv_update s"
  shows "\<exists>s'. nv_record_flash_flush n B now s = Inr s' \<and> Inv B v H s' \<and> mirrored B s' \<and>
    payload B (fl_sector (nv_flash s') Main) = payload B (nv_ram s) \<and> fl_cap (nv_flash s') = fl_cap (nv_flash s) \<and>
    fl_power (nv_flash s') = Steady"
proof -
  from sync_ok [OF assms(1,3)] obtain s' where
    s': "nv_record_flash_flush n B now s = Inr s'" "Inv B v H s'" "frame B s s'" "nv_state s' = NV_STATE_IDLE"
    "\<not> nv_update s'" "nv_update s \<and> \<not> is_lost s' \<longrightarrow> mirrored B s'" by blast
  have st: "fl_power (nv_flash s') = Steady" using s'(3) assms(2) by (simp add: frame_def)
  with s'(2,4,5) have "payload B (fl_sector (nv_flash s') Main) = payload B (nv_ram s')"
    by (simp add: Inv_def phase_def Let_def)
  with s' st assms(4) show ?thesis by (simp add: frame_def)
qed

lemma after_write:
  assumes "Inv B v H s" and "length c = unat (nb_len B)"
  shows "Inv B v (insert c H) (nv_client_write c s)" "nv_update (nv_client_write c s)"
    "payload B (nv_ram (nv_client_write c s)) = c" "nv_flash (nv_client_write c s) = nv_flash s"
    "nv_state (nv_client_write c s) = nv_state s"
  using write_ok [OF assms] assms(2)
  by (simp_all add: nv_client_write_def nv_record_extension_update_def payload_def)

text \<open>The state after \<open>Write v\<close> and a flush under power, and the next start.\<close>

lemma settle:
  assumes i: "Inv B True H s" and p: "fl_power (nv_flash s) = Steady" and n: "fl_cap (nv_flash s) + 3 < n"
    and c: "length c = unat (nb_len B)" and pw: "power_ok B pw"
  shows "\<exists>s'. nv_run n B [Write c, Sync_Flush now, Power_Cycle pw] s = Inr s' \<and> Inv B True {c} s' \<and>
    payload B (nv_ram s') = c \<and> fl_cap (nv_flash s') = fl_cap (nv_flash s) \<and>
    (pw = Steady \<longrightarrow> fl_power (nv_flash s') = Steady \<and> nv_state s' = NV_STATE_IDLE \<and> \<not> nv_update s')"
proof -
  note w = after_write [OF i c]
  from sync_stores [OF w(1) _ _ w(2), of n now] w(3,4) p n obtain s1 where
    s1: "nv_record_flash_flush n B now (nv_client_write c s) = Inr s1" "Inv B True (insert c H) s1" "mirrored B s1"
    "payload B (fl_sector (nv_flash s1) Main) = c" "fl_cap (nv_flash s1) = fl_cap (nv_flash s)" by auto
  have B: "build_ok B" using i by (simp add: Inv_def base_def)
  have sec: "sectors_ok B True {c} (nv_flash s1)"
    using Inv_sectors [OF s1(2)] s1(3,4) by (auto simp: sectors_ok_def mirrored_def okp_def Let_def)
  have "fl_cap (nv_flash s1) + 3 < n" using n s1(5) by simp
  from init_ok [OF B sec power_torn [OF pw B, THEN conjunct1] power_torn [OF pw B, THEN conjunct2] this] obtain s2 where
    "nv_record_extension_init n B (nv_reset B pw s1) = Inr s2" "Inv B True {c} s2"
    "fl_cap (nv_flash s2) = fl_cap (nv_flash s1)"
    "payload B (nv_ram s2) = (if valid B (fl_sector (nv_flash s1) Main) then payload B (fl_sector (nv_flash s1) Main)
       else if valid B (fl_sector (nv_flash s1) Bak) then payload B (fl_sector (nv_flash s1) Bak) else nb_default B)"
    "pw = Steady \<longrightarrow> fl_power (nv_flash s2) = Steady \<and> Inv B True {c} s2 \<and> nv_state s2 = NV_STATE_IDLE \<and> \<not> nv_update s2"
    by blast
  with s1 show ?thesis by (auto simp: mirrored_def Let_def)
qed

lemma run_then_cycle:
  assumes "chip_ok n B s0" and "nv_record_extension_init n B (nv_reset B Steady s0) = Inr s1"
    and "list_all (nv_op_ok B) ps" and "nv_run n B (ps @ [Power_Cycle Steady]) s1 = Inr s"
  shows "\<exists>H. Inv B True H s" "fl_power (nv_flash s) = Steady" "fl_cap (nv_flash s) + 3 < n"
    "fl_cap (nv_flash s) = fl_cap (nv_flash s0)"
proof -
  from run_good [OF assms(1-3)] obtain t where
    t: "nv_run n B ps s1 = Inr t" "Inv B True (insert (nb_default B) (delivered B s0) \<union> contents ps) t"
    "fl_cap (nv_flash t) + 3 < n" by blast
  have B: "build_ok B" using t(2) by (simp add: Inv_def base_def)
  from first_start [OF assms(1)] assms(2) have i: "Inv B True (insert (nb_default B) (delivered B s0)) s1"
    "fl_cap (nv_flash s1) = fl_cap (nv_flash s0)" by auto
  have "fl_cap (nv_flash s1) + 3 < n" using assms(1) i(2) by (simp add: chip_ok_def)
  from nv_run_ok [OF i(1) assms(3) this] t(1) i(2) have cap: "fl_cap (nv_flash t) = fl_cap (nv_flash s0)" by auto
  from init_ok [OF B Inv_sectors [OF t(2)], of Steady n] t(3) obtain s' where
    "nv_record_extension_init n B (nv_reset B Steady t) = Inr s'" "fl_power (nv_flash s') = Steady"
    "Inv B True (insert (nb_default B) (delivered B s0) \<union> contents ps) s'" "fl_cap (nv_flash s') = fl_cap (nv_flash t)"
    by auto
  with t assms(4) cap show "\<exists>H. Inv B True H s" "fl_power (nv_flash s) = Steady" "fl_cap (nv_flash s) + 3 < n"
    "fl_cap (nv_flash s) = fl_cap (nv_flash s0)" by (auto simp: run_append)
qed

text \<open>C23: after any history, a content that is written and flushed while the power is on is what the next
  start finds, byte for byte.\<close>

theorem nv_flush_roundtrip:
  assumes "chip_ok n B s0" and "nv_record_extension_init n B (nv_reset B Steady s0) = Inr s1"
    and "list_all (nv_op_ok B) ps" and "nv_run n B (ps @ [Power_Cycle Steady]) s1 = Inr s"
    and "length c = unat (nb_len B)" and "power_ok B pw"
  shows "\<exists>s'. nv_run n B [Write c, Sync_Flush now, Power_Cycle pw] s = Inr s' \<and> payload B (nv_ram s') = c"
proof -
  from run_then_cycle [OF assms(1-4)] obtain H where "Inv B True H s" "fl_power (nv_flash s) = Steady"
    "fl_cap (nv_flash s) + 3 < n" by blast
  from settle [OF this assms(5,6), of now] show ?thesis by blast
qed

text \<open>C24: once a content is stored in both sectors, no older one comes back: whatever happens then, with any
  number of power failures in the middle of an erase or a write, each later start finds that content or one
  that was written after it.\<close>

theorem nv_old_or_new:
  assumes "chip_ok n B s0" and "nv_record_extension_init n B (nv_reset B Steady s0) = Inr s1"
    and "list_all (nv_op_ok B) ps" and "nv_run n B (ps @ [Power_Cycle Steady]) s1 = Inr s"
    and "length c = unat (nb_len B)" and "power_ok B pw" and "list_all (nv_op_ok B) qs"
  shows "\<exists>s'. nv_run n B ([Write c, Sync_Flush now, Power_Cycle pw] @ qs @ [Power_Cycle Steady]) s = Inr s' \<and>
    payload B (nv_ram s') \<in> insert c (contents qs)"
proof -
  from run_then_cycle [OF assms(1-4)] obtain H where i: "Inv B True H s" "fl_power (nv_flash s) = Steady"
    "fl_cap (nv_flash s) + 3 < n" by blast
  from settle [OF i assms(5,6), of now] obtain t where
    t: "nv_run n B [Write c, Sync_Flush now, Power_Cycle pw] s = Inr t" "Inv B True {c} t"
    "fl_cap (nv_flash t) = fl_cap (nv_flash s)" by blast
  have "list_all (nv_op_ok B) (qs @ [Power_Cycle Steady])" "fl_cap (nv_flash t) + 3 < n" using assms(7) i(3) t(3) by simp_all
  from nv_run_ok [OF t(2) this] obtain s' where
    s': "nv_run n B (qs @ [Power_Cycle Steady]) t = Inr s'" "Inv B True ({c} \<union> contents (qs @ [Power_Cycle Steady])) s'" by blast
  then have "payload B (nv_ram s') \<in> insert c (contents qs)" by (simp add: Inv_def base_def mirror_ok_def contents_append)
  moreover have "nv_run n B ([Write c, Sync_Flush now, Power_Cycle pw] @ qs @ [Power_Cycle Steady]) s = Inr s'"
    unfolding run_append [of n B "[Write c, Sync_Flush now, Power_Cycle pw]"] t(1) using s'(1) by (simp only: bindE.simps)
  ultimately show ?thesis by blast
qed

text \<open>the check of a sector returns without a read behind the end of the sector, whatever length its header
  claims.\<close>

theorem nv_record_data_is_valid_bounded:
  assumes "length (ni_body img) = BODY_SIZE"
  shows "\<exists>ok. nv_record_data_is_valid B img = Inr ok"
  by (rule data_is_valid_total) (simp add: wf_def assms)

section \<open>A stale backup\<close>

lemma async_main:
  assumes "main_turn s" and "norflash_api_get_dev_id (nv_flash s) = NORFLASH_API_OK \<and> nv_ptr s"
    and "flush_main_async B s = Inr (0, s')" and "0 < n"
  shows "nv_exec n B (Async_Flush now) s = Inr (s'\<lparr>nv_checkpoint := now\<rparr>)"
proof -
  from assms(4) obtain k where n: "n = Suc k" by (cases n) auto
  have "\<not> (nv_state s = NV_STATE_IDLE \<and> \<not> nv_update s)" using assms(1) by (auto simp: main_turn_def)
  then have "flush_round B n True (0, s) = Inr (True, 0, s')"
    using assms(1-3) by (auto simp: flush_round_def nv_record_extension_flush_main_def simp del: bindE_Inr_iff)
  then show ?thesis
    unfolding n by (simp add: nv_record_execute_async_flush_def nv_record_extension_flush_def del: bindE_Inr_iff)
qed

text \<open>Six steps of the flush, and the main sector is done.\<close>

lemma main_half:
  assumes i: "Inv B True H s" and st: "nv_state s = NV_STATE_IDLE" "nv_update s" "fl_power (nv_flash s) = Steady"
    and n: "0 < n" and cap: "2 \<le> fl_cap (nv_flash s)"
  shows "\<exists>s'. nv_run n B (replicate 6 (Async_Flush now)) s = Inr s' \<and> Inv B True H s' \<and>
    nv_state s' = NV_STATE_MAIN_DONE \<and> fl_cap (nv_flash s') = fl_cap (nv_flash s) \<and>
    valid B (fl_sector (nv_flash s') Main) \<and> payload B (fl_sector (nv_flash s') Main) = payload B (nv_ram s) \<and>
    fl_sector (nv_flash s') Bak = fl_sector (nv_flash s) Bak"
proof -
  let ?X = "nv_exec n B (Async_Flush now)"
  have kept: "Inv B True H y \<and> frame B x y" if "?X x = Inr y" "Inv B True H x" for x y
    using async_ok [OF that(2) n, of now] that(1) by auto
  have q0: "fl_queue (nv_flash s) = []" using i st by (simp add: Inv_def phase_def Let_def)
  have B: "build_ok B" using i by (simp add: Inv_def base_def)
  note dev = Inv_dev
  define s1 where "s1 = (enq (Erase Main) s)\<lparr>nv_state := NV_STATE_MAIN_ERASED, nv_checkpoint := now\<rparr>"
  have "flush_main_async B s = Inr (0, (enq (Erase Main) s)\<lparr>nv_state := NV_STATE_MAIN_ERASED\<rparr>)"
    using st q0 cap dev [OF i] by (simp add: flush_main_async_def request_async_def norflash_enqueue_def enq_def
        norflash_api_get_dev_id_def split: if_splits)
  from async_main [OF _ dev [OF i] this n] st have x1: "?X s = Inr s1" by (simp add: main_turn_def s1_def)
  have i1: "Inv B True H s1" using kept [OF x1 i] by blast
  have st1: "nv_state s1 = NV_STATE_MAIN_ERASED" "fl_queue (nv_flash s1) = [Erase Main]"
    "fl_power (nv_flash s1) = Steady" "fl_sector (nv_flash s1) = fl_sector (nv_flash s)" "nv_ram s1 = nv_ram s"
    "fl_cap (nv_flash s1) = fl_cap (nv_flash s)"
    using q0 st by (simp_all add: s1_def enq_def)
  from take_mirror_ok [OF i1 st1(1)] obtain s2' where s2': "take_mirror B s1 = Inr s2'"
    "nv_state s2' = NV_STATE_MAIN_WRITE_PENDING" "payload B (nv_ram s2') = payload B (nv_ram s)"
    "nv_flash s2' = nv_flash s1" "\<not> nv_update s2'" using st1(5) by auto
  define s2 where "s2 = s2'\<lparr>nv_checkpoint := now\<rparr>"
  have "flush_main_async B s1 = Inr (0, s2')" using st1(1) s2'(1) by (simp add: flush_main_async_def)
  from async_main [OF _ dev [OF i1] this n] st1(1) have x2: "?X s1 = Inr s2" by (simp add: main_turn_def s2_def)
  have i2: "Inv B True H s2" using kept [OF x2 i1] by blast
  have st2: "nv_state s2 = NV_STATE_MAIN_WRITE_PENDING" "nv_flash s2 = nv_flash s1" "\<not> nv_update s2"
    "payload B (nv_ram s2) = payload B (nv_ram s)" using s2' by (simp_all add: s2_def)
  have b2: "burn_ok B (nv_burn s2)" "payload B (burned (nv_burn s2)) = payload B (nv_ram s)"
    using i2 st2 st1(3) by (auto simp: Inv_def phase_def Let_def)
  define s3 where "s3 = (enq (Program Main (nv_burn s2)) s2)\<lparr>nv_state := NV_STATE_MAIN_WRITTEN, nv_checkpoint := now\<rparr>"
  have "flush_main_async B s2 = Inr (0, (enq (Program Main (nv_burn s2)) s2)\<lparr>nv_state := NV_STATE_MAIN_WRITTEN\<rparr>)"
    using st2 st1 cap dev [OF i2] by (simp add: flush_main_async_def request_async_def norflash_enqueue_def enq_def
        norflash_api_get_dev_id_def split: if_splits)
  from async_main [OF _ dev [OF i2] this n] st2(1) have x3: "?X s2 = Inr s3" by (simp add: main_turn_def s3_def)
  have i3: "Inv B True H s3" using kept [OF x3 i2] by blast
  define s4 where "s4 = (on_flash norflash_api_flush s3)\<lparr>nv_checkpoint := now\<rparr>"
  have st3: "nv_state s3 = NV_STATE_MAIN_WRITTEN" "fl_queue (nv_flash s3) = [Erase Main, Program Main (nv_burn s2)]"
    "fl_power (nv_flash s3) = Steady" "fl_sector (nv_flash s3) = fl_sector (nv_flash s)"
    "fl_cap (nv_flash s3) = fl_cap (nv_flash s)"
    using st2 st1 by (simp_all add: s3_def enq_def)
  have "flush_main_async B s3 = Inr (0, on_flash norflash_api_flush s3)" using st3 by (simp add: flush_main_async_def)
  from async_main [OF _ dev [OF i3] this n] st3(1) have x4: "?X s3 = Inr s4" by (simp add: main_turn_def s4_def)
  have i4: "Inv B True H s4" using kept [OF x4 i3] by blast
  have st4: "nv_state s4 = NV_STATE_MAIN_WRITTEN" "fl_queue (nv_flash s4) = [Program Main (nv_burn s2)]"
    "fl_power (nv_flash s4) = Steady" "fl_sector (nv_flash s4) = (fl_sector (nv_flash s))(Main := erased)"
    "fl_cap (nv_flash s4) = fl_cap (nv_flash s)"
    using st3 by (simp_all add: s4_def norflash_api_flush_def do_op_def Let_def)
  define s5 where "s5 = (on_flash norflash_api_flush s4)\<lparr>nv_checkpoint := now\<rparr>"
  have "flush_main_async B s4 = Inr (0, on_flash norflash_api_flush s4)" using st4 by (simp add: flush_main_async_def)
  from async_main [OF _ dev [OF i4] this n] st4(1) have x5: "?X s4 = Inr s5" by (simp add: main_turn_def s5_def)
  have i5: "Inv B True H s5" using kept [OF x5 i4] by blast
  have st5: "nv_state s5 = NV_STATE_MAIN_WRITTEN" "fl_queue (nv_flash s5) = []"
    "fl_sector (nv_flash s5) = (fl_sector (nv_flash s))(Main := burned (nv_burn s2))"
    "fl_cap (nv_flash s5) = fl_cap (nv_flash s)"
    using st4 by (simp_all add: s5_def norflash_api_flush_def do_op_def Let_def burned_def)
  define s6 where "s6 = s5\<lparr>nv_state := NV_STATE_MAIN_DONE, nv_checkpoint := now\<rparr>"
  have "flush_main_async B s5 = Inr (0, s5\<lparr>nv_state := NV_STATE_MAIN_DONE\<rparr>)" using st5 by (simp add: flush_main_async_def)
  from async_main [OF _ dev [OF i5] this n] st5(1) have x6: "?X s5 = Inr s6" by (simp add: main_turn_def s6_def)
  have i6: "Inv B True H s6" using kept [OF x6 i5] by blast
  have rep: "replicate 6 (Async_Flush now) = [Async_Flush now, Async_Flush now, Async_Flush now, Async_Flush now,
      Async_Flush now, Async_Flush now]" by (simp add: eval_nat_numeral)
  have "nv_run n B (replicate 6 (Async_Flush now)) s = Inr s6"
    unfolding rep by (simp only: nv_run.simps x1 x2 x3 x4 x5 x6 bindE.simps)
  moreover have "valid B (burned (nv_burn s2))" using burn_okp [OF b2(1) B, of UNIV] by simp
  ultimately show ?thesis using i6 st5 b2(2) by (auto simp: s6_def)
qed

text \<open>The power is cut after the first half of the flush of \<open>c1\<close>: the start after it loads \<open>c1\<close>, and leaves
  \<open>c0\<close> in the backup.\<close>

lemma half_flushed:
  assumes i: "Inv B True {c0} a" and st: "nv_state a = NV_STATE_IDLE" "fl_power (nv_flash a) = Steady"
    and c1: "length c1 = unat (nb_len B)" and n: "fl_cap (nv_flash a) + 3 < n" and cap: "2 \<le> fl_cap (nv_flash a)"
    and bak: "valid B (fl_sector (nv_flash a) Bak)"
  shows "\<exists>t. nv_run n B ((Write c1 # replicate 6 (Async_Flush now)) @ [Power_Cycle Steady]) a = Inr t \<and>
    Inv B True {c1, c0} t \<and> payload B (nv_ram t) = c1 \<and> nv_state t = NV_STATE_IDLE \<and> fl_queue (nv_flash t) = [] \<and>
    fl_power (nv_flash t) = Steady \<and> fl_registered (nv_flash t) \<and> fl_cap (nv_flash t) = fl_cap (nv_flash a) \<and>
    fl_sector (nv_flash t) Bak = fl_sector (nv_flash a) Bak"
proof -
  have B: "build_ok B" using i by (simp add: Inv_def base_def)
  have n0: "0 < n" using n by simp
  note w = after_write [OF i c1]
  from main_half [OF w(1) _ w(2) _ n0, of now] w(3-5) st cap obtain b where
    b: "nv_run n B (replicate 6 (Async_Flush now)) (nv_client_write c1 a) = Inr b" "Inv B True {c1, c0} b"
    "fl_cap (nv_flash b) = fl_cap (nv_flash a)" "valid B (fl_sector (nv_flash b) Main)"
    "payload B (fl_sector (nv_flash b) Main) = c1" "fl_sector (nv_flash b) Bak = fl_sector (nv_flash a) Bak" by auto
  from load_ok [OF B Inv_sectors [OF b(2)], of Steady] obtain t where
    t: "nv_record_load B (nv_reset B Steady b) = Inr t" "Inv B True {c1, c0} t" "payload B (nv_ram t) = c1"
    "nv_flash t = (nv_flash b)\<lparr>fl_queue := [], fl_power := Steady, fl_registered := True\<rparr>"
    "nv_state t = NV_STATE_IDLE" "\<not> nv_update t" using b(4-6) bak by auto
  have init_t: "nv_record_extension_init n B (nv_reset B Steady b) = Inr t"
    using t(1,6) by (simp add: nv_record_extension_init_def nv_reset_def [of B Steady b] del: bindE_Inr_iff)
  have "nv_run n B (replicate 6 (Async_Flush now) @ [Power_Cycle Steady]) (nv_client_write c1 a) = Inr t"
    unfolding run_append b(1) by (simp add: init_t del: bindE_Inr_iff)
  then have "nv_run n B ((Write c1 # replicate 6 (Async_Flush now)) @ [Power_Cycle Steady]) a = Inr t"
    by (simp only: append_Cons nv_run.simps(2) nv_exec.simps(1) bindE.simps)
  then show ?thesis using t(2,3,5) t(4) b(3,6) by (intro exI [of _ t]) (simp del: bindE_Inr_iff nv_run.simps replicate.simps)
qed

text \<open>The power is cut in the next flush, when the main sector is erased: the start after it loads the backup.\<close>

lemma erased_main:
  assumes i: "Inv B True H t" and st: "nv_state t = NV_STATE_IDLE" "fl_power (nv_flash t) = Steady" "fl_queue (nv_flash t) = []"
    "fl_registered (nv_flash t)"
    and c2: "length c2 = unat (nb_len B)" and n: "fl_cap (nv_flash t) + 3 < n" and cap: "2 \<le> fl_cap (nv_flash t)"
    and bak: "valid B (fl_sector (nv_flash t) Bak)" "payload B (fl_sector (nv_flash t) Bak) = c0"
  shows "\<exists>u. nv_run n B [Write c2, Async_Flush now, Background, Power_Cycle Steady] t = Inr u \<and> payload B (nv_ram u) = c0"
proof -
  have B: "build_ok B" using i by (simp add: Inv_def base_def)
  have n0: "0 < n" using n by simp
  note w = after_write [OF i c2]
  let ?w = "nv_client_write c2 t"
  define d where "d = (enq (Erase Main) ?w)\<lparr>nv_state := NV_STATE_MAIN_ERASED, nv_checkpoint := now\<rparr>"
  have "flush_main_async B ?w = Inr (0, (enq (Erase Main) ?w)\<lparr>nv_state := NV_STATE_MAIN_ERASED\<rparr>)"
    using w(4,5) st cap by (simp add: flush_main_async_def request_async_def norflash_enqueue_def enq_def)
  from async_main [OF _ Inv_dev [OF w(1)] this n0] w(2,5) st(1) have x: "nv_exec n B (Async_Flush now) ?w = Inr d"
    by (simp add: main_turn_def d_def)
  have id: "Inv B True (insert c2 H) d" using async_ok [OF w(1) n0, of now] x by auto
  let ?e = "on_flash norflash_api_flush d"
  have ie: "Inv B True (insert c2 H) ?e" by (rule Inv_driver [OF id])
  have se: "fl_sector (nv_flash ?e) Main = erased" "fl_sector (nv_flash ?e) Bak = fl_sector (nv_flash t) Bak"
    "fl_cap (nv_flash ?e) = fl_cap (nv_flash t)"
    using w(4) st by (simp_all add: d_def enq_def norflash_api_flush_def do_op_def Let_def)
  from init_ok [OF B Inv_sectors [OF ie], of Steady n] n se bak obtain u where
    "nv_record_extension_init n B (nv_reset B Steady ?e) = Inr u" "payload B (nv_ram u) = c0" by auto
  moreover have "nv_run n B [Write c2, Async_Flush now, Background, Power_Cycle Steady] t =
      nv_record_extension_init n B (nv_reset B Steady ?e)"
    using x by (cases "nv_record_extension_init n B (nv_reset B Steady ?e)") (simp_all del: bindE_Inr_iff)
  ultimately show ?thesis by (simp only:) blast
qed

text \<open>C25: a start does not repair a backup that is older than the main sector. When the power is cut between
  the write of the main sector and the erase of the backup, the next start loads the new content
  \<open>c1\<close>; but it takes the store for complete, and a power cut in the middle of a later flush brings
  back the content \<open>c0\<close> from before \<open>c1\<close>.\<close>

theorem nv_stale_backup:
  assumes "chip_ok n B s0" and "nv_record_extension_init n B (nv_reset B Steady s0) = Inr s1"
    and "list_all (nv_op_ok B) ps" and "nv_run n B (ps @ [Power_Cycle Steady]) s1 = Inr s"
    and "2 \<le> fl_cap (nv_flash s0)" and "list_all (\<lambda>c. length c = unat (nb_len B)) [c0, c1, c2]"
  shows "\<exists>t u. nv_run n B ([Write c0, Sync_Flush now, Power_Cycle Steady] @
        (Write c1 # replicate 6 (Async_Flush now)) @ [Power_Cycle Steady]) s = Inr t \<and> payload B (nv_ram t) = c1 \<and>
      nv_run n B [Write c2, Async_Flush now, Background, Power_Cycle Steady] t = Inr u \<and> payload B (nv_ram u) = c0"
proof -
  from run_then_cycle [OF assms(1-4)] obtain H where r: "Inv B True H s" "fl_power (nv_flash s) = Steady"
    "fl_cap (nv_flash s) + 3 < n" "2 \<le> fl_cap (nv_flash s)" using assms(5) by auto
  have len: "length c0 = unat (nb_len B)" "length c1 = unat (nb_len B)" "length c2 = unat (nb_len B)" using assms(6) by simp_all
  from settle [OF r(1-3) len(1), of Steady now] obtain a where
    a: "nv_run n B [Write c0, Sync_Flush now, Power_Cycle Steady] s = Inr a" "Inv B True {c0} a"
    "fl_cap (nv_flash a) = fl_cap (nv_flash s)" "fl_power (nv_flash a) = Steady" "nv_state a = NV_STATE_IDLE" by auto
  have bak: "valid B (fl_sector (nv_flash a) Bak)" "payload B (fl_sector (nv_flash a) Bak) = c0"
    using a by (auto simp: Inv_def phase_def base_def Let_def okp_def)
  from half_flushed [OF a(2,5,4) len(2) _ _ bak(1), of n now] r(3,4) a(3) obtain t where
    t: "nv_run n B ((Write c1 # replicate 6 (Async_Flush now)) @ [Power_Cycle Steady]) a = Inr t"
    "Inv B True {c1, c0} t" "payload B (nv_ram t) = c1" "nv_state t = NV_STATE_IDLE" "fl_queue (nv_flash t) = []"
    "fl_power (nv_flash t) = Steady" "fl_registered (nv_flash t)" "fl_cap (nv_flash t) = fl_cap (nv_flash s)"
    "fl_sector (nv_flash t) Bak = fl_sector (nv_flash a) Bak" by auto
  have run_t: "nv_run n B ([Write c0, Sync_Flush now, Power_Cycle Steady] @
        (Write c1 # replicate 6 (Async_Flush now)) @ [Power_Cycle Steady]) s = Inr t"
    unfolding run_append [of n B "[Write c0, Sync_Flush now, Power_Cycle Steady]"] a(1) using t(1) by (simp only: bindE.simps)
  from erased_main [OF t(2,4,6,5,7) len(3), of n c0 now] r(3,4) t(8,9) bak obtain u where
    "nv_run n B [Write c2, Async_Flush now, Background, Power_Cycle Steady] t = Inr u" "payload B (nv_ram u) = c0" by auto
  with run_t t(3) show ?thesis by blast
qed

text \<open>when the record has grown, a start that finds a record of the older, shorter layout copies the bytes
  behind it as well: the new items read as erased flash, and not as the initial content that the
  comment at the table promises them.\<close>

theorem nv_upgrade_loses_defaults:
  assumes "build_ok B" and "\<forall>b. length (ni_body (fl_sector (nv_flash s) b)) = BODY_SIZE"
    and "nv_record_data_is_valid B (fl_sector (nv_flash s) Main) = Inr True" and "0 < fl_cap (nv_flash s)"
    and "unat (nh_len (ni_header (fl_sector (nv_flash s) Main))) \<le> i" and "i < unat (nb_len B)"
    and "ni_body (fl_sector (nv_flash s) Main) ! i = 0xff"
  shows "\<exists>s'. nv_record_load B (nv_reset B Steady s) = Inr s' \<and> ni_body (nv_ram s') ! i = 0xff"
proof -
  have w: "wf (fl_sector (nv_flash s) b)" for b using assms(2) by (simp add: wf_def)
  then have v: "valid B (fl_sector (nv_flash s) Main)" using assms(3) data_is_valid_eq [OF w assms(1)] by simp
  have "sectors_ok B True UNIV (nv_flash s)" using w v assms(4) by (simp add: sectors_ok_def okp_def)
  from load_ok [OF assms(1) this, of Steady] v obtain s' where
    s': "nv_record_load B (nv_reset B Steady s) = Inr s'" "payload B (nv_ram s') = payload B (fl_sector (nv_flash s) Main)"
    by auto
  have "ni_body (nv_ram s') ! i = payload B (nv_ram s') ! i" using assms(6) by (simp add: payload_def)
  also have "\<dots> = 0xff" using assms(6,7) unfolding s'(2) by (simp add: payload_def)
  finally show ?thesis using s'(1) by blast
qed

section \<open>Concrete runs\<close>

text \<open>A record of one byte on an erased chip.\<close>

definition demo_build :: nv_build where
  "demo_build = \<lparr>nb_len = 1, nb_initial = replicate BODY_SIZE 0, nb_default = [7]\<rparr>"

definition demo_chip :: "nv_image \<Rightarrow> nv_store" where
  "demo_chip main =
     \<lparr>nv_update = False, nv_state = NV_STATE_IDLE, nv_init = False, nv_ptr = False, nv_ram = erased, nv_burn = erased,
      nv_delay = False, nv_checkpoint = 0,
      nv_flash = \<lparr>fl_sector = (\<lambda>b. erased)(Main := main), fl_queue = [], fl_cap = 2, fl_power = Steady,
        fl_registered = False\<rparr>\<rparr>"

text \<open>The state after the first start and the next one.\<close>

abbreviation demo_reached :: "nv_store \<Rightarrow> bool" where
  "demo_reached s \<equiv>
     \<exists>s1. nv_record_extension_init 10 demo_build (nv_reset demo_build Steady (demo_chip erased)) = Inr s1 \<and>
       nv_run 10 demo_build ([] @ [Power_Cycle Steady]) s1 = Inr s"

lemma demo_ok: "build_ok demo_build" "chip_ok 10 demo_build (demo_chip erased)"
  by (simp_all add: chip_ok_def build_ok_def demo_build_def demo_chip_def erased_def limit)

lemma demo_start: "\<exists>s1. nv_record_extension_init 10 demo_build (nv_reset demo_build Steady (demo_chip erased)) = Inr s1"
  using first_start [OF demo_ok(2)] by blast

lemma demo_torn: "power_ok demo_build (Fails_After k erased)"
  using data_is_valid_eq [OF erased_wf demo_ok(1)] by (simp add: erased_def [THEN arg_cong [where f = ni_body]])

lemma demo_cycle: "\<exists>s. demo_reached s"
proof -
  from demo_start obtain s1 where s1: "nv_record_extension_init 10 demo_build (nv_reset demo_build Steady (demo_chip erased)) = Inr s1"
    by blast
  have "list_all (nv_op_ok demo_build) ([] @ [Power_Cycle Steady])" by simp
  from run_good [OF demo_ok(2) s1 this] s1 show ?thesis by blast
qed

theorem nv_crash_safe_witness:
  "\<exists>s1 s. nv_record_extension_init 10 demo_build (nv_reset demo_build Steady (demo_chip erased)) = Inr s1 \<and>
    nv_run 10 demo_build [Write [1], Async_Flush 0, Power_Cycle (Fails_After 1 erased), Write [2], Sync_Flush 0] s1 = Inr s \<and>
    (\<exists>b. nv_record_data_is_valid demo_build (fl_sector (nv_flash s) b) = Inr True)"
proof -
  from demo_start obtain s1 where s1: "nv_record_extension_init 10 demo_build (nv_reset demo_build Steady (demo_chip erased)) = Inr s1"
    by blast
  have "list_all (nv_op_ok demo_build) [Write [1], Async_Flush 0, Power_Cycle (Fails_After 1 erased), Write [2], Sync_Flush 0]"
    using demo_torn by (simp add: demo_build_def)
  from nv_crash_safe [OF demo_ok(2) s1 this] s1 show ?thesis by blast
qed

theorem nv_flush_roundtrip_witness:
  "\<exists>s s'. demo_reached s \<and> nv_run 10 demo_build [Write [9], Sync_Flush 5, Power_Cycle (Fails_After 0 erased)] s = Inr s' \<and>
    payload demo_build (nv_ram s') = [9]"
proof -
  from demo_cycle obtain s1 s where
    s1: "nv_record_extension_init 10 demo_build (nv_reset demo_build Steady (demo_chip erased)) = Inr s1" and
    s: "nv_run 10 demo_build ([] @ [Power_Cycle Steady]) s1 = Inr s" by blast
  have q: "list_all (nv_op_ok demo_build) []" "length [9 :: u8] = unat (nb_len demo_build)" by (simp_all add: demo_build_def)
  from nv_flush_roundtrip [OF demo_ok(2) s1 q(1) s q(2) demo_torn [of 0], of 5] s1 s show ?thesis by blast
qed

theorem nv_old_or_new_witness:
  "\<exists>s s'. demo_reached s \<and> nv_run 10 demo_build ([Write [9], Sync_Flush 5, Power_Cycle (Fails_After 0 erased)] @ [Write [8], Async_Flush 6] @
      [Power_Cycle Steady]) s = Inr s' \<and> payload demo_build (nv_ram s') \<in> {[9], [8]}"
proof -
  from demo_cycle obtain s1 s where
    s1: "nv_record_extension_init 10 demo_build (nv_reset demo_build Steady (demo_chip erased)) = Inr s1" and
    s: "nv_run 10 demo_build ([] @ [Power_Cycle Steady]) s1 = Inr s" by blast
  have q: "list_all (nv_op_ok demo_build) [Write [8], Async_Flush 6]" "length [9 :: u8] = unat (nb_len demo_build)"
    "list_all (nv_op_ok demo_build) []"
    by (simp_all add: demo_build_def)
  from nv_old_or_new [OF demo_ok(2) s1 q(3) s q(2) demo_torn [of 0] q(1), of 5] s1 s
  show ?thesis by (simp only: contents.simps) blast
qed

theorem nv_record_data_is_valid_bounded_witness:
  "\<exists>ok. nv_record_data_is_valid demo_build (erased\<lparr>ni_header := \<lparr>nh_magic = NV_EXTENSION_MAGIC_NUMBER,
     nh_major = NV_EXTENSION_MAJOR_VERSION, nh_minor = 0, nh_len = 4080, nh_crc = 0\<rparr>\<rparr>) = Inr ok"
  by (rule nv_record_data_is_valid_bounded) (simp add: erased_def)

theorem nv_stale_backup_witness:
  "\<exists>s t u. demo_reached s \<and> nv_run 10 demo_build ([Write [1], Sync_Flush 5, Power_Cycle Steady] @
        (Write [2] # replicate 6 (Async_Flush 5)) @ [Power_Cycle Steady]) s = Inr t \<and> payload demo_build (nv_ram t) = [2] \<and>
      nv_run 10 demo_build [Write [3], Async_Flush 5, Background, Power_Cycle Steady] t = Inr u \<and>
      payload demo_build (nv_ram u) = [1]"
proof -
  from demo_cycle obtain s1 s where
    s1: "nv_record_extension_init 10 demo_build (nv_reset demo_build Steady (demo_chip erased)) = Inr s1" and
    s: "nv_run 10 demo_build ([] @ [Power_Cycle Steady]) s1 = Inr s" by blast
  have q: "list_all (nv_op_ok demo_build) []" "2 \<le> fl_cap (nv_flash (demo_chip erased))"
    "list_all (\<lambda>c :: u8 list. length c = unat (nb_len demo_build)) [[1], [2], [3]]"
    by (simp_all add: demo_build_def demo_chip_def)
  from nv_stale_backup [OF demo_ok(2) s1 q(1) s q(2,3), of 5] s1 s show ?thesis by blast
qed

text \<open>A valid record of length 0.\<close>

definition demo_old :: nv_image where
  "demo_old = erased\<lparr>ni_header := \<lparr>nh_magic = NV_EXTENSION_MAGIC_NUMBER,
     nh_major = NV_EXTENSION_MAJOR_VERSION, nh_minor = 0, nh_len = 0, nh_crc = 0\<rparr>\<rparr>"

theorem nv_upgrade_loses_defaults_witness:
  "\<exists>s'. nv_record_load demo_build (nv_reset demo_build Steady (demo_chip demo_old)) = Inr s' \<and> ni_body (nv_ram s') ! 0 = 0xff"
proof (rule nv_upgrade_loses_defaults [OF demo_ok(1)])
  have w: "wf demo_old" by (simp add: wf_def demo_old_def erased_def)
  then show "\<forall>b. length (ni_body (fl_sector (nv_flash (demo_chip demo_old)) b)) = BODY_SIZE"
    by (simp add: demo_chip_def wf_def erased_def)
  have "valid demo_build demo_old" by (simp add: valid_def demo_old_def demo_build_def crc_spec_eq)
  then show "nv_record_data_is_valid demo_build (fl_sector (nv_flash (demo_chip demo_old)) Main) = Inr True"
    using data_is_valid_eq [OF w demo_ok(1)] by (simp add: demo_chip_def)
qed (simp_all add: demo_chip_def demo_old_def demo_build_def erased_def BODY_SIZE_def)

end
