(* ===== verification/BleAdv.thy ===== *)
theory BleAdv
  imports Prelude
begin

unbundle bit_operations_syntax

text \<open>
  What the headset advertises over BLE: the table of \<open>bthost/service/ble_app/app_main/app_ble_param_config.c\<close>
  with the modules that share an advertising activity and the intervals that they ask for, and the part of
  \<open>bthost/service/ble_app/app_main/app_ble_mode_switch.c\<close> that puts the parameters of an activity together.

  A module registers a function that adds its bytes to the parameters and tells whether it wants to
  advertise. Such a function maps the parameters to new ones and to the calls of
  \<open>app_ble_data_fill_enable\<close> that it makes. What other parts of the firmware answer (the access mode,
  the battery, the connections) is a record \<open>ble_env\<close>.
\<close>

section \<open>Types\<close>

definition BLE_ADV_ACTIVITY_USER_NUM :: nat where
  "BLE_ADV_ACTIVITY_USER_NUM = 4"

definition BLE_ADV_USER_NUM :: nat where
  "BLE_ADV_USER_NUM = 17"

definition BLE_WHITE_LIST_USER_NUM :: nat where
  "BLE_WHITE_LIST_USER_NUM = 2"

definition BLE_CONNECTION_MAX :: nat where
  "BLE_CONNECTION_MAX = 3"

definition WHITE_LIST_MAX_NUM :: nat where
  "WHITE_LIST_MAX_NUM = 8"

definition EXT_ADV_DATA_LEN :: nat where
  "EXT_ADV_DATA_LEN = 251"

definition BLE_ADV_INVALID_INTERVAL :: u32 where
  "BLE_ADV_INVALID_INTERVAL = 0"

definition BLE_ADVERTISING_INTERVAL :: u32 where
  "BLE_ADVERTISING_INTERVAL = 160"

definition INVALID_BLE_ACTIVITY_INDEX :: u8 where
  "INVALID_BLE_ACTIVITY_INDEX = 0xff"

definition BLE_ADV_INVALID_TXPWR :: u8 where
  "BLE_ADV_INVALID_TXPWR = 100"

text \<open>\<open>BLE_ADV_DATA_WITHOUT_FLAG_LEN\<close>, \<open>BLE_ADV_DATA_WITH_FLAG_LEN\<close> and \<open>SCAN_RSP_DATA_LEN\<close>\<close>

definition ADV_DATA_LEN :: u8 where
  "ADV_DATA_LEN = 0x1f"

definition BLE_ADV_FLAG_PART_LEN :: u8 where
  "BLE_ADV_FLAG_PART_LEN = 3"

datatype adv_type =
    ADV_TYPE_UNDIRECT | ADV_TYPE_DIRECT_LDC | ADV_TYPE_DIRECT_HDC | ADV_TYPE_NON_CONN_SCAN
  | ADV_TYPE_NON_CONN_NON_SCAN | ADV_TYPE_CONN_EXT_ADV | ADV_TYPE_EXT_CON_DIRECT

datatype adv_mode = ADV_MODE_LEGACY | ADV_MODE_EXTENDED | ADV_MODE_PERIODIC

datatype adv_disc_mode =
    ADV_DISC_MODE_NON_DISC | ADV_DISC_MODE_GEN_DISC | ADV_DISC_MODE_LIM_DISC | ADV_DISC_MODE_BEACON

datatype adv_filter = ADV_ALLOW_SCAN_ANY_CON_ANY | ADV_ALLOW_SCAN_WLST_CON_WLST

datatype tx_power_level = BLE_ADV_TX_POWER_LEVEL_0 | BLE_ADV_TX_POWER_LEVEL_1 | BLE_ADV_TX_POWER_LEVEL_2

text \<open>An address of six bytes, and one with its type.\<close>

type_synonym bd_addr = "u8 list"

record ble_bdaddr =
  ba_addr :: bd_addr
  ba_type :: u8

record adv_param =
  ap_actv_user :: nat
  ap_flags_by_app :: bool
  ap_filter_pol :: adv_filter
  ap_advType :: adv_type
  ap_advMode :: adv_mode
  ap_discMode :: adv_disc_mode
  ap_advInterval :: u32
  ap_advUserInterval :: "u32 list"
  ap_advTxPwr :: tx_power_level
  ap_advDataLen :: u8
  ap_advData :: "u8 list"
  ap_scanRspDataLen :: u8
  ap_scanRspData :: "u8 list"
  ap_localAddrType :: u8
  ap_localAddr :: bd_addr
  ap_peerAddr :: ble_bdaddr

definition empty_addr :: bd_addr where
  "empty_addr = replicate 6 0"

definition adv_param_zero :: adv_param where
  "adv_param_zero =
     \<lparr>ap_actv_user = 0, ap_flags_by_app = False, ap_filter_pol = ADV_ALLOW_SCAN_ANY_CON_ANY, ap_advType = ADV_TYPE_UNDIRECT,
      ap_advMode = ADV_MODE_LEGACY, ap_discMode = ADV_DISC_MODE_NON_DISC, ap_advInterval = 0,
      ap_advUserInterval = replicate BLE_ADV_USER_NUM 0, ap_advTxPwr = BLE_ADV_TX_POWER_LEVEL_0, ap_advDataLen = 0,
      ap_advData = replicate EXT_ADV_DATA_LEN 0, ap_scanRspDataLen = 0, ap_scanRspData = replicate EXT_ADV_DATA_LEN 0,
      ap_localAddrType = 0, ap_localAddr = empty_addr, ap_peerAddr = \<lparr>ba_addr = empty_addr, ba_type = 0\<rparr>\<rparr>"

type_synonym adv_fill = "adv_param \<Rightarrow> adv_param \<times> (nat \<times> bool) list"

section \<open>The table of the advertising activities\<close>

text \<open>The modules by their numbers: \<open>USER_INUSE = 0\<close>, which marks a free slot, \<open>USER_STUB = 1\<close>, and so on.\<close>

record fill_param =
  fp_adv_interval :: "u32 list"
  fp_adv_user :: "nat list"
  fp_adv_tx_power_level :: tx_power_level

definition ble_adv_fill_param :: "fill_param list" where
  "ble_adv_fill_param =
     [\<lparr>fp_adv_interval = replicate 3 BLE_ADV_INVALID_INTERVAL,
       fp_adv_user = [11, 1, 5, 6, 7, 8, 9] @ replicate 10 0, fp_adv_tx_power_level = BLE_ADV_TX_POWER_LEVEL_0\<rparr>,
      \<lparr>fp_adv_interval = replicate 3 BLE_ADV_INVALID_INTERVAL,
       fp_adv_user = [3, 12, 15] @ replicate 14 0, fp_adv_tx_power_level = BLE_ADV_TX_POWER_LEVEL_0\<rparr>,
      \<lparr>fp_adv_interval = replicate 3 BLE_ADV_INVALID_INTERVAL,
       fp_adv_user = [2, 13, 16] @ replicate 14 0, fp_adv_tx_power_level = BLE_ADV_TX_POWER_LEVEL_1\<rparr>,
      \<lparr>fp_adv_interval = replicate 3 0, fp_adv_user = replicate 17 0, fp_adv_tx_power_level = BLE_ADV_TX_POWER_LEVEL_0\<rparr>]"

text \<open>The first activity from \<open>a\<close> on that has the user.\<close>

fun actv_user_from :: "nat \<Rightarrow> fill_param list \<Rightarrow> nat \<Rightarrow> nat" where
  "actv_user_from a [] user = a"
| "actv_user_from a (p # ps) user = (if user \<in> set (fp_adv_user p) then a else actv_user_from (Suc a) ps user)"

definition app_ble_param_get_actv_user_from_adv_user :: "fill_param list \<Rightarrow> nat \<Rightarrow> nat" where
  "app_ble_param_get_actv_user_from_adv_user tab user = actv_user_from 0 tab user"

definition app_ble_param_get_adv_interval :: "fill_param list \<Rightarrow> nat \<Rightarrow> u32" where
  "app_ble_param_get_adv_interval tab actv_user =
     fold (\<lambda>x acc. if x \<noteq> BLE_ADV_INVALID_INTERVAL \<and> x > acc then x else acc)
       (fp_adv_interval (tab ! actv_user)) BLE_ADV_INVALID_INTERVAL"

definition app_ble_param_get_adv_tx_power_level :: "fill_param list \<Rightarrow> nat \<Rightarrow> tx_power_level" where
  "app_ble_param_get_adv_tx_power_level tab actv_user = fp_adv_tx_power_level (tab ! actv_user)"

definition set_interval :: "nat \<Rightarrow> u32 \<Rightarrow> fill_param \<Rightarrow> fill_param" where
  "set_interval k interval p = p\<lparr>fp_adv_interval := (fp_adv_interval p)[k := interval]\<rparr>"

text \<open>\<open>app_ble_param_set_adv_interval\<close> up to the refresh at its end; \<open>USER_ALL\<close> is 0.\<close>

definition param_set_adv_interval :: "nat \<Rightarrow> nat \<Rightarrow> u32 \<Rightarrow> fill_param list \<Rightarrow> (bool \<times> fill_param list) res" where
  "param_set_adv_interval k user interval tab =
     (if user = 0 then Inr (True, map (set_interval k interval) tab)
      else
        let a = actv_user_from 0 tab user in
        c_assert (a < length tab) (Inr (False, tab[a := set_interval k interval (tab ! a)])))"

section \<open>The state\<close>

datatype ble_action =
    BLE_ACTV_ACTION_IDLE | BLE_ACTV_ACTION_STARTING_ADV | BLE_ACTV_ACTION_STOPPING_ADV
  | BLE_ACTV_ACTION_STARTING_SCAN | BLE_ACTV_ACTION_STOPPING_SCAN | BLE_ACTV_ACTION_CONNECTING
  | BLE_ACTV_ACTION_STOP_CONNECTING | BLE_ACTV_ACTION_DISCONNECTING | BLE_ACTV_ACTION_SET_WHITE_LIST
  | BLE_ACTV_ACTION_ADD_RESLO_LIST

record scan_param =
  sc_scanType :: u8
  sc_scanWindow :: u16
  sc_scanInterval :: u16

datatype init_type = APP_BLE_INIT_TYPE_DIRECT_CONN_EST | APP_BLE_INIT_TYPE_AUTO_CONN_EST | APP_BLE_INIT_TYPE_NAME_DISC

record init_param =
  ip_init_type :: init_type
  ip_conn_to :: u16
  ip_own_addr_type :: u8
  ip_peer_addr :: ble_bdaddr

record init_info =
  ii_pendingConnect :: bool
  ii_init_param :: init_param

record white_list =
  wl_enable :: bool
  wl_size :: u8
  wl_bdaddr :: "ble_bdaddr list"

text \<open>The functions that are posted to the Bluetooth thread.\<close>

datatype posted =
    P_start_adv | P_start_scan | P_stop_scanning | P_start_connect | P_stop_connecting | P_disconnect nat
  | P_set_all_white_list | P_add_resloving_list

text \<open>The calls to the layer below, \<open>app_main/app.c\<close>.\<close>

datatype appm_call =
    C_start_advertising adv_param | C_update_adv_data adv_param | C_stop_advertising u8
  | C_start_scanning scan_param | C_stop_scanning | C_start_connecting init_param | C_stop_connecting | C_disconnect nat
  | C_set_white_list "ble_bdaddr list" | C_set_rpa_list nat

record ble_mode =
  bm_is_busy :: bool
  bm_actv_action :: ble_action
  bm_op_actv_idx :: u8
  bm_disablerBitmap :: u32
  bm_adv_user_register :: u32
  bm_adv_user_enable :: "u32 list"
  bm_bleDataFillFunc :: "adv_fill option list"
  bm_adv_has_pending_op :: bool
  bm_advPendingType :: adv_type
  bm_advPendingDiscmode :: adv_disc_mode
  bm_advertisingPendingMode :: adv_mode
  bm_advPendingPeerAddr :: ble_bdaddr
  bm_advPendingTxpwr :: "u8 list"
  bm_advPendingLocalAddr :: "bd_addr list"
  bm_advCurrentTxpwr :: "u8 list"
  bm_advCurrentInfo :: "adv_param list"
  bm_advParamInfo :: adv_param
  bm_isStartAdvFailbf :: u8
  bm_scan_has_pending_op :: bool
  bm_scan_has_pending_stop_op :: bool
  bm_scanCurrentInfo :: scan_param
  bm_scanPendingInfo :: scan_param
  bm_pending_stop_connecting :: bool
  bm_bleToConnectInfo :: "init_info list"
  bm_pendingDisconnect :: "bool list"
  bm_pending_set_white_list :: bool
  bm_ble_white_list :: "white_list list"
  bm_pending_add_resloving_list :: bool
  bm_resolving_num :: nat
  bm_fill_param :: "fill_param list"
  bm_posted :: "posted list"
  bm_calls :: "appm_call list"

text \<open>What the rest of the firmware answers: the state of the activities in \<open>app_main/app.c\<close> (the index of each
  advertising activity, whether it is started, the same for scanning), and the guards.\<close>

record ble_env =
  be_adv_actv_idx :: "u8 list"
  be_adv_started :: "u8 \<Rightarrow> bool"
  be_scan_actv_idx :: u8
  be_scan_started :: bool
  be_resolving_num :: nat
  be_stack_ready :: bool
  be_power_off :: bool
  be_sco_active :: bool
  be_max_connections :: bool
  be_access_mode :: u8
  be_battery :: u8
  be_bt_addr :: bd_addr
  be_ble_addr :: bd_addr

section \<open>The parameters of an activity\<close>

definition data_fill_enable :: "fill_param list \<Rightarrow> nat \<times> bool \<Rightarrow> u32 list \<Rightarrow> u32 list res" where
  "data_fill_enable tab = (\<lambda>(user, enable) en.
     c_assert (user < BLE_ADV_USER_NUM)
       (let a = app_ble_param_get_actv_user_from_adv_user tab user in
        if a = BLE_ADV_ACTIVITY_USER_NUM then Inr en
        else Inr (en[a := (if enable then en ! a OR push_bit user 1 else en ! a AND NOT (push_bit user 1))])))"

definition app_ble_data_fill_enable :: "nat \<Rightarrow> bool \<Rightarrow> ble_mode \<Rightarrow> ble_mode res" where
  "app_ble_data_fill_enable user enable s =
     bindE (data_fill_enable (bm_fill_param s) (user, enable) (bm_adv_user_enable s)) (\<lambda>en.
     Inr (s\<lparr>bm_adv_user_enable := en\<rparr>))"

definition app_ble_register_data_fill_handle :: "nat \<Rightarrow> adv_fill option \<Rightarrow> ble_mode \<Rightarrow> ble_mode" where
  "app_ble_register_data_fill_handle user f s =
     (let s1 = (if BLE_ADV_USER_NUM \<le> user then s
                else case f of None \<Rightarrow> s
                     | Some g \<Rightarrow> s\<lparr>bm_bleDataFillFunc := (bm_bleDataFillFunc s)[user := Some g]\<rparr>) in
      s1\<lparr>bm_adv_user_register := bm_adv_user_register s1 OR push_bit user 1\<rparr>)"

definition app_ble_is_white_list_enable :: "ble_mode \<Rightarrow> bool" where
  "app_ble_is_white_list_enable s = list_ex wl_enable (bm_ble_white_list s)"

text \<open>The bytes that every advertisement carries.\<close>

definition adv_checksum :: "u8 list \<Rightarrow> u8" where
  "adv_checksum d = fold (\<lambda>i c. c + d ! i) [7..<15] (d ! 7)"

definition cmt_adv_data :: "ble_env \<Rightarrow> u8 list" where
  "cmt_adv_data e =
     (let d = [0x1b, 0xff, 0x1c, 0x52, 0x41, 0xd1, 0, 0x02, be_access_mode e, be_battery e * 10, 0, 0, 0, 0, 0]
            @ be_bt_addr e @ [0] @ replicate 6 0 in
      d[6 := adv_checksum d])"

text \<open>Whether the data fit into a legacy advertisement.\<close>

definition legacy_fits :: "adv_param \<Rightarrow> bool" where
  "legacy_fits p \<longleftrightarrow>
     (ap_advMode p = ADV_MODE_LEGACY \<longrightarrow>
        ap_advDataLen p \<le> (if ap_flags_by_app p then ADV_DATA_LEN else ADV_DATA_LEN - BLE_ADV_FLAG_PART_LEN) \<and>
        ap_scanRspDataLen p \<le> ADV_DATA_LEN)"

text \<open>One slot of the activity: its module changes the parameters and the bits of who wants to advertise.\<close>

definition fill_one ::
  "fill_param list \<Rightarrow> adv_fill option list \<Rightarrow> nat \<Rightarrow> adv_param \<times> u32 list \<Rightarrow> (adv_param \<times> u32 list) res" where
  "fill_one tab hs user = (\<lambda>(p, en).
     if user = 0 then Inr (p, en)
     else case hs ! user of
            None \<Rightarrow> Inr (p, en)
          | Some f \<Rightarrow>
              let (p1, calls) = f p in
              bindE (foldM (data_fill_enable tab) calls en) (\<lambda>en1.
              c_assert (legacy_fits p1) (Inr (p1, en1))))"

text \<open>The least interval that a module asks for, if no scenario asks for one.\<close>

definition least_user_interval :: "u32 \<Rightarrow> u32 list \<Rightarrow> u32" where
  "least_user_interval i xs =
     fold (\<lambda>x acc. if x \<noteq> BLE_ADV_INVALID_INTERVAL \<and> (acc = BLE_ADV_INVALID_INTERVAL \<or> x < acc) then x else acc) xs i"

definition choose_interval :: "adv_param \<Rightarrow> u32" where
  "choose_interval p =
     (let i = (if ap_advInterval p = BLE_ADV_INVALID_INTERVAL then least_user_interval (ap_advInterval p) (ap_advUserInterval p)
               else ap_advInterval p) in
      if i = BLE_ADV_INVALID_INTERVAL then BLE_ADVERTISING_INTERVAL else i)"

definition non_connectable :: "adv_type \<Rightarrow> bool" where
  "non_connectable t \<longleftrightarrow> t = ADV_TYPE_NON_CONN_SCAN \<or> t = ADV_TYPE_NON_CONN_NON_SCAN"

definition config_start :: "ble_env \<Rightarrow> nat \<Rightarrow> ble_mode \<Rightarrow> adv_param" where
  "config_start e u s =
     adv_param_zero
       \<lparr>ap_advType := bm_advPendingType s, ap_advMode := bm_advertisingPendingMode s, ap_discMode := bm_advPendingDiscmode s,
        ap_advTxPwr := app_ble_param_get_adv_tx_power_level (bm_fill_param s) u, ap_flags_by_app := False,
        ap_localAddr := (if bm_advPendingLocalAddr s ! u \<noteq> empty_addr then bm_advPendingLocalAddr s ! u else be_ble_addr e),
        ap_filter_pol := (if app_ble_is_white_list_enable s \<and> be_resolving_num e \<noteq> 0 then ADV_ALLOW_SCAN_WLST_CON_WLST
                          else ADV_ALLOW_SCAN_ANY_CON_ANY),
        ap_advUserInterval := replicate BLE_ADV_USER_NUM BLE_ADV_INVALID_INTERVAL,
        ap_advInterval := app_ble_param_get_adv_interval (bm_fill_param s) u\<rparr>"

definition config_finish :: "ble_env \<Rightarrow> adv_param \<Rightarrow> adv_param" where
  "config_finish e p =
     p\<lparr>ap_advInterval := choose_interval p,
       ap_advType := (if be_max_connections e \<and> \<not> non_connectable (ap_advType p) then ADV_TYPE_NON_CONN_SCAN else ap_advType p),
       ap_advData := cmt_adv_data e @ drop 28 (ap_advData p), ap_advDataLen := 28\<rparr>"

definition ble_adv_config_param :: "ble_env \<Rightarrow> nat \<Rightarrow> ble_mode \<Rightarrow> ble_mode res" where
  "ble_adv_config_param e u s =
     bindE (foldM (fill_one (bm_fill_param s) (bm_bleDataFillFunc s)) (fp_adv_user (bm_fill_param s ! u))
       (config_start e u s, (bm_adv_user_enable s)[u := 0])) (\<lambda>(p, en).
     Inr (s\<lparr>bm_advParamInfo := config_finish e p, bm_adv_user_enable := en\<rparr>))"

definition app_ble_adv_param_is_different :: "adv_param \<Rightarrow> adv_param \<Rightarrow> bool" where
  "app_ble_adv_param_is_different c d \<longleftrightarrow>
     ap_flags_by_app c \<noteq> ap_flags_by_app d \<or> ap_filter_pol c \<noteq> ap_filter_pol d \<or> ap_advType c \<noteq> ap_advType d \<or>
     ap_discMode c \<noteq> ap_discMode d \<or> ap_advInterval c \<noteq> ap_advInterval d \<or> ap_advTxPwr c \<noteq> ap_advTxPwr d \<or>
     ap_advDataLen c \<noteq> ap_advDataLen d \<or> ap_scanRspDataLen c \<noteq> ap_scanRspDataLen d \<or>
     ap_advData c \<noteq> ap_advData d \<or> ap_scanRspData c \<noteq> ap_scanRspData d \<or>
     (ap_advType c = ADV_TYPE_DIRECT_LDC \<or> ap_advType c = ADV_TYPE_DIRECT_HDC) \<and> ap_peerAddr c \<noteq> ap_peerAddr d \<or>
     ap_localAddr c \<noteq> ap_localAddr d"

end
