(* ===== verification/BleMode.thy ===== *)
theory BleMode
  imports BleAdv
begin

unbundle bit_operations_syntax

text \<open>
  The scheduler of the BLE operations, \<open>bthost/service/ble_app/app_main/app_ble_mode_switch.c\<close>. One
  operation runs at a time: a request is posted to the Bluetooth thread if the scheduler is free, and is kept
  as a flag otherwise; when the layer below tells that an operation has ended, the next one that is
  kept is posted. The layer below, \<open>app_main/app.c\<close>, is represented by the calls that it gets, in
  \<open>bm_calls\<close>, and by the calls with which it answers.
\<close>

section \<open>The action in progress\<close>

definition post :: "posted \<Rightarrow> ble_mode \<Rightarrow> ble_mode" where
  "post p s = s\<lparr>bm_posted := bm_posted s @ [p]\<rparr>"

definition appm :: "appm_call \<Rightarrow> ble_mode \<Rightarrow> ble_mode" where
  "appm c s = s\<lparr>bm_calls := bm_calls s @ [c]\<rparr>"

definition ble_set_actv_action :: "ble_action \<Rightarrow> u8 \<Rightarrow> ble_mode \<Rightarrow> ble_mode" where
  "ble_set_actv_action a idx s = s\<lparr>bm_op_actv_idx := idx, bm_actv_action := a\<rparr>"

definition ble_clear_actv_action :: "ble_action \<Rightarrow> u8 \<Rightarrow> ble_mode \<Rightarrow> bool \<times> ble_mode" where
  "ble_clear_actv_action a idx s =
     (if a = bm_actv_action s then
        if bm_actv_action s = BLE_ACTV_ACTION_IDLE then (True, s)
        else if a = BLE_ACTV_ACTION_STOPPING_ADV \<and> bm_op_actv_idx s \<noteq> idx then (False, s)
        else (True, s\<lparr>bm_op_actv_idx := 0xff, bm_actv_action := BLE_ACTV_ACTION_IDLE\<rparr>)
      else (False, s))"

section \<open>The operation after the one that has ended\<close>

definition app_ble_index_pending_to_disconnect :: "ble_mode \<Rightarrow> nat" where
  "app_ble_index_pending_to_disconnect s = length (takeWhile Not (bm_pendingDisconnect s))"

definition app_ble_pending_to_connect :: "ble_mode \<Rightarrow> bool" where
  "app_ble_pending_to_connect s = list_ex ii_pendingConnect (bm_bleToConnectInfo s)"

definition next_pending_op :: "nat \<Rightarrow> ble_mode \<Rightarrow> ble_mode" where
  "next_pending_op index s =
     (if bm_pending_stop_connecting s then post P_stop_connecting (s\<lparr>bm_pending_stop_connecting := False\<rparr>)
      else if index \<noteq> BLE_CONNECTION_MAX then
        post (P_disconnect index) (s\<lparr>bm_pendingDisconnect := (bm_pendingDisconnect s)[index := False]\<rparr>)
      else if bm_pending_set_white_list s then post P_set_all_white_list s
      else if bm_pending_add_resloving_list s then post P_add_resloving_list s
      else if app_ble_pending_to_connect s then post P_start_connect s
      else if bm_scan_has_pending_op s then post P_start_scan (s\<lparr>bm_scan_has_pending_op := False\<rparr>)
      else if bm_scan_has_pending_stop_op s then post P_stop_scanning (s\<lparr>bm_scan_has_pending_stop_op := False\<rparr>)
      else if bm_adv_has_pending_op s then post P_start_adv (s\<lparr>bm_adv_has_pending_op := False\<rparr>)
      else s\<lparr>bm_is_busy := False\<rparr>)"

definition ble_execute_pending_op :: "ble_action \<Rightarrow> u8 \<Rightarrow> ble_mode \<Rightarrow> ble_mode" where
  "ble_execute_pending_op fin idx s =
     (let index = app_ble_index_pending_to_disconnect s; (cleared, s1) = ble_clear_actv_action fin idx s in
      if \<not> cleared then s1 else next_pending_op index s1)"

section \<open>Advertising\<close>

definition ble_adv_is_allowed :: "ble_env \<Rightarrow> ble_mode \<Rightarrow> bool" where
  "ble_adv_is_allowed e s \<longleftrightarrow>
     be_stack_ready e \<and> \<not> be_power_off e \<and> bm_disablerBitmap s = 0 \<and> \<not> be_sco_active e \<and> \<not> be_max_connections e"

definition ble_stop_advertising :: "u8 \<Rightarrow> ble_mode \<Rightarrow> ble_mode" where
  "ble_stop_advertising idx s =
     appm (C_stop_advertising idx) (ble_set_actv_action BLE_ACTV_ACTION_STOPPING_ADV idx s)"

definition set_current :: "adv_param \<Rightarrow> ble_mode \<Rightarrow> ble_mode" where
  "set_current p s =
     ble_set_actv_action BLE_ACTV_ACTION_STARTING_ADV 0xff
       (s\<lparr>bm_advCurrentInfo := (bm_advCurrentInfo s)[ap_actv_user p := p]\<rparr>)"

definition ble_start_adv :: "ble_env \<Rightarrow> adv_param \<Rightarrow> ble_mode \<Rightarrow> ble_mode" where
  "ble_start_adv e p s =
     (if \<not> ble_adv_is_allowed e s then ble_stop_advertising (be_adv_actv_idx e ! ap_actv_user p) s
      else appm (C_start_advertising p) (set_current p s))"

definition adv_is_started :: "ble_env \<Rightarrow> nat \<Rightarrow> bool" where
  "adv_is_started e u \<longleftrightarrow>
     be_adv_actv_idx e ! u \<noteq> INVALID_BLE_ACTIVITY_INDEX \<and> be_adv_started e (be_adv_actv_idx e ! u)"

definition ble_adv_refreshing :: "ble_env \<Rightarrow> adv_param \<Rightarrow> ble_mode \<Rightarrow> ble_mode" where
  "ble_adv_refreshing e p s =
     (let c = bm_advCurrentInfo s ! ap_actv_user p in
      if adv_is_started e (ap_actv_user p) \<and> ap_advType c = ap_advType p \<and> ap_advMode c = ap_advMode p \<and>
         ap_discMode c = ap_discMode p \<and> ap_advInterval c = ap_advInterval p \<and> ap_advTxPwr c = ap_advTxPwr p \<and>
         ap_filter_pol c = ap_filter_pol p \<and> ap_localAddrType c = ap_localAddrType p \<and> ap_localAddr c = ap_localAddr p
      then appm (C_update_adv_data p) (set_current p s)
      else ble_start_adv e p s)"

text \<open>The loop over the activities.\<close>

fun start_adv_from :: "ble_env \<Rightarrow> nat list \<Rightarrow> ble_mode \<Rightarrow> ble_mode res" where
  "start_adv_from e [] s = Inr (ble_execute_pending_op BLE_ACTV_ACTION_IDLE 0xff s)"
| "start_adv_from e (u # us) s =
     (if bit (bm_isStartAdvFailbf s) u then start_adv_from e us s
      else
        bindE (ble_adv_config_param e u s) (\<lambda>s1.
        if bm_adv_user_enable s1 ! u = 0 then
          if adv_is_started e u then Inr (ble_stop_advertising (be_adv_actv_idx e ! u) s1) else start_adv_from e us s1
        else
          let s2 = s1\<lparr>bm_advParamInfo := (bm_advParamInfo s1)\<lparr>ap_actv_user := u\<rparr>\<rparr> in
          if adv_is_started e u \<and> \<not> app_ble_adv_param_is_different (bm_advCurrentInfo s2 ! u) (bm_advParamInfo s2)
          then start_adv_from e us s2
          else Inr (ble_adv_refreshing e (bm_advParamInfo s2) s2)))"

definition app_ble_start_adv :: "ble_env \<Rightarrow> ble_mode \<Rightarrow> ble_mode res" where
  "app_ble_start_adv e s =
     (if \<not> ble_adv_is_allowed e s then
        case filter (\<lambda>idx. idx \<noteq> INVALID_BLE_ACTIVITY_INDEX) (be_adv_actv_idx e) of
          idx # _ \<Rightarrow> Inr (ble_stop_advertising idx s)
        | [] \<Rightarrow> Inr (ble_execute_pending_op BLE_ACTV_ACTION_IDLE 0xff s)
      else start_adv_from e [0..<BLE_ADV_ACTIVITY_USER_NUM] s)"

section \<open>Scanning, connections and lists\<close>

definition ble_start_scan :: "ble_env \<Rightarrow> ble_mode \<Rightarrow> ble_mode" where
  "ble_start_scan e s =
     (if be_scan_actv_idx e \<noteq> INVALID_BLE_ACTIVITY_INDEX \<and> be_scan_started e \<and> bm_scanCurrentInfo s = bm_scanPendingInfo s
      then ble_execute_pending_op BLE_ACTV_ACTION_IDLE 0xff s
      else appm (C_start_scanning (bm_scanPendingInfo s))
             (ble_set_actv_action BLE_ACTV_ACTION_STARTING_SCAN 0xff (s\<lparr>bm_scanCurrentInfo := bm_scanPendingInfo s\<rparr>)))"

definition ble_stop_scanning :: "ble_mode \<Rightarrow> ble_mode" where
  "ble_stop_scanning s = appm C_stop_scanning (ble_set_actv_action BLE_ACTV_ACTION_STOPPING_SCAN 0xff s)"

definition ble_start_connect :: "ble_mode \<Rightarrow> ble_mode res" where
  "ble_start_connect s =
     (let index = length (takeWhile (\<lambda>i. \<not> ii_pendingConnect i) (bm_bleToConnectInfo s)) in
      c_assert (index < length (bm_bleToConnectInfo s))
        (let info = bm_bleToConnectInfo s ! index in
         Inr (appm (C_start_connecting (ii_init_param info))
           (ble_set_actv_action BLE_ACTV_ACTION_CONNECTING 0xff
             (s\<lparr>bm_bleToConnectInfo := (bm_bleToConnectInfo s)[index := info\<lparr>ii_pendingConnect := False\<rparr>]\<rparr>)))))"

definition ble_stop_connecting :: "ble_mode \<Rightarrow> ble_mode" where
  "ble_stop_connecting s = appm C_stop_connecting (ble_set_actv_action BLE_ACTV_ACTION_STOP_CONNECTING 0xff s)"

definition ble_disconnect :: "nat \<Rightarrow> ble_mode \<Rightarrow> ble_mode" where
  "ble_disconnect idx s = appm (C_disconnect idx) (ble_set_actv_action BLE_ACTV_ACTION_DISCONNECTING 0xff s)"

text \<open>The lists of all users, one after the other, in an array of eight.\<close>

definition gather_white_list :: "ble_mode \<Rightarrow> ble_bdaddr list res" where
  "gather_white_list s =
     foldM (\<lambda>w acc. if wl_enable w
                   then if length acc + unat (wl_size w) \<le> 8 then Inr (acc @ take (unat (wl_size w)) (wl_bdaddr w))
                        else Inl Mem_Fault
                   else Inr acc) (bm_ble_white_list s) []"

definition set_all_white_list :: "ble_mode \<Rightarrow> ble_mode res" where
  "set_all_white_list s =
     bindE (gather_white_list s) (\<lambda>addrs.
     Inr (appm (C_set_white_list addrs)
       (ble_set_actv_action BLE_ACTV_ACTION_SET_WHITE_LIST 0xff (s\<lparr>bm_pending_set_white_list := False\<rparr>))))"

definition add_resloving_list :: "ble_mode \<Rightarrow> ble_mode" where
  "add_resloving_list s =
     appm (C_set_rpa_list (bm_resolving_num s))
       (ble_set_actv_action BLE_ACTV_ACTION_ADD_RESLO_LIST 0xff (s\<lparr>bm_pending_add_resloving_list := False\<rparr>))"

text \<open>The thread carries out what was posted.\<close>

fun run_op :: "ble_env \<Rightarrow> posted \<Rightarrow> ble_mode \<Rightarrow> ble_mode res" where
  "run_op e P_start_adv s = app_ble_start_adv e s"
| "run_op e P_start_scan s = Inr (ble_start_scan e s)"
| "run_op e P_stop_scanning s = Inr (ble_stop_scanning s)"
| "run_op e P_start_connect s = ble_start_connect s"
| "run_op e P_stop_connecting s = Inr (ble_stop_connecting s)"
| "run_op e (P_disconnect idx) s = Inr (ble_disconnect idx s)"
| "run_op e P_set_all_white_list s = set_all_white_list s"
| "run_op e P_add_resloving_list s = Inr (add_resloving_list s)"

section \<open>Requests\<close>

text \<open>\<open>if (ble_is_busy) pending = true; else { ble_is_busy = true; post; }\<close>\<close>

definition request :: "posted \<Rightarrow> (ble_mode \<Rightarrow> ble_mode) \<Rightarrow> ble_mode \<Rightarrow> ble_mode" where
  "request p keep s = (if bm_is_busy s then keep s else post p (s\<lparr>bm_is_busy := True\<rparr>))"

definition app_ble_refresh_adv_state :: "ble_mode \<Rightarrow> ble_mode" where
  "app_ble_refresh_adv_state s = request P_start_adv (\<lambda>t. t\<lparr>bm_adv_has_pending_op := True\<rparr>) s"

definition app_ble_start_connectable_adv :: "ble_mode \<Rightarrow> ble_mode" where
  "app_ble_start_connectable_adv s = request P_start_adv (\<lambda>t. t\<lparr>bm_adv_has_pending_op := True\<rparr>) s"

definition app_ble_set_adv_type :: "adv_type \<Rightarrow> ble_bdaddr \<Rightarrow> ble_mode \<Rightarrow> ble_mode" where
  "app_ble_set_adv_type t peer s =
     (let s1 = s\<lparr>bm_advPendingType := t\<rparr>;
          s2 = (if t = ADV_TYPE_DIRECT_LDC \<or> t = ADV_TYPE_DIRECT_HDC then s1\<lparr>bm_advPendingPeerAddr := peer\<rparr> else s1) in
      app_ble_refresh_adv_state s2)"

definition app_ble_set_adv_disc_mode :: "adv_disc_mode \<Rightarrow> ble_mode \<Rightarrow> ble_mode" where
  "app_ble_set_adv_disc_mode m s = s\<lparr>bm_advPendingDiscmode := m\<rparr>"

definition app_ble_param_set_adv_interval :: "nat \<Rightarrow> nat \<Rightarrow> u32 \<Rightarrow> ble_mode \<Rightarrow> ble_mode res" where
  "app_ble_param_set_adv_interval k user interval s =
     bindE (param_set_adv_interval k user interval (bm_fill_param s)) (\<lambda>(refresh, tab).
     let s1 = s\<lparr>bm_fill_param := tab\<rparr> in
     Inr (if refresh then app_ble_refresh_adv_state s1 else s1))"

definition app_ble_set_adv_txpwr_by_actv_user :: "ble_env \<Rightarrow> nat \<Rightarrow> u8 \<Rightarrow> ble_mode \<Rightarrow> ble_mode res" where
  "app_ble_set_adv_txpwr_by_actv_user e u dbm s =
     c_assert (u < BLE_ADV_ACTIVITY_USER_NUM)
       (let s1 = s\<lparr>bm_advPendingTxpwr := (bm_advPendingTxpwr s)[u := dbm]\<rparr> in
        Inr (if be_adv_actv_idx e ! u \<noteq> INVALID_BLE_ACTIVITY_INDEX \<and> dbm \<noteq> bm_advCurrentTxpwr s1 ! u
             then s1\<lparr>bm_advCurrentTxpwr := (bm_advCurrentTxpwr s1)[u := dbm]\<rparr> else s1))"

definition app_ble_set_adv_txpwr_by_adv_user :: "ble_env \<Rightarrow> nat \<Rightarrow> u8 \<Rightarrow> ble_mode \<Rightarrow> ble_mode res" where
  "app_ble_set_adv_txpwr_by_adv_user e user dbm s =
     c_assert (user < BLE_ADV_USER_NUM)
       (let a = app_ble_param_get_actv_user_from_adv_user (bm_fill_param s) user in
        if a = BLE_ADV_ACTIVITY_USER_NUM then Inr s else app_ble_set_adv_txpwr_by_actv_user e a dbm s)"

definition app_ble_set_all_adv_txpwr :: "ble_env \<Rightarrow> u8 \<Rightarrow> ble_mode \<Rightarrow> ble_mode res" where
  "app_ble_set_all_adv_txpwr e dbm s =
     foldM (\<lambda>u. app_ble_set_adv_txpwr_by_actv_user e u dbm) [0..<BLE_ADV_ACTIVITY_USER_NUM] s"

definition app_ble_set_adv_local_addr_by_actv_user :: "nat \<Rightarrow> bd_addr \<Rightarrow> ble_mode \<Rightarrow> ble_mode res" where
  "app_ble_set_adv_local_addr_by_actv_user u addr s =
     c_assert (u < BLE_ADV_ACTIVITY_USER_NUM) (Inr (s\<lparr>bm_advPendingLocalAddr := (bm_advPendingLocalAddr s)[u := addr]\<rparr>))"

definition app_ble_set_adv_local_addr_by_adv_user :: "nat \<Rightarrow> bd_addr \<Rightarrow> ble_mode \<Rightarrow> ble_mode res" where
  "app_ble_set_adv_local_addr_by_adv_user user addr s =
     c_assert (user < BLE_ADV_USER_NUM)
       (let a = app_ble_param_get_actv_user_from_adv_user (bm_fill_param s) user in
        if a = BLE_ADV_ACTIVITY_USER_NUM then Inr s else app_ble_set_adv_local_addr_by_actv_user a addr s)"

definition app_ble_start_scan :: "scan_param \<Rightarrow> ble_mode \<Rightarrow> ble_mode" where
  "app_ble_start_scan p s =
     request P_start_scan (\<lambda>t. t\<lparr>bm_scan_has_pending_op := True\<rparr>) (s\<lparr>bm_scanPendingInfo := p\<rparr>)"

definition app_ble_stop_scan :: "ble_mode \<Rightarrow> ble_mode" where
  "app_ble_stop_scan s = request P_stop_scanning (\<lambda>t. t\<lparr>bm_scan_has_pending_stop_op := True\<rparr>) s"

definition app_ble_cancel_connecting :: "ble_mode \<Rightarrow> ble_mode" where
  "app_ble_cancel_connecting s = request P_stop_connecting (\<lambda>t. t\<lparr>bm_pending_stop_connecting := True\<rparr>) s"

text \<open>A connection to the same peer that is kept already is not kept twice. Without a peer (\<open>NULL\<close>) the address of the
  slot stays.\<close>

definition app_ble_start_connect_with_init_type :: "init_type \<Rightarrow> ble_bdaddr \<Rightarrow> u8 \<Rightarrow> u16 \<Rightarrow> ble_mode \<Rightarrow> ble_mode res" where
  "app_ble_start_connect_with_init_type t peer own conn_to s =
     (let infos = bm_bleToConnectInfo s; index = length (takeWhile ii_pendingConnect infos) in
      if t = APP_BLE_INIT_TYPE_DIRECT_CONN_EST \<and>
         list_ex (\<lambda>i. ii_pendingConnect i \<and> ip_peer_addr (ii_init_param i) = peer) infos
      then Inr s
      else
        c_assert (index < length infos)
          (let old = ip_peer_addr (ii_init_param (infos ! index));
               info = \<lparr>ii_pendingConnect = True,
                 ii_init_param = \<lparr>ip_init_type = t, ip_conn_to = conn_to, ip_own_addr_type = own,
                   ip_peer_addr = (if t = APP_BLE_INIT_TYPE_DIRECT_CONN_EST then peer else old)\<rparr>\<rparr>;
               s1 = s\<lparr>bm_bleToConnectInfo := infos[index := info]\<rparr> in
           Inr (request P_start_connect (\<lambda>t. t) s1)))"

definition app_ble_start_connect :: "ble_bdaddr \<Rightarrow> u8 \<Rightarrow> ble_mode \<Rightarrow> ble_mode res" where
  "app_ble_start_connect peer own s = app_ble_start_connect_with_init_type APP_BLE_INIT_TYPE_DIRECT_CONN_EST peer own 0 s"

definition app_ble_start_disconnect :: "nat \<Rightarrow> ble_mode \<Rightarrow> ble_mode res" where
  "app_ble_start_disconnect idx s =
     (if \<not> bm_is_busy s then Inr (post (P_disconnect idx) (s\<lparr>bm_is_busy := True\<rparr>))
      else if idx < length (bm_pendingDisconnect s)
      then Inr (s\<lparr>bm_pendingDisconnect := (bm_pendingDisconnect s)[idx := True]\<rparr>) else Inl Mem_Fault)"

definition app_ble_disconnect_all :: "ble_mode \<Rightarrow> ble_mode res" where
  "app_ble_disconnect_all s =
     foldM (\<lambda>index t. app_ble_start_disconnect index
         (t\<lparr>bm_bleToConnectInfo := (bm_bleToConnectInfo t)[index := (bm_bleToConnectInfo t ! index)\<lparr>ii_pendingConnect := False\<rparr>]\<rparr>))
       [0..<BLE_CONNECTION_MAX] s"

definition app_ble_force_switch_adv :: "nat \<Rightarrow> bool \<Rightarrow> ble_mode \<Rightarrow> ble_mode res" where
  "app_ble_force_switch_adv user enable s =
     c_assert (user < 8)
       (Inr (app_ble_refresh_adv_state
         (s\<lparr>bm_disablerBitmap := (if \<not> enable then bm_disablerBitmap s OR push_bit user 1
                                 else bm_disablerBitmap s AND NOT (push_bit user 1))\<rparr>)))"

definition app_ble_set_all_white_list :: "ble_mode \<Rightarrow> ble_mode" where
  "app_ble_set_all_white_list s = request P_set_all_white_list (\<lambda>t. t\<lparr>bm_pending_set_white_list := True\<rparr>) s"

definition app_ble_set_white_list :: "nat \<Rightarrow> ble_bdaddr list \<Rightarrow> u8 \<Rightarrow> ble_mode \<Rightarrow> ble_mode res" where
  "app_ble_set_white_list user addrs size0 s =
     (let n = (if of_nat WHITE_LIST_MAX_NUM < size0 then of_nat WHITE_LIST_MAX_NUM else size0) in
      if user < length (bm_ble_white_list s) \<and> unat n \<le> length addrs then
        let w = bm_ble_white_list s ! user in
        Inr (app_ble_set_all_white_list (s\<lparr>bm_ble_white_list := (bm_ble_white_list s)
          [user := \<lparr>wl_enable = True, wl_size = n,
             wl_bdaddr = take (unat n) addrs @ drop (unat n) (wl_bdaddr w)\<rparr>]\<rparr>))
      else Inl Mem_Fault)"

definition no_white_list :: white_list where
  "no_white_list = \<lparr>wl_enable = False, wl_size = 0, wl_bdaddr = replicate WHITE_LIST_MAX_NUM \<lparr>ba_addr = empty_addr, ba_type = 0\<rparr>\<rparr>"

definition app_ble_clear_white_list :: "nat \<Rightarrow> ble_mode \<Rightarrow> ble_mode" where
  "app_ble_clear_white_list user s =
     app_ble_set_all_white_list (s\<lparr>bm_ble_white_list := (bm_ble_white_list s)[user := no_white_list]\<rparr>)"

definition app_ble_clear_all_white_list :: "ble_mode \<Rightarrow> ble_mode" where
  "app_ble_clear_all_white_list s =
     app_ble_set_all_white_list (s\<lparr>bm_ble_white_list := replicate BLE_WHITE_LIST_USER_NUM no_white_list\<rparr>)"

definition app_ble_start_connect_with_white_list :: "ble_bdaddr list \<Rightarrow> u8 \<Rightarrow> u8 \<Rightarrow> u16 \<Rightarrow> ble_mode \<Rightarrow> ble_mode res" where
  "app_ble_start_connect_with_white_list addrs size0 own conn_to s =
     bindE (app_ble_set_white_list 1 addrs size0 s) (\<lambda>s1.
     app_ble_start_connect_with_init_type APP_BLE_INIT_TYPE_AUTO_CONN_EST \<lparr>ba_addr = empty_addr, ba_type = 0\<rparr> own conn_to s1)"

text \<open>Of the devices only the number is kept in the model.\<close>

definition app_ble_add_resloving_list :: "nat \<Rightarrow> ble_mode \<Rightarrow> ble_mode" where
  "app_ble_add_resloving_list n s =
     (if n = 0 then s
      else request P_add_resloving_list (\<lambda>t. t\<lparr>bm_pending_add_resloving_list := True\<rparr>) (s\<lparr>bm_resolving_num := min n 8\<rparr>))"

section \<open>What the layer below tells\<close>

definition app_ble_get_adv_user_from_activity_index :: "ble_env \<Rightarrow> u8 \<Rightarrow> nat" where
  "app_ble_get_adv_user_from_activity_index e idx = length (takeWhile (\<lambda>i. i \<noteq> idx) (be_adv_actv_idx e))"

definition app_advertising_started :: "ble_env \<Rightarrow> u8 \<Rightarrow> ble_mode \<Rightarrow> ble_mode res" where
  "app_advertising_started e idx s =
     (let u = app_ble_get_adv_user_from_activity_index e idx in
      bindE (if u \<noteq> BLE_ADV_ACTIVITY_USER_NUM \<and> bm_advCurrentTxpwr s ! u \<noteq> bm_advPendingTxpwr s ! u
             then app_ble_set_adv_txpwr_by_actv_user e u (bm_advPendingTxpwr s ! u) s else Inr s) (\<lambda>s1.
      Inr (app_ble_refresh_adv_state s1)))"

definition app_advertising_stopped :: "ble_env \<Rightarrow> u8 \<Rightarrow> ble_mode \<Rightarrow> ble_mode" where
  "app_advertising_stopped e idx s =
     (let u = app_ble_get_adv_user_from_activity_index e idx;
          s1 = (if \<not> bit (bm_isStartAdvFailbf s) u then s\<lparr>bm_isStartAdvFailbf := 0\<rparr> else s);
          s2 = (if u \<noteq> BLE_ADV_ACTIVITY_USER_NUM
                then s1\<lparr>bm_advCurrentTxpwr := (bm_advCurrentTxpwr s1)[u := BLE_ADV_INVALID_TXPWR]\<rparr> else s1) in
      app_ble_refresh_adv_state s2)"

definition app_advertising_starting_failed :: "ble_env \<Rightarrow> u8 \<Rightarrow> ble_mode \<Rightarrow> ble_mode" where
  "app_advertising_starting_failed e idx s =
     (let s1 = ble_set_actv_action BLE_ACTV_ACTION_STOPPING_ADV idx s in
      s1\<lparr>bm_isStartAdvFailbf :=
           bm_isStartAdvFailbf s1 OR push_bit (app_ble_get_adv_user_from_activity_index e idx) 1\<rparr>)"

definition app_ble_disconnected_evt_handler :: "ble_mode \<Rightarrow> ble_mode" where
  "app_ble_disconnected_evt_handler s =
     (ble_execute_pending_op BLE_ACTV_ACTION_DISCONNECTING 0xff s)\<lparr>bm_isStartAdvFailbf := 0\<rparr>"

definition app_ble_set_white_list_complete :: "ble_mode \<Rightarrow> ble_mode" where
  "app_ble_set_white_list_complete s =
     app_ble_refresh_adv_state (ble_execute_pending_op BLE_ACTV_ACTION_SET_WHITE_LIST 0xff s)"

definition app_ble_set_resolving_list_complete :: "ble_mode \<Rightarrow> ble_mode" where
  "app_ble_set_resolving_list_complete s =
     app_ble_refresh_adv_state (ble_execute_pending_op BLE_ACTV_ACTION_ADD_RESLO_LIST 0xff s)"

section \<open>Power-on\<close>

definition no_init_info :: init_info where
  "no_init_info = \<lparr>ii_pendingConnect = False, ii_init_param = \<lparr>ip_init_type = APP_BLE_INIT_TYPE_DIRECT_CONN_EST, ip_conn_to = 0,
     ip_own_addr_type = 0, ip_peer_addr = \<lparr>ba_addr = empty_addr, ba_type = 0\<rparr>\<rparr>\<rparr>"

definition app_ble_mode_init :: ble_mode where
  "app_ble_mode_init =
     \<lparr>bm_is_busy = False, bm_actv_action = BLE_ACTV_ACTION_IDLE, bm_op_actv_idx = 0, bm_disablerBitmap = 0,
      bm_adv_user_register = 0, bm_adv_user_enable = replicate BLE_ADV_ACTIVITY_USER_NUM 0,
      bm_bleDataFillFunc = replicate BLE_ADV_USER_NUM None, bm_adv_has_pending_op = False,
      bm_advPendingType = ADV_TYPE_UNDIRECT, bm_advPendingDiscmode = ADV_DISC_MODE_GEN_DISC,
      bm_advertisingPendingMode = ADV_MODE_LEGACY, bm_advPendingPeerAddr = \<lparr>ba_addr = empty_addr, ba_type = 0\<rparr>,
      bm_advPendingTxpwr = replicate BLE_ADV_ACTIVITY_USER_NUM BLE_ADV_INVALID_TXPWR,
      bm_advPendingLocalAddr = replicate BLE_ADV_ACTIVITY_USER_NUM empty_addr,
      bm_advCurrentTxpwr = replicate BLE_ADV_ACTIVITY_USER_NUM BLE_ADV_INVALID_TXPWR,
      bm_advCurrentInfo = replicate BLE_ADV_ACTIVITY_USER_NUM adv_param_zero, bm_advParamInfo = adv_param_zero,
      bm_isStartAdvFailbf = 0, bm_scan_has_pending_op = False, bm_scan_has_pending_stop_op = False,
      bm_scanCurrentInfo = \<lparr>sc_scanType = 0, sc_scanWindow = 0, sc_scanInterval = 0\<rparr>,
      bm_scanPendingInfo = \<lparr>sc_scanType = 0, sc_scanWindow = 0, sc_scanInterval = 0\<rparr>,
      bm_pending_stop_connecting = False, bm_bleToConnectInfo = replicate BLE_CONNECTION_MAX no_init_info,
      bm_pendingDisconnect = replicate BLE_CONNECTION_MAX False, bm_pending_set_white_list = False,
      bm_ble_white_list = replicate BLE_WHITE_LIST_USER_NUM no_white_list, bm_pending_add_resloving_list = False,
      bm_resolving_num = 0, bm_fill_param = ble_adv_fill_param, bm_posted = [], bm_calls = []\<rparr>"

end
