(* ===== verification/BleModeInv.thy ===== *)
theory BleModeInv
  imports BleMode
begin

text \<open>
  The scheduler of \<open>bthost/service/ble_app/app_main/app_ble_mode_switch.c\<close> at work: its steps are the
  requests of modules, the thread that carries out what was posted, and what the layer below tells. One
  operation is in progress at a time in every state that can be reached, and what is kept is served.
\<close>

section \<open>Steps\<close>

datatype ble_call =
    Refresh_Adv
  | Set_Adv_Type adv_type ble_bdaddr
  | Set_Disc_Mode adv_disc_mode
  | Set_Interval nat nat u32
  | Fill_Enable nat bool
  | Register_Fill nat "adv_fill option"
  | Set_Txpwr nat u8
  | Set_All_Txpwr u8
  | Set_Local_Addr nat bd_addr
  | Start_Scan scan_param
  | Stop_Scan
  | Cancel_Connecting
  | Connect init_type ble_bdaddr u8 u16
  | Connect_White_List "ble_bdaddr list" u8 u8 u16
  | Disconnect nat
  | Disconnect_All
  | Force_Switch_Adv nat bool
  | White_List nat "ble_bdaddr list" u8
  | Clear_White_List nat
  | Clear_All_White_List
  | Resolving_List nat

fun ble_exec :: "ble_env \<Rightarrow> ble_call \<Rightarrow> ble_mode \<Rightarrow> ble_mode res" where
  "ble_exec e Refresh_Adv s = Inr (app_ble_refresh_adv_state s)"
| "ble_exec e (Set_Adv_Type t peer) s = Inr (app_ble_set_adv_type t peer s)"
| "ble_exec e (Set_Disc_Mode m) s = Inr (app_ble_set_adv_disc_mode m s)"
| "ble_exec e (Set_Interval k user i) s = app_ble_param_set_adv_interval k user i s"
| "ble_exec e (Fill_Enable user b) s = app_ble_data_fill_enable user b s"
| "ble_exec e (Register_Fill user f) s = Inr (app_ble_register_data_fill_handle user f s)"
| "ble_exec e (Set_Txpwr user dbm) s = app_ble_set_adv_txpwr_by_adv_user e user dbm s"
| "ble_exec e (Set_All_Txpwr dbm) s = app_ble_set_all_adv_txpwr e dbm s"
| "ble_exec e (Set_Local_Addr user a) s = app_ble_set_adv_local_addr_by_adv_user user a s"
| "ble_exec e (Start_Scan p) s = Inr (app_ble_start_scan p s)"
| "ble_exec e Stop_Scan s = Inr (app_ble_stop_scan s)"
| "ble_exec e Cancel_Connecting s = Inr (app_ble_cancel_connecting s)"
| "ble_exec e (Connect t peer own conn_to) s = app_ble_start_connect_with_init_type t peer own conn_to s"
| "ble_exec e (Connect_White_List addrs n own conn_to) s = app_ble_start_connect_with_white_list addrs n own conn_to s"
| "ble_exec e (Disconnect i) s = app_ble_start_disconnect i s"
| "ble_exec e Disconnect_All s = app_ble_disconnect_all s"
| "ble_exec e (Force_Switch_Adv user b) s = app_ble_force_switch_adv user b s"
| "ble_exec e (White_List user addrs n) s = app_ble_set_white_list user addrs n s"
| "ble_exec e (Clear_White_List user) s = Inr (app_ble_clear_white_list user s)"
| "ble_exec e Clear_All_White_List s = Inr (app_ble_clear_all_white_list s)"
| "ble_exec e (Resolving_List n) s = Inr (app_ble_add_resloving_list n s)"

text \<open>The layer below ends an action by its name, never \<open>BLE_ACTV_ACTION_IDLE\<close>; it reports that advertising
  could not be started while this is the action in progress.\<close>

inductive ble_step :: "ble_mode \<Rightarrow> ble_mode \<Rightarrow> bool" where
  Call: "ble_exec e c s = Inr s' \<Longrightarrow> ble_step s s'"
| Run: "bm_posted s = p # ps \<Longrightarrow> run_op e p (s\<lparr>bm_posted := ps\<rparr>) = Inr s' \<Longrightarrow> ble_step s s'"
| Done: "a \<noteq> BLE_ACTV_ACTION_IDLE \<Longrightarrow> ble_step s (ble_execute_pending_op a idx s)"
| Adv_Started: "app_advertising_started e idx s = Inr s' \<Longrightarrow> ble_step s s'"
| Adv_Stopped: "ble_step s (app_advertising_stopped e idx s)"
| Adv_Failed: "bm_actv_action s = BLE_ACTV_ACTION_STARTING_ADV \<Longrightarrow> ble_step s (app_advertising_starting_failed e idx s)"
| Link_Lost: "ble_step s (app_ble_disconnected_evt_handler s)"
| White_List_Set: "ble_step s (app_ble_set_white_list_complete s)"
| Resolving_Set: "ble_step s (app_ble_set_resolving_list_complete s)"

inductive ble_reach :: "ble_mode \<Rightarrow> bool" where
  Init: "ble_reach app_ble_mode_init"
| Step: "ble_reach s \<Longrightarrow> ble_step s s' \<Longrightarrow> ble_reach s'"

section \<open>The invariant\<close>

definition nothing_kept :: "ble_mode \<Rightarrow> bool" where
  "nothing_kept s \<longleftrightarrow>
     \<not> bm_adv_has_pending_op s \<and> \<not> bm_scan_has_pending_op s \<and> \<not> bm_scan_has_pending_stop_op s \<and>
     \<not> bm_pending_stop_connecting s \<and> \<not> bm_pending_set_white_list s \<and> \<not> bm_pending_add_resloving_list s \<and>
     True \<notin> set (bm_pendingDisconnect s) \<and> \<not> app_ble_pending_to_connect s"

definition sizes_ok :: "ble_mode \<Rightarrow> bool" where
  "sizes_ok s \<longleftrightarrow> length (bm_pendingDisconnect s) = BLE_CONNECTION_MAX \<and> length (bm_bleToConnectInfo s) = BLE_CONNECTION_MAX"

definition one_op :: "ble_mode \<Rightarrow> bool" where
  "one_op s \<longleftrightarrow>
     (if bm_is_busy s
      then bm_actv_action s = BLE_ACTV_ACTION_IDLE \<and> length (bm_posted s) = 1 \<or>
           bm_actv_action s \<noteq> BLE_ACTV_ACTION_IDLE \<and> bm_posted s = []
      else bm_actv_action s = BLE_ACTV_ACTION_IDLE \<and> bm_posted s = [] \<and> nothing_kept s)"

definition ble_inv :: "ble_mode \<Rightarrow> bool" where
  "ble_inv s \<longleftrightarrow> sizes_ok s \<and> one_op s"

text \<open>Between two operations: the scheduler is taken, but nothing is posted or in progress.\<close>

definition between :: "ble_mode \<Rightarrow> bool" where
  "between s \<longleftrightarrow> sizes_ok s \<and> bm_is_busy s \<and> bm_actv_action s = BLE_ACTV_ACTION_IDLE \<and> bm_posted s = []"

lemmas ble_defs = ble_inv_def sizes_ok_def one_op_def nothing_kept_def app_ble_pending_to_connect_def

lemma takeWhile_length: "length (takeWhile Not xs) \<noteq> length xs \<Longrightarrow> True \<in> set xs \<and> xs ! length (takeWhile Not xs)"
  "length (takeWhile Not xs) = length xs \<Longrightarrow> True \<notin> set xs"
proof -
  show "length (takeWhile Not xs) \<noteq> length xs \<Longrightarrow> True \<in> set xs \<and> xs ! length (takeWhile Not xs)"
    by (induction xs) auto
  show "length (takeWhile Not xs) = length xs \<Longrightarrow> True \<notin> set xs"
    by (induction xs) (auto split: if_splits)
qed

lemma next_inv:
  assumes "between s"
  shows "ble_inv (next_pending_op (app_ble_index_pending_to_disconnect s) s)"
proof -
  have "app_ble_index_pending_to_disconnect s = BLE_CONNECTION_MAX \<Longrightarrow> True \<notin> set (bm_pendingDisconnect s)"
    using takeWhile_length(2) [of "bm_pendingDisconnect s"] assms
    by (simp add: app_ble_index_pending_to_disconnect_def between_def sizes_ok_def)
  with assms show ?thesis
    by (auto simp: next_pending_op_def between_def ble_defs post_def)
qed

lemma execute_inv [inv_intros]:
  assumes "ble_inv s" and "a \<noteq> BLE_ACTV_ACTION_IDLE"
  shows "ble_inv (ble_execute_pending_op a idx s)"
proof (cases "fst (ble_clear_actv_action a idx s)")
  case True
  let ?t = "s\<lparr>bm_op_actv_idx := 0xff, bm_actv_action := BLE_ACTV_ACTION_IDLE\<rparr>"
  from True assms(2) have a: "bm_actv_action s = a" "ble_clear_actv_action a idx s = (True, ?t)"
    by (auto simp: ble_clear_actv_action_def split: if_splits)
  have "between ?t" using assms a by (auto simp: between_def ble_defs split: if_splits)
  moreover have "app_ble_index_pending_to_disconnect ?t = app_ble_index_pending_to_disconnect s"
    by (simp add: app_ble_index_pending_to_disconnect_def)
  ultimately show ?thesis using next_inv [of ?t] a by (simp add: ble_execute_pending_op_def Let_def)
next
  case False
  then have "ble_clear_actv_action a idx s = (False, s)" by (auto simp: ble_clear_actv_action_def split: if_splits)
  with assms show ?thesis by (simp add: ble_execute_pending_op_def Let_def)
qed

lemma execute_idle: "bm_actv_action s = BLE_ACTV_ACTION_IDLE \<Longrightarrow>
    ble_execute_pending_op BLE_ACTV_ACTION_IDLE idx s = next_pending_op (app_ble_index_pending_to_disconnect s) s"
  by (simp add: ble_execute_pending_op_def ble_clear_actv_action_def Let_def)

text \<open>An operation that calls the layer below.\<close>

lemma called_inv:
  assumes "between s" and "a \<noteq> BLE_ACTV_ACTION_IDLE"
  shows "ble_inv (appm c (ble_set_actv_action a idx s))"
  using assms by (simp add: between_def ble_defs appm_def ble_set_actv_action_def)

section \<open>The operations of the thread\<close>

text \<open>What a run of the advertising operation can come to.\<close>

definition carries :: "ble_env \<Rightarrow> adv_param \<Rightarrow> bool" where
  "carries e p \<longleftrightarrow> ap_advDataLen p = 28 \<and> (\<exists>rest. ap_advData p = cmt_adv_data e @ rest)"

lemma config_frame: "ble_adv_config_param e u s = Inr t \<Longrightarrow>
    \<exists>i en. t = s\<lparr>bm_advParamInfo := i, bm_adv_user_enable := en\<rparr> \<and> carries e i"
  by (auto simp: ble_adv_config_param_def config_finish_def carries_def)

text \<open>Advertising of an activity \<open>u\<close> is stopped, or it is started or refreshed.\<close>

definition configured :: "ble_env \<Rightarrow> nat \<Rightarrow> ble_mode \<Rightarrow> adv_param \<Rightarrow> bool" where
  "configured e u s p \<longleftrightarrow>
     (\<exists>s0 t0. ble_adv_config_param e u s0 = Inr t0 \<and> bm_bleDataFillFunc s0 = bm_bleDataFillFunc s \<and>
              bm_fill_param s0 = bm_fill_param s \<and> p = (bm_advParamInfo t0)\<lparr>ap_actv_user := u\<rparr>)"

definition adv_result :: "ble_env \<Rightarrow> nat \<Rightarrow> ble_mode \<Rightarrow> ble_mode \<Rightarrow> bool" where
  "adv_result e u s t \<longleftrightarrow>
     adv_is_started e u \<and> t = ble_stop_advertising (be_adv_actv_idx e ! u) s \<or>
     (\<exists>p. t = ble_adv_refreshing e p s \<and> ap_actv_user p = u \<and> carries e p \<and> configured e u s p \<and>
          \<not> bit (bm_isStartAdvFailbf s) u \<and> bm_adv_user_enable s ! u \<noteq> 0)"

lemma start_adv_cases:
  assumes "start_adv_from e us s = Inr t"
  shows "\<exists>i en. let x = s\<lparr>bm_advParamInfo := i, bm_adv_user_enable := en\<rparr> in
    t = ble_execute_pending_op BLE_ACTV_ACTION_IDLE 0xff x \<or> (\<exists>u \<in> set us. adv_result e u x t)"
  using assms
proof (induction us arbitrary: s)
  case Nil
  then show ?case by (intro exI [of _ "bm_advParamInfo s"] exI [of _ "bm_adv_user_enable s"]) simp
next
  case (Cons u us)
  show ?case
  proof (cases "bit (bm_isStartAdvFailbf s) u")
    case True
    with Cons.prems Cons.IH [of s] show ?thesis by (auto simp: Let_def)
  next
    case False
    with Cons.prems obtain s1 where c: "ble_adv_config_param e u s = Inr s1" by auto
    from config_frame [OF c] obtain i en where
      s1: "s1 = s\<lparr>bm_advParamInfo := i, bm_adv_user_enable := en\<rparr>" and i: "carries e i" by blast
    define s2 where "s2 = s1\<lparr>bm_advParamInfo := (bm_advParamInfo s1)\<lparr>ap_actv_user := u\<rparr>\<rparr>"
    have s2: "s2 = s\<lparr>bm_advParamInfo := i\<lparr>ap_actv_user := u\<rparr>, bm_adv_user_enable := en\<rparr>" unfolding s1 s2_def by simp
    have ih: ?thesis if "start_adv_from e us (s\<lparr>bm_advParamInfo := j, bm_adv_user_enable := en\<rparr>) = Inr t" for j
      using Cons.IH [OF that] by (auto simp: Let_def)
    have "start_adv_from e (u # us) s =
        (if bm_adv_user_enable s1 ! u = 0 then
           if adv_is_started e u then Inr (ble_stop_advertising (be_adv_actv_idx e ! u) s1) else start_adv_from e us s1
         else if adv_is_started e u \<and> \<not> app_ble_adv_param_is_different (bm_advCurrentInfo s2 ! u) (bm_advParamInfo s2)
              then start_adv_from e us s2 else Inr (ble_adv_refreshing e (bm_advParamInfo s2) s2))"
      by (simp only: start_adv_from.simps False if_False c bindE.simps Let_def s2_def)
    from Cons.prems [unfolded this] consider
        "t = ble_stop_advertising (be_adv_actv_idx e ! u) s1" "adv_is_started e u" | "start_adv_from e us s1 = Inr t" |
        "start_adv_from e us s2 = Inr t" |
        "t = ble_adv_refreshing e (bm_advParamInfo s2) s2" "bm_adv_user_enable s1 ! u \<noteq> 0"
      by (metis (full_types) sum.inject(2))
    then show ?thesis
    proof cases
      case 1
      then have "adv_result e u s1 t" by (simp add: adv_result_def)
      then show ?thesis unfolding s1 by (auto simp: Let_def)
    next
      case 4
      have "configured e u s2 (bm_advParamInfo s2)"
        unfolding configured_def by (intro exI [of _ s] exI [of _ s1]) (simp add: c s2 s1)
      with 4 have "adv_result e u s2 t" using False i by (auto simp: adv_result_def s2 s1 carries_def)
      then show ?thesis unfolding s2 by (auto simp: Let_def)
    qed (use ih s1 s2 in auto)
  qed
qed

lemma refreshing_cases: "ble_adv_refreshing e p s = appm (C_update_adv_data p) (set_current p s) \<or>
    ble_adv_is_allowed e s \<and> ble_adv_refreshing e p s = appm (C_start_advertising p) (set_current p s) \<or>
    \<not> ble_adv_is_allowed e s \<and> (\<exists>idx. ble_adv_refreshing e p s = ble_stop_advertising idx s)"
  by (auto simp: ble_adv_refreshing_def ble_start_adv_def Let_def)

lemma between_upd [simp]:
  "between (s\<lparr>bm_advParamInfo := i\<rparr>) = between s" "between (s\<lparr>bm_adv_user_enable := en\<rparr>) = between s"
  "between (s\<lparr>bm_advCurrentInfo := c\<rparr>) = between s" "between (s\<lparr>bm_scanCurrentInfo := d\<rparr>) = between s"
  by (simp_all add: between_def sizes_ok_def)

lemma stop_adv_inv: "between s \<Longrightarrow> ble_inv (ble_stop_advertising idx s)"
  by (simp add: ble_stop_advertising_def called_inv)

lemma idle_inv: "between s \<Longrightarrow> ble_inv (ble_execute_pending_op BLE_ACTV_ACTION_IDLE idx s)"
  using next_inv [of s] by (simp add: execute_idle between_def)

lemma refreshing_inv: "between s \<Longrightarrow> ble_inv (ble_adv_refreshing e p s)"
  using refreshing_cases [of e p s] by (auto simp: set_current_def called_inv stop_adv_inv)

lemma run_adv_inv: "between s \<Longrightarrow> app_ble_start_adv e s = Inr t \<Longrightarrow> ble_inv t"
proof -
  assume b: "between s" and t: "app_ble_start_adv e s = Inr t"
  show "ble_inv t"
  proof (cases "ble_adv_is_allowed e s")
    case True
    with t have "start_adv_from e [0..<BLE_ADV_ACTIVITY_USER_NUM] s = Inr t" by (simp add: app_ble_start_adv_def)
    from start_adv_cases [OF this] b show ?thesis
      by (auto simp: Let_def adv_result_def intro: idle_inv stop_adv_inv refreshing_inv)
  next
    case False
    with t b show ?thesis by (auto simp: app_ble_start_adv_def intro: idle_inv stop_adv_inv split: list.splits)
  qed
qed

lemma run_inv:
  assumes "between s" and "run_op e p s = Inr t"
  shows "ble_inv t"
proof (cases p)
  case P_start_adv
  with assms run_adv_inv show ?thesis by simp
next
  case P_start_scan
  with assms show ?thesis by (auto simp: ble_start_scan_def called_inv idle_inv)
next
  case P_start_connect
  let ?u = "\<lambda>xs. s\<lparr>bm_bleToConnectInfo := xs\<rparr>"
  have "between (?u xs)" if "length xs = length (bm_bleToConnectInfo s)" for xs
    using assms(1) that by (simp add: between_def sizes_ok_def)
  with assms P_start_connect show ?thesis by (auto simp: ble_start_connect_def Let_def called_inv)
next
  case P_set_all_white_list
  have "between (s\<lparr>bm_pending_set_white_list := False\<rparr>)" using assms(1) by (simp add: between_def sizes_ok_def)
  with assms P_set_all_white_list show ?thesis by (auto simp: set_all_white_list_def called_inv)
next
  case P_add_resloving_list
  have "between (s\<lparr>bm_pending_add_resloving_list := False\<rparr>)" using assms(1) by (simp add: between_def sizes_ok_def)
  with assms P_add_resloving_list show ?thesis by (auto simp: add_resloving_list_def called_inv)
qed (use assms in \<open>auto simp: ble_stop_scanning_def ble_stop_connecting_def ble_disconnect_def called_inv\<close>)

section \<open>Requests keep the invariant\<close>

lemma inv_upd [simp]:
  "ble_inv (s\<lparr>bm_advPendingType := a\<rparr>) = ble_inv s" "ble_inv (s\<lparr>bm_advPendingDiscmode := b\<rparr>) = ble_inv s"
  "ble_inv (s\<lparr>bm_advPendingPeerAddr := c\<rparr>) = ble_inv s" "ble_inv (s\<lparr>bm_fill_param := d\<rparr>) = ble_inv s"
  "ble_inv (s\<lparr>bm_adv_user_enable := en\<rparr>) = ble_inv s" "ble_inv (s\<lparr>bm_bleDataFillFunc := f\<rparr>) = ble_inv s"
  "ble_inv (s\<lparr>bm_adv_user_register := r\<rparr>) = ble_inv s" "ble_inv (s\<lparr>bm_advPendingTxpwr := t\<rparr>) = ble_inv s"
  "ble_inv (s\<lparr>bm_advCurrentTxpwr := t\<rparr>) = ble_inv s" "ble_inv (s\<lparr>bm_advPendingLocalAddr := l\<rparr>) = ble_inv s"
  "ble_inv (s\<lparr>bm_scanPendingInfo := p\<rparr>) = ble_inv s" "ble_inv (s\<lparr>bm_disablerBitmap := w\<rparr>) = ble_inv s"
  "ble_inv (s\<lparr>bm_ble_white_list := wl\<rparr>) = ble_inv s" "ble_inv (s\<lparr>bm_resolving_num := n\<rparr>) = ble_inv s"
  "ble_inv (s\<lparr>bm_isStartAdvFailbf := g\<rparr>) = ble_inv s"
  by (simp_all add: ble_defs)

lemma keep_inv:
  assumes "ble_inv s" and "bm_is_busy s"
  shows "ble_inv (s\<lparr>bm_adv_has_pending_op := True\<rparr>)" "ble_inv (s\<lparr>bm_pending_set_white_list := True\<rparr>)"
    "ble_inv (s\<lparr>bm_scan_has_pending_op := True\<rparr>)" "ble_inv (s\<lparr>bm_scan_has_pending_stop_op := True\<rparr>)"
    "ble_inv (s\<lparr>bm_pending_stop_connecting := True\<rparr>)" "ble_inv (s\<lparr>bm_pending_add_resloving_list := True\<rparr>)"
  using assms by (auto simp: ble_defs)

text \<open>A request is posted when nothing is in progress, and kept otherwise.\<close>

lemma request_inv:
  assumes "ble_inv s" and "bm_is_busy s \<Longrightarrow> ble_inv (keep s)"
  shows "ble_inv (request p keep s)"
  using assms by (auto simp: request_def ble_defs post_def)

lemma refresh_inv [inv_intros]: "ble_inv s \<Longrightarrow> ble_inv (app_ble_refresh_adv_state s)"
  unfolding app_ble_refresh_adv_state_def by (rule request_inv) (simp_all add: keep_inv)

lemma white_list_inv [inv_intros]: "ble_inv s \<Longrightarrow> ble_inv (app_ble_set_all_white_list s)"
  unfolding app_ble_set_all_white_list_def by (rule request_inv) (simp_all add: keep_inv)

lemma txpwr_inv: "ble_inv s \<Longrightarrow> app_ble_set_adv_txpwr_by_actv_user e u dbm s = Inr t \<Longrightarrow> ble_inv t"
  by (auto simp: app_ble_set_adv_txpwr_by_actv_user_def Let_def split: if_splits)

lemma all_txpwr_inv: "ble_inv s \<Longrightarrow> foldM (\<lambda>u. app_ble_set_adv_txpwr_by_actv_user e u dbm) us s = Inr t \<Longrightarrow> ble_inv t"
  by (induction us arbitrary: s) (auto dest: txpwr_inv)

lemma connect_inv:
  assumes "ble_inv s" and "app_ble_start_connect_with_init_type ty peer own conn_to s = Inr t"
  shows "ble_inv t"
proof -
  have "ble_inv (request P_start_connect (\<lambda>t. t) (s\<lparr>bm_bleToConnectInfo := xs\<rparr>))"
    if "length xs = length (bm_bleToConnectInfo s)" for xs
    using assms(1) that by (auto simp: request_def ble_defs post_def)
  with assms show ?thesis by (auto simp: app_ble_start_connect_with_init_type_def Let_def split: if_splits)
qed

lemma disconnect_inv: "ble_inv s \<Longrightarrow> app_ble_start_disconnect i s = Inr t \<Longrightarrow> ble_inv t"
  by (auto simp: app_ble_start_disconnect_def ble_defs post_def split: if_splits)

lemma forget_connect_inv:
  assumes "ble_inv s"
  shows "ble_inv (s\<lparr>bm_bleToConnectInfo := (bm_bleToConnectInfo s)
    [i := (bm_bleToConnectInfo s ! i)\<lparr>ii_pendingConnect := False\<rparr>]\<rparr>)"
proof -
  have "list_ex ii_pendingConnect (xs[i := (xs ! i)\<lparr>ii_pendingConnect := False\<rparr>]) \<Longrightarrow> list_ex ii_pendingConnect xs" for xs
    using set_update_subset_insert [of xs i] by (fastforce simp: list_ex_iff)
  from this [of "bm_bleToConnectInfo s"] assms show ?thesis by (auto simp: ble_defs)
qed

lemma disconnect_all_inv: "ble_inv s \<Longrightarrow> app_ble_disconnect_all s = Inr t \<Longrightarrow> ble_inv t"
proof -
  let ?f = "\<lambda>i t. app_ble_start_disconnect i (t\<lparr>bm_bleToConnectInfo := (bm_bleToConnectInfo t)
    [i := (bm_bleToConnectInfo t ! i)\<lparr>ii_pendingConnect := False\<rparr>]\<rparr>)"
  have "ble_inv s \<Longrightarrow> foldM ?f us s = Inr t \<Longrightarrow> ble_inv t" for us s
    by (induction us arbitrary: s) (auto dest: disconnect_inv [OF forget_connect_inv])
  then show "ble_inv s \<Longrightarrow> app_ble_disconnect_all s = Inr t \<Longrightarrow> ble_inv t"
    unfolding app_ble_disconnect_all_def by blast
qed

lemma set_white_list_inv: "ble_inv s \<Longrightarrow> app_ble_set_white_list user addrs n s = Inr t \<Longrightarrow> ble_inv t"
  by (auto simp: app_ble_set_white_list_def Let_def intro: inv_intros split: if_splits)

lemma exec_inv:
  assumes i: "ble_inv s" and x: "ble_exec e c s = Inr t"
  shows "ble_inv t"
proof (cases c)
  case (Set_Adv_Type ty peer)
  with i x show ?thesis by (auto simp: app_ble_set_adv_type_def Let_def intro: inv_intros)
next
  case (Set_Interval k user v)
  with i x show ?thesis by (auto simp: app_ble_param_set_adv_interval_def Let_def intro: inv_intros split: if_splits)
next
  case (Register_Fill user f)
  with i x show ?thesis by (auto simp: app_ble_register_data_fill_handle_def Let_def split: option.splits if_splits)
next
  case (Connect_White_List addrs n own conn_to)
  with i x show ?thesis
    by (auto simp: app_ble_start_connect_with_white_list_def dest: connect_inv [OF set_white_list_inv])
next
  case (Start_Scan p)
  have "ble_inv (s\<lparr>bm_scanPendingInfo := p\<rparr>)" using i by simp
  with x Start_Scan show ?thesis
    by (auto simp: app_ble_start_scan_def keep_inv intro!: request_inv)
next
  case Stop_Scan
  with i x show ?thesis by (auto simp: app_ble_stop_scan_def keep_inv intro!: request_inv)
next
  case Cancel_Connecting
  with i x show ?thesis by (auto simp: app_ble_cancel_connecting_def keep_inv intro!: request_inv)
next
  case (Resolving_List n)
  have "ble_inv (s\<lparr>bm_resolving_num := min n 8\<rparr>)" using i by simp
  with i x Resolving_List show ?thesis
    by (auto simp: app_ble_add_resloving_list_def keep_inv intro!: request_inv split: if_splits)
qed (use i x in \<open>auto simp: app_ble_set_adv_disc_mode_def app_ble_data_fill_enable_def app_ble_set_adv_txpwr_by_adv_user_def
    app_ble_set_all_adv_txpwr_def app_ble_set_adv_local_addr_by_adv_user_def app_ble_set_adv_local_addr_by_actv_user_def
    app_ble_force_switch_adv_def app_ble_clear_white_list_def app_ble_clear_all_white_list_def Let_def
    intro: inv_intros dest: txpwr_inv all_txpwr_inv connect_inv disconnect_inv disconnect_all_inv set_white_list_inv
    split: if_splits\<close>)

section \<open>One operation at a time\<close>

lemma step_inv:
  assumes "ble_step s s'" and "ble_inv s"
  shows "ble_inv s'"
  using assms
proof cases
  case (Run p ps e)
  with assms(2) have "between (s\<lparr>bm_posted := ps\<rparr>)" by (auto simp: between_def ble_defs split: if_splits)
  with Run show ?thesis by (blast intro: run_inv)
next
  case (Adv_Started e idx)
  with assms(2) show ?thesis
    by (auto simp: app_advertising_started_def Let_def intro: inv_intros txpwr_inv split: if_splits)
next
  case (Adv_Stopped e idx)
  have "ble_inv (s\<lparr>bm_isStartAdvFailbf := 0\<rparr>)" using assms(2) by simp
  with Adv_Stopped assms(2) show ?thesis by (auto simp: app_advertising_stopped_def Let_def intro: inv_intros)
next
  case (Adv_Failed e idx)
  with assms(2) show ?thesis
    by (auto simp: app_advertising_starting_failed_def ble_set_actv_action_def ble_defs Let_def split: if_splits)
next
  case Link_Lost
  with assms(2) show ?thesis by (auto simp: app_ble_disconnected_evt_handler_def intro: inv_intros)
next
  case White_List_Set
  with assms(2) show ?thesis by (auto simp: app_ble_set_white_list_complete_def intro: inv_intros)
next
  case Resolving_Set
  with assms(2) show ?thesis by (auto simp: app_ble_set_resolving_list_complete_def intro: inv_intros)
qed (use assms(2) in \<open>auto dest: exec_inv intro: inv_intros\<close>)

lemma init_inv: "ble_inv app_ble_mode_init"
  by (simp add: app_ble_mode_init_def ble_defs no_init_info_def BLE_CONNECTION_MAX_def eval_nat_numeral)

lemma reach_inv: "ble_reach s \<Longrightarrow> ble_inv s"
  by (induction rule: ble_reach.induct) (auto intro: init_inv step_inv)

end
