(* ===== verification/BleServe.thy ===== *)
theory BleServe
  imports BleModeInv
begin

text \<open>
  What the scheduler of \<open>bthost/service/ble_app/app_main/app_ble_mode_switch.c\<close> keeps is served: when the
  thread runs and the layer below ends each action, every operation that waits is handed over, and
  the scheduler is free in the end. And where the order of the requests is lost, or one of them stops
  the firmware.
\<close>

section \<open>Serving\<close>

text \<open>As long as the scheduler is taken, the thread runs what is posted, or the layer below ends the action.\<close>

definition serve_one :: "ble_env \<Rightarrow> ble_mode \<Rightarrow> ble_mode res" where
  "serve_one e s =
     (case bm_posted s of
        p # ps \<Rightarrow> run_op e p (s\<lparr>bm_posted := ps\<rparr>)
      | [] \<Rightarrow> Inr (ble_execute_pending_op (bm_actv_action s) (bm_op_actv_idx s) s))"

fun ble_serve :: "nat \<Rightarrow> ble_env \<Rightarrow> ble_mode \<Rightarrow> ble_mode res" where
  "ble_serve 0 e s = (if bm_is_busy s then Inl No_Return else Inr s)"
| "ble_serve (Suc n) e s = (if bm_is_busy s then bindE (serve_one e s) (ble_serve n e) else Inr s)"

text \<open>The calls that are due: for what waits, and for what is posted.\<close>

definition scan_due :: "ble_env \<Rightarrow> ble_mode \<Rightarrow> appm_call set" where
  "scan_due e s =
     (if be_scan_actv_idx e \<noteq> INVALID_BLE_ACTIVITY_INDEX \<and> be_scan_started e \<and> bm_scanCurrentInfo s = bm_scanPendingInfo s
      then {} else {C_start_scanning (bm_scanPendingInfo s)})"

definition list_due :: "ble_mode \<Rightarrow> appm_call set" where
  "list_due s = {C_set_white_list l | l. gather_white_list s = Inr l}"

fun posted_due :: "ble_env \<Rightarrow> ble_mode \<Rightarrow> posted \<Rightarrow> appm_call set" where
  "posted_due e s P_start_adv = {}"
| "posted_due e s P_start_scan = scan_due e s"
| "posted_due e s P_stop_scanning = {C_stop_scanning}"
| "posted_due e s P_start_connect = {}"
| "posted_due e s P_stop_connecting = {C_stop_connecting}"
| "posted_due e s (P_disconnect i) = {C_disconnect i}"
| "posted_due e s P_set_all_white_list = list_due s"
| "posted_due e s P_add_resloving_list = {C_set_rpa_list (bm_resolving_num s)}"

definition kept_due :: "ble_env \<Rightarrow> ble_mode \<Rightarrow> appm_call set" where
  "kept_due e s =
     {C_disconnect i | i. i < length (bm_pendingDisconnect s) \<and> bm_pendingDisconnect s ! i} \<union>
     {C_start_connecting (ii_init_param x) | x. x \<in> set (bm_bleToConnectInfo s) \<and> ii_pendingConnect x} \<union>
     (if bm_pending_stop_connecting s then {C_stop_connecting} else {}) \<union>
     (if bm_scan_has_pending_op s then scan_due e s else {}) \<union>
     (if bm_scan_has_pending_stop_op s then {C_stop_scanning} else {}) \<union>
     (if bm_pending_set_white_list s then list_due s else {}) \<union>
     (if bm_pending_add_resloving_list s then {C_set_rpa_list (bm_resolving_num s)} else {})"

definition due :: "ble_env \<Rightarrow> ble_mode \<Rightarrow> appm_call set" where
  "due e s = kept_due e s \<union> (\<Union>p \<in> set (bm_posted s). posted_due e s p)"

text \<open>What is needed for the thread not to stop the firmware.\<close>

definition fills_ok :: "ble_env \<Rightarrow> ble_mode \<Rightarrow> bool" where
  "fills_ok e s \<longleftrightarrow> (\<forall>u < BLE_ADV_ACTIVITY_USER_NUM. \<forall>en. \<exists>t. ble_adv_config_param e u (s\<lparr>bm_adv_user_enable := en\<rparr>) = Inr t)"

definition serve_ok :: "ble_env \<Rightarrow> ble_mode \<Rightarrow> bool" where
  "serve_ok e s \<longleftrightarrow>
     ble_inv s \<and> fills_ok e s \<and> (\<exists>l. gather_white_list s = Inr l) \<and>
     (P_start_connect \<in> set (bm_posted s) \<longrightarrow> app_ble_pending_to_connect s)"

section \<open>The measure\<close>

definition kept :: "ble_mode \<Rightarrow> nat" where
  "kept s =
     length (filter id (bm_pendingDisconnect s)) + length (filter ii_pendingConnect (bm_bleToConnectInfo s)) +
     of_bool (bm_pending_stop_connecting s) + of_bool (bm_scan_has_pending_op s) + of_bool (bm_scan_has_pending_stop_op s) +
     of_bool (bm_pending_set_white_list s) + of_bool (bm_pending_add_resloving_list s) + of_bool (bm_adv_has_pending_op s)"

text \<open>An operation that is posted and still counts as kept.\<close>

definition counted :: "posted \<Rightarrow> ble_mode \<Rightarrow> bool" where
  "counted p s \<longleftrightarrow> p = P_start_connect \<or> p = P_set_all_white_list \<and> bm_pending_set_white_list s \<or>
     p = P_add_resloving_list \<and> bm_pending_add_resloving_list s"

definition rounds :: "ble_mode \<Rightarrow> nat" where
  "rounds s =
     (if \<not> bm_is_busy s then 0
      else 1 + 2 * kept s + (case bm_posted s of [] \<Rightarrow> 1 | p # _ \<Rightarrow> if counted p s then 0 else 2))"

lemma filter_update_less:
  assumes "i < length xs" and "P (xs ! i)" and "\<not> P y"
  shows "Suc (length (filter P (xs[i := y]))) = length (filter P xs)"
proof -
  have xs: "xs = take i xs @ xs ! i # drop (Suc i) xs" by (rule id_take_nth_drop [OF assms(1)])
  have "length (filter P xs) = length (filter P (take i xs)) + Suc (length (filter P (drop (Suc i) xs)))"
    by (subst xs) (simp add: assms(2))
  then show ?thesis using assms(1,3) by (simp add: upd_conv_take_nth_drop)
qed

text \<open>Serving leaves alone what the parameters of advertising and the white list are made of.\<close>

definition same_setup :: "ble_mode \<Rightarrow> ble_mode \<Rightarrow> bool" where
  "same_setup s t \<longleftrightarrow>
     bm_advPendingType t = bm_advPendingType s \<and> bm_advPendingDiscmode t = bm_advPendingDiscmode s \<and>
     bm_advertisingPendingMode t = bm_advertisingPendingMode s \<and> bm_advPendingLocalAddr t = bm_advPendingLocalAddr s \<and>
     bm_bleDataFillFunc t = bm_bleDataFillFunc s \<and> bm_fill_param t = bm_fill_param s \<and>
     bm_ble_white_list t = bm_ble_white_list s"

lemma same_setup_refl [simp]: "same_setup s s"
  by (simp add: same_setup_def)

lemma same_setup_trans: "same_setup s t \<Longrightarrow> same_setup t u \<Longrightarrow> same_setup s u"
  by (simp add: same_setup_def)

lemma same_setup_fills: "same_setup s t \<Longrightarrow> fills_ok e s \<Longrightarrow> fills_ok e t"
proof -
  assume st: "same_setup s t" and ok: "fills_ok e s"
  have "config_start e u (t\<lparr>bm_adv_user_enable := en\<rparr>) = config_start e u (s\<lparr>bm_adv_user_enable := en\<rparr>)" for u en
    using st by (simp add: same_setup_def config_start_def app_ble_is_white_list_enable_def)
  with st ok show "fills_ok e t"
    unfolding fills_ok_def ble_adv_config_param_def by (simp add: same_setup_def split_beta)
qed

lemma same_setup_gather: "same_setup s t \<Longrightarrow> gather_white_list t = gather_white_list s"
  by (simp add: same_setup_def gather_white_list_def)

section \<open>One round\<close>

lemma next_frame: "same_setup s (next_pending_op i s) \<and> bm_calls (next_pending_op i s) = bm_calls s"
  by (simp add: next_pending_op_def post_def same_setup_def)

lemma index_cases:
  assumes "sizes_ok s"
  obtains "app_ble_index_pending_to_disconnect s = BLE_CONNECTION_MAX" "True \<notin> set (bm_pendingDisconnect s)"
  | i where "app_ble_index_pending_to_disconnect s = i" "i < length (bm_pendingDisconnect s)" "bm_pendingDisconnect s ! i"
      "i \<noteq> BLE_CONNECTION_MAX"
proof -
  let ?xs = "bm_pendingDisconnect s"
  have "length (takeWhile Not ?xs) \<le> length ?xs" by (rule length_takeWhile_le)
  then show thesis
    using that takeWhile_length [of ?xs] assms
    by (cases "length (takeWhile Not ?xs) = length ?xs")
       (auto simp: app_ble_index_pending_to_disconnect_def sizes_ok_def)
qed

lemma kept_due_simps [simp]:
  "kept_due e (post p s) = kept_due e s" "kept_due e (s\<lparr>bm_is_busy := b\<rparr>) = kept_due e s"
  "kept_due e (s\<lparr>bm_posted := ps\<rparr>) = kept_due e s" "kept_due e (s\<lparr>bm_calls := cs\<rparr>) = kept_due e s"
  "kept_due e (s\<lparr>bm_actv_action := a\<rparr>) = kept_due e s" "kept_due e (s\<lparr>bm_op_actv_idx := x\<rparr>) = kept_due e s"
  "kept_due e (s\<lparr>bm_adv_has_pending_op := b\<rparr>) = kept_due e s"
  "kept_due e (s\<lparr>bm_advParamInfo := i\<rparr>) = kept_due e s" "kept_due e (s\<lparr>bm_adv_user_enable := en\<rparr>) = kept_due e s"
  "kept_due e (s\<lparr>bm_advCurrentInfo := c\<rparr>) = kept_due e s"
  by (simp_all add: kept_due_def scan_due_def list_due_def gather_white_list_def post_def)

lemma due_post: "bm_posted s = [] \<Longrightarrow> due e (post p s) = kept_due e s \<union> posted_due e s p"
  by (cases p) (auto simp: due_def post_def scan_due_def list_due_def gather_white_list_def kept_due_def)

text \<open>A flag that is cleared when the operation is posted.\<close>

lemma kept_due_less:
  "bm_pending_stop_connecting s \<Longrightarrow> kept_due e s \<subseteq> kept_due e (s\<lparr>bm_pending_stop_connecting := False\<rparr>) \<union> {C_stop_connecting}"
  "kept_due e s \<subseteq> kept_due e (s\<lparr>bm_scan_has_pending_op := False\<rparr>) \<union> scan_due e (s\<lparr>bm_scan_has_pending_op := False\<rparr>)"
  "kept_due e s \<subseteq> kept_due e (s\<lparr>bm_scan_has_pending_stop_op := False\<rparr>) \<union> {C_stop_scanning}"
  "kept_due e s \<subseteq> kept_due e (s\<lparr>bm_pendingDisconnect := (bm_pendingDisconnect s)[i := False]\<rparr>) \<union> {C_disconnect i}"
proof -
  have [simp]: "scan_due e (s\<lparr>bm_pending_stop_connecting := b\<rparr>) = scan_due e s" "scan_due e (s\<lparr>bm_scan_has_pending_op := b\<rparr>) = scan_due e s"
    "scan_due e (s\<lparr>bm_scan_has_pending_stop_op := b\<rparr>) = scan_due e s" "scan_due e (s\<lparr>bm_pendingDisconnect := d\<rparr>) = scan_due e s"
    "list_due (s\<lparr>bm_pending_stop_connecting := b\<rparr>) = list_due s" "list_due (s\<lparr>bm_scan_has_pending_op := b\<rparr>) = list_due s"
    "list_due (s\<lparr>bm_scan_has_pending_stop_op := b\<rparr>) = list_due s" "list_due (s\<lparr>bm_pendingDisconnect := d\<rparr>) = list_due s" for b d
    by (simp_all add: scan_due_def list_due_def gather_white_list_def)
  show "bm_pending_stop_connecting s \<Longrightarrow> kept_due e s \<subseteq> kept_due e (s\<lparr>bm_pending_stop_connecting := False\<rparr>) \<union> {C_stop_connecting}"
    by (simp add: kept_due_def) blast
  show "kept_due e s \<subseteq> kept_due e (s\<lparr>bm_scan_has_pending_op := False\<rparr>) \<union> scan_due e (s\<lparr>bm_scan_has_pending_op := False\<rparr>)"
    by (simp add: kept_due_def) blast
  show "kept_due e s \<subseteq> kept_due e (s\<lparr>bm_scan_has_pending_stop_op := False\<rparr>) \<union> {C_stop_scanning}"
    by (simp add: kept_due_def) blast
  have "{C_disconnect k | k. k < length (bm_pendingDisconnect s) \<and> bm_pendingDisconnect s ! k} \<subseteq>
      {C_disconnect k | k. k < length (bm_pendingDisconnect s) \<and> (bm_pendingDisconnect s)[i := False] ! k} \<union> {C_disconnect i}"
    by (auto simp: nth_list_update)
  then show "kept_due e s \<subseteq> kept_due e (s\<lparr>bm_pendingDisconnect := (bm_pendingDisconnect s)[i := False]\<rparr>) \<union> {C_disconnect i}"
    by (simp add: kept_due_def) blast
qed

lemma next_due:
  assumes "between s"
  shows "due e s \<subseteq> due e (next_pending_op (app_ble_index_pending_to_disconnect s) s)"
proof -
  have ps: "bm_posted s = []" and sz: "sizes_ok s" using assms by (simp_all add: between_def)
  have d: "due e s = kept_due e s" using ps by (simp add: due_def)
  show ?thesis
  proof (cases rule: index_cases [OF sz])
    case 1
    then have "\<not> bm_pendingDisconnect s ! i" if "i < length (bm_pendingDisconnect s)" for i
      using that nth_mem by metis
    moreover have "\<not> app_ble_pending_to_connect s \<Longrightarrow> x \<in> set (bm_bleToConnectInfo s) \<Longrightarrow> \<not> ii_pendingConnect x" for x
      by (auto simp: app_ble_pending_to_connect_def list_ex_iff)
    ultimately have "nothing_kept s \<Longrightarrow> kept_due e s = {}" by (auto simp: nothing_kept_def kept_due_def)
    then show ?thesis
      using 1 ps kept_due_less(1) [of s e] kept_due_less(2,3) [of e s] unfolding d
      by (auto simp: next_pending_op_def due_post nothing_kept_def)
  next
    case (2 i)
    then show ?thesis
      using ps kept_due_less(1) [of s e] kept_due_less(4) [of e s i] unfolding d by (simp add: next_pending_op_def due_post)
  qed
qed

lemma kept_simps [simp]:
  "kept (post p s) = kept s" "kept (s\<lparr>bm_is_busy := b\<rparr>) = kept s" "kept (s\<lparr>bm_posted := ps\<rparr>) = kept s"
  "kept (s\<lparr>bm_calls := cs\<rparr>) = kept s" "kept (s\<lparr>bm_actv_action := a\<rparr>) = kept s" "kept (s\<lparr>bm_op_actv_idx := x\<rparr>) = kept s"
  "kept (s\<lparr>bm_advParamInfo := i\<rparr>) = kept s" "kept (s\<lparr>bm_adv_user_enable := en\<rparr>) = kept s"
  "kept (s\<lparr>bm_advCurrentInfo := c\<rparr>) = kept s" "kept (s\<lparr>bm_scanCurrentInfo := d\<rparr>) = kept s"
  by (simp_all add: kept_def post_def)

lemma next_rounds:
  assumes "between s"
  shows "rounds (next_pending_op (app_ble_index_pending_to_disconnect s) s) \<le> 2 * kept s + 1"
proof -
  have ps: "bm_posted s = []" and sz: "sizes_ok s" using assms by (simp_all add: between_def)
  have flags: "bm_pending_stop_connecting s \<Longrightarrow> kept s = Suc (kept (s\<lparr>bm_pending_stop_connecting := False\<rparr>))"
    "bm_scan_has_pending_op s \<Longrightarrow> kept s = Suc (kept (s\<lparr>bm_scan_has_pending_op := False\<rparr>))"
    "bm_scan_has_pending_stop_op s \<Longrightarrow> kept s = Suc (kept (s\<lparr>bm_scan_has_pending_stop_op := False\<rparr>))"
    "bm_adv_has_pending_op s \<Longrightarrow> kept s = Suc (kept (s\<lparr>bm_adv_has_pending_op := False\<rparr>))"
    by (simp_all add: kept_def)
  have posted: "rounds (post p t) \<le> 2 * kept t + 3" "counted p t \<Longrightarrow> rounds (post p t) \<le> 2 * kept t + 1"
    if "bm_posted t = []" for p t
    using that by (simp_all add: rounds_def post_def counted_def kept_def)
  show ?thesis
  proof (cases rule: index_cases [OF sz])
    case 1
    then show ?thesis
      using ps flags posted [of s] posted(1) [of "s\<lparr>bm_pending_stop_connecting := False\<rparr>" P_stop_connecting]
        posted(1) [of "s\<lparr>bm_scan_has_pending_op := False\<rparr>" P_start_scan]
        posted(1) [of "s\<lparr>bm_scan_has_pending_stop_op := False\<rparr>" P_stop_scanning]
        posted(1) [of "s\<lparr>bm_adv_has_pending_op := False\<rparr>" P_start_adv]
      by (simp add: next_pending_op_def counted_def) (simp add: rounds_def)
  next
    case (2 i)
    let ?t = "s\<lparr>bm_pendingDisconnect := (bm_pendingDisconnect s)[i := False]\<rparr>"
    have "kept s = Suc (kept ?t)"
      using filter_update_less [of i "bm_pendingDisconnect s" id False] 2 by (simp add: kept_def)
    then show ?thesis
      using 2 ps flags(1) posted(1) [of ?t "P_disconnect i"]
        posted(1) [of "s\<lparr>bm_pending_stop_connecting := False\<rparr>" P_stop_connecting]
      by (simp add: next_pending_op_def)
  qed
qed

lemma next_connect: "bm_posted s = [] \<Longrightarrow> P_start_connect \<in> set (bm_posted (next_pending_op i s)) \<Longrightarrow>
    app_ble_pending_to_connect (next_pending_op i s)"
  by (auto simp: next_pending_op_def post_def app_ble_pending_to_connect_def split: if_splits)

text \<open>What a round keeps and brings about, seen from a state \<open>s\<close> between two operations.\<close>

definition able :: "ble_env \<Rightarrow> ble_mode \<Rightarrow> bool" where
  "able e s \<longleftrightarrow> between s \<and> fills_ok e s \<and> (\<exists>l. gather_white_list s = Inr l)"

definition served :: "ble_env \<Rightarrow> ble_mode \<Rightarrow> appm_call set \<Rightarrow> nat \<Rightarrow> ble_mode \<Rightarrow> bool" where
  "served e s D n t \<longleftrightarrow>
     serve_ok e t \<and> rounds t \<le> n \<and> (\<exists>cs. bm_calls t = bm_calls s @ cs \<and> D \<subseteq> due e t \<union> set cs)"

lemma able_setup: "able e s \<Longrightarrow> same_setup s t \<Longrightarrow> between t \<Longrightarrow> able e t"
  using same_setup_fills same_setup_gather by (auto simp: able_def)

lemma served_next:
  assumes "able e s"
  shows "served e s (kept_due e s) (2 * kept s + 1) (ble_execute_pending_op BLE_ACTV_ACTION_IDLE idx s)"
proof -
  let ?t = "next_pending_op (app_ble_index_pending_to_disconnect s) s"
  have b: "between s" "bm_posted s = []" "bm_actv_action s = BLE_ACTV_ACTION_IDLE"
    using assms by (auto simp: able_def between_def)
  have f: "same_setup s ?t" "bm_calls ?t = bm_calls s" using next_frame [of s] by auto
  have "serve_ok e ?t"
    using next_inv [OF b(1)] next_connect [OF b(2)] same_setup_fills [OF f(1)] same_setup_gather [OF f(1)] assms
    by (auto simp: serve_ok_def able_def)
  moreover have "kept_due e s \<subseteq> due e ?t" using next_due [OF b(1)] by (auto simp: due_def)
  ultimately show ?thesis using next_rounds [OF b(1)] f(2) execute_idle [OF b(3)] by (simp add: served_def)
qed

lemma called_simps [simp]:
  "bm_calls (appm c (ble_set_actv_action a idx s)) = bm_calls s @ [c]"
  "bm_posted (appm c (ble_set_actv_action a idx s)) = bm_posted s"
  "kept (appm c (ble_set_actv_action a idx s)) = kept s"
  "kept_due e (appm c (ble_set_actv_action a idx s)) = kept_due e s"
  "same_setup s (appm c (ble_set_actv_action a idx s))"
  by (simp_all add: appm_def ble_set_actv_action_def same_setup_def)

lemma served_call:
  assumes "able e s" and "a \<noteq> BLE_ACTV_ACTION_IDLE" and "D \<subseteq> insert c (kept_due e s)"
  shows "served e s D (2 * kept s + 2) (appm c (ble_set_actv_action a idx s))"
proof -
  let ?t = "appm c (ble_set_actv_action a idx s)"
  have b: "between s" "bm_posted s = []" using assms(1) by (auto simp: able_def between_def)
  have "serve_ok e ?t"
    using called_inv [OF b(1) assms(2)] same_setup_fills [of s ?t] same_setup_gather [of s ?t] assms(1) b(2)
    by (auto simp: serve_ok_def able_def)
  moreover have "kept_due e s = due e ?t" using b(2) by (simp add: due_def)
  moreover have "rounds ?t \<le> 2 * kept s + 2" using b(2) by (simp add: rounds_def)
  ultimately show ?thesis using assms(3) by (auto simp: served_def)
qed

lemma served_upd:
  assumes "served e t D n u" and "bm_calls t = bm_calls s" and "D' \<subseteq> D" and "n \<le> n'"
  shows "served e s D' n' u"
  using assms by (fastforce simp: served_def)

section \<open>The operations, served\<close>

lemma start_adv_total:
  assumes "fills_ok e s" and "\<forall>u \<in> set us. u < BLE_ADV_ACTIVITY_USER_NUM"
  shows "\<exists>t. start_adv_from e us s = Inr t"
  using assms
proof (induction us arbitrary: s)
  case (Cons u us)
  have "s\<lparr>bm_adv_user_enable := bm_adv_user_enable s\<rparr> = s" by simp
  with Cons.prems obtain s1 where c: "ble_adv_config_param e u s = Inr s1"
    unfolding fills_ok_def by (metis list.set_intros(1))
  from config_frame [OF c] have st: "same_setup s s1" "same_setup s (s1\<lparr>bm_advParamInfo := i\<rparr>)" for i
    by (auto simp: same_setup_def)
  have ih: "\<exists>t. start_adv_from e us x = Inr t" if "same_setup s x" for x
    using Cons.IH [OF same_setup_fills [OF that Cons.prems(1)]] Cons.prems(2) by simp
  show ?case
    using ih [of s] ih [OF st(1)] ih [OF st(2)] by (simp add: c Let_def)
qed simp

lemma served_stop: "able e s \<Longrightarrow> served e s (kept_due e s) (2 * kept s + 2) (ble_stop_advertising idx s)"
  unfolding ble_stop_advertising_def by (rule served_call) auto

lemma served_refreshing:
  assumes "able e s"
  shows "served e s (kept_due e s) (2 * kept s + 2) (ble_adv_refreshing e p s)"
proof -
  let ?c = "s\<lparr>bm_advCurrentInfo := (bm_advCurrentInfo s)[ap_actv_user p := p]\<rparr>"
  have "able e ?c" by (rule able_setup [OF assms]) (use assms in \<open>simp_all add: same_setup_def able_def\<close>)
  then have "served e s (kept_due e s) (2 * kept s + 2) (appm c (set_current p s))" for c
    unfolding set_current_def by (auto intro!: served_upd [OF served_call])
  with refreshing_cases [of e p s] served_stop [OF assms] show ?thesis by metis
qed

lemma served_adv:
  assumes "able e s"
  shows "\<exists>t. app_ble_start_adv e s = Inr t \<and> served e s (kept_due e s) (2 * kept s + 2) t"
proof -
  have weak: "served e s (kept_due e s) (2 * kept s + 2) t"
    if "served e x (kept_due e x) n t" "bm_calls x = bm_calls s" "kept_due e x = kept_due e s" "n \<le> 2 * kept s + 2" for x n t
    using served_upd [OF that(1,2) _ that(4)] that(3) by auto
  show ?thesis
  proof (cases "ble_adv_is_allowed e s")
    case True
    have "fills_ok e s" using assms by (simp add: able_def)
    from start_adv_total [OF this, of "[0..<BLE_ADV_ACTIVITY_USER_NUM]"] obtain t
      where t: "start_adv_from e [0..<BLE_ADV_ACTIVITY_USER_NUM] s = Inr t" by auto
    from start_adv_cases [OF t] obtain i en where c:
      "t = ble_execute_pending_op BLE_ACTV_ACTION_IDLE 0xff (s\<lparr>bm_advParamInfo := i, bm_adv_user_enable := en\<rparr>) \<or>
       (\<exists>idx. t = ble_stop_advertising idx (s\<lparr>bm_advParamInfo := i, bm_adv_user_enable := en\<rparr>)) \<or>
       (\<exists>p. t = ble_adv_refreshing e p (s\<lparr>bm_advParamInfo := i, bm_adv_user_enable := en\<rparr>))" by (fastforce simp: Let_def adv_result_def)
    let ?x = "s\<lparr>bm_advParamInfo := i, bm_adv_user_enable := en\<rparr>"
    have x: "able e ?x" by (rule able_setup [OF assms]) (use assms in \<open>simp_all add: same_setup_def able_def\<close>)
    have "served e s (kept_due e s) (2 * kept s + 2) t"
      using c weak [OF served_next [OF x]] weak [OF served_stop [OF x]] weak [OF served_refreshing [OF x]] by auto
    with t True show ?thesis by (simp add: app_ble_start_adv_def)
  next
    case False
    then show ?thesis
      using weak [OF served_next [OF assms]] served_stop [OF assms]
      by (auto simp: app_ble_start_adv_def split: list.split)
  qed
qed

lemma served_called:
  assumes "able e x" and "a \<noteq> BLE_ACTV_ACTION_IDLE" and "D \<subseteq> insert c (kept_due e x)"
    and "bm_calls x = bm_calls s" and "2 * kept x + 2 \<le> n"
  shows "served e s D n (appm c (ble_set_actv_action a idx x))"
  by (rule served_upd [OF served_call [OF assms(1-3)] assms(4) order_refl assms(5)])

lemma served_scan:
  assumes "able e s"
  shows "served e s (kept_due e s \<union> scan_due e s) (2 * kept s + 2) (ble_start_scan e s)"
proof (cases "be_scan_actv_idx e \<noteq> INVALID_BLE_ACTIVITY_INDEX \<and> be_scan_started e \<and> bm_scanCurrentInfo s = bm_scanPendingInfo s")
  case True
  then show ?thesis
    using served_upd [OF served_next [OF assms], of s] by (simp add: ble_start_scan_def scan_due_def)
next
  case False
  let ?x = "s\<lparr>bm_scanCurrentInfo := bm_scanPendingInfo s\<rparr>"
  have x: "able e ?x" by (rule able_setup [OF assms]) (use assms in \<open>simp_all add: same_setup_def able_def\<close>)
  have d: "kept_due e s \<union> scan_due e s \<subseteq> insert (C_start_scanning (bm_scanPendingInfo s)) (kept_due e ?x)"
    by (auto simp: kept_due_def scan_due_def list_due_def gather_white_list_def split: if_splits)
  have "ble_start_scan e s =
      appm (C_start_scanning (bm_scanPendingInfo s)) (ble_set_actv_action BLE_ACTV_ACTION_STARTING_SCAN 0xff ?x)"
    unfolding ble_start_scan_def using False by auto
  then show ?thesis
    using served_called [OF x _ d, where a = BLE_ACTV_ACTION_STARTING_SCAN and s = s and n = "2 * kept s + 2"] by simp
qed

lemma served_connect:
  assumes "able e s" and "app_ble_pending_to_connect s"
  shows "\<exists>t. ble_start_connect s = Inr t \<and> served e s (kept_due e s) (2 * kept s) t"
proof -
  let ?is = "bm_bleToConnectInfo s"
  define i where "i = length (takeWhile (\<lambda>i. \<not> ii_pendingConnect i) ?is)"
  have "\<exists>x \<in> set ?is. ii_pendingConnect x" using assms(2) by (auto simp: app_ble_pending_to_connect_def list_ex_iff)
  then have i: "i < length ?is" "ii_pendingConnect (?is ! i)"
  proof -
    from \<open>\<exists>x \<in> set ?is. ii_pendingConnect x\<close> have "i \<noteq> length ?is"
      unfolding i_def by (metis takeWhile_eq_all_conv takeWhile_eq_take take_all_iff order_refl)
    then show "i < length ?is" using length_takeWhile_le [of _ ?is] unfolding i_def by (simp add: le_neq_implies_less)
    then show "ii_pendingConnect (?is ! i)"
      unfolding i_def using nth_length_takeWhile by blast
  qed
  define x where "x = s\<lparr>bm_bleToConnectInfo := ?is[i := (?is ! i)\<lparr>ii_pendingConnect := False\<rparr>]\<rparr>"
  have k: "kept s = Suc (kept x)"
    using filter_update_less [of i ?is ii_pendingConnect "(?is ! i)\<lparr>ii_pendingConnect := False\<rparr>"] i by (simp add: kept_def x_def)
  have x: "able e x" by (rule able_setup [OF assms(1)]) (use assms(1) in \<open>simp_all add: x_def same_setup_def able_def between_def sizes_ok_def\<close>)
  have "{C_start_connecting (ii_init_param z) | z. z \<in> set ?is \<and> ii_pendingConnect z} \<subseteq>
      insert (C_start_connecting (ii_init_param (?is ! i)))
        {C_start_connecting (ii_init_param z) | z. z \<in> set (bm_bleToConnectInfo x) \<and> ii_pendingConnect z}"
    using i by (auto simp: x_def in_set_conv_nth nth_list_update)
  then have d: "kept_due e s \<subseteq> insert (C_start_connecting (ii_init_param (?is ! i))) (kept_due e x)"
    by (auto simp: kept_due_def x_def scan_due_def list_due_def gather_white_list_def)
  have "ble_start_connect s =
      Inr (appm (C_start_connecting (ii_init_param (?is ! i))) (ble_set_actv_action BLE_ACTV_ACTION_CONNECTING 0xff x))"
    using i(1) by (simp add: ble_start_connect_def Let_def i_def [symmetric] x_def c_assert_def)
  then show ?thesis
    using served_called [OF x _ d, where a = BLE_ACTV_ACTION_CONNECTING and s = s and n = "2 * kept s"] k by (simp add: x_def)
qed

lemma served_white_list:
  assumes "able e s"
  shows "\<exists>t. set_all_white_list s = Inr t \<and>
    served e s (kept_due e s \<union> list_due s) (if bm_pending_set_white_list s then 2 * kept s else 2 * kept s + 2) t"
proof -
  from assms obtain l where l: "gather_white_list s = Inr l" by (auto simp: able_def)
  let ?x = "s\<lparr>bm_pending_set_white_list := False\<rparr>"
  have x: "able e ?x" by (rule able_setup [OF assms]) (use assms in \<open>simp_all add: same_setup_def able_def between_def sizes_ok_def\<close>)
  have d: "kept_due e s \<union> list_due s \<subseteq> insert (C_set_white_list l) (kept_due e ?x)"
    using l by (auto simp: kept_due_def scan_due_def list_due_def split: if_splits)
  have "2 * kept ?x + 2 \<le> (if bm_pending_set_white_list s then 2 * kept s else 2 * kept s + 2)" by (simp add: kept_def)
  from served_called [OF x _ d _ this, where a = BLE_ACTV_ACTION_SET_WHITE_LIST] show ?thesis
    by (simp add: set_all_white_list_def l)
qed

lemma served_resolving:
  assumes "able e s"
  shows "served e s (kept_due e s \<union> {C_set_rpa_list (bm_resolving_num s)})
    (if bm_pending_add_resloving_list s then 2 * kept s else 2 * kept s + 2) (add_resloving_list s)"
proof -
  let ?x = "s\<lparr>bm_pending_add_resloving_list := False\<rparr>"
  have x: "able e ?x" by (rule able_setup [OF assms]) (use assms in \<open>simp_all add: same_setup_def able_def between_def sizes_ok_def\<close>)
  have d: "kept_due e s \<union> {C_set_rpa_list (bm_resolving_num s)} \<subseteq> insert (C_set_rpa_list (bm_resolving_num s)) (kept_due e ?x)"
    by (auto simp: kept_due_def scan_due_def list_due_def gather_white_list_def split: if_splits)
  have "2 * kept ?x + 2 \<le> (if bm_pending_add_resloving_list s then 2 * kept s else 2 * kept s + 2)" by (simp add: kept_def)
  from served_called [OF x _ d _ this, where a = BLE_ACTV_ACTION_ADD_RESLO_LIST] show ?thesis
    by (simp add: add_resloving_list_def)
qed

lemma served_op:
  assumes "able e s" and "p = P_start_connect \<Longrightarrow> app_ble_pending_to_connect s"
  shows "\<exists>t. run_op e p s = Inr t \<and>
    served e s (kept_due e s \<union> posted_due e s p) (if counted p s then 2 * kept s else 2 * kept s + 2) t"
proof (cases p)
  case P_start_adv
  with served_adv [OF assms(1)] show ?thesis by (simp add: counted_def)
next
  case P_start_scan
  with served_scan [OF assms(1)] show ?thesis by (simp add: counted_def)
next
  case P_start_connect
  with served_connect [OF assms(1)] assms(2) show ?thesis by (simp add: counted_def)
next
  case P_set_all_white_list
  with served_white_list [OF assms(1)] show ?thesis by (simp add: counted_def)
next
  case P_add_resloving_list
  with served_resolving [OF assms(1)] show ?thesis by (simp add: counted_def)
next
  case P_stop_scanning
  then show ?thesis using served_call [OF assms(1)] by (simp add: counted_def ble_stop_scanning_def)
next
  case P_stop_connecting
  then show ?thesis using served_call [OF assms(1)] by (simp add: counted_def ble_stop_connecting_def)
next
  case (P_disconnect i)
  then show ?thesis using served_call [OF assms(1)] by (simp add: counted_def ble_disconnect_def)
qed

text \<open>A round of the thread, or of the layer below, brings the scheduler nearer to its end.\<close>

lemma serve_round:
  assumes "serve_ok e s" and "bm_is_busy s"
  shows "\<exists>t. serve_one e s = Inr t \<and> served e s (due e s) (rounds s - 1) t \<and> rounds s > 0"
proof (cases "bm_posted s")
  case Nil
  define x where "x = s\<lparr>bm_op_actv_idx := 0xff, bm_actv_action := BLE_ACTV_ACTION_IDLE\<rparr>"
  have i: "sizes_ok s" "bm_actv_action s \<noteq> BLE_ACTV_ACTION_IDLE"
    using assms Nil by (auto simp: serve_ok_def ble_inv_def one_op_def)
  have x: "able e x"
    using assms Nil i same_setup_fills [of s x] same_setup_gather [of s x]
    by (auto simp: able_def x_def between_def serve_ok_def sizes_ok_def same_setup_def)
  have a: "app_ble_index_pending_to_disconnect s = app_ble_index_pending_to_disconnect x"
    "bm_actv_action x = BLE_ACTV_ACTION_IDLE" by (simp_all add: x_def app_ble_index_pending_to_disconnect_def)
  have "ble_clear_actv_action (bm_actv_action s) (bm_op_actv_idx s) s = (True, x)"
    using i(2) by (simp add: ble_clear_actv_action_def x_def)
  then have "ble_execute_pending_op (bm_actv_action s) (bm_op_actv_idx s) s = ble_execute_pending_op BLE_ACTV_ACTION_IDLE 0xff x"
    unfolding execute_idle [OF a(2)] using a(1) by (simp add: ble_execute_pending_op_def)
  moreover have "due e s = kept_due e x" "kept x = kept s" "bm_calls x = bm_calls s" "rounds s = 2 * kept s + 2"
    using Nil assms(2) by (simp_all add: due_def x_def rounds_def)
  ultimately show ?thesis
    using Nil served_upd [OF served_next [OF x, where idx = "0xff"], where s = s] by (simp add: serve_one_def)
next
  case (Cons p ps)
  define x where "x = s\<lparr>bm_posted := ps\<rparr>"
  have i: "sizes_ok s" "bm_actv_action s = BLE_ACTV_ACTION_IDLE" "ps = []"
    using assms Cons by (auto simp: serve_ok_def ble_inv_def one_op_def)
  have x: "able e x"
    using assms i same_setup_fills [of s x] same_setup_gather [of s x]
    by (auto simp: able_def x_def between_def serve_ok_def sizes_ok_def same_setup_def)
  have pc: "p = P_start_connect \<Longrightarrow> app_ble_pending_to_connect x"
    using assms Cons by (simp add: serve_ok_def app_ble_pending_to_connect_def x_def)
  have "posted_due e x p = posted_due e s p"
    by (cases p) (simp_all add: x_def scan_due_def list_due_def gather_white_list_def)
  then have "due e s = kept_due e x \<union> posted_due e x p" "kept x = kept s" "bm_calls x = bm_calls s" "counted p x = counted p s"
    "rounds s = 1 + 2 * kept s + (if counted p s then 0 else 2)"
    using Cons i(3) assms(2) by (simp_all add: due_def x_def rounds_def counted_def)
  moreover obtain t where "run_op e p x = Inr t"
    "served e x (kept_due e x \<union> posted_due e x p) (if counted p x then 2 * kept x else 2 * kept x + 2) t"
    using served_op [OF x pc] by auto
  ultimately show ?thesis
    using Cons served_upd [OF \<open>served e x _ _ t\<close>, of s] by (simp add: serve_one_def x_def split: if_splits)
qed

lemma serve_rounds:
  assumes "serve_ok e s" and "rounds s \<le> n"
  shows "\<exists>t cs. ble_serve n e s = Inr t \<and> \<not> bm_is_busy t \<and> ble_inv t \<and> bm_calls t = bm_calls s @ cs \<and> due e s \<subseteq> due e t \<union> set cs"
  using assms
proof (induction n arbitrary: s)
  case 0
  then have "\<not> bm_is_busy s" by (auto simp: rounds_def split: if_splits)
  with 0 show ?case by (auto simp: serve_ok_def)
next
  case (Suc n)
  show ?case
  proof (cases "bm_is_busy s")
    case True
    from serve_round [OF Suc.prems(1) True] obtain u where
      u: "serve_one e s = Inr u" "served e s (due e s) (rounds s - 1) u" "rounds s > 0" by blast
    then obtain cs where cs: "serve_ok e u" "rounds u \<le> n" "bm_calls u = bm_calls s @ cs" "due e s \<subseteq> due e u \<union> set cs"
      using Suc.prems(2) by (auto simp: served_def)
    from Suc.IH [OF cs(1,2)] obtain t ds where
      t: "ble_serve n e u = Inr t" "\<not> bm_is_busy t" "ble_inv t" "bm_calls t = bm_calls u @ ds" "due e u \<subseteq> due e t \<union> set ds" by blast
    have "bm_calls t = bm_calls s @ (cs @ ds)" "due e s \<subseteq> due e t \<union> set (cs @ ds)" using cs t by auto
    moreover have "ble_serve (Suc n) e s = Inr t" using True u(1) t(1) by simp
    ultimately show ?thesis using t(2,3) by blast
  next
    case False
    with Suc.prems show ?thesis by (auto simp: serve_ok_def)
  qed
qed

lemma due_idle: "ble_inv s \<Longrightarrow> \<not> bm_is_busy s \<Longrightarrow> due e s = {}"
proof -
  assume inv: "ble_inv s" and free: "\<not> bm_is_busy s"
  then have "bm_posted s = []" "nothing_kept s" by (simp_all add: ble_inv_def one_op_def)
  moreover from this have "\<not> bm_pendingDisconnect s ! i" if "i < length (bm_pendingDisconnect s)" for i
    using that nth_mem [OF that] by (metis (full_types) nothing_kept_def)
  ultimately show "due e s = {}"
    by (auto simp: due_def kept_due_def nothing_kept_def app_ble_pending_to_connect_def list_ex_iff)
qed

text \<open>The modules that fill in advertising data keep it short enough, and name modules.\<close>

definition handlers_ok :: "adv_fill option list \<Rightarrow> bool" where
  "handlers_ok hs \<longleftrightarrow>
     length hs = BLE_ADV_USER_NUM \<and>
     (\<forall>f p. Some f \<in> set hs \<longrightarrow> legacy_fits p \<longrightarrow>
        legacy_fits (fst (f p)) \<and> (\<forall>c \<in> set (snd (f p)). fst c < BLE_ADV_USER_NUM))"

lemma enable_total: "\<forall>c \<in> set cs. fst c < BLE_ADV_USER_NUM \<Longrightarrow> \<exists>en'. foldM (data_fill_enable tab) cs en = Inr en'"
  by (induction cs arbitrary: en) (auto simp: data_fill_enable_def c_assert_def Let_def split_beta)

lemma fill_one_total:
  assumes "handlers_ok hs" and "user < BLE_ADV_USER_NUM" and "legacy_fits p"
  shows "\<exists>q en'. fill_one tab hs user (p, en) = Inr (q, en') \<and> legacy_fits q"
proof (cases "user = 0 \<or> hs ! user = None")
  case True
  with assms(3) show ?thesis by (auto simp: fill_one_def)
next
  case False
  then obtain f where f: "hs ! user = Some f" by auto
  with assms(1,2) have "Some f \<in> set hs" by (metis handlers_ok_def nth_mem)
  with assms have "legacy_fits (fst (f p))" "\<forall>c \<in> set (snd (f p)). fst c < BLE_ADV_USER_NUM"
    by (auto simp: handlers_ok_def)
  with enable_total [of "snd (f p)" tab en] f False show ?thesis
    by (auto simp: fill_one_def c_assert_def split_beta)
qed

lemma fills_total:
  assumes "handlers_ok hs" and "\<forall>u \<in> set us. u < BLE_ADV_USER_NUM" and "legacy_fits p"
  shows "\<exists>t. foldM (fill_one tab hs) us (p, en) = Inr t"
  using assms(2,3)
proof (induction us arbitrary: p en)
  case (Cons u us)
  from fill_one_total [OF assms(1), of u p tab en] Cons.prems obtain q en' where
    "fill_one tab hs u (p, en) = Inr (q, en')" "legacy_fits q" by auto
  with Cons.IH [of q en'] Cons.prems show ?case by simp
qed simp

lemma handlers_fills:
  assumes "handlers_ok (bm_bleDataFillFunc s)" and "bm_fill_param s = ble_adv_fill_param"
  shows "fills_ok e s"
proof -
  have "\<forall>u \<in> set (fp_adv_user (bm_fill_param s ! a)). u < BLE_ADV_USER_NUM" if "a < BLE_ADV_ACTIVITY_USER_NUM" for a
    using that unfolding assms(2)
    by (auto simp: ble_adv_fill_param_def BLE_ADV_USER_NUM_def BLE_ADV_ACTIVITY_USER_NUM_def less_Suc_eq numeral_eq_Suc)
  moreover have "legacy_fits (config_start e u t)" for u t
    by (simp add: legacy_fits_def config_start_def adv_param_zero_def)
  ultimately have "\<exists>t. foldM (fill_one (bm_fill_param s) (bm_bleDataFillFunc s)) (fp_adv_user (bm_fill_param s ! u)) (config_start e u x, en) = Inr t"
    if "u < BLE_ADV_ACTIVITY_USER_NUM" for u x en
    using fills_total [OF assms(1)] that by blast
  then show ?thesis unfolding fills_ok_def ble_adv_config_param_def by (fastforce split: prod.split)
qed

end
