(* ===== verification/BleRun.thy ===== *)
theory BleRun
  imports BleServe
begin

text \<open>
  The properties of the scheduler of the BLE operations: one operation runs at a time, what waits is served,
  advertising starts only when it is allowed and at the interval that the scenarios and modules ask for; and the
  cases in which the order of requests is lost or a request stops the firmware.
\<close>

section \<open>One operation at a time\<close>

text \<open>C27: In every state that the scheduler can reach, whatever is requested, posted and answered in which order:
  while it is taken, either one function is posted to the thread or one action is in progress below, never both;
  while it is free, nothing is posted, in progress or kept.\<close>

theorem ble_one_at_a_time:
  assumes "ble_reach s"
  shows "if bm_is_busy s then length (bm_posted s) = (if bm_actv_action s = BLE_ACTV_ACTION_IDLE then 1 else 0)
    else bm_posted s = [] \<and> bm_actv_action s = BLE_ACTV_ACTION_IDLE \<and>
      \<not> bm_adv_has_pending_op s \<and> \<not> bm_scan_has_pending_op s \<and> \<not> bm_scan_has_pending_stop_op s \<and>
      \<not> bm_pending_stop_connecting s \<and> \<not> bm_pending_set_white_list s \<and> \<not> bm_pending_add_resloving_list s \<and>
      True \<notin> set (bm_pendingDisconnect s) \<and> \<not> list_ex ii_pendingConnect (bm_bleToConnectInfo s)"
  using reach_inv [OF assms] by (auto simp: ble_defs split: if_splits)

lemma stop_reached: "ble_reach (app_ble_stop_scan app_ble_mode_init)"
  by (rule ble_reach.Step [OF ble_reach.Init ble_step.Call [where c = Stop_Scan]]) simp

theorem ble_one_at_a_time_witness:
  "length (bm_posted (app_ble_stop_scan app_ble_mode_init)) = 1 \<and> bm_posted app_ble_mode_init = []"
proof -
  have "bm_is_busy (app_ble_stop_scan app_ble_mode_init)"
    by (simp add: app_ble_stop_scan_def request_def app_ble_mode_init_def post_def)
  moreover have "bm_actv_action (app_ble_stop_scan app_ble_mode_init) = BLE_ACTV_ACTION_IDLE" "\<not> bm_is_busy app_ble_mode_init"
    by (simp_all add: app_ble_stop_scan_def request_def app_ble_mode_init_def post_def)
  ultimately show ?thesis
    using ble_one_at_a_time [OF stop_reached] ble_one_at_a_time [OF ble_reach.Init] by simp
qed

section \<open>What waits is served\<close>

text \<open>C28: When the thread runs what is posted to it and the layer below ends each action that it is given, the
  scheduler is free after at most two rounds for each thing that is kept and three more, no assertion fails, and
  every call that was due has been made: each disconnection, each connection, the scan, its stop and each list that was
  waiting or posted. Needed are modules that keep their advertising data short, white lists of at most eight
  addresses together, and that no connection is posted that was withdrawn.\<close>

theorem ble_requests_served:
  assumes "ble_inv s" and "handlers_ok (bm_bleDataFillFunc s)" and "bm_fill_param s = ble_adv_fill_param"
    and "\<exists>l. gather_white_list s = Inr l"
    and "P_start_connect \<in> set (bm_posted s) \<Longrightarrow> app_ble_pending_to_connect s"
  shows "\<exists>t cs. ble_serve (2 * kept s + 3) e s = Inr t \<and> \<not> bm_is_busy t \<and> bm_calls t = bm_calls s @ cs \<and> due e s \<subseteq> set cs"
proof -
  have "serve_ok e s" using assms handlers_fills by (simp add: serve_ok_def)
  moreover have "rounds s \<le> 2 * kept s + 3" by (auto simp: rounds_def split: list.split)
  ultimately obtain t cs where t: "ble_serve (2 * kept s + 3) e s = Inr t" "\<not> bm_is_busy t" "ble_inv t"
    "bm_calls t = bm_calls s @ cs" "due e s \<subseteq> due e t \<union> set cs"
    using serve_rounds by blast
  with due_idle [OF t(3,2)] show ?thesis by auto
qed

definition quiet_env :: ble_env where
  "quiet_env =
     \<lparr>be_adv_actv_idx = replicate BLE_ADV_ACTIVITY_USER_NUM INVALID_BLE_ACTIVITY_INDEX, be_adv_started = (\<lambda>_. False),
      be_scan_actv_idx = INVALID_BLE_ACTIVITY_INDEX, be_scan_started = False, be_resolving_num = 0,
      be_stack_ready = True, be_power_off = False, be_sco_active = False, be_max_connections = False,
      be_access_mode = 1, be_battery = 9, be_bt_addr = [1, 2, 3, 4, 5, 6], be_ble_addr = [6, 5, 4, 3, 2, 1]\<rparr>"

definition a_scan :: scan_param where
  "a_scan = \<lparr>sc_scanType = 1, sc_scanWindow = 32, sc_scanInterval = 64\<rparr>"

definition waiting :: ble_mode where
  "waiting = app_ble_cancel_connecting (app_ble_start_scan a_scan (app_ble_refresh_adv_state app_ble_mode_init))"

lemma waiting_eq: "waiting = app_ble_mode_init\<lparr>bm_is_busy := True, bm_posted := [P_start_adv],
    bm_scanPendingInfo := a_scan, bm_scan_has_pending_op := True, bm_pending_stop_connecting := True\<rparr>"
  by (simp add: waiting_def app_ble_cancel_connecting_def app_ble_start_scan_def app_ble_refresh_adv_state_def request_def
      post_def app_ble_mode_init_def)

theorem ble_requests_served_witness:
  "\<exists>t. ble_serve 7 quiet_env waiting = Inr t \<and> \<not> bm_is_busy t \<and>
    {C_stop_connecting, C_start_scanning a_scan} \<subseteq> set (bm_calls t)"
proof -
  have "ble_inv waiting" unfolding waiting_eq
    by (simp add: ble_defs app_ble_mode_init_def)
  moreover have "handlers_ok (bm_bleDataFillFunc waiting)" "bm_fill_param waiting = ble_adv_fill_param"
    by (simp_all add: waiting_eq app_ble_mode_init_def handlers_ok_def)
  moreover have "gather_white_list waiting = Inr []"
    by (simp add: waiting_eq app_ble_mode_init_def gather_white_list_def no_white_list_def BLE_WHITE_LIST_USER_NUM_def eval_nat_numeral)
  ultimately have "\<exists>t cs. ble_serve (2 * kept waiting + 3) quiet_env waiting = Inr t \<and> \<not> bm_is_busy t \<and>
      bm_calls t = bm_calls waiting @ cs \<and> due quiet_env waiting \<subseteq> set cs"
    by (intro ble_requests_served) (auto simp: waiting_eq)
  moreover have "kept waiting = 2"
    by (simp add: waiting_eq kept_def app_ble_mode_init_def no_init_info_def)
  moreover have "due quiet_env waiting = {C_stop_connecting, C_start_scanning a_scan}"
    by (auto simp: due_def kept_due_def waiting_eq app_ble_mode_init_def no_init_info_def scan_due_def quiet_env_def)
  ultimately show ?thesis by auto
qed

section \<open>Advertising\<close>

lemma call_simps:
  "bm_calls (ble_stop_advertising idx s) = bm_calls s @ [C_stop_advertising idx]"
  "bm_calls (appm c (set_current p s)) = bm_calls s @ [c]"
  "bm_adv_user_enable (appm c (set_current p s)) = bm_adv_user_enable s"
  "bm_calls (ble_execute_pending_op a idx s) = bm_calls s"
  by (simp_all add: ble_stop_advertising_def set_current_def appm_def ble_set_actv_action_def ble_execute_pending_op_def
      ble_clear_actv_action_def next_pending_op_def post_def Let_def)

lemma allowed_upd: "ble_adv_is_allowed e (s\<lparr>bm_advParamInfo := i, bm_adv_user_enable := en\<rparr>) = ble_adv_is_allowed e s"
  by (simp add: ble_adv_is_allowed_def)

lemma not_allowed_adv:
  assumes "app_ble_start_adv e s = Inr t" and "\<not> ble_adv_is_allowed e s"
  shows "bm_calls t = bm_calls s \<or>
    (\<exists>idx \<in> set (be_adv_actv_idx e). idx \<noteq> INVALID_BLE_ACTIVITY_INDEX \<and> bm_calls t = bm_calls s @ [C_stop_advertising idx])"
proof (cases "filter (\<lambda>idx. idx \<noteq> INVALID_BLE_ACTIVITY_INDEX) (be_adv_actv_idx e)")
  case Nil
  with assms have "t = ble_execute_pending_op BLE_ACTV_ACTION_IDLE 0xff s" by (simp add: app_ble_start_adv_def)
  then show ?thesis by (simp add: call_simps)
next
  case (Cons idx rest)
  with assms have "t = ble_stop_advertising idx s" by (simp add: app_ble_start_adv_def)
  moreover have "idx \<in> set (be_adv_actv_idx e)" "idx \<noteq> INVALID_BLE_ACTIVITY_INDEX"
    using arg_cong [OF Cons, of set] by auto
  ultimately show ?thesis by (auto simp: call_simps)
qed

text \<open>C33: One run of the advertising operation makes at most one call to the layer below. Advertising is started or its
  data changed only while it is allowed (the stack is up, no power-off, no module has disabled it, no voice call, room
  for a connection), for an activity that a module has enabled and that did not fail before, with the 28 bytes that every
  advertisement of this product carries; an activity is only stopped if it exists.\<close>

theorem adv_only_when_allowed:
  assumes "app_ble_start_adv e s = Inr t" and "length (be_adv_actv_idx e) = BLE_ADV_ACTIVITY_USER_NUM"
  shows "bm_calls t = bm_calls s \<or>
    (\<exists>idx \<in> set (be_adv_actv_idx e). idx \<noteq> INVALID_BLE_ACTIVITY_INDEX \<and> bm_calls t = bm_calls s @ [C_stop_advertising idx]) \<or>
    ble_adv_is_allowed e s \<and>
    (\<exists>p. bm_calls t \<in> {bm_calls s @ [C_start_advertising p], bm_calls s @ [C_update_adv_data p]} \<and>
         ap_actv_user p < BLE_ADV_ACTIVITY_USER_NUM \<and> \<not> bit (bm_isStartAdvFailbf s) (ap_actv_user p) \<and>
         bm_adv_user_enable t ! ap_actv_user p \<noteq> 0 \<and>
         ap_advDataLen p = 28 \<and> (\<exists>rest. ap_advData p = cmt_adv_data e @ rest))"
proof (cases "ble_adv_is_allowed e s")
  case True
  with assms(1) have "start_adv_from e [0..<BLE_ADV_ACTIVITY_USER_NUM] s = Inr t" by (simp add: app_ble_start_adv_def)
  from start_adv_cases [OF this] obtain i en where
    c: "let x = s\<lparr>bm_advParamInfo := i, bm_adv_user_enable := en\<rparr> in
      t = ble_execute_pending_op BLE_ACTV_ACTION_IDLE 0xff x \<or> (\<exists>u \<in> set [0..<BLE_ADV_ACTIVITY_USER_NUM]. adv_result e u x t)" by blast
  define x where "x = s\<lparr>bm_advParamInfo := i, bm_adv_user_enable := en\<rparr>"
  have x: "bm_calls x = bm_calls s" "bm_isStartAdvFailbf x = bm_isStartAdvFailbf s" "ble_adv_is_allowed e x"
    using True by (simp_all add: x_def ble_adv_is_allowed_def)
  from c consider "t = ble_execute_pending_op BLE_ACTV_ACTION_IDLE 0xff x"
    | u where "u < BLE_ADV_ACTIVITY_USER_NUM" "adv_is_started e u" "t = ble_stop_advertising (be_adv_actv_idx e ! u) x"
    | u p where "u < BLE_ADV_ACTIVITY_USER_NUM" "t = ble_adv_refreshing e p x" "ap_actv_user p = u" "carries e p"
      "\<not> bit (bm_isStartAdvFailbf x) u" "bm_adv_user_enable x ! u \<noteq> 0"
    unfolding x_def Let_def adv_result_def by auto
  then show ?thesis
  proof cases
    case 1
    then show ?thesis by (simp add: call_simps x)
  next
    case (2 u)
    then have "be_adv_actv_idx e ! u \<in> set (be_adv_actv_idx e)" using assms(2) by simp
    with 2 show ?thesis by (auto simp: call_simps x adv_is_started_def)
  next
    case (3 u p)
    then show ?thesis using refreshing_cases [of e p x] True x by (auto simp: call_simps carries_def)
  qed
next
  case False
  with not_allowed_adv [OF assms(1)] show ?thesis by auto
qed

text \<open>A module that only enables its own data.\<close>

definition advertised :: ble_mode where
  "advertised = app_ble_register_data_fill_handle 11 (Some (\<lambda>p. (p, [(11, True)]))) app_ble_mode_init"

definition advertised_handlers :: "adv_fill option list" where
  "advertised_handlers = (replicate BLE_ADV_USER_NUM None)[11 := Some (\<lambda>p. (p, [(11, True)]))]"

lemma foldM_same: "(\<And>u. u \<in> set us \<Longrightarrow> f u x = Inr x) \<Longrightarrow> foldM f us x = Inr x"
  by (induction us) (simp_all del: bindE_Inr_iff)

lemma advertised_config:
  "ble_adv_config_param quiet_env 0 advertised = Inr (advertised\<lparr>
     bm_advParamInfo := config_finish quiet_env (config_start quiet_env 0 advertised), bm_adv_user_enable := [2048, 0, 0, 0]\<rparr>)"
proof -
  have "bm_fill_param advertised = ble_adv_fill_param" "bm_adv_user_enable advertised = replicate 4 0"
    "bm_bleDataFillFunc advertised = advertised_handlers"
    by (simp_all add: advertised_def app_ble_register_data_fill_handle_def app_ble_mode_init_def Let_def
        BLE_ADV_USER_NUM_def BLE_ADV_ACTIVITY_USER_NUM_def advertised_handlers_def)
  moreover have "fp_adv_user (ble_adv_fill_param ! 0) = 11 # [1, 5, 6, 7, 8, 9] @ replicate 10 0" by (simp add: ble_adv_fill_param_def)
  moreover have "fill_one ble_adv_fill_param advertised_handlers 11 (p, [0, 0, 0, 0]) = Inr (p, [2048, 0, 0, 0])"
    if "legacy_fits p" for p
    using that by (simp add: fill_one_def advertised_handlers_def BLE_ADV_USER_NUM_def data_fill_enable_def c_assert_def Let_def
        app_ble_param_get_actv_user_from_adv_user_def ble_adv_fill_param_def BLE_ADV_ACTIVITY_USER_NUM_def)
  moreover have "foldM (fill_one ble_adv_fill_param advertised_handlers) ([1, 5, 6, 7, 8, 9] @ replicate 10 0) x = Inr x" for x
    by (rule foldM_same) (cases x, auto simp: fill_one_def advertised_handlers_def BLE_ADV_USER_NUM_def)
  moreover have "legacy_fits (config_start quiet_env 0 advertised)"
    by (simp add: legacy_fits_def config_start_def adv_param_zero_def)
  ultimately show ?thesis
    unfolding ble_adv_config_param_def by (simp del: bindE_Inr_iff add: numeral_eq_Suc)
qed

lemma advertised_started:
  "\<exists>p x. app_ble_start_adv quiet_env advertised = Inr (appm (C_start_advertising p) (set_current p x)) \<and> bm_calls x = []"
proof -
  define s1 where "s1 = advertised\<lparr>bm_advParamInfo := config_finish quiet_env (config_start quiet_env 0 advertised),
    bm_adv_user_enable := [2048, 0, 0, 0]\<rparr>"
  define s2 where "s2 = s1\<lparr>bm_advParamInfo := (bm_advParamInfo s1)\<lparr>ap_actv_user := 0\<rparr>\<rparr>"
  have a: "bm_isStartAdvFailbf advertised = 0" "bm_disablerBitmap advertised = 0" "bm_calls advertised = []"
    by (simp_all add: advertised_def app_ble_register_data_fill_handle_def app_ble_mode_init_def Let_def BLE_ADV_USER_NUM_def)
  have off: "\<not> adv_is_started quiet_env u" if "u < BLE_ADV_ACTIVITY_USER_NUM" for u
    using that by (simp add: adv_is_started_def quiet_env_def)
  have allowed: "ble_adv_is_allowed quiet_env advertised" "ble_adv_is_allowed quiet_env s2"
    using a by (simp_all add: ble_adv_is_allowed_def quiet_env_def s1_def s2_def)
  have "[0..<BLE_ADV_ACTIVITY_USER_NUM] = 0 # [1, 2, 3]" by (simp add: BLE_ADV_ACTIVITY_USER_NUM_def upt_rec)
  moreover have "bm_adv_user_enable s1 ! 0 = 2048" by (simp add: s1_def)
  ultimately have "app_ble_start_adv quiet_env advertised = Inr (ble_adv_refreshing quiet_env (bm_advParamInfo s2) s2)"
    using allowed off [of 0] a advertised_config [folded s1_def]
    by (simp del: bindE_Inr_iff add: app_ble_start_adv_def BLE_ADV_ACTIVITY_USER_NUM_def s2_def)
  moreover have "ap_actv_user (bm_advParamInfo s2) = 0" by (simp add: s2_def)
  moreover have "bm_calls s2 = []" using a by (simp add: s2_def s1_def)
  ultimately show ?thesis
    using off [of 0] allowed by (auto simp: ble_adv_refreshing_def ble_start_adv_def Let_def BLE_ADV_ACTIVITY_USER_NUM_def)
qed

theorem adv_only_when_allowed_witness:
  "\<exists>t p. app_ble_start_adv quiet_env advertised = Inr t \<and> bm_calls t = [C_start_advertising p] \<and>
    ap_advDataLen p = 28 \<and> bm_adv_user_enable t ! ap_actv_user p \<noteq> 0"
proof -
  have a: "bm_calls advertised = []"
    by (simp add: advertised_def app_ble_register_data_fill_handle_def app_ble_mode_init_def Let_def BLE_ADV_USER_NUM_def)
  from advertised_started obtain t p where t: "app_ble_start_adv quiet_env advertised = Inr t" "bm_calls t = [C_start_advertising p]"
    by (auto simp: call_simps)
  have "length (be_adv_actv_idx quiet_env) = BLE_ADV_ACTIVITY_USER_NUM" by (simp add: quiet_env_def)
  from adv_only_when_allowed [OF t(1) this] t(2) a show ?thesis using t(1) by auto
qed

section \<open>The interval\<close>

lemma fold_max: "fold (\<lambda>x acc :: u32. if x \<noteq> 0 \<and> x > acc then x else acc) xs a = Max (insert a (set xs))"
proof (induction xs arbitrary: a)
  case (Cons x xs)
  have "(if x \<noteq> 0 \<and> x > a then x else a) = max a x" by (auto simp: max_def)
  moreover have "Max (insert (max a x) (set xs)) = Max (insert a (set (x # xs)))"
    by (cases "xs = []") (simp_all add: max.assoc)
  ultimately show ?case using Cons.IH by simp
qed simp

lemma fold_min: "fold (\<lambda>x acc :: u32. if x \<noteq> 0 \<and> (acc = 0 \<or> x < acc) then x else acc) xs a =
    (if insert a (set xs) - {0} = {} then 0 else Min (insert a (set xs) - {0}))"
proof (induction xs arbitrary: a)
  case (Cons x xs)
  define b where "b = (if x \<noteq> 0 \<and> (a = 0 \<or> x < a) then x else a)"
  define M where "M = insert b (set xs) - {0}"
  define N where "N = insert a (set (x # xs)) - {0}"
  have "M = {} \<longleftrightarrow> N = {}" by (auto simp: M_def N_def b_def split: if_splits)
  moreover have "Min M = Min N" if "b \<noteq> 0"
  proof (rule Min_eqI [symmetric])
    show "Min M \<in> N"
      using Min_in [of M] that by (auto simp: M_def N_def b_def split: if_splits)
    show "Min M \<le> y" if "y \<in> N" for y
    proof -
      have "y \<in> set xs - {0} \<or> b \<le> y" using that by (auto simp: N_def b_def)
      then show ?thesis using \<open>b \<noteq> 0\<close> by (auto intro: Min_le_iff [THEN iffD2] simp: M_def Min_le_iff)
    qed
  qed (simp add: N_def)
  moreover have "M = N" if "b = 0"
    using that by (auto simp: M_def N_def b_def split: if_splits)
  moreover have "N \<noteq> {}" if "b \<noteq> 0" using that by (auto simp: M_def N_def b_def split: if_splits)
  moreover have "fold (\<lambda>x acc :: u32. if x \<noteq> 0 \<and> (acc = 0 \<or> x < acc) then x else acc) (x # xs) a =
      (if M = {} then 0 else Min M)"
    using Cons.IH [of b] by (simp add: M_def b_def)
  ultimately show ?case unfolding N_def [symmetric] by (cases "b = 0") auto
qed auto

lemma fills_interval:
  assumes "foldM (fill_one tab hs) us (p, en) = Inr (q, en')" and "\<forall>u \<in> set us. u < length hs"
    and "\<And>f r. Some f \<in> set hs \<Longrightarrow> ap_advInterval (fst (f r)) = ap_advInterval r"
  shows "ap_advInterval q = ap_advInterval p"
  using assms(1,2)
proof (induction us arbitrary: p en)
  case (Cons u us)
  from Cons.prems(1) obtain p1 en1 where
    one: "fill_one tab hs u (p, en) = Inr (p1, en1)" and more: "foldM (fill_one tab hs) us (p1, en1) = Inr (q, en')"
    by (cases "fill_one tab hs u (p, en)") auto
  have "ap_advInterval p1 = ap_advInterval p"
  proof (cases "hs ! u")
    case None
    with one show ?thesis by (simp add: fill_one_def split: if_splits)
  next
    case (Some f)
    then have "Some f \<in> set hs" using Cons.prems(2) by (metis list.set_intros(1) nth_mem)
    with assms(3) one Some show ?thesis by (auto simp: fill_one_def c_assert_def split_beta split: if_splits)
  qed
  with Cons.IH [OF more] Cons.prems(2) show ?case by simp
qed simp

text \<open>C34: The interval at which an activity advertises is the longest that a scenario has set for it; if none has, the
  shortest that one of its modules asks for; and 160 units of 0.625 ms if no one asks. Needed is that the modules ask
  by their own entry of the table and leave the interval of the scenarios alone.\<close>

theorem adv_interval_arbitrates:
  assumes "ble_adv_config_param e u s = Inr t"
    and "\<forall>a \<in> set (fp_adv_user (bm_fill_param s ! u)). a < length (bm_bleDataFillFunc s)"
    and "\<And>f p. Some f \<in> set (bm_bleDataFillFunc s) \<Longrightarrow> ap_advInterval (fst (f p)) = ap_advInterval p"
  shows "let S = set (fp_adv_interval (bm_fill_param s ! u)) - {0}; U = set (ap_advUserInterval (bm_advParamInfo t)) - {0} in
    ap_advInterval (bm_advParamInfo t) = (if S \<noteq> {} then Max S else if U \<noteq> {} then Min U else 160)"
proof -
  let ?xs = "fp_adv_interval (bm_fill_param s ! u)"
  from assms(1) obtain q en where q: "foldM (fill_one (bm_fill_param s) (bm_bleDataFillFunc s)) (fp_adv_user (bm_fill_param s ! u))
      (config_start e u s, (bm_adv_user_enable s)[u := 0]) = Inr (q, en)"
    "bm_advParamInfo t = config_finish e q" by (auto simp: ble_adv_config_param_def)
  have "ap_advInterval q = ap_advInterval (config_start e u s)" by (rule fills_interval [OF q(1) assms(2)]) (rule assms(3))
  then have "ap_advInterval q = Max (insert 0 (set ?xs))"
    by (simp add: config_start_def app_ble_param_get_adv_interval_def BLE_ADV_INVALID_INTERVAL_def fold_max)
  moreover have "Max (insert 0 (set ?xs)) = (if set ?xs - {0} = {} then 0 else Max (set ?xs - {0}))"
  proof (cases "set ?xs - {0} = {}")
    case True
    then have all: "insert 0 (set ?xs) = {0}" by auto
    from True show ?thesis unfolding all by simp
  next
    case False
    then have "Max (insert 0 (set ?xs - {0})) = Max (set ?xs - {0})" using Max_insert [of "set ?xs - {0}" 0] by (simp add: max_def)
    with False show ?thesis by simp
  qed
  moreover have "Max (set ?xs - {0}) \<noteq> 0" if "set ?xs - {0} \<noteq> {}"
    using Max_in [of "set ?xs - {0}"] that by auto
  moreover have "Min (set ys - {0}) \<noteq> 0" if "set ys - {0} \<noteq> {}" for ys :: "u32 list"
    using Min_in [of "set ys - {0}"] that by auto
  moreover have "insert 0 B - {0} = B - {0}" for B :: "u32 set" by auto
  ultimately show ?thesis
    unfolding q(2) by (simp add: config_finish_def choose_interval_def least_user_interval_def BLE_ADV_INVALID_INTERVAL_def
        BLE_ADVERTISING_INTERVAL_def fold_min Let_def)
qed

theorem adv_interval_arbitrates_witness:
  "\<exists>t. ble_adv_config_param quiet_env 0 advertised = Inr t \<and> ap_advInterval (bm_advParamInfo t) = 160"
proof -
  have a: "bm_fill_param advertised = ble_adv_fill_param" "bm_bleDataFillFunc advertised = advertised_handlers"
    by (simp_all add: advertised_def app_ble_register_data_fill_handle_def app_ble_mode_init_def Let_def
        BLE_ADV_USER_NUM_def advertised_handlers_def)
  obtain t where t: "ble_adv_config_param quiet_env 0 advertised = Inr t"
    "bm_advParamInfo t = config_finish quiet_env (config_start quiet_env 0 advertised)"
    using advertised_config by simp
  have "let S = set (fp_adv_interval (bm_fill_param advertised ! 0)) - {0}; U = set (ap_advUserInterval (bm_advParamInfo t)) - {0} in
      ap_advInterval (bm_advParamInfo t) = (if S \<noteq> {} then Max S else if U \<noteq> {} then Min U else 160)"
    by (rule adv_interval_arbitrates [OF t(1)])
      (auto simp: a advertised_handlers_def ble_adv_fill_param_def BLE_ADV_USER_NUM_def dest!: set_update_subset_insert [THEN subsetD])
  moreover have "set (fp_adv_interval (bm_fill_param advertised ! 0)) - {0} = {}" "set (ap_advUserInterval (bm_advParamInfo t)) - {0} = {}"
    by (auto simp: a t(2) ble_adv_fill_param_def config_finish_def config_start_def BLE_ADV_INVALID_INTERVAL_def)
  ultimately show ?thesis using t(1) by simp
qed

section \<open>Requests that are lost, or stop the firmware\<close>

lemma idle_state:
  assumes "ble_inv s" and "\<not> bm_is_busy s"
  shows "bm_actv_action s = BLE_ACTV_ACTION_IDLE" "bm_posted s = []" "nothing_kept s" "sizes_ok s"
    "app_ble_index_pending_to_disconnect s = BLE_CONNECTION_MAX"
proof -
  show i: "bm_actv_action s = BLE_ACTV_ACTION_IDLE" "bm_posted s = []" "nothing_kept s" "sizes_ok s"
    using assms by (simp_all add: ble_inv_def one_op_def)
  then have "takeWhile Not (bm_pendingDisconnect s) = bm_pendingDisconnect s"
    unfolding nothing_kept_def takeWhile_eq_all_conv by metis
  with i(4) show "app_ble_index_pending_to_disconnect s = BLE_CONNECTION_MAX"
    unfolding app_ble_index_pending_to_disconnect_def sizes_ok_def by metis
qed

text \<open>The rounds of a session that scans and stops scanning.\<close>

definition scanning :: "scan_param \<Rightarrow> ble_mode \<Rightarrow> bool \<Rightarrow> ble_action \<Rightarrow> u8 \<Rightarrow> posted list \<Rightarrow> bool \<Rightarrow> bool \<Rightarrow> appm_call list \<Rightarrow> scan_param \<Rightarrow> ble_mode" where
  "scanning p s b a x ps f g cs c =
     s\<lparr>bm_is_busy := b, bm_actv_action := a, bm_op_actv_idx := x, bm_posted := ps, bm_scanPendingInfo := p,
       bm_scan_has_pending_op := f, bm_scan_has_pending_stop_op := g, bm_calls := bm_calls s @ cs, bm_scanCurrentInfo := c\<rparr>"

lemma scanning_runs:
  assumes "be_scan_actv_idx e = INVALID_BLE_ACTIVITY_INDEX"
  shows "serve_one e (scanning p s True BLE_ACTV_ACTION_IDLE x [P_disconnect i] f g cs c) =
      Inr (scanning p s True BLE_ACTV_ACTION_DISCONNECTING 0xff [] f g (cs @ [C_disconnect i]) c)"
    "serve_one e (scanning p s True BLE_ACTV_ACTION_IDLE x [P_start_scan] f g cs c) =
      Inr (scanning p s True BLE_ACTV_ACTION_STARTING_SCAN 0xff [] f g (cs @ [C_start_scanning p]) p)"
    "serve_one e (scanning p s True BLE_ACTV_ACTION_IDLE x [P_stop_scanning] f g cs c) =
      Inr (scanning p s True BLE_ACTV_ACTION_STOPPING_SCAN 0xff [] f g (cs @ [C_stop_scanning]) c)"
  using assms by (simp_all add: serve_one_def scanning_def ble_disconnect_def ble_start_scan_def ble_stop_scanning_def appm_def
      ble_set_actv_action_def)

lemma scanning_ends:
  assumes "app_ble_index_pending_to_disconnect s = BLE_CONNECTION_MAX" and "nothing_kept s" and "a \<noteq> BLE_ACTV_ACTION_IDLE"
  shows "serve_one e (scanning p s True a 0xff [] f g cs c) =
      Inr (if f then scanning p s True BLE_ACTV_ACTION_IDLE 0xff [P_start_scan] False g cs c
           else if g then scanning p s True BLE_ACTV_ACTION_IDLE 0xff [P_stop_scanning] f False cs c
           else scanning p s False BLE_ACTV_ACTION_IDLE 0xff [] f g cs c)"
proof -
  let ?x = "scanning p s True a 0xff [] f g cs c" and ?y = "scanning p s True BLE_ACTV_ACTION_IDLE 0xff [] f g cs c"
  have "app_ble_index_pending_to_disconnect ?x = BLE_CONNECTION_MAX"
    using assms(1) by (simp add: app_ble_index_pending_to_disconnect_def scanning_def)
  moreover have "ble_clear_actv_action a 0xff ?x = (True, ?y)" using assms(3) by (simp add: ble_clear_actv_action_def scanning_def)
  ultimately have "ble_execute_pending_op a 0xff ?x = next_pending_op BLE_CONNECTION_MAX ?y"
    unfolding ble_execute_pending_op_def by simp
  moreover have "serve_one e ?x = Inr (ble_execute_pending_op a 0xff ?x)" by (simp add: serve_one_def scanning_def)
  moreover have "next_pending_op BLE_CONNECTION_MAX ?y =
      (if f then scanning p s True BLE_ACTV_ACTION_IDLE 0xff [P_start_scan] False g cs c
       else if g then scanning p s True BLE_ACTV_ACTION_IDLE 0xff [P_stop_scanning] f False cs c
       else scanning p s False BLE_ACTV_ACTION_IDLE 0xff [] f g cs c)"
    using assms(2) by (simp add: next_pending_op_def scanning_def nothing_kept_def app_ble_pending_to_connect_def post_def)
  ultimately show ?thesis by simp
qed

text \<open>While the scheduler is taken, the order of a request to stop scanning and one to scan is lost: whichever came
  first, the scan is started and then stopped. A module that restarts the scan with new parameters ends up with no
  scan.\<close>

theorem scan_order_lost:
  assumes "ble_inv s" and "\<not> bm_is_busy s" and "be_scan_actv_idx e = INVALID_BLE_ACTIVITY_INDEX"
  shows "\<exists>u t. app_ble_start_disconnect i s = Inr u \<and>
    app_ble_start_scan p (app_ble_stop_scan u) = app_ble_stop_scan (app_ble_start_scan p u) \<and>
    ble_serve 7 e (app_ble_start_scan p (app_ble_stop_scan u)) = Inr t \<and> \<not> bm_is_busy t \<and>
    bm_calls t = bm_calls s @ [C_disconnect i, C_start_scanning p, C_stop_scanning]"
proof -
  note i = idle_state [OF assms(1,2)]
  define u where "u = s\<lparr>bm_is_busy := True, bm_posted := [P_disconnect i]\<rparr>"
  define w where "w = scanning p s True BLE_ACTV_ACTION_IDLE (bm_op_actv_idx s) [P_disconnect i] True True [] (bm_scanCurrentInfo s)"
  define t where "t = scanning p s False BLE_ACTV_ACTION_IDLE 0xff [] False False [C_disconnect i, C_start_scanning p, C_stop_scanning] p"
  have u: "app_ble_start_disconnect i s = Inr u" using assms(2) i(2) by (simp add: app_ble_start_disconnect_def u_def post_def)
  have w: "app_ble_start_scan p (app_ble_stop_scan u) = w" "app_ble_stop_scan (app_ble_start_scan p u) = w"
    using i(1) by (simp_all add: app_ble_start_scan_def app_ble_stop_scan_def request_def u_def w_def scanning_def)
  have busy: "bm_is_busy (scanning p s b a x ps f g cs c) = b" for b a x ps f g cs c by (simp add: scanning_def)
  have "ble_serve 7 e w = Inr t"
    by (simp add: numeral_eq_Suc w_def t_def busy scanning_runs [OF assms(3)] scanning_ends [OF i(5,3)] del: bindE_Inr_iff)
  moreover have "\<not> bm_is_busy t" "bm_calls t = bm_calls s @ [C_disconnect i, C_start_scanning p, C_stop_scanning]"
    by (simp_all add: t_def scanning_def)
  ultimately show ?thesis using u w by auto
qed

theorem scan_order_lost_witness:
  "\<exists>u t. app_ble_start_disconnect 0 app_ble_mode_init = Inr u \<and>
    ble_serve 7 quiet_env (app_ble_start_scan a_scan (app_ble_stop_scan u)) = Inr t \<and>
    bm_calls t = [C_disconnect 0, C_start_scanning a_scan, C_stop_scanning]"
proof -
  have "\<not> bm_is_busy app_ble_mode_init" "be_scan_actv_idx quiet_env = INVALID_BLE_ACTIVITY_INDEX" "bm_calls app_ble_mode_init = []"
    by (simp_all add: app_ble_mode_init_def quiet_env_def)
  with scan_order_lost [OF init_inv, where e = quiet_env and i = 0 and p = a_scan] show ?thesis by auto
qed

text \<open>A connection that was requested and posted, and is then withdrawn by a request to disconnect everything before
  the thread has run, stops the firmware: the thread finds no connection to start and fails its assertion.\<close>

theorem disconnect_all_asserts:
  assumes "ble_inv s" and "\<not> bm_is_busy s"
  shows "\<exists>t. bindE (app_ble_start_connect peer own s) app_ble_disconnect_all = Inr t \<and>
    bm_posted t = [P_start_connect] \<and> run_op e P_start_connect (t\<lparr>bm_posted := []\<rparr>) = Inl Assert_Fail"
proof -
  note i = idle_state [OF assms]
  from i(4) obtain a b c x y z where l: "bm_bleToConnectInfo s = [a, b, c]" "bm_pendingDisconnect s = [x, y, z]"
    by (auto simp: sizes_ok_def BLE_CONNECTION_MAX_def numeral_eq_Suc length_Suc_conv)
  moreover have "\<not> ii_pendingConnect a" "\<not> ii_pendingConnect b" "\<not> ii_pendingConnect c"
    using i(3) l by (simp_all add: nothing_kept_def app_ble_pending_to_connect_def)
  ultimately show ?thesis
    using i(2) assms(2)
    by (simp add: app_ble_start_connect_def app_ble_start_connect_with_init_type_def app_ble_disconnect_all_def Let_def
        request_def c_assert_def app_ble_start_disconnect_def post_def ble_start_connect_def BLE_CONNECTION_MAX_def
        numeral_eq_Suc del: bindE_Inr_iff)
qed

theorem disconnect_all_asserts_witness:
  "\<exists>t. bindE (app_ble_start_connect \<lparr>ba_addr = [1, 2, 3, 4, 5, 6], ba_type = 0\<rparr> 0 app_ble_mode_init) app_ble_disconnect_all = Inr t \<and>
    run_op quiet_env P_start_connect (t\<lparr>bm_posted := []\<rparr>) = Inl Assert_Fail"
proof -
  have "\<not> bm_is_busy app_ble_mode_init" by (simp add: app_ble_mode_init_def)
  from disconnect_all_asserts [OF init_inv this] show ?thesis by blast
qed

text \<open>Two users whose white lists together have more than eight addresses overflow the array on the stack in which the
  thread puts them together, although each list alone is cut to eight.\<close>

theorem white_list_overflow:
  assumes "length xs \<le> WHITE_LIST_MAX_NUM" and "length ys \<le> WHITE_LIST_MAX_NUM" and "8 < length xs + length ys"
  shows "\<exists>s t. app_ble_set_white_list 0 xs (of_nat (length xs)) app_ble_mode_init = Inr s \<and>
    app_ble_start_connect_with_white_list ys (of_nat (length ys)) own conn_to s = Inr t \<and>
    bm_posted t = [P_set_all_white_list] \<and> run_op e P_set_all_white_list (t\<lparr>bm_posted := []\<rparr>) = Inl Mem_Fault"
proof -
  let ?w = "\<lambda>zs. \<lparr>wl_enable = True, wl_size = of_nat (length zs), wl_bdaddr = zs @ drop (length zs) (wl_bdaddr no_white_list)\<rparr>"
  have n: "unat (of_nat (length zs) :: u8) = length zs" "\<not> (of_nat WHITE_LIST_MAX_NUM :: u8) < of_nat (length zs)"
    if "length zs \<le> WHITE_LIST_MAX_NUM" for zs :: "ble_bdaddr list"
    using that by (simp_all add: WHITE_LIST_MAX_NUM_def unat_of_nat word_less_nat_alt)
  define s where "s = app_ble_mode_init\<lparr>bm_is_busy := True, bm_posted := [P_set_all_white_list],
    bm_ble_white_list := [?w xs, no_white_list]\<rparr>"
  have s: "app_ble_set_white_list 0 xs (of_nat (length xs)) app_ble_mode_init = Inr s"
    using n [OF assms(1)]
    by (simp add: app_ble_set_white_list_def Let_def app_ble_set_all_white_list_def request_def post_def s_def app_ble_mode_init_def
        BLE_WHITE_LIST_USER_NUM_def numeral_eq_Suc)
  define t where "t = s\<lparr>bm_pending_set_white_list := True, bm_ble_white_list := [?w xs, ?w ys]\<rparr>"
  have "app_ble_set_white_list 1 ys (of_nat (length ys)) s = Inr t"
    using n [OF assms(2)]
    by (simp add: app_ble_set_white_list_def Let_def app_ble_set_all_white_list_def request_def t_def s_def)
  moreover define v where "v = t\<lparr>bm_bleToConnectInfo := (bm_bleToConnectInfo t)[0 := \<lparr>ii_pendingConnect = True,
    ii_init_param = \<lparr>ip_init_type = APP_BLE_INIT_TYPE_AUTO_CONN_EST, ip_conn_to = conn_to, ip_own_addr_type = own,
      ip_peer_addr = \<lparr>ba_addr = empty_addr, ba_type = 0\<rparr>\<rparr>\<rparr>]\<rparr>"
  ultimately have v: "app_ble_start_connect_with_white_list ys (of_nat (length ys)) own conn_to s = Inr v"
    by (simp add: app_ble_start_connect_with_white_list_def app_ble_start_connect_with_init_type_def Let_def t_def s_def
        app_ble_mode_init_def no_init_info_def BLE_CONNECTION_MAX_def numeral_eq_Suc request_def c_assert_def del: bindE_Inr_iff)
  have "gather_white_list (v\<lparr>bm_posted := []\<rparr>) = Inl Mem_Fault"
    using n [OF assms(1)] n [OF assms(2)] assms
    by (simp add: gather_white_list_def v_def t_def s_def WHITE_LIST_MAX_NUM_def no_white_list_def del: bindE_Inr_iff)
  then have "run_op e P_set_all_white_list (v\<lparr>bm_posted := []\<rparr>) = Inl Mem_Fault" by (simp add: set_all_white_list_def)
  moreover have "bm_posted v = [P_set_all_white_list]" by (simp add: v_def t_def s_def)
  ultimately show ?thesis using s v by blast
qed

theorem white_list_overflow_witness:
  "\<exists>s t. app_ble_set_white_list 0 (replicate 5 \<lparr>ba_addr = [1, 2, 3, 4, 5, 6], ba_type = 0\<rparr>) 5 app_ble_mode_init = Inr s \<and>
    app_ble_start_connect_with_white_list (replicate 4 \<lparr>ba_addr = [6, 5, 4, 3, 2, 1], ba_type = 1\<rparr>) 4 0 0 s = Inr t \<and>
    run_op quiet_env P_set_all_white_list (t\<lparr>bm_posted := []\<rparr>) = Inl Mem_Fault"
  using white_list_overflow [of "replicate 5 \<lparr>ba_addr = [1, 2, 3, 4, 5, 6], ba_type = 0\<rparr>"
      "replicate 4 \<lparr>ba_addr = [6, 5, 4, 3, 2, 1], ba_type = 1\<rparr>" 0 0 quiet_env]
  by (auto simp: WHITE_LIST_MAX_NUM_def)

end
