(* ===== verification/BleRec.thy ===== *)
theory BleRec
  imports Mru
begin

unbundle bit_operations_syntax

text \<open>
  The store of paired BLE devices of \<open>services/nv_section/userdata_section/nvrecord_ble.c\<close>: an array of five
  records in the RAM image of the flash section with the number of records in use, the address and the key
  (IRK) of the headset itself, and those of the other earbud. Random bytes are an argument. Trace calls and the
  write protection of the image change nothing; what a caller's buffer gets is part of the result.
\<close>

section \<open>State\<close>

type_synonym ble_addr = "u8 list"

definition BLE_RECORD_NUM :: nat where
  "BLE_RECORD_NUM = 5"

record ble_addr_info =
  bi_addr :: ble_addr
  bi_addr_type :: u8

record ble_pairing_info =
  pr_peer_addr :: ble_addr_info
  pr_peer_rpa_addr :: ble_addr
  pr_EDIV :: u16
  pr_RANDOM :: "u8 list"
  pr_LTK :: "u8 list"
  pr_LOCAL_EDIV :: u16
  pr_LOCAL_RANDOM :: "u8 list"
  pr_LOCAL_LTK :: "u8 list"
  pr_IRK :: "u8 list"
  pr_bond_info_bf :: u8

record ble_device_info =
  dv_pairingInfo :: ble_pairing_info
  dv_volume :: u8

record ble_basic_info =
  bb_ble_addr :: ble_addr
  bb_ble_irk :: "u8 list"

record ble_dev_list =
  dl_saved_list_num :: u32
  dl_self_info :: ble_basic_info
  dl_ble_nv :: "ble_device_info list"

text \<open>The static pointer \<open>nvrecord_ble_p\<close> is \<open>NULL\<close> until it is set to the list in the image, \<open>bl_tws\<close> is the
  information on the other earbud in the image, \<open>bl_update\<close> the flag that asks for a flush, and
  \<open>bl_flushes\<close> counts the calls that carry one out.\<close>

record ble_nv =
  bl_ready :: bool
  bl_list :: ble_dev_list
  bl_tws :: ble_basic_info
  bl_update :: bool
  bl_flushes :: nat

text \<open>All bytes zero.\<close>

definition zero_pairing :: ble_pairing_info where
  "zero_pairing =
     \<lparr>pr_peer_addr = \<lparr>bi_addr = replicate 6 0, bi_addr_type = 0\<rparr>, pr_peer_rpa_addr = replicate 6 0, pr_EDIV = 0,
      pr_RANDOM = replicate 8 0, pr_LTK = replicate 16 0, pr_LOCAL_EDIV = 0, pr_LOCAL_RANDOM = replicate 8 0,
      pr_LOCAL_LTK = replicate 16 0, pr_IRK = replicate 16 0, pr_bond_info_bf = 0\<rparr>"

definition zero_ble_device :: ble_device_info where
  "zero_ble_device = \<lparr>dv_pairingInfo = zero_pairing, dv_volume = 0\<rparr>"

definition INVALID_ADDR :: ble_addr where
  "INVALID_ADDR = replicate 6 0"

definition ble_dev_addr :: "ble_device_info \<Rightarrow> ble_addr" where
  "ble_dev_addr d = bi_addr (pr_peer_addr (dv_pairingInfo d))"

abbreviation is_addr :: "ble_addr \<Rightarrow> ble_device_info \<Rightarrow> bool" where
  "is_addr a d \<equiv> ble_dev_addr d = a"

text \<open>Access through the pointer.\<close>

definition the_list :: "ble_nv \<Rightarrow> ble_dev_list res" where
  "the_list s = (if bl_ready s then Inr (bl_list s) else Inl Mem_Fault)"

section \<open>Looking\<close>

text \<open>\<open>for (i = 0; i < num; i++) if (...) ...\<close>: the index of the first record for which it holds.\<close>

fun first_dev :: "(ble_device_info \<Rightarrow> bool) \<Rightarrow> nat \<Rightarrow> ble_device_info list \<Rightarrow> nat option res" where
  "first_dev P 0 ds = Inr None"
| "first_dev P (Suc n) [] = Inl Mem_Fault"
| "first_dev P (Suc n) (d # ds) =
     (if P d then Inr (Some 0) else bindE (first_dev P n ds) (\<lambda>r. Inr (map_option Suc r)))"

text \<open>The first record that has it, with what the caller takes from it; \<open>NULL\<close> and an empty list give nothing.\<close>

definition pick_dev :: "(ble_device_info \<Rightarrow> bool) \<Rightarrow> (ble_device_info \<Rightarrow> 'a) \<Rightarrow> ble_nv \<Rightarrow> 'a option res" where
  "pick_dev P f s =
     (if \<not> bl_ready s \<or> dl_saved_list_num (bl_list s) = 0 then Inr None
      else bindE (first_dev P (unat (dl_saved_list_num (bl_list s))) (dl_ble_nv (bl_list s))) (\<lambda>r.
           Inr (map_option (\<lambda>i. f (dl_ble_nv (bl_list s) ! i)) r)))"

definition nvrecord_find_arbitrary_peer_ble_device_address :: "ble_nv \<Rightarrow> ble_addr option res" where
  "nvrecord_find_arbitrary_peer_ble_device_address s =
     pick_dev (\<lambda>d. ble_dev_addr d \<noteq> bb_ble_addr (dl_self_info (bl_list s))) ble_dev_addr s"

definition nv_record_get_paired_ble_dev_info_list_num :: "ble_nv \<Rightarrow> u32" where
  "nv_record_get_paired_ble_dev_info_list_num s = (if bl_ready s then dl_saved_list_num (bl_list s) else 0)"

text \<open>The number is read through the pointer before the pointer is checked; it is cut to eight bits.\<close>

definition nv_record_get_ble_pairing_info_through_list_index :: "u8 \<Rightarrow> ble_nv \<Rightarrow> ble_pairing_info option res" where
  "nv_record_get_ble_pairing_info_through_list_index i s =
     bindE (the_list s) (\<lambda>l.
     let n = (ucast (dl_saved_list_num l) :: u8) in
     if n = 0 \<or> n \<le> i then Inr None
     else bindE (get_at (dl_ble_nv l) (unat i)) (\<lambda>d. Inr (Some (dv_pairingInfo d))))"

definition nv_record_blerec_get_local_irk :: "ble_nv \<Rightarrow> u8 list res" where
  "nv_record_blerec_get_local_irk s = bindE (the_list s) (\<lambda>l. Inr (bb_ble_irk (dl_self_info l)))"

definition nv_record_blerec_get_bd_addr_from_irk :: "u8 list \<Rightarrow> ble_nv \<Rightarrow> ble_addr option res" where
  "nv_record_blerec_get_bd_addr_from_irk irk s =
     bindE (the_list s) (\<lambda>_. pick_dev (\<lambda>d. pr_IRK (dv_pairingInfo d) = irk) ble_dev_addr s)"

definition nv_record_blerec_enum_latest_two_paired_dev :: "ble_nv \<Rightarrow> (int \<times> ble_device_info list) res" where
  "nv_record_blerec_enum_latest_two_paired_dev s =
     (let l = bl_list s in
      if \<not> bl_ready s then Inr (-1, [])
      else if dl_saved_list_num l = 0 then Inr (0, [])
      else bindE (get_at (dl_ble_nv l) 0) (\<lambda>d0.
           if dl_saved_list_num l = 1 then Inr (1, [d0])
           else bindE (get_at (dl_ble_nv l) 1) (\<lambda>d1. Inr (2, [d0, d1]))))"

text \<open>What is taken from the first \<open>num\<close> records.\<close>

definition all_devs :: "(ble_device_info \<Rightarrow> 'a) \<Rightarrow> ble_dev_list \<Rightarrow> 'a list res" where
  "all_devs f l =
     (if unat (dl_saved_list_num l) \<le> length (dl_ble_nv l)
      then Inr (map f (take (unat (dl_saved_list_num l)) (dl_ble_nv l))) else Inl Mem_Fault)"

definition nv_record_blerec_enum_paired_dev_addr :: "ble_nv \<Rightarrow> ble_addr_info list res" where
  "nv_record_blerec_enum_paired_dev_addr s =
     c_assert (bl_ready s) (all_devs (\<lambda>d. pr_peer_addr (dv_pairingInfo d)) (bl_list s))"

definition nv_record_ble_fill_irk :: "ble_nv \<Rightarrow> u8 list list res" where
  "nv_record_ble_fill_irk s =
     (if \<not> bl_ready s \<or> dl_saved_list_num (bl_list s) = 0 then Inr []
      else all_devs (\<lambda>d. pr_IRK (dv_pairingInfo d)) (bl_list s))"

definition nv_record_blerec_get_paired_dev_from_addr :: "ble_addr_info \<Rightarrow> ble_nv \<Rightarrow> ble_pairing_info option res" where
  "nv_record_blerec_get_paired_dev_from_addr a s = pick_dev (\<lambda>d. pr_peer_addr (dv_pairingInfo d) = a) dv_pairingInfo s"

definition nv_record_blerec_is_paired_from_addr :: "ble_addr \<Rightarrow> ble_nv \<Rightarrow> bool res" where
  "nv_record_blerec_is_paired_from_addr a s = bindE (pick_dev (is_addr a) ble_dev_addr s) (\<lambda>r. Inr (r \<noteq> None))"

definition ltk_of :: "u16 \<Rightarrow> ble_pairing_info \<Rightarrow> u8 list option" where
  "ltk_of ediv p =
     (if ediv = 0 \<or> ediv \<noteq> 0 \<and> pr_EDIV p = ediv then Some (pr_LTK p)
      else if pr_LOCAL_EDIV p = ediv then Some (pr_LOCAL_LTK p) else None)"

definition nv_record_ble_record_find_ltk :: "ble_addr \<Rightarrow> u16 \<Rightarrow> ble_nv \<Rightarrow> u8 list option res" where
  "nv_record_ble_record_find_ltk a ediv s =
     bindE (pick_dev (\<lambda>d. is_addr a d \<and> ltk_of ediv (dv_pairingInfo d) \<noteq> None) (\<lambda>d. ltk_of ediv (dv_pairingInfo d)) s) (\<lambda>r.
     Inr (Option.bind r id))"

text \<open>Without a \<open>break\<close>, the last record with the address is the one.\<close>

definition nv_record_ble_record_find_device_security_info_through_static_bd_addr :: "ble_addr \<Rightarrow> ble_nv \<Rightarrow> ble_pairing_info option res" where
  "nv_record_ble_record_find_device_security_info_through_static_bd_addr a s =
     (if \<not> bl_ready s \<or> dl_saved_list_num (bl_list s) = 0 then Inr None
      else bindE (all_devs id (bl_list s)) (\<lambda>ds.
           Inr (fold (\<lambda>d r. if is_addr a d then Some (dv_pairingInfo d) else r) ds None)))"

definition nv_record_ble_record_Once_a_device_has_been_bonded :: "ble_nv \<Rightarrow> bool res" where
  "nv_record_ble_record_Once_a_device_has_been_bonded s =
     bindE (pick_dev (\<lambda>d. bit (pr_bond_info_bf (dv_pairingInfo d)) 0) ble_dev_addr s) (\<lambda>r. Inr (r \<noteq> None))"

definition nv_record_ble_read_addr_resolv_supp_via_bdaddr :: "ble_addr \<Rightarrow> ble_nv \<Rightarrow> bool option res" where
  "nv_record_ble_read_addr_resolv_supp_via_bdaddr a s = pick_dev (is_addr a) (\<lambda>d. bit (pr_bond_info_bf (dv_pairingInfo d)) 1) s"

definition nv_record_ble_read_volume_via_bdaddr :: "ble_addr \<Rightarrow> ble_nv \<Rightarrow> u8 option res" where
  "nv_record_ble_read_volume_via_bdaddr a s = pick_dev (is_addr a) dv_volume s"

section \<open>Writing\<close>

definition nvrecord_rebuild_paired_ble_dev_info :: "u8 list \<Rightarrow> ble_dev_list \<Rightarrow> ble_dev_list" where
  "nvrecord_rebuild_paired_ble_dev_info irk l =
     \<lparr>dl_saved_list_num = 0, dl_self_info = \<lparr>bb_ble_addr = replicate 6 0, bb_ble_irk = irk\<rparr>,
      dl_ble_nv = replicate (length (dl_ble_nv l)) zero_ble_device\<rparr>"

definition nv_record_blerec_init :: "ble_addr \<Rightarrow> ble_nv \<Rightarrow> ble_nv" where
  "nv_record_blerec_init local s =
     (if bl_ready s then s
      else
        let self = dl_self_info (bl_list s) in
        s\<lparr>bl_ready := True,
          bl_list := (bl_list s)\<lparr>dl_self_info :=
            (if bb_ble_addr self = INVALID_ADDR then self\<lparr>bb_ble_addr := local\<rparr> else self)\<rparr>\<rparr>)"

text \<open>Room for a new record. It answers whether there is something to write.\<close>

definition blerec_specific_value_prepare :: "ble_pairing_info \<Rightarrow> ble_dev_list \<Rightarrow> (bool \<times> ble_dev_list) res" where
  "blerec_specific_value_prepare param_rec l =
     (let n = dl_saved_list_num l; nv = dl_ble_nv l in
      if n = 0 then Inr (True, l)
      else
        bindE (first_dev (is_addr (bi_addr (pr_peer_addr param_rec))) (unat n) nv) (\<lambda>r.
        case r of
          Some i \<Rightarrow>
            if dv_pairingInfo (nv ! i) = param_rec then Inr (False, l)
            else bindE (shift_up i (nv[i := (nv ! i)\<lparr>dv_pairingInfo := zero_pairing\<rparr>])) (\<lambda>nv1.
                 Inr (True, l\<lparr>dl_saved_list_num := n - 1, dl_ble_nv := nv1\<rparr>))
        | None \<Rightarrow>
            if n = of_nat BLE_RECORD_NUM
            then bindE (shift_up (BLE_RECORD_NUM - 1) nv) (\<lambda>nv1. Inr (True, l\<lparr>dl_saved_list_num := n - 1, dl_ble_nv := nv1\<rparr>))
            else bindE (shift_up (unat n) nv) (\<lambda>nv1. Inr (True, l\<lparr>dl_ble_nv := nv1\<rparr>))))"

definition blerec_write :: "u8 \<Rightarrow> ble_pairing_info \<Rightarrow> ble_dev_list \<Rightarrow> ble_dev_list res" where
  "blerec_write volume param_rec l =
     (let (num, l1) = (if of_nat BLE_RECORD_NUM < dl_saved_list_num l
                       then (0, l\<lparr>dl_saved_list_num := of_nat (BLE_RECORD_NUM - 1)\<rparr>)
                       else (unat (dl_saved_list_num l), l)) in
      bindE (get_at (dl_ble_nv l1) num) (\<lambda>d.
      let nv1 = (dl_ble_nv l1)[num := d\<lparr>dv_pairingInfo := param_rec\<rparr>] in
      bindE (get_at nv1 0) (\<lambda>d0.
      Inr (l1\<lparr>dl_ble_nv := nv1[0 := d0\<lparr>dv_volume := volume\<rparr>], dl_saved_list_num := dl_saved_list_num l1 + 1\<rparr>))))"

text \<open>The first argument is \<open>hal_codec_get_default_dac_volume_index()\<close>.\<close>

definition nv_record_blerec_add :: "u8 \<Rightarrow> ble_pairing_info \<Rightarrow> ble_nv \<Rightarrow> ble_nv res" where
  "nv_record_blerec_add volume param_rec s =
     bindE (the_list s) (\<lambda>l.
     bindE (blerec_specific_value_prepare param_rec l) (\<lambda>(upd, l1).
     if upd then
       bindE (blerec_write volume param_rec l1) (\<lambda>l2.
       Inr (s\<lparr>bl_list := l2, bl_update := True, bl_flushes := bl_flushes s + 1\<rparr>))
     else Inr (s\<lparr>bl_list := l1\<rparr>)))"

text \<open>A change of the first record with an address; the answer is whether there is one.\<close>

definition change_dev :: "ble_addr \<Rightarrow> (ble_device_info \<Rightarrow> ble_device_info) \<Rightarrow> (ble_nv \<Rightarrow> ble_nv) \<Rightarrow> ble_nv \<Rightarrow> (bool \<times> ble_nv) res" where
  "change_dev a f g s =
     (let l = bl_list s in
      if \<not> bl_ready s \<or> dl_saved_list_num l = 0 then Inr (False, s)
      else bindE (first_dev (is_addr a) (unat (dl_saved_list_num l)) (dl_ble_nv l)) (\<lambda>r.
           case r of None \<Rightarrow> Inr (False, s)
           | Some i \<Rightarrow> Inr (True, g (s\<lparr>bl_list := l\<lparr>dl_ble_nv := (dl_ble_nv l)[i := f (dl_ble_nv l ! i)]\<rparr>\<rparr>))))"

definition nv_record_ble_write_addr_resolv_supp_via_bdaddr :: "ble_addr \<Rightarrow> bool \<Rightarrow> ble_nv \<Rightarrow> (bool \<times> ble_nv) res" where
  "nv_record_ble_write_addr_resolv_supp_via_bdaddr a issupport =
     change_dev a (\<lambda>d. let p = dv_pairingInfo d; b = pr_bond_info_bf p in
         d\<lparr>dv_pairingInfo := p\<lparr>pr_bond_info_bf := (if issupport then b OR push_bit 1 1 else b AND NOT (push_bit 1 1))\<rparr>\<rparr>)
       (\<lambda>s. s\<lparr>bl_update := True, bl_flushes := bl_flushes s + 1\<rparr>)"

definition nv_record_ble_write_volume_via_bdaddr :: "ble_addr \<Rightarrow> u8 \<Rightarrow> ble_nv \<Rightarrow> (bool \<times> ble_nv) res" where
  "nv_record_ble_write_volume_via_bdaddr a vol = change_dev a (\<lambda>d. d\<lparr>dv_volume := vol\<rparr>) (\<lambda>s. s\<lparr>bl_update := True\<rparr>)"

definition delete_dev :: "ble_addr \<Rightarrow> (ble_nv \<Rightarrow> ble_nv) \<Rightarrow> ble_nv \<Rightarrow> ble_nv res" where
  "delete_dev a g s =
     (let l = bl_list s; n = unat (dl_saved_list_num l) in
      if \<not> bl_ready s \<or> n = 0 then Inr s
      else bindE (first_dev (is_addr a) n (dl_ble_nv l)) (\<lambda>r.
           case r of None \<Rightarrow> Inr s
           | Some i \<Rightarrow>
               bindE (shift_down i (n - 1 - i) (dl_ble_nv l)) (\<lambda>nv1.
               bindE (set_at nv1 (n - 1) zero_ble_device) (\<lambda>nv2.
               Inr (g (s\<lparr>bl_list := l\<lparr>dl_ble_nv := nv2, dl_saved_list_num := dl_saved_list_num l - 1\<rparr>\<rparr>))))))"

definition nv_record_ble_delete_entry :: "ble_addr \<Rightarrow> ble_nv \<Rightarrow> ble_nv res" where
  "nv_record_ble_delete_entry a = delete_dev a (\<lambda>s. s\<lparr>bl_update := True\<rparr>)"

definition nv_record_ble_del_nv_data_entry :: "ble_addr \<Rightarrow> ble_nv \<Rightarrow> ble_nv res" where
  "nv_record_ble_del_nv_data_entry a = delete_dev a (\<lambda>s. s)"

definition nv_record_ble_delete_all_entry :: "ble_nv \<Rightarrow> ble_nv res" where
  "nv_record_ble_delete_all_entry s =
     (let list_num = unat (ucast (nv_record_get_paired_ble_dev_info_list_num s) :: u8) in
      bindE (the_list s) (\<lambda>l.
      if list_num \<le> length (dl_ble_nv l) then
        Inr (s\<lparr>bl_list := l\<lparr>dl_ble_nv := replicate list_num zero_ble_device @ drop list_num (dl_ble_nv l), dl_saved_list_num := 0\<rparr>,
               bl_update := True\<rparr>)
      else Inl Mem_Fault))"

section \<open>The other earbud\<close>

text \<open>What the other earbud sent; both records of it are kept.\<close>

definition nv_record_extension_update_tws_ble_info :: "ble_basic_info \<Rightarrow> ble_nv \<Rightarrow> ble_nv" where
  "nv_record_extension_update_tws_ble_info info s =
     (let own = dl_self_info (bl_list s) \<noteq> info; peer = bl_tws s \<noteq> info;
          s1 = (if own then s\<lparr>bl_list := (bl_list s)\<lparr>dl_self_info := info\<rparr>, bl_update := True\<rparr> else s);
          s2 = (if peer then s1\<lparr>bl_tws := info, bl_update := True\<rparr> else s1) in
      if own \<or> peer then s2\<lparr>bl_flushes := bl_flushes s2 + 1\<rparr> else s2)"

definition tws_use_same_ble_addr :: "ble_addr \<Rightarrow> ble_nv \<Rightarrow> bool" where
  "tws_use_same_ble_addr peer s \<longleftrightarrow> bb_ble_addr (dl_self_info (bl_list s)) = peer"

text \<open>With \<open>BLE_ADV_RPA_ENABLED\<close> the two keys change places.\<close>

definition nv_record_tws_exchange_ble_info :: "ble_nv \<Rightarrow> ble_nv" where
  "nv_record_tws_exchange_ble_info s =
     (if tws_use_same_ble_addr (bb_ble_addr (bl_tws s)) s then s
      else if bb_ble_addr (bl_tws s) = INVALID_ADDR then s
      else
        let self = dl_self_info (bl_list s) in
        s\<lparr>bl_list := (bl_list s)\<lparr>dl_self_info := self\<lparr>bb_ble_irk := bb_ble_irk (bl_tws s)\<rparr>\<rparr>,
          bl_tws := (bl_tws s)\<lparr>bb_ble_irk := bb_ble_irk self\<rparr>, bl_update := True\<rparr>)"

definition nv_record_tws_get_self_ble_info :: "ble_nv \<Rightarrow> ble_addr" where
  "nv_record_tws_get_self_ble_info s = bb_ble_addr (dl_self_info (bl_list s))"

end
