(* ===== verification/BleRecInv.thy ===== *)
theory BleRecInv
  imports BleRec
begin

text \<open>
  What the store of paired BLE devices of \<open>services/nv_section/userdata_section/nvrecord_ble.c\<close> guarantees: its
  bounds, which device a search finds, what a deletion leaves; and what an addition loses.
\<close>

section \<open>The invariant\<close>

definition blerec_inv :: "ble_nv \<Rightarrow> bool" where
  "blerec_inv s \<longleftrightarrow> bl_ready s \<and> length (dl_ble_nv (bl_list s)) = BLE_RECORD_NUM \<and> unat (dl_saved_list_num (bl_list s)) \<le> BLE_RECORD_NUM"

definition list_entries :: "ble_dev_list \<Rightarrow> ble_device_info list" where
  "list_entries l = take (unat (dl_saved_list_num l)) (dl_ble_nv l)"

abbreviation dev_entries :: "ble_nv \<Rightarrow> ble_device_info list" where
  "dev_entries s \<equiv> list_entries (bl_list s)"

lemma first_dev_cases:
  assumes "n \<le> length ds"
  obtains "first_dev P n ds = Inr None" "\<forall>d \<in> set (take n ds). \<not> P d"
  | i where "first_dev P n ds = Inr (Some i)" "i < n" "P (ds ! i)" "\<forall>d \<in> set (take i ds). \<not> P d"
proof -
  have "first_dev P n ds = Inr None \<and> (\<forall>d \<in> set (take n ds). \<not> P d) \<or>
      (\<exists>i < n. first_dev P n ds = Inr (Some i) \<and> P (ds ! i) \<and> (\<forall>d \<in> set (take i ds). \<not> P d))"
    using assms
  proof (induction P n ds rule: first_dev.induct)
    case (3 P n d ds)
    show ?case
    proof (cases "P d")
      case False
      with 3 have "first_dev P n ds = Inr None \<and> (\<forall>d \<in> set (take n ds). \<not> P d) \<or>
          (\<exists>i < n. first_dev P n ds = Inr (Some i) \<and> P (ds ! i) \<and> (\<forall>d \<in> set (take i ds). \<not> P d))" by simp
      then show ?thesis
      proof (elim disjE exE conjE)
        fix i assume "i < n" "first_dev P n ds = Inr (Some i)" "P (ds ! i)" "\<forall>d \<in> set (take i ds). \<not> P d"
        with False show ?thesis by (intro disjI2 exI [of _ "Suc i"]) simp
      qed (use False in simp)
    qed auto
  qed auto
  then show thesis using that by blast
qed

lemma find_take_Suc: "P (ds ! i) \<Longrightarrow> \<forall>d \<in> set (take i ds). \<not> P d \<Longrightarrow> i < n \<Longrightarrow> n \<le> length ds \<Longrightarrow>
    List.find P (take n ds) = Some (ds ! i)"
proof (induction ds arbitrary: i n)
  case (Cons d ds)
  then show ?case by (cases i; cases n) auto
qed simp

lemma find_none: "\<forall>d \<in> set ds. \<not> P d \<Longrightarrow> List.find P ds = None"
  by (induction ds) auto

text \<open>A search gives the first of the records in use.\<close>

lemma pick_dev_eq:
  assumes "blerec_inv s"
  shows "pick_dev P f s = Inr (map_option f (List.find P (dev_entries s)))"
proof -
  let ?n = "unat (dl_saved_list_num (bl_list s))" and ?ds = "dl_ble_nv (bl_list s)"
  have n: "?n \<le> length ?ds" and r: "bl_ready s" using assms by (simp_all add: blerec_inv_def)
  show ?thesis
  proof (cases "dl_saved_list_num (bl_list s) = 0")
    case True
    then show ?thesis by (simp add: pick_dev_def list_entries_def)
  next
    case False
    with r have p: "pick_dev P f s = bindE (first_dev P ?n ?ds) (\<lambda>r. Inr (map_option (\<lambda>i. f (?ds ! i)) r))"
      by (simp add: pick_dev_def)
    show ?thesis
    proof (cases rule: first_dev_cases [OF n, of P])
      case 1
      then show ?thesis unfolding p by (simp add: find_none list_entries_def)
    next
      case (2 i)
      then show ?thesis unfolding p by (simp add: find_take_Suc [OF 2(3,4,2) n] list_entries_def)
    qed
  qed
qed

lemma is_paired_eq: "blerec_inv s \<Longrightarrow> nv_record_blerec_is_paired_from_addr a s = Inr (a \<in> ble_dev_addr ` set (dev_entries s))"
proof -
  have "(List.find P ds \<noteq> None) = (\<exists>d \<in> set ds. P d)" for P and ds :: "ble_device_info list"
    using find_Some_iff [of P ds] find_None_iff [of P ds] by auto
  then show "blerec_inv s \<Longrightarrow> nv_record_blerec_is_paired_from_addr a s = Inr (a \<in> ble_dev_addr ` set (dev_entries s))"
    by (auto simp: nv_record_blerec_is_paired_from_addr_def pick_dev_eq)
qed

lemma find_ltk_eq: "blerec_inv s \<Longrightarrow>
    nv_record_ble_record_find_ltk a 0 s = Inr (map_option (\<lambda>d. pr_LTK (dv_pairingInfo d)) (List.find (is_addr a) (dev_entries s)))"
  by (cases "List.find (is_addr a) (dev_entries s)") (simp_all add: nv_record_ble_record_find_ltk_def pick_dev_eq ltk_of_def)

section \<open>An addition\<close>

lemma write_eq:
  assumes "length (dl_ble_nv l) = BLE_RECORD_NUM" and "unat (dl_saved_list_num l) < BLE_RECORD_NUM"
  shows "\<exists>l'. blerec_write v p l = Inr l' \<and> length (dl_ble_nv l') = BLE_RECORD_NUM \<and>
    unat (dl_saved_list_num l') = Suc (unat (dl_saved_list_num l)) \<and> dl_self_info l' = dl_self_info l \<and>
    (let n = unat (dl_saved_list_num l); nv1 = (dl_ble_nv l)[n := (dl_ble_nv l ! n)\<lparr>dv_pairingInfo := p\<rparr>] in
     dl_ble_nv l' = nv1[0 := (nv1 ! 0)\<lparr>dv_volume := v\<rparr>])"
proof -
  let ?n = "unat (dl_saved_list_num l)"
  have "\<not> (of_nat BLE_RECORD_NUM :: u32) < dl_saved_list_num l"
    using assms(2) by (simp add: word_less_nat_alt BLE_RECORD_NUM_def)
  moreover have "unat (dl_saved_list_num l + 1) = Suc ?n"
    using assms(2) by (simp add: unat_plus_simple [THEN iffD1] unat_word_ariths BLE_RECORD_NUM_def)
  ultimately show ?thesis
    using assms by (simp add: blerec_write_def Let_def BLE_RECORD_NUM_def)
qed

lemma entries_nth: "blerec_inv s \<Longrightarrow> j < length (dev_entries s) \<Longrightarrow> dl_ble_nv (bl_list s) ! j = dev_entries s ! j"
  by (simp add: list_entries_def)

lemma entries_length: "blerec_inv s \<Longrightarrow> length (dev_entries s) = unat (dl_saved_list_num (bl_list s))"
  by (simp add: list_entries_def blerec_inv_def)

text \<open>The write after the preparation.\<close>

lemma add_eq:
  assumes "bl_ready s" and "blerec_specific_value_prepare p (bl_list s) = Inr (True, l)"
    and "length (dl_ble_nv l) = BLE_RECORD_NUM" and "unat (dl_saved_list_num l) < BLE_RECORD_NUM"
  shows "\<exists>t. nv_record_blerec_add v p s = Inr t \<and> blerec_inv t \<and>
    (let n = unat (dl_saved_list_num l); nv1 = (dl_ble_nv l)[n := (dl_ble_nv l ! n)\<lparr>dv_pairingInfo := p\<rparr>] in
     dev_entries t = take (Suc n) (nv1[0 := (nv1 ! 0)\<lparr>dv_volume := v\<rparr>]))"
  using write_eq [OF assms(3,4), of v p] assms
  by (auto simp: nv_record_blerec_add_def the_list_def blerec_inv_def list_entries_def Let_def)

lemma shifted_nth:
  assumes "n < length b"
  shows "length (take 1 b @ take n b @ drop (n + 1) b) = length b"
    and "j < length b \<Longrightarrow> (take 1 b @ take n b @ drop (n + 1) b) ! j = (if 0 < j \<and> j \<le> n then b ! (j - 1) else b ! j)"
proof -
  have l: "length (take 1 b) = 1" "length (take n b) = n" using assms by auto
  show "length (take 1 b @ take n b @ drop (n + 1) b) = length b" using assms by auto
  show "j < length b \<Longrightarrow> (take 1 b @ take n b @ drop (n + 1) b) ! j = (if 0 < j \<and> j \<le> n then b ! (j - 1) else b ! j)"
    using assms l by (auto simp: nth_append)
qed

lemma ble_add_new:
  assumes inv: "blerec_inv s" and new: "bi_addr (pr_peer_addr p) \<notin> ble_dev_addr ` set (dev_entries s)"
    and some: "dev_entries s \<noteq> []" and m: "m = min (length (dev_entries s)) 4"
  shows "\<exists>t. nv_record_blerec_add v p s = Inr t \<and> blerec_inv t \<and>
    dev_entries t = (hd (dev_entries s))\<lparr>dv_volume := v\<rparr> # take (m - 1) (dev_entries s) @
      [(dev_entries s ! (m - 1))\<lparr>dv_pairingInfo := p\<rparr>]"
proof -
  let ?l = "bl_list s" and ?es = "dev_entries s"
  let ?nv = "dl_ble_nv ?l" and ?n = "unat (dl_saved_list_num ?l)"
  have len: "length ?nv = 5" "?n \<le> 5" "length ?es = ?n" "?n \<noteq> 0" "bl_ready s"
    using inv some by (auto simp: blerec_inv_def BLE_RECORD_NUM_def list_entries_def)
  then have m1: "0 < m" "m < length ?nv" "m \<le> length ?es" using m by auto
  have f: "first_dev (is_addr (bi_addr (pr_peer_addr p))) ?n ?nv = Inr None"
    using first_dev_cases [of ?n ?nv "is_addr (bi_addr (pr_peer_addr p))"] new len
    by (metis (no_types, lifting) image_eqI in_set_conv_nth length_take list_entries_def min_def nth_take)
  define nv1 where "nv1 = take 1 ?nv @ take m ?nv @ drop (m + 1) ?nv"
  have nv1: "length nv1 = 5" "\<And>j. j < 5 \<Longrightarrow> nv1 ! j = (if 0 < j \<and> j \<le> m then ?nv ! (j - 1) else ?nv ! j)"
    using shifted_nth [OF m1(2)] len(1) by (simp_all add: nv1_def)
  obtain l1 where l1: "blerec_specific_value_prepare p ?l = Inr (True, l1)" "dl_ble_nv l1 = nv1" "unat (dl_saved_list_num l1) = m"
  proof (cases "?n = 5")
    case True
    then have n5: "dl_saved_list_num ?l = 5" by (simp add: word_unat_eq_iff)
    with True m len have "m = 4" by simp
    with that [of "?l\<lparr>dl_saved_list_num := 4, dl_ble_nv := nv1\<rparr>"] f n5 shift_up_eq [OF m1(2)] show thesis
      by (simp add: blerec_specific_value_prepare_def BLE_RECORD_NUM_def nv1_def Let_def)
  next
    case False
    then have "dl_saved_list_num ?l \<noteq> 5" "dl_saved_list_num ?l \<noteq> 0" "m = ?n"
      using len m by auto
    with that [of "?l\<lparr>dl_ble_nv := nv1\<rparr>"] f shift_up_eq [OF m1(2)] show thesis
      by (simp add: blerec_specific_value_prepare_def BLE_RECORD_NUM_def nv1_def Let_def)
  qed
  have "take (Suc m) ((nv1[m := (nv1 ! m)\<lparr>dv_pairingInfo := p\<rparr>])[0 := (nv1 ! 0)\<lparr>dv_volume := v\<rparr>]) =
      (hd ?es)\<lparr>dv_volume := v\<rparr> # take (m - 1) ?es @ [(?es ! (m - 1))\<lparr>dv_pairingInfo := p\<rparr>]" (is "?L = ?R")
  proof (rule nth_equalityI)
    show "length ?L = length ?R" using nv1(1) m1 len by simp
    fix j assume "j < length ?L"
    then show "?L ! j = ?R ! j"
      using nv1 m1 len entries_nth [OF inv]
      by (cases j) (auto simp: nth_list_update nth_append hd_conv_nth some)
  qed
  moreover have "length (dl_ble_nv l1) = BLE_RECORD_NUM" "unat (dl_saved_list_num l1) < BLE_RECORD_NUM"
    using l1 nv1(1) m len by (simp_all add: BLE_RECORD_NUM_def)
  ultimately show ?thesis
    using add_eq [OF len(5) l1(1), of v] l1 m1 by (auto simp: Let_def)
qed

lemma add_first:
  assumes "blerec_inv s" and "dev_entries s = []"
  shows "\<exists>t. nv_record_blerec_add v p s = Inr t \<and> blerec_inv t \<and> dev_entries t = [\<lparr>dv_pairingInfo = p, dv_volume = v\<rparr>]"
proof -
  have n: "dl_saved_list_num (bl_list s) = 0" "length (dl_ble_nv (bl_list s)) = BLE_RECORD_NUM" "bl_ready s"
    using assms by (auto simp: list_entries_def blerec_inv_def BLE_RECORD_NUM_def unat_eq_0)
  then have "blerec_specific_value_prepare p (bl_list s) = Inr (True, bl_list s)" by (simp add: blerec_specific_value_prepare_def)
  from add_eq [OF n(3) this n(2), of v] n show ?thesis
    by (auto simp: BLE_RECORD_NUM_def numeral_eq_Suc length_Suc_conv)
qed

lemma shift_up_erased:
  assumes "i < length b"
  shows "shift_up i (b[i := z]) = Inr (if i = 0 then b[0 := z] else take 1 b @ take i b @ drop (i + 1) b)"
proof (cases "i = 0")
  case False
  then show ?thesis using shift_up_eq [of i "b[i := z]"] assms by (simp add: take_update_cancel drop_update_cancel)
qed (simp add: shift_up_def)

text \<open>A device that is there: nothing is written if the information is the same; otherwise its record is given up, those
  before it move one place to the right, and the new record takes the place of the last one.\<close>

lemma ble_add_known:
  assumes inv: "blerec_inv s" and i: "i < length (dev_entries s)" "ble_dev_addr (dev_entries s ! i) = bi_addr (pr_peer_addr p)"
    and first: "\<forall>d \<in> set (take i (dev_entries s)). ble_dev_addr d \<noteq> bi_addr (pr_peer_addr p)"
  shows "\<exists>t. nv_record_blerec_add v p s = Inr t \<and> blerec_inv t \<and> dev_entries t =
    (let es = dev_entries s; n = length es;
         b = (if i = 0 then es[0 := (es ! 0)\<lparr>dv_pairingInfo := zero_pairing\<rparr>] else take 1 es @ take i es @ drop (i + 1) es);
         c = b[n - 1 := (b ! (n - 1))\<lparr>dv_pairingInfo := p\<rparr>] in
     if dv_pairingInfo (es ! i) = p then es else c[0 := (c ! 0)\<lparr>dv_volume := v\<rparr>])"
proof -
  let ?l = "bl_list s" and ?es = "dev_entries s"
  let ?nv = "dl_ble_nv ?l" and ?n = "unat (dl_saved_list_num ?l)" and ?z = "\<lambda>d. d\<lparr>dv_pairingInfo := zero_pairing\<rparr>"
  have len: "length ?nv = 5" "?n \<le> 5" "length ?es = ?n" "?n \<noteq> 0" "bl_ready s" "i < length ?nv" "i < ?n"
    using inv i(1) by (auto simp: blerec_inv_def BLE_RECORD_NUM_def list_entries_def)
  have nl: "?n \<le> length ?nv" using len by simp
  have nz: "dl_saved_list_num ?l \<noteq> 0" using len(4) by auto
  note n = nz unat_minus_one [OF nz]
  have f: "first_dev (is_addr (bi_addr (pr_peer_addr p))) ?n ?nv = Inr (Some i)"
  proof (cases rule: first_dev_cases [OF nl, of "is_addr (bi_addr (pr_peer_addr p))"])
    case 1
    then show ?thesis using i nth_mem [OF i(1)] by (simp add: list_entries_def)
  next
    case (2 k)
    have "\<not> k < i"
    proof
      assume "k < i"
      then have "?es ! k \<in> set (take i ?es)" using i(1) by (metis in_set_conv_nth length_take min.absorb4 nth_take)
      moreover have "?es ! k = ?nv ! k" using 2(2) by (simp add: list_entries_def)
      ultimately show False using 2(3) first by auto
    qed
    moreover have "\<not> i < k"
    proof
      assume "i < k"
      then have "?nv ! i \<in> set (take k ?nv)" using 2(2) len by (metis in_set_conv_nth length_take min.absorb4 nth_take order.strict_trans2)
      then show False using 2(4) i entries_nth [OF inv i(1)] by auto
    qed
    ultimately show ?thesis using 2(1) by simp
  qed
  have same: "?nv ! i = ?es ! i" by (rule entries_nth [OF inv i(1)])
  show ?thesis
  proof (cases "dv_pairingInfo (?es ! i) = p")
    case True
    then show ?thesis
      using f n same inv len(5) by (simp add: nv_record_blerec_add_def the_list_def blerec_specific_value_prepare_def blerec_inv_def)
  next
    case False
    define nv1 where "nv1 = (if i = 0 then ?nv[0 := ?z (?nv ! 0)] else take 1 ?nv @ take i ?nv @ drop (i + 1) ?nv)"
    have sh: "shift_up i (?nv[i := ?z (?nv ! i)]) = Inr nv1"
      unfolding nv1_def by (simp only: shift_up_erased [OF len(6)] split: if_split) simp
    have p: "blerec_specific_value_prepare p ?l = Inr (True, ?l\<lparr>dl_saved_list_num := dl_saved_list_num ?l - 1, dl_ble_nv := nv1\<rparr>)"
      using f n False same sh by (simp add: blerec_specific_value_prepare_def Let_def)
    have nv1: "length nv1 = 5" using len by (auto simp: nv1_def)
    define b where "b = (if i = 0 then ?es[0 := ?z (?es ! 0)] else take 1 ?es @ take i ?es @ drop (i + 1) ?es)"
    have b: "b = take ?n nv1"
    proof (cases "i = ?n - 1")
      case True
      then show ?thesis using len by (auto simp: b_def nv1_def list_entries_def take_update_swap min_def drop_take)
    next
      case False
      then have "i < ?n - 1" using len by simp
      then show ?thesis using len by (auto simp: b_def nv1_def list_entries_def take_update_swap min_def drop_take)
    qed
    then have "take ?n ((nv1[?n - 1 := (nv1 ! (?n - 1))\<lparr>dv_pairingInfo := p\<rparr>])[0 := x]) =
        (b[?n - 1 := (b ! (?n - 1))\<lparr>dv_pairingInfo := p\<rparr>])[0 := x]" for x
      using len nv1 by (simp add: take_update_swap)
    moreover have "nv1[?n - 1 := y] ! 0 = b[?n - 1 := y] ! 0" "nv1 ! (?n - 1) = b ! (?n - 1)" for y
      using b len nv1 by (auto simp: nth_list_update)
    ultimately show ?thesis
      using add_eq [OF len(5) p, of v] nv1 len n False by (simp add: Let_def b_def [symmetric] BLE_RECORD_NUM_def)
  qed
qed

lemma add_inv: "blerec_inv s \<Longrightarrow> \<exists>t. nv_record_blerec_add v p s = Inr t \<and> blerec_inv t"
proof -
  assume inv: "blerec_inv s"
  let ?a = "bi_addr (pr_peer_addr p)" and ?es = "dev_entries s"
  show "\<exists>t. nv_record_blerec_add v p s = Inr t \<and> blerec_inv t"
  proof (cases "\<exists>d \<in> set ?es. ble_dev_addr d = ?a")
    case True
    then obtain i where "i < length ?es" "ble_dev_addr (?es ! i) = ?a" "\<forall>j < i. ble_dev_addr (?es ! j) \<noteq> ?a"
      using ex_least_nat_le [of "\<lambda>i. i < length ?es \<and> ble_dev_addr (?es ! i) = ?a"] by (auto simp: in_set_conv_nth) (meson order.strict_trans)
    moreover from this have "\<forall>d \<in> set (take i ?es). ble_dev_addr d \<noteq> ?a" by (auto simp: in_set_conv_nth)
    ultimately show ?thesis using ble_add_known [OF inv, of i p v] by metis
  next
    case False
    then have "?a \<notin> ble_dev_addr ` set ?es" by auto
    from ble_add_new [OF inv this] add_first [OF inv, of v p] show ?thesis by (cases "?es = []") blast+
  qed
qed

section \<open>A deletion\<close>

definition without_first :: "('a \<Rightarrow> bool) \<Rightarrow> 'a list \<Rightarrow> 'a list" where
  "without_first P xs = takeWhile (\<lambda>x. \<not> P x) xs @ tl (dropWhile (\<lambda>x. \<not> P x) xs)"

lemma without_first_none: "\<forall>x \<in> set xs. \<not> P x \<Longrightarrow> without_first P xs = xs"
  by (simp add: without_first_def takeWhile_eq_all_conv [THEN iffD2] dropWhile_eq_Nil_conv [THEN iffD2])

lemma without_first_at: "i < length xs \<Longrightarrow> P (xs ! i) \<Longrightarrow> \<forall>x \<in> set (take i xs). \<not> P x \<Longrightarrow>
    without_first P xs = take i xs @ drop (Suc i) xs"
proof (induction xs arbitrary: i)
  case (Cons x xs)
  then show ?case by (cases i) (auto simp: without_first_def)
qed simp

text \<open>A deletion takes the first record with the address out, and the flag is set as the operation says.\<close>

lemma delete_eq:
  assumes inv: "blerec_inv s" and g: "\<And>u. bl_ready (g u) = bl_ready u \<and> bl_list (g u) = bl_list u"
  shows "\<exists>t. delete_dev a g s = Inr t \<and> blerec_inv t \<and> dev_entries t = without_first (is_addr a) (dev_entries s) \<and>
    (dev_entries t \<noteq> dev_entries s \<longrightarrow> (\<exists>u. t = g u))"
proof (cases "dl_saved_list_num (bl_list s) = 0")
  case True
  then show ?thesis using inv by (simp add: delete_dev_def list_entries_def without_first_def)
next
  case nz: False
  let ?l = "bl_list s" and ?es = "dev_entries s"
  let ?nv = "dl_ble_nv ?l" and ?n = "unat (dl_saved_list_num ?l)"
  have len: "length ?nv = 5" "?n \<le> length ?nv" "length ?es = ?n" "?n \<noteq> 0" "bl_ready s"
    using inv nz by (auto simp: blerec_inv_def BLE_RECORD_NUM_def list_entries_def unat_eq_0)
  show ?thesis
  proof (cases rule: first_dev_cases [OF len(2), of "is_addr a"])
    case 1
    then show ?thesis using len inv by (simp add: delete_dev_def Let_def list_entries_def without_first_none)
  next
    case (2 i)
    define nv1 where "nv1 = take i ?nv @ take (?n - 1 - i) (drop (i + 1) ?nv) @ drop (?n - 1) ?nv"
    have nv1: "shift_down i (?n - 1 - i) ?nv = Inr nv1" "length nv1 = 5"
      using shift_down_eq [of i "?n - 1 - i" ?nv] 2(2) len by (auto simp: nv1_def)
    define t where "t = g (s\<lparr>bl_list := ?l\<lparr>dl_ble_nv := nv1[?n - 1 := zero_ble_device], dl_saved_list_num := dl_saved_list_num ?l - 1\<rparr>\<rparr>)"
    have t: "delete_dev a g s = Inr t"
      using 2 len nv1 by (simp add: delete_dev_def Let_def t_def)
    have "unat (dl_saved_list_num ?l - 1) = ?n - 1" by (rule unat_minus_one [OF nz])
    then have "dev_entries t = take i ?nv @ take (?n - 1 - i) (drop (i + 1) ?nv)"
      using 2(2) len g by (simp add: t_def list_entries_def nv1_def)
    also have "\<dots> = without_first (is_addr a) ?es"
      using 2 len by (subst without_first_at [of i]) (auto simp: list_entries_def drop_take)
    finally have "dev_entries t = without_first (is_addr a) ?es" .
    moreover have "blerec_inv t"
      using inv g nv1 len \<open>unat (dl_saved_list_num ?l - 1) = ?n - 1\<close> by (simp add: blerec_inv_def t_def BLE_RECORD_NUM_def)
    ultimately show ?thesis using t t_def by blast
  qed
qed

lemma change_inv:
  assumes inv: "blerec_inv s" and g: "\<And>u. bl_ready (g u) = bl_ready u \<and> bl_list (g u) = bl_list u"
  shows "\<exists>b t. change_dev a f g s = Inr (b, t) \<and> blerec_inv t"
proof (cases "dl_saved_list_num (bl_list s) = 0")
  case False
  have n: "unat (dl_saved_list_num (bl_list s)) \<le> length (dl_ble_nv (bl_list s))" using inv by (simp add: blerec_inv_def)
  show ?thesis
    by (cases rule: first_dev_cases [OF n, of "is_addr a"]) (use inv g False in \<open>auto simp: change_dev_def Let_def blerec_inv_def\<close>)
qed (use inv in \<open>auto simp: change_dev_def\<close>)

lemma delete_all_inv: "blerec_inv s \<Longrightarrow> \<exists>t. nv_record_ble_delete_all_entry s = Inr t \<and> blerec_inv t \<and> dev_entries t = []"
proof -
  assume inv: "blerec_inv s"
  have "take_bit 8 n \<le> 5" if "n \<le> 5" for n :: nat using take_bit_nat_less_eq_self [of 8 n] that by linarith
  with inv have "unat (ucast (dl_saved_list_num (bl_list s)) :: u8) \<le> 5"
    by (simp add: blerec_inv_def BLE_RECORD_NUM_def unsigned_ucast_eq)
  with inv show ?thesis
    by (simp add: nv_record_ble_delete_all_entry_def the_list_def nv_record_get_paired_ble_dev_info_list_num_def Let_def
        blerec_inv_def BLE_RECORD_NUM_def list_entries_def)
qed


section \<open>Sessions\<close>

datatype blerec_call =
    Add_Dev u8 ble_pairing_info
  | Delete_Dev ble_addr
  | Delete_Nv_Dev ble_addr
  | Delete_All_Devs
  | Write_Support ble_addr bool
  | Write_Volume ble_addr u8
  | Update_Tws ble_basic_info
  | Exchange_Tws

fun blerec_exec :: "blerec_call \<Rightarrow> ble_nv \<Rightarrow> ble_nv res" where
  "blerec_exec (Add_Dev v p) s = nv_record_blerec_add v p s"
| "blerec_exec (Delete_Dev a) s = nv_record_ble_delete_entry a s"
| "blerec_exec (Delete_Nv_Dev a) s = nv_record_ble_del_nv_data_entry a s"
| "blerec_exec Delete_All_Devs s = nv_record_ble_delete_all_entry s"
| "blerec_exec (Write_Support a b) s = bindE (nv_record_ble_write_addr_resolv_supp_via_bdaddr a b s) (\<lambda>r. Inr (snd r))"
| "blerec_exec (Write_Volume a v) s = bindE (nv_record_ble_write_volume_via_bdaddr a v s) (\<lambda>r. Inr (snd r))"
| "blerec_exec (Update_Tws info) s = Inr (nv_record_extension_update_tws_ble_info info s)"
| "blerec_exec Exchange_Tws s = Inr (nv_record_tws_exchange_ble_info s)"

lemma exec_blerec_inv:
  assumes "blerec_inv s"
  shows "\<exists>t. blerec_exec c s = Inr t \<and> blerec_inv t"
proof (cases c)
  case (Add_Dev v p)
  with add_inv [OF assms] show ?thesis by simp
next
  case (Delete_Dev a)
  have "\<exists>t. nv_record_ble_delete_entry a s = Inr t \<and> blerec_inv t"
    unfolding nv_record_ble_delete_entry_def using delete_eq [OF assms, of "\<lambda>s. s\<lparr>bl_update := True\<rparr>" a] by auto
  with Delete_Dev show ?thesis by simp
next
  case (Delete_Nv_Dev a)
  have "\<exists>t. nv_record_ble_del_nv_data_entry a s = Inr t \<and> blerec_inv t"
    unfolding nv_record_ble_del_nv_data_entry_def using delete_eq [OF assms, of "\<lambda>s. s" a] by auto
  with Delete_Nv_Dev show ?thesis by simp
next
  case Delete_All_Devs
  with delete_all_inv [OF assms] show ?thesis by auto
next
  case (Write_Support a b)
  have "\<exists>r t. nv_record_ble_write_addr_resolv_supp_via_bdaddr a b s = Inr (r, t) \<and> blerec_inv t"
    unfolding nv_record_ble_write_addr_resolv_supp_via_bdaddr_def by (rule change_inv [OF assms]) simp
  with Write_Support show ?thesis by auto
next
  case (Write_Volume a v)
  have "\<exists>r t. nv_record_ble_write_volume_via_bdaddr a v s = Inr (r, t) \<and> blerec_inv t"
    unfolding nv_record_ble_write_volume_via_bdaddr_def by (rule change_inv [OF assms]) simp
  with Write_Volume show ?thesis by auto
next
  case (Update_Tws info)
  with assms show ?thesis by (simp add: nv_record_extension_update_tws_ble_info_def blerec_inv_def Let_def)
next
  case Exchange_Tws
  with assms show ?thesis by (simp add: nv_record_tws_exchange_ble_info_def blerec_inv_def Let_def)
qed

text \<open>The store after it was rebuilt with random bytes and set up with the headset's address.\<close>

definition blerec_fresh :: "u8 list \<Rightarrow> ble_addr \<Rightarrow> ble_nv" where
  "blerec_fresh irk local =
     nv_record_blerec_init local
       \<lparr>bl_ready = False,
        bl_list = nvrecord_rebuild_paired_ble_dev_info irk
          \<lparr>dl_saved_list_num = 0, dl_self_info = \<lparr>bb_ble_addr = [], bb_ble_irk = []\<rparr>, dl_ble_nv = replicate BLE_RECORD_NUM zero_ble_device\<rparr>,
        bl_tws = \<lparr>bb_ble_addr = replicate 6 0, bb_ble_irk = replicate 16 0\<rparr>, bl_update = False, bl_flushes = 0\<rparr>"

lemma fresh_inv: "blerec_inv (blerec_fresh irk local)" "dev_entries (blerec_fresh irk local) = []"
  by (simp_all add: blerec_fresh_def nv_record_blerec_init_def nvrecord_rebuild_paired_ble_dev_info_def blerec_inv_def
      list_entries_def Let_def)

text \<open>C38: Any sequence of pairings, deletions, changes and exchanges with the other earbud, from the store as it is
  rebuilt, returns without an access outside the five records, and the number of records stays within them; the
  searches then return as well.\<close>

theorem blerec_session_bounded:
  "\<exists>t. foldM blerec_exec cs (blerec_fresh irk local) = Inr t \<and>
    length (dl_ble_nv (bl_list t)) = BLE_RECORD_NUM \<and> unat (dl_saved_list_num (bl_list t)) \<le> BLE_RECORD_NUM \<and>
    (\<exists>b. nv_record_blerec_is_paired_from_addr a t = Inr b) \<and> (\<exists>k. nv_record_ble_record_find_ltk a 0 t = Inr k)"
proof -
  have "blerec_inv s \<Longrightarrow> \<exists>t. foldM blerec_exec cs s = Inr t \<and> blerec_inv t" for s
  proof (induction cs arbitrary: s)
    case (Cons c cs)
    with exec_blerec_inv [of s c] show ?case by fastforce
  qed simp
  with fresh_inv(1) obtain t where t: "foldM blerec_exec cs (blerec_fresh irk local) = Inr t" "blerec_inv t" by blast
  with is_paired_eq [OF t(2), of a] find_ltk_eq [OF t(2), of a] show ?thesis by (auto simp: blerec_inv_def)
qed

section \<open>What an addition finds and loses\<close>

lemma dev_addr_simps [simp]:
  "ble_dev_addr (d\<lparr>dv_volume := v\<rparr>) = ble_dev_addr d" "ble_dev_addr (d\<lparr>dv_pairingInfo := p\<rparr>) = bi_addr (pr_peer_addr p)"
  "bi_addr (pr_peer_addr zero_pairing) = INVALID_ADDR"
  by (simp_all add: ble_dev_addr_def zero_pairing_def INVALID_ADDR_def)





definition a_phone :: "u8 \<Rightarrow> u8 \<Rightarrow> ble_pairing_info" where
  "a_phone n key = zero_pairing\<lparr>pr_peer_addr := \<lparr>bi_addr = replicate 6 n, bi_addr_type = 0\<rparr>, pr_LTK := replicate 16 key\<rparr>"

lemma a_phone_simps [simp]: "bi_addr (pr_peer_addr (a_phone n k)) = replicate 6 n" "pr_LTK (a_phone n k) = replicate 16 k"
  by (simp_all add: a_phone_def)


text \<open>From the third device on, each pairing forgets one that was paired before: in a store of two to five devices
  with different addresses, a new device takes the place of the last one (of the fourth, and of the fifth
  as well, in a full store), which is not known any more.\<close>

theorem ble_pairing_forgets:
  assumes inv: "blerec_inv s" and dist: "distinct (map ble_dev_addr (dev_entries s))" and two: "2 \<le> length (dev_entries s)"
    and new: "bi_addr (pr_peer_addr p) \<notin> ble_dev_addr ` set (dev_entries s)" and k: "k = min (length (dev_entries s)) 4 - 1"
  shows "\<exists>t. nv_record_blerec_add v p s = Inr t \<and>
    nv_record_blerec_is_paired_from_addr (bi_addr (pr_peer_addr p)) t = Inr True \<and>
    nv_record_blerec_is_paired_from_addr (ble_dev_addr (dev_entries s ! k)) t = Inr False"
proof -
  let ?es = "dev_entries s"
  have some: "?es \<noteq> []" and k0: "0 < k" "k < length ?es" using two k by auto
  from ble_add_new [OF inv new some refl, of v, folded k] obtain t where t: "nv_record_blerec_add v p s = Inr t" "blerec_inv t"
    "dev_entries t = (hd ?es)\<lparr>dv_volume := v\<rparr> # take k ?es @ [(?es ! k)\<lparr>dv_pairingInfo := p\<rparr>]" by blast
  have "?es ! j = x \<Longrightarrow> j < k \<Longrightarrow> ble_dev_addr x \<noteq> ble_dev_addr (?es ! k)" for j x
    using nth_eq_iff_index_eq [OF dist, of j k] k0 by auto
  then have "ble_dev_addr (?es ! k) \<notin> ble_dev_addr ` set (take k ?es)" "ble_dev_addr (?es ! k) \<noteq> ble_dev_addr (hd ?es)"
    using k0 by (fastforce simp: in_set_conv_nth hd_conv_nth some)+
  moreover have "ble_dev_addr (?es ! k) \<noteq> bi_addr (pr_peer_addr p)" using new k0(2) by (metis image_eqI nth_mem)
  ultimately show ?thesis using t is_paired_eq [OF t(2)] by auto
qed

text \<open>Two phones are paired; the third pairing forgets the second.\<close>

definition two_phones :: ble_nv where
  "two_phones = (case foldM blerec_exec [Add_Dev 8 (a_phone 1 7), Add_Dev 8 (a_phone 2 7)] (blerec_fresh (replicate 16 3) (replicate 6 9)) of
     Inr s \<Rightarrow> s | Inl _ \<Rightarrow> blerec_fresh [] [])"

lemma two_phones: "blerec_inv two_phones" "dev_entries two_phones =
    [\<lparr>dv_pairingInfo = a_phone 1 7, dv_volume = 8\<rparr>, \<lparr>dv_pairingInfo = a_phone 2 7, dv_volume = 8\<rparr>]"
proof -
  let ?f = "blerec_fresh (replicate 16 3) (replicate 6 9)"
  from add_first [OF fresh_inv(1) fresh_inv(2), of 8 "a_phone 1 7"] obtain s where
    s: "nv_record_blerec_add 8 (a_phone 1 7) ?f = Inr s" "blerec_inv s" "dev_entries s = [\<lparr>dv_pairingInfo = a_phone 1 7, dv_volume = 8\<rparr>]" by blast
  have "bi_addr (pr_peer_addr (a_phone 2 7)) \<notin> ble_dev_addr ` set (dev_entries s)" by (simp add: s(3) ble_dev_addr_def)
  from ble_add_new [OF s(2) this _ refl, of 8] obtain t where t: "nv_record_blerec_add 8 (a_phone 2 7) s = Inr t" "blerec_inv t"
    "dev_entries t = [\<lparr>dv_pairingInfo = a_phone 1 7, dv_volume = 8\<rparr>, \<lparr>dv_pairingInfo = a_phone 2 7, dv_volume = 8\<rparr>]"
    by (auto simp: s(3))
  have "two_phones = t" using s(1) t(1) by (simp add: two_phones_def)
  with t show "blerec_inv two_phones" "dev_entries two_phones =
    [\<lparr>dv_pairingInfo = a_phone 1 7, dv_volume = 8\<rparr>, \<lparr>dv_pairingInfo = a_phone 2 7, dv_volume = 8\<rparr>]" by simp_all
qed

theorem ble_pairing_forgets_witness:
  "\<exists>t. nv_record_blerec_add 8 (a_phone 3 7) two_phones = Inr t \<and>
    nv_record_blerec_is_paired_from_addr (replicate 6 2) two_phones = Inr True \<and>
    nv_record_blerec_is_paired_from_addr (replicate 6 2) t = Inr False"
  using ble_pairing_forgets [OF two_phones(1), of "a_phone 3 7" 1 8] is_paired_eq [OF two_phones(1), of "replicate 6 2"]
  by (auto simp: two_phones(2) ble_dev_addr_def)

text \<open>The first device of the store is doubled by the third pairing. When it is then paired again with a new
  key, the search finds its old key; and when it is deleted, it still counts as paired.\<close>

theorem ble_stale_record:
  assumes inv: "blerec_inv s" and two: "2 \<le> length (dev_entries s)"
    and new: "bi_addr (pr_peer_addr p) \<notin> ble_dev_addr ` set (dev_entries s)"
    and again: "bi_addr (pr_peer_addr q) = ble_dev_addr (hd (dev_entries s))" "q \<noteq> dv_pairingInfo (hd (dev_entries s))"
      "bi_addr (pr_peer_addr q) \<noteq> INVALID_ADDR"
  shows "\<exists>t u w. nv_record_blerec_add v p s = Inr t \<and> nv_record_blerec_add v q t = Inr u \<and>
    nv_record_ble_record_find_ltk (bi_addr (pr_peer_addr q)) 0 u = Inr (Some (pr_LTK (dv_pairingInfo (hd (dev_entries s))))) \<and>
    nv_record_ble_delete_entry (bi_addr (pr_peer_addr q)) t = Inr w \<and>
    nv_record_blerec_is_paired_from_addr (bi_addr (pr_peer_addr q)) w = Inr True"
proof -
  define m where "m = min (length (dev_entries s)) 4"
  obtain h hs where es: "dev_entries s = h # hs" "hs \<noteq> []" using two by (cases "dev_entries s") fastforce+
  obtain k where m: "m = Suc (Suc k)" using two by (auto simp: m_def intro: that [of "m - 2"])
  define x where "x = (dev_entries s ! (m - 1))\<lparr>dv_pairingInfo := p\<rparr>"
  from ble_add_new [OF inv new _ m_def, of v] obtain t where t: "nv_record_blerec_add v p s = Inr t" "blerec_inv t"
    and te: "dev_entries t = h\<lparr>dv_volume := v\<rparr> # h # take k hs @ [x]" by (auto simp: es m x_def)
  have first: "0 < length (dev_entries t)" "ble_dev_addr (dev_entries t ! 0) = bi_addr (pr_peer_addr q)"
    using again(1) by (simp_all add: te es)
  from ble_add_known [OF t(2) first, of v] obtain u where u: "nv_record_blerec_add v q t = Inr u" "blerec_inv u"
    and ue: "\<exists>r. dev_entries u = h\<lparr>dv_pairingInfo := zero_pairing, dv_volume := v\<rparr> # h # r"
    using again(2) by (auto simp: te es Let_def)
  have ltk: "nv_record_ble_record_find_ltk (bi_addr (pr_peer_addr q)) 0 u = Inr (Some (pr_LTK (dv_pairingInfo h)))"
    using ue again(1,3) find_ltk_eq [OF u(2)] by (auto simp: es)
  from delete_eq [OF t(2), of "\<lambda>s. s\<lparr>bl_update := True\<rparr>" "bi_addr (pr_peer_addr q)"] obtain w where
    w: "nv_record_ble_delete_entry (bi_addr (pr_peer_addr q)) t = Inr w" "blerec_inv w"
      "dev_entries w = without_first (is_addr (bi_addr (pr_peer_addr q))) (dev_entries t)"
    by (auto simp: nv_record_ble_delete_entry_def)
  have "dev_entries w = h # take k hs @ [x]" using again(1) by (simp add: w(3) te es without_first_def)
  with is_paired_eq [OF w(2)] have "nv_record_blerec_is_paired_from_addr (bi_addr (pr_peer_addr q)) w = Inr True"
    using again(1) by (simp add: es)
  with ltk w(1) t(1) u(1) show ?thesis by (auto simp: es)
qed

theorem ble_stale_record_witness:
  "\<exists>t u. nv_record_blerec_add 8 (a_phone 3 7) two_phones = Inr t \<and> nv_record_blerec_add 8 (a_phone 1 5) t = Inr u \<and>
    nv_record_ble_record_find_ltk (replicate 6 1) 0 u = Inr (Some (replicate 16 7))"
proof -
  have "a_phone 1 5 \<noteq> a_phone 1 7" by (simp add: a_phone_def zero_pairing_def)
  then show ?thesis
    using ble_stale_record [OF two_phones(1), of "a_phone 3 7" "a_phone 1 5" 8]
    by (auto simp: two_phones(2) ble_dev_addr_def INVALID_ADDR_def)
qed

section \<open>The other earbud\<close>

text \<open>C39: An exchange of the keys with the other earbud swaps the two keys if the addresses differ and the other one is
  known, and a second exchange brings them back; after the headset has taken over what the other earbud sent, both
  records are the same and an exchange changes nothing.\<close>

theorem tws_exchange_roundtrip:
  "let t = nv_record_tws_exchange_ble_info s; u = nv_record_tws_exchange_ble_info t;
       own = dl_self_info (bl_list s); peer = bl_tws s; w = nv_record_extension_update_tws_ble_info info s in
    bl_list u = bl_list s \<and> bl_tws u = bl_tws s \<and>
    (if bb_ble_addr own \<noteq> bb_ble_addr peer \<and> bb_ble_addr peer \<noteq> INVALID_ADDR
     then bb_ble_irk (dl_self_info (bl_list t)) = bb_ble_irk peer \<and> bb_ble_irk (bl_tws t) = bb_ble_irk own else t = s) \<and>
    dl_self_info (bl_list w) = info \<and> bl_tws w = info \<and> nv_record_tws_exchange_ble_info w = w"
  by (auto simp: nv_record_tws_exchange_ble_info_def tws_use_same_ble_addr_def nv_record_extension_update_tws_ble_info_def Let_def)

end
