(* ===== verification/BleActv.thy ===== *)
theory BleActv
  imports BleMode
begin

unbundle bit_operations_syntax

text \<open>
  The activities of the BLE link layer, \<open>bthost/service/ble_app/app_main/app.c\<close>, with the handlers of
  \<open>app_main/app_task.c\<close> that drive them: the layer that the scheduler of \<open>BleMode.thy\<close> calls. It keeps the state of up to
  eleven activities (four may advertise, one scans, one connects) and sends commands to the Bluetooth host;
  the host answers each with an event. The host is a library: it is represented by the commands that it got and
  has not answered, in \<open>sy_sent\<close>. Both layers together are one state, as each calls the other.
\<close>

section \<open>Types\<close>

definition BLE_ACTIVITY_MAX :: nat where
  "BLE_ACTIVITY_MAX = 11"

definition RESOLVING_LIST_MAX_NUM :: nat where
  "RESOLVING_LIST_MAX_NUM = 8"

datatype actv_state =
    APP_ACTV_STATE_IDLE
  | APP_ADV_STATE_CREATING | APP_ADV_STATE_SETTING_ADV_DATA | APP_ADV_STATE_SETTING_SCAN_RSP_DATA
  | APP_ADV_STATE_STARTING | APP_ADV_STATE_STARTED | APP_ADV_STATE_STOPPING | APP_ADV_STATE_DELETING
  | APP_SCAN_STATE_CREATING | APP_SCAN_STATE_STARTING | APP_SCAN_STATE_STARTED | APP_SCAN_STATE_STOPPING
  | APP_SCAN_STATE_DELETING
  | APP_CONNECT_STATE_CREATING | APP_CONNECT_STATE_STARTING | APP_CONNECT_STATE_STARTED
  | APP_CONNECT_STATE_STOPPING | APP_CONNECT_STATE_DELETING

text \<open>The numbers of the enumeration, which the code compares and subtracts.\<close>

fun state_code :: "actv_state \<Rightarrow> nat" where
  "state_code APP_ACTV_STATE_IDLE = 0"
| "state_code APP_ADV_STATE_CREATING = 1"
| "state_code APP_ADV_STATE_SETTING_ADV_DATA = 2"
| "state_code APP_ADV_STATE_SETTING_SCAN_RSP_DATA = 3"
| "state_code APP_ADV_STATE_STARTING = 4"
| "state_code APP_ADV_STATE_STARTED = 5"
| "state_code APP_ADV_STATE_STOPPING = 6"
| "state_code APP_ADV_STATE_DELETING = 7"
| "state_code APP_SCAN_STATE_CREATING = 8"
| "state_code APP_SCAN_STATE_STARTING = 9"
| "state_code APP_SCAN_STATE_STARTED = 10"
| "state_code APP_SCAN_STATE_STOPPING = 11"
| "state_code APP_SCAN_STATE_DELETING = 12"
| "state_code APP_CONNECT_STATE_CREATING = 13"
| "state_code APP_CONNECT_STATE_STARTING = 14"
| "state_code APP_CONNECT_STATE_STARTED = 15"
| "state_code APP_CONNECT_STATE_STOPPING = 16"
| "state_code APP_CONNECT_STATE_DELETING = 17"

datatype connect_state = BLE_DISCONNECTED | BLE_DISCONNECTING | BLE_CONNECTED

record conn_context =
  cx_status :: connect_state
  cx_bdAddr :: bd_addr

text \<open>The parameters with which an advertising activity is created, started and scanned for.\<close>

record create_adv =
  ca_type :: adv_mode
  ca_tx_level :: tx_power_level
  ca_disc_mode :: adv_disc_mode
  ca_with_flags :: bool
  ca_prop :: u16
  ca_own_addr_type :: u8
  ca_local_addr :: bd_addr
  ca_peer_addr :: ble_bdaddr
  ca_filter_pol :: adv_filter
  ca_adv_intv :: u32
  ca_adv_sid :: "nat option"

record start_scan =
  ss_selective :: bool
  ss_accept_rpa :: bool
  ss_scan_intv :: u16
  ss_scan_wd :: u16

datatype gapm_cmd =
    G_create_adv create_adv | G_create_scan bool | G_create_init u8
  | G_start_adv u8 | G_start_scan u8 start_scan | G_start_init u8 init_param
  | G_stop u8 | G_delete u8
  | G_set_adv_data bool u8 "u8 list" | G_set_scan_rsp_data u8 "u8 list"
  | G_set_wl "ble_bdaddr list" | G_set_ral nat | G_disconnect nat

text \<open>The part of \<open>app_env\<close> that the activities use. The white list and the devices of the resolving list stand with
  their sizes.\<close>

record actv_env =
  ae_state :: "actv_state list"
  ae_adv_actv_idx :: "u8 list"
  ae_scan_actv_idx :: u8
  ae_connect_actv_idx :: u8
  ae_need_restart_adv :: bool
  ae_need_update_adv :: bool
  ae_need_set_rsp_data :: bool
  ae_advParam :: adv_param
  ae_need_restart_scan :: bool
  ae_scanIntervalInMs :: u16
  ae_scanWindowInMs :: u16
  ae_scanFiltPolicy :: u32
  ae_need_restart_connect :: bool
  ae_init_param :: init_param
  ae_need_set_white_list :: bool
  ae_setting_white_list :: bool
  ae_white_list :: "ble_bdaddr list"
  ae_need_add_resolving :: bool
  ae_adding_resolving :: bool
  ae_resolving_num :: nat
  ae_context :: "conn_context list"

record ble_sys =
  sy_mode :: ble_mode
  sy_app :: actv_env
  sy_sent :: "gapm_cmd list"

section \<open>Access to the state\<close>

definition upd_app :: "(actv_env \<Rightarrow> actv_env) \<Rightarrow> ble_sys \<Rightarrow> ble_sys" where
  "upd_app f s = s\<lparr>sy_app := f (sy_app s)\<rparr>"

definition upd_mode :: "(ble_mode \<Rightarrow> ble_mode) \<Rightarrow> ble_sys \<Rightarrow> ble_sys" where
  "upd_mode f s = s\<lparr>sy_mode := f (sy_mode s)\<rparr>"

definition ke_msg_send :: "gapm_cmd \<Rightarrow> ble_sys \<Rightarrow> ble_sys" where
  "ke_msg_send c s = s\<lparr>sy_sent := sy_sent s @ [c]\<rparr>"

definition actv_state_at :: "actv_env \<Rightarrow> u8 \<Rightarrow> actv_state" where
  "actv_state_at a idx = ae_state a ! unat idx"

definition put_state :: "u8 \<Rightarrow> actv_state \<Rightarrow> ble_sys \<Rightarrow> ble_sys" where
  "put_state idx st = upd_app (\<lambda>a. a\<lparr>ae_state := (ae_state a)[unat idx := st]\<rparr>)"

text \<open>Reading the state of an activity: the index must be in the array.\<close>

definition with_state :: "u8 \<Rightarrow> ble_sys \<Rightarrow> (actv_state \<Rightarrow> 'a res) \<Rightarrow> 'a res" where
  "with_state idx s k = (if unat idx < BLE_ACTIVITY_MAX then k (actv_state_at (sy_app s) idx) else Inl Mem_Fault)"

definition ended :: "ble_action \<Rightarrow> u8 \<Rightarrow> ble_sys \<Rightarrow> ble_sys" where
  "ended a idx = upd_mode (ble_execute_pending_op a idx)"

text \<open>What the scheduler reads of the activities.\<close>

definition actv_view :: "actv_env \<Rightarrow> ble_env \<Rightarrow> ble_env" where
  "actv_view a e = e\<lparr>be_adv_actv_idx := ae_adv_actv_idx a,
     be_adv_started := (\<lambda>idx. actv_state_at a idx = APP_ADV_STATE_STARTED),
     be_scan_actv_idx := ae_scan_actv_idx a,
     be_scan_started := (actv_state_at a (ae_scan_actv_idx a) = APP_SCAN_STATE_STARTED),
     be_resolving_num := ae_resolving_num a\<rparr>"

section \<open>The state of an activity\<close>

definition actv_transition :: "actv_state \<Rightarrow> actv_state \<Rightarrow> bool" where
  "actv_transition old new \<longleftrightarrow>
     old = APP_ACTV_STATE_IDLE \<and> new \<in> {APP_ADV_STATE_CREATING, APP_SCAN_STATE_CREATING, APP_CONNECT_STATE_CREATING} \<or>
     new = APP_ACTV_STATE_IDLE \<and> old \<in> {APP_ADV_STATE_DELETING, APP_SCAN_STATE_DELETING, APP_CONNECT_STATE_DELETING} \<or>
     old = APP_ADV_STATE_STARTED \<and>
       new \<in> {APP_ADV_STATE_SETTING_ADV_DATA, APP_ADV_STATE_SETTING_SCAN_RSP_DATA, APP_ADV_STATE_STARTING} \<or>
     new = APP_ADV_STATE_STARTING \<and> old = APP_ADV_STATE_SETTING_ADV_DATA \<or>
     old = APP_ADV_STATE_STARTING \<and> new = APP_ADV_STATE_DELETING \<or>
     old = APP_SCAN_STATE_STARTING \<and> new = APP_SCAN_STATE_DELETING \<or>
     old = APP_ADV_STATE_CREATING \<and> new \<in> {APP_ADV_STATE_STARTING, APP_ADV_STATE_SETTING_SCAN_RSP_DATA} \<or>
     old = APP_SCAN_STATE_STARTED \<and> new = APP_SCAN_STATE_STARTING \<or>
     old = APP_CONNECT_STATE_STARTING \<and> new = APP_CONNECT_STATE_DELETING \<or>
     state_code new = state_code old + 1"

definition appm_update_actv_state :: "u8 \<Rightarrow> actv_state \<Rightarrow> ble_sys \<Rightarrow> ble_sys res" where
  "appm_update_actv_state idx new s =
     c_assert (unat idx < BLE_ACTIVITY_MAX)
       (c_assert (actv_transition (actv_state_at (sy_app s) idx) new) (Inr (put_state idx new s)))"

definition appm_delete_activity :: "u8 \<Rightarrow> ble_sys \<Rightarrow> ble_sys" where
  "appm_delete_activity idx = ke_msg_send (G_delete idx)"

definition appm_adv_activity_index_init :: "actv_env \<Rightarrow> actv_env" where
  "appm_adv_activity_index_init a =
     a\<lparr>ae_adv_actv_idx := replicate BLE_ADV_ACTIVITY_USER_NUM INVALID_BLE_ACTIVITY_INDEX\<rparr>"

definition appm_check_adv_activity_index :: "u8 \<Rightarrow> ble_sys \<Rightarrow> bool" where
  "appm_check_adv_activity_index idx s \<longleftrightarrow> idx \<in> set (ae_adv_actv_idx (sy_app s))"

fun clear_first :: "u8 \<Rightarrow> u8 list \<Rightarrow> u8 list" where
  "clear_first x [] = []"
| "clear_first x (y # ys) = (if y = x then INVALID_BLE_ACTIVITY_INDEX # ys else y # clear_first x ys)"

definition appm_clear_adv_activity_index :: "u8 \<Rightarrow> ble_sys \<Rightarrow> ble_sys" where
  "appm_clear_adv_activity_index idx = upd_app (\<lambda>a. a\<lparr>ae_adv_actv_idx := clear_first idx (ae_adv_actv_idx a)\<rparr>)"

section \<open>Advertising\<close>

definition appm_kick_off_advertising :: "u8 \<Rightarrow> ble_sys \<Rightarrow> ble_sys res" where
  "appm_kick_off_advertising idx s = appm_update_actv_state idx APP_ADV_STATE_STARTING (ke_msg_send (G_start_adv idx) s)"

text \<open>The states between \<open>STARTED\<close> and \<open>DELETING\<close> of a kind of activity.\<close>

definition going_down :: "actv_state \<Rightarrow> actv_state \<Rightarrow> actv_state \<Rightarrow> bool" where
  "going_down started deleting st \<longleftrightarrow> state_code started < state_code st \<and> state_code st \<le> state_code deleting"

definition appm_stop_advertising :: "u8 \<Rightarrow> ble_sys \<Rightarrow> ble_sys res" where
  "appm_stop_advertising idx s =
     (if idx = INVALID_BLE_ACTIVITY_INDEX then Inr (ended BLE_ACTV_ACTION_STOPPING_ADV idx s)
      else with_state idx s (\<lambda>st.
        if st = APP_ADV_STATE_STARTED then appm_update_actv_state idx APP_ADV_STATE_STOPPING (ke_msg_send (G_stop idx) s)
        else if going_down APP_ADV_STATE_STARTED APP_ADV_STATE_DELETING st then Inr s
        else Inr (ended BLE_ACTV_ACTION_STOPPING_ADV idx s)))"

text \<open>The bytes of a message come from the array and fill one of the same size.\<close>

definition message_data :: "u8 \<Rightarrow> u8 list \<Rightarrow> u8 list res" where
  "message_data n d = (if unat n \<le> EXT_ADV_DATA_LEN then Inr (take (unat n) d) else Inl Mem_Fault)"

definition clear_update :: "ble_sys \<Rightarrow> ble_sys" where
  "clear_update = upd_app (\<lambda>a. a\<lparr>ae_need_update_adv := False\<rparr>)"

definition appm_set_adv_data :: "u8 \<Rightarrow> ble_sys \<Rightarrow> ble_sys res" where
  "appm_set_adv_data idx s =
     (let p = ae_advParam (sy_app s) in
      bindE (message_data (ap_advDataLen p) (ap_advData p)) (\<lambda>d.
      let s1 = ke_msg_send (G_set_adv_data (ap_advMode p = ADV_MODE_PERIODIC) idx d) s in
      if \<not> ae_need_set_rsp_data (sy_app s) then
        if ae_need_update_adv (sy_app s) then appm_update_actv_state idx APP_ADV_STATE_STARTING (clear_update s1)
        else appm_update_actv_state idx APP_ADV_STATE_SETTING_SCAN_RSP_DATA s1
      else appm_update_actv_state idx APP_ADV_STATE_SETTING_ADV_DATA s1))"

definition appm_set_scan_rsp_data :: "u8 \<Rightarrow> ble_sys \<Rightarrow> ble_sys res" where
  "appm_set_scan_rsp_data idx s =
     (let p = ae_advParam (sy_app s) in
      bindE (message_data (ap_scanRspDataLen p) (ap_scanRspData p)) (\<lambda>d.
      let s1 = ke_msg_send (G_set_scan_rsp_data idx d) s in
      if ae_need_update_adv (sy_app s) then appm_update_actv_state idx APP_ADV_STATE_STARTING (clear_update s1)
      else appm_update_actv_state idx APP_ADV_STATE_SETTING_SCAN_RSP_DATA s1))"

text \<open>The properties and the discoverability by the type of the advertisement (\<open>CONNECTABLE\<close> is 1, \<open>SCANNABLE\<close> 2,
  \<open>DIRECTED\<close> 4, \<open>HDC\<close> 8).\<close>

definition GAPM_ADV_PROP_UNDIR_CONN_MASK :: u16 where
  "GAPM_ADV_PROP_UNDIR_CONN_MASK = 3"

definition GAPM_ADV_PROP_NON_CONN_SCAN_MASK :: u16 where
  "GAPM_ADV_PROP_NON_CONN_SCAN_MASK = 2"

fun adv_prop :: "adv_type \<Rightarrow> u16" where
  "adv_prop ADV_TYPE_UNDIRECT = GAPM_ADV_PROP_UNDIR_CONN_MASK"
| "adv_prop ADV_TYPE_DIRECT_LDC = 5"
| "adv_prop ADV_TYPE_DIRECT_HDC = 13"
| "adv_prop ADV_TYPE_CONN_EXT_ADV = 1"
| "adv_prop ADV_TYPE_NON_CONN_SCAN = GAPM_ADV_PROP_NON_CONN_SCAN_MASK"
| "adv_prop ADV_TYPE_NON_CONN_NON_SCAN = 0"
| "adv_prop ADV_TYPE_EXT_CON_DIRECT = 5"

definition directed :: "adv_type \<Rightarrow> bool" where
  "directed t \<longleftrightarrow> t \<in> {ADV_TYPE_DIRECT_LDC, ADV_TYPE_DIRECT_HDC, ADV_TYPE_EXT_CON_DIRECT}"

text \<open>The command of the build with resolvable private addresses and the interval in milliseconds. The number that the radio
  driver gives for the level of the power, and the interval of periodic advertising, are left out.\<close>

definition create_adv_cmd :: "adv_param \<Rightarrow> create_adv" where
  "create_adv_cmd p =
     \<lparr>ca_type = ap_advMode p, ca_tx_level = ap_advTxPwr p,
      ca_disc_mode = (if directed (ap_advType p) then ADV_DISC_MODE_NON_DISC else ap_discMode p),
      ca_with_flags = (\<not> ap_flags_by_app p), ca_prop = adv_prop (ap_advType p), ca_own_addr_type = ap_localAddrType p,
      ca_local_addr = replicate 6 0xff, ca_peer_addr = ap_peerAddr p, ca_filter_pol = ap_filter_pol p,
      ca_adv_intv = ap_advInterval p * 8 div 5,
      ca_adv_sid = (if ap_advMode p \<noteq> ADV_MODE_LEGACY then Some (ap_actv_user p) else None)\<rparr>"

definition wants_rsp_data :: "adv_param \<Rightarrow> bool" where
  "wants_rsp_data p \<longleftrightarrow> ap_scanRspDataLen p \<noteq> 0 \<and>
     (adv_prop (ap_advType p) = GAPM_ADV_PROP_NON_CONN_SCAN_MASK \<or> adv_prop (ap_advType p) = GAPM_ADV_PROP_UNDIR_CONN_MASK)"

definition adv_user_idx :: "nat \<Rightarrow> ble_sys \<Rightarrow> u8 res" where
  "adv_user_idx u s = (if u < BLE_ADV_ACTIVITY_USER_NUM then Inr (ae_adv_actv_idx (sy_app s) ! u) else Inl Mem_Fault)"

definition appm_start_advertising :: "adv_param \<Rightarrow> ble_sys \<Rightarrow> ble_sys res" where
  "appm_start_advertising p s =
     bindE (adv_user_idx (ap_actv_user p) s) (\<lambda>idx.
     let s1 = upd_app (\<lambda>a. a\<lparr>ae_advParam := p, ae_need_set_rsp_data := False\<rparr>) s in
     if idx = INVALID_BLE_ACTIVITY_INDEX then
       c_assert (legacy_fits p)
         (Inr (ke_msg_send (G_create_adv (create_adv_cmd p))
           (upd_app (\<lambda>a. a\<lparr>ae_need_set_rsp_data := wants_rsp_data p\<rparr>) s1)))
     else appm_stop_advertising idx (upd_app (\<lambda>a. a\<lparr>ae_need_restart_adv := True\<rparr>) s1))"

definition rsp_data_changed :: "adv_param \<Rightarrow> adv_param \<Rightarrow> bool" where
  "rsp_data_changed new old \<longleftrightarrow>
     (ap_scanRspDataLen new \<noteq> ap_scanRspDataLen old \<or>
      take (unat (ap_scanRspDataLen new)) (ap_scanRspData new) \<noteq> take (unat (ap_scanRspDataLen new)) (ap_scanRspData old)) \<and>
     ap_scanRspDataLen new \<noteq> 0"

definition appm_update_adv_data :: "adv_param \<Rightarrow> ble_sys \<Rightarrow> ble_sys res" where
  "appm_update_adv_data p s =
     bindE (adv_user_idx (ap_actv_user p) s) (\<lambda>idx.
     c_assert (idx \<noteq> INVALID_BLE_ACTIVITY_INDEX)
       (with_state idx s (\<lambda>st.
         c_assert (st = APP_ADV_STATE_STARTED)
           (appm_set_adv_data idx
             (upd_app (\<lambda>a. a\<lparr>ae_need_set_rsp_data := rsp_data_changed p (ae_advParam a), ae_advParam := p,
                            ae_need_update_adv := True\<rparr>) s)))))"

section \<open>Scanning\<close>

text \<open>\<open>BLE_SCAN_ALLOW_ADV_WLST\<close> is bit 0 of the policy, \<open>BLE_SCAN_ALLOW_ADV_ALL_AND_INIT_RPA\<close> bit 1. Times of 625
  microseconds.\<close>

definition scan_slots :: "u16 \<Rightarrow> u16" where
  "scan_slots ms = of_nat (unat ms * 1000 div 625)"

definition start_scan_cmd :: "actv_env \<Rightarrow> start_scan" where
  "start_scan_cmd a =
     \<lparr>ss_selective = bit (ae_scanFiltPolicy a) 0, ss_accept_rpa = bit (ae_scanFiltPolicy a) 1,
      ss_scan_intv = scan_slots (ae_scanIntervalInMs a), ss_scan_wd = scan_slots (ae_scanWindowInMs a)\<rparr>"

definition appm_kick_off_scanning :: "ble_sys \<Rightarrow> ble_sys res" where
  "appm_kick_off_scanning s =
     (let idx = ae_scan_actv_idx (sy_app s) in
      appm_update_actv_state idx APP_SCAN_STATE_STARTING (ke_msg_send (G_start_scan idx (start_scan_cmd (sy_app s))) s))"

definition appm_stop_scanning :: "ble_sys \<Rightarrow> ble_sys res" where
  "appm_stop_scanning s =
     (let idx = ae_scan_actv_idx (sy_app s) in
      if idx = INVALID_BLE_ACTIVITY_INDEX then Inr (ended BLE_ACTV_ACTION_STOPPING_SCAN idx s)
      else with_state idx s (\<lambda>st.
        if st = APP_SCAN_STATE_STARTED then appm_update_actv_state idx APP_SCAN_STATE_STOPPING (ke_msg_send (G_stop idx) s)
        else if going_down APP_SCAN_STATE_STARTED APP_SCAN_STATE_DELETING st then Inr s
        else Inr (ended BLE_ACTV_ACTION_STOPPING_SCAN idx s)))"

definition set_scan_param :: "u16 \<Rightarrow> u16 \<Rightarrow> u32 \<Rightarrow> actv_env \<Rightarrow> actv_env" where
  "set_scan_param interval window policy a =
     a\<lparr>ae_scanIntervalInMs := interval, ae_scanWindowInMs := window, ae_scanFiltPolicy := policy\<rparr>"

definition appm_start_scanning :: "u16 \<Rightarrow> u16 \<Rightarrow> u32 \<Rightarrow> ble_sys \<Rightarrow> ble_sys res" where
  "appm_start_scanning interval window policy s =
     (let old = ae_scanFiltPolicy (sy_app s); s1 = upd_app (set_scan_param interval window policy) s in
      if ae_scan_actv_idx (sy_app s) = INVALID_BLE_ACTIVITY_INDEX then Inr (ke_msg_send (G_create_scan (bit policy 1)) s1)
      else if bit (policy XOR old) 1 then appm_stop_scanning (upd_app (\<lambda>a. a\<lparr>ae_need_restart_scan := True\<rparr>) s1)
      else appm_kick_off_scanning s1)"

section \<open>Connecting\<close>

definition appm_kick_off_connecting :: "ble_sys \<Rightarrow> ble_sys res" where
  "appm_kick_off_connecting s =
     (let idx = ae_connect_actv_idx (sy_app s) in
      appm_update_actv_state idx APP_CONNECT_STATE_STARTING (ke_msg_send (G_start_init idx (ae_init_param (sy_app s))) s))"

text \<open>The state stays \<open>STARTED\<close> until the host tells that the activity has stopped.\<close>

definition appm_stop_connecting :: "ble_sys \<Rightarrow> ble_sys res" where
  "appm_stop_connecting s =
     (let idx = ae_connect_actv_idx (sy_app s) in
      if idx = INVALID_BLE_ACTIVITY_INDEX then Inr (ended BLE_ACTV_ACTION_STOP_CONNECTING idx s)
      else with_state idx s (\<lambda>st.
        if st = APP_CONNECT_STATE_STARTED then Inr (ke_msg_send (G_stop idx) s)
        else if going_down APP_CONNECT_STATE_STARTED APP_CONNECT_STATE_DELETING st then Inr s
        else Inr (ended BLE_ACTV_ACTION_STOP_CONNECTING idx s)))"

definition app_ble_is_connection_on_by_addr :: "bd_addr \<Rightarrow> actv_env \<Rightarrow> bool" where
  "app_ble_is_connection_on_by_addr addr a =
     list_ex (\<lambda>c. cx_bdAddr c = addr \<and> cx_status c = BLE_CONNECTED) (ae_context a)"

definition APP_GAPM_GEN_NON_RSLV_ADDR :: u8 where
  "APP_GAPM_GEN_NON_RSLV_ADDR = 2"

definition appm_start_connecting :: "init_param \<Rightarrow> ble_sys \<Rightarrow> ble_sys res" where
  "appm_start_connecting p s =
     (if APP_GAPM_GEN_NON_RSLV_ADDR < ip_own_addr_type p then Inr s
      else if ip_init_type p = APP_BLE_INIT_TYPE_DIRECT_CONN_EST \<and>
              app_ble_is_connection_on_by_addr (ba_addr (ip_peer_addr p)) (sy_app s)
      then Inr (ended BLE_ACTV_ACTION_CONNECTING 0xff s)
      else
        let s1 = upd_app (\<lambda>a. a\<lparr>ae_init_param := p\<rparr>) s; idx = ae_connect_actv_idx (sy_app s) in
        if idx = INVALID_BLE_ACTIVITY_INDEX then Inr (ke_msg_send (G_create_init (ip_own_addr_type p)) s1)
        else with_state idx s1 (\<lambda>st.
          if st = APP_CONNECT_STATE_STARTED then
            appm_stop_connecting (upd_app (\<lambda>a. a\<lparr>ae_need_restart_connect := True\<rparr>) s1)
          else if st = APP_CONNECT_STATE_STOPPING \<or> st = APP_CONNECT_STATE_DELETING then
            Inr (upd_app (\<lambda>a. a\<lparr>ae_need_restart_connect := True\<rparr>) s1)
          else Inr s1))"

definition set_status :: "nat \<Rightarrow> connect_state \<Rightarrow> actv_env \<Rightarrow> actv_env" where
  "set_status i st a = a\<lparr>ae_context := (ae_context a)[i := (ae_context a ! i)\<lparr>cx_status := st\<rparr>]\<rparr>"

definition appm_disconnect :: "nat \<Rightarrow> ble_sys \<Rightarrow> ble_sys res" where
  "appm_disconnect i s =
     c_assert (i < BLE_CONNECTION_MAX)
       (Inr (if cx_status (ae_context (sy_app s) ! i) = BLE_CONNECTED
             then ke_msg_send (G_disconnect i) (upd_app (set_status i BLE_DISCONNECTING) s)
             else ended BLE_ACTV_ACTION_DISCONNECTING 0xff s))"

section \<open>The white list and the resolving list\<close>

text \<open>The first advertising activity that is started, if there is one.\<close>

fun started_adv :: "u8 list \<Rightarrow> ble_sys \<Rightarrow> u8 option res" where
  "started_adv [] s = Inr None"
| "started_adv (idx # is) s =
     (if idx = INVALID_BLE_ACTIVITY_INDEX then started_adv is s
      else with_state idx s (\<lambda>st. if st = APP_ADV_STATE_STARTED then Inr (Some idx) else started_adv is s))"

definition is_in_state :: "u8 \<Rightarrow> actv_state \<Rightarrow> ble_sys \<Rightarrow> bool res" where
  "is_in_state idx st s = (if idx = INVALID_BLE_ACTIVITY_INDEX then Inr False else with_state idx s (\<lambda>x. Inr (x = st)))"

definition set_flags :: "(actv_env \<Rightarrow> actv_env) \<Rightarrow> ble_sys \<Rightarrow> ble_sys res" where
  "set_flags f s = Inr (upd_app f s)"

definition appm_set_rpa_list :: "nat \<Rightarrow> ble_sys \<Rightarrow> ble_sys res" where
  "appm_set_rpa_list size0 s =
     (let keep = set_flags (\<lambda>a. a\<lparr>ae_need_add_resolving := True\<rparr>) in
      if size0 = 0 then Inr s
      else
        bindE (started_adv (ae_adv_actv_idx (sy_app s)) s) (\<lambda>r.
        case r of
          Some idx \<Rightarrow> bindE (appm_stop_advertising idx s) keep
        | None \<Rightarrow>
            bindE (is_in_state (ae_scan_actv_idx (sy_app s)) APP_SCAN_STATE_STARTED s) (\<lambda>sc.
            if sc then keep s
            else
              bindE (is_in_state (ae_connect_actv_idx (sy_app s)) APP_CONNECT_STATE_STARTED s) (\<lambda>co.
              if co then keep s
              else if ae_setting_white_list (sy_app s) then keep s
              else
                Inr (ke_msg_send (G_set_ral (min size0 RESOLVING_LIST_MAX_NUM))
                  (upd_app (\<lambda>a. a\<lparr>ae_need_add_resolving := False, ae_adding_resolving := True\<rparr>) s))))))"

definition appm_set_white_list :: "ble_bdaddr list \<Rightarrow> ble_sys \<Rightarrow> ble_sys res" where
  "appm_set_white_list addrs0 s =
     (let keep = set_flags (\<lambda>a. a\<lparr>ae_need_set_white_list := True\<rparr>);
          addrs = take WHITE_LIST_MAX_NUM addrs0;
          s1 = upd_app (\<lambda>a. a\<lparr>ae_white_list := addrs\<rparr>) s in
      bindE (started_adv (ae_adv_actv_idx (sy_app s1)) s1) (\<lambda>r.
      case r of
        Some idx \<Rightarrow> bindE (appm_stop_advertising idx s1) keep
      | None \<Rightarrow>
          bindE (is_in_state (ae_scan_actv_idx (sy_app s1)) APP_SCAN_STATE_STARTED s1) (\<lambda>sc.
          if sc then bindE (appm_stop_scanning s1) keep
          else
            bindE (is_in_state (ae_connect_actv_idx (sy_app s1)) APP_CONNECT_STATE_STARTED s1) (\<lambda>co.
            if co then bindE (appm_stop_connecting s1) keep
            else if ae_adding_resolving (sy_app s1) then keep s1
            else
              Inr (ke_msg_send (G_set_wl addrs)
                (upd_app (\<lambda>a. a\<lparr>ae_need_set_white_list := False, ae_setting_white_list := True\<rparr>) s1))))))"

definition appm_add_multiple_devices_to_resolving_list_in_controller :: "nat \<Rightarrow> ble_sys \<Rightarrow> ble_sys" where
  "appm_add_multiple_devices_to_resolving_list_in_controller n s =
     (if n = 0 then s
      else
        upd_mode (app_ble_add_resloving_list (min n RESOLVING_LIST_MAX_NUM))
          (upd_app (\<lambda>a. a\<lparr>ae_resolving_num := min n RESOLVING_LIST_MAX_NUM, ae_need_add_resolving := True\<rparr>) s))"

section \<open>The next step of an activity\<close>

definition pending_white_list :: "ble_sys \<Rightarrow> ble_sys res" where
  "pending_white_list s =
     (if ae_need_set_white_list (sy_app s) then appm_set_white_list (ae_white_list (sy_app s)) s else Inr s)"

definition pending_rpa_list :: "ble_sys \<Rightarrow> ble_sys res" where
  "pending_rpa_list s =
     (if ae_need_add_resolving (sy_app s) then appm_set_rpa_list (ae_resolving_num (sy_app s)) s else Inr s)"

definition adv_deleted :: "ble_env \<Rightarrow> u8 \<Rightarrow> ble_sys \<Rightarrow> ble_sys res" where
  "adv_deleted e idx s =
     bindE (appm_update_actv_state idx APP_ACTV_STATE_IDLE s) (\<lambda>s1.
     let s2 = appm_clear_adv_activity_index idx
                (upd_mode (app_advertising_stopped (actv_view (sy_app s1) e) idx) s1) in
     if ae_need_restart_adv (sy_app s2) then
       appm_start_advertising (ae_advParam (sy_app s2)) (upd_app (\<lambda>a. a\<lparr>ae_need_restart_adv := False\<rparr>) s2)
     else
       let s3 = ended BLE_ACTV_ACTION_STOPPING_ADV idx s2 in
       if ae_need_set_white_list (sy_app s3) then pending_white_list s3 else pending_rpa_list s3)"

definition scan_deleted :: "u8 \<Rightarrow> ble_sys \<Rightarrow> ble_sys res" where
  "scan_deleted idx s =
     bindE (appm_update_actv_state idx APP_ACTV_STATE_IDLE s) (\<lambda>s1.
     let s2 = upd_app (\<lambda>a. a\<lparr>ae_scan_actv_idx := INVALID_BLE_ACTIVITY_INDEX\<rparr>) s1; a = sy_app s2 in
     if ae_need_restart_scan a then
       appm_start_scanning (ae_scanIntervalInMs a) (ae_scanWindowInMs a) (ae_scanFiltPolicy a)
         (upd_app (\<lambda>a. a\<lparr>ae_need_restart_scan := False\<rparr>) s2)
     else bindE (pending_rpa_list (ended BLE_ACTV_ACTION_STOPPING_SCAN idx s2)) pending_white_list)"

definition connect_deleted :: "u8 \<Rightarrow> ble_sys \<Rightarrow> ble_sys res" where
  "connect_deleted idx s =
     bindE (appm_update_actv_state idx APP_ACTV_STATE_IDLE s) (\<lambda>s1.
     let s2 = upd_app (\<lambda>a. a\<lparr>ae_connect_actv_idx := INVALID_BLE_ACTIVITY_INDEX\<rparr>) s1 in
     if ae_need_restart_connect (sy_app s2) then
       appm_start_connecting (ae_init_param (sy_app s2)) (upd_app (\<lambda>a. a\<lparr>ae_need_restart_connect := False\<rparr>) s2)
     else bindE (pending_rpa_list (ended BLE_ACTV_ACTION_STOP_CONNECTING idx s2)) pending_white_list)"

definition adv_start_answered :: "ble_env \<Rightarrow> u8 \<Rightarrow> bool \<Rightarrow> ble_sys \<Rightarrow> ble_sys res" where
  "adv_start_answered e idx ok s =
     bindE
       (if ok then
          bindE (appm_update_actv_state idx APP_ADV_STATE_STARTED s) (\<lambda>s1.
          bindE (app_advertising_started (actv_view (sy_app s1) e) idx (sy_mode s1)) (\<lambda>m. Inr (upd_mode (\<lambda>_. m) s1)))
        else
          bindE (appm_update_actv_state idx APP_ADV_STATE_DELETING s) (\<lambda>s1.
          Inr (appm_delete_activity idx
            (upd_mode (app_advertising_starting_failed (actv_view (sy_app s1) e) idx) s1))))
       (\<lambda>s2. Inr (ended BLE_ACTV_ACTION_STARTING_ADV idx s2))"

definition start_answered :: "actv_state \<Rightarrow> actv_state \<Rightarrow> ble_action \<Rightarrow> u8 \<Rightarrow> bool \<Rightarrow> ble_sys \<Rightarrow> ble_sys res" where
  "start_answered started deleting action idx ok s =
     bindE
       (if ok then appm_update_actv_state idx started s
        else bindE (appm_update_actv_state idx deleting s) (\<lambda>s1. Inr (appm_delete_activity idx s1)))
       (\<lambda>s2. Inr (ended action idx s2))"

definition go_deleting :: "u8 \<Rightarrow> actv_state \<Rightarrow> ble_sys \<Rightarrow> ble_sys res" where
  "go_deleting idx deleting s = bindE (appm_update_actv_state idx deleting s) (\<lambda>s1. Inr (appm_delete_activity idx s1))"

text \<open>\<open>ok\<close> stands for the status \<open>GAP_ERR_NO_ERROR\<close>.\<close>

definition appm_actv_fsm_next :: "ble_env \<Rightarrow> u8 \<Rightarrow> bool \<Rightarrow> ble_sys \<Rightarrow> ble_sys res" where
  "appm_actv_fsm_next e idx ok s =
     c_assert (unat idx < BLE_ACTIVITY_MAX)
       (case actv_state_at (sy_app s) idx of
          APP_ADV_STATE_CREATING \<Rightarrow>
            if ap_advType (ae_advParam (sy_app s)) \<in> {ADV_TYPE_DIRECT_LDC, ADV_TYPE_DIRECT_HDC}
            then appm_kick_off_advertising idx s else appm_set_adv_data idx s
        | APP_ADV_STATE_SETTING_ADV_DATA \<Rightarrow> appm_set_scan_rsp_data idx s
        | APP_ADV_STATE_SETTING_SCAN_RSP_DATA \<Rightarrow> appm_kick_off_advertising idx s
        | APP_ADV_STATE_STARTING \<Rightarrow> adv_start_answered e idx ok s
        | APP_ADV_STATE_STOPPING \<Rightarrow>
            c_assert (appm_check_adv_activity_index idx s) (go_deleting idx APP_ADV_STATE_DELETING s)
        | APP_ADV_STATE_DELETING \<Rightarrow> adv_deleted e idx s
        | APP_SCAN_STATE_CREATING \<Rightarrow> appm_kick_off_scanning s
        | APP_SCAN_STATE_STARTING \<Rightarrow>
            start_answered APP_SCAN_STATE_STARTED APP_SCAN_STATE_DELETING BLE_ACTV_ACTION_STARTING_SCAN idx ok s
        | APP_SCAN_STATE_STOPPING \<Rightarrow>
            c_assert (idx = ae_scan_actv_idx (sy_app s)) (go_deleting idx APP_SCAN_STATE_DELETING s)
        | APP_SCAN_STATE_DELETING \<Rightarrow> scan_deleted idx s
        | APP_CONNECT_STATE_CREATING \<Rightarrow> appm_kick_off_connecting s
        | APP_CONNECT_STATE_STARTING \<Rightarrow>
            start_answered APP_CONNECT_STATE_STARTED APP_CONNECT_STATE_DELETING BLE_ACTV_ACTION_CONNECTING idx ok s
        | APP_CONNECT_STATE_STOPPING \<Rightarrow>
            c_assert (idx = ae_connect_actv_idx (sy_app s)) (go_deleting idx APP_CONNECT_STATE_DELETING s)
        | APP_CONNECT_STATE_DELETING \<Rightarrow> connect_deleted idx s
        | _ \<Rightarrow> Inl Assert_Fail)"

section \<open>Events of the host\<close>

text \<open>\<open>gapm_cmp_evt_handler\<close>: an activity has been created, or another command is complete.\<close>

definition store_adv_idx :: "u8 \<Rightarrow> ble_sys \<Rightarrow> ble_sys res" where
  "store_adv_idx idx s =
     bindE (adv_user_idx (ap_actv_user (ae_advParam (sy_app s))) s) (\<lambda>_.
     Inr (upd_app (\<lambda>a. a\<lparr>ae_adv_actv_idx := (ae_adv_actv_idx a)[ap_actv_user (ae_advParam a) := idx]\<rparr>) s))"

definition created :: "ble_env \<Rightarrow> actv_state \<Rightarrow> u8 \<Rightarrow> (ble_sys \<Rightarrow> ble_sys res) \<Rightarrow> ble_sys \<Rightarrow> ble_sys res" where
  "created e creating idx store s =
     with_state idx s (\<lambda>st.
       bindE (if st = APP_ACTV_STATE_IDLE then store s else Inr s) (\<lambda>s1.
       bindE (appm_update_actv_state idx creating s1) (\<lambda>s2.
       appm_actv_fsm_next e idx True s2)))"

datatype gapm_operation =
    GAPM_CREATE_ADV_ACTIVITY | GAPM_CREATE_SCAN_ACTIVITY | GAPM_CREATE_INIT_ACTIVITY
  | GAPM_START_ACTIVITY | GAPM_STOP_ACTIVITY | GAPM_DELETE_ACTIVITY
  | GAPM_SET_ADV_DATA | GAPM_SET_PERIOD_ADV_DATA | GAPM_SET_SCAN_RSP_DATA | GAPM_SET_WL | GAPM_SET_RAL

definition white_list_complete :: "ble_sys \<Rightarrow> ble_sys" where
  "white_list_complete s =
     upd_mode app_ble_set_white_list_complete
       (upd_app (\<lambda>a. a\<lparr>ae_need_set_white_list := False, ae_setting_white_list := False\<rparr>) s)"

definition resolving_list_complete :: "ble_sys \<Rightarrow> ble_sys" where
  "resolving_list_complete s =
     upd_mode app_ble_set_resolving_list_complete
       (upd_app (\<lambda>a. a\<lparr>ae_need_add_resolving := False, ae_adding_resolving := False\<rparr>) s)"

fun gapm_cmp_evt_handler :: "ble_env \<Rightarrow> gapm_operation \<Rightarrow> u8 \<Rightarrow> bool \<Rightarrow> ble_sys \<Rightarrow> ble_sys res" where
  "gapm_cmp_evt_handler e GAPM_CREATE_ADV_ACTIVITY idx ok s =
     c_assert ok (created e APP_ADV_STATE_CREATING idx (store_adv_idx idx) s)"
| "gapm_cmp_evt_handler e GAPM_CREATE_SCAN_ACTIVITY idx ok s =
     c_assert ok (created e APP_SCAN_STATE_CREATING idx (\<lambda>s. Inr (upd_app (\<lambda>a. a\<lparr>ae_scan_actv_idx := idx\<rparr>) s)) s)"
| "gapm_cmp_evt_handler e GAPM_CREATE_INIT_ACTIVITY idx ok s =
     c_assert ok (created e APP_CONNECT_STATE_CREATING idx (\<lambda>s. Inr (upd_app (\<lambda>a. a\<lparr>ae_connect_actv_idx := idx\<rparr>) s)) s)"
| "gapm_cmp_evt_handler e GAPM_SET_WL idx ok s = Inr (white_list_complete s)"
| "gapm_cmp_evt_handler e GAPM_SET_RAL idx ok s = Inr (resolving_list_complete s)"
| "gapm_cmp_evt_handler e _ idx ok s = appm_actv_fsm_next e idx ok s"

definition gapm_activity_stopped_ind_handler :: "ble_env \<Rightarrow> u8 \<Rightarrow> ble_sys \<Rightarrow> ble_sys res" where
  "gapm_activity_stopped_ind_handler e idx s =
     with_state idx s (\<lambda>st.
       let new = (if st = APP_ADV_STATE_STARTED then APP_ADV_STATE_STOPPING
                  else if st = APP_SCAN_STATE_STARTED then APP_SCAN_STATE_STOPPING
                  else if st = APP_CONNECT_STATE_STARTED then APP_CONNECT_STATE_STOPPING else st) in
       if new \<noteq> st then bindE (appm_update_actv_state idx new s) (appm_actv_fsm_next e idx True) else Inr s)"

text \<open>The parts of the handlers of connections that change the state of the two layers. A connection is refused while a
  random address is being resolved; after a failed integrity check the devices are put into the resolving list again.\<close>

definition gapc_le_connection_req_ind_handler :: "bool \<Rightarrow> nat \<Rightarrow> bd_addr \<Rightarrow> ble_sys \<Rightarrow> ble_sys res" where
  "gapc_le_connection_req_ind_handler resolving i addr s =
     (if BLE_CONNECTION_MAX \<le> i then Inl Mem_Fault
      else
        let s1 = upd_app (set_status i BLE_CONNECTED) s in
        if resolving then bindE (app_ble_start_disconnect i (sy_mode s1)) (\<lambda>m. Inr (upd_mode (\<lambda>_. m) s1))
        else Inr (upd_app (\<lambda>a. a\<lparr>ae_context := (ae_context a)[i := (ae_context a ! i)\<lparr>cx_bdAddr := addr\<rparr>]\<rparr>) s1))"

definition gapc_disconnect_ind_handler :: "nat option \<Rightarrow> nat \<Rightarrow> ble_sys \<Rightarrow> ble_sys res" where
  "gapc_disconnect_ind_handler mic_failure i s =
     (if BLE_CONNECTION_MAX \<le> i then Inl Mem_Fault
      else
        let s1 = (case mic_failure of
                    None \<Rightarrow> s | Some n \<Rightarrow> appm_add_multiple_devices_to_resolving_list_in_controller n s) in
        Inr (upd_mode app_ble_disconnected_evt_handler (upd_app (set_status i BLE_DISCONNECTED) s1)))"

section \<open>The two layers together\<close>

text \<open>A call of the scheduler, and one run of what was posted to the thread: the scheduler's function, then the call that it
  ends with.\<close>

fun appm_exec :: "appm_call \<Rightarrow> ble_sys \<Rightarrow> ble_sys res" where
  "appm_exec (C_start_advertising p) s = appm_start_advertising p s"
| "appm_exec (C_update_adv_data p) s = appm_update_adv_data p s"
| "appm_exec (C_stop_advertising idx) s = appm_stop_advertising idx s"
| "appm_exec (C_start_scanning p) s =
     appm_start_scanning (sc_scanInterval p) (sc_scanWindow p) (ucast (sc_scanType p)) s"
| "appm_exec C_stop_scanning s = appm_stop_scanning s"
| "appm_exec (C_start_connecting p) s = appm_start_connecting p s"
| "appm_exec C_stop_connecting s = appm_stop_connecting s"
| "appm_exec (C_disconnect i) s = appm_disconnect i s"
| "appm_exec (C_set_white_list addrs) s = appm_set_white_list addrs s"
| "appm_exec (C_set_rpa_list n) s = appm_set_rpa_list n s"

definition run_posted :: "ble_env \<Rightarrow> posted \<Rightarrow> ble_sys \<Rightarrow> ble_sys res" where
  "run_posted e p s =
     bindE (run_op (actv_view (sy_app s) e) p (sy_mode s)) (\<lambda>m.
     foldM appm_exec (drop (length (bm_calls (sy_mode s))) (bm_calls m)) (upd_mode (\<lambda>_. m) s))"

definition actv_env_init :: actv_env where
  "actv_env_init =
     \<lparr>ae_state = replicate BLE_ACTIVITY_MAX APP_ACTV_STATE_IDLE, ae_adv_actv_idx = replicate BLE_ADV_ACTIVITY_USER_NUM INVALID_BLE_ACTIVITY_INDEX,
      ae_scan_actv_idx = INVALID_BLE_ACTIVITY_INDEX, ae_connect_actv_idx = INVALID_BLE_ACTIVITY_INDEX,
      ae_need_restart_adv = False, ae_need_update_adv = False, ae_need_set_rsp_data = False, ae_advParam = adv_param_zero,
      ae_need_restart_scan = False, ae_scanIntervalInMs = 0, ae_scanWindowInMs = 0, ae_scanFiltPolicy = 0,
      ae_need_restart_connect = False, ae_init_param = \<lparr>ip_init_type = APP_BLE_INIT_TYPE_DIRECT_CONN_EST, ip_conn_to = 0,
        ip_own_addr_type = 0, ip_peer_addr = \<lparr>ba_addr = empty_addr, ba_type = 0\<rparr>\<rparr>,
      ae_need_set_white_list = False, ae_setting_white_list = False, ae_white_list = [],
      ae_need_add_resolving = False, ae_adding_resolving = False, ae_resolving_num = 0,
      ae_context = replicate BLE_CONNECTION_MAX \<lparr>cx_status = BLE_DISCONNECTED, cx_bdAddr = empty_addr\<rparr>\<rparr>"

definition appm_init :: ble_sys where
  "appm_init = \<lparr>sy_mode = app_ble_mode_init, sy_app = actv_env_init, sy_sent = []\<rparr>"

end
