(* ===== verification/BleActvInv.thy ===== *)
theory BleActvInv
  imports BleActv BleServe
begin

text \<open>
  What holds of the two BLE layers in every reachable state: who owns an activity, which command the host owes for it, and
  how far the scheduler's action has come.
\<close>

section \<open>An operation returns, with a result that satisfies a predicate\<close>

definition returns :: "'a res \<Rightarrow> ('a \<Rightarrow> bool) \<Rightarrow> bool" where
  "returns r P \<longleftrightarrow> (\<exists>x. r = Inr x \<and> P x)"

lemma returns_simps [simp]:
  "returns (Inr x) P = P x" "returns (Inl err) P = False"
  "returns (c_assert b k) P = (b \<and> returns k P)"
  "returns (if b then r1 else r2) P = (if b then returns r1 P else returns r2 P)"
  "returns (bindE m f) P = returns m (\<lambda>x. returns (f x) P)"
  by (auto simp: returns_def)

lemma returns_mono: "returns r P \<Longrightarrow> (\<And>x. P x \<Longrightarrow> Q x) \<Longrightarrow> returns r Q"
  by (auto simp: returns_def)

section \<open>Who owns an activity\<close>

datatype actv_kind = K_none | K_adv | K_scan | K_connect

fun kind_of :: "actv_state \<Rightarrow> actv_kind" where
  "kind_of APP_ACTV_STATE_IDLE = K_none"
| "kind_of APP_ADV_STATE_CREATING = K_adv"
| "kind_of APP_ADV_STATE_SETTING_ADV_DATA = K_adv"
| "kind_of APP_ADV_STATE_SETTING_SCAN_RSP_DATA = K_adv"
| "kind_of APP_ADV_STATE_STARTING = K_adv"
| "kind_of APP_ADV_STATE_STARTED = K_adv"
| "kind_of APP_ADV_STATE_STOPPING = K_adv"
| "kind_of APP_ADV_STATE_DELETING = K_adv"
| "kind_of APP_SCAN_STATE_CREATING = K_scan"
| "kind_of APP_SCAN_STATE_STARTING = K_scan"
| "kind_of APP_SCAN_STATE_STARTED = K_scan"
| "kind_of APP_SCAN_STATE_STOPPING = K_scan"
| "kind_of APP_SCAN_STATE_DELETING = K_scan"
| "kind_of APP_CONNECT_STATE_CREATING = K_connect"
| "kind_of APP_CONNECT_STATE_STARTING = K_connect"
| "kind_of APP_CONNECT_STATE_STARTED = K_connect"
| "kind_of APP_CONNECT_STATE_STOPPING = K_connect"
| "kind_of APP_CONNECT_STATE_DELETING = K_connect"

text \<open>The four indices of advertising activities, that of the scan and that of the connection.\<close>

definition owner :: "u8 list \<Rightarrow> u8 \<Rightarrow> u8 \<Rightarrow> u8 \<Rightarrow> actv_kind" where
  "owner adv sc co i =
     (if i = INVALID_BLE_ACTIVITY_INDEX then K_none
      else if i \<in> set adv then K_adv else if i = sc then K_scan else if i = co then K_connect else K_none)"

fun cmd_idx :: "gapm_cmd \<Rightarrow> u8 option" where
  "cmd_idx (G_start_adv i) = Some i"
| "cmd_idx (G_start_scan i c) = Some i"
| "cmd_idx (G_start_init i p) = Some i"
| "cmd_idx (G_stop i) = Some i"
| "cmd_idx (G_delete i) = Some i"
| "cmd_idx (G_set_adv_data b i d) = Some i"
| "cmd_idx (G_set_scan_rsp_data i d) = Some i"
| "cmd_idx c = None"

definition cmds :: "u8 \<Rightarrow> gapm_cmd list \<Rightarrow> gapm_cmd list" where
  "cmds i S = filter (\<lambda>c. cmd_idx c = Some i) S"

text \<open>The commands that the host owes for an activity: none when it is idle or runs, one in between. An initiating activity that
  runs may be asked to stop more than once.\<close>

fun owed :: "u8 \<Rightarrow> actv_state \<Rightarrow> gapm_cmd list \<Rightarrow> bool" where
  "owed i APP_ACTV_STATE_IDLE cs = (cs = [])"
| "owed i APP_ADV_STATE_STARTED cs = (cs = [])"
| "owed i APP_SCAN_STATE_STARTED cs = (cs = [])"
| "owed i APP_CONNECT_STATE_STARTED cs = (set cs \<subseteq> {G_stop i})"
| "owed i _ cs = (length cs = 1)"

definition slots_ok :: "u8 list \<Rightarrow> u8 \<Rightarrow> u8 \<Rightarrow> bool" where
  "slots_ok adv sc co \<longleftrightarrow>
     length adv = BLE_ADV_ACTIVITY_USER_NUM \<and>
     (\<forall>u < BLE_ADV_ACTIVITY_USER_NUM. \<forall>v < BLE_ADV_ACTIVITY_USER_NUM.
        adv ! u \<noteq> INVALID_BLE_ACTIVITY_INDEX \<longrightarrow> adv ! u = adv ! v \<longrightarrow> u = v) \<and>
     (sc \<noteq> INVALID_BLE_ACTIVITY_INDEX \<longrightarrow> sc \<notin> set adv \<and> sc \<noteq> co) \<and>
     (co \<noteq> INVALID_BLE_ACTIVITY_INDEX \<longrightarrow> co \<notin> set adv)"

text \<open>In the middle of an operation one activity, the hole, is not in order yet.\<close>

definition actv_wf :: "u8 option \<Rightarrow> actv_state list \<Rightarrow> u8 list \<Rightarrow> u8 \<Rightarrow> u8 \<Rightarrow> gapm_cmd list \<Rightarrow> bool" where
  "actv_wf h sts adv sc co S \<longleftrightarrow>
     length sts = BLE_ACTIVITY_MAX \<and> slots_ok adv sc co \<and>
     (\<forall>i. owner adv sc co i \<noteq> K_none \<longrightarrow> unat i < BLE_ACTIVITY_MAX) \<and>
     (\<forall>i. unat i < BLE_ACTIVITY_MAX \<longrightarrow> h \<noteq> Some i \<longrightarrow>
        kind_of (sts ! unat i) = owner adv sc co i \<and> owed i (sts ! unat i) (cmds i S)) \<and>
     (\<forall>i. BLE_ACTIVITY_MAX \<le> unat i \<longrightarrow> cmds i S = []) \<and>
     (\<forall>i. h = Some i \<longrightarrow> unat i < BLE_ACTIVITY_MAX \<and> cmds i S = [])"

abbreviation sys_wf :: "u8 option \<Rightarrow> ble_sys \<Rightarrow> bool" where
  "sys_wf h s \<equiv> actv_wf h (ae_state (sy_app s)) (ae_adv_actv_idx (sy_app s)) (ae_scan_actv_idx (sy_app s))
     (ae_connect_actv_idx (sy_app s)) (sy_sent s)"

lemma cmds_simps [simp]:
  "cmds i [] = []"
  "cmds i (S @ T) = cmds i S @ cmds i T"
  "cmds i [c] = (if cmd_idx c = Some i then [c] else [])"
  by (simp_all add: cmds_def)

lemma cmds_remove: "cmds i (remove1 c S) = (if cmd_idx c = Some i then remove1 c (cmds i S) else cmds i S)"
  by (induction S) (auto simp: cmds_def)

lemma cmds_remove_None [simp]: "cmd_idx c = None \<Longrightarrow> cmds i (remove1 c S) = cmds i S"
  by (simp add: cmds_remove)

lemma wf_cmd [simp]: "cmd_idx c = None \<Longrightarrow> actv_wf h sts adv sc co (S @ [c]) = actv_wf h sts adv sc co S"
  by (simp add: actv_wf_def)

lemma wf_remove [simp]: "cmd_idx c = None \<Longrightarrow> actv_wf h sts adv sc co (remove1 c S) = actv_wf h sts adv sc co S"
  by (simp add: actv_wf_def)

text \<open>The transitions of an activity that the hole makes possible.\<close>

lemma unat_inj [simp]: "unat (i :: u8) = unat j \<longleftrightarrow> i = j"
  by (auto dest: word_unat_eq_iff [THEN iffD2])

lemma wf_put:
  assumes "actv_wf (Some i) sts adv sc co S" "kind_of st = owner adv sc co i" "owed i st (cmds i T)"
    and "\<And>c. c \<in> set T \<Longrightarrow> cmd_idx c = Some i"
  shows "actv_wf None (sts[unat i := st]) adv sc co (S @ T)"
proof -
  have other: "cmds j T = []" if "j \<noteq> i" for j
    using assms(4) that by (auto simp: cmds_def filter_empty_conv)
  show ?thesis
    using assms(1-3) other by (auto simp: actv_wf_def nth_list_update) (metis leD)
qed

lemma wf_put_sent: "actv_wf (Some i) sts adv sc co S \<Longrightarrow> kind_of st = owner adv sc co i \<Longrightarrow> owed i st [c] \<Longrightarrow> cmd_idx c = Some i \<Longrightarrow>
    actv_wf None (sts[unat i := st]) adv sc co (S @ [c])"
  by (rule wf_put) auto

lemma wf_put_quiet: "actv_wf (Some i) sts adv sc co S \<Longrightarrow> kind_of st = owner adv sc co i \<Longrightarrow> owed i st [] \<Longrightarrow>
    actv_wf None (sts[unat i := st]) adv sc co S"
  using wf_put [of i sts adv sc co S st "[]"] by simp

lemma wf_hole: "actv_wf None sts adv sc co S \<Longrightarrow> unat i < BLE_ACTIVITY_MAX \<Longrightarrow> cmds i S = [] \<Longrightarrow> actv_wf (Some i) sts adv sc co S"
  by (auto simp: actv_wf_def)

lemma wf_answered:
  assumes "actv_wf None sts adv sc co S" "c \<in> set S" "cmd_idx c = Some i" "length (cmds i S) = 1"
  shows "actv_wf (Some i) sts adv sc co (remove1 c S)"
proof -
  have "c \<in> set (cmds i S)" using assms(2,3) by (simp add: cmds_def)
  with assms(4) have "remove1 c (cmds i S) = []" by (cases "cmds i S") auto
  moreover have "unat i < BLE_ACTIVITY_MAX" using assms(1,4) by (fastforce simp: actv_wf_def)
  ultimately show ?thesis using assms(1,3) by (auto simp: actv_wf_def cmds_remove)
qed

text \<open>The state of a slot: of the activity that it names.\<close>

definition slot :: "actv_state list \<Rightarrow> u8 \<Rightarrow> actv_state" where
  "slot sts i = (if i = INVALID_BLE_ACTIVITY_INDEX then APP_ACTV_STATE_IDLE else sts ! unat i)"

lemma index_valid: "unat i < BLE_ACTIVITY_MAX \<Longrightarrow> i \<noteq> INVALID_BLE_ACTIVITY_INDEX"
  by (auto simp: BLE_ACTIVITY_MAX_def INVALID_BLE_ACTIVITY_INDEX_def)

lemma owner_adv: "actv_wf h sts adv sc co S \<Longrightarrow> v < BLE_ADV_ACTIVITY_USER_NUM \<Longrightarrow> adv ! v \<noteq> INVALID_BLE_ACTIVITY_INDEX \<Longrightarrow>
    owner adv sc co (adv ! v) = K_adv"
  by (auto simp: actv_wf_def slots_ok_def owner_def)

lemma owner_scan: "actv_wf h sts adv sc co S \<Longrightarrow> sc \<noteq> INVALID_BLE_ACTIVITY_INDEX \<Longrightarrow> owner adv sc co sc = K_scan"
  by (auto simp: actv_wf_def slots_ok_def owner_def)

lemma owner_connect: "actv_wf h sts adv sc co S \<Longrightarrow> co \<noteq> INVALID_BLE_ACTIVITY_INDEX \<Longrightarrow> owner adv sc co co = K_connect"
  by (auto simp: actv_wf_def slots_ok_def owner_def)

lemma wf_bound: "actv_wf h sts adv sc co S \<Longrightarrow> owner adv sc co i \<noteq> K_none \<Longrightarrow> unat i < BLE_ACTIVITY_MAX"
  by (auto simp: actv_wf_def)

lemma wf_owed: "actv_wf h sts adv sc co S \<Longrightarrow> h \<noteq> Some i \<Longrightarrow> unat i < BLE_ACTIVITY_MAX \<Longrightarrow>
    kind_of (sts ! unat i) = owner adv sc co i \<and> owed i (sts ! unat i) (cmds i S)"
  by (auto simp: actv_wf_def)

lemma adv_distinct: "actv_wf h sts adv sc co S \<Longrightarrow> u < BLE_ADV_ACTIVITY_USER_NUM \<Longrightarrow> v < BLE_ADV_ACTIVITY_USER_NUM \<Longrightarrow>
    adv ! u \<noteq> INVALID_BLE_ACTIVITY_INDEX \<Longrightarrow> adv ! u = adv ! v \<Longrightarrow> u = v"
  by (auto simp: actv_wf_def slots_ok_def)

text \<open>A change of the state of an activity changes the slot of its owner only.\<close>

lemma slot_put_adv:
  assumes "actv_wf h sts adv sc co S" "u < BLE_ADV_ACTIVITY_USER_NUM" "adv ! u \<noteq> INVALID_BLE_ACTIVITY_INDEX"
  shows "v < BLE_ADV_ACTIVITY_USER_NUM \<Longrightarrow>
      slot (sts[unat (adv ! u) := st]) (adv ! v) = (if v = u then st else slot sts (adv ! v))"
    and "slot (sts[unat (adv ! u) := st]) sc = slot sts sc"
    and "slot (sts[unat (adv ! u) := st]) co = slot sts co"
proof -
  have "unat (adv ! u) < length sts"
    using wf_bound [OF assms(1)] owner_adv [OF assms] assms(1) by (auto simp: actv_wf_def)
  then show "v < BLE_ADV_ACTIVITY_USER_NUM \<Longrightarrow>
      slot (sts[unat (adv ! u) := st]) (adv ! v) = (if v = u then st else slot sts (adv ! v))"
    using adv_distinct [OF assms(1,2) _ assms(3), of v] assms(3) by (auto simp: slot_def nth_list_update)
  have "sc \<noteq> INVALID_BLE_ACTIVITY_INDEX \<Longrightarrow> sc \<noteq> adv ! u" "co \<noteq> INVALID_BLE_ACTIVITY_INDEX \<Longrightarrow> co \<noteq> adv ! u"
    using assms(1,2) by (auto simp: actv_wf_def slots_ok_def)
  then show "slot (sts[unat (adv ! u) := st]) sc = slot sts sc" "slot (sts[unat (adv ! u) := st]) co = slot sts co"
    by (auto simp: slot_def nth_list_update)
qed

lemma slot_put_scan:
  assumes "actv_wf h sts adv sc co S" "sc \<noteq> INVALID_BLE_ACTIVITY_INDEX"
  shows "v < BLE_ADV_ACTIVITY_USER_NUM \<Longrightarrow> slot (sts[unat sc := st]) (adv ! v) = slot sts (adv ! v)"
    and "slot (sts[unat sc := st]) sc = st"
    and "slot (sts[unat sc := st]) co = slot sts co"
proof -
  have "unat sc < length sts" using wf_bound [OF assms(1)] owner_scan [OF assms] assms(1) by (auto simp: actv_wf_def)
  then show "slot (sts[unat sc := st]) sc = st" using assms(2) by (simp add: slot_def)
  have "v < BLE_ADV_ACTIVITY_USER_NUM \<Longrightarrow> sc \<noteq> adv ! v" "sc \<noteq> co"
    using assms by (auto simp: actv_wf_def slots_ok_def)
  then show "v < BLE_ADV_ACTIVITY_USER_NUM \<Longrightarrow> slot (sts[unat sc := st]) (adv ! v) = slot sts (adv ! v)"
    "slot (sts[unat sc := st]) co = slot sts co" by (auto simp: slot_def nth_list_update)
qed

lemma slot_put_connect:
  assumes "actv_wf h sts adv sc co S" "co \<noteq> INVALID_BLE_ACTIVITY_INDEX"
  shows "v < BLE_ADV_ACTIVITY_USER_NUM \<Longrightarrow> slot (sts[unat co := st]) (adv ! v) = slot sts (adv ! v)"
    and "slot (sts[unat co := st]) sc = slot sts sc"
    and "slot (sts[unat co := st]) co = st"
proof -
  have "unat co < length sts" using wf_bound [OF assms(1)] owner_connect [OF assms] assms(1) by (auto simp: actv_wf_def)
  then show "slot (sts[unat co := st]) co = st" using assms(2) by (simp add: slot_def)
  have "v < BLE_ADV_ACTIVITY_USER_NUM \<Longrightarrow> co \<noteq> adv ! v" "sc \<noteq> INVALID_BLE_ACTIVITY_INDEX \<Longrightarrow> co \<noteq> sc"
    using assms by (auto simp: actv_wf_def slots_ok_def)
  then show "v < BLE_ADV_ACTIVITY_USER_NUM \<Longrightarrow> slot (sts[unat co := st]) (adv ! v) = slot sts (adv ! v)"
    "slot (sts[unat co := st]) sc = slot sts sc" by (auto simp: slot_def nth_list_update)
qed

text \<open>An activity comes into being and goes.\<close>

lemma clear_first_nth:
  "u < length adv \<Longrightarrow> (\<And>v. v < u \<Longrightarrow> adv ! v \<noteq> adv ! u) \<Longrightarrow> clear_first (adv ! u) adv = adv[u := INVALID_BLE_ACTIVITY_INDEX]"
proof (induction adv arbitrary: u)
  case (Cons x xs)
  show ?case
  proof (cases u)
    case (Suc w)
    have "xs ! v \<noteq> xs ! w" if "v < w" for v using Cons.prems(2) [of "Suc v"] that Suc by simp
    moreover have "x \<noteq> xs ! w" using Cons.prems(2) [of 0] Suc by simp
    ultimately show ?thesis using Cons.IH [of w] Cons.prems(1) Suc by auto
  qed simp
qed simp

lemma clear_slot: "actv_wf h sts adv sc co S \<Longrightarrow> u < BLE_ADV_ACTIVITY_USER_NUM \<Longrightarrow> adv ! u \<noteq> INVALID_BLE_ACTIVITY_INDEX \<Longrightarrow>
    clear_first (adv ! u) adv = adv[u := INVALID_BLE_ACTIVITY_INDEX]"
  by (rule clear_first_nth) (auto simp: actv_wf_def slots_ok_def dest: less_trans)

lemma adv_upd: "actv_wf h sts adv sc co S \<Longrightarrow> v < BLE_ADV_ACTIVITY_USER_NUM \<Longrightarrow> adv[u := i] ! v = (if v = u then i else adv ! v)"
  by (simp add: actv_wf_def slots_ok_def nth_list_update)

lemma owner_removed:
  assumes "actv_wf h sts adv sc co S" "u < BLE_ADV_ACTIVITY_USER_NUM" "adv ! u \<noteq> INVALID_BLE_ACTIVITY_INDEX"
  shows "owner (adv[u := INVALID_BLE_ACTIVITY_INDEX]) sc co i = (if i = adv ! u then K_none else owner adv sc co i)"
proof -
  have len: "length adv = BLE_ADV_ACTIVITY_USER_NUM" using assms(1) by (auto simp: actv_wf_def slots_ok_def)
  have "i \<in> set (adv[u := INVALID_BLE_ACTIVITY_INDEX]) \<longleftrightarrow> i \<noteq> adv ! u \<and> i \<in> set adv" if "i \<noteq> INVALID_BLE_ACTIVITY_INDEX" for i
    using adv_distinct [OF assms(1,2) _ assms(3)] assms(2) that len
    by (auto simp: in_set_conv_nth nth_list_update split: if_splits) metis+
  moreover have "adv ! u \<in> set adv" using assms(2) len by simp
  ultimately show ?thesis
    using assms(1) by (auto simp: owner_def actv_wf_def slots_ok_def)
qed

lemma wf_adv_removed:
  assumes "actv_wf (Some (adv ! u)) sts adv sc co S" "u < BLE_ADV_ACTIVITY_USER_NUM" "adv ! u \<noteq> INVALID_BLE_ACTIVITY_INDEX"
  shows "actv_wf None (sts[unat (adv ! u) := APP_ACTV_STATE_IDLE]) (adv[u := INVALID_BLE_ACTIVITY_INDEX]) sc co S"
proof -
  let ?adv = "adv[u := INVALID_BLE_ACTIVITY_INDEX]"
  have inj: "v = w" if "v < BLE_ADV_ACTIVITY_USER_NUM" "w < BLE_ADV_ACTIVITY_USER_NUM"
      "?adv ! v \<noteq> INVALID_BLE_ACTIVITY_INDEX" "?adv ! v = ?adv ! w" for v w
    using that(3,4) adv_distinct [OF assms(1) that(1,2)] unfolding adv_upd [OF assms(1) that(1)] adv_upd [OF assms(1) that(2)]
    by (simp split: if_splits)
  have "slots_ok ?adv sc co"
    using assms(1) inj set_update_subset_insert [of adv u INVALID_BLE_ACTIVITY_INDEX]
    unfolding actv_wf_def slots_ok_def by (intro conjI) (simp, metis, blast+)
  then show ?thesis
    using assms(1) unfolding actv_wf_def owner_removed [OF assms]
    by (auto simp: nth_list_update)
qed

lemma wf_scan_removed:
  assumes "actv_wf (Some sc) sts adv sc co S" "sc \<noteq> INVALID_BLE_ACTIVITY_INDEX"
  shows "actv_wf None (sts[unat sc := APP_ACTV_STATE_IDLE]) adv INVALID_BLE_ACTIVITY_INDEX co S"
  using assms by (auto simp: actv_wf_def slots_ok_def owner_def nth_list_update split: if_splits)

lemma wf_connect_removed:
  assumes "actv_wf (Some co) sts adv sc co S" "co \<noteq> INVALID_BLE_ACTIVITY_INDEX"
  shows "actv_wf None (sts[unat co := APP_ACTV_STATE_IDLE]) adv sc INVALID_BLE_ACTIVITY_INDEX S"
  using assms by (auto simp: actv_wf_def slots_ok_def owner_def nth_list_update split: if_splits)

lemma fresh_owner: "actv_wf None sts adv sc co S \<Longrightarrow> unat i < BLE_ACTIVITY_MAX \<Longrightarrow> sts ! unat i = APP_ACTV_STATE_IDLE \<Longrightarrow>
    owner adv sc co i = K_none \<and> cmds i S = []"
  by (metis kind_of.simps(1) option.distinct(1) owed.simps(1) wf_owed)

lemma fresh_slots: "owner adv sc co i = K_none \<Longrightarrow> i \<noteq> INVALID_BLE_ACTIVITY_INDEX \<Longrightarrow> i \<notin> set adv \<and> i \<noteq> sc \<and> i \<noteq> co"
  by (auto simp: owner_def split: if_splits)


lemma wf_adv_added:
  assumes "actv_wf None sts adv sc co S" "u < BLE_ADV_ACTIVITY_USER_NUM" "adv ! u = INVALID_BLE_ACTIVITY_INDEX"
    and "unat i < BLE_ACTIVITY_MAX" "sts ! unat i = APP_ACTV_STATE_IDLE"
  shows "actv_wf (Some i) sts (adv[u := i]) sc co S" "owner (adv[u := i]) sc co i = K_adv"
proof -
  let ?adv = "adv[u := i]"
  note own = fresh_owner [OF assms(1,4,5)]
  note i = index_valid [OF assms(4)]
  note new = fresh_slots [OF own [THEN conjunct1] i]
  have len: "length adv = BLE_ADV_ACTIVITY_USER_NUM" using assms(1) by (auto simp: actv_wf_def slots_ok_def)
  have inj: "v = w" if "v < BLE_ADV_ACTIVITY_USER_NUM" "w < BLE_ADV_ACTIVITY_USER_NUM"
      "?adv ! v \<noteq> INVALID_BLE_ACTIVITY_INDEX" "?adv ! v = ?adv ! w" for v w
    using that adv_distinct [OF assms(1) that(1,2)] new len nth_mem [of v adv] nth_mem [of w adv]
    unfolding adv_upd [OF assms(1) that(1)] adv_upd [OF assms(1) that(2)] by (auto split: if_splits)
  have mem: "j \<in> set ?adv \<longleftrightarrow> j = i \<or> j \<in> set adv" if "j \<noteq> INVALID_BLE_ACTIVITY_INDEX" for j
    using that assms(2,3) len by (auto simp: in_set_conv_nth nth_list_update split: if_splits)
  have slots: "slots_ok ?adv sc co"
    using assms(1) inj new mem unfolding actv_wf_def slots_ok_def by (intro conjI) (simp, metis+)
  have "owner ?adv sc co j = (if j = i then K_adv else owner adv sc co j)" for j
    using mem i new by (auto simp: owner_def)
  then show "actv_wf (Some i) sts ?adv sc co S" "owner ?adv sc co i = K_adv"
    using assms(1,4) own slots by (auto simp: actv_wf_def)
qed

lemma wf_scan_added:
  assumes "actv_wf None sts adv INVALID_BLE_ACTIVITY_INDEX co S" "unat i < BLE_ACTIVITY_MAX" "sts ! unat i = APP_ACTV_STATE_IDLE"
  shows "actv_wf (Some i) sts adv i co S" "owner adv i co i = K_scan"
proof -
  note own = fresh_owner [OF assms]
  note i = index_valid [OF assms(2)]
  note new = fresh_slots [OF own [THEN conjunct1] i]
  have "owner adv i co j = (if j = i then K_scan else owner adv INVALID_BLE_ACTIVITY_INDEX co j)" for j
    using i new by (auto simp: owner_def)
  then show "actv_wf (Some i) sts adv i co S" "owner adv i co i = K_scan"
    using assms(1,2) own new by (auto simp: actv_wf_def slots_ok_def)
qed

lemma wf_connect_added:
  assumes "actv_wf None sts adv sc INVALID_BLE_ACTIVITY_INDEX S" "unat i < BLE_ACTIVITY_MAX" "sts ! unat i = APP_ACTV_STATE_IDLE"
  shows "actv_wf (Some i) sts adv sc i S" "owner adv sc i i = K_connect"
proof -
  note own = fresh_owner [OF assms]
  note i = index_valid [OF assms(2)]
  note new = fresh_slots [OF own [THEN conjunct1] i]
  have "owner adv sc i j = (if j = i then K_connect else owner adv sc INVALID_BLE_ACTIVITY_INDEX j)" for j
    using i new by (auto simp: owner_def)
  then show "actv_wf (Some i) sts adv sc i S" "owner adv sc i i = K_connect"
    using assms(1,2) own new by (auto simp: actv_wf_def slots_ok_def)
qed

end
