(* ===== verification/BleActvPhase.thy ===== *)
theory BleActvPhase
  imports BleActvInv
begin

text \<open>
  How far the action of the scheduler has come: for each action, what the activities it works on are doing and which commands
  the host owes. An activity that is idle stays idle and one that runs may only go down while another action is in progress.
\<close>

section \<open>The phases of the actions\<close>

definition adv_slot :: "actv_env \<Rightarrow> nat \<Rightarrow> actv_state" where
  "adv_slot a v = slot (ae_state a) (ae_adv_actv_idx a ! v)"

definition scan_slot :: "actv_env \<Rightarrow> actv_state" where
  "scan_slot a = slot (ae_state a) (ae_scan_actv_idx a)"

definition conn_slot :: "actv_env \<Rightarrow> actv_state" where
  "conn_slot a = slot (ae_state a) (ae_connect_actv_idx a)"

fun is_create_adv :: "gapm_cmd \<Rightarrow> bool" where
  "is_create_adv (G_create_adv c) = True"
| "is_create_adv c = False"

fun is_create_scan :: "gapm_cmd \<Rightarrow> bool" where
  "is_create_scan (G_create_scan b) = True"
| "is_create_scan c = False"

fun is_create_init :: "gapm_cmd \<Rightarrow> bool" where
  "is_create_init (G_create_init t) = True"
| "is_create_init c = False"

fun is_set_wl :: "gapm_cmd \<Rightarrow> bool" where
  "is_set_wl (G_set_wl w) = True"
| "is_set_wl c = False"

fun is_set_ral :: "gapm_cmd \<Rightarrow> bool" where
  "is_set_ral (G_set_ral n) = True"
| "is_set_ral c = False"

fun is_disconnect :: "gapm_cmd \<Rightarrow> bool" where
  "is_disconnect (G_disconnect i) = True"
| "is_disconnect c = False"

definition owing :: "(gapm_cmd \<Rightarrow> bool) \<Rightarrow> gapm_cmd list \<Rightarrow> nat" where
  "owing P S = length (filter P S)"

definition adv_down :: "actv_state \<Rightarrow> bool" where
  "adv_down st \<longleftrightarrow> st = APP_ADV_STATE_STOPPING \<or> st = APP_ADV_STATE_DELETING"

definition adv_settled :: "actv_state \<Rightarrow> bool" where
  "adv_settled st \<longleftrightarrow> st = APP_ACTV_STATE_IDLE \<or> st = APP_ADV_STATE_STARTED \<or> adv_down st"

definition adv_preparing :: "actv_state \<Rightarrow> bool" where
  "adv_preparing st \<longleftrightarrow> st = APP_ADV_STATE_SETTING_ADV_DATA \<or> st = APP_ADV_STATE_SETTING_SCAN_RSP_DATA \<or> st = APP_ADV_STATE_STARTING"

definition scan_down :: "actv_state \<Rightarrow> bool" where
  "scan_down st \<longleftrightarrow> st = APP_SCAN_STATE_STOPPING \<or> st = APP_SCAN_STATE_DELETING"

definition adv_at_rest :: "actv_env \<Rightarrow> gapm_cmd list \<Rightarrow> bool" where
  "adv_at_rest a S \<longleftrightarrow> owing is_create_adv S = 0 \<and> \<not> ae_need_restart_adv a \<and> (\<forall>v < BLE_ADV_ACTIVITY_USER_NUM. adv_settled (adv_slot a v))"

definition adv_starting :: "actv_env \<Rightarrow> gapm_cmd list \<Rightarrow> bool" where
  "adv_starting a S \<longleftrightarrow>
     (let u = ap_actv_user (ae_advParam a); x = adv_slot a u in
      u < BLE_ADV_ACTIVITY_USER_NUM \<and> (\<forall>v < BLE_ADV_ACTIVITY_USER_NUM. v \<noteq> u \<longrightarrow> adv_settled (adv_slot a v)) \<and>
      (x = APP_ACTV_STATE_IDLE \<and> owing is_create_adv S = 1 \<and> \<not> ae_need_restart_adv a \<or>
       adv_preparing x \<and> owing is_create_adv S = 0 \<and> \<not> ae_need_restart_adv a \<or>
       adv_down x \<and> owing is_create_adv S = 0 \<and> ae_need_restart_adv a))"

definition adv_phase :: "ble_action \<Rightarrow> u8 \<Rightarrow> actv_env \<Rightarrow> gapm_cmd list \<Rightarrow> bool" where
  "adv_phase act op a S \<longleftrightarrow>
     (if act = BLE_ACTV_ACTION_STARTING_ADV then adv_starting a S
      else adv_at_rest a S \<and>
        (act = BLE_ACTV_ACTION_STOPPING_ADV \<longrightarrow>
           (\<exists>v < BLE_ADV_ACTIVITY_USER_NUM. ae_adv_actv_idx a ! v = op \<and> adv_down (adv_slot a v))))"

definition scan_at_rest :: "actv_env \<Rightarrow> gapm_cmd list \<Rightarrow> bool" where
  "scan_at_rest a S \<longleftrightarrow> owing is_create_scan S = 0 \<and> \<not> ae_need_restart_scan a \<and>
     (scan_slot a = APP_ACTV_STATE_IDLE \<or> scan_slot a = APP_SCAN_STATE_STARTED \<or> scan_down (scan_slot a))"

definition scan_phase :: "ble_action \<Rightarrow> actv_env \<Rightarrow> gapm_cmd list \<Rightarrow> bool" where
  "scan_phase act a S \<longleftrightarrow>
     (if act = BLE_ACTV_ACTION_STARTING_SCAN then
        scan_slot a = APP_ACTV_STATE_IDLE \<and> owing is_create_scan S = 1 \<and> \<not> ae_need_restart_scan a \<or>
        scan_slot a = APP_SCAN_STATE_STARTING \<and> owing is_create_scan S = 0 \<and> \<not> ae_need_restart_scan a \<or>
        scan_down (scan_slot a) \<and> owing is_create_scan S = 0 \<and> ae_need_restart_scan a
      else scan_at_rest a S \<and> (act = BLE_ACTV_ACTION_STOPPING_SCAN \<longrightarrow> scan_down (scan_slot a)))"

definition conn_down :: "actv_env \<Rightarrow> gapm_cmd list \<Rightarrow> bool" where
  "conn_down a S \<longleftrightarrow> conn_slot a = APP_CONNECT_STATE_DELETING \<or>
     conn_slot a = APP_CONNECT_STATE_STARTED \<and> G_stop (ae_connect_actv_idx a) \<in> set S"

definition conn_at_rest :: "actv_env \<Rightarrow> gapm_cmd list \<Rightarrow> bool" where
  "conn_at_rest a S \<longleftrightarrow> owing is_create_init S = 0 \<and> \<not> ae_need_restart_connect a \<and>
     (conn_slot a = APP_ACTV_STATE_IDLE \<or> conn_slot a = APP_CONNECT_STATE_STARTED \<or> conn_slot a = APP_CONNECT_STATE_DELETING)"

definition conn_phase :: "ble_action \<Rightarrow> actv_env \<Rightarrow> gapm_cmd list \<Rightarrow> bool" where
  "conn_phase act a S \<longleftrightarrow>
     (if act = BLE_ACTV_ACTION_CONNECTING then
        conn_slot a = APP_ACTV_STATE_IDLE \<and> owing is_create_init S = 1 \<and> \<not> ae_need_restart_connect a \<or>
        conn_slot a = APP_CONNECT_STATE_STARTING \<and> owing is_create_init S = 0 \<and> \<not> ae_need_restart_connect a \<or>
        conn_down a S \<and> owing is_create_init S = 0 \<and> ae_need_restart_connect a
      else conn_at_rest a S \<and> (act = BLE_ACTV_ACTION_STOP_CONNECTING \<longrightarrow> conn_down a S))"

text \<open>\<open>r\<close> tells whether devices may be put into the resolving list, which the code does not keep apart from the white list.\<close>

definition going :: "actv_env \<Rightarrow> gapm_cmd list \<Rightarrow> bool" where
  "going a S \<longleftrightarrow> (\<exists>v < BLE_ADV_ACTIVITY_USER_NUM. adv_down (adv_slot a v)) \<or> scan_down (scan_slot a) \<or> conn_down a S"

definition list_phase :: "bool \<Rightarrow> ble_action \<Rightarrow> actv_env \<Rightarrow> gapm_cmd list \<Rightarrow> bool" where
  "list_phase r act a S \<longleftrightarrow>
     (ae_need_set_white_list a \<longrightarrow> act = BLE_ACTV_ACTION_SET_WHITE_LIST) \<and>
     (act = BLE_ACTV_ACTION_SET_WHITE_LIST \<longrightarrow> (if ae_need_set_white_list a then r \<or> going a S else 0 < owing is_set_wl S)) \<and>
     (\<not> r \<longrightarrow> \<not> ae_need_add_resolving a \<and> \<not> ae_adding_resolving a \<and> act \<noteq> BLE_ACTV_ACTION_ADD_RESLO_LIST) \<and>
     (act = BLE_ACTV_ACTION_DISCONNECTING \<longrightarrow> 0 < owing is_disconnect S)"

text \<open>The data of the current advertisement fit into the messages.\<close>

definition param_ok :: "adv_param \<Rightarrow> bool" where
  "param_ok p \<longleftrightarrow> legacy_fits p \<and> unat (ap_advDataLen p) \<le> EXT_ADV_DATA_LEN \<and> unat (ap_scanRspDataLen p) \<le> EXT_ADV_DATA_LEN"

definition core :: "bool \<Rightarrow> ble_action \<Rightarrow> u8 \<Rightarrow> ble_sys \<Rightarrow> bool" where
  "core r act op s \<longleftrightarrow>
     adv_phase act op (sy_app s) (sy_sent s) \<and> scan_phase act (sy_app s) (sy_sent s) \<and> conn_phase act (sy_app s) (sy_sent s) \<and>
     list_phase r act (sy_app s) (sy_sent s) \<and> param_ok (ae_advParam (sy_app s)) \<and>
     ip_own_addr_type (ae_init_param (sy_app s)) \<le> APP_GAPM_GEN_NON_RSLV_ADDR \<and>
     length (ae_context (sy_app s)) = BLE_CONNECTION_MAX"

section \<open>The scheduler's side\<close>

definition fill_sound :: "adv_fill \<Rightarrow> bool" where
  "fill_sound f \<longleftrightarrow> (\<forall>p. unat (ap_scanRspDataLen p) \<le> EXT_ADV_DATA_LEN \<longrightarrow> unat (ap_scanRspDataLen (fst (f p))) \<le> EXT_ADV_DATA_LEN)"

definition requests_sound :: "bool \<Rightarrow> ble_mode \<Rightarrow> bool" where
  "requests_sound r m \<longleftrightarrow>
     (\<forall>f. Some f \<in> set (bm_bleDataFillFunc m) \<longrightarrow> fill_sound f) \<and>
     (\<forall>i \<in> set (bm_bleToConnectInfo m). ip_own_addr_type (ii_init_param i) \<le> APP_GAPM_GEN_NON_RSLV_ADDR) \<and>
     (\<forall>i. P_disconnect i \<in> set (bm_posted m) \<longrightarrow> i < BLE_CONNECTION_MAX) \<and>
     (\<not> r \<longrightarrow> \<not> bm_pending_add_resloving_list m \<and> P_add_resloving_list \<notin> set (bm_posted m)) \<and>
     length (bm_bleDataFillFunc m) = BLE_ADV_USER_NUM \<and> map fp_adv_user (bm_fill_param m) = map fp_adv_user ble_adv_fill_param"

definition sys_inv :: "bool \<Rightarrow> ble_sys \<Rightarrow> bool" where
  "sys_inv r s \<longleftrightarrow>
     sys_wf None s \<and> core r (bm_actv_action (sy_mode s)) (bm_op_actv_idx (sy_mode s)) s \<and>
     ble_inv (sy_mode s) \<and> requests_sound r (sy_mode s)"

lemma owing_simps [simp]:
  "owing P [] = 0"
  "owing P (S @ T) = owing P S + owing P T"
  "owing P [c] = (if P c then 1 else 0)"
  by (simp_all add: owing_def)

lemma owing_remove_Suc: "c \<in> set S \<Longrightarrow> P c \<Longrightarrow> owing P S = Suc (owing P (remove1 c S))"
  by (induction S) (auto simp: owing_def)

lemma owing_remove_other: "\<not> P c \<Longrightarrow> owing P (remove1 c S) = owing P S"
  by (induction S) (auto simp: owing_def)

lemma owing_pos: "0 < owing P S \<longleftrightarrow> (\<exists>c \<in> set S. P c)"
  by (auto simp: owing_def filter_empty_conv)

section \<open>What the primitive steps do to the view of the state\<close>

lemma access_simps [simp]:
  "sy_app (upd_app f s) = f (sy_app s)" "sy_mode (upd_app f s) = sy_mode s" "sy_sent (upd_app f s) = sy_sent s"
  "sy_app (upd_mode g s) = sy_app s" "sy_mode (upd_mode g s) = g (sy_mode s)" "sy_sent (upd_mode g s) = sy_sent s"
  "sy_app (ke_msg_send c s) = sy_app s" "sy_mode (ke_msg_send c s) = sy_mode s" "sy_sent (ke_msg_send c s) = sy_sent s @ [c]"
  "sy_app (ended act idx s) = sy_app s" "sy_sent (ended act idx s) = sy_sent s"
  "sy_mode (put_state idx st s) = sy_mode s" "sy_sent (put_state idx st s) = sy_sent s"
  "sy_mode (ended act idx s) = ble_execute_pending_op act idx (sy_mode s)"
  by (simp_all add: upd_app_def upd_mode_def ke_msg_send_def ended_def put_state_def)

lemma put_state_fields [simp]:
  "ae_state (sy_app (put_state idx st s)) = (ae_state (sy_app s))[unat idx := st]"
  "ae_adv_actv_idx (sy_app (put_state idx st s)) = ae_adv_actv_idx (sy_app s)"
  "ae_scan_actv_idx (sy_app (put_state idx st s)) = ae_scan_actv_idx (sy_app s)"
  "ae_connect_actv_idx (sy_app (put_state idx st s)) = ae_connect_actv_idx (sy_app s)"
  "ae_need_restart_adv (sy_app (put_state idx st s)) = ae_need_restart_adv (sy_app s)"
  "ae_need_update_adv (sy_app (put_state idx st s)) = ae_need_update_adv (sy_app s)"
  "ae_need_set_rsp_data (sy_app (put_state idx st s)) = ae_need_set_rsp_data (sy_app s)"
  "ae_advParam (sy_app (put_state idx st s)) = ae_advParam (sy_app s)"
  "ae_need_restart_scan (sy_app (put_state idx st s)) = ae_need_restart_scan (sy_app s)"
  "ae_need_restart_connect (sy_app (put_state idx st s)) = ae_need_restart_connect (sy_app s)"
  "ae_init_param (sy_app (put_state idx st s)) = ae_init_param (sy_app s)"
  "ae_need_set_white_list (sy_app (put_state idx st s)) = ae_need_set_white_list (sy_app s)"
  "ae_setting_white_list (sy_app (put_state idx st s)) = ae_setting_white_list (sy_app s)"
  "ae_need_add_resolving (sy_app (put_state idx st s)) = ae_need_add_resolving (sy_app s)"
  "ae_adding_resolving (sy_app (put_state idx st s)) = ae_adding_resolving (sy_app s)"
  "ae_context (sy_app (put_state idx st s)) = ae_context (sy_app s)"
  by (simp_all add: put_state_def)

lemma slot_fields [simp]:
  "adv_slot (a\<lparr>ae_need_restart_adv := b\<rparr>) = adv_slot a" "adv_slot (a\<lparr>ae_need_update_adv := b\<rparr>) = adv_slot a"
  "adv_slot (a\<lparr>ae_need_set_rsp_data := b\<rparr>) = adv_slot a" "adv_slot (a\<lparr>ae_advParam := p\<rparr>) = adv_slot a"
  "adv_slot (a\<lparr>ae_need_restart_scan := b\<rparr>) = adv_slot a" "adv_slot (set_scan_param i w f a) = adv_slot a"
  "adv_slot (a\<lparr>ae_need_restart_connect := b\<rparr>) = adv_slot a" "adv_slot (a\<lparr>ae_init_param := ip\<rparr>) = adv_slot a"
  "adv_slot (a\<lparr>ae_need_set_white_list := b\<rparr>) = adv_slot a" "adv_slot (a\<lparr>ae_setting_white_list := b\<rparr>) = adv_slot a"
  "adv_slot (a\<lparr>ae_white_list := wl\<rparr>) = adv_slot a" "adv_slot (a\<lparr>ae_need_add_resolving := b\<rparr>) = adv_slot a"
  "adv_slot (a\<lparr>ae_adding_resolving := b\<rparr>) = adv_slot a" "adv_slot (a\<lparr>ae_resolving_num := n\<rparr>) = adv_slot a"
  "adv_slot (a\<lparr>ae_context := cx\<rparr>) = adv_slot a" "adv_slot (a\<lparr>ae_scan_actv_idx := i'\<rparr>) = adv_slot a"
  "adv_slot (a\<lparr>ae_connect_actv_idx := i'\<rparr>) = adv_slot a"
  by (simp_all add: adv_slot_def set_scan_param_def fun_eq_iff)

lemma scan_slot_fields [simp]:
  "scan_slot (a\<lparr>ae_need_restart_adv := b\<rparr>) = scan_slot a" "scan_slot (a\<lparr>ae_need_update_adv := b\<rparr>) = scan_slot a"
  "scan_slot (a\<lparr>ae_need_set_rsp_data := b\<rparr>) = scan_slot a" "scan_slot (a\<lparr>ae_advParam := p\<rparr>) = scan_slot a"
  "scan_slot (a\<lparr>ae_need_restart_scan := b\<rparr>) = scan_slot a" "scan_slot (set_scan_param i w f a) = scan_slot a"
  "scan_slot (a\<lparr>ae_need_restart_connect := b\<rparr>) = scan_slot a" "scan_slot (a\<lparr>ae_init_param := ip\<rparr>) = scan_slot a"
  "scan_slot (a\<lparr>ae_need_set_white_list := b\<rparr>) = scan_slot a" "scan_slot (a\<lparr>ae_setting_white_list := b\<rparr>) = scan_slot a"
  "scan_slot (a\<lparr>ae_white_list := wl\<rparr>) = scan_slot a" "scan_slot (a\<lparr>ae_need_add_resolving := b\<rparr>) = scan_slot a"
  "scan_slot (a\<lparr>ae_adding_resolving := b\<rparr>) = scan_slot a" "scan_slot (a\<lparr>ae_resolving_num := n\<rparr>) = scan_slot a"
  "scan_slot (a\<lparr>ae_context := cx\<rparr>) = scan_slot a" "scan_slot (a\<lparr>ae_adv_actv_idx := adv\<rparr>) = scan_slot a"
  "scan_slot (a\<lparr>ae_connect_actv_idx := i'\<rparr>) = scan_slot a"
  by (simp_all add: scan_slot_def set_scan_param_def)

lemma conn_slot_fields [simp]:
  "conn_slot (a\<lparr>ae_need_restart_adv := b\<rparr>) = conn_slot a" "conn_slot (a\<lparr>ae_need_update_adv := b\<rparr>) = conn_slot a"
  "conn_slot (a\<lparr>ae_need_set_rsp_data := b\<rparr>) = conn_slot a" "conn_slot (a\<lparr>ae_advParam := p\<rparr>) = conn_slot a"
  "conn_slot (a\<lparr>ae_need_restart_scan := b\<rparr>) = conn_slot a" "conn_slot (set_scan_param i w f a) = conn_slot a"
  "conn_slot (a\<lparr>ae_need_restart_connect := b\<rparr>) = conn_slot a" "conn_slot (a\<lparr>ae_init_param := ip\<rparr>) = conn_slot a"
  "conn_slot (a\<lparr>ae_need_set_white_list := b\<rparr>) = conn_slot a" "conn_slot (a\<lparr>ae_setting_white_list := b\<rparr>) = conn_slot a"
  "conn_slot (a\<lparr>ae_white_list := wl\<rparr>) = conn_slot a" "conn_slot (a\<lparr>ae_need_add_resolving := b\<rparr>) = conn_slot a"
  "conn_slot (a\<lparr>ae_adding_resolving := b\<rparr>) = conn_slot a" "conn_slot (a\<lparr>ae_resolving_num := n\<rparr>) = conn_slot a"
  "conn_slot (a\<lparr>ae_context := cx\<rparr>) = conn_slot a" "conn_slot (a\<lparr>ae_adv_actv_idx := adv\<rparr>) = conn_slot a"
  "conn_slot (a\<lparr>ae_scan_actv_idx := i'\<rparr>) = conn_slot a"
  by (simp_all add: conn_slot_def set_scan_param_def)

lemma put_adv:
  assumes "sys_wf h s" "u < BLE_ADV_ACTIVITY_USER_NUM" "ae_adv_actv_idx (sy_app s) ! u = idx" "idx \<noteq> INVALID_BLE_ACTIVITY_INDEX"
  shows "v < BLE_ADV_ACTIVITY_USER_NUM \<Longrightarrow>
      adv_slot (sy_app (put_state idx st s)) v = (if v = u then st else adv_slot (sy_app s) v)"
    and "scan_slot (sy_app (put_state idx st s)) = scan_slot (sy_app s)"
    and "conn_slot (sy_app (put_state idx st s)) = conn_slot (sy_app s)"
  using slot_put_adv [OF assms(1,2)] assms(3,4) by (auto simp: adv_slot_def scan_slot_def conn_slot_def)

lemma put_scan:
  assumes "sys_wf h s" "ae_scan_actv_idx (sy_app s) = idx" "idx \<noteq> INVALID_BLE_ACTIVITY_INDEX"
  shows "v < BLE_ADV_ACTIVITY_USER_NUM \<Longrightarrow> adv_slot (sy_app (put_state idx st s)) v = adv_slot (sy_app s) v"
    and "scan_slot (sy_app (put_state idx st s)) = st"
    and "conn_slot (sy_app (put_state idx st s)) = conn_slot (sy_app s)"
  using slot_put_scan [OF assms(1)] assms(2,3) by (auto simp: adv_slot_def scan_slot_def conn_slot_def)

lemma put_connect:
  assumes "sys_wf h s" "ae_connect_actv_idx (sy_app s) = idx" "idx \<noteq> INVALID_BLE_ACTIVITY_INDEX"
  shows "v < BLE_ADV_ACTIVITY_USER_NUM \<Longrightarrow> adv_slot (sy_app (put_state idx st s)) v = adv_slot (sy_app s) v"
    and "scan_slot (sy_app (put_state idx st s)) = scan_slot (sy_app s)"
    and "conn_slot (sy_app (put_state idx st s)) = st"
  using slot_put_connect [OF assms(1)] assms(2,3) by (auto simp: adv_slot_def scan_slot_def conn_slot_def)

section \<open>The end of an action\<close>

lemma next_fields [simp]:
  "bm_actv_action (next_pending_op i m) = bm_actv_action m" "bm_op_actv_idx (next_pending_op i m) = bm_op_actv_idx m"
  "bm_calls (next_pending_op i m) = bm_calls m"
  by (simp_all add: next_pending_op_def post_def)

lemma index_bound: "length (bm_pendingDisconnect m) = BLE_CONNECTION_MAX \<Longrightarrow>
    app_ble_index_pending_to_disconnect m \<noteq> BLE_CONNECTION_MAX \<Longrightarrow> app_ble_index_pending_to_disconnect m < BLE_CONNECTION_MAX"
  by (metis app_ble_index_pending_to_disconnect_def le_neq_implies_less length_takeWhile_le)

lemma next_sound: "requests_sound r m \<Longrightarrow> length (bm_pendingDisconnect m) = BLE_CONNECTION_MAX \<Longrightarrow>
    requests_sound r (next_pending_op (app_ble_index_pending_to_disconnect m) m)"
  using index_bound [of m] by (auto simp: next_pending_op_def requests_sound_def post_def)

lemma sound_upd [simp]: "requests_sound r (m\<lparr>bm_op_actv_idx := o', bm_actv_action := act\<rparr>) = requests_sound r m"
  by (simp add: requests_sound_def)

lemma index_upd [simp]:
  "app_ble_index_pending_to_disconnect (m\<lparr>bm_op_actv_idx := o', bm_actv_action := act\<rparr>) = app_ble_index_pending_to_disconnect m"
  by (simp add: app_ble_index_pending_to_disconnect_def)

lemma execute_cases:
  assumes "act \<noteq> BLE_ACTV_ACTION_IDLE"
  obtains (same) "ble_execute_pending_op act idx m = m"
    "\<not> (bm_actv_action m = act \<and> (act = BLE_ACTV_ACTION_STOPPING_ADV \<longrightarrow> bm_op_actv_idx m = idx))"
  | (over) "bm_actv_action m = act" "act = BLE_ACTV_ACTION_STOPPING_ADV \<Longrightarrow> bm_op_actv_idx m = idx"
      "ble_execute_pending_op act idx m = next_pending_op (app_ble_index_pending_to_disconnect m)
         (m\<lparr>bm_op_actv_idx := 0xff, bm_actv_action := BLE_ACTV_ACTION_IDLE\<rparr>)"
proof (cases "bm_actv_action m = act \<and> (act = BLE_ACTV_ACTION_STOPPING_ADV \<longrightarrow> bm_op_actv_idx m = idx)")
  case True
  then have "ble_clear_actv_action act idx m = (True, m\<lparr>bm_op_actv_idx := 0xff, bm_actv_action := BLE_ACTV_ACTION_IDLE\<rparr>)"
    using assms by (auto simp: ble_clear_actv_action_def)
  with True show ?thesis by (intro over) (auto simp: ble_execute_pending_op_def)
next
  case False
  then have "ble_clear_actv_action act idx m = (False, m)"
    using assms by (auto simp: ble_clear_actv_action_def)
  with False show ?thesis by (intro same) (auto simp: ble_execute_pending_op_def)
qed

lemma ended_inv:
  assumes "sys_wf None s" "ble_inv (sy_mode s)" "requests_sound r (sy_mode s)" "act \<noteq> BLE_ACTV_ACTION_IDLE"
    and here: "core r (bm_actv_action (sy_mode s)) (bm_op_actv_idx (sy_mode s)) s \<or>
      bm_actv_action (sy_mode s) = act \<and> (act = BLE_ACTV_ACTION_STOPPING_ADV \<longrightarrow> bm_op_actv_idx (sy_mode s) = idx)"
    and over: "bm_actv_action (sy_mode s) = act \<Longrightarrow> (act = BLE_ACTV_ACTION_STOPPING_ADV \<Longrightarrow> bm_op_actv_idx (sy_mode s) = idx) \<Longrightarrow>
      core r BLE_ACTV_ACTION_IDLE 0xff s"
  shows "sys_inv r (ended act idx s)"
proof -
  have frame: "core r x y (ended act idx s) = core r x y s" for x y by (simp add: core_def)
  have inv: "ble_inv (ble_execute_pending_op act idx (sy_mode s))" using assms(2,4) by (rule execute_inv)
  show ?thesis
  proof (rule execute_cases [OF assms(4), of idx "sy_mode s"])
    assume same: "ble_execute_pending_op act idx (sy_mode s) = sy_mode s"
      "\<not> (bm_actv_action (sy_mode s) = act \<and> (act = BLE_ACTV_ACTION_STOPPING_ADV \<longrightarrow> bm_op_actv_idx (sy_mode s) = idx))"
    with here assms(1-3) show ?thesis by (auto simp: sys_inv_def frame)
  next
    let ?m = "(sy_mode s)\<lparr>bm_op_actv_idx := 0xff, bm_actv_action := BLE_ACTV_ACTION_IDLE\<rparr>"
    assume 1: "bm_actv_action (sy_mode s) = act" "act = BLE_ACTV_ACTION_STOPPING_ADV \<Longrightarrow> bm_op_actv_idx (sy_mode s) = idx"
      and e: "ble_execute_pending_op act idx (sy_mode s) = next_pending_op (app_ble_index_pending_to_disconnect (sy_mode s)) ?m"
    have "length (bm_pendingDisconnect (sy_mode s)) = BLE_CONNECTION_MAX" using assms(2) by (simp add: ble_inv_def sizes_ok_def)
    then have "requests_sound r (ble_execute_pending_op act idx (sy_mode s))"
      unfolding e using next_sound [of r ?m] assms(3) by simp
    then show ?thesis using over [OF 1] assms(1) inv by (simp add: sys_inv_def frame e)
  qed
qed

text \<open>The requests that the layer below makes itself.\<close>

lemma request_fields [simp]:
  "bm_actv_action (app_ble_refresh_adv_state m) = bm_actv_action m" "bm_op_actv_idx (app_ble_refresh_adv_state m) = bm_op_actv_idx m"
  by (simp_all add: app_ble_refresh_adv_state_def request_def post_def)

lemma refresh_sound: "requests_sound r m \<Longrightarrow> requests_sound r (app_ble_refresh_adv_state m)"
  by (auto simp: requests_sound_def app_ble_refresh_adv_state_def request_def post_def)

lemma stopped_fields [simp]:
  "bm_actv_action (app_advertising_stopped e idx m) = bm_actv_action m"
  "bm_op_actv_idx (app_advertising_stopped e idx m) = bm_op_actv_idx m"
  by (simp_all add: app_advertising_stopped_def Let_def)

lemma stopped_sound: "requests_sound r m \<Longrightarrow> requests_sound r (app_advertising_stopped e idx m)"
  unfolding app_advertising_stopped_def Let_def by (rule refresh_sound) (auto simp: requests_sound_def)

lemma stopped_inv: "ble_inv m \<Longrightarrow> ble_inv (app_advertising_stopped e idx m)"
  by (rule step_inv [OF ble_step.Adv_Stopped])

lemma txpwr_fields:
  "returns (app_ble_set_adv_txpwr_by_actv_user e u dbm m) P \<longleftrightarrow> u < BLE_ADV_ACTIVITY_USER_NUM \<and>
     P (if be_adv_actv_idx e ! u \<noteq> INVALID_BLE_ACTIVITY_INDEX \<and> dbm \<noteq> bm_advCurrentTxpwr m ! u
        then m\<lparr>bm_advPendingTxpwr := (bm_advPendingTxpwr m)[u := dbm], bm_advCurrentTxpwr := (bm_advCurrentTxpwr m)[u := dbm]\<rparr>
        else m\<lparr>bm_advPendingTxpwr := (bm_advPendingTxpwr m)[u := dbm]\<rparr>)"
  by (simp add: app_ble_set_adv_txpwr_by_actv_user_def Let_def)

lemma started_returns:
  assumes "length (be_adv_actv_idx e) = BLE_ADV_ACTIVITY_USER_NUM" "ble_inv m" "requests_sound r m"
  shows "returns (app_advertising_started e idx m) (\<lambda>m'. ble_inv m' \<and> requests_sound r m' \<and>
           bm_actv_action m' = bm_actv_action m \<and> bm_op_actv_idx m' = bm_op_actv_idx m)"
proof -
  let ?u = "app_ble_get_adv_user_from_activity_index e idx"
  have "?u \<noteq> BLE_ADV_ACTIVITY_USER_NUM \<Longrightarrow> ?u < BLE_ADV_ACTIVITY_USER_NUM"
    using assms(1) by (metis app_ble_get_adv_user_from_activity_index_def le_neq_implies_less length_takeWhile_le)
  moreover have "requests_sound r (m\<lparr>bm_advPendingTxpwr := x, bm_advCurrentTxpwr := y\<rparr>)" "requests_sound r (m\<lparr>bm_advPendingTxpwr := x\<rparr>)"
    "requests_sound r (m\<lparr>bm_advCurrentTxpwr := x\<rparr>)" for x y
    using assms(3) by (simp_all add: requests_sound_def)
  ultimately show ?thesis
    using assms(2,3) unfolding app_advertising_started_def Let_def
    by (auto simp: txpwr_fields intro!: refresh_inv refresh_sound)
qed

lemma failed_fields [simp]:
  "bm_actv_action (app_advertising_starting_failed e idx m) = BLE_ACTV_ACTION_STOPPING_ADV"
  "bm_op_actv_idx (app_advertising_starting_failed e idx m) = idx"
  by (simp_all add: app_advertising_starting_failed_def ble_set_actv_action_def Let_def)

lemma failed_sound: "requests_sound r m \<Longrightarrow> requests_sound r (app_advertising_starting_failed e idx m)"
  by (simp add: app_advertising_starting_failed_def ble_set_actv_action_def Let_def requests_sound_def)

lemma failed_inv: "ble_inv m \<Longrightarrow> bm_actv_action m = BLE_ACTV_ACTION_STARTING_ADV \<Longrightarrow> ble_inv (app_advertising_starting_failed e idx m)"
  by (rule step_inv [OF ble_step.Adv_Failed])

end
