(* ===== verification/BleActvOps.thy ===== *)
theory BleActvOps
  imports BleActvPhase
begin

text \<open>The operations of the activities keep the invariant of the two layers, and return.\<close>

section \<open>Slots and their activities\<close>

lemma update_returns [simp]:
  "returns (appm_update_actv_state idx new s) P \<longleftrightarrow>
     unat idx < BLE_ACTIVITY_MAX \<and> actv_transition (actv_state_at (sy_app s) idx) new \<and> P (put_state idx new s)"
  by (simp add: appm_update_actv_state_def)

lemma with_state_returns [simp]:
  "returns (with_state idx s k) P \<longleftrightarrow> unat idx < BLE_ACTIVITY_MAX \<and> returns (k (actv_state_at (sy_app s) idx)) P"
  by (simp add: with_state_def)

lemma actv_at_simps [simp]:
  "actv_state_at (sy_app (ke_msg_send c s)) idx = actv_state_at (sy_app s) idx"
  "length (ae_state (sy_app s)) = BLE_ACTIVITY_MAX \<Longrightarrow> unat idx < BLE_ACTIVITY_MAX \<Longrightarrow>
     actv_state_at (sy_app (put_state idx st s)) idx = st"
  by (simp_all add: actv_state_at_def)

lemma send_put [simp]: "ke_msg_send c (put_state idx st s) = put_state idx st (ke_msg_send c s)"
  by (simp add: ke_msg_send_def put_state_def upd_app_def)

lemma state_length: "sys_wf h s \<Longrightarrow> length (ae_state (sy_app s)) = BLE_ACTIVITY_MAX"
  by (simp add: actv_wf_def)

lemma adv_activity:
  assumes "sys_wf h s" "v < BLE_ADV_ACTIVITY_USER_NUM" "ae_adv_actv_idx (sy_app s) ! v \<noteq> INVALID_BLE_ACTIVITY_INDEX"
  shows "unat (ae_adv_actv_idx (sy_app s) ! v) < BLE_ACTIVITY_MAX"
    and "actv_state_at (sy_app s) (ae_adv_actv_idx (sy_app s) ! v) = adv_slot (sy_app s) v"
    and "h = None \<Longrightarrow> kind_of (adv_slot (sy_app s) v) = K_adv"
proof -
  note own = owner_adv [OF assms]
  show b: "unat (ae_adv_actv_idx (sy_app s) ! v) < BLE_ACTIVITY_MAX" using wf_bound [OF assms(1)] own by simp
  show "actv_state_at (sy_app s) (ae_adv_actv_idx (sy_app s) ! v) = adv_slot (sy_app s) v"
    using assms(3) by (simp add: actv_state_at_def adv_slot_def slot_def)
  show "h = None \<Longrightarrow> kind_of (adv_slot (sy_app s) v) = K_adv"
    using wf_owed [OF assms(1) _ b] own assms(3) by (simp add: adv_slot_def slot_def)
qed

lemma scan_activity:
  assumes "sys_wf h s" "ae_scan_actv_idx (sy_app s) \<noteq> INVALID_BLE_ACTIVITY_INDEX"
  shows "unat (ae_scan_actv_idx (sy_app s)) < BLE_ACTIVITY_MAX"
    and "actv_state_at (sy_app s) (ae_scan_actv_idx (sy_app s)) = scan_slot (sy_app s)"
    and "h = None \<Longrightarrow> kind_of (scan_slot (sy_app s)) = K_scan"
proof -
  note own = owner_scan [OF assms]
  show b: "unat (ae_scan_actv_idx (sy_app s)) < BLE_ACTIVITY_MAX" using wf_bound [OF assms(1)] own by simp
  show "actv_state_at (sy_app s) (ae_scan_actv_idx (sy_app s)) = scan_slot (sy_app s)"
    using assms(2) by (simp add: actv_state_at_def scan_slot_def slot_def)
  show "h = None \<Longrightarrow> kind_of (scan_slot (sy_app s)) = K_scan"
    using wf_owed [OF assms(1) _ b] own assms(2) by (simp add: scan_slot_def slot_def)
qed

lemma conn_activity:
  assumes "sys_wf h s" "ae_connect_actv_idx (sy_app s) \<noteq> INVALID_BLE_ACTIVITY_INDEX"
  shows "unat (ae_connect_actv_idx (sy_app s)) < BLE_ACTIVITY_MAX"
    and "actv_state_at (sy_app s) (ae_connect_actv_idx (sy_app s)) = conn_slot (sy_app s)"
    and "h = None \<Longrightarrow> kind_of (conn_slot (sy_app s)) = K_connect"
proof -
  note own = owner_connect [OF assms]
  show b: "unat (ae_connect_actv_idx (sy_app s)) < BLE_ACTIVITY_MAX" using wf_bound [OF assms(1)] own by simp
  show "actv_state_at (sy_app s) (ae_connect_actv_idx (sy_app s)) = conn_slot (sy_app s)"
    using assms(2) by (simp add: actv_state_at_def conn_slot_def slot_def)
  show "h = None \<Longrightarrow> kind_of (conn_slot (sy_app s)) = K_connect"
    using wf_owed [OF assms(1) _ b] own assms(2) by (simp add: conn_slot_def slot_def)
qed

text \<open>A slot is idle when it names no activity.\<close>

lemma idle_slots:
  "sys_wf None s \<Longrightarrow> v < BLE_ADV_ACTIVITY_USER_NUM \<Longrightarrow>
     adv_slot (sy_app s) v = APP_ACTV_STATE_IDLE \<longleftrightarrow> ae_adv_actv_idx (sy_app s) ! v = INVALID_BLE_ACTIVITY_INDEX"
  "sys_wf None s \<Longrightarrow> scan_slot (sy_app s) = APP_ACTV_STATE_IDLE \<longleftrightarrow> ae_scan_actv_idx (sy_app s) = INVALID_BLE_ACTIVITY_INDEX"
  "sys_wf None s \<Longrightarrow> conn_slot (sy_app s) = APP_ACTV_STATE_IDLE \<longleftrightarrow> ae_connect_actv_idx (sy_app s) = INVALID_BLE_ACTIVITY_INDEX"
proof -
  assume w: "sys_wf None s"
  show "v < BLE_ADV_ACTIVITY_USER_NUM \<Longrightarrow>
     adv_slot (sy_app s) v = APP_ACTV_STATE_IDLE \<longleftrightarrow> ae_adv_actv_idx (sy_app s) ! v = INVALID_BLE_ACTIVITY_INDEX"
    using adv_activity(3) [OF w, of v] by (cases "ae_adv_actv_idx (sy_app s) ! v = INVALID_BLE_ACTIVITY_INDEX") (auto simp: adv_slot_def slot_def)
  show "scan_slot (sy_app s) = APP_ACTV_STATE_IDLE \<longleftrightarrow> ae_scan_actv_idx (sy_app s) = INVALID_BLE_ACTIVITY_INDEX"
    using scan_activity(3) [OF w] by (cases "ae_scan_actv_idx (sy_app s) = INVALID_BLE_ACTIVITY_INDEX") (auto simp: scan_slot_def slot_def)
  show "conn_slot (sy_app s) = APP_ACTV_STATE_IDLE \<longleftrightarrow> ae_connect_actv_idx (sy_app s) = INVALID_BLE_ACTIVITY_INDEX"
    using conn_activity(3) [OF w] by (cases "ae_connect_actv_idx (sy_app s) = INVALID_BLE_ACTIVITY_INDEX") (auto simp: conn_slot_def slot_def)
qed

text \<open>An activity whose command was answered, or that runs, moves on with a new command or comes to rest.\<close>

lemma sys_wf_sent:
  assumes "sys_wf (Some idx) s" "owner (ae_adv_actv_idx (sy_app s)) (ae_scan_actv_idx (sy_app s)) (ae_connect_actv_idx (sy_app s)) idx = kind_of st"
    and "owed idx st [c]" "cmd_idx c = Some idx"
  shows "sys_wf None (put_state idx st (ke_msg_send c s))"
  using wf_put_sent [OF assms(1) _ assms(3,4)] assms(2) by simp

lemma sys_wf_quiet:
  assumes "sys_wf (Some idx) s" "owner (ae_adv_actv_idx (sy_app s)) (ae_scan_actv_idx (sy_app s)) (ae_connect_actv_idx (sy_app s)) idx = kind_of st"
    and "owed idx st []"
  shows "sys_wf None (put_state idx st s)"
  using wf_put_quiet [OF assms(1) _ assms(3)] assms(2) by simp

lemma adv_hole:
  assumes w: "sys_wf None s" and v: "v < BLE_ADV_ACTIVITY_USER_NUM" and st: "adv_slot (sy_app s) v = APP_ADV_STATE_STARTED"
  shows "sys_wf (Some (ae_adv_actv_idx (sy_app s) ! v)) s"
proof -
  have i: "ae_adv_actv_idx (sy_app s) ! v \<noteq> INVALID_BLE_ACTIVITY_INDEX" using idle_slots(1) [OF w v] st by simp
  note b = adv_activity(1) [OF w v i]
  show ?thesis
    using wf_owed [OF w _ b] adv_activity(2) [OF w v i] st by (intro wf_hole [OF w b]) (simp add: actv_state_at_def)
qed

lemma scan_hole:
  assumes w: "sys_wf None s" and st: "scan_slot (sy_app s) = APP_SCAN_STATE_STARTED"
  shows "sys_wf (Some (ae_scan_actv_idx (sy_app s))) s"
proof -
  have i: "ae_scan_actv_idx (sy_app s) \<noteq> INVALID_BLE_ACTIVITY_INDEX" using idle_slots(2) [OF w] st by simp
  note b = scan_activity(1) [OF w i]
  show ?thesis
    using wf_owed [OF w _ b] scan_activity(2) [OF w i] st by (intro wf_hole [OF w b]) (simp add: actv_state_at_def)
qed

section \<open>Stopping\<close>

lemma stop_adv:
  assumes "sys_wf None s" "v < BLE_ADV_ACTIVITY_USER_NUM" "adv_settled (adv_slot (sy_app s) v)"
    "adv_slot (sy_app s) v \<noteq> APP_ACTV_STATE_IDLE" "ae_adv_actv_idx (sy_app s) ! v = idx"
  shows "returns (appm_stop_advertising idx s) P \<longleftrightarrow>
     (if adv_slot (sy_app s) v = APP_ADV_STATE_STARTED then P (put_state idx APP_ADV_STATE_STOPPING (ke_msg_send (G_stop idx) s)) else P s)"
proof -
  have i: "idx \<noteq> INVALID_BLE_ACTIVITY_INDEX" using assms(2-5) idle_slots(1) [OF assms(1,2)] by auto
  then show ?thesis
    using adv_activity(1,2) [of None s v] assms
    by (auto simp: appm_stop_advertising_def adv_settled_def adv_down_def going_down_def actv_transition_def)
qed

lemma stop_adv_wf:
  assumes "sys_wf None s" "v < BLE_ADV_ACTIVITY_USER_NUM" "adv_slot (sy_app s) v = APP_ADV_STATE_STARTED"
    "ae_adv_actv_idx (sy_app s) ! v = idx"
  shows "sys_wf None (put_state idx APP_ADV_STATE_STOPPING (ke_msg_send (G_stop idx) s))"
  using adv_hole [OF assms(1-3)] assms(4) owner_adv [OF assms(1,2)] idle_slots(1) [OF assms(1,2)] assms(3)
  by (intro sys_wf_sent) auto

lemma stop_scan:
  assumes "sys_wf None s" "scan_slot (sy_app s) = APP_SCAN_STATE_STARTED \<or> scan_down (scan_slot (sy_app s))"
    "ae_scan_actv_idx (sy_app s) = idx"
  shows "returns (appm_stop_scanning s) P \<longleftrightarrow>
     (if scan_slot (sy_app s) = APP_SCAN_STATE_STARTED then P (put_state idx APP_SCAN_STATE_STOPPING (ke_msg_send (G_stop idx) s)) else P s)"
proof -
  have i: "idx \<noteq> INVALID_BLE_ACTIVITY_INDEX" using assms(2,3) idle_slots(2) [OF assms(1)] by (auto simp: scan_down_def)
  then show ?thesis
    using scan_activity(1,2) [of None s] assms
    by (auto simp: appm_stop_scanning_def Let_def scan_down_def going_down_def actv_transition_def)
qed

lemma stop_scan_wf:
  assumes "sys_wf None s" "scan_slot (sy_app s) = APP_SCAN_STATE_STARTED" "ae_scan_actv_idx (sy_app s) = idx"
  shows "sys_wf None (put_state idx APP_SCAN_STATE_STOPPING (ke_msg_send (G_stop idx) s))"
  using scan_hole [OF assms(1,2)] assms(3) owner_scan [OF assms(1)] idle_slots(2) [OF assms(1)] assms(2)
  by (intro sys_wf_sent) auto

lemma stop_conn:
  assumes "sys_wf None s" "conn_slot (sy_app s) = APP_CONNECT_STATE_STARTED \<or> conn_slot (sy_app s) = APP_CONNECT_STATE_DELETING"
    "ae_connect_actv_idx (sy_app s) = idx"
  shows "returns (appm_stop_connecting s) P \<longleftrightarrow>
     (if conn_slot (sy_app s) = APP_CONNECT_STATE_STARTED then P (ke_msg_send (G_stop idx) s) else P s)"
proof -
  have i: "idx \<noteq> INVALID_BLE_ACTIVITY_INDEX" using assms(2,3) idle_slots(3) [OF assms(1)] by auto
  then show ?thesis
    using conn_activity(1,2) [of None s] assms
    by (auto simp: appm_stop_connecting_def Let_def going_down_def)
qed

lemma stop_conn_wf:
  assumes "sys_wf None s" "conn_slot (sy_app s) = APP_CONNECT_STATE_STARTED" "ae_connect_actv_idx (sy_app s) = idx"
  shows "sys_wf None (ke_msg_send (G_stop idx) s)"
proof -
  have i: "idx \<noteq> INVALID_BLE_ACTIVITY_INDEX" using assms(2,3) idle_slots(3) [OF assms(1)] by auto
  then have b: "unat idx < BLE_ACTIVITY_MAX" "ae_state (sy_app s) ! unat idx = APP_CONNECT_STATE_STARTED"
    using conn_activity(1,2) [OF assms(1)] assms(2,3) by (auto simp: actv_state_at_def)
  then show ?thesis
    using assms(1) wf_owed [OF assms(1) _ b(1)] unfolding actv_wf_def by (auto simp: not_less [symmetric])
qed

section \<open>What an operation on one kind of activity leaves alone\<close>

lemma adv_frame:
  assumes "\<And>v. v < BLE_ADV_ACTIVITY_USER_NUM \<Longrightarrow> adv_slot a' v = adv_slot a v" "owing is_create_adv S' = owing is_create_adv S"
    "ae_need_restart_adv a' = ae_need_restart_adv a" "ap_actv_user (ae_advParam a') = ap_actv_user (ae_advParam a)"
    "ae_adv_actv_idx a' = ae_adv_actv_idx a"
  shows "adv_phase act op a' S' = adv_phase act op a S" "adv_at_rest a' S' = adv_at_rest a S"
proof -
  show rest: "adv_at_rest a' S' = adv_at_rest a S" using assms by (simp add: adv_at_rest_def)
  have "adv_starting a' S' = adv_starting a S"
    using assms by (cases "ap_actv_user (ae_advParam a) < BLE_ADV_ACTIVITY_USER_NUM") (simp_all add: adv_starting_def Let_def)
  moreover have "(\<exists>v<BLE_ADV_ACTIVITY_USER_NUM. ae_adv_actv_idx a' ! v = op \<and> adv_down (adv_slot a' v)) =
      (\<exists>v<BLE_ADV_ACTIVITY_USER_NUM. ae_adv_actv_idx a ! v = op \<and> adv_down (adv_slot a v))"
    using assms by auto
  ultimately show "adv_phase act op a' S' = adv_phase act op a S" using rest by (simp add: adv_phase_def)
qed

lemma scan_frame:
  assumes "scan_slot a' = scan_slot a" "owing is_create_scan S' = owing is_create_scan S" "ae_need_restart_scan a' = ae_need_restart_scan a"
  shows "scan_phase act a' S' = scan_phase act a S" "scan_at_rest a' S' = scan_at_rest a S"
  using assms by (simp_all add: scan_phase_def scan_at_rest_def)

lemma conn_frame:
  assumes "conn_slot a' = conn_slot a" "owing is_create_init S' = owing is_create_init S"
    "ae_need_restart_connect a' = ae_need_restart_connect a" "ae_connect_actv_idx a' = ae_connect_actv_idx a"
  shows "G_stop (ae_connect_actv_idx a) \<in> set S' \<longleftrightarrow> G_stop (ae_connect_actv_idx a) \<in> set S \<Longrightarrow> conn_phase act a' S' = conn_phase act a S"
    and "conn_at_rest a' S' = conn_at_rest a S"
    and "G_stop (ae_connect_actv_idx a) \<in> set S' \<longleftrightarrow> G_stop (ae_connect_actv_idx a) \<in> set S \<Longrightarrow> conn_down a' S' = conn_down a S"
  using assms by (simp_all add: conn_phase_def conn_at_rest_def conn_down_def)

text \<open>A list that waits for activities to go down goes on to wait.\<close>

lemma list_frame:
  assumes "list_phase r act a S" "ae_need_set_white_list a' = ae_need_set_white_list a"
    "ae_need_add_resolving a' = ae_need_add_resolving a" "ae_adding_resolving a' = ae_adding_resolving a"
    "owing is_set_wl S' = owing is_set_wl S" "owing is_disconnect S' = owing is_disconnect S" "going a S \<Longrightarrow> going a' S'"
  shows "list_phase r act a' S'"
  using assms by (auto simp: list_phase_def)

text \<open>No activity is owned twice.\<close>

lemma adv_conn_differ: "sys_wf h s \<Longrightarrow> v < BLE_ADV_ACTIVITY_USER_NUM \<Longrightarrow> ae_adv_actv_idx (sy_app s) ! v \<noteq> INVALID_BLE_ACTIVITY_INDEX \<Longrightarrow>
    ae_adv_actv_idx (sy_app s) ! v \<noteq> ae_connect_actv_idx (sy_app s)"
  by (metis actv_wf_def nth_mem slots_ok_def)

lemma scan_conn_differ: "sys_wf h s \<Longrightarrow> ae_scan_actv_idx (sy_app s) \<noteq> INVALID_BLE_ACTIVITY_INDEX \<Longrightarrow>
    ae_scan_actv_idx (sy_app s) \<noteq> ae_connect_actv_idx (sy_app s)"
  by (auto simp: actv_wf_def slots_ok_def)

text \<open>Whatever the action, an activity that runs may be stopped.\<close>

lemma adv_down_core:
  assumes w: "sys_wf (Some idx) s" and v: "v < BLE_ADV_ACTIVITY_USER_NUM"
    and idx: "ae_adv_actv_idx (sy_app s) ! v = idx" "idx \<noteq> INVALID_BLE_ACTIVITY_INDEX"
    and st: "adv_slot (sy_app s) v = APP_ADV_STATE_STARTED \<or> adv_down (adv_slot (sy_app s) v)"
    and st': "adv_down st'" "cmd_idx d = Some idx" and c: "core r act op s"
  defines "t \<equiv> put_state idx st' (ke_msg_send d s)"
  shows "sys_wf None t" "core r act op t" "adv_down (adv_slot (sy_app t) v)" "going (sy_app t) (sy_sent t)"
proof -
  have own: "owner (ae_adv_actv_idx (sy_app s)) (ae_scan_actv_idx (sy_app s)) (ae_connect_actv_idx (sy_app s)) idx = K_adv"
    using owner_adv [OF w v] idx by simp
  show "sys_wf None t" unfolding t_def using st' own by (intro sys_wf_sent [OF w]) (auto simp: adv_down_def)
  have slots: "u < BLE_ADV_ACTIVITY_USER_NUM \<Longrightarrow> adv_slot (sy_app t) u = (if u = v then st' else adv_slot (sy_app s) u)"
      "scan_slot (sy_app t) = scan_slot (sy_app s)" "conn_slot (sy_app t) = conn_slot (sy_app s)" for u
    using put_adv [OF w v idx] unfolding t_def by (simp_all add: put_state_def)
  show down: "adv_down (adv_slot (sy_app t) v)" using slots(1) [OF v] st' by simp
  show going: "going (sy_app t) (sy_sent t)" using down v by (auto simp: going_def)
  have kinds: "\<not> is_create_adv d" "\<not> is_create_scan d" "\<not> is_create_init d" "G_stop (ae_connect_actv_idx (sy_app s)) \<noteq> d"
    using st'(2) adv_conn_differ [OF w v] idx by (cases d; simp)+
  have prep: "\<not> adv_preparing (adv_slot (sy_app s) v)" "adv_slot (sy_app s) v \<noteq> APP_ACTV_STATE_IDLE"
    using st by (auto simp: adv_preparing_def adv_down_def)
  have settled: "adv_settled st'" using st'(1) by (simp add: adv_settled_def)
  have rest: "adv_at_rest (sy_app t) (sy_sent t)" if "adv_at_rest (sy_app s) (sy_sent s)"
    using that slots(1) settled kinds by (auto simp: adv_at_rest_def t_def)
  have starting: "adv_starting (sy_app t) (sy_sent t)" if "adv_starting (sy_app s) (sy_sent s)"
    using that slots(1) prep settled st' kinds unfolding adv_starting_def Let_def t_def
    by (cases "ap_actv_user (ae_advParam (sy_app s)) = v") auto
  have "adv_down (adv_slot (sy_app s) u) \<Longrightarrow> adv_down (adv_slot (sy_app t) u)" if "u < BLE_ADV_ACTIVITY_USER_NUM" for u
    using slots(1) [OF that] st'(1) by simp
  moreover have "ae_adv_actv_idx (sy_app t) = ae_adv_actv_idx (sy_app s)" by (simp add: t_def)
  ultimately have "adv_phase act op (sy_app t) (sy_sent t)"
    using c rest starting unfolding core_def adv_phase_def by (auto split: if_splits)
  moreover have "scan_phase act (sy_app t) (sy_sent t)" "conn_phase act (sy_app t) (sy_sent t)"
    using c kinds scan_frame(1) [OF slots(2)] conn_frame(1) [OF slots(3)] by (auto simp: core_def t_def)
  moreover have "list_phase r act (sy_app t) (sy_sent t)"
    using c going by (auto simp: core_def list_phase_def t_def)
  ultimately show "core r act op t" using c by (simp add: core_def t_def)
qed

lemma stop_adv_core:
  assumes w: "sys_wf None s" and v: "v < BLE_ADV_ACTIVITY_USER_NUM" and st: "adv_slot (sy_app s) v = APP_ADV_STATE_STARTED"
    and idx: "ae_adv_actv_idx (sy_app s) ! v = idx" and c: "core r act op s"
  defines "t \<equiv> put_state idx APP_ADV_STATE_STOPPING (ke_msg_send (G_stop idx) s)"
  shows "core r act op t" "adv_down (adv_slot (sy_app t) v)" "going (sy_app t) (sy_sent t)"
proof -
  have i: "idx \<noteq> INVALID_BLE_ACTIVITY_INDEX" using idle_slots(1) [OF w v] st idx by simp
  have "sys_wf (Some idx) s" using adv_hole [OF w v st] idx by simp
  note adv_down_core [OF this v idx i _ _ _ c, of APP_ADV_STATE_STOPPING "G_stop idx"]
  then show "core r act op t" "adv_down (adv_slot (sy_app t) v)" "going (sy_app t) (sy_sent t)"
    using st by (simp_all add: t_def adv_down_def)
qed

lemma scan_down_core:
  assumes w: "sys_wf (Some idx) s" and idx: "ae_scan_actv_idx (sy_app s) = idx" "idx \<noteq> INVALID_BLE_ACTIVITY_INDEX"
    and st: "scan_slot (sy_app s) = APP_SCAN_STATE_STARTED \<or> scan_down (scan_slot (sy_app s))"
    and st': "scan_down st'" "cmd_idx d = Some idx" and c: "core r act op s"
  defines "t \<equiv> put_state idx st' (ke_msg_send d s)"
  shows "sys_wf None t" "core r act op t" "scan_down (scan_slot (sy_app t))" "going (sy_app t) (sy_sent t)"
proof -
  have own: "owner (ae_adv_actv_idx (sy_app s)) (ae_scan_actv_idx (sy_app s)) (ae_connect_actv_idx (sy_app s)) idx = K_scan"
    using owner_scan [OF w] idx by simp
  show "sys_wf None t" unfolding t_def using st' own by (intro sys_wf_sent [OF w]) (auto simp: scan_down_def)
  have slots: "u < BLE_ADV_ACTIVITY_USER_NUM \<Longrightarrow> adv_slot (sy_app t) u = adv_slot (sy_app s) u"
      "scan_slot (sy_app t) = st'" "conn_slot (sy_app t) = conn_slot (sy_app s)" for u
    using put_scan [OF w idx] unfolding t_def by (simp_all add: put_state_def)
  show down: "scan_down (scan_slot (sy_app t))" using slots(2) st' by simp
  then show going: "going (sy_app t) (sy_sent t)" by (simp add: going_def)
  have kinds: "\<not> is_create_adv d" "\<not> is_create_scan d" "\<not> is_create_init d" "G_stop (ae_connect_actv_idx (sy_app s)) \<noteq> d"
    using st'(2) scan_conn_differ [OF w] idx by (cases d; simp)+
  have "scan_phase act (sy_app t) (sy_sent t)"
    using c slots(2) st st' kinds by (auto simp: core_def scan_phase_def scan_at_rest_def scan_down_def t_def)
  moreover have "adv_phase act op (sy_app t) (sy_sent t)" "conn_phase act (sy_app t) (sy_sent t)"
    using c kinds adv_frame(1) [of "sy_app t" "sy_app s", OF slots(1)] conn_frame(1) [OF slots(3)] by (auto simp: core_def t_def)
  moreover have "list_phase r act (sy_app t) (sy_sent t)"
    using c going by (auto simp: core_def list_phase_def t_def)
  ultimately show "core r act op t" using c by (simp add: core_def t_def)
qed

lemma stop_scan_core:
  assumes w: "sys_wf None s" and st: "scan_slot (sy_app s) = APP_SCAN_STATE_STARTED"
    and idx: "ae_scan_actv_idx (sy_app s) = idx" and c: "core r act op s"
  defines "t \<equiv> put_state idx APP_SCAN_STATE_STOPPING (ke_msg_send (G_stop idx) s)"
  shows "core r act op t" "scan_down (scan_slot (sy_app t))" "going (sy_app t) (sy_sent t)"
proof -
  have i: "idx \<noteq> INVALID_BLE_ACTIVITY_INDEX" using idle_slots(2) [OF w] st idx by simp
  have "sys_wf (Some idx) s" using scan_hole [OF w st] idx by simp
  note scan_down_core [OF this idx i _ _ _ c, of APP_SCAN_STATE_STOPPING "G_stop idx"]
  then show "core r act op t" "scan_down (scan_slot (sy_app t))" "going (sy_app t) (sy_sent t)"
    using st by (simp_all add: t_def scan_down_def)
qed

lemma stop_conn_core:
  assumes w: "sys_wf None s" and st: "conn_slot (sy_app s) = APP_CONNECT_STATE_STARTED"
    and idx: "ae_connect_actv_idx (sy_app s) = idx" and c: "core r act op s"
  defines "t \<equiv> ke_msg_send (G_stop idx) s"
  shows "core r act op t" "conn_down (sy_app t) (sy_sent t)" "going (sy_app t) (sy_sent t)"
proof -
  show down: "conn_down (sy_app t) (sy_sent t)" using st idx by (simp add: conn_down_def t_def)
  then show "going (sy_app t) (sy_sent t)" by (simp add: going_def)
  with c down show "core r act op t"
    using adv_frame(1) [of "sy_app s" "sy_app s" "sy_sent s @ [G_stop idx]" "sy_sent s"]
      scan_frame(1) [of "sy_app s" "sy_app s" "sy_sent s @ [G_stop idx]" "sy_sent s"]
    by (auto simp: core_def t_def conn_phase_def conn_at_rest_def list_phase_def)
qed

section \<open>Starting\<close>

lemma core_rest: "core r BLE_ACTV_ACTION_IDLE op s \<longleftrightarrow>
    adv_at_rest (sy_app s) (sy_sent s) \<and> scan_at_rest (sy_app s) (sy_sent s) \<and> conn_at_rest (sy_app s) (sy_sent s) \<and>
    \<not> ae_need_set_white_list (sy_app s) \<and> (\<not> r \<longrightarrow> \<not> ae_need_add_resolving (sy_app s) \<and> \<not> ae_adding_resolving (sy_app s)) \<and>
    param_ok (ae_advParam (sy_app s)) \<and> ip_own_addr_type (ae_init_param (sy_app s)) \<le> APP_GAPM_GEN_NON_RSLV_ADDR \<and>
    length (ae_context (sy_app s)) = BLE_CONNECTION_MAX"
  by (auto simp: core_def adv_phase_def scan_phase_def conn_phase_def list_phase_def)

text \<open>An action has been taken; its work has not begun.\<close>

definition taken :: "bool \<Rightarrow> ble_action \<Rightarrow> ble_sys \<Rightarrow> bool" where
  "taken r act s \<longleftrightarrow> sys_wf None s \<and> core r BLE_ACTV_ACTION_IDLE 0xff s \<and> ble_inv (sy_mode s) \<and>
     requests_sound r (sy_mode s) \<and> bm_actv_action (sy_mode s) = act"

lemma start_adv_restarts:
  assumes t: "taken r BLE_ACTV_ACTION_STARTING_ADV s" and p: "param_ok p" "ap_actv_user p < BLE_ADV_ACTIVITY_USER_NUM"
    and down: "adv_down (adv_slot (sy_app s) (ap_actv_user p))"
  shows "sys_inv r (upd_app (\<lambda>a. a\<lparr>ae_need_restart_adv := True\<rparr>) (upd_app (\<lambda>a. a\<lparr>ae_advParam := p, ae_need_set_rsp_data := False\<rparr>) s))"
  using t p down
  by (auto simp: sys_inv_def taken_def core_rest core_def adv_phase_def adv_starting_def adv_at_rest_def Let_def scan_phase_def
      scan_at_rest_def conn_phase_def conn_at_rest_def list_phase_def)

lemma put_upd: "(\<And>a. ae_state (f a) = ae_state a) \<Longrightarrow> (\<And>a x. f (a\<lparr>ae_state := x\<rparr>) = (f a)\<lparr>ae_state := x\<rparr>) \<Longrightarrow>
    put_state idx st (ke_msg_send c (upd_app f s)) = upd_app f (put_state idx st (ke_msg_send c s))"
  by (simp add: put_state_def upd_app_def ke_msg_send_def)

lemma taken_stop_adv:
  assumes "taken r act s" "v < BLE_ADV_ACTIVITY_USER_NUM" "adv_slot (sy_app s) v = APP_ADV_STATE_STARTED"
    "ae_adv_actv_idx (sy_app s) ! v = idx"
  defines "t \<equiv> put_state idx APP_ADV_STATE_STOPPING (ke_msg_send (G_stop idx) s)"
  shows "taken r act t" "adv_down (adv_slot (sy_app t) v)" "going (sy_app t) (sy_sent t)"
proof -
  have w: "sys_wf None s" and c: "core r BLE_ACTV_ACTION_IDLE 0xff s" using assms(1) by (auto simp: taken_def)
  note g = stop_adv_core [OF w assms(2-4) c]
  show "taken r act t" using assms(1) g(1) stop_adv_wf [OF w assms(2-4)] by (simp add: taken_def t_def)
  show "adv_down (adv_slot (sy_app t) v)" "going (sy_app t) (sy_sent t)" using g(2,3) by (simp_all add: t_def)
qed

lemma start_adv_inv:
  assumes t: "taken r BLE_ACTV_ACTION_STARTING_ADV s" and p: "param_ok p" "ap_actv_user p < BLE_ADV_ACTIVITY_USER_NUM"
  shows "returns (appm_start_advertising p s) (sys_inv r)"
proof -
  let ?u = "ap_actv_user p" let ?idx = "ae_adv_actv_idx (sy_app s) ! ?u"
  let ?f = "\<lambda>s. upd_app (\<lambda>a. a\<lparr>ae_need_restart_adv := True\<rparr>) (upd_app (\<lambda>a. a\<lparr>ae_advParam := p, ae_need_set_rsp_data := False\<rparr>) s)"
  have w: "sys_wf None s" and rest: "adv_at_rest (sy_app s) (sy_sent s)" using t by (auto simp: taken_def core_rest)
  show ?thesis
  proof (cases "?idx = INVALID_BLE_ACTIVITY_INDEX")
    case True
    then have "adv_slot (sy_app s) ?u = APP_ACTV_STATE_IDLE" using idle_slots(1) [OF w p(2)] by simp
    with t p True show ?thesis
      by (auto simp: appm_start_advertising_def adv_user_idx_def taken_def sys_inv_def core_rest core_def adv_phase_def
          adv_starting_def adv_at_rest_def param_ok_def Let_def scan_phase_def scan_at_rest_def conn_phase_def conn_at_rest_def list_phase_def)
  next
    case False
    have busy: "adv_slot (sy_app s) ?u \<noteq> APP_ACTV_STATE_IDLE" "adv_settled (adv_slot (sy_app s) ?u)"
      using idle_slots(1) [OF w p(2)] False rest p(2) by (auto simp: adv_at_rest_def)
    let ?t = "put_state ?idx APP_ADV_STATE_STOPPING (ke_msg_send (G_stop ?idx) s)"
    have "sys_inv r (?f ?t)" if "adv_slot (sy_app s) ?u = APP_ADV_STATE_STARTED"
      using taken_stop_adv [OF t p(2) that refl] p by (intro start_adv_restarts)
    moreover have "sys_inv r (?f s)" if "adv_down (adv_slot (sy_app s) ?u)"
      using t p that by (rule start_adv_restarts)
    moreover have "put_state ?idx APP_ADV_STATE_STOPPING (ke_msg_send (G_stop ?idx) (?f s)) = ?f ?t"
      by (simp add: put_upd)
    ultimately show ?thesis
      using stop_adv [of "?f s" ?u ?idx "sys_inv r"] w p(2) busy False
      by (auto simp: appm_start_advertising_def adv_user_idx_def Let_def adv_settled_def)
  qed
qed

lemma set_adv_data_returns:
  assumes "param_ok (ae_advParam (sy_app s))"
  shows "returns (appm_set_adv_data idx s) P \<longleftrightarrow>
    (let p = ae_advParam (sy_app s);
         c = G_set_adv_data (ap_advMode p = ADV_MODE_PERIODIC) idx (take (unat (ap_advDataLen p)) (ap_advData p)) in
     if \<not> ae_need_set_rsp_data (sy_app s) then
       if ae_need_update_adv (sy_app s) then returns (appm_update_actv_state idx APP_ADV_STATE_STARTING (clear_update (ke_msg_send c s))) P
       else returns (appm_update_actv_state idx APP_ADV_STATE_SETTING_SCAN_RSP_DATA (ke_msg_send c s)) P
     else returns (appm_update_actv_state idx APP_ADV_STATE_SETTING_ADV_DATA (ke_msg_send c s)) P)"
  using assms by (simp add: appm_set_adv_data_def message_data_def param_ok_def Let_def)

text \<open>The activity of the user that is being started takes a step.\<close>

lemma prepare_core:
  assumes w: "sys_wf (Some idx) s" and u: "ap_actv_user (ae_advParam (sy_app s)) < BLE_ADV_ACTIVITY_USER_NUM"
    "ae_adv_actv_idx (sy_app s) ! ap_actv_user (ae_advParam (sy_app s)) = idx" "idx \<noteq> INVALID_BLE_ACTIVITY_INDEX"
    and rest: "owing is_create_adv (sy_sent s) = 0" "\<not> ae_need_restart_adv (sy_app s)"
      "\<And>v. v < BLE_ADV_ACTIVITY_USER_NUM \<Longrightarrow> v \<noteq> ap_actv_user (ae_advParam (sy_app s)) \<Longrightarrow> adv_settled (adv_slot (sy_app s) v)"
    and other: "scan_phase BLE_ACTV_ACTION_STARTING_ADV (sy_app s) (sy_sent s)" "conn_phase BLE_ACTV_ACTION_STARTING_ADV (sy_app s) (sy_sent s)"
      "list_phase r BLE_ACTV_ACTION_STARTING_ADV (sy_app s) (sy_sent s)" "param_ok (ae_advParam (sy_app s))"
      "ip_own_addr_type (ae_init_param (sy_app s)) \<le> APP_GAPM_GEN_NON_RSLV_ADDR" "length (ae_context (sy_app s)) = BLE_CONNECTION_MAX"
    and st: "adv_preparing st" and c: "cmd_idx c = Some idx" "c \<noteq> G_stop idx"
  shows "sys_wf None (put_state idx st (ke_msg_send c s))" "core r BLE_ACTV_ACTION_STARTING_ADV op (put_state idx st (ke_msg_send c s))"
proof -
  let ?t = "put_state idx st (ke_msg_send c s)"
  have own: "owner (ae_adv_actv_idx (sy_app s)) (ae_scan_actv_idx (sy_app s)) (ae_connect_actv_idx (sy_app s)) idx = K_adv"
    using owner_adv [OF w u(1)] u(2,3) by simp
  show "sys_wf None ?t" using st c own by (intro sys_wf_sent [OF w]) (auto simp: adv_preparing_def)
  have slots: "v < BLE_ADV_ACTIVITY_USER_NUM \<Longrightarrow>
        adv_slot (sy_app ?t) v = (if v = ap_actv_user (ae_advParam (sy_app s)) then st else adv_slot (sy_app s) v)"
      "scan_slot (sy_app ?t) = scan_slot (sy_app s)" "conn_slot (sy_app ?t) = conn_slot (sy_app s)" for v
    using put_adv [OF w u] by (simp_all add: put_state_def)
  have kinds: "\<not> is_create_adv c" "\<not> is_create_scan c" "\<not> is_create_init c" using c(1) by (cases c; simp)+
  have "adv_phase BLE_ACTV_ACTION_STARTING_ADV op (sy_app ?t) (sy_sent ?t)"
    using rest slots(1) u(1) st kinds by (auto simp: adv_phase_def adv_starting_def Let_def)
  moreover have "scan_phase BLE_ACTV_ACTION_STARTING_ADV (sy_app ?t) (sy_sent ?t)"
      "conn_phase BLE_ACTV_ACTION_STARTING_ADV (sy_app ?t) (sy_sent ?t)"
    using other(1,2) slots(2,3) kinds by (auto simp: scan_phase_def scan_at_rest_def conn_phase_def conn_at_rest_def)
  moreover have "list_phase r BLE_ACTV_ACTION_STARTING_ADV (sy_app ?t) (sy_sent ?t)"
    using other(3) by (auto simp: list_phase_def)
  ultimately show "core r BLE_ACTV_ACTION_STARTING_ADV op ?t" using other(4-6) by (simp add: core_def)
qed

lemma update_adv_inv:
  assumes t: "taken r BLE_ACTV_ACTION_STARTING_ADV s" and p: "param_ok p" "ap_actv_user p < BLE_ADV_ACTIVITY_USER_NUM"
    and st: "adv_slot (sy_app s) (ap_actv_user p) = APP_ADV_STATE_STARTED"
  shows "returns (appm_update_adv_data p s) (sys_inv r)"
proof -
  let ?idx = "ae_adv_actv_idx (sy_app s) ! ap_actv_user p"
  let ?s1 = "upd_app (\<lambda>a. a\<lparr>ae_need_set_rsp_data := rsp_data_changed p (ae_advParam a), ae_advParam := p, ae_need_update_adv := True\<rparr>) s"
  have w: "sys_wf None s" using t by (simp add: taken_def)
  have i: "?idx \<noteq> INVALID_BLE_ACTIVITY_INDEX" using idle_slots(1) [OF w p(2)] st by simp
  have step: "sys_inv r (put_state ?idx y (ke_msg_send c x))"
    if "adv_preparing y" "cmd_idx c = Some ?idx" "c \<noteq> G_stop ?idx" "x = ?s1 \<or> x = clear_update ?s1" for x y c
  proof -
    have hole: "sys_wf (Some ?idx) x" using adv_hole [OF w p(2) st] that(4) by (auto simp: clear_update_def)
    have "sys_wf None (put_state ?idx y (ke_msg_send c x)) \<and> core r BLE_ACTV_ACTION_STARTING_ADV (bm_op_actv_idx (sy_mode s)) (put_state ?idx y (ke_msg_send c x))"
      using prepare_core [OF hole, of r y c] t p i that(1-3,4)
      by (auto simp: taken_def core_rest adv_at_rest_def clear_update_def scan_phase_def conn_phase_def list_phase_def scan_at_rest_def conn_at_rest_def)
    then show ?thesis using t that(4) by (auto simp: sys_inv_def taken_def clear_update_def)
  qed
  have "actv_transition APP_ADV_STATE_STARTED APP_ADV_STATE_STARTING" "actv_transition APP_ADV_STATE_STARTED APP_ADV_STATE_SETTING_ADV_DATA"
    by (simp_all add: actv_transition_def)
  moreover have "ke_msg_send c (clear_update x) = clear_update (ke_msg_send c x)" for c x
    by (simp add: clear_update_def ke_msg_send_def upd_app_def)
  moreover have "actv_state_at (sy_app (clear_update x)) j = actv_state_at (sy_app x) j" for x j
    by (simp add: clear_update_def actv_state_at_def)
  ultimately show ?thesis
    using adv_activity(1,2) [OF w p(2) i] st i p(2) step [where x = ?s1] step [where x = "clear_update ?s1"] p(1)
    by (auto simp: appm_update_adv_data_def adv_user_idx_def set_adv_data_returns Let_def adv_preparing_def actv_state_at_def)
qed

end
