(* ===== verification/BleActvLinks.thy ===== *)
theory BleActvLinks
  imports BleActvOps
begin

text \<open>Scanning, connecting, disconnecting and the lists keep the invariant of the two layers, and return; only a scan that is
  being torn down cannot be started again.\<close>

section \<open>Scanning\<close>

text \<open>A scan that is started again with the same use of private addresses while it is being torn down.\<close>

definition scan_refused :: "u32 \<Rightarrow> ble_sys \<Rightarrow> bool" where
  "scan_refused policy s \<longleftrightarrow> scan_down (scan_slot (sy_app s)) \<and> \<not> bit (policy XOR ae_scanFiltPolicy (sy_app s)) 1"

lemma scan_param_fields [simp]:
  "ae_state (set_scan_param i w f a) = ae_state a" "ae_adv_actv_idx (set_scan_param i w f a) = ae_adv_actv_idx a"
  "ae_scan_actv_idx (set_scan_param i w f a) = ae_scan_actv_idx a" "ae_connect_actv_idx (set_scan_param i w f a) = ae_connect_actv_idx a"
  "ae_need_restart_adv (set_scan_param i w f a) = ae_need_restart_adv a" "ae_advParam (set_scan_param i w f a) = ae_advParam a"
  "ae_need_restart_scan (set_scan_param i w f a) = ae_need_restart_scan a"
  "ae_need_restart_connect (set_scan_param i w f a) = ae_need_restart_connect a" "ae_init_param (set_scan_param i w f a) = ae_init_param a"
  "ae_need_set_white_list (set_scan_param i w f a) = ae_need_set_white_list a"
  "ae_need_add_resolving (set_scan_param i w f a) = ae_need_add_resolving a"
  "ae_adding_resolving (set_scan_param i w f a) = ae_adding_resolving a" "ae_context (set_scan_param i w f a) = ae_context a"
  "ae_scanFiltPolicy (set_scan_param i w f a) = f"
  by (simp_all add: set_scan_param_def)

lemma view_flags [simp]:
  "adv_at_rest (set_scan_param i w f a) S = adv_at_rest a S" "scan_at_rest (set_scan_param i w f a) S = scan_at_rest a S"
  "conn_at_rest (set_scan_param i w f a) S = conn_at_rest a S"
  by (simp_all add: adv_at_rest_def scan_at_rest_def conn_at_rest_def)

lemma taken_scan_param: "taken r act s \<Longrightarrow> taken r act (upd_app (set_scan_param i w f) s)"
  by (simp add: taken_def core_rest)

text \<open>The scan takes a step.\<close>

lemma scan_step_core:
  assumes w: "sys_wf (Some idx) s" and idx: "ae_scan_actv_idx (sy_app s) = idx" "idx \<noteq> INVALID_BLE_ACTIVITY_INDEX"
    and rest: "owing is_create_scan (sy_sent s) = 0" "\<not> ae_need_restart_scan (sy_app s)"
    and other: "adv_at_rest (sy_app s) (sy_sent s)" "conn_at_rest (sy_app s) (sy_sent s)"
      "list_phase r BLE_ACTV_ACTION_STARTING_SCAN (sy_app s) (sy_sent s)" "param_ok (ae_advParam (sy_app s))"
      "ip_own_addr_type (ae_init_param (sy_app s)) \<le> APP_GAPM_GEN_NON_RSLV_ADDR" "length (ae_context (sy_app s)) = BLE_CONNECTION_MAX"
    and c: "cmd_idx c = Some idx" "c \<noteq> G_stop idx"
  defines "t \<equiv> put_state idx APP_SCAN_STATE_STARTING (ke_msg_send c s)"
  shows "sys_wf None t" "core r BLE_ACTV_ACTION_STARTING_SCAN op t"
proof -
  have own: "owner (ae_adv_actv_idx (sy_app s)) (ae_scan_actv_idx (sy_app s)) (ae_connect_actv_idx (sy_app s)) idx = K_scan"
    using owner_scan [OF w] idx by simp
  show "sys_wf None t" unfolding t_def using c own by (intro sys_wf_sent [OF w]) auto
  have slots: "v < BLE_ADV_ACTIVITY_USER_NUM \<Longrightarrow> adv_slot (sy_app t) v = adv_slot (sy_app s) v"
      "scan_slot (sy_app t) = APP_SCAN_STATE_STARTING" "conn_slot (sy_app t) = conn_slot (sy_app s)" for v
    using put_scan [OF w idx] unfolding t_def by (simp_all add: put_state_def)
  have kinds: "\<not> is_create_adv c" "\<not> is_create_scan c" "\<not> is_create_init c" using c(1) by (cases c; simp)+
  have "adv_phase BLE_ACTV_ACTION_STARTING_SCAN op (sy_app t) (sy_sent t)"
    using other(1) slots(1) kinds by (auto simp: adv_phase_def adv_at_rest_def t_def)
  moreover have "scan_phase BLE_ACTV_ACTION_STARTING_SCAN (sy_app t) (sy_sent t)"
    using rest slots(2) kinds by (auto simp: scan_phase_def t_def)
  moreover have "conn_phase BLE_ACTV_ACTION_STARTING_SCAN (sy_app t) (sy_sent t)"
    using other(2) slots(3) kinds by (auto simp: conn_phase_def conn_at_rest_def t_def)
  moreover have "list_phase r BLE_ACTV_ACTION_STARTING_SCAN (sy_app t) (sy_sent t)"
    using other(3) by (auto simp: list_phase_def t_def)
  ultimately show "core r BLE_ACTV_ACTION_STARTING_SCAN op t" using other(4-6) by (simp add: core_def t_def)
qed

lemma start_scan_restarts:
  assumes t: "taken r BLE_ACTV_ACTION_STARTING_SCAN s" and down: "scan_down (scan_slot (sy_app s))"
  shows "sys_inv r (upd_app (\<lambda>a. a\<lparr>ae_need_restart_scan := True\<rparr>) s)"
  using t down
  by (auto simp: sys_inv_def taken_def core_rest core_def adv_phase_def adv_at_rest_def scan_phase_def
      scan_at_rest_def conn_phase_def conn_at_rest_def list_phase_def)

lemma taken_stop_scan:
  assumes "taken r act s" "scan_slot (sy_app s) = APP_SCAN_STATE_STARTED" "ae_scan_actv_idx (sy_app s) = idx"
  defines "t \<equiv> put_state idx APP_SCAN_STATE_STOPPING (ke_msg_send (G_stop idx) s)"
  shows "taken r act t" "scan_down (scan_slot (sy_app t))" "going (sy_app t) (sy_sent t)"
proof -
  have w: "sys_wf None s" and c: "core r BLE_ACTV_ACTION_IDLE 0xff s" using assms(1) by (auto simp: taken_def)
  note g = stop_scan_core [OF w assms(2,3) c]
  show "taken r act t" using assms(1) g(1) stop_scan_wf [OF w assms(2,3)] by (simp add: taken_def t_def)
  show "scan_down (scan_slot (sy_app t))" "going (sy_app t) (sy_sent t)" using g(2,3) by (simp_all add: t_def)
qed

lemma start_scan_inv:
  assumes t0: "taken r BLE_ACTV_ACTION_STARTING_SCAN s" and ok: "\<not> scan_refused policy s"
  shows "returns (appm_start_scanning i win policy s) (sys_inv r)"
proof -
  let ?s1 = "upd_app (set_scan_param i win policy) s" let ?idx = "ae_scan_actv_idx (sy_app s)"
  let ?f = "upd_app (\<lambda>a. a\<lparr>ae_need_restart_scan := True\<rparr>)"
  have t: "taken r BLE_ACTV_ACTION_STARTING_SCAN ?s1" by (rule taken_scan_param [OF t0])
  then have w: "sys_wf None ?s1" and rest: "scan_at_rest (sy_app s) (sy_sent s)" by (auto simp: taken_def core_rest)
  show ?thesis
  proof (cases "?idx = INVALID_BLE_ACTIVITY_INDEX")
    case True
    then have "scan_slot (sy_app s) = APP_ACTV_STATE_IDLE" using idle_slots(2) [OF w] by simp
    with t True show ?thesis
      by (auto simp: appm_start_scanning_def Let_def taken_def sys_inv_def core_rest core_def adv_phase_def adv_at_rest_def
          scan_phase_def scan_at_rest_def conn_phase_def conn_at_rest_def list_phase_def)
  next
    case False
    then have busy: "scan_slot (sy_app s) = APP_SCAN_STATE_STARTED \<or> scan_down (scan_slot (sy_app s))"
      using idle_slots(2) [OF w] rest by (auto simp: scan_at_rest_def)
    let ?t = "put_state ?idx APP_SCAN_STATE_STOPPING (ke_msg_send (G_stop ?idx) ?s1)"
    have stop: "returns (appm_stop_scanning (?f ?s1)) (sys_inv r)"
    proof -
      have "sys_inv r (?f ?t)" if "scan_slot (sy_app s) = APP_SCAN_STATE_STARTED"
        using taken_stop_scan [OF t _ refl] that by (intro start_scan_restarts) simp_all
      moreover have "sys_inv r (?f ?s1)" if "scan_down (scan_slot (sy_app s))"
        using t that by (intro start_scan_restarts) simp_all
      moreover have "put_state ?idx APP_SCAN_STATE_STOPPING (ke_msg_send (G_stop ?idx) (?f ?s1)) = ?f ?t" by (simp add: put_upd)
      ultimately show ?thesis using stop_scan [of "?f ?s1" ?idx "sys_inv r"] w busy by (auto simp: scan_down_def)
    qed
    have kick: "returns (appm_kick_off_scanning ?s1) (sys_inv r)" if st: "scan_slot (sy_app s) = APP_SCAN_STATE_STARTED"
    proof -
      let ?c = "G_start_scan ?idx (start_scan_cmd (sy_app ?s1))"
      have hole: "sys_wf (Some ?idx) ?s1" using scan_hole [OF w] st by simp
      have "sys_wf None (put_state ?idx APP_SCAN_STATE_STARTING (ke_msg_send ?c ?s1)) \<and>
          core r BLE_ACTV_ACTION_STARTING_SCAN (bm_op_actv_idx (sy_mode s)) (put_state ?idx APP_SCAN_STATE_STARTING (ke_msg_send ?c ?s1))"
        using scan_step_core [OF hole, of r ?c] t False by (auto simp: taken_def core_rest scan_at_rest_def list_phase_def)
      then have "sys_inv r (put_state ?idx APP_SCAN_STATE_STARTING (ke_msg_send ?c ?s1))" using t by (simp add: sys_inv_def taken_def)
      moreover have "unat ?idx < BLE_ACTIVITY_MAX" "actv_state_at (sy_app ?s1) ?idx = APP_SCAN_STATE_STARTED"
        using scan_activity(1,2) [OF w] False st by simp_all
      ultimately show ?thesis by (simp add: appm_kick_off_scanning_def Let_def actv_transition_def)
    qed
    show ?thesis using False ok busy stop kick by (auto simp: appm_start_scanning_def Let_def scan_refused_def)
  qed
qed

lemma stop_scan_inv:
  assumes t: "taken r BLE_ACTV_ACTION_STOPPING_SCAN s"
  shows "returns (appm_stop_scanning s) (sys_inv r)"
proof -
  let ?idx = "ae_scan_actv_idx (sy_app s)"
  have w: "sys_wf None s" and rest: "scan_at_rest (sy_app s) (sy_sent s)" using t by (auto simp: taken_def core_rest)
  have down: "sys_inv r x" if "taken r BLE_ACTV_ACTION_STOPPING_SCAN x" "scan_down (scan_slot (sy_app x))" for x
    using that by (auto simp: sys_inv_def taken_def core_rest core_def adv_phase_def scan_phase_def conn_phase_def list_phase_def)
  show ?thesis
  proof (cases "?idx = INVALID_BLE_ACTIVITY_INDEX")
    case True
    have "sys_inv r (ended BLE_ACTV_ACTION_STOPPING_SCAN ?idx s)"
      using t by (intro ended_inv) (auto simp: taken_def)
    with True show ?thesis by (simp add: appm_stop_scanning_def Let_def)
  next
    case False
    then have busy: "scan_slot (sy_app s) = APP_SCAN_STATE_STARTED \<or> scan_down (scan_slot (sy_app s))"
      using idle_slots(2) [OF w] rest by (auto simp: scan_at_rest_def)
    then show ?thesis
      using stop_scan [OF w busy refl, of "sys_inv r"] taken_stop_scan(1,2) [OF t _ refl] down t by (auto simp: scan_down_def)
  qed
qed

lemma appm_stop_adv_inv:
  assumes t: "taken r BLE_ACTV_ACTION_STOPPING_ADV s" and op: "bm_op_actv_idx (sy_mode s) = idx"
    and idx: "idx = INVALID_BLE_ACTIVITY_INDEX \<or> idx \<in> set (ae_adv_actv_idx (sy_app s))"
  shows "returns (appm_stop_advertising idx s) (sys_inv r)"
proof (cases "idx = INVALID_BLE_ACTIVITY_INDEX")
  case True
  have "sys_inv r (ended BLE_ACTV_ACTION_STOPPING_ADV idx s)"
    using t op by (intro ended_inv) (auto simp: taken_def)
  with True show ?thesis by (simp add: appm_stop_advertising_def)
next
  case False
  have w: "sys_wf None s" and rest: "adv_at_rest (sy_app s) (sy_sent s)" using t by (auto simp: taken_def core_rest)
  then have len: "length (ae_adv_actv_idx (sy_app s)) = BLE_ADV_ACTIVITY_USER_NUM" by (simp add: actv_wf_def slots_ok_def)
  from False idx obtain v where v: "v < BLE_ADV_ACTIVITY_USER_NUM" "ae_adv_actv_idx (sy_app s) ! v = idx"
    by (auto simp: in_set_conv_nth len)
  have busy: "adv_slot (sy_app s) v \<noteq> APP_ACTV_STATE_IDLE" "adv_settled (adv_slot (sy_app s) v)"
    using idle_slots(1) [OF w v(1)] False v rest by (auto simp: adv_at_rest_def)
  have down: "sys_inv r x" if "taken r BLE_ACTV_ACTION_STOPPING_ADV x" "adv_down (adv_slot (sy_app x) v)"
      "ae_adv_actv_idx (sy_app x) ! v = idx" "bm_op_actv_idx (sy_mode x) = idx" for x
    using that v(1) by (auto simp: sys_inv_def taken_def core_rest core_def adv_phase_def scan_phase_def conn_phase_def list_phase_def)
  show ?thesis
    using stop_adv [OF w v(1) busy(2,1) v(2), of "sys_inv r"] taken_stop_adv(1,2) [OF t v(1) _ v(2)] down t op v busy
    by (auto simp: adv_settled_def)
qed

section \<open>Connecting\<close>

lemma start_conn_restarts:
  assumes t: "taken r BLE_ACTV_ACTION_CONNECTING s" and down: "conn_down (sy_app s) (sy_sent s)"
  shows "sys_inv r (upd_app (\<lambda>a. a\<lparr>ae_need_restart_connect := True\<rparr>) s)"
  using t down
  by (auto simp: sys_inv_def taken_def core_rest core_def adv_phase_def adv_at_rest_def scan_phase_def conn_down_def
      scan_at_rest_def conn_phase_def conn_at_rest_def list_phase_def)

lemma taken_stop_conn:
  assumes "taken r act s" "conn_slot (sy_app s) = APP_CONNECT_STATE_STARTED" "ae_connect_actv_idx (sy_app s) = idx"
  defines "t \<equiv> ke_msg_send (G_stop idx) s"
  shows "taken r act t" "conn_down (sy_app t) (sy_sent t)" "going (sy_app t) (sy_sent t)"
proof -
  have w: "sys_wf None s" and c: "core r BLE_ACTV_ACTION_IDLE 0xff s" using assms(1) by (auto simp: taken_def)
  note g = stop_conn_core [OF w assms(2,3) c]
  show "taken r act t" using assms(1) g(1) stop_conn_wf [OF w assms(2,3)] by (simp add: taken_def t_def)
  show "conn_down (sy_app t) (sy_sent t)" "going (sy_app t) (sy_sent t)" using g(2,3) by (simp_all add: t_def)
qed

lemma taken_ended: "taken r act s \<Longrightarrow> act \<noteq> BLE_ACTV_ACTION_IDLE \<Longrightarrow> act \<noteq> BLE_ACTV_ACTION_STOPPING_ADV \<Longrightarrow> sys_inv r (ended act idx s)"
  by (rule ended_inv) (auto simp: taken_def)

lemma send_upd: "ke_msg_send c (upd_app f s) = upd_app f (ke_msg_send c s)"
  by (simp add: ke_msg_send_def upd_app_def)

lemma start_conn_inv:
  assumes t0: "taken r BLE_ACTV_ACTION_CONNECTING s" and own: "ip_own_addr_type p \<le> APP_GAPM_GEN_NON_RSLV_ADDR"
  shows "returns (appm_start_connecting p s) (sys_inv r)"
proof -
  let ?s1 = "upd_app (\<lambda>a. a\<lparr>ae_init_param := p\<rparr>) s" let ?idx = "ae_connect_actv_idx (sy_app s)"
  let ?f = "upd_app (\<lambda>a. a\<lparr>ae_need_restart_connect := True\<rparr>)"
  have t: "taken r BLE_ACTV_ACTION_CONNECTING ?s1"
    using t0 own by (simp add: taken_def core_rest adv_at_rest_def scan_at_rest_def conn_at_rest_def)
  then have w: "sys_wf None ?s1" and rest: "conn_at_rest (sy_app s) (sy_sent s)" by (auto simp: taken_def core_rest conn_at_rest_def)
  have own': "\<not> APP_GAPM_GEN_NON_RSLV_ADDR < ip_own_addr_type p" using own by (rule leD)
  have over: "sys_inv r (ended BLE_ACTV_ACTION_CONNECTING 0xff s)" by (rule taken_ended [OF t0]) simp_all
  have new: "sys_inv r (ke_msg_send (G_create_init (ip_own_addr_type p)) ?s1)" if "?idx = INVALID_BLE_ACTIVITY_INDEX"
  proof -
    have "conn_slot (sy_app s) = APP_ACTV_STATE_IDLE" using idle_slots(3) [OF w] that by simp
    with t show ?thesis
      by (auto simp: taken_def sys_inv_def core_rest core_def adv_phase_def adv_at_rest_def
          scan_phase_def scan_at_rest_def conn_phase_def conn_at_rest_def list_phase_def)
  qed
  have old: "returns (appm_stop_connecting (?f ?s1)) (sys_inv r)" if "conn_slot (sy_app s) = APP_CONNECT_STATE_STARTED"
  proof -
    have "sys_inv r (?f (ke_msg_send (G_stop ?idx) ?s1))"
      using taken_stop_conn [OF t _ refl] that by (intro start_conn_restarts) simp_all
    then show ?thesis using stop_conn [of "?f ?s1" ?idx "sys_inv r"] w that by (simp add: send_upd)
  qed
  have gone: "sys_inv r (?f ?s1)" if "conn_slot (sy_app s) = APP_CONNECT_STATE_DELETING"
    using t that by (intro start_conn_restarts) (simp_all add: conn_down_def)
  show ?thesis
  proof (cases "?idx = INVALID_BLE_ACTIVITY_INDEX")
    case True
    with over new own' show ?thesis by (simp add: appm_start_connecting_def Let_def)
  next
    case False
    then have "conn_slot (sy_app s) = APP_CONNECT_STATE_STARTED \<or> conn_slot (sy_app s) = APP_CONNECT_STATE_DELETING"
      using idle_slots(3) [OF w] rest by (auto simp: conn_at_rest_def)
    moreover have "unat ?idx < BLE_ACTIVITY_MAX" "actv_state_at (sy_app ?s1) ?idx = conn_slot (sy_app s)"
      using conn_activity(1,2) [OF w] False by simp_all
    ultimately show ?thesis
      using False over old gone own' by (auto simp: appm_start_connecting_def Let_def)
  qed
qed

lemma stop_conn_inv:
  assumes t: "taken r BLE_ACTV_ACTION_STOP_CONNECTING s"
  shows "returns (appm_stop_connecting s) (sys_inv r)"
proof -
  let ?idx = "ae_connect_actv_idx (sy_app s)"
  have w: "sys_wf None s" and rest: "conn_at_rest (sy_app s) (sy_sent s)" using t by (auto simp: taken_def core_rest)
  have down: "sys_inv r x" if "taken r BLE_ACTV_ACTION_STOP_CONNECTING x" "conn_down (sy_app x) (sy_sent x)" for x
    using that by (auto simp: sys_inv_def taken_def core_rest core_def adv_phase_def scan_phase_def conn_phase_def list_phase_def)
  show ?thesis
  proof (cases "?idx = INVALID_BLE_ACTIVITY_INDEX")
    case True
    then show ?thesis using taken_ended [OF t] by (simp add: appm_stop_connecting_def Let_def)
  next
    case False
    then have busy: "conn_slot (sy_app s) = APP_CONNECT_STATE_STARTED \<or> conn_slot (sy_app s) = APP_CONNECT_STATE_DELETING"
      using idle_slots(3) [OF w] rest by (auto simp: conn_at_rest_def)
    then show ?thesis
      using stop_conn [OF w busy refl, of "sys_inv r"] taken_stop_conn(1,2) [OF t _ refl] down t by (auto simp: conn_down_def)
  qed
qed

lemma appm_disconnect_inv:
  assumes t: "taken r BLE_ACTV_ACTION_DISCONNECTING s" and i: "i < BLE_CONNECTION_MAX"
  shows "returns (appm_disconnect i s) (sys_inv r)"
proof -
  have "sys_inv r (ke_msg_send (G_disconnect i) (upd_app (set_status i BLE_DISCONNECTING) s))"
    using t by (auto simp: sys_inv_def taken_def core_rest core_def adv_phase_def adv_at_rest_def scan_phase_def scan_at_rest_def
        conn_phase_def conn_at_rest_def list_phase_def set_status_def)
  then show ?thesis using taken_ended [OF t] i by (simp add: appm_disconnect_def)
qed

section \<open>The white list and the resolving list\<close>

lemma started_adv_find:
  "\<forall>i \<in> set is. i = INVALID_BLE_ACTIVITY_INDEX \<or> unat i < BLE_ACTIVITY_MAX \<Longrightarrow>
   started_adv is s = Inr (find (\<lambda>i. i \<noteq> INVALID_BLE_ACTIVITY_INDEX \<and> actv_state_at (sy_app s) i = APP_ADV_STATE_STARTED) is)"
  by (induction "is") (auto simp: with_state_def)

lemma started_adv_cases:
  assumes w: "sys_wf None s"
  obtains (none) "started_adv (ae_adv_actv_idx (sy_app s)) s = Inr None"
      "\<And>v. v < BLE_ADV_ACTIVITY_USER_NUM \<Longrightarrow> adv_slot (sy_app s) v \<noteq> APP_ADV_STATE_STARTED"
  | (some) v where "started_adv (ae_adv_actv_idx (sy_app s)) s = Inr (Some (ae_adv_actv_idx (sy_app s) ! v))"
      "v < BLE_ADV_ACTIVITY_USER_NUM" "adv_slot (sy_app s) v = APP_ADV_STATE_STARTED"
proof -
  let ?adv = "ae_adv_actv_idx (sy_app s)"
  let ?P = "\<lambda>i. i \<noteq> INVALID_BLE_ACTIVITY_INDEX \<and> actv_state_at (sy_app s) i = APP_ADV_STATE_STARTED"
  have len: "length ?adv = BLE_ADV_ACTIVITY_USER_NUM" using w by (simp add: actv_wf_def slots_ok_def)
  have "\<forall>i \<in> set ?adv. i = INVALID_BLE_ACTIVITY_INDEX \<or> unat i < BLE_ACTIVITY_MAX"
    by (metis in_set_conv_nth len adv_activity(1) [OF w])
  then have f: "started_adv ?adv s = Inr (find ?P ?adv)" by (rule started_adv_find)
  have st: "?P (?adv ! v) \<longleftrightarrow> adv_slot (sy_app s) v = APP_ADV_STATE_STARTED" if "v < BLE_ADV_ACTIVITY_USER_NUM" for v
    using that adv_activity(2) [OF w that] idle_slots(1) [OF w that] by auto
  show ?thesis
  proof (cases "find ?P ?adv")
    case None
    then show ?thesis using f st len by (intro none) (auto simp: find_None_iff in_set_conv_nth)
  next
    case (Some i)
    then obtain v where "v < length ?adv" "?P (?adv ! v)" "i = ?adv ! v" by (auto simp: find_Some_iff)
    then show ?thesis using some [of v] f Some st len by simp
  qed
qed

lemma scan_in_state: "sys_wf None s \<Longrightarrow>
    is_in_state (ae_scan_actv_idx (sy_app s)) APP_SCAN_STATE_STARTED s = Inr (scan_slot (sy_app s) = APP_SCAN_STATE_STARTED)"
  using scan_activity(1,2) [of None s] idle_slots(2) [of s] by (auto simp: is_in_state_def with_state_def)

lemma conn_in_state: "sys_wf None s \<Longrightarrow>
    is_in_state (ae_connect_actv_idx (sy_app s)) APP_CONNECT_STATE_STARTED s = Inr (conn_slot (sy_app s) = APP_CONNECT_STATE_STARTED)"
  using conn_activity(1,2) [of None s] idle_slots(3) [of s] by (auto simp: is_in_state_def with_state_def)

text \<open>Without the wish to set the white list, which the operation writes anew.\<close>

definition no_need :: "ble_sys \<Rightarrow> ble_sys" where
  "no_need = upd_app (\<lambda>a. a\<lparr>ae_need_set_white_list := False\<rparr>)"

definition need :: "ble_sys \<Rightarrow> ble_sys" where
  "need = upd_app (\<lambda>a. a\<lparr>ae_need_set_white_list := True\<rparr>)"

lemma white_list_waits:
  assumes t: "taken r BLE_ACTV_ACTION_SET_WHITE_LIST (no_need s)"
    and g: "r \<or> going (sy_app (no_need s)) (sy_sent (no_need s))"
  shows "sys_inv r (need s)"
proof -
  have "going (sy_app (need s)) (sy_sent (need s)) = going (sy_app (no_need s)) (sy_sent (no_need s))"
    by (simp add: going_def conn_down_def need_def no_need_def)
  then show ?thesis
    using t g
    by (auto simp: sys_inv_def taken_def core_rest core_def adv_phase_def scan_phase_def conn_phase_def list_phase_def
        adv_at_rest_def scan_at_rest_def conn_at_rest_def no_need_def need_def)
qed

lemma no_need_simps [simp]:
  "sy_mode (no_need s) = sy_mode s" "sy_sent (no_need s) = sy_sent s" "ae_state (sy_app (no_need s)) = ae_state (sy_app s)"
  "ae_adv_actv_idx (sy_app (no_need s)) = ae_adv_actv_idx (sy_app s)" "ae_scan_actv_idx (sy_app (no_need s)) = ae_scan_actv_idx (sy_app s)"
  "ae_connect_actv_idx (sy_app (no_need s)) = ae_connect_actv_idx (sy_app s)"
  "adv_slot (sy_app (no_need s)) = adv_slot (sy_app s)" "scan_slot (sy_app (no_need s)) = scan_slot (sy_app s)"
  "conn_slot (sy_app (no_need s)) = conn_slot (sy_app s)"
  "no_need (put_state idx st s) = put_state idx st (no_need s)"
  "no_need (ke_msg_send c s) = ke_msg_send c (no_need s)"
  by (simp_all add: no_need_def) (simp_all add: put_state_def upd_app_def ke_msg_send_def)

lemma appm_set_white_list_inv:
  assumes t: "taken r BLE_ACTV_ACTION_SET_WHITE_LIST (no_need s)"
  shows "returns (appm_set_white_list addrs s) (sys_inv r)"
proof -
  let ?s = "upd_app (\<lambda>a. a\<lparr>ae_white_list := take WHITE_LIST_MAX_NUM addrs\<rparr>) s"
  have t1: "taken r BLE_ACTV_ACTION_SET_WHITE_LIST (no_need ?s)"
    using t by (simp add: taken_def core_rest adv_at_rest_def scan_at_rest_def conn_at_rest_def no_need_def)
  then have w: "sys_wf None ?s" "sys_wf None (no_need ?s)" and rest: "adv_at_rest (sy_app ?s) (sy_sent ?s)"
    by (auto simp: taken_def core_rest adv_at_rest_def no_need_def)
  let ?sc = "ae_scan_actv_idx (sy_app ?s)" let ?co = "ae_connect_actv_idx (sy_app ?s)"
  have keep: "returns (set_flags (\<lambda>a. a\<lparr>ae_need_set_white_list := True\<rparr>) x) (sys_inv r) = sys_inv r (need x)" for x
    by (simp add: set_flags_def need_def)
  show ?thesis
  proof (rule started_adv_cases [OF w(1)])
    fix v
    assume v: "started_adv (ae_adv_actv_idx (sy_app ?s)) ?s = Inr (Some (ae_adv_actv_idx (sy_app ?s) ! v))"
      "v < BLE_ADV_ACTIVITY_USER_NUM" "adv_slot (sy_app ?s) v = APP_ADV_STATE_STARTED"
    let ?idx = "ae_adv_actv_idx (sy_app ?s) ! v"
    have "sys_inv r (need (put_state ?idx APP_ADV_STATE_STOPPING (ke_msg_send (G_stop ?idx) ?s)))"
      using taken_stop_adv [OF t1 v(2), of ?idx] v by (intro white_list_waits) simp_all
    then show ?thesis
      using v stop_adv [OF w(1) v(2) _ _ refl, of "\<lambda>x. sys_inv r (need x)"]
      by (simp add: appm_set_white_list_def Let_def keep adv_settled_def)
  next
    assume none: "started_adv (ae_adv_actv_idx (sy_app ?s)) ?s = Inr None"
    have scan: "sys_inv r (need (put_state ?sc APP_SCAN_STATE_STOPPING (ke_msg_send (G_stop ?sc) ?s)))"
      if "scan_slot (sy_app ?s) = APP_SCAN_STATE_STARTED"
      using taken_stop_scan [OF t1, of ?sc] that by (intro white_list_waits) simp_all
    have conn: "sys_inv r (need (ke_msg_send (G_stop ?co) ?s))" if "conn_slot (sy_app ?s) = APP_CONNECT_STATE_STARTED"
      using taken_stop_conn [OF t1, of ?co] that by (intro white_list_waits) simp_all
    have adding: "sys_inv r (need ?s)" if "ae_adding_resolving (sy_app ?s)"
      using t1 that by (intro white_list_waits) (auto simp: taken_def core_rest no_need_def)
    have send: "sys_inv r (ke_msg_send (G_set_wl (take WHITE_LIST_MAX_NUM addrs))
        (upd_app (\<lambda>a. a\<lparr>ae_need_set_white_list := False, ae_setting_white_list := True\<rparr>) ?s))"
      using t1 by (auto simp: sys_inv_def taken_def core_rest core_def adv_phase_def scan_phase_def conn_phase_def list_phase_def
          adv_at_rest_def scan_at_rest_def conn_at_rest_def no_need_def)
    show ?thesis
      using none scan conn adding send stop_scan [OF w(1) _ refl, of "\<lambda>x. sys_inv r (need x)"]
        stop_conn [OF w(1) _ refl, of "\<lambda>x. sys_inv r (need x)"] scan_in_state [OF w(1)] conn_in_state [OF w(1)]
      by (simp add: appm_set_white_list_def Let_def keep)
  qed
qed

text \<open>The resolving list may be set whatever the action is.\<close>

lemma add_flag_inv: "sys_inv True s \<Longrightarrow> sys_inv True (upd_app (\<lambda>a. a\<lparr>ae_need_add_resolving := b\<rparr>) s)"
  using adv_frame(1) [of "(sy_app s)\<lparr>ae_need_add_resolving := b\<rparr>" "sy_app s" "sy_sent s" "sy_sent s"]
  by (auto simp: sys_inv_def core_def scan_phase_def conn_phase_def list_phase_def scan_at_rest_def conn_at_rest_def going_def conn_down_def)

lemma set_rpa_list_inv:
  assumes i: "sys_inv True s"
  shows "returns (appm_set_rpa_list n s) (sys_inv True)"
proof -
  have w: "sys_wf None s" using i by (simp add: sys_inv_def)
  have keep: "returns (set_flags (\<lambda>a. a\<lparr>ae_need_add_resolving := True\<rparr>) x) (sys_inv True)" if "sys_inv True x" for x
    using add_flag_inv [OF that] by (simp add: set_flags_def)
  have send: "sys_inv True (ke_msg_send (G_set_ral m) (upd_app (\<lambda>a. a\<lparr>ae_need_add_resolving := False, ae_adding_resolving := True\<rparr>) s))" for m
    using i adv_frame(1) [of "(sy_app s)\<lparr>ae_need_add_resolving := False, ae_adding_resolving := True\<rparr>" "sy_app s" "sy_sent s @ [G_set_ral m]" "sy_sent s"]
    by (auto simp: sys_inv_def core_def scan_phase_def conn_phase_def list_phase_def scan_at_rest_def conn_at_rest_def going_def conn_down_def)
  show ?thesis
  proof (rule started_adv_cases [OF w])
    fix v
    assume v: "started_adv (ae_adv_actv_idx (sy_app s)) s = Inr (Some (ae_adv_actv_idx (sy_app s) ! v))"
      "v < BLE_ADV_ACTIVITY_USER_NUM" "adv_slot (sy_app s) v = APP_ADV_STATE_STARTED"
    let ?idx = "ae_adv_actv_idx (sy_app s) ! v"
    have "sys_inv True (put_state ?idx APP_ADV_STATE_STOPPING (ke_msg_send (G_stop ?idx) s))"
      using i stop_adv_core(1) [OF w v(2,3) refl] stop_adv_wf [OF w v(2,3) refl] by (simp add: sys_inv_def)
    then show ?thesis
      using i v stop_adv [OF w v(2) _ _ refl, of "\<lambda>x. returns (set_flags (\<lambda>a. a\<lparr>ae_need_add_resolving := True\<rparr>) x) (sys_inv True)"] keep
      by (simp add: appm_set_rpa_list_def Let_def adv_settled_def)
  next
    assume "started_adv (ae_adv_actv_idx (sy_app s)) s = Inr None"
    then show ?thesis
      using i send keep [OF i] scan_in_state [OF w] conn_in_state [OF w] by (simp add: appm_set_rpa_list_def Let_def)
  qed
qed

end
