(* ===== verification/BleActvFsm.thy ===== *)
theory BleActvFsm
  imports BleActvLinks
begin

text \<open>The next step of an activity, when its command has been answered, keeps the invariant of the two layers and returns.\<close>

section \<open>Before the step\<close>

text \<open>The command of activity \<open>idx\<close> has been answered and taken off the list; its state is that of its owner.\<close>

definition answered :: "bool \<Rightarrow> u8 \<Rightarrow> ble_sys \<Rightarrow> bool" where
  "answered r idx s \<longleftrightarrow> sys_wf (Some idx) s \<and> core r (bm_actv_action (sy_mode s)) (bm_op_actv_idx (sy_mode s)) s \<and>
     ble_inv (sy_mode s) \<and> requests_sound r (sy_mode s)"

lemma answeredD:
  assumes "answered r idx s"
  shows "sys_wf (Some idx) s" "core r (bm_actv_action (sy_mode s)) (bm_op_actv_idx (sy_mode s)) s"
    "ble_inv (sy_mode s)" "requests_sound r (sy_mode s)" "unat idx < BLE_ACTIVITY_MAX" "idx \<noteq> INVALID_BLE_ACTIVITY_INDEX"
  using assms index_valid [of idx] by (auto simp: answered_def actv_wf_def)

lemma core_parts:
  assumes "core r act op s"
  shows "act \<noteq> BLE_ACTV_ACTION_STARTING_ADV \<Longrightarrow> adv_at_rest (sy_app s) (sy_sent s)"
    "act \<noteq> BLE_ACTV_ACTION_STARTING_SCAN \<Longrightarrow> scan_at_rest (sy_app s) (sy_sent s)"
    "act \<noteq> BLE_ACTV_ACTION_CONNECTING \<Longrightarrow> conn_at_rest (sy_app s) (sy_sent s)"
    "act \<noteq> BLE_ACTV_ACTION_SET_WHITE_LIST \<Longrightarrow> \<not> ae_need_set_white_list (sy_app s)"
    "\<not> r \<Longrightarrow> \<not> ae_need_add_resolving (sy_app s)" "\<not> r \<Longrightarrow> \<not> ae_adding_resolving (sy_app s)"
    "param_ok (ae_advParam (sy_app s))" "ip_own_addr_type (ae_init_param (sy_app s)) \<le> APP_GAPM_GEN_NON_RSLV_ADDR"
    "length (ae_context (sy_app s)) = BLE_CONNECTION_MAX"
  using assms by (auto simp: core_def adv_phase_def scan_phase_def conn_phase_def list_phase_def)

section \<open>Advertising\<close>

lemma clear_update_simps [simp]:
  "sy_mode (clear_update s) = sy_mode s" "sy_sent (clear_update s) = sy_sent s" "ae_state (sy_app (clear_update s)) = ae_state (sy_app s)"
  "ae_adv_actv_idx (sy_app (clear_update s)) = ae_adv_actv_idx (sy_app s)"
  "ae_scan_actv_idx (sy_app (clear_update s)) = ae_scan_actv_idx (sy_app s)"
  "ae_connect_actv_idx (sy_app (clear_update s)) = ae_connect_actv_idx (sy_app s)"
  "ae_advParam (sy_app (clear_update s)) = ae_advParam (sy_app s)" "actv_state_at (sy_app (clear_update s)) j = actv_state_at (sy_app s) j"
  "adv_slot (sy_app (clear_update s)) = adv_slot (sy_app s)" "core r act op (clear_update s) = core r act op s"
  "sys_inv r (clear_update s) = sys_inv r s"
proof -
  have c: "core r act op (clear_update s) = core r act op s" for act op
    using adv_frame(1) [of "sy_app (clear_update s)" "sy_app s" "sy_sent s" "sy_sent s"]
    by (simp add: clear_update_def core_def scan_phase_def conn_phase_def list_phase_def scan_at_rest_def conn_at_rest_def going_def conn_down_def)
  then show "core r act op (clear_update s) = core r act op s" "sys_inv r (clear_update s) = sys_inv r s"
    by (simp_all add: sys_inv_def clear_update_def)
qed (simp_all add: clear_update_def actv_state_at_def)

lemma clear_update_commute: "ke_msg_send d (clear_update s) = clear_update (ke_msg_send d s)"
  "put_state idx st (clear_update s) = clear_update (put_state idx st s)"
  by (simp_all add: clear_update_def ke_msg_send_def put_state_def upd_app_def)

text \<open>The activity is being prepared: then it is that of the user whose advertising is being started.\<close>

lemma preparing_facts:
  assumes "core r act op s" "v < BLE_ADV_ACTIVITY_USER_NUM" "adv_preparing (adv_slot (sy_app s) v)"
  shows "act = BLE_ACTV_ACTION_STARTING_ADV" "v = ap_actv_user (ae_advParam (sy_app s))"
    "owing is_create_adv (sy_sent s) = 0" "\<not> ae_need_restart_adv (sy_app s)"
    "\<And>u. u < BLE_ADV_ACTIVITY_USER_NUM \<Longrightarrow> u \<noteq> v \<Longrightarrow> adv_settled (adv_slot (sy_app s) u)"
proof -
  have n: "\<not> adv_settled (adv_slot (sy_app s) v)" "\<not> adv_down (adv_slot (sy_app s) v)" "adv_slot (sy_app s) v \<noteq> APP_ACTV_STATE_IDLE"
    using assms(3) by (auto simp: adv_settled_def adv_preparing_def adv_down_def)
  have p: "adv_phase act op (sy_app s) (sy_sent s)" using assms(1) by (simp add: core_def)
  then show act: "act = BLE_ACTV_ACTION_STARTING_ADV" using n(1) assms(2) by (auto simp: adv_phase_def adv_at_rest_def split: if_splits)
  with p have st: "adv_starting (sy_app s) (sy_sent s)" by (simp add: adv_phase_def)
  then show v: "v = ap_actv_user (ae_advParam (sy_app s))" using n(1) assms(2) by (auto simp: adv_starting_def Let_def)
  show "owing is_create_adv (sy_sent s) = 0" "\<not> ae_need_restart_adv (sy_app s)"
    using st n v by (auto simp: adv_starting_def Let_def)
  show "\<And>u. u < BLE_ADV_ACTIVITY_USER_NUM \<Longrightarrow> u \<noteq> v \<Longrightarrow> adv_settled (adv_slot (sy_app s) u)"
    using st v by (auto simp: adv_starting_def Let_def)
qed

lemma prepare_inv:
  assumes a: "answered r idx s" and v: "v < BLE_ADV_ACTIVITY_USER_NUM" "ae_adv_actv_idx (sy_app s) ! v = idx"
    and prep: "adv_preparing (adv_slot (sy_app s) v)" and st: "adv_preparing st" and c: "cmd_idx c = Some idx" "c \<noteq> G_stop idx"
  shows "sys_inv r (put_state idx st (ke_msg_send c s))"
proof -
  note d = answeredD [OF a]
  note f = preparing_facts [OF d(2) v(1) prep]
  have "sys_wf None (put_state idx st (ke_msg_send c s)) \<and> core r BLE_ACTV_ACTION_STARTING_ADV (bm_op_actv_idx (sy_mode s)) (put_state idx st (ke_msg_send c s))"
    using prepare_core [OF d(1), of r st c] d f v st c by (auto simp: core_def)
  then show ?thesis using d f(1) by (simp add: sys_inv_def)
qed

text \<open>Advertising has started: the action is over.\<close>

lemma adv_put_slots:
  assumes "sys_wf (Some idx) s" "v < BLE_ADV_ACTIVITY_USER_NUM" "ae_adv_actv_idx (sy_app s) ! v = idx" "idx \<noteq> INVALID_BLE_ACTIVITY_INDEX"
    and "kind_of st = K_adv" "owed idx st []"
  shows "sys_wf None (put_state idx st s)"
  using sys_wf_quiet [OF assms(1)] owner_adv [OF assms(1,2)] assms(3-6) by simp

lemma adv_started_inv:
  assumes a: "answered r idx s" and v: "v < BLE_ADV_ACTIVITY_USER_NUM" "ae_adv_actv_idx (sy_app s) ! v = idx"
    and st: "adv_slot (sy_app s) v = APP_ADV_STATE_STARTING"
  shows "returns (adv_start_answered e idx True s) (sys_inv r)"
proof -
  note d = answeredD [OF a]
  have prep: "adv_preparing (adv_slot (sy_app s) v)" using st by (simp add: adv_preparing_def)
  note f = preparing_facts [OF d(2) v(1) prep]
  let ?t = "put_state idx APP_ADV_STATE_STARTED s"
  have w: "sys_wf None ?t" using adv_put_slots [OF d(1) v d(6)] by simp
  have slots: "u < BLE_ADV_ACTIVITY_USER_NUM \<Longrightarrow> adv_slot (sy_app ?t) u = (if u = v then APP_ADV_STATE_STARTED else adv_slot (sy_app s) u)"
      "scan_slot (sy_app ?t) = scan_slot (sy_app s)" "conn_slot (sy_app ?t) = conn_slot (sy_app s)" for u
    using put_adv [OF d(1) v d(6)] by simp_all
  have "adv_at_rest (sy_app ?t) (sy_sent ?t)" using f slots(1) by (auto simp: adv_at_rest_def adv_settled_def)
  moreover have "scan_at_rest (sy_app ?t) (sy_sent ?t)" "conn_at_rest (sy_app ?t) (sy_sent ?t)"
    using d(2) f(1) slots(2,3) by (auto simp: core_def scan_phase_def scan_at_rest_def conn_phase_def conn_at_rest_def)
  ultimately have rest: "core r BLE_ACTV_ACTION_IDLE 0xff ?t"
    using d(2) [unfolded core_def list_phase_def] f(1) unfolding core_rest by auto
  let ?e = "actv_view (sy_app ?t) e"
  have len: "length (be_adv_actv_idx ?e) = BLE_ADV_ACTIVITY_USER_NUM" using w by (simp add: actv_view_def actv_wf_def slots_ok_def)
  have "returns (app_advertising_started ?e idx (sy_mode ?t)) (\<lambda>m. sys_inv r (ended BLE_ACTV_ACTION_STARTING_ADV idx (upd_mode (\<lambda>_. m) ?t)))"
  proof (rule returns_mono [OF started_returns [OF len, of "sy_mode ?t" r]])
    show "ble_inv (sy_mode ?t)" "requests_sound r (sy_mode ?t)" using d(3,4) by simp_all
  next
    fix m assume m: "ble_inv m \<and> requests_sound r m \<and> bm_actv_action m = bm_actv_action (sy_mode ?t) \<and> bm_op_actv_idx m = bm_op_actv_idx (sy_mode ?t)"
    have "core r x y (upd_mode (\<lambda>_. m) ?t) = core r x y ?t" for x y by (simp add: core_def)
    then show "sys_inv r (ended BLE_ACTV_ACTION_STARTING_ADV idx (upd_mode (\<lambda>_. m) ?t))"
      using m w rest f(1) by (intro ended_inv) simp_all
  qed
  then show ?thesis
    using d(5,6) adv_activity(2) [OF d(1) v(1)] v(2) st by (simp add: adv_start_answered_def actv_transition_def)
qed

text \<open>It has not: the activity is deleted, and the action is now to stop it.\<close>

lemma adv_failed_inv:
  assumes a: "answered r idx s" and v: "v < BLE_ADV_ACTIVITY_USER_NUM" "ae_adv_actv_idx (sy_app s) ! v = idx"
    and st: "adv_slot (sy_app s) v = APP_ADV_STATE_STARTING"
  shows "returns (adv_start_answered e idx False s) (sys_inv r)"
proof -
  note d = answeredD [OF a]
  have prep: "adv_preparing (adv_slot (sy_app s) v)" using st by (simp add: adv_preparing_def)
  note f = preparing_facts [OF d(2) v(1) prep]
  let ?t = "put_state idx APP_ADV_STATE_DELETING (ke_msg_send (G_delete idx) s)"
  have w: "sys_wf None ?t" using sys_wf_sent [OF d(1)] owner_adv [OF d(1) v(1)] v(2) d(6) by simp
  have slots: "u < BLE_ADV_ACTIVITY_USER_NUM \<Longrightarrow> adv_slot (sy_app ?t) u = (if u = v then APP_ADV_STATE_DELETING else adv_slot (sy_app s) u)"
      "scan_slot (sy_app ?t) = scan_slot (sy_app s)" "conn_slot (sy_app ?t) = conn_slot (sy_app s)" for u
    using put_adv [OF d(1) v d(6)] by (simp_all add: put_state_def)
  have "adv_phase BLE_ACTV_ACTION_STOPPING_ADV idx (sy_app ?t) (sy_sent ?t)"
    using f slots(1) v by (auto simp: adv_phase_def adv_at_rest_def adv_settled_def adv_down_def intro!: exI [of _ v])
  moreover have "scan_at_rest (sy_app ?t) (sy_sent ?t)" "conn_at_rest (sy_app ?t) (sy_sent ?t)"
    using d(2) f(1) slots(2,3) by (auto simp: core_def scan_phase_def scan_at_rest_def conn_phase_def conn_at_rest_def)
  ultimately have c: "core r BLE_ACTV_ACTION_STOPPING_ADV idx ?t"
    using d(2) f(1) by (auto simp: core_def list_phase_def scan_phase_def conn_phase_def)
  let ?m = "upd_mode (app_advertising_starting_failed (actv_view (sy_app (put_state idx APP_ADV_STATE_DELETING s)) e) idx) ?t"
  have "core r x y ?m = core r x y ?t" for x y by (simp add: core_def)
  then have "sys_inv r (ended BLE_ACTV_ACTION_STARTING_ADV idx ?m)"
    using w c d(3,4) f(1) by (intro ended_inv) (simp_all add: failed_inv failed_sound)
  moreover have "appm_delete_activity idx (upd_mode g (put_state idx APP_ADV_STATE_DELETING s)) = upd_mode g ?t" for g
    by (simp add: appm_delete_activity_def ke_msg_send_def upd_mode_def put_state_def upd_app_def)
  ultimately show ?thesis
    using d(5) adv_activity(2) [OF d(1) v(1)] v(2) d(6) st by (simp add: adv_start_answered_def actv_transition_def)
qed

lemma adv_prepared:
  assumes a: "answered r idx s" and v: "v < BLE_ADV_ACTIVITY_USER_NUM" "ae_adv_actv_idx (sy_app s) ! v = idx"
  shows "adv_slot (sy_app s) v = APP_ADV_STATE_SETTING_ADV_DATA \<Longrightarrow> returns (appm_set_scan_rsp_data idx s) (sys_inv r)"
    and "adv_slot (sy_app s) v = APP_ADV_STATE_SETTING_SCAN_RSP_DATA \<Longrightarrow> returns (appm_kick_off_advertising idx s) (sys_inv r)"
proof -
  note d = answeredD [OF a]
  have at: "actv_state_at (sy_app s) idx = adv_slot (sy_app s) v" using adv_activity(2) [OF d(1) v(1)] v(2) d(6) by simp
  have p: "param_ok (ae_advParam (sy_app s))" using d(2) by (simp add: core_def)
  note go = prepare_inv [OF a v]
  show "returns (appm_set_scan_rsp_data idx s) (sys_inv r)" if "adv_slot (sy_app s) v = APP_ADV_STATE_SETTING_ADV_DATA"
    using that at d(5) p go [of APP_ADV_STATE_STARTING "G_set_scan_rsp_data idx x" for x]
      go [of APP_ADV_STATE_SETTING_SCAN_RSP_DATA "G_set_scan_rsp_data idx x" for x]
    by (simp add: appm_set_scan_rsp_data_def message_data_def param_ok_def Let_def adv_preparing_def actv_transition_def clear_update_commute)
  show "returns (appm_kick_off_advertising idx s) (sys_inv r)" if "adv_slot (sy_app s) v = APP_ADV_STATE_SETTING_SCAN_RSP_DATA"
    using that at d(5) go [of APP_ADV_STATE_STARTING "G_start_adv idx"]
    by (simp add: appm_kick_off_advertising_def adv_preparing_def actv_transition_def)
qed

lemma adv_stopped_inv:
  assumes a: "answered r idx s" and v: "v < BLE_ADV_ACTIVITY_USER_NUM" "ae_adv_actv_idx (sy_app s) ! v = idx"
    and st: "adv_slot (sy_app s) v = APP_ADV_STATE_STOPPING"
  shows "returns (go_deleting idx APP_ADV_STATE_DELETING s) (sys_inv r)"
proof -
  note d = answeredD [OF a]
  have at: "actv_state_at (sy_app s) idx = adv_slot (sy_app s) v" using adv_activity(2) [OF d(1) v(1)] v(2) d(6) by simp
  have "sys_inv r (put_state idx APP_ADV_STATE_DELETING (ke_msg_send (G_delete idx) s))"
    using adv_down_core(1,2) [OF d(1) v d(6) _ _ _ d(2), of APP_ADV_STATE_DELETING "G_delete idx"] st d(3,4)
    by (simp add: sys_inv_def adv_down_def)
  then show ?thesis using at st d(5) by (simp add: go_deleting_def appm_delete_activity_def actv_transition_def)
qed

section \<open>The lists that wait for an activity\<close>

text \<open>The invariant without the promise that something is still going down.\<close>

definition quiet :: "ble_sys \<Rightarrow> bool" where
  "quiet s \<longleftrightarrow> \<not> ae_need_add_resolving (sy_app s) \<and> \<not> ae_adding_resolving (sy_app s) \<and>
     bm_actv_action (sy_mode s) \<noteq> BLE_ACTV_ACTION_ADD_RESLO_LIST \<and> requests_sound False (sy_mode s)"

definition sys_weak :: "bool \<Rightarrow> ble_sys \<Rightarrow> bool" where
  "sys_weak r s \<longleftrightarrow> sys_inv True s \<and> (\<not> r \<longrightarrow> quiet s)"

lemma sound_True: "requests_sound r m \<Longrightarrow> requests_sound True m"
  by (auto simp: requests_sound_def)

lemma core_True: "core r act op s \<Longrightarrow> core True act op s"
  by (auto simp: core_def list_phase_def)

lemma sys_inv_quiet: "sys_inv r s \<Longrightarrow> \<not> r \<Longrightarrow> quiet s"
  by (auto simp: sys_inv_def quiet_def core_def list_phase_def)

lemma ended_quiet:
  assumes "quiet s" "ble_inv (sy_mode s)" "act \<noteq> BLE_ACTV_ACTION_IDLE"
  shows "quiet (ended act idx s)"
proof (rule execute_cases [OF assms(3), of idx "sy_mode s"])
  let ?m = "(sy_mode s)\<lparr>bm_op_actv_idx := 0xff, bm_actv_action := BLE_ACTV_ACTION_IDLE\<rparr>"
  assume e: "ble_execute_pending_op act idx (sy_mode s) = next_pending_op (app_ble_index_pending_to_disconnect (sy_mode s)) ?m"
  have "length (bm_pendingDisconnect (sy_mode s)) = BLE_CONNECTION_MAX" using assms(2) by (simp add: ble_inv_def sizes_ok_def)
  then show "quiet (ended act idx s)" using assms(1) next_sound [of False ?m] by (simp add: quiet_def e)
qed (use assms(1) in \<open>simp add: quiet_def\<close>)

lemma pending_white_list_inv:
  assumes "sys_weak r s"
  shows "returns (pending_white_list s) (sys_inv r)"
proof -
  have i: "sys_inv True s" and q: "\<not> r \<Longrightarrow> quiet s" using assms by (auto simp: sys_weak_def)
  have sound: "requests_sound r (sy_mode s)" using i q by (cases r) (auto simp: sys_inv_def quiet_def)
  show ?thesis
  proof (cases "ae_need_set_white_list (sy_app s)")
    case True
    then have act: "bm_actv_action (sy_mode s) = BLE_ACTV_ACTION_SET_WHITE_LIST" using i by (auto simp: sys_inv_def core_def list_phase_def)
    have c: "core True BLE_ACTV_ACTION_SET_WHITE_LIST (bm_op_actv_idx (sy_mode s)) s" using i act by (simp add: sys_inv_def)
    have "core r BLE_ACTV_ACTION_IDLE 0xff (no_need s)"
      using c q unfolding core_rest
      by (auto simp: core_def adv_phase_def scan_phase_def conn_phase_def no_need_def quiet_def adv_at_rest_def scan_at_rest_def conn_at_rest_def)
    then have "taken r BLE_ACTV_ACTION_SET_WHITE_LIST (no_need s)" using i act sound by (simp add: taken_def sys_inv_def)
    then show ?thesis using True appm_set_white_list_inv by (simp add: pending_white_list_def)
  next
    case False
    have "sys_inv r s" using i q sound False by (cases r) (auto simp: sys_inv_def core_def list_phase_def quiet_def)
    with False show ?thesis by (simp add: pending_white_list_def)
  qed
qed

lemma pending_rpa_list_inv:
  assumes "sys_weak r s"
  shows "returns (pending_rpa_list s) (sys_weak r)"
proof (cases "ae_need_add_resolving (sy_app s)")
  case True
  with assms have "r" by (auto simp: sys_weak_def quiet_def)
  moreover have "returns (appm_set_rpa_list n s) (sys_weak True)" for n
    using assms by (intro returns_mono [OF set_rpa_list_inv]) (simp_all add: sys_weak_def)
  ultimately show ?thesis using True by (simp add: pending_rpa_list_def)
qed (use assms in \<open>simp add: pending_rpa_list_def\<close>)

lemma weak_strong: "sys_weak r s \<Longrightarrow> \<not> ae_need_set_white_list (sy_app s) \<Longrightarrow> sys_inv r s"
  using pending_white_list_inv [of r s] by (simp add: pending_white_list_def)

lemma pending_rpa_last: "sys_weak r s \<Longrightarrow> \<not> ae_need_set_white_list (sy_app s) \<Longrightarrow> returns (pending_rpa_list s) (sys_inv r)"
proof (cases "ae_need_add_resolving (sy_app s)")
  case True
  assume w: "sys_weak r s"
  with True have "r" by (auto simp: sys_weak_def quiet_def)
  with w True show ?thesis
    using set_rpa_list_inv [of s] by (simp add: sys_weak_def pending_rpa_list_def)
qed (simp add: pending_rpa_list_def weak_strong)

section \<open>An activity is gone\<close>

text \<open>After the deletion of an advertising activity only its own slot has changed.\<close>

definition adv_gone :: "ble_env \<Rightarrow> u8 \<Rightarrow> ble_sys \<Rightarrow> ble_sys" where
  "adv_gone e idx s =
     appm_clear_adv_activity_index idx
       (upd_mode (app_advertising_stopped (actv_view (sy_app (put_state idx APP_ACTV_STATE_IDLE s)) e) idx) (put_state idx APP_ACTV_STATE_IDLE s))"

lemma adv_gone_fields [simp]:
  "ae_state (sy_app (adv_gone e idx s)) = (ae_state (sy_app s))[unat idx := APP_ACTV_STATE_IDLE]"
  "ae_adv_actv_idx (sy_app (adv_gone e idx s)) = clear_first idx (ae_adv_actv_idx (sy_app s))"
  "ae_scan_actv_idx (sy_app (adv_gone e idx s)) = ae_scan_actv_idx (sy_app s)"
  "ae_connect_actv_idx (sy_app (adv_gone e idx s)) = ae_connect_actv_idx (sy_app s)"
  "ae_need_restart_adv (sy_app (adv_gone e idx s)) = ae_need_restart_adv (sy_app s)"
  "ae_advParam (sy_app (adv_gone e idx s)) = ae_advParam (sy_app s)"
  "ae_need_restart_scan (sy_app (adv_gone e idx s)) = ae_need_restart_scan (sy_app s)"
  "ae_need_restart_connect (sy_app (adv_gone e idx s)) = ae_need_restart_connect (sy_app s)"
  "ae_init_param (sy_app (adv_gone e idx s)) = ae_init_param (sy_app s)"
  "ae_need_set_white_list (sy_app (adv_gone e idx s)) = ae_need_set_white_list (sy_app s)"
  "ae_need_add_resolving (sy_app (adv_gone e idx s)) = ae_need_add_resolving (sy_app s)"
  "ae_adding_resolving (sy_app (adv_gone e idx s)) = ae_adding_resolving (sy_app s)"
  "ae_context (sy_app (adv_gone e idx s)) = ae_context (sy_app s)"
  "sy_sent (adv_gone e idx s) = sy_sent s"
  "bm_actv_action (sy_mode (adv_gone e idx s)) = bm_actv_action (sy_mode s)"
  "bm_op_actv_idx (sy_mode (adv_gone e idx s)) = bm_op_actv_idx (sy_mode s)"
  by (simp_all add: adv_gone_def appm_clear_adv_activity_index_def)

lemma adv_gone_view:
  assumes w: "sys_wf (Some idx) s" and v: "v < BLE_ADV_ACTIVITY_USER_NUM" "ae_adv_actv_idx (sy_app s) ! v = idx" "idx \<noteq> INVALID_BLE_ACTIVITY_INDEX"
    and t_def: "t = adv_gone e idx s"
  shows "sys_wf None t"
    and "u < BLE_ADV_ACTIVITY_USER_NUM \<Longrightarrow> ae_adv_actv_idx (sy_app t) ! u = (if u = v then INVALID_BLE_ACTIVITY_INDEX else ae_adv_actv_idx (sy_app s) ! u)"
    and "u < BLE_ADV_ACTIVITY_USER_NUM \<Longrightarrow> adv_slot (sy_app t) u = (if u = v then APP_ACTV_STATE_IDLE else adv_slot (sy_app s) u)"
    and "scan_slot (sy_app t) = scan_slot (sy_app s)" "conn_slot (sy_app t) = conn_slot (sy_app s)"
proof -
  have cl: "clear_first idx (ae_adv_actv_idx (sy_app s)) = (ae_adv_actv_idx (sy_app s)) [v := INVALID_BLE_ACTIVITY_INDEX]"
    using clear_slot [OF w v(1)] v(2,3) by simp
  show "sys_wf None t" using wf_adv_removed [of "ae_adv_actv_idx (sy_app s)" v] w v by (simp add: t_def cl)
  note put = put_adv [OF w v]
  show idx: "ae_adv_actv_idx (sy_app t) ! u = (if u = v then INVALID_BLE_ACTIVITY_INDEX else ae_adv_actv_idx (sy_app s) ! u)"
    if "u < BLE_ADV_ACTIVITY_USER_NUM" for u using adv_upd [OF w that] by (simp add: t_def cl)
  show "adv_slot (sy_app t) u = (if u = v then APP_ACTV_STATE_IDLE else adv_slot (sy_app s) u)" if "u < BLE_ADV_ACTIVITY_USER_NUM"
    using put(1) [OF that, of APP_ACTV_STATE_IDLE] idx [OF that] by (simp add: adv_slot_def t_def) (simp add: slot_def)
  show "scan_slot (sy_app t) = scan_slot (sy_app s)" "conn_slot (sy_app t) = conn_slot (sy_app s)"
    using put(2,3) [of APP_ACTV_STATE_IDLE] by (simp_all add: scan_slot_def conn_slot_def t_def)
qed

lemma adv_gone_mode: "ble_inv (sy_mode s) \<Longrightarrow> ble_inv (sy_mode (adv_gone e idx s))"
  "requests_sound r (sy_mode s) \<Longrightarrow> requests_sound r (sy_mode (adv_gone e idx s))"
  by (simp_all add: adv_gone_def appm_clear_adv_activity_index_def stopped_inv stopped_sound)

lemma adv_deleted_inv:
  assumes a: "answered r idx s" and v: "v < BLE_ADV_ACTIVITY_USER_NUM" "ae_adv_actv_idx (sy_app s) ! v = idx"
    and st: "adv_slot (sy_app s) v = APP_ADV_STATE_DELETING"
  shows "returns (adv_deleted e idx s) (sys_inv r)"
proof -
  note d = answeredD [OF a]
  let ?t = "adv_gone e idx s" let ?act = "bm_actv_action (sy_mode s)" let ?op = "bm_op_actv_idx (sy_mode s)"
  note g = adv_gone_view [OF d(1) v d(6) refl, where e = e] and m = adv_gone_mode(1) [OF d(3), of e idx] adv_gone_mode(2) [OF d(4), of e idx]
  have at: "actv_state_at (sy_app s) idx = APP_ADV_STATE_DELETING" using adv_activity(2) [OF d(1) v(1)] v(2) d(6) st by simp
  have down: "adv_down (adv_slot (sy_app s) v)" using st by (simp add: adv_down_def)
  have other: "scan_phase act (sy_app ?t) (sy_sent ?t) = scan_phase act (sy_app s) (sy_sent s)"
      "conn_phase act (sy_app ?t) (sy_sent ?t) = conn_phase act (sy_app s) (sy_sent s)" for act
    using scan_frame(1) [OF g(4)] conn_frame(1) [OF g(5)] by simp_all
  have settled: "adv_settled APP_ACTV_STATE_IDLE" by (simp add: adv_settled_def)
  have c: "adv_phase ?act ?op (sy_app s) (sy_sent s)" using d(2) by (simp add: core_def)
  show ?thesis
  proof (cases "ae_need_restart_adv (sy_app s)")
    case True
    then have act: "?act = BLE_ACTV_ACTION_STARTING_ADV" using c by (auto simp: adv_phase_def adv_at_rest_def split: if_splits)
    have start: "adv_starting (sy_app s) (sy_sent s)" using c act by (simp add: adv_phase_def)
    then have "owing is_create_adv (sy_sent s) = 0" "\<forall>u < BLE_ADV_ACTIVITY_USER_NUM. adv_settled (adv_slot (sy_app ?t) u)"
      using True g(3) settled by (auto simp: adv_starting_def Let_def adv_settled_def)
    then have "taken r BLE_ACTV_ACTION_STARTING_ADV (upd_app (\<lambda>a. a\<lparr>ae_need_restart_adv := False\<rparr>) ?t)"
      using g(1) m core_parts [OF d(2)] act g(4,5)
      by (simp add: taken_def core_rest adv_at_rest_def scan_at_rest_def conn_at_rest_def)
    moreover have "param_ok (ae_advParam (sy_app s))" "ap_actv_user (ae_advParam (sy_app s)) < BLE_ADV_ACTIVITY_USER_NUM"
      using d(2) start by (auto simp: core_def adv_starting_def Let_def)
    ultimately show ?thesis
      using start_adv_inv [of r "upd_app (\<lambda>a. a\<lparr>ae_need_restart_adv := False\<rparr>) ?t" "ae_advParam (sy_app s)"] True at d(5)
      by (simp add: adv_deleted_def Let_def actv_transition_def adv_gone_def [symmetric])
  next
    case False
    let ?e = "ended BLE_ACTV_ACTION_STOPPING_ADV idx ?t"
    have rest: "adv_at_rest (sy_app ?t) (sy_sent ?t)" if "adv_at_rest (sy_app s) (sy_sent s)"
      using that g(3) settled by (auto simp: adv_at_rest_def)
    have starting: "adv_starting (sy_app ?t) (sy_sent ?t)" if "adv_starting (sy_app s) (sy_sent s)"
      using that g(3) settled False st unfolding adv_starting_def Let_def
      by (cases "ap_actv_user (ae_advParam (sy_app s)) = v") (auto simp: adv_preparing_def)
    have stays: "adv_phase ?act ?op (sy_app ?t) (sy_sent ?t)" if "\<not> (?act = BLE_ACTV_ACTION_STOPPING_ADV \<and> ?op = idx)"
    proof -
      have "\<exists>u < BLE_ADV_ACTIVITY_USER_NUM. ae_adv_actv_idx (sy_app ?t) ! u = ?op \<and> adv_down (adv_slot (sy_app ?t) u)"
        if "u < BLE_ADV_ACTIVITY_USER_NUM" "ae_adv_actv_idx (sy_app s) ! u = ?op" "adv_down (adv_slot (sy_app s) u)" "?op \<noteq> idx" for u
        using that g(2,3) v(2) by (intro exI [of _ u]) auto
      then show ?thesis using c rest starting that by (auto simp: adv_phase_def split: if_splits)
    qed
    have weak: "list_phase True ?act (sy_app ?t) (sy_sent ?t)" using d(2) by (auto simp: core_def list_phase_def)
    have "sys_inv True ?e"
    proof (rule ended_inv [OF g(1) m(1)])
      show "requests_sound True (sy_mode ?t)" using m(2) sound_True by blast
      show "core True (bm_actv_action (sy_mode ?t)) (bm_op_actv_idx (sy_mode ?t)) ?t \<or>
          bm_actv_action (sy_mode ?t) = BLE_ACTV_ACTION_STOPPING_ADV \<and>
          (BLE_ACTV_ACTION_STOPPING_ADV = BLE_ACTV_ACTION_STOPPING_ADV \<longrightarrow> bm_op_actv_idx (sy_mode ?t) = idx)"
        using stays d(2) other weak by (auto simp: core_def)
      assume "bm_actv_action (sy_mode ?t) = BLE_ACTV_ACTION_STOPPING_ADV"
      then show "core True BLE_ACTV_ACTION_IDLE 0xff ?t"
        using rest core_parts [OF d(2)] g(4,5) by (simp add: core_rest scan_at_rest_def conn_at_rest_def)
    qed simp
    moreover have "quiet ?e" if "\<not> r"
    proof (rule ended_quiet)
      show "quiet ?t" using that d(2) m(2) by (simp add: quiet_def core_def list_phase_def)
    qed (use m in simp_all)
    ultimately have "sys_weak r ?e" by (simp add: sys_weak_def)
    then show ?thesis
      using False at d(5) pending_white_list_inv [of r ?e] pending_rpa_last [of r ?e]
      by (simp add: adv_deleted_def Let_def actv_transition_def adv_gone_def [symmetric])
  qed
qed

section \<open>Scanning\<close>

lemma scan_answered_inv:
  assumes a: "answered r idx s" and i: "ae_scan_actv_idx (sy_app s) = idx" and st: "scan_slot (sy_app s) = APP_SCAN_STATE_STARTING"
  shows "returns (start_answered APP_SCAN_STATE_STARTED APP_SCAN_STATE_DELETING BLE_ACTV_ACTION_STARTING_SCAN idx ok s) (sys_inv r)"
proof -
  note d = answeredD [OF a]
  have act: "bm_actv_action (sy_mode s) = BLE_ACTV_ACTION_STARTING_SCAN" "owing is_create_scan (sy_sent s) = 0" "\<not> ae_need_restart_scan (sy_app s)"
    using d(2) st by (auto simp: core_def scan_phase_def scan_at_rest_def scan_down_def split: if_splits)
  note p = core_parts [OF d(2)]
  have own: "owner (ae_adv_actv_idx (sy_app s)) (ae_scan_actv_idx (sy_app s)) (ae_connect_actv_idx (sy_app s)) idx = K_scan"
    using owner_scan [OF d(1)] i d(6) by simp
  have at: "actv_state_at (sy_app s) idx = APP_SCAN_STATE_STARTING" using scan_activity(2) [OF d(1)] i d(6) st by simp
  have over: "sys_inv r (ended BLE_ACTV_ACTION_STARTING_SCAN idx t)"
    if t: "sys_wf None t" "t = put_state idx y x" "scan_slot (sy_app t) = APP_SCAN_STATE_STARTED \<or> scan_down (scan_slot (sy_app t))"
      "x = s \<or> x = ke_msg_send (G_delete idx) s" for t x y
  proof -
    have slots: "u < BLE_ADV_ACTIVITY_USER_NUM \<Longrightarrow> adv_slot (sy_app t) u = adv_slot (sy_app s) u"
        "conn_slot (sy_app t) = conn_slot (sy_app s)" for u
      using put_scan [OF d(1) i d(6)] t(2,4) by (auto simp: put_state_def)
    have "core r BLE_ACTV_ACTION_IDLE 0xff t"
      using act p slots t(2-4) unfolding core_rest by (auto simp: adv_at_rest_def scan_at_rest_def conn_at_rest_def)
    then show ?thesis using t(1,2,4) d(3,4) act by (intro ended_inv) auto
  qed
  have "sys_wf None (put_state idx APP_SCAN_STATE_STARTED s)" using sys_wf_quiet [OF d(1)] own by simp
  moreover have "sys_wf None (put_state idx APP_SCAN_STATE_DELETING (ke_msg_send (G_delete idx) s))" using sys_wf_sent [OF d(1)] own by simp
  moreover have "scan_slot (sy_app (put_state idx y x)) = y" if "x = s \<or> x = ke_msg_send (G_delete idx) s" for x y
    using put_scan(2) [OF d(1) i d(6), of y] that by (auto simp: put_state_def)
  ultimately show ?thesis
    using d(5) at over [OF _ refl]
    by (auto simp: start_answered_def appm_delete_activity_def actv_transition_def scan_down_def)
qed

lemma scan_stopped_inv:
  assumes a: "answered r idx s" and i: "ae_scan_actv_idx (sy_app s) = idx" and st: "scan_slot (sy_app s) = APP_SCAN_STATE_STOPPING"
  shows "returns (go_deleting idx APP_SCAN_STATE_DELETING s) (sys_inv r)"
proof -
  note d = answeredD [OF a]
  have at: "actv_state_at (sy_app s) idx = APP_SCAN_STATE_STOPPING" using scan_activity(2) [OF d(1)] i d(6) st by simp
  have "sys_inv r (put_state idx APP_SCAN_STATE_DELETING (ke_msg_send (G_delete idx) s))"
    using scan_down_core(1,2) [OF d(1) i d(6) _ _ _ d(2), of APP_SCAN_STATE_DELETING "G_delete idx"] st d(3,4)
    by (simp add: sys_inv_def scan_down_def)
  then show ?thesis using at d(5) by (simp add: go_deleting_def appm_delete_activity_def actv_transition_def)
qed

definition scan_gone :: "u8 \<Rightarrow> ble_sys \<Rightarrow> ble_sys" where
  "scan_gone idx s = upd_app (\<lambda>a. a\<lparr>ae_scan_actv_idx := INVALID_BLE_ACTIVITY_INDEX\<rparr>) (put_state idx APP_ACTV_STATE_IDLE s)"

lemma scan_gone_view:
  assumes w: "sys_wf (Some idx) s" and i: "ae_scan_actv_idx (sy_app s) = idx" "idx \<noteq> INVALID_BLE_ACTIVITY_INDEX"
    and t: "t = scan_gone idx s"
  shows "sys_wf None t" "scan_slot (sy_app t) = APP_ACTV_STATE_IDLE" "conn_slot (sy_app t) = conn_slot (sy_app s)"
    and "u < BLE_ADV_ACTIVITY_USER_NUM \<Longrightarrow> adv_slot (sy_app t) u = adv_slot (sy_app s) u"
proof -
  show "sys_wf None t" using wf_scan_removed [of "ae_scan_actv_idx (sy_app s)"] w i by (simp add: t scan_gone_def)
  show "scan_slot (sy_app t) = APP_ACTV_STATE_IDLE" by (simp add: t scan_gone_def scan_slot_def slot_def)
  show "conn_slot (sy_app t) = conn_slot (sy_app s)"
    "u < BLE_ADV_ACTIVITY_USER_NUM \<Longrightarrow> adv_slot (sy_app t) u = adv_slot (sy_app s) u"
    using put_scan(1,3) [OF w i] by (simp_all add: t scan_gone_def)
qed

text \<open>After a deletion the action is over if it was to stop this activity; lists that wait go on.\<close>

lemma deleted_weak:
  assumes t: "sys_wf None t" "ble_inv (sy_mode t)" "requests_sound r (sy_mode t)"
    and act: "act \<noteq> BLE_ACTV_ACTION_IDLE" "act \<noteq> BLE_ACTV_ACTION_STOPPING_ADV"
    and stays: "bm_actv_action (sy_mode t) \<noteq> act \<Longrightarrow> core True (bm_actv_action (sy_mode t)) (bm_op_actv_idx (sy_mode t)) t"
    and over: "bm_actv_action (sy_mode t) = act \<Longrightarrow> core True BLE_ACTV_ACTION_IDLE 0xff t"
    and q: "\<not> r \<Longrightarrow> quiet t"
  shows "returns (bindE (pending_rpa_list (ended act idx t)) pending_white_list) (sys_inv r)"
proof -
  have "sys_inv True (ended act idx t)"
    using t(1,2) sound_True [OF t(3)] act stays over by (intro ended_inv) auto
  moreover have "quiet (ended act idx t)" if "\<not> r" using q that t(2) act(1) by (intro ended_quiet)
  ultimately have "sys_weak r (ended act idx t)" by (simp add: sys_weak_def)
  from pending_rpa_list_inv [OF this] show ?thesis by (simp add: returns_mono [OF _ pending_white_list_inv])
qed

lemma scan_deleted_inv:
  assumes a: "answered r idx s" and i: "ae_scan_actv_idx (sy_app s) = idx" and st: "scan_slot (sy_app s) = APP_SCAN_STATE_DELETING"
  shows "returns (scan_deleted idx s) (sys_inv r)"
proof -
  note d = answeredD [OF a]
  let ?t = "scan_gone idx s" let ?act = "bm_actv_action (sy_mode s)"
  note g = scan_gone_view [OF d(1) i d(6) refl] and p = core_parts [OF d(2)]
  have at: "actv_state_at (sy_app s) idx = APP_SCAN_STATE_DELETING" using scan_activity(2) [OF d(1)] i d(6) st by simp
  have f: "sy_mode ?t = sy_mode s" "sy_sent ?t = sy_sent s" by (simp_all add: scan_gone_def)
  have unfold: "returns (scan_deleted idx s) P \<longleftrightarrow>
      (if ae_need_restart_scan (sy_app s)
       then returns (appm_start_scanning (ae_scanIntervalInMs (sy_app ?t)) (ae_scanWindowInMs (sy_app ?t)) (ae_scanFiltPolicy (sy_app ?t))
              (upd_app (\<lambda>a. a\<lparr>ae_need_restart_scan := False\<rparr>) ?t)) P
       else returns (bindE (pending_rpa_list (ended BLE_ACTV_ACTION_STOPPING_SCAN idx ?t)) pending_white_list) P)" for P
    using at d(5) by (simp add: scan_deleted_def actv_transition_def scan_gone_def Let_def)
  show ?thesis
  proof (cases "ae_need_restart_scan (sy_app s)")
    case True
    then have act: "?act = BLE_ACTV_ACTION_STARTING_SCAN" and c: "owing is_create_scan (sy_sent s) = 0"
      using d(2) by (auto simp: core_def scan_phase_def scan_at_rest_def split: if_splits)
    have "taken r BLE_ACTV_ACTION_STARTING_SCAN (upd_app (\<lambda>a. a\<lparr>ae_need_restart_scan := False\<rparr>) ?t)"
      using g p act c f d(3,4) by (simp add: taken_def core_rest scan_gone_def adv_at_rest_def scan_at_rest_def conn_at_rest_def)
    moreover have "\<not> scan_refused policy (upd_app (\<lambda>a. a\<lparr>ae_need_restart_scan := False\<rparr>) ?t)" for policy
      using g(2) by (simp add: scan_refused_def scan_down_def)
    ultimately show ?thesis using start_scan_inv True by (simp add: unfold)
  next
    case False
    have act: "?act \<noteq> BLE_ACTV_ACTION_STARTING_SCAN"
      using d(2) st False by (auto simp: core_def scan_phase_def scan_down_def)
    have rest: "scan_at_rest (sy_app ?t) (sy_sent ?t)" using p(2) act g(2) f by (simp add: scan_at_rest_def scan_gone_def)
    have adv: "adv_phase x op (sy_app ?t) (sy_sent ?t) = adv_phase x op (sy_app s) (sy_sent s)"
        "adv_at_rest (sy_app ?t) (sy_sent ?t) = adv_at_rest (sy_app s) (sy_sent s)" for x op
      using adv_frame [of "sy_app ?t" "sy_app s" "sy_sent ?t" "sy_sent s", OF g(4)] f by (simp_all add: scan_gone_def)
    have conn: "conn_phase x (sy_app ?t) (sy_sent ?t) = conn_phase x (sy_app s) (sy_sent s)"
        "conn_at_rest (sy_app ?t) (sy_sent ?t) = conn_at_rest (sy_app s) (sy_sent s)" for x
      using conn_frame(1,2) [OF g(3)] f by (simp_all add: scan_gone_def)
    have "returns (bindE (pending_rpa_list (ended BLE_ACTV_ACTION_STOPPING_SCAN idx ?t)) pending_white_list) (sys_inv r)"
    proof (rule deleted_weak [OF g(1)])
      show "ble_inv (sy_mode ?t)" "requests_sound r (sy_mode ?t)" using d(3,4) f by simp_all
      show "core True (bm_actv_action (sy_mode ?t)) (bm_op_actv_idx (sy_mode ?t)) ?t" if "bm_actv_action (sy_mode ?t) \<noteq> BLE_ACTV_ACTION_STOPPING_SCAN"
        using that act d(2) rest adv conn f by (auto simp: core_def scan_phase_def list_phase_def scan_gone_def)
      show "core True BLE_ACTV_ACTION_IDLE 0xff ?t" if "bm_actv_action (sy_mode ?t) = BLE_ACTV_ACTION_STOPPING_SCAN"
        using that p rest adv conn f by (simp add: core_rest scan_gone_def)
      show "quiet ?t" if "\<not> r" using that d(2,4) f by (auto simp: quiet_def core_def list_phase_def scan_gone_def)
    qed simp_all
    with False show ?thesis by (simp add: unfold)
  qed
qed

section \<open>Connecting\<close>

lemma conn_answered_inv:
  assumes a: "answered r idx s" and i: "ae_connect_actv_idx (sy_app s) = idx" and st: "conn_slot (sy_app s) = APP_CONNECT_STATE_STARTING"
  shows "returns (start_answered APP_CONNECT_STATE_STARTED APP_CONNECT_STATE_DELETING BLE_ACTV_ACTION_CONNECTING idx ok s) (sys_inv r)"
proof -
  note d = answeredD [OF a]
  have act: "bm_actv_action (sy_mode s) = BLE_ACTV_ACTION_CONNECTING" "owing is_create_init (sy_sent s) = 0" "\<not> ae_need_restart_connect (sy_app s)"
    using d(2) st by (auto simp: core_def conn_phase_def conn_at_rest_def conn_down_def split: if_splits)
  note p = core_parts [OF d(2)]
  have own: "owner (ae_adv_actv_idx (sy_app s)) (ae_scan_actv_idx (sy_app s)) (ae_connect_actv_idx (sy_app s)) idx = K_connect"
    using owner_connect [OF d(1)] i d(6) by simp
  have at: "actv_state_at (sy_app s) idx = APP_CONNECT_STATE_STARTING" using conn_activity(2) [OF d(1)] i d(6) st by simp
  have over: "sys_inv r (ended BLE_ACTV_ACTION_CONNECTING idx t)"
    if t: "sys_wf None t" "t = put_state idx y x" "conn_slot (sy_app t) = APP_CONNECT_STATE_STARTED \<or> conn_slot (sy_app t) = APP_CONNECT_STATE_DELETING"
      "x = s \<or> x = ke_msg_send (G_delete idx) s" for t x y
  proof -
    have slots: "u < BLE_ADV_ACTIVITY_USER_NUM \<Longrightarrow> adv_slot (sy_app t) u = adv_slot (sy_app s) u"
        "scan_slot (sy_app t) = scan_slot (sy_app s)" for u
      using put_connect [OF d(1) i d(6)] t(2,4) by (auto simp: put_state_def)
    have "core r BLE_ACTV_ACTION_IDLE 0xff t"
      using act p slots t(2-4) unfolding core_rest by (auto simp: adv_at_rest_def scan_at_rest_def conn_at_rest_def)
    then show ?thesis using t(1,2,4) d(3,4) act by (intro ended_inv) auto
  qed
  have "sys_wf None (put_state idx APP_CONNECT_STATE_STARTED s)" using sys_wf_quiet [OF d(1)] own by simp
  moreover have "sys_wf None (put_state idx APP_CONNECT_STATE_DELETING (ke_msg_send (G_delete idx) s))" using sys_wf_sent [OF d(1)] own by simp
  moreover have "conn_slot (sy_app (put_state idx y x)) = y" if "x = s \<or> x = ke_msg_send (G_delete idx) s" for x y
    using put_connect(3) [OF d(1) i d(6), of y] that by (auto simp: put_state_def)
  ultimately show ?thesis
    using d(5) at over [OF _ refl] by (auto simp: start_answered_def appm_delete_activity_def actv_transition_def)
qed

definition conn_gone :: "u8 \<Rightarrow> ble_sys \<Rightarrow> ble_sys" where
  "conn_gone idx s = upd_app (\<lambda>a. a\<lparr>ae_connect_actv_idx := INVALID_BLE_ACTIVITY_INDEX\<rparr>) (put_state idx APP_ACTV_STATE_IDLE s)"

lemma conn_gone_view:
  assumes w: "sys_wf (Some idx) s" and i: "ae_connect_actv_idx (sy_app s) = idx" "idx \<noteq> INVALID_BLE_ACTIVITY_INDEX"
    and t: "t = conn_gone idx s"
  shows "sys_wf None t" "conn_slot (sy_app t) = APP_ACTV_STATE_IDLE" "scan_slot (sy_app t) = scan_slot (sy_app s)"
    and "u < BLE_ADV_ACTIVITY_USER_NUM \<Longrightarrow> adv_slot (sy_app t) u = adv_slot (sy_app s) u"
proof -
  show "sys_wf None t" using wf_connect_removed [of "ae_connect_actv_idx (sy_app s)"] w i by (simp add: t conn_gone_def)
  show "conn_slot (sy_app t) = APP_ACTV_STATE_IDLE" by (simp add: t conn_gone_def conn_slot_def slot_def)
  show "scan_slot (sy_app t) = scan_slot (sy_app s)"
    "u < BLE_ADV_ACTIVITY_USER_NUM \<Longrightarrow> adv_slot (sy_app t) u = adv_slot (sy_app s) u"
    using put_connect(1,2) [OF w i] by (simp_all add: t conn_gone_def)
qed

lemma conn_deleted_inv:
  assumes a: "answered r idx s" and i: "ae_connect_actv_idx (sy_app s) = idx" and st: "conn_slot (sy_app s) = APP_CONNECT_STATE_DELETING"
  shows "returns (connect_deleted idx s) (sys_inv r)"
proof -
  note d = answeredD [OF a]
  let ?t = "conn_gone idx s" let ?act = "bm_actv_action (sy_mode s)"
  note g = conn_gone_view [OF d(1) i d(6) refl] and p = core_parts [OF d(2)]
  have at: "actv_state_at (sy_app s) idx = APP_CONNECT_STATE_DELETING" using conn_activity(2) [OF d(1)] i d(6) st by simp
  have f: "sy_mode ?t = sy_mode s" "sy_sent ?t = sy_sent s" by (simp_all add: conn_gone_def)
  have unfold: "returns (connect_deleted idx s) P \<longleftrightarrow>
      (if ae_need_restart_connect (sy_app s)
       then returns (appm_start_connecting (ae_init_param (sy_app s)) (upd_app (\<lambda>a. a\<lparr>ae_need_restart_connect := False\<rparr>) ?t)) P
       else returns (bindE (pending_rpa_list (ended BLE_ACTV_ACTION_STOP_CONNECTING idx ?t)) pending_white_list) P)" for P
    using at d(5) by (simp add: connect_deleted_def actv_transition_def conn_gone_def Let_def)
  show ?thesis
  proof (cases "ae_need_restart_connect (sy_app s)")
    case True
    then have act: "?act = BLE_ACTV_ACTION_CONNECTING" and c: "owing is_create_init (sy_sent s) = 0"
      using d(2) by (auto simp: core_def conn_phase_def conn_at_rest_def split: if_splits)
    have "taken r BLE_ACTV_ACTION_CONNECTING (upd_app (\<lambda>a. a\<lparr>ae_need_restart_connect := False\<rparr>) ?t)"
      using g p act c f d(3,4) by (simp add: taken_def core_rest conn_gone_def adv_at_rest_def scan_at_rest_def conn_at_rest_def)
    then show ?thesis using start_conn_inv p(8) True by (simp add: unfold)
  next
    case False
    have act: "?act \<noteq> BLE_ACTV_ACTION_CONNECTING"
      using d(2) st False by (auto simp: core_def conn_phase_def conn_down_def)
    have rest: "conn_at_rest (sy_app ?t) (sy_sent ?t)" using p(3) act g(2) f by (simp add: conn_at_rest_def conn_gone_def)
    have adv: "adv_phase x op (sy_app ?t) (sy_sent ?t) = adv_phase x op (sy_app s) (sy_sent s)"
        "adv_at_rest (sy_app ?t) (sy_sent ?t) = adv_at_rest (sy_app s) (sy_sent s)" for x op
      using adv_frame [of "sy_app ?t" "sy_app s" "sy_sent ?t" "sy_sent s", OF g(4)] f by (simp_all add: conn_gone_def)
    have scan: "scan_phase x (sy_app ?t) (sy_sent ?t) = scan_phase x (sy_app s) (sy_sent s)"
        "scan_at_rest (sy_app ?t) (sy_sent ?t) = scan_at_rest (sy_app s) (sy_sent s)" for x
      using scan_frame(1,2) [OF g(3)] f by (simp_all add: conn_gone_def)
    have "returns (bindE (pending_rpa_list (ended BLE_ACTV_ACTION_STOP_CONNECTING idx ?t)) pending_white_list) (sys_inv r)"
    proof (rule deleted_weak [OF g(1)])
      show "ble_inv (sy_mode ?t)" "requests_sound r (sy_mode ?t)" using d(3,4) f by simp_all
      show "core True (bm_actv_action (sy_mode ?t)) (bm_op_actv_idx (sy_mode ?t)) ?t" if "bm_actv_action (sy_mode ?t) \<noteq> BLE_ACTV_ACTION_STOP_CONNECTING"
        using that act d(2) rest adv scan f by (auto simp: core_def conn_phase_def list_phase_def conn_gone_def)
      show "core True BLE_ACTV_ACTION_IDLE 0xff ?t" if "bm_actv_action (sy_mode ?t) = BLE_ACTV_ACTION_STOP_CONNECTING"
        using that p rest adv scan f by (simp add: core_rest conn_gone_def)
      show "quiet ?t" if "\<not> r" using that d(2,4) f by (auto simp: quiet_def core_def list_phase_def conn_gone_def)
    qed simp_all
    with False show ?thesis by (simp add: unfold)
  qed
qed

section \<open>The whole step\<close>

text \<open>An activity whose command was answered is not idle and not running: it is in one of the states that the step handles.\<close>

lemma fsm_inv:
  assumes a: "answered r idx s"
    and k: "kind_of (actv_state_at (sy_app s) idx) = owner (ae_adv_actv_idx (sy_app s)) (ae_scan_actv_idx (sy_app s)) (ae_connect_actv_idx (sy_app s)) idx"
    and st: "actv_state_at (sy_app s) idx \<notin> {APP_ACTV_STATE_IDLE, APP_ADV_STATE_STARTED, APP_SCAN_STATE_STARTED, APP_CONNECT_STATE_STARTED}"
  shows "returns (appm_actv_fsm_next e idx ok s) (sys_inv r)"
proof -
  note d = answeredD [OF a]
  let ?st = "actv_state_at (sy_app s) idx"
  have phases: "adv_phase (bm_actv_action (sy_mode s)) (bm_op_actv_idx (sy_mode s)) (sy_app s) (sy_sent s)"
      "scan_phase (bm_actv_action (sy_mode s)) (sy_app s) (sy_sent s)" "conn_phase (bm_actv_action (sy_mode s)) (sy_app s) (sy_sent s)"
    using d(2) by (simp_all add: core_def)
  have len: "length (ae_adv_actv_idx (sy_app s)) = BLE_ADV_ACTIVITY_USER_NUM" using d(1) by (simp add: actv_wf_def slots_ok_def)
  consider (advs) "idx \<in> set (ae_adv_actv_idx (sy_app s))" "kind_of ?st = K_adv"
    | (scan) "ae_scan_actv_idx (sy_app s) = idx" "kind_of ?st = K_scan"
    | (conn) "ae_connect_actv_idx (sy_app s) = idx" "kind_of ?st = K_connect"
    | (none) "kind_of ?st = K_none"
    using k by (auto simp: owner_def split: if_splits)
  then show ?thesis
  proof cases
    case advs
    then obtain v where adv: "v < BLE_ADV_ACTIVITY_USER_NUM" "ae_adv_actv_idx (sy_app s) ! v = idx" "kind_of ?st = K_adv"
      by (metis in_set_conv_nth len)
    have slot: "adv_slot (sy_app s) v = ?st" using adv_activity(2) [OF d(1) adv(1)] adv(2) d(6) by simp
    have "?st \<noteq> APP_ADV_STATE_CREATING"
      using phases(1) adv(1) slot
      by (cases "v = ap_actv_user (ae_advParam (sy_app s))")
        (auto simp: adv_phase_def adv_starting_def adv_at_rest_def adv_settled_def adv_down_def adv_preparing_def Let_def split: if_splits)
    moreover have "idx \<in> set (ae_adv_actv_idx (sy_app s))" using adv(1,2) len by auto
    ultimately show ?thesis
      using adv_prepared [OF a adv(1,2)] adv_started_inv [OF a adv(1,2), of e] adv_failed_inv [OF a adv(1,2), of e]
        adv_stopped_inv [OF a adv(1,2)] adv_deleted_inv [OF a adv(1,2), of e] st adv(3) slot d(5)
      by (cases ok; cases ?st) (simp_all add: appm_actv_fsm_next_def appm_check_adv_activity_index_def)
  next
    case scan
    have slot: "scan_slot (sy_app s) = ?st" using scan_activity(2) [OF d(1)] scan(1) d(6) by simp
    have "?st \<noteq> APP_SCAN_STATE_CREATING"
      using phases(2) slot by (auto simp: scan_phase_def scan_at_rest_def scan_down_def split: if_splits)
    then show ?thesis
      using scan_answered_inv [OF a scan(1), of ok] scan_stopped_inv [OF a scan(1)] scan_deleted_inv [OF a scan(1)] st scan slot d(5)
      by (cases ?st) (simp_all add: appm_actv_fsm_next_def)
  next
    case conn
    have slot: "conn_slot (sy_app s) = ?st" using conn_activity(2) [OF d(1)] conn(1) d(6) by simp
    have "?st \<noteq> APP_CONNECT_STATE_CREATING" "?st \<noteq> APP_CONNECT_STATE_STOPPING"
      using phases(3) slot by (auto simp: conn_phase_def conn_at_rest_def conn_down_def split: if_splits)
    then show ?thesis
      using conn_answered_inv [OF a conn(1), of ok] conn_deleted_inv [OF a conn(1)] st conn slot d(5)
      by (cases ?st) (simp_all add: appm_actv_fsm_next_def)
  next
    case none
    with st show ?thesis by (cases ?st) simp_all
  qed
qed

end
