(* ===== verification/BleActvStep.thy ===== *)
theory BleActvStep
  imports BleActvFsm
begin

text \<open>
  The steps of the two BLE layers and the host: calls of the applications, runs of the thread, and what the host answers and
  tells. What is required of the host is the predicate \<open>enabled\<close>; every step that is enabled keeps the invariant.
\<close>

section \<open>Events\<close>

fun operation :: "gapm_cmd \<Rightarrow> gapm_operation option" where
  "operation (G_create_adv c) = Some GAPM_CREATE_ADV_ACTIVITY"
| "operation (G_create_scan b) = Some GAPM_CREATE_SCAN_ACTIVITY"
| "operation (G_create_init t) = Some GAPM_CREATE_INIT_ACTIVITY"
| "operation (G_start_adv i) = Some GAPM_START_ACTIVITY"
| "operation (G_start_scan i c) = Some GAPM_START_ACTIVITY"
| "operation (G_start_init i p) = Some GAPM_START_ACTIVITY"
| "operation (G_stop i) = Some GAPM_STOP_ACTIVITY"
| "operation (G_delete i) = Some GAPM_DELETE_ACTIVITY"
| "operation (G_set_adv_data p i d) = Some (if p then GAPM_SET_PERIOD_ADV_DATA else GAPM_SET_ADV_DATA)"
| "operation (G_set_scan_rsp_data i d) = Some GAPM_SET_SCAN_RSP_DATA"
| "operation (G_set_wl w) = Some GAPM_SET_WL"
| "operation (G_set_ral n) = Some GAPM_SET_RAL"
| "operation (G_disconnect i) = None"

datatype sys_event =
    Request ble_env ble_call
  | Add_Devices nat
  | Thread ble_env
  | Answer ble_env gapm_cmd u8 bool
  | Stopped ble_env u8
  | Connected bool nat bd_addr
  | Disconnected "nat option" nat

definition take_off :: "gapm_cmd \<Rightarrow> ble_sys \<Rightarrow> ble_sys" where
  "take_off c s = s\<lparr>sy_sent := remove1 c (sy_sent s)\<rparr>"

definition take_off_all :: "gapm_cmd \<Rightarrow> ble_sys \<Rightarrow> ble_sys" where
  "take_off_all c s = s\<lparr>sy_sent := filter (\<lambda>d. d \<noteq> c) (sy_sent s)\<rparr>"

text \<open>An answer names the activity of its command, or a new one.\<close>

fun sys_exec :: "sys_event \<Rightarrow> ble_sys \<Rightarrow> ble_sys res" where
  "sys_exec (Request e c) s = bindE (ble_exec (actv_view (sy_app s) e) c (sy_mode s)) (\<lambda>m. Inr (upd_mode (\<lambda>_. m) s))"
| "sys_exec (Add_Devices n) s = Inr (appm_add_multiple_devices_to_resolving_list_in_controller n s)"
| "sys_exec (Thread e) s =
     (case bm_posted (sy_mode s) of
        [] \<Rightarrow> Inr s
      | p # ps \<Rightarrow> run_posted e p (upd_mode (\<lambda>m. m\<lparr>bm_posted := ps\<rparr>) s))"
| "sys_exec (Answer e c idx ok) s =
     (case operation c of
        None \<Rightarrow> Inr (take_off c s)
      | Some oper \<Rightarrow> gapm_cmp_evt_handler e oper (case cmd_idx c of Some i \<Rightarrow> i | None \<Rightarrow> idx) ok (take_off c s))"
| "sys_exec (Stopped e idx) s =
     gapm_activity_stopped_ind_handler e idx
       (if actv_state_at (sy_app s) idx = APP_CONNECT_STATE_STARTED then take_off_all (G_stop idx) s else s)"
| "sys_exec (Connected resolving i addr) s = gapc_le_connection_req_ind_handler resolving i addr s"
| "sys_exec (Disconnected mic i) s = gapc_disconnect_ind_handler mic i (take_off_all (G_disconnect i) s)"

text \<open>Whether a module respects the arrays is a matter of proof, not of evaluation.\<close>

declare fill_sound_def [code del]

text \<open>What a caller must keep to: connections that exist, address types of the enumeration, modules that respect the arrays. Devices
  are put into the resolving list only if \<open>r\<close>.\<close>

fun sound_call :: "bool \<Rightarrow> ble_call \<Rightarrow> bool" where
  "sound_call r (Register_Fill user f) = (case f of None \<Rightarrow> True | Some g \<Rightarrow> fill_sound g)"
| "sound_call r (Connect t peer own conn_to) = (own \<le> APP_GAPM_GEN_NON_RSLV_ADDR)"
| "sound_call r (Connect_White_List addrs n own conn_to) = (own \<le> APP_GAPM_GEN_NON_RSLV_ADDR)"
| "sound_call r (Disconnect i) = (i < BLE_CONNECTION_MAX)"
| "sound_call r (Resolving_List n) = r"
| "sound_call r c = True"

text \<open>What the host keeps to: it answers commands that it got; it can create an activity and gives it an index that is free; it tells that
  an initiating activity has stopped instead of answering the command to stop it.\<close>

fun creates :: "gapm_cmd \<Rightarrow> bool" where
  "creates (G_create_adv c) = True"
| "creates (G_create_scan b) = True"
| "creates (G_create_init t) = True"
| "creates c = False"

fun enabled :: "bool \<Rightarrow> sys_event \<Rightarrow> ble_sys \<Rightarrow> bool" where
  "enabled r (Request e c) s = sound_call r c"
| "enabled r (Add_Devices n) s = r"
| "enabled r (Thread e) s = (bm_posted (sy_mode s) \<noteq> [])"
| "enabled r (Answer e c idx ok) s =
     (c \<in> set (sy_sent s) \<and> \<not> is_disconnect c \<and>
      (creates c \<longrightarrow> ok \<and> unat idx < BLE_ACTIVITY_MAX \<and> actv_state_at (sy_app s) idx = APP_ACTV_STATE_IDLE) \<and>
      (\<forall>i. c = G_stop i \<longrightarrow> actv_state_at (sy_app s) i \<noteq> APP_CONNECT_STATE_STARTED))"
| "enabled r (Stopped e idx) s = (unat idx < BLE_ACTIVITY_MAX)"
| "enabled r (Connected resolving i addr) s = (i < BLE_CONNECTION_MAX)"
| "enabled r (Disconnected mic i) s = (i < BLE_CONNECTION_MAX \<and> (mic \<noteq> None \<longrightarrow> r))"

inductive sys_reach :: "bool \<Rightarrow> ble_sys \<Rightarrow> bool" for r where
  Start: "sys_reach r appm_init"
| Event: "sys_reach r s \<Longrightarrow> enabled r ev s \<Longrightarrow> sys_exec ev s = Inr s' \<Longrightarrow> sys_reach r s'"

section \<open>Answers of the host\<close>

lemma take_off_fields [simp]:
  "sy_mode (take_off c s) = sy_mode s" "sy_app (take_off c s) = sy_app s" "sy_sent (take_off c s) = remove1 c (sy_sent s)"
  "sy_mode (take_off_all c s) = sy_mode s" "sy_app (take_off_all c s) = sy_app s"
  "sy_sent (take_off_all c s) = filter (\<lambda>d. d \<noteq> c) (sy_sent s)"
  by (simp_all add: take_off_def take_off_all_def)

text \<open>A command of an activity.\<close>

lemma owing_take_off: "\<not> P c \<Longrightarrow> owing P (remove1 c S) = owing P S"
  by (rule owing_remove_other)

lemma cmd_kinds: "cmd_idx c = Some i \<Longrightarrow>
    \<not> is_create_adv c \<and> \<not> is_create_scan c \<and> \<not> is_create_init c \<and> \<not> is_set_wl c \<and> \<not> is_set_ral c \<and> \<not> is_disconnect c"
  by (cases c) simp_all

text \<open>Commands may be taken off the list as long as those that the action waits for stay.\<close>

lemma core_sent:
  assumes c: "core r act op s"
    and creates: "owing is_create_adv S = owing is_create_adv (sy_sent s)" "owing is_create_scan S = owing is_create_scan (sy_sent s)"
      "owing is_create_init S = owing is_create_init (sy_sent s)"
    and lists: "act = BLE_ACTV_ACTION_SET_WHITE_LIST \<Longrightarrow> owing is_set_wl S = owing is_set_wl (sy_sent s)"
      "act = BLE_ACTV_ACTION_DISCONNECTING \<Longrightarrow> owing is_disconnect S = owing is_disconnect (sy_sent s)"
    and stop: "conn_slot (sy_app s) = APP_CONNECT_STATE_STARTED \<Longrightarrow> G_stop (ae_connect_actv_idx (sy_app s)) \<in> set (sy_sent s) \<Longrightarrow>
      G_stop (ae_connect_actv_idx (sy_app s)) \<in> set S"
    and less: "set S \<subseteq> set (sy_sent s)"
  shows "core r act op (s\<lparr>sy_sent := S\<rparr>)"
proof -
  have down: "conn_down (sy_app s) S = conn_down (sy_app s) (sy_sent s)"
    using stop less by (auto simp: conn_down_def)
  have "going (sy_app s) S = going (sy_app s) (sy_sent s)" by (simp add: going_def down)
  moreover have "conn_phase act (sy_app s) S = conn_phase act (sy_app s) (sy_sent s)"
    using creates by (simp add: conn_phase_def conn_at_rest_def down)
  ultimately show ?thesis
    using c creates lists adv_frame(1) [of "sy_app s" "sy_app s" S "sy_sent s"] scan_frame(1) [of "sy_app s" "sy_app s" S "sy_sent s"]
    by (auto simp: core_def list_phase_def)
qed

lemma core_take_off:
  assumes c: "core r act op s" and k: "cmd_idx d = Some i"
    and stop: "d = G_stop (ae_connect_actv_idx (sy_app s)) \<Longrightarrow> conn_slot (sy_app s) \<noteq> APP_CONNECT_STATE_STARTED"
  shows "core r act op (take_off d s)"
proof -
  have "G_stop (ae_connect_actv_idx (sy_app s)) \<in> set (remove1 d (sy_sent s))"
    if "conn_slot (sy_app s) = APP_CONNECT_STATE_STARTED" "G_stop (ae_connect_actv_idx (sy_app s)) \<in> set (sy_sent s)"
    using stop that by (metis in_set_remove1)
  then show ?thesis
    using cmd_kinds [OF k] core_sent [OF c, of "remove1 d (sy_sent s)"] by (simp add: take_off_def owing_take_off set_remove1_subset)
qed

lemma answer_answered:
  assumes i: "sys_inv r s" and c: "c \<in> set (sy_sent s)" "cmd_idx c = Some idx"
    and stop: "c = G_stop idx \<Longrightarrow> actv_state_at (sy_app s) idx \<noteq> APP_CONNECT_STATE_STARTED"
  shows "answered r idx (take_off c s)"
    and "kind_of (actv_state_at (sy_app s) idx) = owner (ae_adv_actv_idx (sy_app s)) (ae_scan_actv_idx (sy_app s)) (ae_connect_actv_idx (sy_app s)) idx"
    and "actv_state_at (sy_app s) idx \<notin> {APP_ACTV_STATE_IDLE, APP_ADV_STATE_STARTED, APP_SCAN_STATE_STARTED, APP_CONNECT_STATE_STARTED}"
proof -
  have w: "sys_wf None s" using i by (simp add: sys_inv_def)
  have "c \<in> set (cmds idx (sy_sent s))" using c by (simp add: cmds_def)
  then have b: "unat idx < BLE_ACTIVITY_MAX" using w unfolding actv_wf_def by (metis empty_iff empty_set not_less)
  note o = wf_owed [OF w _ b, simplified]
  show "kind_of (actv_state_at (sy_app s) idx) = owner (ae_adv_actv_idx (sy_app s)) (ae_scan_actv_idx (sy_app s)) (ae_connect_actv_idx (sy_app s)) idx"
    using o by (simp add: actv_state_at_def)
  show st: "actv_state_at (sy_app s) idx \<notin> {APP_ACTV_STATE_IDLE, APP_ADV_STATE_STARTED, APP_SCAN_STATE_STARTED, APP_CONNECT_STATE_STARTED}"
  proof (cases "actv_state_at (sy_app s) idx = APP_CONNECT_STATE_STARTED")
    case True
    then have "set (cmds idx (sy_sent s)) \<subseteq> {G_stop idx}" using o by (simp add: actv_state_at_def)
    with \<open>c \<in> set (cmds idx (sy_sent s))\<close> have "c = G_stop idx" by blast
    with stop True show ?thesis by simp
  next
    case False
    with o \<open>c \<in> set (cmds idx (sy_sent s))\<close> show ?thesis by (auto simp: actv_state_at_def)
  qed
  then have one: "length (cmds idx (sy_sent s)) = 1"
    using o by (cases "ae_state (sy_app s) ! unat idx") (auto simp: actv_state_at_def)
  have slot: "conn_slot (sy_app s) = actv_state_at (sy_app s) idx" if "ae_connect_actv_idx (sy_app s) = idx"
    using conn_activity(2) [OF w] that index_valid [OF b] by simp
  have "core r (bm_actv_action (sy_mode s)) (bm_op_actv_idx (sy_mode s)) (take_off c s)"
    using i slot stop c(2) by (intro core_take_off) (auto simp: sys_inv_def)
  then show "answered r idx (take_off c s)"
    using wf_answered [OF w c one] i by (simp add: answered_def sys_inv_def)
qed

lemma answer_activity:
  assumes i: "sys_inv r s" and c: "c \<in> set (sy_sent s)" "cmd_idx c = Some idx"
    and stop: "c = G_stop idx \<Longrightarrow> actv_state_at (sy_app s) idx \<noteq> APP_CONNECT_STATE_STARTED"
  shows "returns (appm_actv_fsm_next e idx ok (take_off c s)) (sys_inv r)"
  using answer_answered [OF assms] by (intro fsm_inv) simp_all

end
