(* ===== verification/BleActvNew.thy ===== *)
theory BleActvNew
  imports BleActvStep
begin

text \<open>The host has created an activity: its index is stored with its user, and the activity takes its first step.\<close>

lemma wf_hole_put: "actv_wf (Some i) sts adv sc co S \<Longrightarrow> actv_wf (Some i) (sts[unat i := x]) adv sc co S"
  by (auto simp: actv_wf_def nth_list_update)

lemma stop_take_off: "cmd_idx c = None \<Longrightarrow> G_stop i \<in> set (remove1 c S) \<longleftrightarrow> G_stop i \<in> set S"
  by (metis cmd_idx.simps(4) in_set_remove1 option.distinct(1))

lemma create_kinds:
  "is_create_adv c \<Longrightarrow> cmd_idx c = None \<and> \<not> is_create_scan c \<and> \<not> is_create_init c"
  "is_create_scan c \<Longrightarrow> cmd_idx c = None \<and> \<not> is_create_adv c \<and> \<not> is_create_init c"
  "is_create_init c \<Longrightarrow> cmd_idx c = None \<and> \<not> is_create_adv c \<and> \<not> is_create_scan c"
  by (cases c; simp)+

lemma created_returns:
  assumes "unat idx < BLE_ACTIVITY_MAX" "actv_state_at (sy_app s) idx = APP_ACTV_STATE_IDLE"
    and "actv_transition APP_ACTV_STATE_IDLE creating" "returns (store s) (\<lambda>t. actv_state_at (sy_app t) idx = APP_ACTV_STATE_IDLE \<and>
        returns (appm_actv_fsm_next e idx True (put_state idx creating t)) P)"
  shows "returns (created e creating idx store s) P"
  using assms by (auto simp: created_def elim!: returns_mono)

section \<open>Advertising\<close>

text \<open>The state in which the new advertising activity takes its first step.\<close>

definition adv_new :: "u8 \<Rightarrow> ble_sys \<Rightarrow> ble_sys" where
  "adv_new idx s = put_state idx APP_ADV_STATE_CREATING
     (upd_app (\<lambda>a. a\<lparr>ae_adv_actv_idx := (ae_adv_actv_idx a)[ap_actv_user (ae_advParam a) := idx]\<rparr>) s)"

lemma adv_new_step:
  assumes i: "sys_inv r s" and c: "c \<in> set (sy_sent s)" "is_create_adv c"
    and idx: "unat idx < BLE_ACTIVITY_MAX" "actv_state_at (sy_app s) idx = APP_ACTV_STATE_IDLE"
  defines "t \<equiv> adv_new idx (take_off c s)" and "u \<equiv> ap_actv_user (ae_advParam (sy_app s))"
  shows "u < BLE_ADV_ACTIVITY_USER_NUM"
    and "adv_preparing st \<Longrightarrow> cmd_idx d = Some idx \<Longrightarrow> d \<noteq> G_stop idx \<Longrightarrow> sys_inv r (put_state idx st (ke_msg_send d t))"
proof -
  note k = create_kinds(1) [OF c(2)]
  have w: "sys_wf None s" and core: "core r (bm_actv_action (sy_mode s)) (bm_op_actv_idx (sy_mode s)) s"
    using i by (simp_all add: sys_inv_def)
  note rest = core_parts [OF core] and ow = owing_remove_Suc [where P = is_create_adv, OF c]
  have act: "bm_actv_action (sy_mode s) = BLE_ACTV_ACTION_STARTING_ADV" using rest(1) ow by (auto simp: adv_at_rest_def)
  then have st: "adv_starting (sy_app s) (sy_sent s)" using core by (simp add: core_def adv_phase_def)
  then show u: "u < BLE_ADV_ACTIVITY_USER_NUM" by (simp add: adv_starting_def Let_def u_def)
  have f: "owing is_create_adv (remove1 c (sy_sent s)) = 0" "\<not> ae_need_restart_adv (sy_app s)" "adv_slot (sy_app s) u = APP_ACTV_STATE_IDLE"
      "\<And>v. v < BLE_ADV_ACTIVITY_USER_NUM \<Longrightarrow> v \<noteq> u \<Longrightarrow> adv_settled (adv_slot (sy_app s) v)"
    using st ow by (auto simp: adv_starting_def Let_def u_def)
  let ?t1 = "upd_app (\<lambda>a. a\<lparr>ae_adv_actv_idx := (ae_adv_actv_idx a)[ap_actv_user (ae_advParam a) := idx]\<rparr>) (take_off c s)"
  have free: "ae_adv_actv_idx (sy_app s) ! u = INVALID_BLE_ACTIVITY_INDEX" using f(3) idle_slots(1) [OF w u] by simp
  have w1: "sys_wf (Some idx) ?t1"
    using wf_adv_added(1) [OF w u free idx(1)] idx(2) k by (simp add: actv_state_at_def u_def)
  have own: "ae_adv_actv_idx (sy_app ?t1) ! u = idx" using adv_upd [OF w u, of u idx] by (simp add: u_def)
  have valid: "idx \<noteq> INVALID_BLE_ACTIVITY_INDEX" using index_valid [OF idx(1)] .
  have wt: "sys_wf (Some idx) t" using wf_hole_put [OF w1] by (simp add: t_def adv_new_def)
  have old: "adv_slot (sy_app ?t1) v = adv_slot (sy_app s) v" if "v < BLE_ADV_ACTIVITY_USER_NUM" "v \<noteq> u" for v
    using adv_upd [OF w that(1), of u idx] that(2) by (simp add: adv_slot_def u_def)
  note put = put_adv [OF w1 u own valid, where st = APP_ADV_STATE_CREATING]
  have slots: "v < BLE_ADV_ACTIVITY_USER_NUM \<Longrightarrow> v \<noteq> u \<Longrightarrow> adv_slot (sy_app t) v = adv_slot (sy_app s) v"
      "scan_slot (sy_app t) = scan_slot (sy_app s)" "conn_slot (sy_app t) = conn_slot (sy_app s)" for v
    using put old by (simp_all add: t_def adv_new_def)
  have sent: "sy_sent t = remove1 c (sy_sent s)" and mode: "sy_mode t = sy_mode s" by (simp_all add: t_def adv_new_def)
  have at_rest: "scan_at_rest (sy_app t) (sy_sent t)" "conn_at_rest (sy_app t) (sy_sent t)"
    using rest(2,3) act slots(2,3) k by (simp_all add: scan_at_rest_def conn_at_rest_def sent owing_take_off) (simp_all add: t_def adv_new_def)
  have flags: "ae_need_restart_adv (sy_app t) = ae_need_restart_adv (sy_app s)" "ae_advParam (sy_app t) = ae_advParam (sy_app s)"
      "ae_need_set_white_list (sy_app t) = ae_need_set_white_list (sy_app s)" "ae_need_add_resolving (sy_app t) = ae_need_add_resolving (sy_app s)"
      "ae_adding_resolving (sy_app t) = ae_adding_resolving (sy_app s)" "ae_init_param (sy_app t) = ae_init_param (sy_app s)"
      "length (ae_context (sy_app t)) = length (ae_context (sy_app s))"
      "ae_adv_actv_idx (sy_app t) = (ae_adv_actv_idx (sy_app s))[u := idx]"
    by (simp_all add: t_def adv_new_def u_def)
  show "sys_inv r (put_state idx st (ke_msg_send d t))" if d: "adv_preparing st" "cmd_idx d = Some idx" "d \<noteq> G_stop idx"
  proof -
    have "sys_wf None (put_state idx st (ke_msg_send d t)) \<and>
        core r BLE_ACTV_ACTION_STARTING_ADV (bm_op_actv_idx (sy_mode s)) (put_state idx st (ke_msg_send d t))"
      using prepare_core [OF wt, of r st d] d f slots at_rest rest act u valid own flags sent
      by (auto simp: scan_phase_def conn_phase_def list_phase_def u_def)
    then show ?thesis using i act by (simp add: sys_inv_def mode)
  qed
qed

lemma adv_created_inv:
  assumes i: "sys_inv r s" and c: "c \<in> set (sy_sent s)" "is_create_adv c"
    and idx: "unat idx < BLE_ACTIVITY_MAX" "actv_state_at (sy_app s) idx = APP_ACTV_STATE_IDLE"
  shows "returns (created e APP_ADV_STATE_CREATING idx (store_adv_idx idx) (take_off c s)) (sys_inv r)"
proof -
  let ?t = "adv_new idx (take_off c s)"
  note u = adv_new_step(1) [OF i c idx] and go = adv_new_step(2) [OF i c idx]
  have len: "length (ae_state (sy_app s)) = BLE_ACTIVITY_MAX" using i state_length by (auto simp: sys_inv_def)
  have at: "actv_state_at (sy_app ?t) idx = APP_ADV_STATE_CREATING" using len idx(1) by (simp add: adv_new_def)
  have p: "param_ok (ae_advParam (sy_app ?t))" using i by (simp add: adv_new_def sys_inv_def core_def)
  have "returns (appm_actv_fsm_next e idx True ?t) (sys_inv r)"
    using idx(1) go by (auto simp: appm_actv_fsm_next_def at set_adv_data_returns [OF p] appm_kick_off_advertising_def Let_def
        adv_preparing_def actv_transition_def clear_update_commute)
  then show ?thesis
    using u idx by (intro created_returns)
      (simp_all add: actv_transition_def store_adv_idx_def adv_user_idx_def adv_new_def, simp add: actv_state_at_def)
qed

section \<open>Scanning\<close>

definition scan_new :: "u8 \<Rightarrow> ble_sys \<Rightarrow> ble_sys" where
  "scan_new idx s = put_state idx APP_SCAN_STATE_CREATING (upd_app (\<lambda>a. a\<lparr>ae_scan_actv_idx := idx\<rparr>) s)"

lemma scan_created_inv:
  assumes i: "sys_inv r s" and c: "c \<in> set (sy_sent s)" "is_create_scan c"
    and idx: "unat idx < BLE_ACTIVITY_MAX" "actv_state_at (sy_app s) idx = APP_ACTV_STATE_IDLE"
  shows "returns (created e APP_SCAN_STATE_CREATING idx (\<lambda>s. Inr (upd_app (\<lambda>a. a\<lparr>ae_scan_actv_idx := idx\<rparr>) s)) (take_off c s)) (sys_inv r)"
proof -
  let ?t1 = "upd_app (\<lambda>a. a\<lparr>ae_scan_actv_idx := idx\<rparr>) (take_off c s)" let ?t = "scan_new idx (take_off c s)"
  note k = create_kinds(2) [OF c(2)]
  have w: "sys_wf None s" and core: "core r (bm_actv_action (sy_mode s)) (bm_op_actv_idx (sy_mode s)) s"
    using i by (simp_all add: sys_inv_def)
  note rest = core_parts [OF core] and ow = owing_remove_Suc [where P = is_create_scan, OF c]
  have act: "bm_actv_action (sy_mode s) = BLE_ACTV_ACTION_STARTING_SCAN" using rest(2) ow by (auto simp: scan_at_rest_def)
  have f: "owing is_create_scan (remove1 c (sy_sent s)) = 0" "\<not> ae_need_restart_scan (sy_app s)" "scan_slot (sy_app s) = APP_ACTV_STATE_IDLE"
    using core act ow by (auto simp: core_def scan_phase_def)
  have free: "ae_scan_actv_idx (sy_app s) = INVALID_BLE_ACTIVITY_INDEX" using f(3) idle_slots(2) [OF w] by simp
  have w1: "sys_wf (Some idx) ?t1"
    using wf_scan_added(1) [OF w [unfolded free] idx(1)] idx(2) k by (simp add: actv_state_at_def)
  have valid: "idx \<noteq> INVALID_BLE_ACTIVITY_INDEX" using index_valid [OF idx(1)] .
  have wt: "sys_wf (Some idx) ?t" using wf_hole_put [OF w1] by (simp add: scan_new_def)
  note put = put_scan [OF w1 _ valid, where st = APP_SCAN_STATE_CREATING]
  have slots: "v < BLE_ADV_ACTIVITY_USER_NUM \<Longrightarrow> adv_slot (sy_app ?t) v = adv_slot (sy_app s) v"
      "conn_slot (sy_app ?t) = conn_slot (sy_app s)" for v
    using put by (simp_all add: scan_new_def)
  have at_rest: "adv_at_rest (sy_app ?t) (sy_sent ?t)" "conn_at_rest (sy_app ?t) (sy_sent ?t)"
    using rest(1,3) act slots k by (simp_all add: adv_at_rest_def conn_at_rest_def owing_take_off scan_new_def)
  have step: "sys_inv r (put_state idx APP_SCAN_STATE_STARTING (ke_msg_send d ?t))" if d: "cmd_idx d = Some idx" "d \<noteq> G_stop idx" for d
  proof -
    have "sys_wf None (put_state idx APP_SCAN_STATE_STARTING (ke_msg_send d ?t)) \<and>
        core r BLE_ACTV_ACTION_STARTING_SCAN (bm_op_actv_idx (sy_mode s)) (put_state idx APP_SCAN_STATE_STARTING (ke_msg_send d ?t))"
      using scan_step_core [OF wt, of r d] d f at_rest rest act valid by (auto simp: list_phase_def scan_new_def)
    then show ?thesis using i act by (simp add: sys_inv_def scan_new_def)
  qed
  have at: "actv_state_at (sy_app ?t) idx = APP_SCAN_STATE_CREATING" using state_length [OF w] idx(1) by (simp add: scan_new_def)
  have own: "ae_scan_actv_idx (sy_app ?t) = idx" by (simp add: scan_new_def)
  have "returns (appm_actv_fsm_next e idx True ?t) (sys_inv r)"
    using idx(1) step by (simp add: appm_actv_fsm_next_def at appm_kick_off_scanning_def Let_def own actv_transition_def)
  then show ?thesis
    using idx by (intro created_returns)
      (simp_all add: actv_transition_def scan_new_def, simp add: actv_state_at_def)
qed

section \<open>Connecting\<close>

definition conn_new :: "u8 \<Rightarrow> ble_sys \<Rightarrow> ble_sys" where
  "conn_new idx s = put_state idx APP_CONNECT_STATE_CREATING (upd_app (\<lambda>a. a\<lparr>ae_connect_actv_idx := idx\<rparr>) s)"

lemma conn_created_inv:
  assumes i: "sys_inv r s" and c: "c \<in> set (sy_sent s)" "is_create_init c"
    and idx: "unat idx < BLE_ACTIVITY_MAX" "actv_state_at (sy_app s) idx = APP_ACTV_STATE_IDLE"
  shows "returns (created e APP_CONNECT_STATE_CREATING idx (\<lambda>s. Inr (upd_app (\<lambda>a. a\<lparr>ae_connect_actv_idx := idx\<rparr>) s)) (take_off c s)) (sys_inv r)"
proof -
  let ?t1 = "upd_app (\<lambda>a. a\<lparr>ae_connect_actv_idx := idx\<rparr>) (take_off c s)" let ?t = "conn_new idx (take_off c s)"
  note k = create_kinds(3) [OF c(2)]
  have w: "sys_wf None s" and core: "core r (bm_actv_action (sy_mode s)) (bm_op_actv_idx (sy_mode s)) s"
    using i by (simp_all add: sys_inv_def)
  note rest = core_parts [OF core] and ow = owing_remove_Suc [where P = is_create_init, OF c]
  have act: "bm_actv_action (sy_mode s) = BLE_ACTV_ACTION_CONNECTING" using rest(3) ow by (auto simp: conn_at_rest_def)
  have f: "owing is_create_init (remove1 c (sy_sent s)) = 0" "\<not> ae_need_restart_connect (sy_app s)" "conn_slot (sy_app s) = APP_ACTV_STATE_IDLE"
    using core act ow by (auto simp: core_def conn_phase_def)
  have free: "ae_connect_actv_idx (sy_app s) = INVALID_BLE_ACTIVITY_INDEX" using f(3) idle_slots(3) [OF w] by simp
  have w1: "sys_wf (Some idx) ?t1"
    using wf_connect_added(1) [OF w [unfolded free] idx(1)] idx(2) k by (simp add: actv_state_at_def)
  have valid: "idx \<noteq> INVALID_BLE_ACTIVITY_INDEX" using index_valid [OF idx(1)] .
  have wt: "sys_wf (Some idx) ?t" using wf_hole_put [OF w1] by (simp add: conn_new_def)
  note put = put_connect [OF w1 _ valid]
  have own: "owner (ae_adv_actv_idx (sy_app ?t)) (ae_scan_actv_idx (sy_app ?t)) (ae_connect_actv_idx (sy_app ?t)) idx = K_connect"
    using owner_connect [OF wt] valid by (simp add: conn_new_def)
  have step: "sys_inv r (put_state idx APP_CONNECT_STATE_STARTING (ke_msg_send d ?t))"
    if d: "cmd_idx d = Some idx" "\<not> is_create_adv d" "\<not> is_create_scan d" "\<not> is_create_init d" for d
  proof -
    let ?n = "put_state idx APP_CONNECT_STATE_STARTING (ke_msg_send d ?t)"
    have wn: "sys_wf None ?n" using own d by (intro sys_wf_sent [OF wt]) simp_all
    have slots: "v < BLE_ADV_ACTIVITY_USER_NUM \<Longrightarrow> adv_slot (sy_app ?n) v = adv_slot (sy_app s) v"
        "scan_slot (sy_app ?n) = scan_slot (sy_app s)" "conn_slot (sy_app ?n) = APP_CONNECT_STATE_STARTING" for v
    proof -
      have eq: "sy_app ?n = sy_app (put_state idx APP_CONNECT_STATE_STARTING ?t1)"
        by (simp add: conn_new_def put_state_def ke_msg_send_def upd_app_def)
      show "v < BLE_ADV_ACTIVITY_USER_NUM \<Longrightarrow> adv_slot (sy_app ?n) v = adv_slot (sy_app s) v"
        "scan_slot (sy_app ?n) = scan_slot (sy_app s)" "conn_slot (sy_app ?n) = APP_CONNECT_STATE_STARTING"
        unfolding eq using put by simp_all
    qed
    have "adv_at_rest (sy_app ?n) (sy_sent ?n)" "scan_at_rest (sy_app ?n) (sy_sent ?n)"
      using rest(1,2) act slots k d by (simp_all add: adv_at_rest_def scan_at_rest_def owing_take_off conn_new_def)
    moreover have "conn_phase BLE_ACTV_ACTION_CONNECTING (sy_app ?n) (sy_sent ?n)"
      using slots(3) f d by (simp add: conn_phase_def conn_new_def)
    moreover have "list_phase r BLE_ACTV_ACTION_CONNECTING (sy_app ?n) (sy_sent ?n)"
      using rest act by (simp add: list_phase_def conn_new_def)
    ultimately have "core r BLE_ACTV_ACTION_CONNECTING (bm_op_actv_idx (sy_mode s)) ?n"
      using rest by (simp add: core_def adv_phase_def scan_phase_def conn_new_def)
    then show ?thesis using i act wn by (simp add: sys_inv_def conn_new_def)
  qed
  have at: "actv_state_at (sy_app ?t) idx = APP_CONNECT_STATE_CREATING" using state_length [OF w] idx(1) by (simp add: conn_new_def)
  have idx': "ae_connect_actv_idx (sy_app ?t) = idx" by (simp add: conn_new_def)
  have "returns (appm_actv_fsm_next e idx True ?t) (sys_inv r)"
    using idx(1) step by (simp add: appm_actv_fsm_next_def at appm_kick_off_connecting_def Let_def idx' actv_transition_def)
  then show ?thesis
    using idx by (intro created_returns)
      (simp_all add: actv_transition_def conn_new_def, simp add: actv_state_at_def)
qed

end
