(* ===== verification/BleActvHost.thy ===== *)
theory BleActvHost
  imports BleActvNew
begin

text \<open>What the host tells apart from the answers for activities: lists that are set, activities that have stopped by themselves,
  connections that come and go. Each event returns and keeps the invariant.\<close>

section \<open>The scheduler's part\<close>

lemma sys_inv_mode:
  assumes "sys_inv r s" "ble_inv m" "requests_sound r m" "bm_actv_action m = bm_actv_action (sy_mode s)"
    "bm_op_actv_idx m = bm_op_actv_idx (sy_mode s)"
  shows "sys_inv r (upd_mode (\<lambda>_. m) s)"
  using assms by (simp add: sys_inv_def core_def)

lemma refresh_sys_inv: "sys_inv r s \<Longrightarrow> sys_inv r (upd_mode app_ble_refresh_adv_state s)"
  using sys_inv_mode [of r s "app_ble_refresh_adv_state (sy_mode s)"]
  by (simp add: upd_mode_def sys_inv_def refresh_inv refresh_sound)

section \<open>The lists\<close>

lemma core_taken_off:
  assumes c: "core r act op s" and k: "is_set_wl d \<and> act \<noteq> BLE_ACTV_ACTION_SET_WHITE_LIST \<or> is_set_ral d"
  shows "core r act op (take_off d s)"
proof -
  have k': "cmd_idx d = None" "\<not> is_create_adv d" "\<not> is_create_scan d" "\<not> is_create_init d" "\<not> is_disconnect d"
    using k by (cases d; simp)+
  have "G_stop (ae_connect_actv_idx (sy_app s)) \<in> set (remove1 d (sy_sent s))"
    if "G_stop (ae_connect_actv_idx (sy_app s)) \<in> set (sy_sent s)"
    using k'(1) that by (simp add: stop_take_off)
  moreover have "is_set_ral d \<Longrightarrow> \<not> is_set_wl d" by (cases d) simp_all
  ultimately show ?thesis
    using k k' core_sent [OF c, of "remove1 d (sy_sent s)"] by (auto simp: take_off_def owing_take_off set_remove1_subset)
qed

text \<open>The flags of the lists are cleared.\<close>

lemma core_flags:
  assumes "core r act op s" "f = (\<lambda>a. a\<lparr>ae_need_set_white_list := False, ae_setting_white_list := False\<rparr>) \<and> act \<noteq> BLE_ACTV_ACTION_SET_WHITE_LIST \<or>
      f = (\<lambda>a. a\<lparr>ae_need_add_resolving := False, ae_adding_resolving := False\<rparr>)"
  shows "core r act op (upd_app f s)"
proof -
  let ?a = "f (sy_app s)"
  have slots: "adv_slot ?a = adv_slot (sy_app s)" "scan_slot ?a = scan_slot (sy_app s)" "conn_slot ?a = conn_slot (sy_app s)"
    using assms(2) by auto
  moreover have flags: "ae_need_restart_adv ?a = ae_need_restart_adv (sy_app s)" "ae_advParam ?a = ae_advParam (sy_app s)"
      "ae_adv_actv_idx ?a = ae_adv_actv_idx (sy_app s)" "ae_need_restart_scan ?a = ae_need_restart_scan (sy_app s)"
      "ae_need_restart_connect ?a = ae_need_restart_connect (sy_app s)" "ae_connect_actv_idx ?a = ae_connect_actv_idx (sy_app s)"
      "ae_init_param ?a = ae_init_param (sy_app s)" "ae_context ?a = ae_context (sy_app s)"
    using assms(2) by auto
  ultimately have "going ?a (sy_sent s) = going (sy_app s) (sy_sent s)" by (simp add: going_def conn_down_def)
  then have "list_phase r act ?a (sy_sent s)" using assms by (auto simp: core_def list_phase_def)
  then show ?thesis
    using assms(1) adv_frame(1) [of ?a "sy_app s" "sy_sent s" "sy_sent s"] scan_frame(1) [of ?a "sy_app s" "sy_sent s" "sy_sent s"]
      conn_frame(1) [of ?a "sy_app s" "sy_sent s" "sy_sent s"] slots flags
    by (simp add: core_def)
qed

lemma white_list_complete_inv:
  assumes i: "sys_inv r s"
  shows "sys_inv r (white_list_complete (take_off (G_set_wl w) s))"
proof -
  let ?t = "upd_app (\<lambda>a. a\<lparr>ae_need_set_white_list := False, ae_setting_white_list := False\<rparr>) (take_off (G_set_wl w) s)"
  let ?act = "bm_actv_action (sy_mode s)" let ?op = "bm_op_actv_idx (sy_mode s)"
  have core: "core r ?act ?op s" using i by (simp add: sys_inv_def)
  note p = core_parts [OF core]
  have "sys_inv r (ended BLE_ACTV_ACTION_SET_WHITE_LIST 0xff ?t)"
  proof (rule ended_inv)
    show "core r (bm_actv_action (sy_mode ?t)) (bm_op_actv_idx (sy_mode ?t)) ?t \<or>
        bm_actv_action (sy_mode ?t) = BLE_ACTV_ACTION_SET_WHITE_LIST \<and>
        (BLE_ACTV_ACTION_SET_WHITE_LIST = BLE_ACTV_ACTION_STOPPING_ADV \<longrightarrow> bm_op_actv_idx (sy_mode ?t) = 0xff)"
      using core_flags [OF core_taken_off [OF core, of "G_set_wl w"]] by auto
    assume "bm_actv_action (sy_mode ?t) = BLE_ACTV_ACTION_SET_WHITE_LIST"
    then show "core r BLE_ACTV_ACTION_IDLE 0xff ?t"
      using p unfolding core_rest by (simp add: adv_at_rest_def scan_at_rest_def conn_at_rest_def owing_take_off)
  qed (use i in \<open>auto simp: sys_inv_def\<close>)
  moreover have "white_list_complete (take_off (G_set_wl w) s) =
      upd_mode app_ble_refresh_adv_state (ended BLE_ACTV_ACTION_SET_WHITE_LIST 0xff ?t)"
    by (simp add: white_list_complete_def ended_def upd_mode_def app_ble_set_white_list_complete_def)
  ultimately show ?thesis by (simp add: refresh_sys_inv)
qed

lemma resolving_list_complete_inv:
  assumes i: "sys_inv r s"
  shows "sys_inv r (resolving_list_complete (take_off (G_set_ral n) s))"
proof -
  let ?t = "upd_app (\<lambda>a. a\<lparr>ae_need_add_resolving := False, ae_adding_resolving := False\<rparr>) (take_off (G_set_ral n) s)"
  have core: "core r (bm_actv_action (sy_mode s)) (bm_op_actv_idx (sy_mode s)) s" using i by (simp add: sys_inv_def)
  note p = core_parts [OF core]
  have "sys_inv r (ended BLE_ACTV_ACTION_ADD_RESLO_LIST 0xff ?t)"
  proof (rule ended_inv)
    show "core r (bm_actv_action (sy_mode ?t)) (bm_op_actv_idx (sy_mode ?t)) ?t \<or>
        bm_actv_action (sy_mode ?t) = BLE_ACTV_ACTION_ADD_RESLO_LIST \<and>
        (BLE_ACTV_ACTION_ADD_RESLO_LIST = BLE_ACTV_ACTION_STOPPING_ADV \<longrightarrow> bm_op_actv_idx (sy_mode ?t) = 0xff)"
      using core_flags [OF core_taken_off [OF core, of "G_set_ral n"]] by auto
    assume "bm_actv_action (sy_mode ?t) = BLE_ACTV_ACTION_ADD_RESLO_LIST"
    then show "core r BLE_ACTV_ACTION_IDLE 0xff ?t"
      using p unfolding core_rest by (simp add: adv_at_rest_def scan_at_rest_def conn_at_rest_def owing_take_off)
  qed (use i in \<open>auto simp: sys_inv_def\<close>)
  moreover have "resolving_list_complete (take_off (G_set_ral n) s) =
      upd_mode app_ble_refresh_adv_state (ended BLE_ACTV_ACTION_ADD_RESLO_LIST 0xff ?t)"
    by (simp add: resolving_list_complete_def ended_def upd_mode_def app_ble_set_resolving_list_complete_def)
  ultimately show ?thesis by (simp add: refresh_sys_inv)
qed

section \<open>An activity stops by itself\<close>

lemma put_put [simp]: "put_state idx y (put_state idx x s) = put_state idx y s"
  by (simp add: put_state_def upd_app_def)

lemma stopped_step:
  assumes w: "sys_wf None s" and b: "unat idx < BLE_ACTIVITY_MAX" and x: "actv_transition (actv_state_at (sy_app s) idx) x"
    and y: "actv_transition x y" and fsm: "\<And>t. actv_state_at (sy_app t) idx = x \<Longrightarrow> ae_adv_actv_idx (sy_app t) = ae_adv_actv_idx (sy_app s) \<Longrightarrow>
        ae_scan_actv_idx (sy_app t) = ae_scan_actv_idx (sy_app s) \<Longrightarrow> ae_connect_actv_idx (sy_app t) = ae_connect_actv_idx (sy_app s) \<Longrightarrow>
        appm_actv_fsm_next e idx True t = go_deleting idx y t"
    and P: "P (put_state idx y (ke_msg_send (G_delete idx) s))"
  shows "returns (bindE (appm_update_actv_state idx x s) (appm_actv_fsm_next e idx True)) P"
proof -
  have at: "actv_state_at (sy_app (put_state idx x s)) idx = x" using state_length [OF w] b by simp
  show ?thesis using b x y P at by (simp add: fsm [OF at] go_deleting_def appm_delete_activity_def)
qed

lemma conn_down_core:
  assumes i: "sys_inv r s" and st: "conn_slot (sy_app s) = APP_CONNECT_STATE_STARTED" and idx: "ae_connect_actv_idx (sy_app s) = idx"
  defines "t \<equiv> put_state idx APP_CONNECT_STATE_DELETING (ke_msg_send (G_delete idx) (take_off_all (G_stop idx) s))"
  shows "sys_inv r t"
proof -
  have w: "sys_wf None s" and core: "core r (bm_actv_action (sy_mode s)) (bm_op_actv_idx (sy_mode s)) s"
    using i by (simp_all add: sys_inv_def)
  have valid: "idx \<noteq> INVALID_BLE_ACTIVITY_INDEX" using idle_slots(3) [OF w] st idx by auto
  have b: "unat idx < BLE_ACTIVITY_MAX" and at: "actv_state_at (sy_app s) idx = APP_CONNECT_STATE_STARTED"
    using conn_activity(1,2) [OF w] idx valid st by auto
  have gone: "cmds j (filter (\<lambda>d. d \<noteq> G_stop idx) S) = filter (\<lambda>d. d \<noteq> G_stop idx) (cmds j S)" for j S
    by (simp add: cmds_def conj_commute)
  have other: "filter (\<lambda>d. d \<noteq> G_stop idx) (cmds j S) = cmds j S" if "j \<noteq> idx" for j S
    unfolding cmds_def filter_filter using that by (intro filter_cong) auto
  have "set (cmds idx (sy_sent s)) \<subseteq> {G_stop idx}" using wf_owed [OF w _ b] at by (simp add: actv_state_at_def)
  then have "cmds idx (filter (\<lambda>d. d \<noteq> G_stop idx) (sy_sent s)) = []" by (auto simp: gone filter_empty_conv)
  moreover have "cmds j (filter (\<lambda>d. d \<noteq> G_stop idx) (sy_sent s)) = cmds j (sy_sent s)" if "j \<noteq> idx" for j
    using other [OF that] by (simp add: gone)
  ultimately have hole: "sys_wf (Some idx) (take_off_all (G_stop idx) s)"
    using w b unfolding actv_wf_def take_off_fields by (metis option.distinct(1) option.inject not_less)
  have wt: "sys_wf None t"
    unfolding t_def using owner_connect [OF w] idx valid by (intro sys_wf_sent [OF hole]) simp_all
  have slots: "v < BLE_ADV_ACTIVITY_USER_NUM \<Longrightarrow> adv_slot (sy_app t) v = adv_slot (sy_app s) v"
      "scan_slot (sy_app t) = scan_slot (sy_app s)" "conn_slot (sy_app t) = APP_CONNECT_STATE_DELETING" for v
    using put_connect [OF w idx valid, where st = APP_CONNECT_STATE_DELETING] unfolding t_def by (simp_all add: put_state_def)
  have ow: "owing P (filter (\<lambda>d. d \<noteq> G_stop idx) S) = owing P S" if "\<not> P (G_stop idx)" for P S
    using that by (induction S) (auto simp: owing_def)
  have down: "conn_down (sy_app t) (sy_sent t)" by (simp add: conn_down_def slots)
  then have "going (sy_app t) (sy_sent t)" by (simp add: going_def)
  then have "list_phase r (bm_actv_action (sy_mode s)) (sy_app t) (sy_sent t)"
    using core by (auto simp: core_def list_phase_def t_def ow)
  moreover have "conn_phase (bm_actv_action (sy_mode s)) (sy_app t) (sy_sent t)"
    using core st down slots(3) by (auto simp: core_def conn_phase_def conn_at_rest_def ow t_def)
  moreover have "adv_phase (bm_actv_action (sy_mode s)) (bm_op_actv_idx (sy_mode s)) (sy_app t) (sy_sent t)"
    using core adv_frame(1) [of "sy_app t" "sy_app s" "sy_sent t" "sy_sent s", OF slots(1)] by (simp add: core_def t_def ow)
  moreover have "scan_phase (bm_actv_action (sy_mode s)) (sy_app t) (sy_sent t)"
    using core scan_frame(1) [OF slots(2), of "sy_sent t" "sy_sent s"] by (simp add: core_def t_def ow)
  ultimately show ?thesis using i wt core by (simp add: sys_inv_def core_def t_def)
qed

lemma stopped_event_inv:
  assumes i: "sys_inv r s" and b: "unat idx < BLE_ACTIVITY_MAX"
  shows "returns (sys_exec (Stopped e idx) s) (sys_inv r)"
proof -
  let ?st = "actv_state_at (sy_app s) idx"
  have w: "sys_wf None s" and core: "core r (bm_actv_action (sy_mode s)) (bm_op_actv_idx (sy_mode s)) s"
    using i by (simp_all add: sys_inv_def)
  have valid: "idx \<noteq> INVALID_BLE_ACTIVITY_INDEX" using index_valid [OF b] .
  have own: "kind_of ?st = owner (ae_adv_actv_idx (sy_app s)) (ae_scan_actv_idx (sy_app s)) (ae_connect_actv_idx (sy_app s)) idx"
    using wf_owed [OF w _ b] by (simp add: actv_state_at_def)
  consider (advs) "?st = APP_ADV_STATE_STARTED" | (scan) "?st = APP_SCAN_STATE_STARTED" | (conn) "?st = APP_CONNECT_STATE_STARTED"
    | (none) "?st \<notin> {APP_ADV_STATE_STARTED, APP_SCAN_STATE_STARTED, APP_CONNECT_STATE_STARTED}" by blast
  then show ?thesis
  proof cases
    case advs
    then have mem: "idx \<in> set (ae_adv_actv_idx (sy_app s))" using own by (simp add: owner_def split: if_splits)
    then obtain v where v: "v < BLE_ADV_ACTIVITY_USER_NUM" "ae_adv_actv_idx (sy_app s) ! v = idx"
      using w by (auto simp: in_set_conv_nth actv_wf_def slots_ok_def)
    have slot: "adv_slot (sy_app s) v = APP_ADV_STATE_STARTED" using adv_activity(2) [OF w v(1)] v(2) valid advs by simp
    have "sys_inv r (put_state idx APP_ADV_STATE_DELETING (ke_msg_send (G_delete idx) s))"
      using adv_down_core(1,2) [OF adv_hole [OF w v(1) slot, unfolded v(2)] v valid _ _ _ core, of APP_ADV_STATE_DELETING "G_delete idx"] slot i
      by (simp add: sys_inv_def adv_down_def)
    then have "returns (bindE (appm_update_actv_state idx APP_ADV_STATE_STOPPING s) (appm_actv_fsm_next e idx True)) (sys_inv r)"
      using advs mem b by (intro stopped_step [OF w b, where y = APP_ADV_STATE_DELETING])
        (simp_all add: actv_transition_def appm_actv_fsm_next_def appm_check_adv_activity_index_def)
    then show ?thesis using advs b by (simp add: gapm_activity_stopped_ind_handler_def)
  next
    case scan
    then have idx: "ae_scan_actv_idx (sy_app s) = idx" using own by (simp add: owner_def split: if_splits)
    have slot: "scan_slot (sy_app s) = APP_SCAN_STATE_STARTED" using scan_activity(2) [OF w] idx valid scan by simp
    have hole: "sys_wf (Some idx) s" using scan_hole [OF w slot] idx by simp
    have "sys_inv r (put_state idx APP_SCAN_STATE_DELETING (ke_msg_send (G_delete idx) s))"
      using scan_down_core(1,2) [OF hole idx valid _ _ _ core, of APP_SCAN_STATE_DELETING "G_delete idx"] slot i
      by (simp add: sys_inv_def scan_down_def)
    then have "returns (bindE (appm_update_actv_state idx APP_SCAN_STATE_STOPPING s) (appm_actv_fsm_next e idx True)) (sys_inv r)"
      using scan idx b by (intro stopped_step [OF w b, where y = APP_SCAN_STATE_DELETING])
        (simp_all add: actv_transition_def appm_actv_fsm_next_def)
    then show ?thesis using scan b by (simp add: gapm_activity_stopped_ind_handler_def)
  next
    case conn
    then have idx: "ae_connect_actv_idx (sy_app s) = idx" using own by (simp add: owner_def split: if_splits)
    have slot: "conn_slot (sy_app s) = APP_CONNECT_STATE_STARTED" using conn_activity(2) [OF w] idx valid conn by simp
    let ?s = "take_off_all (G_stop idx) s"
    have len: "length (ae_state (sy_app s)) = BLE_ACTIVITY_MAX" using w state_length by blast
    have at: "actv_state_at (sy_app (put_state idx APP_CONNECT_STATE_STOPPING ?s)) idx = APP_CONNECT_STATE_STOPPING"
      using len b by (simp add: actv_state_at_def)
    have "returns (bindE (appm_update_actv_state idx APP_CONNECT_STATE_STOPPING ?s) (appm_actv_fsm_next e idx True)) (sys_inv r)"
      using conn_down_core [OF i slot idx] conn b idx at
      by (simp add: appm_actv_fsm_next_def go_deleting_def appm_delete_activity_def actv_transition_def)
    then show ?thesis using conn b by (simp add: gapm_activity_stopped_ind_handler_def)
  next
    case none
    then show ?thesis using i b by (simp add: gapm_activity_stopped_ind_handler_def)
  qed
qed

section \<open>Connections\<close>

lemma core_context:
  assumes "core r act op s" "length cx = BLE_CONNECTION_MAX"
  shows "core r act op (upd_app (\<lambda>a. a\<lparr>ae_context := cx\<rparr>) s)"
proof -
  let ?a = "(sy_app s)\<lparr>ae_context := cx\<rparr>"
  have "going ?a (sy_sent s) = going (sy_app s) (sy_sent s)" by (simp add: going_def conn_down_def)
  then have "list_phase r act ?a (sy_sent s)" using assms by (simp add: core_def list_phase_def)
  then show ?thesis
    using assms adv_frame(1) [of ?a "sy_app s" "sy_sent s" "sy_sent s"] scan_frame(1) [of ?a "sy_app s" "sy_sent s" "sy_sent s"]
      conn_frame(1) [of ?a "sy_app s" "sy_sent s" "sy_sent s"] by (simp add: core_def)
qed

lemma context_inv:
  assumes "sys_inv r s" "\<And>l. length (g l) = length l"
  shows "sys_inv r (upd_app (\<lambda>a. a\<lparr>ae_context := g (ae_context a)\<rparr>) s)"
proof -
  have eq: "upd_app (\<lambda>a. a\<lparr>ae_context := g (ae_context a)\<rparr>) s = upd_app (\<lambda>a. a\<lparr>ae_context := g (ae_context (sy_app s))\<rparr>) s"
    by (simp add: upd_app_def)
  have "length (g (ae_context (sy_app s))) = BLE_CONNECTION_MAX" using assms by (simp add: sys_inv_def core_def)
  then show ?thesis unfolding eq using assms(1) by (simp add: sys_inv_def core_context)
qed

lemma status_inv: "sys_inv r s \<Longrightarrow> sys_inv r (upd_app (set_status i st) s)"
  using context_inv [of r s "\<lambda>l. l[i := (l ! i)\<lparr>cx_status := st\<rparr>]"] by (simp add: set_status_def [abs_def])

lemma address_inv: "sys_inv r s \<Longrightarrow> sys_inv r (upd_app (\<lambda>a. a\<lparr>ae_context := (ae_context a)[i := (ae_context a ! i)\<lparr>cx_bdAddr := addr\<rparr>]\<rparr>) s)"
  using context_inv [of r s "\<lambda>l. l[i := (l ! i)\<lparr>cx_bdAddr := addr\<rparr>]"] by simp

lemma start_disconnect_returns:
  assumes "ble_inv m" "requests_sound r m" "i < BLE_CONNECTION_MAX"
  shows "returns (app_ble_start_disconnect i m) (\<lambda>m'. ble_inv m' \<and> requests_sound r m' \<and>
           bm_actv_action m' = bm_actv_action m \<and> bm_op_actv_idx m' = bm_op_actv_idx m)"
proof -
  have "i < length (bm_pendingDisconnect m)" using assms(1,3) by (simp add: ble_inv_def sizes_ok_def)
  then obtain m' where m': "app_ble_start_disconnect i m = Inr m'"
    by (cases "bm_is_busy m") (auto simp: app_ble_start_disconnect_def)
  have "requests_sound r m' \<and> bm_actv_action m' = bm_actv_action m \<and> bm_op_actv_idx m' = bm_op_actv_idx m"
    using m' assms(2,3) by (auto simp: app_ble_start_disconnect_def requests_sound_def post_def split: if_splits)
  with m' disconnect_inv [OF assms(1) m'] show ?thesis by simp
qed

lemma connected_inv:
  assumes i: "sys_inv r s" and b: "i < BLE_CONNECTION_MAX"
  shows "returns (gapc_le_connection_req_ind_handler resolving i addr s) (sys_inv r)"
proof -
  let ?s1 = "upd_app (set_status i BLE_CONNECTED) s"
  have i1: "sys_inv r ?s1" using i by (rule status_inv)
  have "returns (app_ble_start_disconnect i (sy_mode ?s1)) (\<lambda>m. sys_inv r (upd_mode (\<lambda>_. m) ?s1))"
    using i1 b by (intro returns_mono [OF start_disconnect_returns [where r = r]] sys_inv_mode) (auto simp: sys_inv_def)
  moreover note address_inv [OF i1, of i addr]
  ultimately show ?thesis using b by (simp add: gapc_le_connection_req_ind_handler_def Let_def)
qed

text \<open>Devices for the resolving list: a request and a flag.\<close>

lemma add_devices_inv:
  assumes "sys_inv True s"
  shows "sys_inv True (appm_add_multiple_devices_to_resolving_list_in_controller n s)"
proof -
  let ?s1 = "upd_app (\<lambda>a. a\<lparr>ae_resolving_num := min n RESOLVING_LIST_MAX_NUM, ae_need_add_resolving := True\<rparr>) s"
  have "sys_inv True (upd_app (\<lambda>a. a\<lparr>ae_need_add_resolving := True\<rparr>) s)" by (rule add_flag_inv [OF assms])
  moreover have "core True x y ?s1 = core True x y (upd_app (\<lambda>a. a\<lparr>ae_need_add_resolving := True\<rparr>) s)" for x y
    by (simp add: core_def adv_phase_def adv_starting_def adv_at_rest_def scan_phase_def scan_at_rest_def conn_phase_def conn_at_rest_def
        conn_down_def list_phase_def going_def)
  ultimately have i: "sys_inv True ?s1" by (simp add: sys_inv_def)
  have r: "requests_sound True (app_ble_add_resloving_list k m)" if "requests_sound True m" for k m
    using that by (auto simp: requests_sound_def app_ble_add_resloving_list_def request_def post_def)
  have "sys_inv True (upd_mode (\<lambda>_. app_ble_add_resloving_list k (sy_mode ?s1)) ?s1)" for k
    using i r exec_inv [of "sy_mode ?s1" undefined "Resolving_List k"]
    by (intro sys_inv_mode) (auto simp: sys_inv_def app_ble_add_resloving_list_def request_def post_def)
  then show ?thesis
    using assms by (simp add: appm_add_multiple_devices_to_resolving_list_in_controller_def upd_mode_def)
qed

text \<open>The scheduler's action is over if it was to disconnect.\<close>

lemma filter_owing: "\<not> P c \<Longrightarrow> owing P (filter (\<lambda>d. d \<noteq> c) S) = owing P S"
  by (induction S) (auto simp: owing_def)

lemma filter_cmds: "cmd_idx c = None \<Longrightarrow> cmds i (filter (\<lambda>d. d \<noteq> c) S) = cmds i S"
  by (auto simp: cmds_def intro: filter_cong)

lemma link_lost_inv:
  assumes i: "sys_inv r s"
  shows "sys_inv r (upd_mode app_ble_disconnected_evt_handler (take_off_all (G_disconnect i) s))"
proof -
  let ?t = "take_off_all (G_disconnect i) s" let ?e = "ended BLE_ACTV_ACTION_DISCONNECTING 0xff ?t"
  have core: "core r (bm_actv_action (sy_mode s)) (bm_op_actv_idx (sy_mode s)) s" using i by (simp add: sys_inv_def)
  note p = core_parts [OF core]
  have "sys_inv r ?e"
  proof (rule ended_inv)
    show "sys_wf None ?t" using i by (simp add: sys_inv_def actv_wf_def filter_cmds)
    show "core r (bm_actv_action (sy_mode ?t)) (bm_op_actv_idx (sy_mode ?t)) ?t \<or>
        bm_actv_action (sy_mode ?t) = BLE_ACTV_ACTION_DISCONNECTING \<and>
        (BLE_ACTV_ACTION_DISCONNECTING = BLE_ACTV_ACTION_STOPPING_ADV \<longrightarrow> bm_op_actv_idx (sy_mode ?t) = 0xff)"
      using core_sent [OF core, of "filter (\<lambda>d. d \<noteq> G_disconnect i) (sy_sent s)"] by (auto simp: take_off_all_def filter_owing)
    assume "bm_actv_action (sy_mode ?t) = BLE_ACTV_ACTION_DISCONNECTING"
    then show "core r BLE_ACTV_ACTION_IDLE 0xff ?t"
      using p unfolding core_rest by (simp add: adv_at_rest_def scan_at_rest_def conn_at_rest_def filter_owing)
  qed (use i in \<open>auto simp: sys_inv_def\<close>)
  then have "sys_inv r (upd_mode (\<lambda>_. (sy_mode ?e)\<lparr>bm_isStartAdvFailbf := 0\<rparr>) ?e)"
    by (intro sys_inv_mode) (auto simp: sys_inv_def requests_sound_def)
  then show ?thesis by (simp add: ended_def upd_mode_def app_ble_disconnected_evt_handler_def)
qed

lemma disconnected_inv:
  assumes i: "sys_inv r s" and b: "i < BLE_CONNECTION_MAX" and mic: "mic \<noteq> None \<longrightarrow> r"
  shows "returns (sys_exec (Disconnected mic i) s) (sys_inv r)"
proof -
  let ?add = "\<lambda>s. case mic of None \<Rightarrow> s | Some n \<Rightarrow> appm_add_multiple_devices_to_resolving_list_in_controller n s"
  have "sys_inv r (?add s)" using i mic add_devices_inv [of s] by (cases mic) auto
  then have "sys_inv r (upd_mode app_ble_disconnected_evt_handler
      (take_off_all (G_disconnect i) (upd_app (set_status i BLE_DISCONNECTED) (?add s))))"
    by (intro link_lost_inv status_inv)
  moreover have "upd_app f (?add (take_off_all c s)) = take_off_all c (upd_app f (?add s))" for f c
    by (cases mic) (simp_all add: take_off_all_def upd_app_def upd_mode_def appm_add_multiple_devices_to_resolving_list_in_controller_def)
  ultimately show ?thesis using b by (simp add: gapc_disconnect_ind_handler_def Let_def)
qed

end
