(* ===== verification/BleActvThread.thy ===== *)
theory BleActvThread
  imports BleActvHost
begin

text \<open>Requests of the applications and the runs of the thread: a run of the scheduler's function ends with no call, or with one call to
  the activities, which returns and keeps the invariant.\<close>

section \<open>Requests\<close>

text \<open>A request changes neither the action nor what is required of the requests.\<close>

definition calm :: "bool \<Rightarrow> ble_mode \<Rightarrow> ble_mode \<Rightarrow> bool" where
  "calm r m t \<longleftrightarrow> requests_sound r t \<and> bm_actv_action t = bm_actv_action m \<and> bm_op_actv_idx t = bm_op_actv_idx m"

lemma calm_trans: "calm r m t \<Longrightarrow> calm r t u \<Longrightarrow> calm r m u"
  by (simp add: calm_def)

lemma calm_request:
  assumes "requests_sound r m" "calm r m (keep m)" "(\<exists>i. p = P_disconnect i) \<Longrightarrow> \<exists>i < BLE_CONNECTION_MAX. p = P_disconnect i"
    "p = P_add_resloving_list \<Longrightarrow> r"
  shows "calm r m (request p keep m)"
  using assms by (auto simp: calm_def request_def post_def requests_sound_def)

lemma calm_simple:
  assumes "requests_sound r m"
  shows "calm r m m" "calm r m (app_ble_refresh_adv_state m)" "calm r m (app_ble_set_all_white_list m)"
    "calm r m (app_ble_start_scan p m)" "calm r m (app_ble_stop_scan m)" "calm r m (app_ble_cancel_connecting m)"
    "r \<Longrightarrow> calm r m (app_ble_add_resloving_list n m)"
  using assms
  by (auto simp: app_ble_refresh_adv_state_def app_ble_set_all_white_list_def app_ble_start_scan_def app_ble_stop_scan_def
      app_ble_cancel_connecting_def app_ble_add_resloving_list_def request_def post_def calm_def requests_sound_def)

lemma sound_fields [simp]:
  "requests_sound r (m\<lparr>bm_advPendingType := a\<rparr>) = requests_sound r m" "requests_sound r (m\<lparr>bm_advPendingPeerAddr := b\<rparr>) = requests_sound r m"
  "requests_sound r (m\<lparr>bm_advPendingDiscmode := c\<rparr>) = requests_sound r m"
  "requests_sound r (m\<lparr>bm_adv_user_enable := en\<rparr>) = requests_sound r m" "requests_sound r (m\<lparr>bm_adv_user_register := w\<rparr>) = requests_sound r m"
  "requests_sound r (m\<lparr>bm_advPendingTxpwr := t\<rparr>) = requests_sound r m" "requests_sound r (m\<lparr>bm_advCurrentTxpwr := t\<rparr>) = requests_sound r m"
  "requests_sound r (m\<lparr>bm_advPendingLocalAddr := l\<rparr>) = requests_sound r m" "requests_sound r (m\<lparr>bm_disablerBitmap := w'\<rparr>) = requests_sound r m"
  "requests_sound r (m\<lparr>bm_ble_white_list := wl\<rparr>) = requests_sound r m" "requests_sound r (m\<lparr>bm_advParamInfo := p\<rparr>) = requests_sound r m"
  "requests_sound r (m\<lparr>bm_advCurrentInfo := ps\<rparr>) = requests_sound r m" "requests_sound r (m\<lparr>bm_scanCurrentInfo := sp\<rparr>) = requests_sound r m"
  "requests_sound r (m\<lparr>bm_pending_set_white_list := b'\<rparr>) = requests_sound r m"
  by (simp_all add: requests_sound_def)

lemma calm_txpwr: "requests_sound r m \<Longrightarrow> app_ble_set_adv_txpwr_by_actv_user e u dbm m = Inr t \<Longrightarrow> calm r m t"
  by (auto simp: app_ble_set_adv_txpwr_by_actv_user_def calm_def Let_def split: if_splits)

lemma calm_all_txpwr: "requests_sound r m \<Longrightarrow> foldM (\<lambda>u. app_ble_set_adv_txpwr_by_actv_user e u dbm) us m = Inr t \<Longrightarrow> calm r m t"
proof (induction us arbitrary: m)
  case (Cons u us)
  then obtain n where n: "app_ble_set_adv_txpwr_by_actv_user e u dbm m = Inr n"
      "foldM (\<lambda>u. app_ble_set_adv_txpwr_by_actv_user e u dbm) us n = Inr t" by auto
  then show ?case using calm_txpwr [OF Cons.prems(1)] Cons.IH [of n] by (auto simp: calm_def)
qed (simp add: calm_def)

lemma calm_disconnect: "requests_sound r m \<Longrightarrow> i < BLE_CONNECTION_MAX \<Longrightarrow> app_ble_start_disconnect i m = Inr t \<Longrightarrow> calm r m t"
  by (auto simp: app_ble_start_disconnect_def calm_def requests_sound_def post_def split: if_splits)

lemma sound_infos:
  "requests_sound r m \<Longrightarrow> (j < length (bm_bleToConnectInfo m) \<Longrightarrow> ip_own_addr_type (ii_init_param x) \<le> APP_GAPM_GEN_NON_RSLV_ADDR) \<Longrightarrow>
   requests_sound r (m\<lparr>bm_bleToConnectInfo := (bm_bleToConnectInfo m)[j := x]\<rparr>)"
  using set_update_subset_insert [of "bm_bleToConnectInfo m" j x]
  by (cases "j < length (bm_bleToConnectInfo m)") (auto simp: requests_sound_def list_update_beyond not_less)

lemma sound_forget: "requests_sound r m \<Longrightarrow>
    requests_sound r (m\<lparr>bm_bleToConnectInfo := (bm_bleToConnectInfo m)[j := (bm_bleToConnectInfo m ! j)\<lparr>ii_pendingConnect := False\<rparr>]\<rparr>)"
  by (rule sound_infos) (auto simp: requests_sound_def)

lemma calm_disconnect_all:
  assumes "requests_sound r m" "app_ble_disconnect_all m = Inr t"
  shows "calm r m t"
proof -
  let ?f = "\<lambda>i t. app_ble_start_disconnect i (t\<lparr>bm_bleToConnectInfo := (bm_bleToConnectInfo t)
    [i := (bm_bleToConnectInfo t ! i)\<lparr>ii_pendingConnect := False\<rparr>]\<rparr>)"
  have "requests_sound r m \<Longrightarrow> \<forall>i \<in> set is. i < BLE_CONNECTION_MAX \<Longrightarrow> foldM ?f is m = Inr t \<Longrightarrow> calm r m t" for "is" m
  proof (induction "is" arbitrary: m)
    case (Cons i "is")
    then obtain n where n: "?f i m = Inr n" "foldM ?f is n = Inr t" by auto
    have "calm r m n" using calm_disconnect [OF sound_forget [OF Cons.prems(1)] _ n(1)] Cons.prems(2) by (simp add: calm_def)
    then show ?case using Cons.IH [of n] Cons.prems(2) n(2) by (auto simp: calm_def)
  qed (simp add: calm_def)
  from this [of m "[0..<BLE_CONNECTION_MAX]"] assms show ?thesis by (simp add: app_ble_disconnect_all_def)
qed

lemma calm_connect:
  assumes "requests_sound r m" "own \<le> APP_GAPM_GEN_NON_RSLV_ADDR" "app_ble_start_connect_with_init_type ty peer own conn_to m = Inr t"
  shows "calm r m t"
proof -
  have "calm r m (request P_start_connect (\<lambda>t. t) (m\<lparr>bm_bleToConnectInfo := (bm_bleToConnectInfo m)[j := x]\<rparr>))"
    if "ip_own_addr_type (ii_init_param x) = own" for x j
    using calm_request [of r "m\<lparr>bm_bleToConnectInfo := (bm_bleToConnectInfo m)[j := x]\<rparr>" "\<lambda>t. t" P_start_connect]
      sound_infos [OF assms(1), of j x] assms(2) that by (auto simp: calm_def)
  with assms(1,3) show ?thesis
    by (auto simp: app_ble_start_connect_with_init_type_def Let_def calm_simple split: if_splits)
qed

lemma calm_white_list: "requests_sound r m \<Longrightarrow> app_ble_set_white_list user addrs n m = Inr t \<Longrightarrow> calm r m t"
  using calm_simple(3) by (fastforce simp: app_ble_set_white_list_def Let_def calm_def split: if_splits)

lemma calm_fill: "requests_sound r m \<Longrightarrow> \<forall>g. f = Some g \<longrightarrow> fill_sound g \<Longrightarrow> calm r m (app_ble_register_data_fill_handle user f m)"
  using set_update_subset_insert [of "bm_bleDataFillFunc m" user f]
  by (cases f) (auto simp: app_ble_register_data_fill_handle_def calm_def requests_sound_def Let_def)

lemma interval_users: "param_set_adv_interval k user v tab = Inr (b, tab') \<Longrightarrow> map fp_adv_user tab' = map fp_adv_user tab"
  by (auto simp: param_set_adv_interval_def set_interval_def Let_def map_update split: if_splits) (metis list_update_id map_update nth_map)

lemma exec_calm:
  assumes s: "requests_sound r m" and c: "sound_call r c" and x: "ble_exec e c m = Inr t"
  shows "calm r m t"
proof (cases c)
  case (Set_Adv_Type ty peer)
  with s x calm_simple(2) show ?thesis by (fastforce simp: app_ble_set_adv_type_def Let_def calm_def)
next
  case (Set_Interval k user v)
  then obtain b tab where p: "param_set_adv_interval k user v (bm_fill_param m) = Inr (b, tab)"
      "t = (if b then app_ble_refresh_adv_state (m\<lparr>bm_fill_param := tab\<rparr>) else m\<lparr>bm_fill_param := tab\<rparr>)"
    using x by (auto simp: app_ble_param_set_adv_interval_def Let_def)
  have "calm r m (m\<lparr>bm_fill_param := tab\<rparr>)" using s interval_users [OF p(1)] by (simp add: calm_def requests_sound_def)
  then show ?thesis using calm_simple(2) [of r "m\<lparr>bm_fill_param := tab\<rparr>"] p(2) by (auto simp: calm_def)
next
  case (Connect_White_List addrs n own conn_to)
  then obtain n' where n': "app_ble_set_white_list 1 addrs n m = Inr n'"
      "app_ble_start_connect_with_init_type APP_BLE_INIT_TYPE_AUTO_CONN_EST \<lparr>ba_addr = empty_addr, ba_type = 0\<rparr> own conn_to n' = Inr t"
    using x by (auto simp: app_ble_start_connect_with_white_list_def)
  have "calm r m n'" using s n'(1) by (rule calm_white_list)
  moreover from this have "calm r n' t" using calm_connect [of r n', OF _ _ n'(2)] c Connect_White_List by (simp add: calm_def [of r m n'])
  ultimately show ?thesis by (rule calm_trans)
next
  case (Resolving_List n)
  with s c x calm_simple(7) [of r m] show ?thesis by auto
next
  case (Force_Switch_Adv user b)
  with s x calm_simple(2) show ?thesis by (fastforce simp: app_ble_force_switch_adv_def calm_def split: if_splits)
next
  case (Clear_White_List user)
  with s x calm_simple(3) show ?thesis by (fastforce simp: app_ble_clear_white_list_def calm_def)
next
  case Clear_All_White_List
  with s x calm_simple(3) show ?thesis by (fastforce simp: app_ble_clear_all_white_list_def calm_def)
next
  case (Register_Fill user f)
  with s c x calm_fill [of r m f user] show ?thesis by (cases f) auto
next
  case (Set_Txpwr user dbm)
  with s x show ?thesis by (auto simp: app_ble_set_adv_txpwr_by_adv_user_def Let_def calm_simple dest: calm_txpwr split: if_splits)
next
  case (Set_Disc_Mode d)
  with s x show ?thesis by (auto simp: app_ble_set_adv_disc_mode_def calm_def)
next
  case (Fill_Enable user b)
  with s x show ?thesis by (auto simp: app_ble_data_fill_enable_def calm_def)
next
  case (Set_Local_Addr user a)
  with s x show ?thesis
    by (auto simp: app_ble_set_adv_local_addr_by_adv_user_def app_ble_set_adv_local_addr_by_actv_user_def Let_def calm_def split: if_splits)
qed (use s c x in \<open>auto simp: app_ble_set_all_adv_txpwr_def calm_simple
    dest: calm_all_txpwr calm_disconnect calm_disconnect_all calm_connect calm_white_list\<close>)

lemma request_event_inv:
  assumes "sys_inv r s" "sound_call r c" "sys_exec (Request e c) s = Inr t"
  shows "sys_inv r t"
proof -
  obtain m where m: "ble_exec (actv_view (sy_app s) e) c (sy_mode s) = Inr m" "t = upd_mode (\<lambda>_. m) s" using assms(3) by auto
  have "calm r (sy_mode s) m" using assms(1,2) m(1) by (intro exec_calm) (simp add: sys_inv_def)
  moreover have "ble_inv m" using assms(1) m(1) exec_inv by (auto simp: sys_inv_def)
  ultimately show ?thesis using assms(1) m(2) by (auto simp: calm_def intro: sys_inv_mode)
qed

section \<open>The parameters of an advertisement fit\<close>

definition rsp_fits :: "adv_param \<Rightarrow> bool" where
  "rsp_fits p \<longleftrightarrow> unat (ap_scanRspDataLen p) \<le> EXT_ADV_DATA_LEN \<and>
     (ap_advMode p = ADV_MODE_LEGACY \<longrightarrow> ap_scanRspDataLen p \<le> ADV_DATA_LEN)"

lemma fills_fit:
  assumes "foldM (fill_one tab hs) us (p, en) = Inr (q, en')" "\<forall>u \<in> set us. u < length hs"
    "\<And>f. Some f \<in> set hs \<Longrightarrow> fill_sound f" "rsp_fits p"
  shows "rsp_fits q"
  using assms
proof (induction us arbitrary: p en)
  case (Cons u us)
  obtain p1 en1 where 1: "fill_one tab hs u (p, en) = Inr (p1, en1)" "foldM (fill_one tab hs) us (p1, en1) = Inr (q, en')"
    using Cons.prems(1) by auto
  have "hs ! u \<in> set hs" using Cons.prems(2) by simp
  then have "fill_sound f" if "hs ! u = Some f" for f using Cons.prems(3) [of f] that by simp
  then have "rsp_fits p1"
    using 1(1) Cons.prems(4)
    by (auto simp: fill_one_def rsp_fits_def fill_sound_def legacy_fits_def split: if_splits option.splits prod.splits)
  then show ?case using Cons.IH [OF 1(2)] Cons.prems(2,3) by simp
qed simp

lemma table_users: "map fp_adv_user tab = map fp_adv_user ble_adv_fill_param \<Longrightarrow> u < BLE_ADV_ACTIVITY_USER_NUM \<Longrightarrow>
    \<forall>x \<in> set (fp_adv_user (tab ! u)). x < BLE_ADV_USER_NUM"
proof -
  assume t: "map fp_adv_user tab = map fp_adv_user ble_adv_fill_param" and u: "u < BLE_ADV_ACTIVITY_USER_NUM"
  have "length tab = length ble_adv_fill_param" using t by (rule map_eq_imp_length_eq)
  moreover have len: "u < length ble_adv_fill_param" using u by (simp add: ble_adv_fill_param_def BLE_ADV_ACTIVITY_USER_NUM_def)
  ultimately have "fp_adv_user (tab ! u) = fp_adv_user (ble_adv_fill_param ! u)" using t by (metis nth_map)
  moreover have "\<forall>p \<in> set ble_adv_fill_param. \<forall>x \<in> set (fp_adv_user p). x < BLE_ADV_USER_NUM"
    by (simp add: ble_adv_fill_param_def BLE_ADV_USER_NUM_def)
  ultimately show ?thesis using len by (metis nth_mem)
qed

lemma configured_ok:
  assumes "configured e u m p" "requests_sound r m" "u < BLE_ADV_ACTIVITY_USER_NUM"
  shows "param_ok p" "ap_actv_user p = u"
proof -
  obtain s0 t0 where 1: "ble_adv_config_param e u s0 = Inr t0" "bm_bleDataFillFunc s0 = bm_bleDataFillFunc m"
      "bm_fill_param s0 = bm_fill_param m" "p = (bm_advParamInfo t0)\<lparr>ap_actv_user := u\<rparr>"
    using assms(1) unfolding configured_def by blast
  obtain q en where q: "foldM (fill_one (bm_fill_param m) (bm_bleDataFillFunc m)) (fp_adv_user (bm_fill_param m ! u))
      (config_start e u s0, (bm_adv_user_enable s0)[u := 0]) = Inr (q, en)" "bm_advParamInfo t0 = config_finish e q"
    using 1(1-3) by (auto simp: ble_adv_config_param_def)
  have "rsp_fits (config_start e u s0)" by (simp add: rsp_fits_def config_start_def adv_param_zero_def)
  then have "rsp_fits q" using assms(2) table_users [OF _ assms(3)] by (intro fills_fit [OF q(1)]) (auto simp: requests_sound_def)
  then show "param_ok p" "ap_actv_user p = u"
    by (simp_all add: 1(4) q(2) config_finish_def param_ok_def rsp_fits_def legacy_fits_def ADV_DATA_LEN_def BLE_ADV_FLAG_PART_LEN_def EXT_ADV_DATA_LEN_def)
qed

section \<open>A run of the thread\<close>

definition finish :: "ble_mode \<Rightarrow> ble_mode \<Rightarrow> ble_sys \<Rightarrow> ble_sys res" where
  "finish m0 m s = foldM appm_exec (drop (length (bm_calls m0)) (bm_calls m)) (upd_mode (\<lambda>_. m) s)"

text \<open>Before the run: nothing is in progress.\<close>

definition ready :: "bool \<Rightarrow> ble_mode \<Rightarrow> ble_sys \<Rightarrow> bool" where
  "ready r m s \<longleftrightarrow> sys_wf None s \<and> core r BLE_ACTV_ACTION_IDLE 0xff s \<and> between m \<and> requests_sound r m"

lemma ready_upd [simp]:
  "ready r (m\<lparr>bm_advParamInfo := i\<rparr>) s = ready r m s" "ready r (m\<lparr>bm_adv_user_enable := en\<rparr>) s = ready r m s"
  "ready r (m\<lparr>bm_advCurrentInfo := c\<rparr>) s = ready r m s" "ready r (m\<lparr>bm_scanCurrentInfo := d\<rparr>) s = ready r m s"
  by (simp_all add: ready_def)

lemma finish_idle:
  assumes "ready r m1 s" "bm_calls m1 = bm_calls m0"
  shows "returns (finish m0 (ble_execute_pending_op BLE_ACTV_ACTION_IDLE idx m1) s) (sys_inv r)"
proof -
  have b: "between m1" and "requests_sound r m1" using assms by (auto simp: ready_def)
  then have e: "ble_execute_pending_op BLE_ACTV_ACTION_IDLE idx m1 = next_pending_op (app_ble_index_pending_to_disconnect m1) m1"
    by (simp add: execute_idle between_def)
  have "requests_sound r (next_pending_op (app_ble_index_pending_to_disconnect m1) m1)"
    using b \<open>requests_sound r m1\<close> by (intro next_sound) (simp_all add: between_def sizes_ok_def)
  moreover have "bm_actv_action m1 = BLE_ACTV_ACTION_IDLE" using b by (simp add: between_def)
  moreover have "core r BLE_ACTV_ACTION_IDLE x (upd_mode f s)" for x f using assms(1) by (simp add: ready_def core_rest)
  ultimately show ?thesis
    using assms next_inv [OF b] by (simp add: finish_def e sys_inv_def ready_def)
qed

lemma finish_call:
  assumes rd: "ready r m1 s" and calls: "bm_calls m1 = bm_calls m0" and a: "a \<noteq> BLE_ACTV_ACTION_IDLE"
    and go: "\<And>t. taken r a t \<Longrightarrow> sy_app t = sy_app s \<Longrightarrow> sy_sent t = sy_sent s \<Longrightarrow> bm_op_actv_idx (sy_mode t) = idx \<Longrightarrow> returns (appm_exec c t) (sys_inv r)"
  shows "returns (finish m0 (appm c (ble_set_actv_action a idx m1)) s) (sys_inv r)"
proof -
  let ?m = "appm c (ble_set_actv_action a idx m1)"
  have "requests_sound r ?m" using rd by (auto simp: ready_def appm_def ble_set_actv_action_def requests_sound_def)
  moreover have "ble_inv ?m" using rd a by (auto simp: ready_def called_inv)
  moreover have "core r BLE_ACTV_ACTION_IDLE 0xff (upd_mode (\<lambda>_. ?m) s)" using rd by (simp add: ready_def core_rest)
  ultimately have "taken r a (upd_mode (\<lambda>_. ?m) s)"
    using rd by (simp add: taken_def ready_def appm_def ble_set_actv_action_def)
  then have "returns (appm_exec c (upd_mode (\<lambda>_. ?m) s)) (sys_inv r)"
    by (rule go) (simp_all add: appm_def ble_set_actv_action_def)
  moreover have "drop (length (bm_calls m0)) (bm_calls ?m) = [c]" using calls by (simp add: appm_def ble_set_actv_action_def)
  ultimately show ?thesis by (simp add: finish_def)
qed

lemma finish_stop_adv:
  assumes "ready r m1 s" "bm_calls m1 = bm_calls m0" "idx = INVALID_BLE_ACTIVITY_INDEX \<or> idx \<in> set (ae_adv_actv_idx (sy_app s))"
  shows "returns (finish m0 (ble_stop_advertising idx m1) s) (sys_inv r)"
  unfolding ble_stop_advertising_def using assms
  by (intro finish_call) (simp_all add: appm_stop_adv_inv)

lemma view_started: "sys_wf None s \<Longrightarrow> u < BLE_ADV_ACTIVITY_USER_NUM \<Longrightarrow>
    adv_is_started (actv_view (sy_app s) e) u \<longleftrightarrow> adv_slot (sy_app s) u = APP_ADV_STATE_STARTED"
  using adv_activity(2) [of None s u] by (auto simp: adv_is_started_def actv_view_def adv_slot_def slot_def)

lemma finish_refresh:
  assumes rd: "ready r m1 s" and calls: "bm_calls m1 = bm_calls m0" and p: "param_ok p" "ap_actv_user p < BLE_ADV_ACTIVITY_USER_NUM"
  shows "returns (finish m0 (ble_adv_refreshing (actv_view (sy_app s) e) p m1) s) (sys_inv r)"
proof -
  let ?e = "actv_view (sy_app s) e" let ?u = "ap_actv_user p" let ?m = "m1\<lparr>bm_advCurrentInfo := (bm_advCurrentInfo m1)[?u := p]\<rparr>"
  have w: "sys_wf None s" using rd by (simp add: ready_def)
  have mem: "be_adv_actv_idx ?e ! ?u \<in> set (ae_adv_actv_idx (sy_app s))"
    using w p(2) by (simp add: actv_view_def actv_wf_def slots_ok_def)
  have cur: "ready r ?m s" "bm_calls ?m = bm_calls m0" using rd calls by simp_all
  have "returns (finish m0 (ble_start_adv ?e p m1) s) (sys_inv r)"
    using finish_stop_adv [OF rd calls] mem finish_call [OF cur, where a = BLE_ACTV_ACTION_STARTING_ADV and idx = "0xff" and c = "C_start_advertising p"]
      start_adv_inv [OF _ p] by (simp add: ble_start_adv_def set_current_def)
  moreover have "returns (finish m0 (appm (C_update_adv_data p) (set_current p m1)) s) (sys_inv r)" if "adv_is_started ?e ?u"
    unfolding set_current_def using cur p that view_started [OF w p(2)]
    by (intro finish_call) (auto intro!: update_adv_inv)
  ultimately show ?thesis by (simp add: ble_adv_refreshing_def Let_def)
qed

lemma finish_start_adv:
  assumes rd: "ready r m0 s" and run: "app_ble_start_adv (actv_view (sy_app s) e) m0 = Inr m"
  shows "returns (finish m0 m s) (sys_inv r)"
proof (cases "ble_adv_is_allowed (actv_view (sy_app s) e) m0")
  case False
  let ?l = "filter (\<lambda>idx. idx \<noteq> INVALID_BLE_ACTIVITY_INDEX) (ae_adv_actv_idx (sy_app s))"
  have "idx \<in> set (ae_adv_actv_idx (sy_app s))" if "?l = idx # l" for idx l
    using that by (metis filter_is_subset list.set_intros(1) subsetD)
  with False run rd show ?thesis
    by (cases ?l) (auto simp: app_ble_start_adv_def actv_view_def finish_idle finish_stop_adv)
next
  case True
  let ?e = "actv_view (sy_app s) e"
  have "start_adv_from ?e [0..<BLE_ADV_ACTIVITY_USER_NUM] m0 = Inr m" using True run by (simp add: app_ble_start_adv_def)
  from start_adv_cases [OF this] obtain i en where x:
    "m = ble_execute_pending_op BLE_ACTV_ACTION_IDLE 0xff (m0\<lparr>bm_advParamInfo := i, bm_adv_user_enable := en\<rparr>) \<or>
     (\<exists>u \<in> set [0..<BLE_ADV_ACTIVITY_USER_NUM]. adv_result ?e u (m0\<lparr>bm_advParamInfo := i, bm_adv_user_enable := en\<rparr>) m)"
    by (auto simp: Let_def)
  let ?x = "m0\<lparr>bm_advParamInfo := i, bm_adv_user_enable := en\<rparr>"
  have rx: "ready r ?x s" "bm_calls ?x = bm_calls m0" using rd by simp_all
  have "returns (finish m0 m s) (sys_inv r)" if u: "u < BLE_ADV_ACTIVITY_USER_NUM" and a: "adv_result ?e u ?x m" for u
    using a unfolding adv_result_def
  proof (elim disjE conjE exE)
    assume "m = ble_stop_advertising (be_adv_actv_idx ?e ! u) ?x"
    moreover have "be_adv_actv_idx ?e ! u \<in> set (ae_adv_actv_idx (sy_app s))"
      using rd u by (simp add: ready_def actv_view_def actv_wf_def slots_ok_def)
    ultimately show ?thesis using finish_stop_adv [OF rx] by simp
  next
    fix p assume p: "m = ble_adv_refreshing ?e p ?x" "configured ?e u ?x p"
    have "requests_sound r ?x" using rx(1) by (simp add: ready_def)
    from configured_ok [OF p(2) this u] show ?thesis using finish_refresh [OF rx] u p(1) by simp
  qed
  with x show ?thesis using finish_idle [OF rx] by auto
qed

lemma taken_no_need: "taken r act s \<Longrightarrow> taken r act (no_need s)"
  by (simp add: taken_def core_rest adv_at_rest_def scan_at_rest_def conn_at_rest_def) (simp add: no_need_def)

lemma finish_op:
  assumes rd: "ready r m0 s" and run: "run_op (actv_view (sy_app s) e) p m0 = Inr m"
    and scan: "p = P_start_scan \<Longrightarrow> \<not> scan_refused (ucast (sc_scanType (bm_scanPendingInfo m0))) s"
    and disc: "\<And>i. p = P_disconnect i \<Longrightarrow> i < BLE_CONNECTION_MAX" and res: "p = P_add_resloving_list \<Longrightarrow> r"
  shows "returns (finish m0 m s) (sys_inv r)"
proof (cases p)
  case P_start_adv
  with rd run finish_start_adv show ?thesis by simp
next
  case P_start_scan
  let ?m = "m0\<lparr>bm_scanCurrentInfo := bm_scanPendingInfo m0\<rparr>"
  have "returns (appm_exec (C_start_scanning (bm_scanPendingInfo m0)) t) (sys_inv r)"
    if "taken r BLE_ACTV_ACTION_STARTING_SCAN t" "sy_app t = sy_app s" for t
    using that scan [OF P_start_scan] by (simp add: start_scan_inv scan_refused_def)
  then have "returns (finish m0 (appm (C_start_scanning (bm_scanPendingInfo m0)) (ble_set_actv_action BLE_ACTV_ACTION_STARTING_SCAN 0xff ?m)) s) (sys_inv r)"
    using rd by (intro finish_call) simp_all
  with run P_start_scan rd show ?thesis by (auto simp: ble_start_scan_def finish_idle split: if_splits)
next
  case P_stop_scanning
  with run rd show ?thesis by (auto simp: ble_stop_scanning_def stop_scan_inv intro!: finish_call)
next
  case P_start_connect
  let ?i = "length (takeWhile (\<lambda>i. \<not> ii_pendingConnect i) (bm_bleToConnectInfo m0))" let ?info = "bm_bleToConnectInfo m0 ! ?i"
  let ?m = "m0\<lparr>bm_bleToConnectInfo := (bm_bleToConnectInfo m0)[?i := ?info\<lparr>ii_pendingConnect := False\<rparr>]\<rparr>"
  have b: "?i < length (bm_bleToConnectInfo m0)" and m: "m = appm (C_start_connecting (ii_init_param ?info)) (ble_set_actv_action BLE_ACTV_ACTION_CONNECTING 0xff ?m)"
    using run P_start_connect by (auto simp: ble_start_connect_def Let_def split: if_splits)
  have "ip_own_addr_type (ii_init_param ?info) \<le> APP_GAPM_GEN_NON_RSLV_ADDR"
    using rd b by (auto simp: ready_def requests_sound_def)
  moreover have "ready r ?m s" using rd sound_forget [of r m0 ?i] by (auto simp: ready_def between_def sizes_ok_def)
  ultimately show ?thesis unfolding m by (intro finish_call) (simp_all add: start_conn_inv)
next
  case P_stop_connecting
  with run rd show ?thesis by (auto simp: ble_stop_connecting_def stop_conn_inv intro!: finish_call)
next
  case (P_disconnect i)
  with run rd disc [of i] show ?thesis by (auto simp: ble_disconnect_def appm_disconnect_inv intro!: finish_call)
next
  case P_set_all_white_list
  have "ready r (m0\<lparr>bm_pending_set_white_list := False\<rparr>) s" using rd by (simp add: ready_def between_def sizes_ok_def)
  with run P_set_all_white_list show ?thesis
    by (auto simp: set_all_white_list_def intro!: finish_call appm_set_white_list_inv taken_no_need)
next
  case P_add_resloving_list
  then have r: r by (rule res)
  have "ready r (m0\<lparr>bm_pending_add_resloving_list := False\<rparr>) s" using rd r by (auto simp: ready_def between_def sizes_ok_def requests_sound_def)
  moreover have "returns (appm_set_rpa_list n t) (sys_inv r)" if "taken r BLE_ACTV_ACTION_ADD_RESLO_LIST t" for n t
  proof -
    have "sys_inv True t" using that r
      by (auto simp: sys_inv_def taken_def core_rest core_def adv_phase_def scan_phase_def conn_phase_def list_phase_def)
    then show ?thesis using set_rpa_list_inv r by simp
  qed
  ultimately show ?thesis using run P_add_resloving_list by (auto simp: add_resloving_list_def intro!: finish_call)
qed

lemma thread_event_inv:
  assumes i: "sys_inv r s" and p: "bm_posted (sy_mode s) = p # ps"
    and run: "run_op (actv_view (sy_app s) e) p ((sy_mode s)\<lparr>bm_posted := ps\<rparr>) = Inr m"
    and scan: "p = P_start_scan \<Longrightarrow> \<not> scan_refused (ucast (sc_scanType (bm_scanPendingInfo (sy_mode s)))) s"
  shows "returns (sys_exec (Thread e) s) (sys_inv r)"
proof -
  let ?m = "(sy_mode s)\<lparr>bm_posted := ps\<rparr>"
  have idle: "bm_actv_action (sy_mode s) = BLE_ACTV_ACTION_IDLE" "ps = []" "bm_is_busy (sy_mode s)"
    using i p by (auto simp: sys_inv_def ble_inv_def one_op_def split: if_splits)
  have "core r BLE_ACTV_ACTION_IDLE 0xff (upd_mode (\<lambda>m. m\<lparr>bm_posted := ps\<rparr>) s)" using i idle by (simp add: sys_inv_def core_rest)
  moreover have "between ?m" using i idle by (simp add: between_def sys_inv_def ble_inv_def sizes_ok_def)
  moreover have "requests_sound r ?m" using i p by (auto simp: sys_inv_def requests_sound_def)
  ultimately have "ready r ?m (upd_mode (\<lambda>m. m\<lparr>bm_posted := ps\<rparr>) s)" using i by (simp add: ready_def sys_inv_def)
  moreover have "requests_sound r (sy_mode s)" using i by (simp add: sys_inv_def)
  ultimately have "returns (finish ?m m (upd_mode (\<lambda>m. m\<lparr>bm_posted := ps\<rparr>) s)) (sys_inv r)"
    using run scan p by (intro finish_op) (auto simp: requests_sound_def scan_refused_def)
  then show ?thesis using p run by (simp add: run_posted_def finish_def)
qed

end
