(* ===== verification/BleActvRun.thy ===== *)
theory BleActvRun
  imports BleActvThread
begin

text \<open>The two BLE layers at work with a host that keeps its contract: what holds in every reachable state, which events return, and
  where the layers stop.\<close>

section \<open>Reachable states\<close>

fun host_event :: "sys_event \<Rightarrow> bool" where
  "host_event (Answer e c idx ok) = True"
| "host_event (Stopped e idx) = True"
| "host_event (Connected resolving i addr) = True"
| "host_event (Disconnected mic i) = True"
| "host_event ev = False"

lemma answer_created:
  assumes i: "sys_inv r s" and en: "enabled r (Answer e c idx ok) s" and c: "creates c"
  shows "returns (sys_exec (Answer e c idx ok) s) (sys_inv r)"
  using assms adv_created_inv [OF i, of c idx] scan_created_inv [OF i, of c idx] conn_created_inv [OF i, of c idx]
  by (cases c) auto

lemma answer_event_inv:
  assumes i: "sys_inv r s" and en: "enabled r (Answer e c idx ok) s"
  shows "returns (sys_exec (Answer e c idx ok) s) (sys_inv r)"
proof (cases "cmd_idx c")
  case (Some j)
  then obtain oper where "operation c = Some oper" "gapm_cmp_evt_handler e oper j ok = appm_actv_fsm_next e j ok"
    by (cases c) (auto simp: fun_eq_iff)
  moreover have "returns (appm_actv_fsm_next e j ok (take_off c s)) (sys_inv r)"
    using en Some by (intro answer_activity [OF i]) auto
  ultimately show ?thesis using Some by simp
next
  case None
  show ?thesis
  proof (cases "creates c")
    case True
    with i en show ?thesis by (rule answer_created)
  next
    case False
    with None en show ?thesis
      using white_list_complete_inv [OF i] resolving_list_complete_inv [OF i] by (cases c) auto
  qed
qed

lemma host_event_inv:
  assumes i: "sys_inv r s" and en: "enabled r ev s" and h: "host_event ev"
  shows "returns (sys_exec ev s) (sys_inv r)"
proof (cases ev)
  case (Answer e c idx ok)
  with answer_event_inv [OF i] en show ?thesis by blast
next
  case (Stopped e idx)
  with stopped_event_inv [OF i] en show ?thesis by simp
next
  case (Connected resolving j addr)
  with connected_inv [OF i] en show ?thesis by simp
next
  case (Disconnected mic j)
  with disconnected_inv [OF i, of j mic] en show ?thesis by simp
qed (use h in simp_all)

text \<open>A scan that is being torn down is not started again: the change of its state is refused.\<close>

lemma scan_refused_asserts:
  assumes w: "sys_wf None s" and ref: "scan_refused policy s"
  shows "appm_start_scanning i win policy s = Inl Assert_Fail"
proof -
  have down: "scan_down (scan_slot (sy_app s))" and bit: "\<not> bit (policy XOR ae_scanFiltPolicy (sy_app s)) 1"
    using ref by (simp_all add: scan_refused_def)
  then have idx: "ae_scan_actv_idx (sy_app s) \<noteq> INVALID_BLE_ACTIVITY_INDEX" using idle_slots(2) [OF w] by (auto simp: scan_down_def)
  have "actv_state_at (sy_app s) (ae_scan_actv_idx (sy_app s)) = APP_SCAN_STATE_STOPPING \<or>
      actv_state_at (sy_app s) (ae_scan_actv_idx (sy_app s)) = APP_SCAN_STATE_DELETING"
    using scan_activity(2) [OF w idx] down by (simp add: scan_down_def)
  then have "\<not> actv_transition (actv_state_at (sy_app s) (ae_scan_actv_idx (sy_app s))) APP_SCAN_STATE_STARTING"
    by (auto simp: actv_transition_def)
  then show ?thesis
    using idx bit scan_activity(1) [OF w idx]
    by (simp add: appm_start_scanning_def appm_kick_off_scanning_def appm_update_actv_state_def Let_def actv_state_at_def set_scan_param_def c_assert_def)
qed

lemma upd_mode_over [simp]: "upd_mode (\<lambda>_. n) (upd_mode f s) = upd_mode (\<lambda>_. n) s"
  by (simp add: upd_mode_def)

lemma thread_asserts:
  assumes i: "sys_inv r s" and p: "bm_posted (sy_mode s) = P_start_scan # ps"
    and ref: "scan_refused (ucast (sc_scanType (bm_scanPendingInfo (sy_mode s)))) s"
  shows "sys_exec (Thread e) s = Inl Assert_Fail"
proof -
  let ?old = "(sy_mode s)\<lparr>bm_posted := ps\<rparr>" let ?e = "actv_view (sy_app s) e"
  let ?new = "appm (C_start_scanning (bm_scanPendingInfo ?old)) (ble_set_actv_action BLE_ACTV_ACTION_STARTING_SCAN 0xff
      (?old\<lparr>bm_scanCurrentInfo := bm_scanPendingInfo ?old\<rparr>))"
  have w: "sys_wf None s" using i by (simp add: sys_inv_def)
  have "scan_down (scan_slot (sy_app s))" using ref by (simp add: scan_refused_def)
  then have "\<not> (be_scan_actv_idx ?e \<noteq> INVALID_BLE_ACTIVITY_INDEX \<and> be_scan_started ?e)"
    using scan_activity(2) [OF w] by (auto simp: actv_view_def scan_down_def)
  then have run: "run_op ?e P_start_scan ?old = Inr ?new" by (auto simp: ble_start_scan_def)
  have "drop (length (bm_calls ?old)) (bm_calls ?new) = [C_start_scanning (bm_scanPendingInfo (sy_mode s))]"
    by (simp add: appm_def ble_set_actv_action_def)
  moreover have "appm_start_scanning a b (ucast (sc_scanType (bm_scanPendingInfo (sy_mode s)))) (upd_mode (\<lambda>_. ?new) s) = Inl Assert_Fail" for a b
    using w ref by (intro scan_refused_asserts) (simp_all add: scan_refused_def)
  ultimately show ?thesis using p run by (simp add: run_posted_def)
qed

lemma event_inv:
  assumes i: "sys_inv r s" and en: "enabled r ev s" and x: "sys_exec ev s = Inr t"
  shows "sys_inv r t"
proof (cases ev)
  case (Request e c)
  with request_event_inv [OF i] en x show ?thesis by simp
next
  case (Add_Devices n)
  with i en x add_devices_inv show ?thesis by (cases r) auto
next
  case (Thread e)
  then obtain p ps where p: "bm_posted (sy_mode s) = p # ps" using en by (cases "bm_posted (sy_mode s)") auto
  then obtain m where "run_op (actv_view (sy_app s) e) p ((sy_mode s)\<lparr>bm_posted := ps\<rparr>) = Inr m"
    using x Thread by (auto simp: run_posted_def)
  moreover have "p = P_start_scan \<Longrightarrow> \<not> scan_refused (ucast (sc_scanType (bm_scanPendingInfo (sy_mode s)))) s"
    using thread_asserts [OF i, of ps e] p x Thread by auto
  ultimately show ?thesis using thread_event_inv [OF i p, of e m] x Thread by simp
qed (use host_event_inv [OF i en] x in auto)

lemma init_sys_inv: "sys_inv r appm_init"
proof -
  have slots: "adv_slot (sy_app appm_init) v = APP_ACTV_STATE_IDLE" if "v < BLE_ADV_ACTIVITY_USER_NUM" for v
    using that by (simp add: adv_slot_def slot_def appm_init_def actv_env_init_def)
  have other: "scan_slot (sy_app appm_init) = APP_ACTV_STATE_IDLE" "conn_slot (sy_app appm_init) = APP_ACTV_STATE_IDLE"
    by (simp_all add: scan_slot_def conn_slot_def slot_def appm_init_def actv_env_init_def)
  have own: "owner (ae_adv_actv_idx (sy_app appm_init)) (ae_scan_actv_idx (sy_app appm_init)) (ae_connect_actv_idx (sy_app appm_init)) i = K_none" for i
    by (auto simp: owner_def appm_init_def actv_env_init_def)
  have st: "ae_state (sy_app appm_init) = replicate BLE_ACTIVITY_MAX APP_ACTV_STATE_IDLE" by (simp add: appm_init_def actv_env_init_def)
  have slots_ok: "slots_ok (ae_adv_actv_idx (sy_app appm_init)) (ae_scan_actv_idx (sy_app appm_init)) (ae_connect_actv_idx (sy_app appm_init))"
    by (simp add: slots_ok_def appm_init_def actv_env_init_def)
  have sent: "sy_sent appm_init = []" by (simp add: appm_init_def)
  have w: "sys_wf None appm_init" by (simp add: actv_wf_def own st slots_ok sent)
  have "core r BLE_ACTV_ACTION_IDLE (bm_op_actv_idx (sy_mode appm_init)) appm_init"
    unfolding core_rest adv_at_rest_def scan_at_rest_def conn_at_rest_def
    using slots other by (simp add: sent adv_settled_def)
      (simp add: appm_init_def actv_env_init_def param_ok_def legacy_fits_def adv_param_zero_def)
  moreover have "requests_sound r app_ble_mode_init"
    by (auto simp: requests_sound_def app_ble_mode_init_def no_init_info_def BLE_ADV_USER_NUM_def)
  moreover have "bm_actv_action (sy_mode appm_init) = BLE_ACTV_ACTION_IDLE" "sy_mode appm_init = app_ble_mode_init"
    by (simp_all add: appm_init_def app_ble_mode_init_def)
  ultimately show ?thesis using w init_inv by (simp add: sys_inv_def)
qed

lemma reach_sys_inv: "sys_reach r s \<Longrightarrow> sys_inv r s"
  by (induction rule: sys_reach.induct) (auto intro: init_sys_inv event_inv)

end
