(* ===== verification/BleActvRefine.thy ===== *)
theory BleActvRefine
  imports BleActvRun
begin

text \<open>Every step of the two layers is a sequence of steps of the scheduler alone, as \<open>BleModeInv.thy\<close> describes them: what is proved of
  the scheduler under any layer below holds with the activities of \<open>app.c\<close> below it. The same calculus follows the commands to
  disconnect.\<close>

section \<open>A calculus of steps\<close>

definition goes :: "ble_sys \<Rightarrow> ble_sys \<Rightarrow> bool" where
  "goes s t \<longleftrightarrow> ble_step\<^sup>*\<^sup>* (sy_mode s) (sy_mode t) \<and>
     (\<forall>i. G_disconnect i \<in> set (sy_sent t) \<longrightarrow> G_disconnect i \<in> set (sy_sent s) \<or> i < BLE_CONNECTION_MAX)"

definition moves :: "ble_sys \<Rightarrow> ble_sys res \<Rightarrow> bool" where
  "moves s r \<longleftrightarrow> (\<forall>t. r = Inr t \<longrightarrow> goes s t)"

lemma goes_refl [simp, intro]: "goes s s"
  by (simp add: goes_def)

lemma goes_trans: "goes s t \<Longrightarrow> goes t u \<Longrightarrow> goes s u"
  unfolding goes_def by (blast intro: rtranclp_trans)

lemma goes_step: "ble_step (sy_mode s) m \<Longrightarrow> goes s (upd_mode (\<lambda>_. m) s)"
  by (auto simp: goes_def)

lemma goes_upd: "ble_step (sy_mode s) (g (sy_mode s)) \<Longrightarrow> goes s (upd_mode g s)"
  by (auto simp: goes_def)

lemma moves_simps [simp]:
  "moves s (Inl err) = True" "moves s (Inr t) = goes s t"
  "moves s (if b then r1 else r2) = (if b then moves s r1 else moves s r2)"
  by (simp_all add: moves_def)

lemma moves_assert [intro!]: "(b \<Longrightarrow> moves s r) \<Longrightarrow> moves s (c_assert b r)"
  by (cases b) (simp_all add: c_assert_def)

lemma moves_with [intro!]: "(\<And>st. moves s (k st)) \<Longrightarrow> moves s (with_state idx t k)"
  by (simp add: with_state_def)

lemma moves_bind: "moves s r \<Longrightarrow> (\<And>t. moves t (f t)) \<Longrightarrow> moves s (bindE r f)"
  by (cases r) (auto simp: moves_def intro: goes_trans)

lemma moves_value: "(\<And>v. r = Inr v \<Longrightarrow> moves s (f v)) \<Longrightarrow> moves s (bindE r f)"
  by (cases r) auto

lemma moves_from: "goes s t \<Longrightarrow> moves t r \<Longrightarrow> moves s r"
  by (auto simp: moves_def intro: goes_trans)

lemma goes_app [simp]: "goes (upd_app f s) t = goes s t" "goes s (upd_app f t) = goes s t"
  "goes (put_state idx st s) t = goes s t" "goes s (put_state idx st t) = goes s t"
  by (simp_all add: goes_def put_state_def)

lemma moves_app [simp]: "moves (upd_app f s) r = moves s r" "moves (put_state idx st s) r = moves s r"
  by (simp_all add: moves_def)

lemma goes_send: "(\<And>i. c = G_disconnect i \<Longrightarrow> i < BLE_CONNECTION_MAX) \<Longrightarrow> goes s t \<Longrightarrow> goes s (ke_msg_send c t)"
  by (auto simp: goes_def)

lemma goes_sent [simp]: "(\<And>i. c \<noteq> G_disconnect i) \<Longrightarrow> goes s (ke_msg_send c t) = goes s t"
  by (auto simp: goes_def)

lemma goes_ended: "a \<noteq> BLE_ACTV_ACTION_IDLE \<Longrightarrow> goes s (ended a idx s)"
  unfolding ended_def by (rule goes_upd) (rule ble_step.Done)

section \<open>The operations\<close>

lemma moves_update: "goes s t \<Longrightarrow> moves s (appm_update_actv_state idx st t)"
  by (auto simp: appm_update_actv_state_def)

lemma moves_stop_adv: "moves s (appm_stop_advertising idx s)"
  by (auto simp: appm_stop_advertising_def goes_ended intro!: moves_update)

lemma moves_stop_scan: "moves s (appm_stop_scanning s)"
  by (auto simp: appm_stop_scanning_def Let_def goes_ended intro!: moves_update)

lemma moves_stop_conn: "moves s (appm_stop_connecting s)"
  by (auto simp: appm_stop_connecting_def Let_def goes_ended intro!: moves_update)

lemmas moves_stops = moves_stop_adv moves_stop_scan moves_stop_conn

lemma moves_data: "moves s (appm_set_adv_data idx s)" "moves s (appm_set_scan_rsp_data idx s)"
  by (auto simp: appm_set_adv_data_def appm_set_scan_rsp_data_def Let_def clear_update_def intro!: moves_update moves_value)

lemma moves_kicks: "moves s (appm_kick_off_advertising idx s)" "moves s (appm_kick_off_scanning s)" "moves s (appm_kick_off_connecting s)"
  by (auto simp: appm_kick_off_advertising_def appm_kick_off_scanning_def appm_kick_off_connecting_def Let_def intro!: moves_update)

lemma moves_stop_upd: "moves s (appm_stop_advertising idx (upd_app f s))" "moves s (appm_stop_scanning (upd_app f s))"
  "moves s (appm_stop_connecting (upd_app f s))" "moves s (appm_kick_off_scanning (upd_app f s))" "moves s (appm_set_adv_data idx (upd_app f s))"
  using moves_stops [of "upd_app f s"] moves_kicks [of "upd_app f s"] moves_data [of "upd_app f s"] by simp_all

lemma upd_upd: "upd_app f (upd_app g s) = upd_app (\<lambda>a. f (g a)) s"
  by (simp add: upd_app_def)

lemma moves_start_adv: "moves s (appm_start_advertising p s)"
  by (auto simp: appm_start_advertising_def Let_def upd_upd moves_stop_upd intro!: moves_value)

lemma moves_update_adv: "moves s (appm_update_adv_data p s)"
  by (auto simp: appm_update_adv_data_def Let_def moves_stop_upd intro!: moves_value)

lemma moves_start_scan: "moves s (appm_start_scanning i w policy s)"
  by (auto simp: appm_start_scanning_def Let_def upd_upd moves_stop_upd)

lemma moves_start_conn: "moves s (appm_start_connecting p s)"
  by (auto simp: appm_start_connecting_def Let_def upd_upd moves_stop_upd goes_ended)

lemma moves_disconnect: "moves s (appm_disconnect i s)"
  by (auto simp: appm_disconnect_def goes_ended intro!: goes_send)

lemma moves_set_flags: "moves s (set_flags f s)"
  by (simp add: set_flags_def)

lemma moves_set_rpa_list: "moves s (appm_set_rpa_list n s)"
  unfolding appm_set_rpa_list_def Let_def
  by (auto simp: moves_set_flags split: option.splits intro!: moves_value [where r = "started_adv a b" for a b]
      moves_value [where r = "is_in_state a b c" for a b c] moves_bind moves_stops)

lemma moves_set_white_list: "moves s (appm_set_white_list addrs s)"
proof -
  have flags: "moves s (set_flags f (upd_app g s))" for f g by (simp add: set_flags_def)
  show ?thesis
    unfolding appm_set_white_list_def Let_def
    by (auto simp: moves_set_flags flags split: option.splits intro!: moves_value [where r = "started_adv a b" for a b]
        moves_value [where r = "is_in_state a b c" for a b c] moves_bind [OF _ moves_set_flags] moves_stop_upd)
qed

lemma moves_pending: "moves s (pending_white_list s)" "moves s (pending_rpa_list s)"
  by (auto simp: pending_white_list_def pending_rpa_list_def moves_set_white_list moves_set_rpa_list)

lemma moves_exec: "moves s (appm_exec c s)"
  by (cases c) (auto simp: moves_start_adv moves_update_adv moves_stops moves_start_scan moves_start_conn moves_disconnect
      moves_set_white_list moves_set_rpa_list)

section \<open>The next step of an activity\<close>

lemma moves_adv_deleted: "moves s (adv_deleted e idx s)"
proof -
  have stopped: "goes t (appm_clear_adv_activity_index idx (upd_mode (app_advertising_stopped e' idx) t))" for t e'
    unfolding appm_clear_adv_activity_index_def by (auto intro: goes_upd ble_step.Adv_Stopped)
  have restart: "moves u (appm_start_advertising p (upd_app f u))" for u p f using moves_start_adv [of "upd_app f u"] by simp
  have rest: "moves u (let s3 = ended BLE_ACTV_ACTION_STOPPING_ADV idx u in
      if ae_need_set_white_list (sy_app s3) then pending_white_list s3 else pending_rpa_list s3)" for u
    unfolding Let_def by (auto intro: moves_from [OF goes_ended moves_pending(1)] moves_from [OF goes_ended moves_pending(2)])
  show ?thesis
    unfolding adv_deleted_def
    by (rule moves_bind [OF moves_update [OF goes_refl]])
      (use moves_from [OF stopped restart] moves_from [OF stopped rest] in \<open>simp add: Let_def\<close>)
qed

lemma moves_other_deleted: "moves s (scan_deleted idx s)" "moves s (connect_deleted idx s)"
proof -
  have rest: "moves u (bindE (pending_rpa_list (ended a idx (upd_app f u))) pending_white_list)" if "a \<noteq> BLE_ACTV_ACTION_IDLE" for u a f
    using moves_from [OF goes_ended [OF that] moves_bind [OF moves_pending(2) moves_pending(1)], of "upd_app f u" idx] by simp
  have scan: "moves u (appm_start_scanning i w p (upd_app f (upd_app g u)))" for u i w p f g
    using moves_start_scan [of "upd_app f (upd_app g u)"] by simp
  have conn: "moves u (appm_start_connecting p (upd_app f (upd_app g u)))" for u p f g
    using moves_start_conn [of "upd_app f (upd_app g u)"] by simp
  show "moves s (scan_deleted idx s)" unfolding scan_deleted_def Let_def
    by (rule moves_bind [OF moves_update [OF goes_refl]]) (simp add: rest scan)
  show "moves s (connect_deleted idx s)" unfolding connect_deleted_def Let_def
    by (rule moves_bind [OF moves_update [OF goes_refl]]) (simp add: rest conn)
qed

lemma moves_go_deleting: "moves s (go_deleting idx st s)"
  by (auto simp: go_deleting_def appm_delete_activity_def intro!: moves_bind moves_update)

lemma moves_start_answered: "a \<noteq> BLE_ACTV_ACTION_IDLE \<Longrightarrow> moves s (start_answered st1 st2 a idx ok s)"
  by (auto simp: start_answered_def appm_delete_activity_def goes_ended intro!: moves_bind moves_update)

text \<open>Advertising that could not be started is told while this is the action.\<close>

lemma moves_adv_answered:
  assumes "\<not> ok \<Longrightarrow> bm_actv_action (sy_mode s) = BLE_ACTV_ACTION_STARTING_ADV"
  shows "moves s (adv_start_answered e idx ok s)"
proof -
  have started: "moves s1 (bindE (app_advertising_started e' idx (sy_mode s1)) (\<lambda>m. Inr (upd_mode (\<lambda>_. m) s1)))" for s1 e'
    by (rule moves_value) (auto intro: goes_step ble_step.Adv_Started)
  have failed: "goes s (upd_mode (app_advertising_starting_failed e' idx) (put_state idx st s))" if "\<not> ok" for st e'
  proof -
    have "goes (put_state idx st s) (upd_mode (app_advertising_starting_failed e' idx) (put_state idx st s))"
      using assms [OF that] by (intro goes_upd ble_step.Adv_Failed) simp
    then show ?thesis by simp
  qed
  have "moves s (bindE (appm_update_actv_state idx APP_ADV_STATE_DELETING s) (\<lambda>s1. Inr (appm_delete_activity idx
          (upd_mode (app_advertising_starting_failed (actv_view (sy_app s1) e) idx) s1))))" if "\<not> ok"
    using failed [OF that] by (auto simp: appm_update_actv_state_def c_assert_def appm_delete_activity_def)
  moreover have "moves s (bindE (appm_update_actv_state idx APP_ADV_STATE_STARTED s) (\<lambda>s1.
          bindE (app_advertising_started (actv_view (sy_app s1) e) idx (sy_mode s1)) (\<lambda>m. Inr (upd_mode (\<lambda>_. m) s1))))"
    by (rule moves_bind [OF moves_update [OF goes_refl] started])
  ultimately show ?thesis
    unfolding adv_start_answered_def by (intro moves_bind) (auto simp: goes_ended)
qed

lemma moves_fsm:
  assumes "unat idx < BLE_ACTIVITY_MAX \<Longrightarrow> actv_state_at (sy_app s) idx = APP_ADV_STATE_STARTING \<Longrightarrow> \<not> ok \<Longrightarrow> bm_actv_action (sy_mode s) = BLE_ACTV_ACTION_STARTING_ADV"
  shows "moves s (appm_actv_fsm_next e idx ok s)"
  unfolding appm_actv_fsm_next_def using assms
  by (intro moves_assert) (auto simp: moves_kicks moves_data moves_go_deleting moves_start_answered
      moves_adv_deleted moves_other_deleted intro!: moves_adv_answered split: actv_state.splits)

section \<open>Events\<close>

lemma moves_created:
  assumes "\<And>s1. moves s1 (store s1)"
  shows "moves s (created e creating idx store s)"
  unfolding created_def
  by (intro moves_with moves_bind) (auto simp: assms intro: moves_update moves_fsm)

lemma moves_store: "moves s (store_adv_idx idx s)"
  by (auto simp: store_adv_idx_def intro!: moves_value)

lemma goes_take_off: "goes s (take_off c s)" "goes s (take_off_all c s)"
  using set_remove1_subset [of c "sy_sent s"] by (auto simp: goes_def)

lemma goes_lists: "goes s (white_list_complete s)" "goes s (resolving_list_complete s)"
proof -
  have "goes t (upd_mode app_ble_set_white_list_complete t)" "goes t (upd_mode app_ble_set_resolving_list_complete t)" for t
    by (auto intro: goes_upd ble_step.White_List_Set ble_step.Resolving_Set)
  then show "goes s (white_list_complete s)" "goes s (resolving_list_complete s)"
    unfolding white_list_complete_def resolving_list_complete_def by (metis goes_app(1))+
qed

lemma goes_add_devices: "goes s (appm_add_multiple_devices_to_resolving_list_in_controller n s)"
proof -
  have "ble_step m (app_ble_add_resloving_list k m)" for k m by (rule ble_step.Call [of undefined "Resolving_List k"]) simp
  then have "goes (upd_app f s) (upd_mode (app_ble_add_resloving_list k) (upd_app f s))" for f k by (intro goes_upd) simp
  then show ?thesis by (simp add: appm_add_multiple_devices_to_resolving_list_in_controller_def)
qed

lemma moves_fold: "moves s (foldM appm_exec cs s)"
  by (induction cs arbitrary: s) (auto intro: moves_bind moves_exec)

lemma adv_starting_action:
  assumes i: "sys_inv r s" and b: "unat idx < BLE_ACTIVITY_MAX" and st: "actv_state_at (sy_app s) idx = APP_ADV_STATE_STARTING"
  shows "bm_actv_action (sy_mode s) = BLE_ACTV_ACTION_STARTING_ADV"
proof -
  have w: "sys_wf None s" and c: "core r (bm_actv_action (sy_mode s)) (bm_op_actv_idx (sy_mode s)) s" using i by (simp_all add: sys_inv_def)
  have "owner (ae_adv_actv_idx (sy_app s)) (ae_scan_actv_idx (sy_app s)) (ae_connect_actv_idx (sy_app s)) idx = K_adv"
    using wf_owed [OF w _ b] st by (simp add: actv_state_at_def)
  then have "idx \<in> set (ae_adv_actv_idx (sy_app s))" by (simp add: owner_def split: if_splits)
  then obtain v where v: "v < BLE_ADV_ACTIVITY_USER_NUM" "ae_adv_actv_idx (sy_app s) ! v = idx"
    using w by (auto simp: in_set_conv_nth actv_wf_def slots_ok_def)
  have "adv_slot (sy_app s) v = APP_ADV_STATE_STARTING" using adv_activity(2) [OF w v(1)] v(2) index_valid [OF b] st by simp
  then show ?thesis using preparing_facts(1) [OF c v(1)] by (simp add: adv_preparing_def)
qed

lemma moves_cmp_evt:
  assumes "\<And>i. unat i < BLE_ACTIVITY_MAX \<Longrightarrow> actv_state_at (sy_app s) i = APP_ADV_STATE_STARTING \<Longrightarrow>
    bm_actv_action (sy_mode s) = BLE_ACTV_ACTION_STARTING_ADV"
  shows "moves s (gapm_cmp_evt_handler e oper idx ok s)"
proof -
  note fsm = moves_fsm [of idx s ok, OF assms]
  show ?thesis by (cases oper) (auto intro: moves_created moves_store fsm simp: goes_lists)
qed

lemma event_goes:
  assumes i: "sys_inv r s" and x: "sys_exec ev s = Inr t"
  shows "goes s t"
proof (cases ev)
  case (Request e c)
  with x show ?thesis by (auto intro: goes_step ble_step.Call)
next
  case (Add_Devices n)
  with x goes_add_devices show ?thesis by auto
next
  case (Thread e)
  show ?thesis
  proof (cases "bm_posted (sy_mode s)")
    case (Cons p ps)
    with x Thread obtain m where m: "run_op (actv_view (sy_app s) e) p ((sy_mode s)\<lparr>bm_posted := ps\<rparr>) = Inr m"
        "foldM appm_exec (drop (length (bm_calls (sy_mode s))) (bm_calls m)) (upd_mode (\<lambda>_. m) s) = Inr t"
      by (auto simp: run_posted_def)
    have "goes s (upd_mode (\<lambda>_. m) s)" using Cons m(1) by (intro goes_step) (rule ble_step.Run)
    with m(2) moves_fold show ?thesis unfolding moves_def by (metis goes_trans)
  qed (use x Thread in simp)
next
  case (Answer e c idx ok)
  have "moves (take_off c s) (gapm_cmp_evt_handler e oper j ok (take_off c s))" for oper j
    using adv_starting_action [OF i] by (intro moves_cmp_evt) simp
  then have "moves s (gapm_cmp_evt_handler e oper j ok (take_off c s))" for oper j using moves_from [OF goes_take_off(1)] by blast
  with x Answer show ?thesis by (auto simp: moves_def goes_take_off split: option.splits)
next
  case (Stopped e idx)
  have "moves u (gapm_activity_stopped_ind_handler e idx u)" for u
    unfolding gapm_activity_stopped_ind_handler_def Let_def by (auto intro!: moves_bind moves_update moves_fsm)
  then have "moves s (gapm_activity_stopped_ind_handler e idx (take_off_all c s))" "moves s (gapm_activity_stopped_ind_handler e idx s)" for c
    using moves_from [OF goes_take_off(2)] by blast+
  then have "moves s (sys_exec (Stopped e idx) s)" by simp
  with x Stopped show ?thesis by (simp add: moves_def)
next
  case (Connected resolving j addr)
  have "moves u (bindE (app_ble_start_disconnect j (sy_mode u)) (\<lambda>m. Inr (upd_mode (\<lambda>_. m) u)))" for u
  proof (rule moves_value)
    fix m assume "app_ble_start_disconnect j (sy_mode u) = Inr m"
    then have "ble_step (sy_mode u) m" by (intro ble_step.Call [of undefined "Disconnect j"]) simp
    then show "moves u (Inr (upd_mode (\<lambda>_. m) u))" by (simp add: goes_step)
  qed
  then have "moves s (sys_exec (Connected resolving j addr) s)"
    by (auto simp: gapc_le_connection_req_ind_handler_def Let_def simp del: access_simps) (metis moves_app(1))
  with x Connected show ?thesis by (simp add: moves_def)
next
  case (Disconnected mic j)
  have "goes u (upd_mode app_ble_disconnected_evt_handler u)" for u by (intro goes_upd ble_step.Link_Lost)
  then have "goes u (upd_mode app_ble_disconnected_evt_handler (upd_app f u))" for u f by (metis goes_app(1))
  moreover have "goes u (case mic of None \<Rightarrow> u | Some n \<Rightarrow> appm_add_multiple_devices_to_resolving_list_in_controller n u)" for u
    by (cases mic) (simp_all add: goes_add_devices)
  ultimately have "goes s (upd_mode app_ble_disconnected_evt_handler (upd_app f
      (case mic of None \<Rightarrow> take_off_all c s | Some n \<Rightarrow> appm_add_multiple_devices_to_resolving_list_in_controller n (take_off_all c s))))" for f c
    by (meson goes_take_off(2) goes_trans)
  with x Disconnected show ?thesis by (auto simp: gapc_disconnect_ind_handler_def Let_def split: if_splits)
qed

lemma reach_goes: "sys_reach r s \<Longrightarrow> goes appm_init s"
  by (induction rule: sys_reach.induct) (auto intro: goes_trans event_goes reach_sys_inv)

lemma steps_reach: "ble_step\<^sup>*\<^sup>* m m' \<Longrightarrow> ble_reach m \<Longrightarrow> ble_reach m'"
  by (induction rule: rtranclp_induct) (auto intro: ble_reach.Step)

lemma sent_disconnect: "sys_reach r s \<Longrightarrow> G_disconnect i \<in> set (sy_sent s) \<Longrightarrow> i < BLE_CONNECTION_MAX"
  using reach_goes [of r s] by (simp add: goes_def appm_init_def)

end
