(* ===== verification/BleActvWork.thy ===== *)
theory BleActvWork
  imports BleActvRefine
begin

text \<open>The work that is left: each answer of the host makes it less, so that an operation ends after finitely many answers, and as long
  as it has not ended an answer is owed.\<close>

section \<open>The measure\<close>

text \<open>How many answers an activity in a state still needs, with some room: preparing, starting and going down.\<close>

fun state_work :: "actv_state \<Rightarrow> nat" where
  "state_work APP_ADV_STATE_SETTING_ADV_DATA = 7"
| "state_work APP_ADV_STATE_SETTING_SCAN_RSP_DATA = 6"
| "state_work APP_ADV_STATE_STARTING = 5"
| "state_work APP_ADV_STATE_STOPPING = 5"
| "state_work APP_ADV_STATE_DELETING = 4"
| "state_work APP_SCAN_STATE_STARTING = 5"
| "state_work APP_SCAN_STATE_STOPPING = 5"
| "state_work APP_SCAN_STATE_DELETING = 4"
| "state_work APP_CONNECT_STATE_STARTING = 5"
| "state_work APP_CONNECT_STATE_STOPPING = 5"
| "state_work APP_CONNECT_STATE_DELETING = 4"
| "state_work _ = 0"

fun cmd_work :: "gapm_cmd \<Rightarrow> nat" where
  "cmd_work (G_create_adv c) = 8"
| "cmd_work (G_create_scan b) = 6"
| "cmd_work (G_create_init t) = 6"
| "cmd_work (G_stop i) = 5"
| "cmd_work (G_set_wl w) = 1"
| "cmd_work (G_set_ral n) = 1"
| "cmd_work (G_disconnect i) = 1"
| "cmd_work c = 0"

definition load :: "ble_sys \<Rightarrow> nat" where
  "load s = sum_list (map state_work (ae_state (sy_app s))) + sum_list (map cmd_work (sy_sent s)) +
     (if ae_need_restart_adv (sy_app s) then 8 else 0) + (if ae_need_restart_scan (sy_app s) then 6 else 0) +
     (if ae_need_restart_connect (sy_app s) then 6 else 0)"

definition alive :: "ble_sys \<Rightarrow> nat" where
  "alive s = length (filter (\<lambda>st. st \<noteq> APP_ACTV_STATE_IDLE) (ae_state (sy_app s)))"

text \<open>While the white list waits, every activity that is alive may have to be stopped.\<close>

definition work :: "ble_sys \<Rightarrow> nat" where
  "work s = load s + (if ae_need_set_white_list (sy_app s) then 12 * alive s else 0)"

lemma sum_put: "i < length xs \<Longrightarrow> sum_list (map f (xs[i := x])) + f (xs ! i) = sum_list (map f xs) + (f x :: nat)"
  by (induction xs arbitrary: i) (auto split: nat.splits)

lemma filter_put:
  assumes "i < length xs"
  shows "length (filter P (xs[i := x])) + (if P (xs ! i) then 1 else 0) = length (filter P xs) + (if P x then 1 else 0)"
proof -
  have "length (filter P ys) = sum_list (map (\<lambda>y. if P y then 1 else 0) ys)" for ys by (induction ys) simp_all
  then show ?thesis using sum_put [OF assms, of "\<lambda>y. if P y then 1 else 0" x] by simp
qed

lemma load_put: "unat idx < length (ae_state (sy_app s)) \<Longrightarrow>
    load (put_state idx st s) + state_work (actv_state_at (sy_app s) idx) = load s + state_work st"
  using sum_put [of "unat idx" "ae_state (sy_app s)" state_work st] by (simp add: load_def actv_state_at_def)

lemma alive_put: "unat idx < length (ae_state (sy_app s)) \<Longrightarrow>
    alive (put_state idx st s) + (if actv_state_at (sy_app s) idx \<noteq> APP_ACTV_STATE_IDLE then 1 else 0) =
    alive s + (if st \<noteq> APP_ACTV_STATE_IDLE then 1 else 0)"
  using filter_put [of "unat idx" "ae_state (sy_app s)" "\<lambda>st. st \<noteq> APP_ACTV_STATE_IDLE" st] by (simp add: alive_def actv_state_at_def)

lemma load_simps [simp]:
  "load (upd_mode g s) = load s" "load (ended a idx s) = load s" "load (ke_msg_send c s) = load s + cmd_work c"
  by (simp_all add: load_def)

lemma alive_simps [simp]:
  "alive (upd_mode g s) = alive s" "alive (ended a idx s) = alive s" "alive (ke_msg_send c s) = alive s"
  by (simp_all add: alive_def)

lemma load_app: "ae_state (f (sy_app s)) = ae_state (sy_app s) \<Longrightarrow> ae_need_restart_adv (f (sy_app s)) = ae_need_restart_adv (sy_app s) \<Longrightarrow>
    ae_need_restart_scan (f (sy_app s)) = ae_need_restart_scan (sy_app s) \<Longrightarrow>
    ae_need_restart_connect (f (sy_app s)) = ae_need_restart_connect (sy_app s) \<Longrightarrow> load (upd_app f s) = load s"
  "ae_state (f (sy_app s)) = ae_state (sy_app s) \<Longrightarrow> alive (upd_app f s) = alive s"
  by (simp_all add: load_def alive_def)

text \<open>If the operation returns, its result satisfies the predicate.\<close>

definition yields :: "'a res \<Rightarrow> ('a \<Rightarrow> bool) \<Rightarrow> bool" where
  "yields r P \<longleftrightarrow> (\<forall>t. r = Inr t \<longrightarrow> P t)"

lemma yields_simps [simp]:
  "yields (Inl err) P = True" "yields (Inr t) P = P t"
  "yields (c_assert b r) P = (b \<longrightarrow> yields r P)"
  "yields (if b then r1 else r2) P = (if b then yields r1 P else yields r2 P)"
  "yields (bindE r' f) P = yields r' (\<lambda>x. yields (f x) P)"
  "yields (with_state idx s k) P = (unat idx < BLE_ACTIVITY_MAX \<longrightarrow> yields (k (actv_state_at (sy_app s) idx)) P)"
  "yields (appm_update_actv_state idx new s) Q = (unat idx < BLE_ACTIVITY_MAX \<longrightarrow> actv_transition (actv_state_at (sy_app s) idx) new \<longrightarrow>
     Q (put_state idx new s))"
  by (auto simp: yields_def c_assert_def with_state_def appm_update_actv_state_def split: if_splits)

lemma yields_mono: "yields r P \<Longrightarrow> (\<And>x. P x \<Longrightarrow> Q x) \<Longrightarrow> yields r Q"
  by (auto simp: yields_def)

section \<open>A step of an activity that goes on\<close>

text \<open>The state of an activity that is alive gets a smaller number, and what is sent weighs nothing.\<close>

definition lighter :: "ble_sys \<Rightarrow> ble_sys \<Rightarrow> bool" where
  "lighter s t \<longleftrightarrow> load t < load s \<and> alive t \<le> alive s \<and> (ae_need_set_white_list (sy_app t) \<longrightarrow> ae_need_set_white_list (sy_app s))"

lemma lighter_work: "lighter s t \<Longrightarrow> work t < work s"
  by (auto simp: lighter_def work_def)

lemma lighter_put:
  assumes "length (ae_state (sy_app s)) = BLE_ACTIVITY_MAX" "unat idx < BLE_ACTIVITY_MAX"
    "state_work st < state_work (actv_state_at (sy_app s) idx)"
  shows "lighter s (put_state idx st s)" "cmd_work c = 0 \<Longrightarrow> lighter s (put_state idx st (ke_msg_send c s))"
proof -
  have "actv_state_at (sy_app s) idx \<noteq> APP_ACTV_STATE_IDLE" using assms(3) by auto
  then show "lighter s (put_state idx st s)" "cmd_work c = 0 \<Longrightarrow> lighter s (put_state idx st (ke_msg_send c s))"
    using load_put [of idx "ke_msg_send c s" st] alive_put [of idx "ke_msg_send c s" st] load_put [of idx s st] alive_put [of idx s st] assms
    by (auto simp: lighter_def split: if_splits)
qed

lemma lighter_same [simp]:
  "lighter s (upd_mode g t) = lighter s t" "lighter s (ended a idx t) = lighter s t" "lighter s (clear_update t) = lighter s t"
proof -
  have "load (clear_update t) = load t" "alive (clear_update t) = alive t"
    unfolding clear_update_def by (rule load_app; simp)+
  then show "lighter s (clear_update t) = lighter s t" by (simp add: lighter_def clear_update_def)
qed (simp_all add: lighter_def)

lemma lighter_prepare:
  assumes len: "length (ae_state (sy_app s)) = BLE_ACTIVITY_MAX"
  shows "actv_state_at (sy_app s) idx = APP_ADV_STATE_SETTING_ADV_DATA \<Longrightarrow> yields (appm_set_scan_rsp_data idx s) (lighter s)"
    and "actv_state_at (sy_app s) idx = APP_ADV_STATE_SETTING_SCAN_RSP_DATA \<Longrightarrow> yields (appm_kick_off_advertising idx s) (lighter s)"
    and "state_work new < state_work (actv_state_at (sy_app s) idx) \<Longrightarrow> yields (go_deleting idx new s) (lighter s)"
    and "state_work st1 < state_work (actv_state_at (sy_app s) idx) \<Longrightarrow> state_work st2 < state_work (actv_state_at (sy_app s) idx) \<Longrightarrow>
      yields (start_answered st1 st2 a idx ok s) (lighter s)"
    and "actv_state_at (sy_app s) idx = APP_ADV_STATE_STARTING \<Longrightarrow> yields (adv_start_answered e idx ok s) (lighter s)"
proof -
  note put = lighter_put [OF len]
  show "yields (appm_set_scan_rsp_data idx s) (lighter s)" if "actv_state_at (sy_app s) idx = APP_ADV_STATE_SETTING_ADV_DATA"
    using that put [of idx] by (auto simp: appm_set_scan_rsp_data_def Let_def clear_update_commute yields_def [of "message_data a b" for a b])
  show "yields (appm_kick_off_advertising idx s) (lighter s)" if "actv_state_at (sy_app s) idx = APP_ADV_STATE_SETTING_SCAN_RSP_DATA"
    using that put [of idx] by (auto simp: appm_kick_off_advertising_def)
  show "yields (go_deleting idx new s) (lighter s)" if "state_work new < state_work (actv_state_at (sy_app s) idx)"
    using that put [of idx] by (auto simp: go_deleting_def appm_delete_activity_def)
  show "yields (start_answered st1 st2 a idx ok s) (lighter s)"
    if "state_work st1 < state_work (actv_state_at (sy_app s) idx)" "state_work st2 < state_work (actv_state_at (sy_app s) idx)"
    using that put [of idx] by (auto simp: start_answered_def appm_delete_activity_def)
  have swap: "ke_msg_send c (upd_mode g t) = upd_mode g (ke_msg_send c t)" for c g t by (simp add: ke_msg_send_def upd_mode_def)
  show "yields (adv_start_answered e idx ok s) (lighter s)" if "actv_state_at (sy_app s) idx = APP_ADV_STATE_STARTING"
    using that put [of idx] by (auto simp: adv_start_answered_def appm_delete_activity_def swap
        yields_def [of "app_advertising_started a b c" for a b c])
qed

section \<open>An activity is deleted\<close>

definition bounded :: "nat \<Rightarrow> ble_sys \<Rightarrow> ble_sys \<Rightarrow> bool" where
  "bounded k s t \<longleftrightarrow> load t \<le> load s + k \<and> alive t \<le> alive s"

lemma bounded_put:
  assumes "length (ae_state (sy_app s)) = BLE_ACTIVITY_MAX" "unat idx < BLE_ACTIVITY_MAX"
    "actv_state_at (sy_app s) idx \<noteq> APP_ACTV_STATE_IDLE" "state_work st + cmd_work c \<le> k"
  shows "bounded k s (put_state idx st (ke_msg_send c s))"
  using load_put [of idx "ke_msg_send c s" st] alive_put [of idx "ke_msg_send c s" st] assms
  by (auto simp: bounded_def split: if_splits)

lemma stops_bounded:
  assumes "length (ae_state (sy_app s)) = BLE_ACTIVITY_MAX"
  shows "yields (appm_stop_advertising idx s) (bounded 10 s)" "yields (appm_stop_scanning s) (bounded 10 s)"
    "yields (appm_stop_connecting s) (bounded 10 s)"
  using bounded_put [OF assms, where k = 10]
  by (auto simp: appm_stop_advertising_def appm_stop_scanning_def appm_stop_connecting_def Let_def) (simp_all add: bounded_def)

lemma flags_bounded: "yields (set_flags (\<lambda>a. a\<lparr>ae_need_set_white_list := b\<rparr>) t) (bounded k s) = bounded k s t"
proof -
  have "load (upd_app (\<lambda>a. a\<lparr>ae_need_set_white_list := b\<rparr>) t) = load t" "alive (upd_app (\<lambda>a. a\<lparr>ae_need_set_white_list := b\<rparr>) t) = alive t"
    by (rule load_app; simp)+
  then show ?thesis by (simp add: set_flags_def bounded_def)
qed

lemma yields_value: "(\<And>v. r = Inr v \<Longrightarrow> P v) \<Longrightarrow> yields r P"
  by (simp add: yields_def)

lemma white_list_bounded:
  assumes "length (ae_state (sy_app s)) = BLE_ACTIVITY_MAX"
  shows "yields (appm_set_white_list addrs s) (bounded 10 s)"
proof -
  let ?s = "upd_app (\<lambda>a. a\<lparr>ae_white_list := take WHITE_LIST_MAX_NUM addrs\<rparr>) s"
  have eq: "load ?s = load s" "alive ?s = alive s" by (rule load_app; simp)+
  then have b: "bounded k ?s = bounded k s" for k by (simp add: bounded_def fun_eq_iff)
  have refl: "bounded k ?s ?s" for k by (simp add: bounded_def)
  have len: "length (ae_state (sy_app ?s)) = BLE_ACTIVITY_MAX" using assms by simp
  have send: "bounded 10 ?s (ke_msg_send (G_set_wl w) (upd_app (\<lambda>a. a\<lparr>ae_need_set_white_list := x, ae_setting_white_list := y\<rparr>) ?s))" for w x y
  proof -
    have "load (upd_app (\<lambda>a. a\<lparr>ae_need_set_white_list := x, ae_setting_white_list := y\<rparr>) ?s) = load ?s"
        "alive (upd_app (\<lambda>a. a\<lparr>ae_need_set_white_list := x, ae_setting_white_list := y\<rparr>) ?s) = alive ?s" by (rule load_app; simp)+
    then show ?thesis by (simp add: bounded_def)
  qed
  have "yields (appm_set_white_list addrs s) (bounded 10 ?s)"
    unfolding appm_set_white_list_def Let_def yields_simps
    by (auto split: option.splits simp: flags_bounded stops_bounded [OF len] refl send
        intro!: yields_value [where r = "started_adv a b" for a b] yields_value [where r = "is_in_state a b c" for a b c])
  then show ?thesis by (simp add: b)
qed

text \<open>One activity less: there is room for what the white list stops next.\<close>

lemma pending_work:
  assumes "length (ae_state (sy_app s1)) = BLE_ACTIVITY_MAX" "load s1 + 4 \<le> load s" "alive s1 + 1 \<le> alive s"
    "ae_need_set_white_list (sy_app s1) \<Longrightarrow> ae_need_set_white_list (sy_app s)"
  shows "yields (pending_white_list s1) (\<lambda>t. work t < work s)"
proof (cases "ae_need_set_white_list (sy_app s1)")
  case True
  then have "work t < work s" if "bounded 10 s1 t" for t using that assms(2-4) by (simp add: work_def bounded_def)
  with True show ?thesis using yields_mono [OF white_list_bounded [OF assms(1)]] by (simp add: pending_white_list_def)
next
  case False
  with assms(2) show ?thesis by (simp add: pending_white_list_def work_def)
qed

lemma gone_work:
  assumes "length (ae_state (sy_app s)) = BLE_ACTIVITY_MAX" "unat idx < BLE_ACTIVITY_MAX" "state_work (actv_state_at (sy_app s) idx) = 4"
    "actv_state_at (sy_app s) idx \<noteq> APP_ACTV_STATE_IDLE"
  shows "load (put_state idx APP_ACTV_STATE_IDLE s) + 4 = load s" "alive (put_state idx APP_ACTV_STATE_IDLE s) + 1 = alive s"
  using load_put [of idx s APP_ACTV_STATE_IDLE] alive_put [of idx s APP_ACTV_STATE_IDLE] assms by auto

text \<open>Nothing is added to the resolving list, and a list that waits excludes a restart.\<close>

lemma answered_flags:
  assumes "answered False idx s"
  shows "\<not> ae_need_add_resolving (sy_app s)" "length (ae_state (sy_app s)) = BLE_ACTIVITY_MAX"
    "ae_need_restart_adv (sy_app s) \<Longrightarrow> \<not> ae_need_set_white_list (sy_app s)"
    "ae_need_restart_scan (sy_app s) \<Longrightarrow> \<not> ae_need_set_white_list (sy_app s)"
    "ae_need_restart_connect (sy_app s) \<Longrightarrow> \<not> ae_need_set_white_list (sy_app s)"
  using answeredD(1,2) [OF assms]
  by (auto simp: core_def adv_phase_def adv_at_rest_def scan_phase_def scan_at_rest_def conn_phase_def conn_at_rest_def list_phase_def actv_wf_def)

lemma scan_deleted_work:
  assumes a: "answered False idx s" and st: "actv_state_at (sy_app s) idx = APP_SCAN_STATE_DELETING"
  shows "yields (scan_deleted idx s) (\<lambda>t. work t < work s)"
proof -
  note f = answered_flags [OF a] and d = answeredD [OF a]
  let ?g = "upd_app (\<lambda>a. a\<lparr>ae_scan_actv_idx := INVALID_BLE_ACTIVITY_INDEX\<rparr>) (put_state idx APP_ACTV_STATE_IDLE s)"
  have eq: "load ?g = load (put_state idx APP_ACTV_STATE_IDLE s)" "alive ?g = alive (put_state idx APP_ACTV_STATE_IDLE s)"
    by (rule load_app; simp)+
  note g = gone_work [OF f(2) d(5), unfolded st, simplified]
  have pend: "yields (pending_white_list (ended x idx ?g)) (\<lambda>t. work t < work s)" for x
    using eq g f(2) by (intro pending_work) simp_all
  have again: "load (ke_msg_send (G_create_scan b) (upd_app (set_scan_param i w p) (upd_app (\<lambda>a. a\<lparr>ae_need_restart_scan := False\<rparr>) ?g))) < load s"
    if "ae_need_restart_scan (sy_app s)" for b i w p
  proof -
    have "load (upd_app (\<lambda>a. a\<lparr>ae_need_restart_scan := False\<rparr>) ?g) + 6 = load ?g" using that by (simp add: load_def)
    moreover have "load (upd_app (set_scan_param i w p) t) = load t" for t by (rule load_app) simp_all
    ultimately show ?thesis using eq g by simp
  qed
  show ?thesis
    using f pend again d(5)
    by (auto simp: scan_deleted_def Let_def pending_rpa_list_def appm_start_scanning_def work_def)
qed

lemma connect_deleted_work:
  assumes a: "answered False idx s" and st: "actv_state_at (sy_app s) idx = APP_CONNECT_STATE_DELETING"
  shows "yields (connect_deleted idx s) (\<lambda>t. work t < work s)"
proof -
  note f = answered_flags [OF a] and d = answeredD [OF a]
  let ?g = "upd_app (\<lambda>a. a\<lparr>ae_connect_actv_idx := INVALID_BLE_ACTIVITY_INDEX\<rparr>) (put_state idx APP_ACTV_STATE_IDLE s)"
  let ?h = "upd_app (\<lambda>a. a\<lparr>ae_need_restart_connect := False\<rparr>) ?g"
  have eq: "load ?g = load (put_state idx APP_ACTV_STATE_IDLE s)" "alive ?g = alive (put_state idx APP_ACTV_STATE_IDLE s)"
    by (rule load_app; simp)+
  note g = gone_work [OF f(2) d(5), unfolded st, simplified]
  have pend: "yields (pending_white_list (ended x idx ?g)) (\<lambda>t. work t < work s)" for x
    using eq g f(2) by (intro pending_work) simp_all
  have again: "load (ke_msg_send (G_create_init b) (upd_app (\<lambda>a. a\<lparr>ae_init_param := p\<rparr>) ?h)) < load s" "load ?h < load s"
    if "ae_need_restart_connect (sy_app s)" for b p
  proof -
    have h: "load ?h + 6 = load ?g" using that by (simp add: load_def)
    moreover have "load (upd_app (\<lambda>a. a\<lparr>ae_init_param := p\<rparr>) ?h) = load ?h" by (rule load_app) simp_all
    ultimately show "load (ke_msg_send (G_create_init b) (upd_app (\<lambda>a. a\<lparr>ae_init_param := p\<rparr>) ?h)) < load s" "load ?h < load s"
      using eq g by simp_all
  qed
  show ?thesis
    using f pend again d(5)
    by (auto simp: connect_deleted_def Let_def pending_rpa_list_def appm_start_connecting_def work_def)
qed

text \<open>Advertising that is started again: its own activity, if it is still there, is going down already.\<close>

lemma restart_adv_work:
  assumes len: "length (ae_state (sy_app t)) = BLE_ACTIVITY_MAX" and r: "ae_need_restart_adv (sy_app t)"
    and u: "\<And>idx. adv_user_idx (ap_actv_user p) t = Inr idx \<Longrightarrow> idx \<noteq> INVALID_BLE_ACTIVITY_INDEX \<Longrightarrow>
      actv_state_at (sy_app t) idx \<noteq> APP_ADV_STATE_STARTED"
  shows "yields (appm_start_advertising p (upd_app (\<lambda>a. a\<lparr>ae_need_restart_adv := False\<rparr>) t)) (\<lambda>x. load x \<le> load t)"
proof -
  let ?t = "upd_app (\<lambda>a. a\<lparr>ae_need_restart_adv := False\<rparr>) t"
  let ?f = "upd_app (\<lambda>a. a\<lparr>ae_advParam := p, ae_need_set_rsp_data := False\<rparr>)"
  have same: "adv_user_idx (ap_actv_user p) ?t = adv_user_idx (ap_actv_user p) t" by (simp add: adv_user_idx_def)
  have flags: "load (upd_app (\<lambda>a. a\<lparr>ae_need_set_rsp_data := b\<rparr>) (?f x)) = load x" "load (?f x) = load x" for b x
  proof -
    show 2: "load (?f x) = load x" by (rule load_app) simp_all
    have "load (upd_app (\<lambda>a. a\<lparr>ae_need_set_rsp_data := b\<rparr>) (?f x)) = load (?f x)" by (rule load_app) simp_all
    with 2 show "load (upd_app (\<lambda>a. a\<lparr>ae_need_set_rsp_data := b\<rparr>) (?f x)) = load x" by simp
  qed
  have set: "load (upd_app (\<lambda>a. a\<lparr>ae_need_restart_adv := True\<rparr>) (?f ?t)) = load t"
    using r by (simp add: load_def)
  have clear: "load ?t + 8 = load t" using r by (simp add: load_def)
  have stop: "yields (appm_stop_advertising idx x) (\<lambda>y. load y \<le> load x)" if "actv_state_at (sy_app x) idx \<noteq> APP_ADV_STATE_STARTED" for idx x
    using that by (simp add: appm_stop_advertising_def)
  have stop': "yields (appm_stop_advertising idx (upd_app (\<lambda>a. a\<lparr>ae_need_restart_adv := True\<rparr>) (?f ?t))) (\<lambda>x. load x \<le> load t)"
    if "adv_user_idx (ap_actv_user p) t = Inr idx" "idx \<noteq> INVALID_BLE_ACTIVITY_INDEX" for idx
    using stop [of "upd_app (\<lambda>a. a\<lparr>ae_need_restart_adv := True\<rparr>) (?f ?t)" idx] u [OF that] set by (simp add: actv_state_at_def)
  show ?thesis
    using clear unfolding appm_start_advertising_def Let_def yields_simps same
    by (intro yields_value) (simp add: flags stop')
qed

lemma adv_deleted_work:
  assumes a: "answered False idx s" and v: "v < BLE_ADV_ACTIVITY_USER_NUM" "ae_adv_actv_idx (sy_app s) ! v = idx"
    and st: "actv_state_at (sy_app s) idx = APP_ADV_STATE_DELETING"
  shows "yields (adv_deleted e idx s) (\<lambda>t. work t < work s)"
proof -
  note f = answered_flags [OF a] and d = answeredD [OF a]
  let ?g = "adv_gone e idx s"
  have eq: "load ?g = load (put_state idx APP_ACTV_STATE_IDLE s)" "alive ?g = alive (put_state idx APP_ACTV_STATE_IDLE s)"
    unfolding adv_gone_def appm_clear_adv_activity_index_def by (subst load_app; simp)+
  note g = gone_work [OF f(2) d(5), unfolded st, simplified]
  have pend: "yields (pending_white_list (ended x idx ?g)) (\<lambda>t. work t < work s)" for x
    using eq g f(2) by (intro pending_work) simp_all
  have quietly: "\<not> ae_need_set_white_list (sy_app s) \<Longrightarrow> work (ended x idx ?g) < work s" for x
    using eq g by (simp add: work_def)
  have again: "yields (appm_start_advertising (ae_advParam (sy_app s)) (upd_app (\<lambda>a. a\<lparr>ae_need_restart_adv := False\<rparr>) ?g)) (\<lambda>t. work t < work s)"
    if r: "ae_need_restart_adv (sy_app s)"
  proof -
    let ?p = "ae_advParam (sy_app s)" let ?u = "ap_actv_user ?p"
    have core: "core False (bm_actv_action (sy_mode s)) (bm_op_actv_idx (sy_mode s)) s" by (rule d(2))
    then have "adv_starting (sy_app s) (sy_sent s)" using r by (auto simp: core_def adv_phase_def adv_at_rest_def split: if_splits)
    then have u: "?u < BLE_ADV_ACTIVITY_USER_NUM" "adv_down (adv_slot (sy_app s) ?u)" using r by (auto simp: adv_starting_def Let_def)
    note view = adv_gone_view [OF d(1) v d(6) refl, where e = e]
    have "adv_slot (sy_app ?g) ?u \<noteq> APP_ADV_STATE_STARTED" using view(3) [OF u(1)] u(2) by (auto simp: adv_down_def)
    then have ns: "actv_state_at (sy_app ?g) i \<noteq> APP_ADV_STATE_STARTED"
      if "adv_user_idx ?u ?g = Inr i" "i \<noteq> INVALID_BLE_ACTIVITY_INDEX" for i
      using that u(1) by (auto simp: adv_user_idx_def adv_slot_def slot_def actv_state_at_def)
    have "yields (appm_start_advertising ?p (upd_app (\<lambda>a. a\<lparr>ae_need_restart_adv := False\<rparr>) ?g)) (\<lambda>t. load t \<le> load ?g)"
      using r f(2) ns by (intro restart_adv_work) simp_all
    moreover have "yields (appm_start_advertising ?p (upd_app (\<lambda>a. a\<lparr>ae_need_restart_adv := False\<rparr>) ?g))
        (\<lambda>t. ae_need_set_white_list (sy_app t) = ae_need_set_white_list (sy_app s))"
      by (auto simp: appm_start_advertising_def appm_stop_advertising_def Let_def intro!: yields_value)
    ultimately show ?thesis
      using f(3) [OF r] eq g by (auto simp: yields_def work_def)
  qed
  show ?thesis
    using f(1,2) pend again quietly d(5)
    by (simp add: adv_deleted_def Let_def adv_gone_def [symmetric] pending_rpa_list_def)
qed

lemma fsm_work:
  assumes a: "answered False idx s"
    and k: "kind_of (actv_state_at (sy_app s) idx) = owner (ae_adv_actv_idx (sy_app s)) (ae_scan_actv_idx (sy_app s)) (ae_connect_actv_idx (sy_app s)) idx"
    and st: "actv_state_at (sy_app s) idx \<notin> {APP_ADV_STATE_CREATING, APP_SCAN_STATE_CREATING, APP_CONNECT_STATE_CREATING}"
  shows "yields (appm_actv_fsm_next e idx ok s) (\<lambda>t. work t < work s)"
proof -
  note d = answeredD [OF a] and len = answered_flags(2) [OF a]
  have light: "yields r (lighter s) \<Longrightarrow> yields r (\<lambda>t. work t < work s)" for r
    by (erule yields_mono) (rule lighter_work)
  have gone: "yields (adv_deleted e idx s) (\<lambda>t. work t < work s)" if st: "actv_state_at (sy_app s) idx = APP_ADV_STATE_DELETING"
  proof -
    have "idx \<in> set (ae_adv_actv_idx (sy_app s))" using k st by (simp add: owner_def split: if_splits)
    then obtain v where "v < BLE_ADV_ACTIVITY_USER_NUM" "ae_adv_actv_idx (sy_app s) ! v = idx"
      using d(1) by (auto simp: in_set_conv_nth actv_wf_def slots_ok_def)
    from adv_deleted_work [OF a this st] show ?thesis .
  qed
  note prep = lighter_prepare [OF len, THEN light]
  show ?thesis
    using st gone scan_deleted_work [OF a] connect_deleted_work [OF a] prep
    by (cases "actv_state_at (sy_app s) idx") (auto simp: appm_actv_fsm_next_def)
qed

section \<open>Answers of the host\<close>

text \<open>An event that answers a command.\<close>

fun answers :: "sys_event \<Rightarrow> ble_sys \<Rightarrow> bool" where
  "answers (Answer e c idx ok) s = (c \<in> set (sy_sent s))"
| "answers (Stopped e idx) s = (G_stop idx \<in> set (sy_sent s) \<and> actv_state_at (sy_app s) idx = APP_CONNECT_STATE_STARTED)"
| "answers (Disconnected mic i) s = (G_disconnect i \<in> set (sy_sent s))"
| "answers ev s = False"

lemma remove_work: "c \<in> set S \<Longrightarrow> sum_list (map cmd_work (remove1 c S)) + cmd_work c = sum_list (map cmd_work S)"
  by (induction S) auto

lemma filter_work: "c \<in> set S \<Longrightarrow> sum_list (map cmd_work (filter (\<lambda>d. d \<noteq> c) S)) + cmd_work c \<le> sum_list (map cmd_work S)"
proof (induction S)
  case (Cons d S)
  have "sum_list (map cmd_work (filter (\<lambda>d. d \<noteq> c) S)) \<le> sum_list (map cmd_work S)" by (induction S) auto
  with Cons show ?case by auto
qed simp

lemma take_off_work:
  "c \<in> set (sy_sent s) \<Longrightarrow> load (take_off c s) + cmd_work c = load s"
  "c \<in> set (sy_sent s) \<Longrightarrow> load (take_off_all c s) + cmd_work c \<le> load s"
  "alive (take_off c s) = alive s" "alive (take_off_all c s) = alive s"
  using remove_work [of c "sy_sent s"] filter_work [of c "sy_sent s"] by (auto simp: load_def alive_def)

lemma create_work:
  assumes len: "length (ae_state (sy_app s)) = BLE_ACTIVITY_MAX" and idle: "actv_state_at (sy_app s) idx = APP_ACTV_STATE_IDLE"
    and next_step: "\<And>t. actv_state_at (sy_app t) idx = creating \<Longrightarrow> length (ae_state (sy_app t)) = BLE_ACTIVITY_MAX \<Longrightarrow> load t = load s \<Longrightarrow>
      ae_need_set_white_list (sy_app t) = ae_need_set_white_list (sy_app s) \<Longrightarrow> yields (appm_actv_fsm_next e idx True t) P"
    and creating: "state_work creating = 0"
    and store: "yields (store s) (\<lambda>t. ae_state (sy_app t) = ae_state (sy_app s) \<and> load t = load s \<and>
      ae_need_set_white_list (sy_app t) = ae_need_set_white_list (sy_app s))"
  shows "yields (created e creating idx store s) P"
proof -
  have go: "yields (appm_actv_fsm_next e idx True (put_state idx creating t)) P"
    if "unat idx < BLE_ACTIVITY_MAX" "ae_state (sy_app t) = ae_state (sy_app s)" "load t = load s"
      "ae_need_set_white_list (sy_app t) = ae_need_set_white_list (sy_app s)" for t
  proof (rule next_step)
    have "actv_state_at (sy_app t) idx = APP_ACTV_STATE_IDLE" using idle that(2) by (simp add: actv_state_at_def)
    then show "load (put_state idx creating t) = load s"
      using load_put [of idx t creating] that len creating by simp
  qed (use that len in simp_all)
  have "yields (store s) (\<lambda>t. unat idx < BLE_ACTIVITY_MAX \<longrightarrow> yields (appm_actv_fsm_next e idx True (put_state idx creating t)) P)"
    by (rule yields_mono [OF store]) (use go in blast)
  then show ?thesis using idle by (auto simp: created_def intro: yields_mono)
qed

lemma created_work:
  assumes len: "length (ae_state (sy_app s)) = BLE_ACTIVITY_MAX" and idle: "actv_state_at (sy_app s) idx = APP_ACTV_STATE_IDLE"
    and need: "\<not> ae_need_set_white_list (sy_app s)"
  shows "yields (created e APP_ADV_STATE_CREATING idx (store_adv_idx idx) s) (\<lambda>t. work t < load s + 8)"
    and "yields (created e APP_SCAN_STATE_CREATING idx (\<lambda>s. Inr (upd_app (\<lambda>a. a\<lparr>ae_scan_actv_idx := idx\<rparr>) s)) s) (\<lambda>t. work t < load s + 6)"
    and "yields (created e APP_CONNECT_STATE_CREATING idx (\<lambda>s. Inr (upd_app (\<lambda>a. a\<lparr>ae_connect_actv_idx := idx\<rparr>) s)) s) (\<lambda>t. work t < load s + 6)"
proof -
  have put: "load (put_state j st (ke_msg_send c t)) \<le> load t + state_work st"
    if "unat j < BLE_ACTIVITY_MAX" "length (ae_state (sy_app t)) = BLE_ACTIVITY_MAX" "cmd_work c = 0" for j st c t
    using load_put [of j "ke_msg_send c t" st] that by simp
  have clear: "load (clear_update t) = load t" for t unfolding clear_update_def by (rule load_app) simp_all
  show "yields (created e APP_ADV_STATE_CREATING idx (store_adv_idx idx) s) (\<lambda>t. work t < load s + 8)"
  proof (rule create_work [OF len idle])
    fix t
    assume t: "actv_state_at (sy_app t) idx = APP_ADV_STATE_CREATING" "length (ae_state (sy_app t)) = BLE_ACTIVITY_MAX" "load t = load s"
        "ae_need_set_white_list (sy_app t) = ae_need_set_white_list (sy_app s)"
    have "work (put_state idx st (ke_msg_send c t)) < load s + 8"
      if "unat idx < BLE_ACTIVITY_MAX" "cmd_work c = 0" "state_work st < 8" for st c
      using put [OF that(1) t(2) that(2), of st] that(3) t(3,4) need by (simp add: work_def)
    moreover have "work (clear_update x) = work x" for x
      unfolding work_def clear_update_def by (subst load_app; simp)+
    ultimately show "yields (appm_actv_fsm_next e idx True t) (\<lambda>t. work t < load s + 8)"
      using t(1) by (auto simp: appm_actv_fsm_next_def appm_kick_off_advertising_def appm_set_adv_data_def Let_def clear_update_commute
          intro!: yields_value [where r = "message_data a b" for a b])
  next
    show "yields (store_adv_idx idx s) (\<lambda>t. ae_state (sy_app t) = ae_state (sy_app s) \<and> load t = load s \<and>
        ae_need_set_white_list (sy_app t) = ae_need_set_white_list (sy_app s))"
      by (auto simp: store_adv_idx_def load_app(1) intro!: yields_value)
  qed simp
  have kick: "work (put_state j st (ke_msg_send c t)) < load s + 6"
    if "unat j < BLE_ACTIVITY_MAX" "length (ae_state (sy_app t)) = BLE_ACTIVITY_MAX" "load t = load s"
      "ae_need_set_white_list (sy_app t) = ae_need_set_white_list (sy_app s)" "state_work st < 6" "cmd_work c = 0" for j st c t
    using put [OF that(1,2,6), of st] that(3-5) need by (simp add: work_def)
  show "yields (created e APP_SCAN_STATE_CREATING idx (\<lambda>s. Inr (upd_app (\<lambda>a. a\<lparr>ae_scan_actv_idx := idx\<rparr>) s)) s) (\<lambda>t. work t < load s + 6)"
    by (rule create_work [OF len idle]) (simp_all add: appm_actv_fsm_next_def appm_kick_off_scanning_def Let_def kick load_app(1))
  show "yields (created e APP_CONNECT_STATE_CREATING idx (\<lambda>s. Inr (upd_app (\<lambda>a. a\<lparr>ae_connect_actv_idx := idx\<rparr>) s)) s) (\<lambda>t. work t < load s + 6)"
    by (rule create_work [OF len idle]) (simp_all add: appm_actv_fsm_next_def appm_kick_off_connecting_def Let_def kick load_app(1))
qed

lemma not_creating:
  assumes a: "answered r idx s"
    and k: "kind_of (actv_state_at (sy_app s) idx) = owner (ae_adv_actv_idx (sy_app s)) (ae_scan_actv_idx (sy_app s)) (ae_connect_actv_idx (sy_app s)) idx"
  shows "actv_state_at (sy_app s) idx \<notin> {APP_ADV_STATE_CREATING, APP_SCAN_STATE_CREATING, APP_CONNECT_STATE_CREATING}"
proof -
  note d = answeredD [OF a]
  have phases: "adv_phase (bm_actv_action (sy_mode s)) (bm_op_actv_idx (sy_mode s)) (sy_app s) (sy_sent s)"
      "scan_phase (bm_actv_action (sy_mode s)) (sy_app s) (sy_sent s)" "conn_phase (bm_actv_action (sy_mode s)) (sy_app s) (sy_sent s)"
    using d(2) by (simp_all add: core_def)
  have adv: False if st: "actv_state_at (sy_app s) idx = APP_ADV_STATE_CREATING"
  proof -
    have "idx \<in> set (ae_adv_actv_idx (sy_app s))" using k st by (simp add: owner_def split: if_splits)
    then obtain v where v: "v < BLE_ADV_ACTIVITY_USER_NUM" "ae_adv_actv_idx (sy_app s) ! v = idx"
      using d(1) by (auto simp: in_set_conv_nth actv_wf_def slots_ok_def)
    have "adv_slot (sy_app s) v = APP_ADV_STATE_CREATING" using adv_activity(2) [OF d(1) v(1)] v(2) d(6) st by simp
    then show False
      using phases(1) v(1) by (cases "v = ap_actv_user (ae_advParam (sy_app s))")
        (auto simp: adv_phase_def adv_starting_def adv_at_rest_def adv_settled_def adv_down_def adv_preparing_def Let_def split: if_splits)
  qed
  have scan: False if st: "actv_state_at (sy_app s) idx = APP_SCAN_STATE_CREATING"
  proof -
    have "ae_scan_actv_idx (sy_app s) = idx" using k st by (simp add: owner_def split: if_splits)
    then have "scan_slot (sy_app s) = APP_SCAN_STATE_CREATING" using scan_activity(2) [OF d(1)] d(6) st by simp
    then show False using phases(2) by (auto simp: scan_phase_def scan_at_rest_def scan_down_def split: if_splits)
  qed
  have conn: False if st: "actv_state_at (sy_app s) idx = APP_CONNECT_STATE_CREATING"
  proof -
    have "ae_connect_actv_idx (sy_app s) = idx" using k st by (simp add: owner_def split: if_splits)
    then have "conn_slot (sy_app s) = APP_CONNECT_STATE_CREATING" using conn_activity(2) [OF d(1)] d(6) st by simp
    then show False using phases(3) by (auto simp: conn_phase_def conn_at_rest_def conn_down_def split: if_splits)
  qed
  show ?thesis using adv scan conn by auto
qed

lemma take_off_less: "c \<in> set (sy_sent s) \<Longrightarrow> work (take_off c s) \<le> work s"
  using take_off_work(1) [of c s] by (simp add: work_def take_off_work(3))

lemma answer_work:
  assumes i: "sys_inv False s" and en: "enabled False (Answer e c idx ok) s" and x: "sys_exec (Answer e c idx ok) s = Inr t"
  shows "work t < work s"
proof -
  have c: "c \<in> set (sy_sent s)" using en by simp
  have core: "core False (bm_actv_action (sy_mode s)) (bm_op_actv_idx (sy_mode s)) s" using i by (simp add: sys_inv_def)
  have len: "length (ae_state (sy_app (take_off c s))) = BLE_ACTIVITY_MAX" using i state_length [of None s] by (simp add: sys_inv_def)
  note p = core_parts [OF core]
  have need: "\<not> ae_need_set_white_list (sy_app s)" if cr: "creates c"
  proof -
    consider "is_create_adv c" | "is_create_scan c" | "is_create_init c" using cr by (cases c) auto
    then show ?thesis
    proof cases
      case 1
      then have "owing is_create_adv (sy_sent s) \<noteq> 0" using c owing_pos [of is_create_adv "sy_sent s"] by auto
      with p(1) have "bm_actv_action (sy_mode s) = BLE_ACTV_ACTION_STARTING_ADV" by (auto simp: adv_at_rest_def)
      with p(4) show ?thesis by simp
    next
      case 2
      then have "owing is_create_scan (sy_sent s) \<noteq> 0" using c owing_pos [of is_create_scan "sy_sent s"] by auto
      with p(2) have "bm_actv_action (sy_mode s) = BLE_ACTV_ACTION_STARTING_SCAN" by (auto simp: scan_at_rest_def)
      with p(4) show ?thesis by simp
    next
      case 3
      then have "owing is_create_init (sy_sent s) \<noteq> 0" using c owing_pos [of is_create_init "sy_sent s"] by auto
      with p(3) have "bm_actv_action (sy_mode s) = BLE_ACTV_ACTION_CONNECTING" by (auto simp: conn_at_rest_def)
      with p(4) show ?thesis by simp
    qed
  qed
  have new: "work t < work s" if cr: "creates c"
  proof -
    have idle: "actv_state_at (sy_app (take_off c s)) idx = APP_ACTV_STATE_IDLE" using en cr by simp
    have "\<not> ae_need_set_white_list (sy_app (take_off c s))" using need [OF cr] by simp
    note cw = created_work [OF len idle this]
    have "work t < load (take_off c s) + cmd_work c" using cr x cw en by (cases c) (auto simp: yields_def split: if_splits)
    then show ?thesis using take_off_work(1) [OF c] need [OF cr] by (simp add: work_def)
  qed
  show ?thesis
  proof (cases "cmd_idx c")
    case (Some j)
    then obtain oper where o: "operation c = Some oper" "gapm_cmp_evt_handler e oper j ok = appm_actv_fsm_next e j ok"
      by (cases c) (auto simp: fun_eq_iff)
    have "c = G_stop j \<Longrightarrow> actv_state_at (sy_app s) j \<noteq> APP_CONNECT_STATE_STARTED" using en by auto
    note ans = answer_answered [OF i c Some this]
    have "yields (appm_actv_fsm_next e j ok (take_off c s)) (\<lambda>t. work t < work (take_off c s))"
      using ans by (intro fsm_work not_creating [OF ans(1)]) simp_all
    then have "work t < work (take_off c s)" using x Some o by (simp add: yields_def)
    then show ?thesis using take_off_less [OF c] by simp
  next
    case None
    have lists: "load (white_list_complete s') = load s'" "load (resolving_list_complete s') = load s'"
        "alive (resolving_list_complete s') = alive s'" for s'
    proof -
      have "load (upd_app (\<lambda>a. a\<lparr>ae_need_set_white_list := False, ae_setting_white_list := False\<rparr>) s') = load s'"
          "load (upd_app (\<lambda>a. a\<lparr>ae_need_add_resolving := False, ae_adding_resolving := False\<rparr>) s') = load s'"
          "alive (upd_app (\<lambda>a. a\<lparr>ae_need_add_resolving := False, ae_adding_resolving := False\<rparr>) s') = alive s'"
        by (rule load_app; simp)+
      then show "load (white_list_complete s') = load s'" "load (resolving_list_complete s') = load s'"
        "alive (resolving_list_complete s') = alive s'"
        by (simp_all add: white_list_complete_def resolving_list_complete_def)
    qed
    have flags: "\<not> ae_need_set_white_list (sy_app (white_list_complete s'))"
        "ae_need_set_white_list (sy_app (resolving_list_complete s')) = ae_need_set_white_list (sy_app s')" for s'
      by (simp_all add: white_list_complete_def resolving_list_complete_def)
    have "work t < work s" if "\<not> creates c"
      using that None en x take_off_work(1) [OF c]
      by (cases c) (auto simp: work_def lists flags take_off_work(3))
    with new show ?thesis by blast
  qed
qed

lemma stopped_work:
  assumes i: "sys_inv r s" and a: "answers (Stopped e idx) s" and b: "unat idx < BLE_ACTIVITY_MAX"
    and x: "sys_exec (Stopped e idx) s = Inr t"
  shows "work t < work s"
proof -
  let ?s = "take_off_all (G_stop idx) s"
  have st: "actv_state_at (sy_app s) idx = APP_CONNECT_STATE_STARTED" and c: "G_stop idx \<in> set (sy_sent s)" using a by simp_all
  have len: "length (ae_state (sy_app ?s)) = BLE_ACTIVITY_MAX" using i state_length [of None s] by (simp add: sys_inv_def)
  have at: "actv_state_at (sy_app (put_state idx APP_CONNECT_STATE_STOPPING ?s)) idx = APP_CONNECT_STATE_STOPPING" using len b by simp
  have "t = put_state idx APP_CONNECT_STATE_DELETING (ke_msg_send (G_delete idx) ?s)"
    using x st b at by (auto simp: gapm_activity_stopped_ind_handler_def with_state_def appm_update_actv_state_def c_assert_def
        appm_actv_fsm_next_def go_deleting_def appm_delete_activity_def split: if_splits)
  then show ?thesis
    using load_put [of idx "ke_msg_send (G_delete idx) ?s" APP_CONNECT_STATE_DELETING]
      alive_put [of idx "ke_msg_send (G_delete idx) ?s" APP_CONNECT_STATE_DELETING] len b st take_off_work(2) [OF c]
    by (auto simp: work_def take_off_work(4))
qed

lemma disconnected_work:
  assumes a: "answers (Disconnected mic j) s" and m: "mic = None" and x: "sys_exec (Disconnected mic j) s = Inr t"
  shows "work t < work s"
proof -
  have "load (upd_app (set_status i st) s') = load s'" "alive (upd_app (set_status i st) s') = alive s'" for i st s'
    by (rule load_app; simp add: set_status_def)+
  moreover have "ae_need_set_white_list (sy_app (upd_app (set_status i st) s')) = ae_need_set_white_list (sy_app s')" for i st s'
    by (simp add: set_status_def)
  moreover have "load (take_off_all (G_disconnect j) s) + 1 \<le> load s" using take_off_work(2) [of "G_disconnect j" s] a by simp
  ultimately show ?thesis
    using x m by (auto simp: gapc_disconnect_ind_handler_def Let_def work_def take_off_work(4) split: if_splits)
qed

lemma answers_work:
  assumes "sys_inv False s" "enabled False ev s" "answers ev s" "sys_exec ev s = Inr t"
  shows "work t < work s"
proof (cases ev)
  case (Answer e c idx ok)
  with answer_work [OF assms(1)] assms show ?thesis by blast
next
  case (Stopped e idx)
  with stopped_work [OF assms(1)] assms show ?thesis by auto
next
  case (Disconnected mic j)
  with disconnected_work [of mic j s t] assms show ?thesis by auto
qed (use assms(3) in simp_all)

end
