(* ===== verification/BleActvLive.thy ===== *)
theory BleActvLive
  imports BleActvWork
begin

text \<open>The properties of the two BLE layers together: the states are well typed, the layers return, every operation ends, the scheduler is
  refined, and where the code does not do what it means to.\<close>

section \<open>An answer is owed\<close>









section \<open>Runs\<close>

text \<open>A run of the layers: enabled events, one after the other.\<close>

fun sys_run :: "bool \<Rightarrow> sys_event list \<Rightarrow> ble_sys \<Rightarrow> ble_sys option" where
  "sys_run r [] s = Some s"
| "sys_run r (ev # evs) s =
     (if enabled r ev s then case sys_exec ev s of Inl err \<Rightarrow> None | Inr t \<Rightarrow> sys_run r evs t else None)"

lemma sys_run_reach: "sys_reach r s \<Longrightarrow> sys_run r evs s = Some t \<Longrightarrow> sys_reach r t"
  by (induction evs arbitrary: s) (auto split: if_splits sum.splits intro: sys_reach.Event)

text \<open>A run in which the host only answers.\<close>

inductive answered_by :: "sys_event list \<Rightarrow> ble_sys \<Rightarrow> ble_sys \<Rightarrow> bool" where
  Nothing: "answered_by [] s s"
| Answered: "enabled False ev s \<Longrightarrow> answers ev s \<Longrightarrow> sys_exec ev s = Inr t \<Longrightarrow> answered_by evs t u \<Longrightarrow> answered_by (ev # evs) s u"

inductive_cases answered_by_Cons: "answered_by (ev # evs) s u"

lemma answered_reach: "answered_by evs s t \<Longrightarrow> sys_reach False s \<Longrightarrow> sys_reach False t"
  by (induction rule: answered_by.induct) (auto intro: sys_reach.Event)


definition operation_over :: "ble_sys \<Rightarrow> bool" where
  "operation_over s \<longleftrightarrow> \<not> bm_is_busy (sy_mode s) \<or> bm_posted (sy_mode s) \<noteq> []"




text \<open>An environment in which advertising is allowed, and a run that scans.\<close>

definition quiet_env :: ble_env where
  "quiet_env = \<lparr>be_adv_actv_idx = [], be_adv_started = (\<lambda>_. False), be_scan_actv_idx = 0, be_scan_started = False, be_resolving_num = 0,
     be_stack_ready = True, be_power_off = False, be_sco_active = False, be_max_connections = False, be_access_mode = 0,
     be_battery = 0, be_bt_addr = empty_addr, be_ble_addr = empty_addr\<rparr>"

definition a_scan :: scan_param where
  "a_scan = \<lparr>sc_scanType = 0, sc_scanWindow = 10, sc_scanInterval = 20\<rparr>"

definition scan_asked :: "sys_event list" where
  "scan_asked = [Request quiet_env (Start_Scan a_scan), Thread quiet_env]"

text \<open>The conversion of milliseconds, with integers.\<close>

lemma scan_slots_code [code]: "scan_slots ms = word_of_int (uint ms * 8 div 5)"
proof -
  have "unat ms * 1000 div 625 = unat ms * 8 * 125 div (5 * 125)" by simp
  also have "\<dots> = unat ms * 8 div 5" by (rule div_mult_mult2) simp
  finally have "scan_slots ms = of_nat (unat ms * 8 div 5)" by (simp add: scan_slots_def)
  moreover have "int (unat ms * 8 div 5) = uint ms * 8 div 5" by (simp add: zdiv_int)
  ultimately show ?thesis by (metis of_int_of_nat_eq)
qed

lemma run_scan_asked: "case sys_run False scan_asked appm_init of None \<Rightarrow> False | Some s \<Rightarrow> sy_sent s = [G_create_scan False] \<and> \<not> operation_over s"
  by code_simp

definition scan_fails :: "sys_event list" where
  "scan_fails = scan_asked @
     [Answer quiet_env (G_create_scan False) 0 True,
      Answer quiet_env (G_start_scan 0 \<lparr>ss_selective = False, ss_accept_rpa = False, ss_scan_intv = 32, ss_scan_wd = 16\<rparr>) 0 False]"



lemma run_witness: "case sys_run r evs s of None \<Rightarrow> False | Some t \<Rightarrow> P t \<Longrightarrow> sys_reach r s \<Longrightarrow> \<exists>t. sys_reach r t \<and> P t"
  by (auto split: option.splits intro: sys_run_reach)

section \<open>Properties\<close>





text \<open>C36: When the scheduler's own function returns, the call to the activities that it ends with returns too, with one exception:
  a scan that is to be started again, with the same use of private addresses, while it is being torn down.\<close>

theorem thread_returns_unless_scan_down:
  assumes "sys_reach r s" and "bm_posted (sy_mode s) = p # ps"
    and "run_op (actv_view (sy_app s) e) p ((sy_mode s)\<lparr>bm_posted := ps\<rparr>) = Inr m"
  shows "(\<exists>t. sys_exec (Thread e) s = Inr t) \<longleftrightarrow>
    \<not> (p = P_start_scan \<and> scan_refused (ucast (sc_scanType (bm_scanPendingInfo (sy_mode s)))) s)"
proof (cases "p = P_start_scan \<and> scan_refused (ucast (sc_scanType (bm_scanPendingInfo (sy_mode s)))) s")
  case True
  then have "sys_exec (Thread e) s = Inl Assert_Fail"
    using thread_asserts [OF reach_sys_inv [OF assms(1)], of ps e] assms(2) by simp
  with True show ?thesis by simp
next
  case False
  then have "returns (sys_exec (Thread e) s) (sys_inv r)"
    using thread_event_inv [OF reach_sys_inv [OF assms(1)] assms(2,3)] by blast
  with False show ?thesis by (auto simp: returns_def)
qed

theorem thread_returns_unless_scan_down_witness:
  "\<exists>s t. bm_posted (sy_mode s) = [P_stop_scanning] \<and> sys_exec (Thread quiet_env) s = Inr t"
proof -
  have "case sys_run False [Request quiet_env Stop_Scan] appm_init of None \<Rightarrow> False | Some s \<Rightarrow> bm_posted (sy_mode s) = [P_stop_scanning]"
    by code_simp
  from run_witness [OF this sys_reach.Start] obtain s where s: "sys_reach False s" "bm_posted (sy_mode s) = [P_stop_scanning]" by blast
  from thread_returns_unless_scan_down [OF s] s(2) show ?thesis by auto
qed





text \<open>C29: The activities of \<open>app.c\<close> are a layer below as the scheduler expects it: whatever the two layers do, the scheduler is in
  a state that it can reach by its own steps, so that what is proved of it alone holds of both.\<close>

theorem layers_refine_scheduler:
  assumes "sys_reach r s"
  shows "ble_reach (sy_mode s)"
  using reach_goes [OF assms] ble_reach.Init by (auto simp: goes_def appm_init_def intro: steps_reach)

theorem layers_refine_scheduler_witness: "\<exists>s :: ble_sys. sy_sent s = [G_create_scan False] \<and> ble_reach (sy_mode s)"
proof -
  from run_witness [OF run_scan_asked sys_reach.Start] obtain s where s: "sys_reach False s" "sy_sent s = [G_create_scan False]" by blast
  from layers_refine_scheduler [OF s(1)] s(2) show ?thesis by blast
qed

text \<open>A scan that could not be started and is asked for again before the host has deleted its activity makes the thread fail its
  assertion on the state of the activity.\<close>

theorem scan_restart_asserts:
  "case sys_run False (scan_fails @ [Request quiet_env (Start_Scan a_scan)]) appm_init of None \<Rightarrow> False
   | Some s \<Rightarrow> enabled False (Thread quiet_env) s \<and> (case sys_exec (Thread quiet_env) s of Inl err \<Rightarrow> err = Assert_Fail | Inr t \<Rightarrow> False)"
  by code_simp


end
