(* ===== verification/Sleep.thy ===== *)
theory Sleep
  imports SysFreq
begin

unbundle bit_operations_syntax

text \<open>
  The idle function of \<open>platform/hal/hal_sleep.c\<close>: wake locks of three kinds, hooks that can refuse to sleep, modules that
  are told to stop and to start again around a deep sleep, and the statistics of the time asleep. It reads the votes of the
  frequency arbiter of \<open>SysFreq.thy\<close> and books the time asleep there. The build has no power-down of the core, no
  PSRAM and no \<open>DEBUG\<close>, and has \<open>SLEEP_STATS_TRACE\<close> and \<open>SYSFREQ_STATS\<close>. Drivers are called, not modelled: the calls
  are recorded in order. What the hardware answers, the timer readings, and what hooks and handlers do to the wake locks are
  arguments of the idle function.
\<close>

section \<open>Types\<close>

type_synonym u64 = "64 word"

datatype pm_user_type =
  HAL_PM_USER_HAL | HAL_PM_USER_DRV | HAL_PM_USER_APP_LOW_LEVEL | HAL_PM_USER_APP_MED_LEVEL | HAL_PM_USER_APP_HI_LEVEL

text \<open>The number of an enumeration constant, by which the code compares.\<close>

primrec pm_user_index :: "pm_user_type \<Rightarrow> nat" where
  "pm_user_index HAL_PM_USER_HAL = 0"
| "pm_user_index HAL_PM_USER_DRV = 1"
| "pm_user_index HAL_PM_USER_APP_LOW_LEVEL = 2"
| "pm_user_index HAL_PM_USER_APP_MED_LEVEL = 3"
| "pm_user_index HAL_PM_USER_APP_HI_LEVEL = 4"

lemma pm_user_index_inj: "pm_user_index a = pm_user_index b \<longleftrightarrow> a = b"
  by (cases a; cases b) simp_all

instantiation pm_user_type :: linorder
begin

definition less_eq_pm_user_type :: "pm_user_type \<Rightarrow> pm_user_type \<Rightarrow> bool" where
  "a \<le> b \<longleftrightarrow> pm_user_index a \<le> pm_user_index b"

definition less_pm_user_type :: "pm_user_type \<Rightarrow> pm_user_type \<Rightarrow> bool" where
  "a < b \<longleftrightarrow> pm_user_index a < pm_user_index b"

instance
  by standard (auto simp: less_eq_pm_user_type_def less_pm_user_type_def pm_user_index_inj)

end

datatype pm_state = HAL_PM_STATE_NORMAL_SLEEP | HAL_PM_STATE_NORMAL_WAKEUP

datatype lpu_sleep_mode = HAL_CMU_LPU_SLEEP_MODE_SYS | HAL_CMU_LPU_SLEEP_MODE_CHIP

datatype sleep_status = HAL_SLEEP_STATUS_DEEP | HAL_SLEEP_STATUS_LIGHT

text \<open>Calls for wake locks, into drivers, and of hooks and handlers. A function is named by a number, \<open>NULL\<close> is 0.\<close>

type_synonym fn_ptr = nat

datatype lock_kind = Cpu_Wake_Lock | Sys_Wake_Lock | Chip_Wake_Lock

datatype lock_call = Wake_Lock lock_kind nat | Wake_Unlock lock_kind nat

datatype sleep_call =
    Lock_Call lock_call | Sleep_Hook fn_ptr | Deep_Sleep_Hook fn_ptr | Pm_Notif fn_ptr pm_state
  | Analog_Sleep | Gpadc_Sleep | Pmu_Sleep | Norflash_Sleep
  | Cmu_Lpu_Sleep lpu_sleep_mode | Wfi
  | Norflash_Wakeup | Pmu_Wakeup | Gpadc_Wakeup | Analog_Wakeup

record wake_locks =
  wl_cpu :: u32
  wl_sys :: u32
  wl_chip :: u32

record sleep =
  sl_locks :: wake_locks
  sl_hook :: "fn_ptr list"
  sl_deep_hook :: "fn_ptr list"
  sl_pm_user_cnt :: u8
  sl_pm_user :: "pm_user_type list"
  sl_pm_notif :: "fn_ptr list"
  sl_trace_interval :: u32
  sl_trace_time :: u32
  sl_interval :: u32
  sl_start :: u32
  sl_light_time :: u32
  sl_sys_time :: u32
  sl_chip_time :: u32
  sl_started :: bool
  sl_valid :: bool
  sl_light_ratio :: u8
  sl_sys_ratio :: u8
  sl_chip_ratio :: u8
  sl_stat_info :: "u8 \<times> u8 \<times> u8"
  sl_freq :: sysfreq
  sl_calls :: "sleep_call list"

definition HAL_SLEEP_HOOK_USER_QTY :: nat where
  "HAL_SLEEP_HOOK_USER_QTY = 4"

definition HAL_DEEP_SLEEP_HOOK_USER_QTY :: nat where
  "HAL_DEEP_SLEEP_HOOK_USER_QTY = 5"

definition WAKE_LOCK_USER_QTY :: nat where
  "WAKE_LOCK_USER_QTY = 32"

definition PM_NOTIF_HDLR_CNT :: nat where
  "PM_NOTIF_HDLR_CNT = 3"

definition sleep_boot :: "sysfreq \<Rightarrow> sleep" where
  "sleep_boot f =
     \<lparr>sl_locks = \<lparr>wl_cpu = 0, wl_sys = 0, wl_chip = 0\<rparr>, sl_hook = replicate HAL_SLEEP_HOOK_USER_QTY 0,
      sl_deep_hook = replicate HAL_DEEP_SLEEP_HOOK_USER_QTY 0, sl_pm_user_cnt = 0,
      sl_pm_user = replicate PM_NOTIF_HDLR_CNT HAL_PM_USER_HAL, sl_pm_notif = replicate PM_NOTIF_HDLR_CNT 0,
      sl_trace_interval = 0, sl_trace_time = 0, sl_interval = 0, sl_start = 0, sl_light_time = 0, sl_sys_time = 0,
      sl_chip_time = 0, sl_started = False, sl_valid = False, sl_light_ratio = 0, sl_sys_ratio = 0, sl_chip_ratio = 0,
      sl_stat_info = (0, 0, 0), sl_freq = f, sl_calls = []\<rparr>"

text \<open>What one run of the idle function meets: the answers of the drivers, whether an interrupt is pending, what a hook
  answers (\<open>True\<close> when it refuses) and which wake locks it takes or gives back, which a handler does, and the readings of the
  timer before and after the sleep, at the end, and for the print of the frequencies.\<close>

record idle_env =
  id_lpu_busy :: bool
  id_dma_busy :: bool
  id_trace_busy :: bool
  id_irq_pending :: bool
  id_hook :: "fn_ptr \<Rightarrow> bool \<times> lock_call list"
  id_notif :: "fn_ptr \<Rightarrow> pm_state \<Rightarrow> lock_call list"
  id_prev :: u32
  id_cur :: u32
  id_exit :: u32
  id_print :: u32

definition sleep_log :: "sleep_call \<Rightarrow> sleep \<Rightarrow> sleep" where
  "sleep_log c s = s\<lparr>sl_calls := sl_calls s @ [c]\<rparr>"

definition on_freq :: "(sysfreq \<Rightarrow> sysfreq) \<Rightarrow> sleep \<Rightarrow> sleep" where
  "on_freq f s = s\<lparr>sl_freq := f (sl_freq s)\<rparr>"

section \<open>Wake locks\<close>

definition hal_cpu_wake_lock :: "nat \<Rightarrow> sleep \<Rightarrow> nat \<times> sleep" where
  "hal_cpu_wake_lock user s =
     (if WAKE_LOCK_USER_QTY \<le> user then (1, s)
      else (0, s\<lparr>sl_locks := (sl_locks s)\<lparr>wl_cpu := wl_cpu (sl_locks s) OR push_bit user 1\<rparr>\<rparr>))"

definition hal_cpu_wake_unlock :: "nat \<Rightarrow> sleep \<Rightarrow> nat \<times> sleep" where
  "hal_cpu_wake_unlock user s =
     (if WAKE_LOCK_USER_QTY \<le> user then (1, s)
      else (0, s\<lparr>sl_locks := (sl_locks s)\<lparr>wl_cpu := wl_cpu (sl_locks s) AND NOT (push_bit user 1)\<rparr>\<rparr>))"

definition hal_cpu_wake_lock_get :: "sleep \<Rightarrow> u32" where
  "hal_cpu_wake_lock_get s = wl_cpu (sl_locks s)"

definition hal_sys_wake_lock :: "nat \<Rightarrow> sleep \<Rightarrow> nat \<times> sleep" where
  "hal_sys_wake_lock user s =
     (if WAKE_LOCK_USER_QTY \<le> user then (1, s)
      else (0, s\<lparr>sl_locks := (sl_locks s)\<lparr>wl_sys := wl_sys (sl_locks s) OR push_bit user 1\<rparr>\<rparr>))"

definition hal_sys_wake_unlock :: "nat \<Rightarrow> sleep \<Rightarrow> nat \<times> sleep" where
  "hal_sys_wake_unlock user s =
     (if WAKE_LOCK_USER_QTY \<le> user then (1, s)
      else (0, s\<lparr>sl_locks := (sl_locks s)\<lparr>wl_sys := wl_sys (sl_locks s) AND NOT (push_bit user 1)\<rparr>\<rparr>))"

definition hal_sys_wake_lock_get :: "sleep \<Rightarrow> u32" where
  "hal_sys_wake_lock_get s = wl_sys (sl_locks s)"

definition hal_chip_wake_lock :: "nat \<Rightarrow> sleep \<Rightarrow> nat \<times> sleep" where
  "hal_chip_wake_lock user s =
     (if WAKE_LOCK_USER_QTY \<le> user then (1, s)
      else (0, s\<lparr>sl_locks := (sl_locks s)\<lparr>wl_chip := wl_chip (sl_locks s) OR push_bit user 1\<rparr>\<rparr>))"

definition hal_chip_wake_unlock :: "nat \<Rightarrow> sleep \<Rightarrow> nat \<times> sleep" where
  "hal_chip_wake_unlock user s =
     (if WAKE_LOCK_USER_QTY \<le> user then (1, s)
      else (0, s\<lparr>sl_locks := (sl_locks s)\<lparr>wl_chip := wl_chip (sl_locks s) AND NOT (push_bit user 1)\<rparr>\<rparr>))"

definition hal_chip_wake_lock_get :: "sleep \<Rightarrow> u32" where
  "hal_chip_wake_lock_get s = wl_chip (sl_locks s)"

fun lock_exec :: "lock_call \<Rightarrow> sleep \<Rightarrow> sleep" where
  "lock_exec (Wake_Lock Cpu_Wake_Lock u) s = snd (hal_cpu_wake_lock u s)"
| "lock_exec (Wake_Unlock Cpu_Wake_Lock u) s = snd (hal_cpu_wake_unlock u s)"
| "lock_exec (Wake_Lock Sys_Wake_Lock u) s = snd (hal_sys_wake_lock u s)"
| "lock_exec (Wake_Unlock Sys_Wake_Lock u) s = snd (hal_sys_wake_unlock u s)"
| "lock_exec (Wake_Lock Chip_Wake_Lock u) s = snd (hal_chip_wake_lock u s)"
| "lock_exec (Wake_Unlock Chip_Wake_Lock u) s = snd (hal_chip_wake_unlock u s)"

definition lock_calls :: "lock_call list \<Rightarrow> sleep \<Rightarrow> sleep" where
  "lock_calls = fold (\<lambda>c s. lock_exec c (sleep_log (Lock_Call c) s))"

section \<open>Hooks\<close>

definition hal_sleep_set_sleep_hook :: "nat \<Rightarrow> fn_ptr \<Rightarrow> sleep \<Rightarrow> nat \<times> sleep" where
  "hal_sleep_set_sleep_hook user h s =
     (if HAL_SLEEP_HOOK_USER_QTY \<le> user then (1, s) else (0, s\<lparr>sl_hook := (sl_hook s)[user := h]\<rparr>))"

definition hal_sleep_set_deep_sleep_hook :: "nat \<Rightarrow> fn_ptr \<Rightarrow> sleep \<Rightarrow> nat \<times> sleep" where
  "hal_sleep_set_deep_sleep_hook user h s =
     (if HAL_DEEP_SLEEP_HOOK_USER_QTY \<le> user then (1, s) else (0, s\<lparr>sl_deep_hook := (sl_deep_hook s)[user := h]\<rparr>))"

text \<open>The hooks in order, up to the first that refuses. The result is whether one did.\<close>

fun exec_hooks :: "(fn_ptr \<Rightarrow> sleep_call) \<Rightarrow> idle_env \<Rightarrow> fn_ptr list \<Rightarrow> sleep \<Rightarrow> bool \<times> sleep" where
  "exec_hooks c e [] s = (False, s)"
| "exec_hooks c e (h # hs) s =
     (if h = 0 then exec_hooks c e hs s
      else
        let (refused, calls) = id_hook e h; s1 = lock_calls calls (sleep_log (c h) s) in
        if refused then (True, s1) else exec_hooks c e hs s1)"

definition hal_sleep_exec_sleep_hook :: "idle_env \<Rightarrow> sleep \<Rightarrow> bool \<times> sleep" where
  "hal_sleep_exec_sleep_hook e s = exec_hooks Sleep_Hook e (sl_hook s) s"

definition hal_sleep_exec_deep_sleep_hook :: "idle_env \<Rightarrow> sleep \<Rightarrow> bool \<times> sleep" where
  "hal_sleep_exec_deep_sleep_hook e s = exec_hooks Deep_Sleep_Hook e (sl_deep_hook s) s"

section \<open>Modules that are told\<close>

text \<open>The place of a new handler, from the end of the array: users of a lower or the same rank move up.\<close>

fun pm_insert :: "nat \<Rightarrow> pm_user_type \<Rightarrow> fn_ptr \<Rightarrow> pm_user_type list \<times> fn_ptr list \<Rightarrow> pm_user_type list \<times> fn_ptr list" where
  "pm_insert 0 user h (us, ns) = (us[0 := user], ns[0 := h])"
| "pm_insert (Suc i) user h (us, ns) =
     (if us ! i > user then (us[Suc i := user], ns[Suc i := h])
      else pm_insert i user h (us[Suc i := us ! i], ns[Suc i := ns ! i]))"

definition hal_pm_notif_register :: "pm_user_type \<Rightarrow> fn_ptr \<Rightarrow> sleep \<Rightarrow> (nat \<times> sleep) res" where
  "hal_pm_notif_register user h s =
     c_assert (h \<noteq> 0)
       (c_assert (unat (sl_pm_user_cnt s) < PM_NOTIF_HDLR_CNT)
         (c_assert (\<not> list_ex (\<lambda>i. sl_pm_notif s ! i = h) [0..<unat (sl_pm_user_cnt s)])
           (let (us, ns) = pm_insert (unat (sl_pm_user_cnt s)) user h (sl_pm_user s, sl_pm_notif s) in
            Inr (0, s\<lparr>sl_pm_user := us, sl_pm_notif := ns, sl_pm_user_cnt := sl_pm_user_cnt s + 1\<rparr>))))"

definition pm_shift :: "nat \<Rightarrow> 'a list \<Rightarrow> 'a list" where
  "pm_shift i xs = xs[i := xs ! (i + 1)]"

definition hal_pm_notif_deregister :: "pm_user_type \<Rightarrow> fn_ptr \<Rightarrow> sleep \<Rightarrow> nat \<times> sleep" where
  "hal_pm_notif_deregister user h s =
     (if h = 0 then (1, s)
      else
        let cnt = unat (sl_pm_user_cnt s) in
        case find (\<lambda>i. sl_pm_notif s ! i = h) [0..<cnt] of
          None \<Rightarrow> (2, s)
        | Some i \<Rightarrow>
            (0, s\<lparr>sl_pm_user := fold pm_shift [i..<cnt - 1] (sl_pm_user s),
                  sl_pm_notif := fold pm_shift [i..<cnt - 1] (sl_pm_notif s),
                  sl_pm_user_cnt := sl_pm_user_cnt s - 1\<rparr>))"

definition tell :: "idle_env \<Rightarrow> pm_state \<Rightarrow> fn_ptr \<Rightarrow> sleep \<Rightarrow> sleep" where
  "tell e st h s =
     (if h = 0 then s else lock_calls (id_notif e h st) (sleep_log (Pm_Notif h st) s))"

definition pm_notif_sleep :: "idle_env \<Rightarrow> sleep \<Rightarrow> sleep" where
  "pm_notif_sleep e s =
     fold (\<lambda>i s. tell e HAL_PM_STATE_NORMAL_SLEEP (sl_pm_notif s ! i) s) (rev [0..<unat (sl_pm_user_cnt s)]) s"

definition pm_notif_wakeup :: "idle_env \<Rightarrow> sleep \<Rightarrow> sleep" where
  "pm_notif_wakeup e s =
     fold (\<lambda>i s. tell e HAL_PM_STATE_NORMAL_WAKEUP (sl_pm_notif s ! i) s) [0..<unat (sl_pm_user_cnt s)] s"

section \<open>Statistics\<close>

text \<open>Sixteen ticks of the system timer are a millisecond.\<close>

definition MS_TO_TICKS :: "u32 \<Rightarrow> u32" where
  "MS_TO_TICKS ms = ms * 16"

definition hal_sleep_start_stats :: "u32 \<Rightarrow> u32 \<Rightarrow> u32 \<Rightarrow> sleep \<Rightarrow> sleep" where
  "hal_sleep_start_stats stats_ms trace_ms now s =
     (let s1 = (if stats_ms \<noteq> 0
                then s\<lparr>sl_interval := MS_TO_TICKS stats_ms, sl_start := now, sl_light_time := 0, sl_sys_time := 0,
                       sl_chip_time := 0, sl_valid := False, sl_started := True\<rparr>
                else s\<lparr>sl_started := False\<rparr>) in
      if stats_ms \<noteq> 0 \<and> trace_ms \<noteq> 0
      then s1\<lparr>sl_trace_interval := MS_TO_TICKS trace_ms, sl_trace_time := sl_start s1\<rparr>
      else s1\<lparr>sl_trace_interval := 0\<rparr>)"

record cpu_usage =
  cu_busy :: u8
  cu_light :: u8
  cu_sys :: u8
  cu_chip :: u8

definition hal_sleep_get_stats :: "sleep \<Rightarrow> cpu_usage option" where
  "hal_sleep_get_stats s =
     (if sl_valid s
      then Some \<lparr>cu_busy = 100 - (sl_light_ratio s + sl_sys_ratio s + sl_chip_ratio s),
                 cu_light = sl_light_ratio s, cu_sys = sl_sys_ratio s, cu_chip = sl_chip_ratio s\<rparr>
      else None)"

definition sleep_ratio :: "u32 \<Rightarrow> u32 \<Rightarrow> u8 res" where
  "sleep_ratio time interval =
     (if interval = 0 then Inl Div_Zero
      else if time > (- 1) div 100 then Inr (ucast ((ucast time :: u64) * 100 div ucast interval))
      else Inr (ucast (time * 100 div interval)))"

definition system_sleep_stat_update :: "u8 \<Rightarrow> u8 \<Rightarrow> u8 \<Rightarrow> sleep \<Rightarrow> sleep" where
  "system_sleep_stat_update l d c s = s\<lparr>sl_stat_info := (l, d, c)\<rparr>"

definition publish_ratios :: "u32 \<Rightarrow> sleep \<Rightarrow> sleep res" where
  "publish_ratios cur s =
     (let interval = cur - sl_start s in
      bindE (sleep_ratio (sl_light_time s) interval) (\<lambda>l.
      bindE (sleep_ratio (sl_sys_time s) interval) (\<lambda>d.
      bindE (sleep_ratio (sl_chip_time s) interval) (\<lambda>c.
      Inr (system_sleep_stat_update l d c
        (s\<lparr>sl_light_ratio := l, sl_sys_ratio := d, sl_chip_ratio := c, sl_valid := True, sl_light_time := 0,
           sl_sys_time := 0, sl_chip_time := 0, sl_start := cur\<rparr>))))))"

definition exit_sleep :: "idle_env \<Rightarrow> sleep \<Rightarrow> sleep res" where
  "exit_sleep e s =
     (if \<not> sl_started s then Inr s
      else
        bindE (if id_exit e - sl_start s \<ge> sl_interval s then publish_ratios (id_exit e) s else Inr s) (\<lambda>s1.
        Inr (if sl_valid s1 \<and> sl_trace_interval s1 \<noteq> 0 \<and> id_exit e - sl_trace_time s1 \<ge> sl_trace_interval s1
             then on_freq (hal_sysfreq_print_freq_stats (id_print e)) (s1\<lparr>sl_trace_time := id_exit e\<rparr>)
             else s1)))"

section \<open>The idle function\<close>

definition add_freq_time :: "bool \<Rightarrow> u32 \<Rightarrow> sleep \<Rightarrow> sleep" where
  "add_freq_time idle now s = (if sl_started s then on_freq (hal_sysfreq_add_freq_time idle now) s else s)"

definition lpu_mode :: "sleep \<Rightarrow> lpu_sleep_mode" where
  "lpu_mode s =
     (if wl_chip (sl_locks s) \<noteq> 0 then HAL_CMU_LPU_SLEEP_MODE_SYS else HAL_CMU_LPU_SLEEP_MODE_CHIP)"

definition stop_normal :: "idle_env \<Rightarrow> sleep \<Rightarrow> sleep" where
  "stop_normal e s =
     (let s1 = pm_notif_sleep e s in
      sleep_log Norflash_Sleep
        (if wl_chip (sl_locks s1) = 0 then sleep_log Pmu_Sleep (sleep_log Gpadc_Sleep (sleep_log Analog_Sleep s1)) else s1))"

definition restore_normal :: "idle_env \<Rightarrow> sleep \<Rightarrow> sleep" where
  "restore_normal e s =
     (let s1 = sleep_log Norflash_Wakeup s in
      pm_notif_wakeup e
        (if wl_chip (sl_locks s1) = 0 then sleep_log Analog_Wakeup (sleep_log Gpadc_Wakeup (sleep_log Pmu_Wakeup s1)) else s1))"

definition count_deep :: "u32 \<Rightarrow> sleep \<Rightarrow> sleep" where
  "count_deep interval s =
     (if \<not> sl_started s then s
      else if wl_chip (sl_locks s) \<noteq> 0 then s\<lparr>sl_sys_time := sl_sys_time s + interval\<rparr>
      else s\<lparr>sl_chip_time := sl_chip_time s + interval\<rparr>)"

definition hal_sleep_lowpower_mode :: "idle_env \<Rightarrow> sleep \<Rightarrow> sleep_status \<times> sleep" where
  "hal_sleep_lowpower_mode e s =
     (let (refused, s1) = hal_sleep_exec_deep_sleep_hook e s in
      if refused \<or> id_trace_busy e then (HAL_SLEEP_STATUS_LIGHT, s1)
      else
        let mode = lpu_mode s1; s2 = stop_normal e s1 in
        if id_irq_pending e then (HAL_SLEEP_STATUS_LIGHT, restore_normal e s2)
        else
          (HAL_SLEEP_STATUS_DEEP,
           restore_normal e
             (add_freq_time True (id_cur e)
               (count_deep (id_cur e - id_prev e)
                 (sleep_log (Cmu_Lpu_Sleep mode) (add_freq_time False (id_prev e) s2))))))"

definition count_light :: "u32 \<Rightarrow> sleep \<Rightarrow> sleep" where
  "count_light interval s = (if sl_started s then s\<lparr>sl_light_time := sl_light_time s + interval\<rparr> else s)"

definition wait_for_interrupt :: "idle_env \<Rightarrow> sleep \<Rightarrow> sleep" where
  "wait_for_interrupt e s =
     add_freq_time True (id_cur e)
       (count_light (id_cur e - id_prev e) (sleep_log Wfi (add_freq_time False (id_prev e) s)))"

definition idle_sleep :: "bool \<Rightarrow> idle_env \<Rightarrow> sleep \<Rightarrow> sleep_status \<times> sleep" where
  "idle_sleep light e s =
     (if wl_cpu (sl_locks s) \<noteq> 0 \<or> id_lpu_busy e then (HAL_SLEEP_STATUS_LIGHT, s)
      else
        let (refused, s1) = hal_sleep_exec_sleep_hook e s in
        if refused then (HAL_SLEEP_STATUS_LIGHT, s1)
        else if wl_sys (sl_locks s1) \<noteq> 0 \<or> hal_sysfreq_busy (sl_freq s1) \<or> id_dma_busy e
        then (HAL_SLEEP_STATUS_LIGHT, wait_for_interrupt e s1)
        else if light then (HAL_SLEEP_STATUS_DEEP, s1)
        else hal_sleep_lowpower_mode e s1)"

definition hal_sleep_proc :: "bool \<Rightarrow> idle_env \<Rightarrow> sleep \<Rightarrow> (sleep_status \<times> sleep) res" where
  "hal_sleep_proc light e s =
     (let (ret, s1) = idle_sleep light e s in bindE (exit_sleep e s1) (\<lambda>s2. Inr (ret, s2)))"

definition hal_sleep_enter_sleep :: "idle_env \<Rightarrow> sleep \<Rightarrow> (sleep_status \<times> sleep) res" where
  "hal_sleep_enter_sleep = hal_sleep_proc False"

definition hal_sleep_light_sleep :: "idle_env \<Rightarrow> sleep \<Rightarrow> (sleep_status \<times> sleep) res" where
  "hal_sleep_light_sleep = hal_sleep_proc True"

end
