(* ===== verification/SleepInv.thy ===== *)
theory SleepInv
  imports Sleep
begin

unbundle bit_operations_syntax

text \<open>
  What the parts of the idle function do: wake locks as a contract between a lock word and its users, the register of the
  modules that are told as a sorted list, and what each step of the idle function leaves alone.
\<close>

section \<open>Wake locks\<close>

text \<open>Who holds a lock, by the calls made: the last call of a user that was accepted decides.\<close>

definition held :: "lock_kind \<Rightarrow> nat \<Rightarrow> sleep_call list \<Rightarrow> bool" where
  "held k u cs =
     fold (\<lambda>c b. c = Lock_Call (Wake_Lock k u) \<and> u < WAKE_LOCK_USER_QTY \<or> b \<and> c \<noteq> Lock_Call (Wake_Unlock k u)) cs False"

lemma held_Nil [simp]: "\<not> held k u []"
  by (simp add: held_def)

lemma held_snoc [simp]:
  "held k u (cs @ [c]) \<longleftrightarrow>
     c = Lock_Call (Wake_Lock k u) \<and> u < WAKE_LOCK_USER_QTY \<or> held k u cs \<and> c \<noteq> Lock_Call (Wake_Unlock k u)"
  by (simp add: held_def)

locale wake_lock =
  fixes word :: "'s \<Rightarrow> u32" and exec :: "'c \<Rightarrow> 's \<Rightarrow> 's" and takes :: "'c \<Rightarrow> nat \<Rightarrow> bool" and gives :: "'c \<Rightarrow> nat \<Rightarrow> bool"
  assumes exec_bit: "bit (word (exec c s)) u \<longleftrightarrow> takes c u \<or> bit (word s) u \<and> \<not> gives c u"
begin

definition tracks :: "(nat \<Rightarrow> bool) \<Rightarrow> 's \<Rightarrow> bool" where
  "tracks H s \<longleftrightarrow> (\<forall>u. bit (word s) u \<longleftrightarrow> H u)"

lemma tracks_exec: "tracks H s \<Longrightarrow> tracks (\<lambda>u. takes c u \<or> H u \<and> \<not> gives c u) (exec c s)"
  by (simp add: tracks_def exec_bit)

lemma tracks_free: "tracks H s \<Longrightarrow> word s = 0 \<longleftrightarrow> (\<forall>u. \<not> H u)"
  by (auto simp: tracks_def intro: bit_word_eqI)

end

definition lock_word :: "lock_kind \<Rightarrow> sleep \<Rightarrow> u32" where
  "lock_word k s = (case k of Cpu_Wake_Lock \<Rightarrow> wl_cpu (sl_locks s) | Sys_Wake_Lock \<Rightarrow> wl_sys (sl_locks s) | Chip_Wake_Lock \<Rightarrow> wl_chip (sl_locks s))"

lemma bit_user:
  "bit (w OR 2 ^ u :: u32) v \<longleftrightarrow> v = u \<and> u < WAKE_LOCK_USER_QTY \<or> bit w v"
  "bit (w AND NOT (2 ^ u) :: u32) v \<longleftrightarrow> bit w v \<and> v \<noteq> u"
  by (auto simp: bit_or_iff bit_and_iff bit_not_iff bit_exp_iff WAKE_LOCK_USER_QTY_def dest: bit_imp_le_length)

lemmas wake_lock_defs = hal_cpu_wake_lock_def hal_cpu_wake_unlock_def hal_sys_wake_lock_def hal_sys_wake_unlock_def
  hal_chip_wake_lock_def hal_chip_wake_unlock_def

lemma lock_word_exec:
  "bit (lock_word k (lock_exec c s)) u \<longleftrightarrow>
     (c = Wake_Lock k u \<and> u < WAKE_LOCK_USER_QTY) \<or> bit (lock_word k s) u \<and> c \<noteq> Wake_Unlock k u"
proof (cases "WAKE_LOCK_USER_QTY \<le> u")
  case True
  then have "\<not> bit (w :: u32) u" for w by (auto simp: WAKE_LOCK_USER_QTY_def dest: bit_imp_le_length)
  with True show ?thesis by simp
next
  case False
  then show ?thesis
    by (cases "(c, s)" rule: lock_exec.cases; cases k) (auto simp: wake_lock_defs lock_word_def bit_user)
qed

interpretation cpu: wake_lock "lock_word Cpu_Wake_Lock" lock_exec
  "\<lambda>c u. c = Wake_Lock Cpu_Wake_Lock u \<and> u < WAKE_LOCK_USER_QTY" "\<lambda>c u. c = Wake_Unlock Cpu_Wake_Lock u"
  by unfold_locales (simp add: lock_word_exec)

interpretation sys: wake_lock "lock_word Sys_Wake_Lock" lock_exec
  "\<lambda>c u. c = Wake_Lock Sys_Wake_Lock u \<and> u < WAKE_LOCK_USER_QTY" "\<lambda>c u. c = Wake_Unlock Sys_Wake_Lock u"
  by unfold_locales (simp add: lock_word_exec)

interpretation chip: wake_lock "lock_word Chip_Wake_Lock" lock_exec
  "\<lambda>c u. c = Wake_Lock Chip_Wake_Lock u \<and> u < WAKE_LOCK_USER_QTY" "\<lambda>c u. c = Wake_Unlock Chip_Wake_Lock u"
  by unfold_locales (simp add: lock_word_exec)

text \<open>The wake locks of a state are those of the calls made.\<close>

definition locks_logged :: "sleep \<Rightarrow> bool" where
  "locks_logged s \<longleftrightarrow>
     cpu.tracks (\<lambda>u. held Cpu_Wake_Lock u (sl_calls s)) s \<and> sys.tracks (\<lambda>u. held Sys_Wake_Lock u (sl_calls s)) s \<and>
     chip.tracks (\<lambda>u. held Chip_Wake_Lock u (sl_calls s)) s"

lemma locks_logged_free:
  assumes "locks_logged s"
  shows "wl_cpu (sl_locks s) = 0 \<longleftrightarrow> (\<forall>u. \<not> held Cpu_Wake_Lock u (sl_calls s))"
    and "wl_sys (sl_locks s) = 0 \<longleftrightarrow> (\<forall>u. \<not> held Sys_Wake_Lock u (sl_calls s))"
    and "wl_chip (sl_locks s) = 0 \<longleftrightarrow> (\<forall>u. \<not> held Chip_Wake_Lock u (sl_calls s))"
  using assms cpu.tracks_free [of _ s] sys.tracks_free [of _ s] chip.tracks_free [of _ s]
  by (simp_all add: locks_logged_def lock_word_def)

section \<open>Steps that only call\<close>

definition calls_only :: "sleep \<Rightarrow> sleep \<Rightarrow> sleep_call list \<Rightarrow> bool" where
  "calls_only s t cs \<longleftrightarrow> (\<exists>l. t = s\<lparr>sl_locks := l, sl_calls := sl_calls s @ cs\<rparr>)"

lemma calls_only_refl: "calls_only s s []"
  unfolding calls_only_def by (rule exI [of _ "sl_locks s"]) simp

lemma calls_only_trans: "calls_only s t cs \<Longrightarrow> calls_only t u ds \<Longrightarrow> calls_only s u (cs @ ds)"
  by (auto simp: calls_only_def)

lemma calls_only_log: "calls_only s (sleep_log c s) [c]"
  unfolding calls_only_def sleep_log_def by (rule exI [of _ "sl_locks s"]) simp

lemma calls_only_fields:
  assumes "calls_only s t cs"
  shows "sl_hook t = sl_hook s" "sl_deep_hook t = sl_deep_hook s" "sl_pm_user_cnt t = sl_pm_user_cnt s" "sl_pm_user t = sl_pm_user s"
    "sl_pm_notif t = sl_pm_notif s" "sl_trace_interval t = sl_trace_interval s" "sl_trace_time t = sl_trace_time s"
    "sl_interval t = sl_interval s" "sl_start t = sl_start s" "sl_light_time t = sl_light_time s" "sl_sys_time t = sl_sys_time s"
    "sl_chip_time t = sl_chip_time s" "sl_started t = sl_started s" "sl_valid t = sl_valid s" "sl_light_ratio t = sl_light_ratio s"
    "sl_sys_ratio t = sl_sys_ratio s" "sl_chip_ratio t = sl_chip_ratio s" "sl_stat_info t = sl_stat_info s" "sl_freq t = sl_freq s"
    "sl_calls t = sl_calls s @ cs"
  using assms by (auto simp: calls_only_def)

lemma lock_exec_fields: "calls_only s (lock_exec c s) []"
  unfolding calls_only_def
  by (rule exI [of _ "sl_locks (lock_exec c s)"], cases "(c, s)" rule: lock_exec.cases) (simp_all add: wake_lock_defs)

lemma lock_calls_simps [simp]:
  "lock_calls [] s = s"
  "lock_calls (c # cs) s = lock_calls cs (lock_exec c (sleep_log (Lock_Call c) s))"
  by (simp_all add: lock_calls_def)

lemma lock_calls_only: "calls_only s (lock_calls cs s) (map Lock_Call cs)"
proof (induction cs arbitrary: s)
  case Nil
  then show ?case by (simp add: calls_only_refl)
next
  case (Cons c cs)
  from calls_only_trans [OF calls_only_trans [OF calls_only_log lock_exec_fields] Cons.IH] show ?case by simp
qed

lemma locks_logged_log: "locks_logged s \<Longrightarrow> (\<forall>l. c \<noteq> Lock_Call l) \<Longrightarrow> locks_logged (sleep_log c s)"
  by (simp add: locks_logged_def cpu.tracks_def sys.tracks_def chip.tracks_def sleep_log_def lock_word_def)

lemma locks_logged_call: "locks_logged s \<Longrightarrow> locks_logged (lock_exec c (sleep_log (Lock_Call c) s))"
  using calls_only_fields(20) [OF lock_exec_fields [of "sleep_log (Lock_Call c) s" c]]
  by (auto simp: locks_logged_def cpu.tracks_def sys.tracks_def chip.tracks_def lock_word_exec) (auto simp: sleep_log_def lock_word_def)

lemma locks_logged_calls: "locks_logged s \<Longrightarrow> locks_logged (lock_calls cs s)"
  by (induction cs arbitrary: s) (simp_all add: locks_logged_call)

lemma locks_logged_cong: "sl_locks t = sl_locks s \<Longrightarrow> sl_calls t = sl_calls s \<Longrightarrow> locks_logged t \<longleftrightarrow> locks_logged s"
  by (simp add: locks_logged_def cpu.tracks_def sys.tracks_def chip.tracks_def lock_word_def)

text \<open>The calls into drivers among those logged.\<close>

fun hook_call :: "sleep_call \<Rightarrow> bool" where
  "hook_call (Lock_Call l) = True"
| "hook_call (Sleep_Hook h) = True"
| "hook_call (Deep_Sleep_Hook h) = True"
| "hook_call c = False"

definition driver_calls :: "sleep_call list \<Rightarrow> sleep_call list" where
  "driver_calls cs = filter (\<lambda>c. \<not> hook_call c) cs"

lemma driver_calls_simps [simp]:
  "driver_calls [] = []"
  "driver_calls (cs @ ds) = driver_calls cs @ driver_calls ds"
  "driver_calls (c # cs) = (if hook_call c then driver_calls cs else c # driver_calls cs)"
  "driver_calls (map Lock_Call ls) = []"
  by (simp_all add: driver_calls_def filter_empty_conv)

definition refuses :: "idle_env \<Rightarrow> fn_ptr \<Rightarrow> bool" where
  "refuses e h \<longleftrightarrow> h \<noteq> 0 \<and> fst (id_hook e h)"

definition quiet_hooks :: "idle_env \<Rightarrow> bool" where
  "quiet_hooks e \<longleftrightarrow> (\<forall>h. snd (id_hook e h) = [])"

lemma exec_hooks_only:
  assumes "\<And>h. hook_call (c h)" and "\<And>h l. c h \<noteq> Lock_Call l"
  shows "\<exists>cs. calls_only s (snd (exec_hooks c e hs s)) cs \<and> driver_calls cs = [] \<and>
    (fst (exec_hooks c e hs s) \<longleftrightarrow> list_ex (refuses e) hs) \<and>
    (locks_logged s \<longrightarrow> locks_logged (snd (exec_hooks c e hs s))) \<and>
    (quiet_hooks e \<longrightarrow> sl_locks (snd (exec_hooks c e hs s)) = sl_locks s)"
proof (induction hs arbitrary: s)
  case Nil
  then show ?case by (auto intro!: exI [of _ "[]"] simp: calls_only_refl)
next
  case (Cons h hs)
  show ?case
  proof (cases "h = 0")
    case True
    then show ?thesis using Cons.IH by (simp add: refuses_def)
  next
    case False
    obtain r ls where hook: "id_hook e h = (r, ls)" by (cases "id_hook e h")
    with False have ref: "refuses e h = r" by (simp add: refuses_def)
    let ?s = "lock_calls ls (sleep_log (c h) s)"
    have one: "calls_only s ?s (c h # map Lock_Call ls)"
      using calls_only_trans [OF calls_only_log lock_calls_only] by simp
    have l: "locks_logged s \<Longrightarrow> locks_logged ?s"
      using assms(2) by (simp add: locks_logged_calls locks_logged_log)
    have q: "quiet_hooks e \<Longrightarrow> sl_locks ?s = sl_locks s"
      using hook by (auto simp: quiet_hooks_def sleep_log_def dest: spec [of _ h])
    show ?thesis
    proof (cases r)
      case True
      with False hook one l q assms(1) ref show ?thesis by (auto intro!: exI [of _ "c h # map Lock_Call ls"])
    next
      case no: False
      from Cons.IH [of ?s] obtain cs where "calls_only ?s (snd (exec_hooks c e hs ?s)) cs" "driver_calls cs = []"
        "fst (exec_hooks c e hs ?s) \<longleftrightarrow> list_ex (refuses e) hs"
        "locks_logged ?s \<longrightarrow> locks_logged (snd (exec_hooks c e hs ?s))"
        "quiet_hooks e \<longrightarrow> sl_locks (snd (exec_hooks c e hs ?s)) = sl_locks ?s" by blast
      with False no hook calls_only_trans [OF one] l q assms(1) ref show ?thesis
        by (intro exI [of _ "(c h # map Lock_Call ls) @ cs"]) auto
    qed
  qed
qed


section \<open>Modules that are told\<close>

definition registered :: "sleep \<Rightarrow> fn_ptr list" where
  "registered s = filter (\<lambda>h. h \<noteq> 0) (map ((!) (sl_pm_notif s)) [0..<unat (sl_pm_user_cnt s)])"

text \<open>A step that calls drivers \<open>ds\<close>, besides what handlers and hooks do to the wake locks.\<close>

definition calls_drivers :: "sleep \<Rightarrow> sleep \<Rightarrow> sleep_call list \<Rightarrow> bool" where
  "calls_drivers s t ds \<longleftrightarrow> (\<exists>cs. calls_only s t cs \<and> driver_calls cs = ds) \<and> (locks_logged s \<longrightarrow> locks_logged t)"

lemma calls_driversE:
  assumes "calls_drivers s t ds"
  obtains cs where "calls_only s t cs" "driver_calls cs = ds" "locks_logged s \<Longrightarrow> locks_logged t"
  using assms by (auto simp: calls_drivers_def)

lemma calls_drivers_refl: "calls_drivers s s []"
  using calls_only_refl by (auto simp: calls_drivers_def intro: exI [of _ "[]"])

lemma calls_drivers_trans [trans]: "calls_drivers s t ds \<Longrightarrow> calls_drivers t u es \<Longrightarrow> calls_drivers s u (ds @ es)"
  unfolding calls_drivers_def by (metis calls_only_trans driver_calls_simps(2))

lemma calls_drivers_log: "\<not> hook_call c \<Longrightarrow> calls_drivers s (sleep_log c s) [c]"
  using calls_only_log [of s c] locks_logged_log [of s c] unfolding calls_drivers_def
  by (metis driver_calls_simps(1,3) hook_call.simps(1))

lemma calls_drivers_fields:
  assumes "calls_drivers s t ds"
  shows "sl_hook t = sl_hook s" "sl_deep_hook t = sl_deep_hook s" "sl_pm_user_cnt t = sl_pm_user_cnt s" "sl_pm_user t = sl_pm_user s"
    "sl_pm_notif t = sl_pm_notif s" "sl_trace_interval t = sl_trace_interval s" "sl_trace_time t = sl_trace_time s"
    "sl_interval t = sl_interval s" "sl_start t = sl_start s" "sl_light_time t = sl_light_time s" "sl_sys_time t = sl_sys_time s"
    "sl_chip_time t = sl_chip_time s" "sl_started t = sl_started s" "sl_valid t = sl_valid s" "sl_light_ratio t = sl_light_ratio s"
    "sl_sys_ratio t = sl_sys_ratio s" "sl_chip_ratio t = sl_chip_ratio s" "sl_stat_info t = sl_stat_info s" "sl_freq t = sl_freq s"
  using assms by (auto simp: calls_only_fields elim!: calls_driversE)

lemma exec_hooks_drivers:
  assumes "\<And>h. hook_call (c h)" and "\<And>h l. c h \<noteq> Lock_Call l"
  shows "calls_drivers s (snd (exec_hooks c e hs s)) []"
    and "fst (exec_hooks c e hs s) \<longleftrightarrow> list_ex (refuses e) hs"
    and "quiet_hooks e \<Longrightarrow> sl_locks (snd (exec_hooks c e hs s)) = sl_locks s"
  using exec_hooks_only [where c = c and s = s and e = e and hs = hs, OF assms] by (auto simp: calls_drivers_def)

lemma tell_drivers: "calls_drivers s (tell e st h s) (if h = 0 then [] else [Pm_Notif h st])"
proof (cases "h = 0")
  case True
  then show ?thesis by (simp add: tell_def calls_drivers_refl)
next
  case False
  let ?t = "sleep_log (Pm_Notif h st) s"
  have "calls_drivers ?t (lock_calls ls ?t) []" for ls
    using lock_calls_only [of ?t ls] locks_logged_calls [of ?t ls] by (auto simp: calls_drivers_def)
  from calls_drivers_trans [OF calls_drivers_log this] False show ?thesis by (simp add: tell_def)
qed

lemma tell_all:
  "calls_drivers s (fold (\<lambda>i s. tell e st (sl_pm_notif s ! i) s) is s)
     (map (\<lambda>h. Pm_Notif h st) (filter (\<lambda>h. h \<noteq> 0) (map ((!) (sl_pm_notif s)) is)))"
proof (induction "is" arbitrary: s)
  case Nil
  then show ?case by (simp add: calls_drivers_refl)
next
  case (Cons i "is")
  have "sl_pm_notif (tell e st (sl_pm_notif s ! i) s) = sl_pm_notif s"
    by (rule calls_drivers_fields(5) [OF tell_drivers])
  with calls_drivers_trans [OF tell_drivers [of s e st "sl_pm_notif s ! i"] Cons.IH] show ?case
    by (cases "sl_pm_notif s ! i = 0") simp_all
qed

lemma pm_notif_sleep_drivers:
  "calls_drivers s (pm_notif_sleep e s) (map (\<lambda>h. Pm_Notif h HAL_PM_STATE_NORMAL_SLEEP) (rev (registered s)))"
  using tell_all [of s e HAL_PM_STATE_NORMAL_SLEEP "rev [0..<unat (sl_pm_user_cnt s)]"]
  by (simp add: pm_notif_sleep_def registered_def rev_map rev_filter)

lemma pm_notif_wakeup_drivers:
  "calls_drivers s (pm_notif_wakeup e s) (map (\<lambda>h. Pm_Notif h HAL_PM_STATE_NORMAL_WAKEUP) (registered s))"
  using tell_all [of s e HAL_PM_STATE_NORMAL_WAKEUP "[0..<unat (sl_pm_user_cnt s)]"]
  by (simp add: pm_notif_wakeup_def registered_def)

text \<open>What is stopped for a deep sleep; the analogue parts only if the chip sleeps.\<close>

definition stops :: "bool \<Rightarrow> fn_ptr list \<Rightarrow> sleep_call list" where
  "stops chip hs = map (\<lambda>h. Pm_Notif h HAL_PM_STATE_NORMAL_SLEEP) (rev hs) @
     (if chip then [Analog_Sleep, Gpadc_Sleep, Pmu_Sleep] else []) @ [Norflash_Sleep]"

fun woken :: "sleep_call \<Rightarrow> sleep_call" where
  "woken (Pm_Notif h st) = Pm_Notif h HAL_PM_STATE_NORMAL_WAKEUP"
| "woken Analog_Sleep = Analog_Wakeup"
| "woken Gpadc_Sleep = Gpadc_Wakeup"
| "woken Pmu_Sleep = Pmu_Wakeup"
| "woken Norflash_Sleep = Norflash_Wakeup"
| "woken c = c"

definition chip_free :: "sleep \<Rightarrow> bool" where
  "chip_free s \<longleftrightarrow> wl_chip (sl_locks s) = 0"

lemma logs_drivers: "list_all (\<lambda>c. \<not> hook_call c) cs \<Longrightarrow> calls_drivers s (fold sleep_log cs s) cs"
proof (induction cs arbitrary: s)
  case Nil
  then show ?case by (simp add: calls_drivers_refl)
next
  case (Cons c cs)
  with calls_drivers_trans [OF calls_drivers_log Cons.IH, of c] show ?case by simp
qed

lemma stop_normal_drivers:
  "calls_drivers s (stop_normal e s) (stops (chip_free (stop_normal e s)) (registered s))"
proof -
  let ?t = "pm_notif_sleep e s"
  have eq: "stop_normal e s =
    fold sleep_log ((if chip_free ?t then [Analog_Sleep, Gpadc_Sleep, Pmu_Sleep] else []) @ [Norflash_Sleep]) ?t"
    by (simp add: stop_normal_def Let_def chip_free_def)
  have same: "chip_free (stop_normal e s) = chip_free ?t"
    unfolding eq by (simp add: chip_free_def sleep_log_def)
  have "calls_drivers ?t (stop_normal e s) ((if chip_free ?t then [Analog_Sleep, Gpadc_Sleep, Pmu_Sleep] else []) @ [Norflash_Sleep])"
    unfolding eq by (rule logs_drivers) simp
  from calls_drivers_trans [OF pm_notif_sleep_drivers this] show ?thesis by (simp add: same stops_def)
qed

lemma restore_normal_drivers:
  "calls_drivers s (restore_normal e s) (map woken (rev (stops (chip_free s) (registered s))))"
proof -
  let ?cs = "[Norflash_Wakeup] @ (if chip_free s then [Pmu_Wakeup, Gpadc_Wakeup, Analog_Wakeup] else [])"
  let ?t = "fold sleep_log ?cs s"
  have eq: "restore_normal e s = pm_notif_wakeup e ?t"
    by (simp add: restore_normal_def Let_def chip_free_def sleep_log_def)
  have "registered ?t = registered s"
    using calls_drivers_fields(3,5) [OF logs_drivers [of ?cs s]] by (simp add: registered_def)
  moreover have "calls_drivers s ?t ?cs" by (rule logs_drivers) simp
  ultimately have "calls_drivers s (restore_normal e s) (?cs @ map (\<lambda>h. Pm_Notif h HAL_PM_STATE_NORMAL_WAKEUP) (registered s))"
    using calls_drivers_trans [OF _ pm_notif_wakeup_drivers, of s ?t ?cs e] by (simp add: eq)
  then show ?thesis by (cases "chip_free s") (simp_all add: stops_def rev_map comp_def)
qed


section \<open>The register as a sorted list\<close>

definition pm_list :: "sleep \<Rightarrow> (pm_user_type \<times> fn_ptr) list" where
  "pm_list s = take (unat (sl_pm_user_cnt s)) (zip (sl_pm_user s) (sl_pm_notif s))"

definition spec_register :: "pm_user_type \<Rightarrow> fn_ptr \<Rightarrow> (pm_user_type \<times> fn_ptr) list \<Rightarrow> (pm_user_type \<times> fn_ptr) list" where
  "spec_register u h xs = filter (\<lambda>x. u < fst x) xs @ (u, h) # filter (\<lambda>x. \<not> u < fst x) xs"

definition spec_deregister :: "fn_ptr \<Rightarrow> (pm_user_type \<times> fn_ptr) list \<Rightarrow> (pm_user_type \<times> fn_ptr) list" where
  "spec_deregister h xs = filter (\<lambda>x. snd x \<noteq> h) xs"

definition pm_sorted :: "(pm_user_type \<times> fn_ptr) list \<Rightarrow> bool" where
  "pm_sorted xs \<longleftrightarrow> sorted_wrt (\<lambda>x y. fst y \<le> fst x) xs \<and> distinct (map snd xs) \<and> 0 \<notin> snd ` set xs"

definition pm_ok :: "sleep \<Rightarrow> bool" where
  "pm_ok s \<longleftrightarrow> unat (sl_pm_user_cnt s) \<le> PM_NOTIF_HDLR_CNT \<and> length (sl_pm_user s) = PM_NOTIF_HDLR_CNT \<and>
     length (sl_pm_notif s) = PM_NOTIF_HDLR_CNT \<and> pm_sorted (pm_list s)"

lemma pm_sorted_register: "pm_sorted xs \<Longrightarrow> h \<noteq> 0 \<Longrightarrow> h \<notin> snd ` set xs \<Longrightarrow> pm_sorted (spec_register u h xs)"
  by (auto simp: pm_sorted_def spec_register_def sorted_wrt_append sorted_wrt_filter distinct_map inj_on_def image_iff)

lemma pm_sorted_deregister: "pm_sorted xs \<Longrightarrow> pm_sorted (spec_deregister h xs)"
  by (auto simp: pm_sorted_def spec_deregister_def sorted_wrt_filter distinct_map intro: inj_on_subset)

text \<open>The loop of the insertion, on the pairs, and the insertion from the end that it is.\<close>

fun insert_pair :: "nat \<Rightarrow> pm_user_type \<times> fn_ptr \<Rightarrow> (pm_user_type \<times> fn_ptr) list \<Rightarrow> (pm_user_type \<times> fn_ptr) list" where
  "insert_pair 0 x zs = zs[0 := x]"
| "insert_pair (Suc i) x zs = (if fst x < fst (zs ! i) then zs[Suc i := x] else insert_pair i x (zs[Suc i := zs ! i]))"

fun insert_back :: "pm_user_type \<times> fn_ptr \<Rightarrow> (pm_user_type \<times> fn_ptr) list \<Rightarrow> (pm_user_type \<times> fn_ptr) list" where
  "insert_back x [] = [x]"
| "insert_back x (y # ys) = (if fst x < fst y then x # y # ys else y # insert_back x ys)"

lemma pm_insert_length [simp]:
  "length (fst (pm_insert i u h (us, ns))) = length us" "length (snd (pm_insert i u h (us, ns))) = length ns"
  by (induction i arbitrary: us ns) simp_all

lemma zip_pm_insert:
  "length us = length ns \<Longrightarrow> i < length ns \<Longrightarrow>
     zip (fst (pm_insert i u h (us, ns))) (snd (pm_insert i u h (us, ns))) = insert_pair i (u, h) (zip us ns)"
  by (induction i arbitrary: us ns) (simp_all add: update_zip)

lemma insert_pair_above: "i < j \<Longrightarrow> insert_pair i x zs ! j = zs ! j"
  by (induction i arbitrary: zs) simp_all

lemma insert_pair_length [simp]: "length (insert_pair i x zs) = length zs"
  by (induction i arbitrary: zs) simp_all

lemma insert_pair_take:
  "i < length zs \<Longrightarrow> take (Suc i) (insert_pair i x zs) = rev (insert_back x (rev (take i zs)))"
proof (induction i arbitrary: zs)
  case 0
  then show ?case by (cases zs) simp_all
next
  case (Suc i)
  have z: "take (Suc i) zs = take i zs @ [zs ! i]" using Suc.prems by (simp add: take_Suc_conv_app_nth)
  show ?case
  proof (cases "fst x < fst (zs ! i)")
    case True
    with Suc.prems z show ?thesis by (simp add: take_Suc_conv_app_nth [of "Suc i"])
  next
    case False
    let ?zs = "zs[Suc i := zs ! i]"
    have "take (Suc (Suc i)) (insert_pair i x ?zs) = take (Suc i) (insert_pair i x ?zs) @ [?zs ! Suc i]"
      using Suc.prems by (simp add: take_Suc_conv_app_nth [of "Suc i"] insert_pair_above)
    also have "\<dots> = rev (insert_back x (rev (take i zs))) @ [zs ! i]"
      using Suc.IH [of ?zs] Suc.prems by simp
    finally show ?thesis using False z by simp
  qed
qed

lemma insert_back_filter:
  "sorted_wrt (\<lambda>x y. fst x \<le> fst y) ys \<Longrightarrow>
     rev (insert_back x ys) = filter (\<lambda>y. fst x < fst y) (rev ys) @ x # filter (\<lambda>y. \<not> fst x < fst y) (rev ys)"
proof (induction ys)
  case (Cons y ys)
  show ?case
  proof (cases "fst x < fst y")
    case True
    then have "\<forall>z\<in>set ys. fst x < fst z" using Cons.prems by (auto intro: less_le_trans)
    with True show ?thesis by (simp add: filter_id_conv filter_empty_conv)
  next
    case False
    with Cons show ?thesis by simp
  qed
qed simp

lemma pm_insert_spec:
  assumes "length us = length ns" "n < length ns" "pm_sorted (take n (zip us ns))"
  shows "take (Suc n) (zip (fst (pm_insert n u h (us, ns))) (snd (pm_insert n u h (us, ns)))) = spec_register u h (take n (zip us ns))"
proof -
  have "sorted_wrt (\<lambda>x y. fst x \<le> fst y) (rev (take n (zip us ns)))"
    using assms(3) by (simp add: pm_sorted_def sorted_wrt_rev)
  from insert_back_filter [OF this, of "(u, h)"] assms(1,2) show ?thesis
    by (simp add: zip_pm_insert insert_pair_take spec_register_def)
qed

lemma fold_pm_shift:
  "i \<le> m \<Longrightarrow> m < length xs \<Longrightarrow>
     length (fold pm_shift [i..<m] xs) = length xs \<and> drop m (fold pm_shift [i..<m] xs) = drop m xs \<and>
     take m (fold pm_shift [i..<m] xs) = take i xs @ take (m - i) (drop (Suc i) xs)"
proof (induction m rule: dec_induct)
  case base
  then show ?case by simp
next
  case (step m)
  let ?ys = "fold pm_shift [i..<m] xs"
  from step have ys: "length ?ys = length xs" "drop m ?ys = drop m xs" "take m ?ys = take i xs @ take (m - i) (drop (Suc i) xs)"
    by simp_all
  have next_: "?ys ! Suc m = xs ! Suc m"
    using arg_cong [OF ys(2), of "\<lambda>l. l ! 1"] step.prems ys(1) by simp
  have "drop (Suc m) ?ys = drop (Suc m) xs"
    using arg_cong [OF ys(2), of "drop 1"] by simp
  moreover have "take (Suc m) (?ys[m := xs ! Suc m]) = take i xs @ take (m - i) (drop (Suc i) xs) @ [xs ! Suc m]"
    using step.prems ys by (simp add: take_Suc_conv_app_nth)
  moreover have "take (Suc m - i) (drop (Suc i) xs) = take (m - i) (drop (Suc i) xs) @ [xs ! Suc m]"
    using step.hyps step.prems by (simp add: Suc_diff_le take_Suc_conv_app_nth)
  moreover have "fold pm_shift [i..<Suc m] xs = ?ys[m := xs ! Suc m]"
    using step.hyps next_ by (simp add: pm_shift_def [of m])
  ultimately show ?case using ys(1) by simp
qed


lemma find_index:
  assumes "find (\<lambda>i. ns ! i = h) [0..<n] = Some i" "n \<le> length ns"
  shows "i < n \<and> ns ! i = h" and "h \<notin> set (take i ns)"
proof -
  have i: "i < n" "ns ! i = h" "\<And>j. j < i \<Longrightarrow> ns ! j \<noteq> h"
    using assms(1) by (auto simp: find_Some_iff)
  then show "i < n \<and> ns ! i = h" by simp
  show "h \<notin> set (take i ns)" using i assms(2) by (auto simp: in_set_conv_nth)
qed

lemma remove_nth:
  assumes "i < length xs" "distinct (map snd xs)" "snd (xs ! i) = h"
  shows "spec_deregister h xs = take i xs @ drop (Suc i) xs"
proof -
  have xs: "xs = take i xs @ xs ! i # drop (Suc i) xs" by (rule id_take_nth_drop [OF assms(1)])
  with assms(2) have "distinct (map snd (take i xs @ xs ! i # drop (Suc i) xs))" by simp
  then have "h \<notin> snd ` set (take i xs)" "h \<notin> snd ` set (drop (Suc i) xs)" using assms(3) by auto
  then have "filter (\<lambda>x. snd x \<noteq> h) (take i xs) = take i xs" "filter (\<lambda>x. snd x \<noteq> h) (drop (Suc i) xs) = drop (Suc i) xs"
    by (force simp: filter_id_conv)+
  with assms(3) have "filter (\<lambda>x. snd x \<noteq> h) (take i xs @ xs ! i # drop (Suc i) xs) = take i xs @ drop (Suc i) xs" by simp
  with xs show ?thesis unfolding spec_deregister_def by simp
qed

lemma pm_ok_handlers:
  assumes "pm_ok s"
  shows "snd ` set (pm_list s) = (!) (sl_pm_notif s) ` {0..<unat (sl_pm_user_cnt s)}"
    and "length (pm_list s) = unat (sl_pm_user_cnt s)"
proof -
  show l: "length (pm_list s) = unat (sl_pm_user_cnt s)" using assms by (simp add: pm_ok_def pm_list_def)
  have "pm_list s ! i = (sl_pm_user s ! i, sl_pm_notif s ! i)" if "i < unat (sl_pm_user_cnt s)" for i
    using that assms by (simp add: pm_ok_def pm_list_def)
  then show "snd ` set (pm_list s) = (!) (sl_pm_notif s) ` {0..<unat (sl_pm_user_cnt s)}"
    by (force simp: set_conv_nth l image_iff)
qed

lemma register_refines:
  assumes ok: "pm_ok s"
  shows "hal_pm_notif_register u h s = Inl Assert_Fail \<and>
      (h = 0 \<or> length (pm_list s) = PM_NOTIF_HDLR_CNT \<or> h \<in> snd ` set (pm_list s)) \<or>
    (\<exists>t. hal_pm_notif_register u h s = Inr (0, t) \<and> h \<noteq> 0 \<and> h \<notin> snd ` set (pm_list s) \<and>
      pm_list t = spec_register u h (pm_list s) \<and> pm_ok t)"
proof -
  let ?n = "unat (sl_pm_user_cnt s)"
  have known: "list_ex (\<lambda>i. sl_pm_notif s ! i = h) [0..<?n] \<longleftrightarrow> h \<in> snd ` set (pm_list s)"
    by (auto simp: list_ex_iff pm_ok_handlers(1) [OF ok])
  show ?thesis
  proof (cases "h \<noteq> 0 \<and> ?n < PM_NOTIF_HDLR_CNT \<and> h \<notin> snd ` set (pm_list s)")
    case False
    then have "h = 0 \<or> \<not> ?n < PM_NOTIF_HDLR_CNT \<or> h \<in> snd ` set (pm_list s)" by blast
    then have "hal_pm_notif_register u h s = Inl Assert_Fail"
      by (elim disjE) (simp_all add: hal_pm_notif_register_def known c_assert_def)
    moreover have "\<not> ?n < PM_NOTIF_HDLR_CNT \<Longrightarrow> length (pm_list s) = PM_NOTIF_HDLR_CNT"
      using ok pm_ok_handlers(2) [OF ok] by (simp add: pm_ok_def)
    ultimately show ?thesis using False by blast
  next
    case True
    obtain us ns where ins: "pm_insert ?n u h (sl_pm_user s, sl_pm_notif s) = (us, ns)" by fastforce
    let ?t = "s\<lparr>sl_pm_user := us, sl_pm_notif := ns, sl_pm_user_cnt := sl_pm_user_cnt s + 1\<rparr>"
    have r: "hal_pm_notif_register u h s = Inr (0, ?t)"
      using True ins by (simp add: hal_pm_notif_register_def known)
    have cnt: "unat (sl_pm_user_cnt s + 1) = Suc ?n"
      using True by (simp add: PM_NOTIF_HDLR_CNT_def unat_word_ariths)
    have l: "length us = PM_NOTIF_HDLR_CNT" "length ns = PM_NOTIF_HDLR_CNT"
      using ins pm_insert_length [of ?n u h "sl_pm_user s" "sl_pm_notif s"] ok by (simp_all add: pm_ok_def)
    have p: "pm_list ?t = spec_register u h (pm_list s)"
      using pm_insert_spec [of "sl_pm_user s" "sl_pm_notif s" ?n u h] True ok ins
      by (simp add: pm_list_def pm_ok_def cnt)
    moreover have "pm_ok ?t"
      using p True l cnt pm_sorted_register [of "pm_list s" h u] ok by (simp add: pm_ok_def)
    ultimately show ?thesis using r True by blast
  qed
qed

lemma deregister_refines:
  assumes ok: "pm_ok s" and d: "hal_pm_notif_deregister u h s = (r, t)"
  shows "pm_list t = spec_deregister h (pm_list s) \<and> pm_ok t \<and>
    r = (if h = 0 then 1 else if h \<in> snd ` set (pm_list s) then 0 else 2)"
proof (cases "h \<noteq> 0 \<and> h \<in> snd ` set (pm_list s)")
  case False
  have "h \<notin> snd ` set (pm_list s)"
    using False ok by (auto simp: pm_ok_def pm_sorted_def)
  then have "spec_deregister h (pm_list s) = pm_list s"
    by (force simp: spec_deregister_def filter_id_conv)
  moreover have "h \<noteq> 0 \<Longrightarrow> find (\<lambda>i. sl_pm_notif s ! i = h) [0..<unat (sl_pm_user_cnt s)] = None"
    using False by (auto simp: find_None_iff pm_ok_handlers(1) [OF ok])
  ultimately show ?thesis using False d ok by (auto simp: hal_pm_notif_deregister_def split: if_splits)
next
  case True
  let ?n = "unat (sl_pm_user_cnt s)"
  from True obtain i where f: "find (\<lambda>i. sl_pm_notif s ! i = h) [0..<?n] = Some i"
    by (cases "find (\<lambda>i. sl_pm_notif s ! i = h) [0..<?n]") (auto simp: find_None_iff pm_ok_handlers(1) [OF ok])
  have len: "?n \<le> 3" "length (sl_pm_user s) = 3" "length (sl_pm_notif s) = 3"
    using ok by (simp_all add: pm_ok_def PM_NOTIF_HDLR_CNT_def)
  have i: "i < ?n" "sl_pm_notif s ! i = h" using find_index(1) [OF f] len by simp_all
  let ?us = "fold pm_shift [i..<?n - 1] (sl_pm_user s)" and ?ns = "fold pm_shift [i..<?n - 1] (sl_pm_notif s)"
  have t: "r = 0" "t = s\<lparr>sl_pm_user := ?us, sl_pm_notif := ?ns, sl_pm_user_cnt := sl_pm_user_cnt s - 1\<rparr>"
    using d True f by (auto simp: hal_pm_notif_deregister_def Let_def)
  have cnt: "unat (sl_pm_user_cnt s - 1) = ?n - 1"
    using i(1) by (subst unat_sub) (simp_all add: word_le_nat_alt)
  have le: "i \<le> ?n - 1" "?n - 1 < length (sl_pm_user s)" "?n - 1 < length (sl_pm_notif s)" using i len by simp_all
  note us = fold_pm_shift [OF le(1,2)] and ns = fold_pm_shift [OF le(1,3)]
  let ?z = "zip (sl_pm_user s) (sl_pm_notif s)"
  have "pm_list t = take (?n - 1) (zip ?us ?ns)" by (simp add: pm_list_def t cnt)
  also have "\<dots> = take i ?z @ take (?n - 1 - i) (drop (Suc i) ?z)"
    using us ns i len by (simp add: take_zip drop_zip min_def)
  also have "\<dots> = take i (pm_list s) @ drop (Suc i) (pm_list s)"
    using i by (simp add: pm_list_def drop_take min_def)
  also have "\<dots> = spec_deregister h (pm_list s)"
    using remove_nth [of i "pm_list s" h] i ok len pm_ok_handlers(2) [OF ok]
    by (simp add: pm_ok_def pm_sorted_def pm_list_def)
  finally have p: "pm_list t = spec_deregister h (pm_list s)" .
  moreover have "pm_ok t"
    using p ok us ns cnt len pm_sorted_deregister [of "pm_list s" h] t by (simp add: pm_ok_def PM_NOTIF_HDLR_CNT_def)
  ultimately show ?thesis using True t by simp
qed

lemma registered_pm_list: "pm_ok s \<Longrightarrow> registered s = map snd (pm_list s)"
proof -
  assume ok: "pm_ok s"
  let ?n = "unat (sl_pm_user_cnt s)"
  have "map ((!) (sl_pm_notif s)) [0..<?n] = take ?n (sl_pm_notif s)"
    using ok by (intro nth_equalityI) (simp_all add: pm_ok_def)
  moreover have "map snd (pm_list s) = take ?n (sl_pm_notif s)"
    using ok by (simp add: pm_list_def pm_ok_def take_map flip: take_map)
  moreover have "0 \<notin> set (map snd (pm_list s))" using ok by (simp add: pm_ok_def pm_sorted_def)
  ultimately show ?thesis by (simp add: registered_def filter_id_conv) (metis neq0_conv)
qed

end
