(* ===== verification/SleepRun.thy ===== *)
theory SleepRun
  imports SleepInv
begin

text \<open>
  Runs of the idle function: which drivers are called, when the processor sleeps and how deeply, and what the statistics count.
  The steps of the module are a relation \<open>sleep_reach T T0 s\<close> with the time in ticks since boot, as a natural number that does not
  wrap around, and the time at which the current period of the statistics began.
\<close>

section \<open>One run of the idle function\<close>

text \<open>Steps that keep the register and the hooks, with the drivers that they call.\<close>

definition drives :: "sleep \<Rightarrow> sleep \<Rightarrow> sleep_call list \<Rightarrow> bool" where
  "drives s t ds \<longleftrightarrow>
     (\<exists>cs. sl_calls t = sl_calls s @ cs \<and> driver_calls cs = ds) \<and> (locks_logged s \<longrightarrow> locks_logged t) \<and>
     sl_pm_user_cnt t = sl_pm_user_cnt s \<and> sl_pm_user t = sl_pm_user s \<and> sl_pm_notif t = sl_pm_notif s \<and>
     sl_hook t = sl_hook s \<and> sl_deep_hook t = sl_deep_hook s"

lemma drives_calls: "calls_drivers s t ds \<Longrightarrow> drives s t ds"
  by (auto simp: drives_def calls_drivers_fields elim!: calls_driversE dest: calls_only_fields(20))

lemma drives_refl: "drives s s []"
  by (auto simp: drives_def)

lemma drives_trans [trans]: "drives s t ds \<Longrightarrow> drives t u es \<Longrightarrow> drives s u (ds @ es)"
  by (fastforce simp: drives_def)

lemma drives_log: "\<not> hook_call c \<Longrightarrow> drives s (sleep_log c s) [c]"
  by (intro drives_calls calls_drivers_log)

lemma drives_still:
  "sl_calls t = sl_calls s \<Longrightarrow> sl_locks t = sl_locks s \<Longrightarrow> sl_pm_user_cnt t = sl_pm_user_cnt s \<Longrightarrow> sl_pm_user t = sl_pm_user s \<Longrightarrow>
     sl_pm_notif t = sl_pm_notif s \<Longrightarrow> sl_hook t = sl_hook s \<Longrightarrow> sl_deep_hook t = sl_deep_hook s \<Longrightarrow> drives s t []"
  using locks_logged_cong [of t s] by (simp add: drives_def)

lemma drives_time: "drives s (add_freq_time idle now s) []" "drives s (count_deep d s) []" "drives s (count_light d s) []"
  by (rule drives_still; simp add: add_freq_time_def on_freq_def count_deep_def count_light_def)+

lemma registered_cong: "drives s t ds \<Longrightarrow> registered t = registered s"
  by (simp add: drives_def registered_def)

lemma hooks_drive:
  "drives s (snd (hal_sleep_exec_sleep_hook e s)) []" "drives s (snd (hal_sleep_exec_deep_sleep_hook e s)) []"
  unfolding hal_sleep_exec_sleep_hook_def hal_sleep_exec_deep_sleep_hook_def
  by (intro drives_calls exec_hooks_drivers(1); simp)+

lemma hooks_refuse:
  "fst (hal_sleep_exec_sleep_hook e s) \<longleftrightarrow> list_ex (refuses e) (sl_hook s)"
  "fst (hal_sleep_exec_deep_sleep_hook e s) \<longleftrightarrow> list_ex (refuses e) (sl_deep_hook s)"
  unfolding hal_sleep_exec_sleep_hook_def hal_sleep_exec_deep_sleep_hook_def
  by (rule exec_hooks_drivers(2); simp)+


lemma hooks_fields:
  "sl_freq (snd (hal_sleep_exec_sleep_hook e s)) = sl_freq s" "sl_freq (snd (hal_sleep_exec_deep_sleep_hook e s)) = sl_freq s"
  unfolding hal_sleep_exec_sleep_hook_def hal_sleep_exec_deep_sleep_hook_def
  by (rule calls_drivers_fields(19) [OF exec_hooks_drivers(1)]; simp)+

definition deep_refused :: "idle_env \<Rightarrow> sleep \<Rightarrow> bool" where
  "deep_refused e s \<longleftrightarrow> list_ex (refuses e) (sl_deep_hook s) \<or> id_trace_busy e"

text \<open>The state in which the modules are restored has the wake locks of the one in which they were stopped.\<close>

lemma lowpower_drives:
  assumes "hal_sleep_lowpower_mode e s = (ret, t)"
  defines "s1 \<equiv> snd (hal_sleep_exec_deep_sleep_hook e s)"
  defines "c \<equiv> chip_free (stop_normal e s1)"
  defines "mid \<equiv> (if id_irq_pending e then [] else [Cmu_Lpu_Sleep (lpu_mode s1)])"
  shows "drives s t (if deep_refused e s then [] else stops c (registered s) @ mid @ map woken (rev (stops c (registered s))))"
    and "ret = HAL_SLEEP_STATUS_DEEP \<longleftrightarrow> \<not> deep_refused e s \<and> \<not> id_irq_pending e"
proof -
  have h: "drives s s1 []" "fst (hal_sleep_exec_deep_sleep_hook e s) \<longleftrightarrow> list_ex (refuses e) (sl_deep_hook s)"
    using hooks_drive(2) hooks_refuse(2) by (simp_all add: s1_def)
  have hooks: "hal_sleep_exec_deep_sleep_hook e s = (list_ex (refuses e) (sl_deep_hook s), s1)"
    by (rule prod_eqI) (simp_all add: h(2) s1_def)
  have r: "registered s1 = registered s" by (rule registered_cong [OF h(1)])
  have st: "drives s (stop_normal e s1) (stops c (registered s))"
    using drives_trans [OF h(1) drives_calls [OF stop_normal_drivers]] by (simp add: c_def r)
  have re: "drives u (restore_normal e u) (map woken (rev (stops c (registered s))))"
    if "drives (stop_normal e s1) u ds" "sl_locks u = sl_locks (stop_normal e s1)" for u ds
    using drives_calls [OF restore_normal_drivers [of u e]] registered_cong [OF that(1)] registered_cong [OF st] that(2)
    by (simp add: c_def chip_free_def)
  let ?u = "add_freq_time True (id_cur e) (count_deep (id_cur e - id_prev e)
    (sleep_log (Cmu_Lpu_Sleep (lpu_mode s1)) (add_freq_time False (id_prev e) (stop_normal e s1))))"
  have u: "drives (stop_normal e s1) ?u [Cmu_Lpu_Sleep (lpu_mode s1)]"
    using drives_trans [OF drives_trans [OF drives_trans [OF drives_time(1) drives_log] drives_time(2)] drives_time(1)] by simp
  have l: "sl_locks ?u = sl_locks (stop_normal e s1)"
    by (simp add: add_freq_time_def count_deep_def sleep_log_def on_freq_def)
  show "drives s t (if deep_refused e s then [] else stops c (registered s) @ mid @ map woken (rev (stops c (registered s))))"
    using assms(1) h(1) drives_trans [OF st re [OF drives_refl]] drives_trans [OF st drives_trans [OF u re [OF u l]]]
    by (auto simp: hal_sleep_lowpower_mode_def hooks deep_refused_def mid_def split: if_splits)
  show "ret = HAL_SLEEP_STATUS_DEEP \<longleftrightarrow> \<not> deep_refused e s \<and> \<not> id_irq_pending e"
    using assms(1) by (auto simp: hal_sleep_lowpower_mode_def hooks deep_refused_def split: if_splits)
qed


text \<open>The two reasons to stay awake, and the reasons not to sleep deeply.\<close>

definition kept_awake :: "idle_env \<Rightarrow> sleep \<Rightarrow> bool" where
  "kept_awake e s \<longleftrightarrow> wl_cpu (sl_locks s) \<noteq> 0 \<or> id_lpu_busy e \<or> list_ex (refuses e) (sl_hook s)"

definition after_hooks :: "idle_env \<Rightarrow> sleep \<Rightarrow> sleep" where
  "after_hooks e s = snd (hal_sleep_exec_sleep_hook e s)"

definition kept_light :: "idle_env \<Rightarrow> sleep \<Rightarrow> bool" where
  "kept_light e s \<longleftrightarrow> wl_sys (sl_locks (after_hooks e s)) \<noteq> 0 \<or> hal_sysfreq_busy (sl_freq s) \<or> id_dma_busy e"

definition after_deep_hooks :: "idle_env \<Rightarrow> sleep \<Rightarrow> sleep" where
  "after_deep_hooks e s = snd (hal_sleep_exec_deep_sleep_hook e (after_hooks e s))"

text \<open>The drivers that one run calls.\<close>

definition idle_drivers :: "idle_env \<Rightarrow> sleep \<Rightarrow> sleep_call list" where
  "idle_drivers e s =
     (if kept_awake e s then []
      else if kept_light e s then [Wfi]
      else if deep_refused e s then []
      else
        let down = stops (chip_free (stop_normal e (after_deep_hooks e s))) (registered s) in
        down @ (if id_irq_pending e then [] else [Cmu_Lpu_Sleep (lpu_mode (after_deep_hooks e s))]) @ map woken (rev down))"

lemma wait_drives: "drives s (wait_for_interrupt e s) [Wfi]"
  using drives_trans [OF drives_trans [OF drives_trans [OF drives_time(1) drives_log] drives_time(3)] drives_time(1)]
  by (simp add: wait_for_interrupt_def)

lemma idle_drives:
  assumes "idle_sleep False e s = (ret, t)"
  shows "drives s t (idle_drivers e s)"
    and "ret = HAL_SLEEP_STATUS_DEEP \<longleftrightarrow> \<not> kept_awake e s \<and> \<not> kept_light e s \<and> \<not> deep_refused e s \<and> \<not> id_irq_pending e"
proof -
  have hooks: "hal_sleep_exec_sleep_hook e s = (list_ex (refuses e) (sl_hook s), after_hooks e s)"
    by (rule prod_eqI) (simp_all add: hooks_refuse after_hooks_def)
  have f: "sl_freq (after_hooks e s) = sl_freq s" by (simp add: after_hooks_def hooks_fields)
  have d: "drives s (after_hooks e s) []" using hooks_drive(1) by (simp add: after_hooks_def)
  then have same: "registered (after_hooks e s) = registered s" "deep_refused e (after_hooks e s) = deep_refused e s"
    by (simp_all add: registered_cong) (simp add: drives_def deep_refused_def)
  note def = idle_sleep_def hooks kept_awake_def kept_light_def f idle_drivers_def
  show "drives s t (idle_drivers e s)"
  proof (cases "\<not> kept_awake e s \<and> \<not> kept_light e s")
    case True
    then have "hal_sleep_lowpower_mode e (after_hooks e s) = (ret, t)" using assms by (simp add: def)
    from drives_trans [OF d lowpower_drives(1) [OF this]] True show ?thesis
      by (cases "deep_refused e s"; cases "id_irq_pending e") (simp_all add: idle_drivers_def Let_def same after_deep_hooks_def)
  next
    case False
    then show ?thesis using assms d drives_refl drives_trans [OF d wait_drives]
      by (auto simp: def split: if_splits)
  qed
  show "ret = HAL_SLEEP_STATUS_DEEP \<longleftrightarrow> \<not> kept_awake e s \<and> \<not> kept_light e s \<and> \<not> deep_refused e s \<and> \<not> id_irq_pending e"
  proof (cases "\<not> kept_awake e s \<and> \<not> kept_light e s")
    case True
    then have "hal_sleep_lowpower_mode e (after_hooks e s) = (ret, t)" using assms by (simp add: def)
    from lowpower_drives(2) [OF this] True show ?thesis by (simp add: same)
  next
    case False
    then show ?thesis using assms by (auto simp: def split: if_splits)
  qed
qed

text \<open>The end of the function touches the statistics only.\<close>

lemma publish_fields:
  "publish_ratios cur s = Inr t \<Longrightarrow> sl_calls t = sl_calls s \<and> sl_locks t = sl_locks s \<and> sl_pm_user_cnt t = sl_pm_user_cnt s \<and>
     sl_pm_user t = sl_pm_user s \<and> sl_pm_notif t = sl_pm_notif s \<and> sl_hook t = sl_hook s \<and> sl_deep_hook t = sl_deep_hook s \<and>
     sl_freq t = sl_freq s \<and> sl_started t = sl_started s \<and> sl_interval t = sl_interval s \<and> sl_trace_interval t = sl_trace_interval s"
  by (auto simp: publish_ratios_def Let_def system_sleep_stat_update_def)

lemma exit_drives: "exit_sleep e s = Inr t \<Longrightarrow> drives s t []"
  by (rule drives_still; auto simp: exit_sleep_def on_freq_def dest: publish_fields split: if_splits)

lemma proc_idle:
  assumes "hal_sleep_proc light e s = Inr (ret, t)"
  obtains u where "idle_sleep light e s = (ret, u)" "exit_sleep e u = Inr t"
  using assms by (cases "idle_sleep light e s") (auto simp: hal_sleep_proc_def)

lemma enter_drives:
  assumes "hal_sleep_enter_sleep e s = Inr (ret, t)"
  shows "drives s t (idle_drivers e s)"
    and "ret = HAL_SLEEP_STATUS_DEEP \<longleftrightarrow> \<not> kept_awake e s \<and> \<not> kept_light e s \<and> \<not> deep_refused e s \<and> \<not> id_irq_pending e"
proof -
  from assms obtain u where u: "idle_sleep False e s = (ret, u)" "exit_sleep e u = Inr t"
    unfolding hal_sleep_enter_sleep_def by (rule proc_idle)
  from drives_trans [OF idle_drives(1) [OF u(1)] exit_drives [OF u(2)]] show "drives s t (idle_drivers e s)" by simp
  from idle_drives(2) [OF u(1)]
  show "ret = HAL_SLEEP_STATUS_DEEP \<longleftrightarrow> \<not> kept_awake e s \<and> \<not> kept_light e s \<and> \<not> deep_refused e s \<and> \<not> id_irq_pending e" .
qed

lemma light_drives:
  assumes "idle_sleep True e s = (ret, t)"
  shows "drives s t (if \<not> kept_awake e s \<and> kept_light e s then [Wfi] else [])"
proof -
  have hooks: "hal_sleep_exec_sleep_hook e s = (list_ex (refuses e) (sl_hook s), after_hooks e s)"
    by (rule prod_eqI) (simp_all add: hooks_refuse after_hooks_def)
  have d: "drives s (after_hooks e s) []" using hooks_drive(1) by (simp add: after_hooks_def)
  have f: "sl_freq (after_hooks e s) = sl_freq s" by (simp add: after_hooks_def hooks_fields)
  show ?thesis using assms d drives_refl drives_trans [OF d wait_drives]
    by (auto simp: idle_sleep_def hooks kept_awake_def kept_light_def f split: if_splits)
qed

lemma proc_drives:
  assumes "hal_sleep_proc light e s = Inr (ret, t)"
  shows "\<exists>ds. drives s t ds"
proof -
  from assms obtain u where u: "idle_sleep light e s = (ret, u)" "exit_sleep e u = Inr t" by (rule proc_idle)
  then have "\<exists>ds. drives s u ds" by (cases light) (auto dest: idle_drives(1) light_drives)
  then show ?thesis using drives_trans [OF _ exit_drives [OF u(2)]] by blast
qed


section \<open>What one run counts\<close>

definition stat_of :: "sleep \<Rightarrow> (u32 \<times> u32 \<times> bool \<times> bool) \<times> (u8 \<times> u8 \<times> u8) \<times> u32 \<times> u32" where
  "stat_of s = ((sl_interval s, sl_start s, sl_started s, sl_valid s), (sl_light_ratio s, sl_sys_ratio s, sl_chip_ratio s),
     sl_trace_interval s, sl_trace_time s)"

definition times_of :: "sleep \<Rightarrow> u32 \<times> u32 \<times> u32" where
  "times_of s = (sl_light_time s, sl_sys_time s, sl_chip_time s)"

definition add_one :: "u32 \<Rightarrow> u32 \<times> u32 \<times> u32 \<Rightarrow> u32 \<times> u32 \<times> u32 \<Rightarrow> bool" where
  "add_one d x y \<longleftrightarrow> (case x of (l, m, c) \<Rightarrow> y \<in> {(l + d, m, c), (l, m + d, c), (l, m, c + d)})"

definition booked :: "idle_env \<Rightarrow> sysfreq \<Rightarrow> sysfreq" where
  "booked e f = hal_sysfreq_add_freq_time True (id_cur e) (hal_sysfreq_add_freq_time False (id_prev e) f)"

definition slept :: "bool \<Rightarrow> idle_env \<Rightarrow> sleep \<Rightarrow> bool" where
  "slept light e s \<longleftrightarrow> \<not> kept_awake e s \<and> (kept_light e s \<or> \<not> light \<and> \<not> deep_refused e s \<and> \<not> id_irq_pending e)"

lemma calls_stats: "calls_drivers s t ds \<Longrightarrow> stat_of t = stat_of s \<and> times_of t = times_of s \<and> sl_freq t = sl_freq s \<and> sl_started t = sl_started s"
  by (simp add: stat_of_def times_of_def calls_drivers_fields)

lemma hooks_stats:
  "stat_of (snd (hal_sleep_exec_sleep_hook e s)) = stat_of s \<and> times_of (snd (hal_sleep_exec_sleep_hook e s)) = times_of s \<and>
   sl_freq (snd (hal_sleep_exec_sleep_hook e s)) = sl_freq s \<and> sl_started (snd (hal_sleep_exec_sleep_hook e s)) = sl_started s"
  "stat_of (snd (hal_sleep_exec_deep_sleep_hook e s)) = stat_of s \<and> times_of (snd (hal_sleep_exec_deep_sleep_hook e s)) = times_of s \<and>
   sl_freq (snd (hal_sleep_exec_deep_sleep_hook e s)) = sl_freq s \<and> sl_started (snd (hal_sleep_exec_deep_sleep_hook e s)) = sl_started s"
  unfolding hal_sleep_exec_sleep_hook_def hal_sleep_exec_deep_sleep_hook_def
  by (rule calls_stats [OF exec_hooks_drivers(1)]; simp)+

lemma lowpower_effect:
  assumes "hal_sleep_lowpower_mode e s = (ret, t)"
  defines "b \<equiv> \<not> deep_refused e s \<and> \<not> id_irq_pending e \<and> sl_started s"
  shows "stat_of t = stat_of s \<and> sl_freq t = (if b then booked e (sl_freq s) else sl_freq s) \<and>
    (if b then add_one (id_cur e - id_prev e) (times_of s) (times_of t) else times_of t = times_of s)"
proof -
  define s1 where "s1 = snd (hal_sleep_exec_deep_sleep_hook e s)"
  have hooks: "hal_sleep_exec_deep_sleep_hook e s = (list_ex (refuses e) (sl_deep_hook s), s1)"
    by (rule prod_eqI) (simp_all add: hooks_refuse s1_def)
  have st: "stat_of (stop_normal e s1) = stat_of s" "times_of (stop_normal e s1) = times_of s"
    "sl_freq (stop_normal e s1) = sl_freq s" "sl_started (stop_normal e s1) = sl_started s"
    using calls_stats [OF stop_normal_drivers [of s1 e]] hooks_stats(2) [of e s] by (simp_all add: s1_def)
  let ?v = "sleep_log (Cmu_Lpu_Sleep (lpu_mode s1)) (add_freq_time False (id_prev e) (stop_normal e s1))"
  let ?u = "add_freq_time True (id_cur e) (count_deep (id_cur e - id_prev e) ?v)"
  have re: "stat_of (restore_normal e u) = stat_of u" "times_of (restore_normal e u) = times_of u" "sl_freq (restore_normal e u) = sl_freq u" for u
    using calls_stats [OF restore_normal_drivers [of u e]] by simp_all
  have "stat_of ?u = stat_of s" using st(1) by (simp add: add_freq_time_def on_freq_def count_deep_def sleep_log_def stat_of_def)
  moreover have "sl_freq ?u = (if sl_started s then booked e (sl_freq s) else sl_freq s)"
    using st(3,4) by (simp add: add_freq_time_def on_freq_def count_deep_def sleep_log_def booked_def)
  moreover have "if sl_started s then add_one (id_cur e - id_prev e) (times_of s) (times_of ?u) else times_of ?u = times_of s"
    using st(2,4) by (auto simp: add_freq_time_def on_freq_def count_deep_def sleep_log_def times_of_def add_one_def)
  moreover have "stat_of s1 = stat_of s" "times_of s1 = times_of s" "sl_freq s1 = sl_freq s"
    using hooks_stats(2) [of e s] by (simp_all add: s1_def)
  moreover have "t = (if deep_refused e s then s1
      else if id_irq_pending e then restore_normal e (stop_normal e s1) else restore_normal e ?u)"
    using assms(1) by (auto simp: hal_sleep_lowpower_mode_def hooks deep_refused_def Let_def split: if_splits)
  ultimately show ?thesis unfolding b_def by (simp add: re st)
qed

lemma idle_effect:
  assumes "idle_sleep light e s = (ret, t)"
  shows "stat_of t = stat_of s \<and>
    sl_freq t = (if slept light e s \<and> sl_started s then booked e (sl_freq s) else sl_freq s) \<and>
    (if slept light e s \<and> sl_started s then add_one (id_cur e - id_prev e) (times_of s) (times_of t) else times_of t = times_of s)"
proof -
  let ?s = "after_hooks e s"
  have hooks: "hal_sleep_exec_sleep_hook e s = (list_ex (refuses e) (sl_hook s), ?s)"
    by (rule prod_eqI) (simp_all add: hooks_refuse after_hooks_def)
  have h: "stat_of ?s = stat_of s" "times_of ?s = times_of s" "sl_freq ?s = sl_freq s" "sl_started ?s = sl_started s"
    using hooks_stats(1) [of e s] by (simp_all add: after_hooks_def)
  have d: "deep_refused e ?s = deep_refused e s"
    using hooks_drive(1) [of s e] by (simp add: drives_def deep_refused_def after_hooks_def)
  have w: "stat_of (wait_for_interrupt e ?s) = stat_of s"
    "sl_freq (wait_for_interrupt e ?s) = (if sl_started s then booked e (sl_freq s) else sl_freq s)"
    "if sl_started s then add_one (id_cur e - id_prev e) (times_of s) (times_of (wait_for_interrupt e ?s))
     else times_of (wait_for_interrupt e ?s) = times_of s"
    using h by (auto simp: wait_for_interrupt_def add_freq_time_def on_freq_def count_light_def sleep_log_def stat_of_def times_of_def
        booked_def add_one_def)
  note def = idle_sleep_def hooks kept_awake_def kept_light_def h(3) slept_def
  consider "kept_awake e s" | "\<not> kept_awake e s" "kept_light e s" | "\<not> kept_awake e s" "\<not> kept_light e s" by blast
  then show ?thesis
  proof cases
    case 1
    then have "t = s \<or> t = ?s" using assms by (auto simp: def split: if_splits)
    with 1 h show ?thesis by (auto simp: slept_def)
  next
    case 2
    then have "t = wait_for_interrupt e ?s" using assms by (auto simp: def split: if_splits)
    with 2 w show ?thesis by (simp add: slept_def)
  next
    case 3
    then have "light \<and> t = ?s \<or> \<not> light \<and> hal_sleep_lowpower_mode e ?s = (ret, t)" using assms by (auto simp: def split: if_splits)
    with 3 h d show ?thesis using lowpower_effect [of e ?s ret t] by (auto simp: slept_def split: if_splits)
  qed
qed

section \<open>The ratios\<close>

lemma sleep_ratio_div:
  assumes "interval \<noteq> 0" "unat time \<le> unat interval"
  shows "\<exists>r. sleep_ratio time interval = Inr r \<and> unat r = unat time * 100 div unat interval"
proof -
  have n: "0 < unat interval" using assms(1) by (simp add: unat_gt_0)
  have up: "unat (ucast w :: u64) = unat w" for w :: u32
    using unsigned_less [where w = w and 'a = nat] by (simp add: unsigned_ucast_eq take_bit_nat_eq_self)
  have le: "unat time * 100 div unat interval \<le> 100"
    using n assms(2) by (metis div_le_mono mult_le_mono1 nonzero_mult_div_cancel_left mult.commute less_not_refl)
  show ?thesis
  proof (cases "time > (- 1) div 100")
    case True
    have "unat ((ucast time :: u64) * 100) = unat time * 100"
      using unsigned_less [where w = time and 'a = nat] by (simp add: unat_word_ariths up)
    then have "unat ((ucast time :: u64) * 100 div ucast interval) = unat time * 100 div unat interval"
      by (simp add: unat_div up)
    with le True assms(1) show ?thesis by (simp add: sleep_ratio_def unsigned_ucast_eq take_bit_nat_eq_self)
  next
    case False
    then have "unat time \<le> unat ((- 1) div 100 :: u32)" by (simp add: word_le_nat_alt not_less)
    then have "unat time * 100 < 2 ^ 32" by (simp add: unat_div)
    then have "unat (time * 100) = unat time * 100" by (simp add: unat_word_ariths)
    with le False assms(1) show ?thesis by (simp add: sleep_ratio_def unat_div unsigned_ucast_eq take_bit_nat_eq_self)
  qed
qed


definition ratio_sum :: "sleep \<Rightarrow> nat" where
  "ratio_sum s = unat (sl_light_ratio s) + unat (sl_sys_ratio s) + unat (sl_chip_ratio s)"

definition time_sum :: "u32 \<times> u32 \<times> u32 \<Rightarrow> nat" where
  "time_sum x = (case x of (l, m, c) \<Rightarrow> unat l + unat m + unat c)"

lemma time_sum_add:
  assumes "add_one (of_nat n) x y" "time_sum x + n < 2 ^ 32"
  shows "time_sum y = time_sum x + n"
proof -
  have add: "unat (a + of_nat n :: u32) = unat a + n" if "unat a + n < 2 ^ 32" for a
    using that by (simp add: unat_word_ariths unsigned_of_nat take_bit_nat_eq_self)
  from assms add show ?thesis by (cases x) (auto simp: add_one_def time_sum_def)
qed

lemma publish_sum:
  assumes "time_sum (times_of s) \<le> unat (cur - sl_start s)" "cur \<noteq> sl_start s"
  shows "\<exists>t. publish_ratios cur s = Inr t \<and> ratio_sum t \<le> 100 \<and> sl_start t = cur \<and> times_of t = (0, 0, 0) \<and> sl_valid t"
proof -
  let ?n = "unat (cur - sl_start s)"
  have n: "cur - sl_start s \<noteq> 0" "0 < ?n" using assms(2) by (simp_all add: unat_gt_0)
  have sum: "unat (sl_light_time s) + unat (sl_sys_time s) + unat (sl_chip_time s) \<le> ?n"
    using assms(1) by (simp add: time_sum_def times_of_def)
  then have le: "unat (sl_light_time s) \<le> ?n" "unat (sl_sys_time s) \<le> ?n" "unat (sl_chip_time s) \<le> ?n" by simp_all
  obtain l d c where r: "sleep_ratio (sl_light_time s) (cur - sl_start s) = Inr l" "unat l = unat (sl_light_time s) * 100 div ?n"
    "sleep_ratio (sl_sys_time s) (cur - sl_start s) = Inr d" "unat d = unat (sl_sys_time s) * 100 div ?n"
    "sleep_ratio (sl_chip_time s) (cur - sl_start s) = Inr c" "unat c = unat (sl_chip_time s) * 100 div ?n"
    using sleep_ratio_div [OF n(1) le(1)] sleep_ratio_div [OF n(1) le(2)] sleep_ratio_div [OF n(1) le(3)] by blast
  have "(unat l + unat d + unat c) * ?n \<le> unat (sl_light_time s) * 100 + unat (sl_sys_time s) * 100 + unat (sl_chip_time s) * 100"
    unfolding r(2,4,6) add_mult_distrib by (intro add_mono div_times_less_eq_dividend)
  also have "\<dots> \<le> 100 * ?n" using sum by simp
  finally have "unat l + unat d + unat c \<le> 100" using n(2) by simp
  with r show ?thesis by (simp add: publish_ratios_def Let_def system_sleep_stat_update_def ratio_sum_def times_of_def)
qed

section \<open>The steps of the module\<close>

text \<open>The times of one run of the idle function are in order, and the period of the statistics is shorter than the timer takes
  to wrap around.\<close>

definition clocked :: "nat \<Rightarrow> nat \<Rightarrow> nat \<Rightarrow> nat \<Rightarrow> nat \<Rightarrow> idle_env \<Rightarrow> sleep \<Rightarrow> bool" where
  "clocked T T0 p w x e s \<longleftrightarrow> T \<le> p \<and> p \<le> w \<and> w \<le> x \<and> id_prev e = of_nat p \<and> id_cur e = of_nat w \<and> id_exit e = of_nat x \<and>
     (sl_started s \<longrightarrow> x - T0 < 2 ^ 32)"

definition period_over :: "nat \<Rightarrow> nat \<Rightarrow> sleep \<Rightarrow> bool" where
  "period_over x T0 s \<longleftrightarrow> sl_started s \<and> unat (sl_interval s) \<le> x - T0"

inductive sleep_reach :: "nat \<Rightarrow> nat \<Rightarrow> sleep \<Rightarrow> bool" where
  Boot: "sleep_reach T T0 (sleep_boot f)"
| Lock: "sleep_reach T T0 s \<Longrightarrow> sleep_reach T T0 (lock_calls [c] s)"
| Hook: "sleep_reach T T0 s \<Longrightarrow> hal_sleep_set_sleep_hook u h s = (r, t) \<Longrightarrow> sleep_reach T T0 t"
| Deep_Hook: "sleep_reach T T0 s \<Longrightarrow> hal_sleep_set_deep_sleep_hook u h s = (r, t) \<Longrightarrow> sleep_reach T T0 t"
| Register: "sleep_reach T T0 s \<Longrightarrow> hal_pm_notif_register v h s = Inr (r, t) \<Longrightarrow> sleep_reach T T0 t"
| Deregister: "sleep_reach T T0 s \<Longrightarrow> hal_pm_notif_deregister v h s = (r, t) \<Longrightarrow> sleep_reach T T0 t"
| Freq: "sleep_reach T T0 s \<Longrightarrow> sleep_reach T T0 (s\<lparr>sl_freq := f\<rparr>)"
| Stats: "sleep_reach T T0 s \<Longrightarrow> T \<le> T' \<Longrightarrow> sleep_reach T' T' (hal_sleep_start_stats a b (of_nat T') s)"
| Idle: "sleep_reach T T0 s \<Longrightarrow> clocked T T0 p w x e s \<Longrightarrow> hal_sleep_proc light e s = Inr (ret, t) \<Longrightarrow>
    sleep_reach x (if period_over x T0 s then x else T0) t"

definition period_ok :: "nat \<Rightarrow> nat \<Rightarrow> sleep \<Rightarrow> bool" where
  "period_ok T T0 s \<longleftrightarrow>
     (sl_started s \<longrightarrow> sl_start s = of_nat T0 \<and> T0 \<le> T \<and> time_sum (times_of s) \<le> T - T0) \<and>
     (sl_valid s \<longrightarrow> ratio_sum s \<le> 100)"

lemma period_ok_cong:
  "stat_of t = stat_of s \<Longrightarrow> times_of t = times_of s \<Longrightarrow> period_ok T T0 t = period_ok T T0 s"
  by (simp add: period_ok_def stat_of_def ratio_sum_def)

lemma exit_sleep_period:
  assumes "exit_sleep e s = Inr t" "id_exit e = of_nat x" "T0 \<le> x" "sl_started s \<longrightarrow> x - T0 < 2 ^ 32" "period_ok x T0 s"
  shows "period_ok x (if period_over x T0 s then x else T0) t"
proof (cases "sl_started s")
  case False
  with assms show ?thesis by (simp add: exit_sleep_def period_over_def period_ok_def)
next
  case True
  with assms(3-5) have start: "sl_start s = of_nat T0" "time_sum (times_of s) \<le> x - T0" "x - T0 < 2 ^ 32"
    by (simp_all add: period_ok_def)
  have diff: "id_exit e - sl_start s = of_nat (x - T0)" using assms(2,3) start(1) by (simp add: of_nat_diff)
  have n: "unat (id_exit e - sl_start s) = x - T0"
    using start(3) unfolding diff by (simp add: unsigned_of_nat take_bit_nat_eq_self)
  have over: "id_exit e - sl_start s \<ge> sl_interval s \<longleftrightarrow> period_over x T0 s"
    using n True by (simp add: word_le_nat_alt period_over_def)
  obtain s1 where s1: "(if period_over x T0 s then publish_ratios (id_exit e) s else Inr s) = Inr s1"
    and tr: "t = s1 \<or> t = on_freq (hal_sysfreq_print_freq_stats (id_print e)) (s1\<lparr>sl_trace_time := id_exit e\<rparr>)"
    using assms(1) True unfolding exit_sleep_def over by (auto split: if_splits)
  from tr have t: "sl_start t = sl_start s1" "sl_started t = sl_started s1" "sl_valid t = sl_valid s1" "ratio_sum t = ratio_sum s1"
    "times_of t = times_of s1"
    by (auto simp: times_of_def on_freq_def ratio_sum_def)
  have "period_ok x (if period_over x T0 s then x else T0) s1"
  proof (cases "period_over x T0 s")
    case pub: True
    with s1 have p: "publish_ratios (id_exit e) s = Inr s1" by simp
    then have "id_exit e \<noteq> sl_start s" by (auto simp: publish_ratios_def Let_def sleep_ratio_def)
    from publish_sum [OF _ this] start(2) n p have "ratio_sum s1 \<le> 100" "sl_start s1 = id_exit e" "times_of s1 = (0, 0, 0)" by auto
    with pub assms(2) show ?thesis by (simp add: period_ok_def time_sum_def)
  next
    case False
    with s1 assms(5) show ?thesis by simp
  qed
  with t show ?thesis by (simp add: period_ok_def)
qed

lemma proc_period:
  assumes "hal_sleep_proc light e s = Inr (ret, t)" "clocked T T0 p w x e s" "period_ok T T0 s"
  shows "period_ok x (if period_over x T0 s then x else T0) t"
proof -
  from assms(1) obtain u where u: "idle_sleep light e s = (ret, u)" "exit_sleep e u = Inr t" by (rule proc_idle)
  note eff = idle_effect [OF u(1)]
  have same: "sl_started u = sl_started s" "sl_interval u = sl_interval s" using eff by (simp_all add: stat_of_def)
  have c: "T \<le> p" "p \<le> w" "w \<le> x" "id_cur e - id_prev e = of_nat (w - p)" "id_exit e = of_nat x" "sl_started s \<longrightarrow> x - T0 < 2 ^ 32"
    using assms(2) by (auto simp: clocked_def of_nat_diff)
  have ok: "period_ok x T0 u"
  proof (cases "sl_started s")
    case True
    with assms(3) have s: "T0 \<le> T" "time_sum (times_of s) \<le> T - T0" "sl_start s = of_nat T0" by (simp_all add: period_ok_def)
    have "time_sum (times_of u) \<le> x - T0"
    proof (cases "slept light e s")
      case sl: True
      then have "add_one (of_nat (w - p)) (times_of s) (times_of u)" using eff True c(4) by simp
      from time_sum_add [OF this] s(1,2) c True show ?thesis by simp
    next
      case False
      with eff s c show ?thesis by simp
    qed
    with s c eff assms(3) show ?thesis by (auto simp: period_ok_def stat_of_def ratio_sum_def)
  next
    case False
    with assms(3) eff show ?thesis by (auto simp: period_ok_def stat_of_def ratio_sum_def)
  qed
  show ?thesis
  proof (cases "sl_started s")
    case True
    then have "T0 \<le> x" using assms(3) c by (simp add: period_ok_def)
    from exit_sleep_period [OF u(2) c(5) this _ ok] c(6) same show ?thesis by (simp add: period_over_def)
  next
    case False
    with u(2) ok same show ?thesis by (simp add: exit_sleep_def period_over_def)
  qed
qed


lemma pm_ok_cong:
  "sl_pm_user_cnt t = sl_pm_user_cnt s \<Longrightarrow> sl_pm_user t = sl_pm_user s \<Longrightarrow> sl_pm_notif t = sl_pm_notif s \<Longrightarrow> pm_ok t = pm_ok s"
  by (simp add: pm_ok_def pm_list_def)

definition sleep_ok :: "nat \<Rightarrow> nat \<Rightarrow> sleep \<Rightarrow> bool" where
  "sleep_ok T T0 s \<longleftrightarrow> locks_logged s \<and> pm_ok s \<and> period_ok T T0 s"

lemma boot_ok: "sleep_ok T T0 (sleep_boot f)"
  by (simp add: sleep_ok_def locks_logged_def cpu.tracks_def sys.tracks_def chip.tracks_def lock_word_def sleep_boot_def pm_ok_def
      pm_list_def pm_sorted_def period_ok_def)

lemma stats_ok: "sleep_ok T T0 s \<Longrightarrow> sleep_ok T' T' (hal_sleep_start_stats a b (of_nat T') s)"
  using locks_logged_cong [of "hal_sleep_start_stats a b (of_nat T') s" s] pm_ok_cong [of "hal_sleep_start_stats a b (of_nat T') s" s]
  by (auto simp: sleep_ok_def hal_sleep_start_stats_def Let_def period_ok_def time_sum_def times_of_def ratio_sum_def)

lemma same_ok:
  assumes "sleep_ok T T0 s" "sl_calls t = sl_calls s" "sl_locks t = sl_locks s" "pm_ok t" "stat_of t = stat_of s" "times_of t = times_of s"
  shows "sleep_ok T T0 t"
  using assms period_ok_cong [OF assms(5,6)] locks_logged_cong [OF assms(3,2)] by (simp add: sleep_ok_def)

lemma drives_pm_ok: "drives s t ds \<Longrightarrow> pm_ok t = pm_ok s"
  using pm_ok_cong [of t s] by (simp add: drives_def)

lemma hooks_set_ok:
  assumes "sleep_ok T T0 s"
  shows "sleep_ok T T0 (snd (hal_sleep_set_sleep_hook u h s))" "sleep_ok T T0 (snd (hal_sleep_set_deep_sleep_hook u h s))"
  using assms pm_ok_cong [of "snd (hal_sleep_set_sleep_hook u h s)" s] pm_ok_cong [of "snd (hal_sleep_set_deep_sleep_hook u h s)" s]
  by (intro same_ok [OF assms]; simp add: hal_sleep_set_sleep_hook_def hal_sleep_set_deep_sleep_hook_def stat_of_def times_of_def sleep_ok_def)+

lemma register_same:
  assumes "hal_pm_notif_register v h s = Inr (r, t)"
  shows "sl_calls t = sl_calls s \<and> sl_locks t = sl_locks s \<and> stat_of t = stat_of s \<and> times_of t = times_of s"
  using assms by (auto simp: hal_pm_notif_register_def stat_of_def times_of_def split: prod.splits)

lemma deregister_same:
  assumes "hal_pm_notif_deregister v h s = (r, t)"
  shows "sl_calls t = sl_calls s \<and> sl_locks t = sl_locks s \<and> stat_of t = stat_of s \<and> times_of t = times_of s"
proof -
  have "t = s \<or> (\<exists>us ns c. t = s\<lparr>sl_pm_user := us, sl_pm_notif := ns, sl_pm_user_cnt := c\<rparr>)"
    using assms unfolding hal_pm_notif_deregister_def Let_def by (auto split: if_splits option.splits)
  then show ?thesis by (auto simp: stat_of_def times_of_def)
qed

lemma idle_ok:
  assumes "sleep_ok T T0 s" "clocked T T0 p w x e s" "hal_sleep_proc light e s = Inr (ret, t)"
  shows "sleep_ok x (if period_over x T0 s then x else T0) t"
proof -
  from proc_drives [OF assms(3)] obtain ds where "drives s t ds" by blast
  then have "locks_logged s \<longrightarrow> locks_logged t" "pm_ok t = pm_ok s" by (simp_all add: drives_pm_ok) (simp add: drives_def)
  with assms(1) proc_period [OF assms(3,2)] show ?thesis by (simp add: sleep_ok_def)
qed

lemma sleep_reach_ok: "sleep_reach T T0 s \<Longrightarrow> sleep_ok T T0 s"
proof (induction rule: sleep_reach.induct)
  case (Lock T T0 s c)
  then show ?case
    using locks_logged_calls [of s "[c]"] calls_only_fields [OF lock_calls_only [of s "[c]"]]
      period_ok_cong [of "lock_calls [c] s" s] pm_ok_cong [of "lock_calls [c] s" s]
    by (simp add: sleep_ok_def stat_of_def times_of_def)
next
  case (Hook T T0 s u h r t)
  then show ?case using hooks_set_ok(1) [of T T0 s u h] by simp
next
  case (Deep_Hook T T0 s u h r t)
  then show ?case using hooks_set_ok(2) [of T T0 s u h] by simp
next
  case (Register T T0 s v h r t)
  then have "pm_ok t" using register_refines [of s v h] by (auto simp: sleep_ok_def)
  with register_same [OF Register.hyps(2)] show ?case by (intro same_ok [OF Register.IH]) simp_all
next
  case (Deregister T T0 s v h r t)
  then have "pm_ok t" using deregister_refines [of s v h r t] by (simp add: sleep_ok_def)
  with deregister_same [OF Deregister.hyps(2)] show ?case by (intro same_ok [OF Deregister.IH]) simp_all
next
  case (Freq T T0 s f)
  then have "pm_ok (s\<lparr>sl_freq := f\<rparr>)" by (simp add: sleep_ok_def pm_ok_def pm_list_def)
  then show ?case by (intro same_ok [OF Freq.IH]) (simp_all add: stat_of_def times_of_def)
qed (rule boot_ok, erule stats_ok, erule (2) idle_ok)


section \<open>Properties\<close>




text \<open>An environment in which nothing is busy and no hook refuses, and one run in it.\<close>

definition quiet_idle :: idle_env where
  "quiet_idle = \<lparr>id_lpu_busy = False, id_dma_busy = False, id_trace_busy = False, id_irq_pending = False,
     id_hook = (\<lambda>_. (False, [])), id_notif = (\<lambda>_ _. []), id_prev = 0, id_cur = 16, id_exit = 32, id_print = 32\<rparr>"

definition idle_boot :: sleep where
  "idle_boot = sleep_boot (sf_boot HAL_CMU_FREQ_26M 0)"


lemma run_quiet: "case hal_sleep_enter_sleep quiet_idle idle_boot of Inl er \<Rightarrow> False | Inr (r, t) \<Rightarrow>
    r = HAL_SLEEP_STATUS_DEEP \<and> Cmu_Lpu_Sleep HAL_CMU_LPU_SLEEP_MODE_CHIP \<in> set (sl_calls t)"
  by code_simp

lemma quiet_result:
  obtains t where "hal_sleep_enter_sleep quiet_idle idle_boot = Inr (HAL_SLEEP_STATUS_DEEP, t)"
    "Cmu_Lpu_Sleep HAL_CMU_LPU_SLEEP_MODE_CHIP \<in> set (sl_calls t)"
  using run_quiet by (auto split: sum.splits prod.splits)

lemma idle_boot_reach: "sleep_reach T T0 idle_boot"
  unfolding idle_boot_def by (rule sleep_reach.Boot)

lemma idle_boot_calls [simp]: "sl_calls idle_boot = []" "pm_list idle_boot = []"
  by (simp_all add: idle_boot_def sleep_boot_def pm_list_def)



text \<open>C8: What is stopped is started again, in reverse order, on every path. One run of the idle function calls no driver, or waits for an
  interrupt, or stops the modules that are registered, the analogue parts and the flash, lets the system sleep unless an interrupt is
  pending already, and wakes exactly what it had stopped, the last first.\<close>

theorem modules_woken:
  assumes "sleep_reach T T0 s" and "hal_sleep_enter_sleep e s = Inr (ret, t)"
  shows "\<exists>new. sl_calls t = sl_calls s @ new \<and>
    (ret = HAL_SLEEP_STATUS_LIGHT \<and> driver_calls new \<in> {[], [Wfi]} \<or>
     (\<exists>chip mid. driver_calls new = stops chip (map snd (pm_list s)) @ mid @ map woken (rev (stops chip (map snd (pm_list s)))) \<and>
        (ret = HAL_SLEEP_STATUS_LIGHT \<and> mid = [] \<or> ret = HAL_SLEEP_STATUS_DEEP \<and> (\<exists>m. mid = [Cmu_Lpu_Sleep m]))))"
proof -
  have reg: "registered s = map snd (pm_list s)"
    using sleep_reach_ok [OF assms(1)] by (simp add: sleep_ok_def registered_pm_list)
  note r = enter_drives [OF assms(2)]
  from r(1) obtain new where new: "sl_calls t = sl_calls s @ new" "driver_calls new = idle_drivers e s" by (auto simp: drives_def)
  have light: "ret = HAL_SLEEP_STATUS_LIGHT \<longleftrightarrow> ret \<noteq> HAL_SLEEP_STATUS_DEEP" by (cases ret) simp_all
  have "driver_calls new \<in> {[], [Wfi]} \<and> ret = HAL_SLEEP_STATUS_LIGHT \<or> \<not> kept_awake e s \<and> \<not> kept_light e s \<and> \<not> deep_refused e s"
    using r(2) light by (simp add: new(2) idle_drivers_def)
  then consider "driver_calls new \<in> {[], [Wfi]} \<and> ret = HAL_SLEEP_STATUS_LIGHT" | "\<not> kept_awake e s" "\<not> kept_light e s" "\<not> deep_refused e s"
    by blast
  then show ?thesis
  proof cases
    case 1
    with new(1) show ?thesis by blast
  next
    case 2
    let ?c = "chip_free (stop_normal e (after_deep_hooks e s))"
    let ?mid = "if id_irq_pending e then [] else [Cmu_Lpu_Sleep (lpu_mode (after_deep_hooks e s))]"
    from 2 new(2) have "driver_calls new = stops ?c (map snd (pm_list s)) @ ?mid @ map woken (rev (stops ?c (map snd (pm_list s))))"
      by (simp add: idle_drivers_def Let_def reg)
    moreover have "ret = HAL_SLEEP_STATUS_LIGHT \<and> ?mid = [] \<or> ret = HAL_SLEEP_STATUS_DEEP \<and> (\<exists>m. ?mid = [Cmu_Lpu_Sleep m])"
      using 2 r(2) light by simp
    ultimately show ?thesis using new(1) by blast
  qed
qed

theorem modules_woken_witness:
  "\<exists>t chip m. hal_sleep_enter_sleep quiet_idle idle_boot = Inr (HAL_SLEEP_STATUS_DEEP, t) \<and>
     driver_calls (sl_calls t) = stops chip [] @ [Cmu_Lpu_Sleep m] @ map woken (rev (stops chip []))"
proof -
  obtain t where t: "hal_sleep_enter_sleep quiet_idle idle_boot = Inr (HAL_SLEEP_STATUS_DEEP, t)" by (rule quiet_result)
  from modules_woken [OF idle_boot_reach t] obtain chip m
    where "driver_calls (sl_calls t) = stops chip [] @ [Cmu_Lpu_Sleep m] @ map woken (rev (stops chip []))" by auto
  with t show ?thesis by (intro exI conjI)
qed


text \<open>C9: The register of the modules is a list sorted by rank without duplicates, and each operation on the arrays is the one on that list:
  registering fails its assertion exactly for \<open>NULL\<close>, a full register or a known handler, and otherwise puts the handler behind those of
  a higher rank; deregistering takes it out, and says whether it was there.\<close>

theorem pm_register_refines:
  assumes "sleep_reach T T0 s"
  shows "pm_sorted (pm_list s) \<and> length (pm_list s) \<le> PM_NOTIF_HDLR_CNT \<and>
    (case hal_pm_notif_register u h s of
       Inl err \<Rightarrow> err = Assert_Fail \<and> (h = 0 \<or> length (pm_list s) = PM_NOTIF_HDLR_CNT \<or> h \<in> snd ` set (pm_list s))
     | Inr (r, t) \<Rightarrow> r = 0 \<and> h \<noteq> 0 \<and> h \<notin> snd ` set (pm_list s) \<and> pm_list t = spec_register u h (pm_list s)) \<and>
    (case hal_pm_notif_deregister u h s of (r, t) \<Rightarrow>
       pm_list t = spec_deregister h (pm_list s) \<and> r = (if h = 0 then 1 else if h \<in> snd ` set (pm_list s) then 0 else 2))"
proof -
  have ok: "pm_ok s" using sleep_reach_ok [OF assms] by (simp add: sleep_ok_def)
  obtain r t where d: "hal_pm_notif_deregister u h s = (r, t)" by fastforce
  have "length (pm_list s) \<le> PM_NOTIF_HDLR_CNT" "pm_sorted (pm_list s)"
    using ok pm_ok_handlers(2) [OF ok] by (simp_all add: pm_ok_def)
  then show ?thesis using register_refines [OF ok, of u h] deregister_refines [OF ok d] d by (elim disjE exE conjE) simp_all
qed

theorem pm_register_refines_witness:
  "\<exists>t. hal_pm_notif_register HAL_PM_USER_DRV 7 idle_boot = Inr (0, t) \<and> pm_list t = [(HAL_PM_USER_DRV, 7)]"
proof -
  have "case hal_pm_notif_register HAL_PM_USER_DRV 7 idle_boot of Inl er \<Rightarrow> False | Inr (r, t) \<Rightarrow> True" by code_simp
  with pm_register_refines [OF idle_boot_reach [of 0 0], where u = HAL_PM_USER_DRV and h = 7] show ?thesis
    by (auto simp: spec_register_def split: sum.splits prod.splits)
qed

text \<open>C10: The shares of the time that are reported add up. In every run whose periods are shorter than the timer takes to wrap around, the
  busy, light, system and chip sleep percentages are numbers that sum up to 100.\<close>

theorem cpu_usage_adds_up:
  assumes "sleep_reach T T0 s" and "hal_sleep_get_stats s = Some u"
  shows "unat (cu_busy u) + unat (cu_light u) + unat (cu_sys u) + unat (cu_chip u) = 100"
proof -
  have "sl_valid s" "u = \<lparr>cu_busy = 100 - (sl_light_ratio s + sl_sys_ratio s + sl_chip_ratio s), cu_light = sl_light_ratio s,
      cu_sys = sl_sys_ratio s, cu_chip = sl_chip_ratio s\<rparr>"
    using assms(2) by (auto simp: hal_sleep_get_stats_def split: if_splits)
  moreover have "sl_valid s \<longrightarrow> ratio_sum s \<le> 100"
    using sleep_reach_ok [OF assms(1)] by (simp add: sleep_ok_def period_ok_def)
  moreover have "unat (100 - (a + b + c) :: u8) = 100 - (unat a + unat b + unat c)" if "unat a + unat b + unat c \<le> 100" for a b c
    using that by (simp add: unat_sub word_le_nat_alt unat_word_ariths)
  ultimately show ?thesis by (simp add: ratio_sum_def)
qed

theorem cpu_usage_adds_up_witness:
  "\<exists>s u. hal_sleep_get_stats s = Some u \<and> cu_chip u = 50 \<and> unat (cu_busy u) + unat (cu_light u) + unat (cu_sys u) + unat (cu_chip u) = 100"
proof -
  let ?s = "hal_sleep_start_stats 1 0 0 idle_boot"
  have "case hal_sleep_proc False quiet_idle ?s of Inl er \<Rightarrow> False | Inr (r, t) \<Rightarrow>
      (case hal_sleep_get_stats t of None \<Rightarrow> False | Some u \<Rightarrow> cu_chip u = 50)" by code_simp
  then obtain r t u where t: "hal_sleep_proc False quiet_idle ?s = Inr (r, t)" "hal_sleep_get_stats t = Some u" "cu_chip u = 50"
    by (auto split: sum.splits prod.splits option.splits)
  have "sleep_reach 0 0 ?s" using sleep_reach.Stats [OF idle_boot_reach, of 0 0 1 0] by simp
  moreover have "clocked 0 0 0 16 32 quiet_idle ?s" by (simp add: clocked_def quiet_idle_def)
  ultimately have "\<exists>T0. sleep_reach 32 T0 t" using t(1) by (blast intro: sleep_reach.Idle)
  with cpu_usage_adds_up t(2,3) show ?thesis by blast
qed




end
