(* ===== verification/Spec2Isabelle.thy ===== *)
theory Spec2Isabelle
  imports CQueue KFifo SysFreq SysPool KeyHold BtRecInv HwTimerRun NvStoreRun BleRun BleRecInv BleActvLive SleepRun
begin

text \<open>
  A verification library for the firmware of a Bluetooth headset on the best1502x chip. The firmware
  is layered: a hardware layer (\<open>platform/hal\<close>), utilities that every layer uses (\<open>utils\<close>), the
  services above them (\<open>services\<close>), the Bluetooth host (\<open>bthost\<close>) and the applications (\<open>apps\<close>).
  The library models the modules of the lower layers that keep state of their own and that the others
  rely on, and of the Bluetooth side the two layers that decide what the BLE radio does. The build is the one of \<open>config/best1502x_ibrt_anc\<close>: an RTOS, IBRT, no LE audio, user data
  in flash, no keys on the ADC, four owners of the system pool, fifteen software timers.

  The code is translated to functions on records that hold the module's static variables. Machine
  integers are words of their width. An operation that can hit an \<open>ASSERT\<close>, access memory out
  of bounds, divide by zero or loop without end returns a \<open>c_error + 'a\<close> (\<open>Prelude.thy\<close>): \<open>Assert_Fail\<close>, \<open>Mem_Fault\<close>,
  \<open>Div_Zero\<close> and \<open>No_Return\<close> are values that the theorems show not to occur, or to occur. Trace output, locks and
  memory protection calls change nothing in the model: an operation is one atomic step, as the
  critical sections of the code make it, and the steps of tasks and interrupts interleave freely
  where a component has a step relation or a run.

  The parts, from the bottom up:

  \<^item> \<open>Prelude.thy\<close>: the outcome type and its \<open>bindE\<close>, block reads and writes that check
    their bounds, rings (an array read from an offset on, wrapping around), a monadic fold.

  \<^item> \<open>Fifo.thy\<close>: the abstract queue of bytes and the locale \<open>byte_queue\<close>, a contract between
    a ring buffer and its clients. Two modules provide it: \<open>CQueue.thy\<close> is \<open>utils/cqueue/cqueue.c\<close>
    (a queue that refuses what does not fit), \<open>KFifo.thy\<close> is \<open>utils/kfifo/kfifo.c\<close> (a size that is a power of
    two, counters that wrap around, what does not fit is cut off). Any sequence of operations
    refines the abstract queue; peeks read what is in it; \<open>EnCQueue_AI\<close>, which drops the oldest
    frames to make room, returns exactly when the frame lengths in the queue let it.

  \<^item> \<open>SysFreq.thy\<close> is \<open>platform/hal/hal_sysfreq.c\<close>: votes of 37 users for a system frequency,
    the order of voltage and clock changes, and the statistics of the time at each
    frequency. The clock and power units are a record that logs the calls. The arbiter
    runs at the highest vote and loses no time in its statistics; the supply is configured in time for
    all votes but those between 32K and 26M.

  \<^item> \<open>Sleep.thy\<close>, \<open>SleepInv.thy\<close>, \<open>SleepRun.thy\<close> are \<open>platform/hal/hal_sleep.c\<close>: wake locks, hooks, the register of the modules
    that are told, and the idle function, which reads the votes of \<open>SysFreq\<close> and books the time asleep there. The
    locale \<open>wake_lock\<close> is the contract between a word of lock bits and its users, interpreted for the locks of the
    processor, the system and the chip. \<open>sleep_reach\<close> has the steps of the module with the time as a natural number. The idle function
    sleeps exactly as deeply as it may, wakes what it stopped in reverse order, its percentages add up, and it loses no time;
    it traps for one period of the statistics. The build is the one without \<open>DEBUG\<close>, power-down of the core and PSRAM.

  \<^item> \<open>SysPool.thy\<close> is \<open>utils/heap/pool_api.c\<close>: bump allocators over fixed buffers, for the system, for the
    second core, and for the Bluetooth pool with its owners. The locale \<open>bump_pool\<close> is their contract; the buffers
    of a session are aligned, disjoint and inside the pool. A request close to \<open>2 ^ 32\<close> wraps
    around and is granted no memory.

  \<^item> \<open>KeyPins.thy\<close>, \<open>Key.thy\<close>, \<open>KeyInv.thy\<close>, \<open>KeyHold.thy\<close> are \<open>platform/hal/hal_key.c\<close>: pin maps as
    sets of pins, the interrupts of the power key and the GPIO keys, the debounce timer, and the
    recogniser of clicks, double clicks and long presses. A step is an interrupt, a timer tick, a change of a
    pin or a call. In every reachable state a pressed key is being debounced or has its
    interrupt enabled; no assertion fails; reports alternate; a short press and a hold are reported
    as what they are.

  \<^item> \<open>Crc.thy\<close> is \<open>utils/crc32/crc32.c\<close>: the table is the one its generator computes, the loop
    divides bit by bit by the polynomial, a change of one byte changes the checksum.

  \<^item> \<open>NvStore.thy\<close>, \<open>NvStoreInv.thy\<close>, \<open>NvStoreRun.thy\<close> are
    \<open>services/nv_section/userdata_section/nvrecord_extension.c\<close>: the record of user data, its mirror in RAM, a main and
    a backup sector of flash, and the state machine that writes them. The flash driver is C++ and stands
    as what its header promises (requests in a buffer of bounded size, carried out in order one at a time);
    a power failure may tear any erase or write, and leaves a sector that fails its check. The locale
    \<open>flash_client\<close> states what the store's loops need of an invariant under the driver; its interpretation is the
    invariant \<open>Inv\<close>. One valid sector survives every failure, a flushed record comes back, and no older one comes
    back once both sectors are written; two theorems show where the code falls short of that.

  \<^item> \<open>Mru.thy\<close>: arrays of records with the most recently used first, and the locale \<open>mru_store\<close>.
    \<open>BtRec.thy\<close> and \<open>BtRecInv.thy\<close> are \<open>services/nv_section/userdata_section/nvrecord_bt.c\<close>: the paired phones, in the
    record that the store above keeps. Any session leaves the list of the eight last ones without
    duplicates; a phone is remembered until eight others were paired; clients are told; a
    change asks for a flush.

  \<^item> \<open>HwTimer.thy\<close>, \<open>HwTimerInv.thy\<close>, \<open>HwTimerRun.thy\<close> are \<open>utils/hwtimer_list/hwtimer_list.c\<close>, with the
    parts of \<open>platform/hal/hal_timer.c\<close> that it calls: timers in linked lists sorted by deadline over one hardware timer. The
    lists hold exactly the free, active and fired timers, no call fails an assertion, and starting, stopping
    and the interrupt keep the deadlines of all others up to the ticks that the hardware needs.

  \<^item> \<open>BleAdv.thy\<close>, \<open>BleMode.thy\<close>, \<open>BleModeInv.thy\<close>, \<open>BleServe.thy\<close>, \<open>BleRun.thy\<close> are
    \<open>bthost/service/ble_app/app_main/app_ble_mode_switch.c\<close> and \<open>app_ble_param_config.c\<close>: the scheduler that
    lets one of advertising, scanning, connecting, disconnecting and the setting of the two address lists
    run at a time. \<open>BleAdv\<close> computes the parameters of the advertisements; \<open>BleMode\<close> has the requests, the functions
    posted to the thread and the end of an action, with the calls to the layer below as a log; \<open>BleModeInv\<close> shows that exactly one
    posted function or one action in progress holds the scheduler; \<open>BleServe\<close> and \<open>BleRun\<close> that every
    request is served, after at most twice as many rounds as there are requests kept, plus three, when the layer below ends its
    actions.

  \<^item> \<open>BleActv.thy\<close> is that layer below: the activities of \<open>app_main/app.c\<close>, each a state machine of commands
    to the Bluetooth host, with the handlers of \<open>app_main/app_task.c\<close> that take the host's answers. Scheduler and activities call
    each other, so that both are one state (\<open>ble_sys\<close>). \<open>BleActvStep.thy\<close> states what is required of the host (\<open>enabled\<close>: it answers
    what it was sent, creates activities that were free) and the steps of the two layers (\<open>sys_reach r\<close>; with \<open>r\<close> devices may be put into
    the resolving list). The invariant is in two parts: \<open>BleActvInv.thy\<close> types the activities and the commands that are owed
    for them, \<open>BleActvPhase.thy\<close> says what the action in progress waits for. \<open>BleActvOps\<close>, \<open>BleActvLinks\<close>,
    \<open>BleActvFsm\<close>, \<open>BleActvNew\<close>, \<open>BleActvHost\<close> and \<open>BleActvThread\<close> show that each operation keeps it,
    \<open>BleActvRun.thy\<close> that every step does. \<open>BleActvRefine.thy\<close> shows that the scheduler within the two layers only makes steps
    of its own relation in \<open>BleRun\<close>; \<open>BleActvWork.thy\<close> measures the work that the host still has, and
    \<open>BleActvLive.thy\<close> concludes that every operation ends, and shows two ways in which the code falls short: an assertion
    that fails when a scan is asked for while one is torn down, and a resolving list that waits for a scan that nobody stops.

  \<^item> \<open>BleRec.thy\<close>, \<open>BleRecInv.thy\<close> are \<open>services/nv_section/userdata_section/nvrecord_ble.c\<close>: the
    paired BLE devices with their keys, in the same record as the phones, and their exchange with the other
    earbud. They use the locale \<open>mru_store\<close> too.

  Bounds. The loops over the timers have fuel \<open>HWTIMER_NUM + 1\<close>: a list of distinct timers is not longer, and
  the theorems show that the fuel never runs out. The waiting loops of the store have a number of rounds
  \<open>n\<close>; it is enough when it exceeds the capacity of the driver's buffer by more than three, which the theorems
  assume. The same fuel serves the handler that calls the
  fired timers back, as callbacks cannot fire one. Other loops are structural.

  Of the Bluetooth host the modelled layers use the commands and answers named above; of its contract the
  liveness results need that it answers, the safety results only what it answers.

  Not modelled. The drivers of peripherals, codecs and radio only move values to and from registers that the source
  does not define the effect of. The Bluetooth stack, the audio chains and most of \<open>apps\<close> are C++ or glue between
  libraries that are not in the tree; DSP code, tables, prompts and fonts are data or vendored. Of
  the modules above, printing and tests are left out, and so are builds with other switches than the
  ones named. Races on words that the code does not protect are outside the model. \<open>PROJECT.json\<close> lists the parts one by one.
\<close>

end
